(* ===== verification/Prelude.thy ===== *)
theory Prelude
  imports Main "HOL-Library.Word"
begin

unbundle bit_operations_syntax

text \<open>
  Shared vocabulary of the development: the driver's fixed-width integer types, the
  byte-order macros of \<^verbatim>\<open>include/osdep_service.h\<close>, bytewise exclusive-or of buffers,
  and the collections of rewrite rules the component theories use.

  A \<^verbatim>\<open>u8 *\<close> buffer is a list of bytes; a pair of a pointer and a length argument is the list
  of exactly that many bytes; pointer arithmetic \<open>p + n\<close> is \<open>drop n p\<close>.
\<close>

type_synonym u8 = "8 word"
type_synonym u16 = "16 word"
type_synonym u32 = "32 word"
type_synonym u64 = "64 word"
type_synonym bytes = "u8 list"

named_theorems byte_order \<open>encode/decode rules of the byte-order macros\<close>
named_theorems buf_len \<open>lengths of the buffers the operations produce\<close>

section \<open>Byte-order macros\<close>

definition RTW_GET_BE16 :: "bytes \<Rightarrow> u16" where
  "RTW_GET_BE16 a = (push_bit 8 (ucast (a ! 0)) OR ucast (a ! 1))"

definition RTW_PUT_BE16 :: "u16 \<Rightarrow> bytes" where
  "RTW_PUT_BE16 v = [ucast (drop_bit 8 v), ucast (v AND 0xff)]"

definition RTW_GET_LE16 :: "bytes \<Rightarrow> u16" where
  "RTW_GET_LE16 a = (push_bit 8 (ucast (a ! 1)) OR ucast (a ! 0))"

definition RTW_PUT_LE16 :: "u16 \<Rightarrow> bytes" where
  "RTW_PUT_LE16 v = [ucast (v AND 0xff), ucast (drop_bit 8 v)]"

definition RTW_GET_BE24 :: "bytes \<Rightarrow> u32" where
  "RTW_GET_BE24 a =
     (push_bit 16 (ucast (a ! 0)) OR push_bit 8 (ucast (a ! 1)) OR ucast (a ! 2))"

definition RTW_GET_BE32 :: "bytes \<Rightarrow> u32" where
  "RTW_GET_BE32 a =
     (push_bit 24 (ucast (a ! 0)) OR push_bit 16 (ucast (a ! 1)) OR
      push_bit 8 (ucast (a ! 2)) OR ucast (a ! 3))"

definition RTW_PUT_BE32 :: "u32 \<Rightarrow> bytes" where
  "RTW_PUT_BE32 v =
     [ucast (drop_bit 24 v AND 0xff), ucast (drop_bit 16 v AND 0xff),
      ucast (drop_bit 8 v AND 0xff), ucast (v AND 0xff)]"

definition RTW_GET_LE32 :: "bytes \<Rightarrow> u32" where
  "RTW_GET_LE32 a =
     (push_bit 24 (ucast (a ! 3)) OR push_bit 16 (ucast (a ! 2)) OR
      push_bit 8 (ucast (a ! 1)) OR ucast (a ! 0))"

definition RTW_PUT_LE32 :: "u32 \<Rightarrow> bytes" where
  "RTW_PUT_LE32 v =
     [ucast (v AND 0xff), ucast (drop_bit 8 v AND 0xff),
      ucast (drop_bit 16 v AND 0xff), ucast (drop_bit 24 v AND 0xff)]"

definition RTW_PUT_BE64 :: "u64 \<Rightarrow> bytes" where
  "RTW_PUT_BE64 v =
     [ucast (drop_bit 56 v), ucast (drop_bit 48 v), ucast (drop_bit 40 v),
      ucast (drop_bit 32 v), ucast (drop_bit 24 v), ucast (drop_bit 16 v),
      ucast (drop_bit 8 v), ucast (v AND 0xff)]"

section \<open>Words as sequences of bits\<close>

text \<open>
  Equality of words is equality of their bits; the mask \<open>0xff\<close> of the macros keeps the low
  eight of them.
\<close>

lemma word_eqI_bits:
  fixes a b :: "'a::len word"
  assumes "\<And>n. n < LENGTH('a) \<Longrightarrow> bit a n \<longleftrightarrow> bit b n"
  shows "a = b"
  by (rule bit_word_eqI) (rule assms)

lemma and_0xff: "x AND 0xff = take_bit 8 (x :: 'a::len word)"
  by (simp add: take_bit_eq_mask mask_eq_exp_minus_1)

lemma bit_u8_ge [simp]: "8 \<le> n \<Longrightarrow> bit (w :: u8) n = False"
  by (auto dest: bit_imp_le_length)

lemmas word_bits = bit_simps and_0xff

lemma RTW_GET_PUT_BE16 [byte_order]: "RTW_GET_BE16 (RTW_PUT_BE16 v @ xs) = v"
  by (rule word_eqI_bits)
    (auto simp: RTW_GET_BE16_def RTW_PUT_BE16_def word_bits dest: bit_imp_le_length)

lemma RTW_GET_PUT_LE16 [byte_order]: "RTW_GET_LE16 (RTW_PUT_LE16 v @ xs) = v"
  by (rule word_eqI_bits)
    (auto simp: RTW_GET_LE16_def RTW_PUT_LE16_def word_bits dest: bit_imp_le_length)

lemma RTW_GET_PUT_BE32 [byte_order]: "RTW_GET_BE32 (RTW_PUT_BE32 v @ xs) = v"
proof (rule word_eqI_bits)
  fix n assume "n < LENGTH(32)"
  then consider "n < 8" | "8 \<le> n" "n < 16" | "16 \<le> n" "n < 24" | "24 \<le> n" "n < 32" by fastforce
  then show "bit (RTW_GET_BE32 (RTW_PUT_BE32 v @ xs)) n = bit v n"
    by cases (auto simp: RTW_GET_BE32_def RTW_PUT_BE32_def word_bits)
qed

lemma RTW_PUT_GET_BE32 [byte_order]: "RTW_PUT_BE32 (RTW_GET_BE32 [a, b, c, d]) = [a, b, c, d]"
  by (auto intro!: word_eqI_bits simp: RTW_GET_BE32_def RTW_PUT_BE32_def word_bits
      dest: bit_imp_le_length)

lemma RTW_PUT_GET_LE32 [byte_order]: "RTW_PUT_LE32 (RTW_GET_LE32 [a, b, c, d]) = [a, b, c, d]"
  by (auto intro!: word_eqI_bits simp: RTW_GET_LE32_def RTW_PUT_LE32_def word_bits
      dest: bit_imp_le_length)

lemma RTW_GET_LE32_xor:
  "RTW_PUT_LE32 (RTW_GET_LE32 [a, b, c, d] XOR RTW_GET_LE32 [a', b', c', d']) =
     [a XOR a', b XOR b', c XOR c', d XOR d']"
  by (auto intro!: word_eqI_bits simp: RTW_GET_LE32_def RTW_PUT_LE32_def word_bits
      dest: bit_imp_le_length)

lemma length_RTW_PUT [simp, buf_len]:
  "length (RTW_PUT_BE16 x) = 2" "length (RTW_PUT_LE16 x) = 2"
  "length (RTW_PUT_BE32 v) = 4" "length (RTW_PUT_LE32 v) = 4" "length (RTW_PUT_BE64 w) = 8"
  by (simp_all add: RTW_PUT_BE16_def RTW_PUT_LE16_def RTW_PUT_BE32_def RTW_PUT_LE32_def
      RTW_PUT_BE64_def)

text \<open>
  What the published standards mean by the bytes of a number, and by the number some bytes stand
  for, most significant byte first: the reference definitions of the development use these and
  none of the macros above.
\<close>

definition be_bytes :: "nat \<Rightarrow> 'a::len word \<Rightarrow> bytes" where
  "be_bytes n w = map (\<lambda>i. ucast (drop_bit (8 * (n - 1 - i)) w)) [0..<n]"

definition be_word :: "bytes \<Rightarrow> 'a::len word" where
  "be_word bs = foldl (\<lambda>w b. push_bit 8 w OR ucast b) 0 bs"

lemma length_be_bytes [simp, buf_len]: "length (be_bytes n w) = n"
  by (simp add: be_bytes_def)

lemma ucast_and_0xff_u32: "(ucast (v AND 0xff) :: u8) = ucast (v :: u32)"
  by (rule word_eqI_bits) (simp add: word_bits)

lemma ucast_and_0xff_u64: "(ucast (v AND 0xff) :: u8) = ucast (v :: u64)"
  by (rule word_eqI_bits) (simp add: word_bits)

lemma ucast_and_0xff_u16: "(ucast (v AND 0xff) :: u8) = ucast (v :: u16)"
  by (rule word_eqI_bits) (simp add: word_bits)

lemma put_is_be_bytes:
  "RTW_PUT_BE32 v = be_bytes 4 v" "RTW_PUT_BE64 w = be_bytes 8 w" "RTW_PUT_BE16 x = be_bytes 2 x"
  by (simp_all add: RTW_PUT_BE16_def RTW_PUT_BE32_def RTW_PUT_BE64_def be_bytes_def upt_rec eval_nat_numeral
      ucast_and_0xff_u16 ucast_and_0xff_u32 ucast_and_0xff_u64)

lemma get_is_be_word: "RTW_GET_BE32 (a # b # c # d # xs) = be_word [a, b, c, d]"
  by (rule word_eqI_bits) (auto simp: RTW_GET_BE32_def be_word_def word_bits)

section \<open>Exclusive-or of buffers\<close>

definition xor_bytes :: "bytes \<Rightarrow> bytes \<Rightarrow> bytes" where
  "xor_bytes xs ys = map2 (XOR) xs ys"

lemma length_xor_bytes [simp, buf_len]: "length (xor_bytes xs ys) = min (length xs) (length ys)"
  by (simp add: xor_bytes_def)

lemma nth_xor_bytes [simp]:
  "i < length xs \<Longrightarrow> i < length ys \<Longrightarrow> xor_bytes xs ys ! i = xs ! i XOR ys ! i"
  by (simp add: xor_bytes_def)

lemma xor_bytes_Nil [simp]: "xor_bytes [] ys = []" "xor_bytes xs [] = []"
  by (simp_all add: xor_bytes_def)

lemma xor_bytes_Cons [simp]: "xor_bytes (x # xs) (y # ys) = (x XOR y) # xor_bytes xs ys"
  by (simp add: xor_bytes_def)

lemma xor_bytes_commute: "xor_bytes xs ys = xor_bytes ys xs"
  by (rule nth_equalityI) (simp_all add: xor.commute min.commute)

lemma xor_bytes_cancel: "length xs \<le> length ys \<Longrightarrow> xor_bytes (xor_bytes xs ys) ys = xs"
  by (rule nth_equalityI) (simp_all add: xor.assoc)

lemma xor_bytes_cancel_left: "length xs \<le> length ys \<Longrightarrow> xor_bytes ys (xor_bytes ys xs) = xs"
  by (metis xor_bytes_cancel xor_bytes_commute)

lemma xor_bytes_append:
  "length xs = length xs' \<Longrightarrow> xor_bytes (xs @ ys) (xs' @ ys') = xor_bytes xs xs' @ xor_bytes ys ys'"
  by (simp add: xor_bytes_def)

lemma take_xor_bytes: "take n (xor_bytes xs ys) = xor_bytes (take n xs) (take n ys)"
  by (simp add: xor_bytes_def take_map take_zip)

lemma drop_xor_bytes: "drop n (xor_bytes xs ys) = xor_bytes (drop n xs) (drop n ys)"
  by (simp add: xor_bytes_def drop_map drop_zip)

section \<open>Copying into a buffer\<close>

text \<open>\<open>memcpy_at dst off src\<close> is \<^verbatim>\<open>memcpy(dst + off, src, length of src)\<close>.\<close>

definition memcpy_at :: "bytes \<Rightarrow> nat \<Rightarrow> bytes \<Rightarrow> bytes" where
  "memcpy_at dst off src = take off dst @ src @ drop (off + length src) dst"

lemma length_memcpy_at [simp, buf_len]:
  "off + length src \<le> length dst \<Longrightarrow> length (memcpy_at dst off src) = length dst"
  by (simp add: memcpy_at_def)

lemma take_memcpy_at [simp]: "n \<le> off \<Longrightarrow> off \<le> length dst \<Longrightarrow> take n (memcpy_at dst off src) = take n dst"
  by (simp add: memcpy_at_def min_def)

lemma memcpy_at_memcpy_at [simp]:
  "length src = length src' \<Longrightarrow> off + length src \<le> length dst \<Longrightarrow>
   memcpy_at (memcpy_at dst off src) off src' = memcpy_at dst off src'"
  by (simp add: memcpy_at_def)

section \<open>Outcomes of a C function\<close>

text \<open>
  \<open>Ret r\<close>: the function returned \<open>r\<close> having touched only the bytes it was given. \<open>Oob\<close>: it read
  or wrote outside them, which C leaves undefined.
\<close>

datatype 'a c_result = Ret 'a | Oob

fun c_bind :: "'a c_result \<Rightarrow> ('a \<Rightarrow> 'b c_result) \<Rightarrow> 'b c_result" where
  "c_bind (Ret x) f = f x"
| "c_bind Oob f = Oob"

lemma c_bind_Ret_iff: "c_bind m f = Ret y \<longleftrightarrow> (\<exists>x. m = Ret x \<and> f x = Ret y)"
  by (cases m) auto

lemma c_bind_Oob_iff: "c_bind m f = Oob \<longleftrightarrow> m = Oob \<or> (\<exists>x. m = Ret x \<and> f x = Oob)"
  by (cases m) auto

section \<open>Lists of known length\<close>

text \<open>The blocks of the ciphers have 16 bytes: enumerate them.\<close>

lemma length_16_nth:
  "length xs = 16 \<Longrightarrow>
   xs = [xs ! 0, xs ! 1, xs ! 2, xs ! 3, xs ! 4, xs ! 5, xs ! 6, xs ! 7,
         xs ! 8, xs ! 9, xs ! 10, xs ! 11, xs ! 12, xs ! 13, xs ! 14, xs ! 15]"
  using map_nth [of xs, symmetric] by (simp add: upt_rec eval_nat_numeral)

lemma length_16E:
  assumes "length xs = 16"
  obtains a b c d e f g h i j k l m n p q where
    "xs = [a, b, c, d, e, f, g, h, i, j, k, l, m, n, p, q]"
  using length_16_nth [OF assms] by blast

end
