(* ===== verification/TLV.thy ===== *)
theory TLV
  imports Prelude
begin

text \<open>
  Sequences of tagged elements: a header with tag and content length, then the content. The
  information elements of 802.11 frames, the WPS attributes and the P2P attributes are three such
  formats with different headers. The locale states what a format promises; its lemmas say what a
  scanning loop computes on an encoded sequence, whatever the format.
\<close>

section \<open>Memory accesses\<close>

definition c_write :: "bytes \<Rightarrow> nat \<Rightarrow> bytes \<Rightarrow> bytes c_result" where
  "c_write buf off src = (if off + length src \<le> length buf then Ret (memcpy_at buf off src) else Oob)"

definition c_slice :: "bytes \<Rightarrow> nat \<Rightarrow> nat \<Rightarrow> bytes c_result" where
  "c_slice buf off n = (if off + n \<le> length buf then Ret (take n (drop off buf)) else Oob)"

lemma c_slice_append: "off = length pre \<Longrightarrow> n = length mid \<Longrightarrow> c_slice (pre @ mid @ post) off n = Ret mid"
  by (simp add: c_slice_def)

lemma c_write_append:
  "off = length pre \<Longrightarrow> length src = length mid \<Longrightarrow>
   c_write (pre @ mid @ post) off src = Ret (pre @ src @ post)"
  by (simp add: c_write_def memcpy_at_def)

lemma c_write_over:
  "off = length pre \<Longrightarrow> length src \<le> length post \<Longrightarrow>
   c_write (pre @ post) off src = Ret (pre @ src @ drop (length src) post)"
  by (simp add: c_write_def memcpy_at_def)

section \<open>Formats\<close>

locale tlv =
  fixes hdr :: nat
    and enc :: "'tag \<Rightarrow> bytes \<Rightarrow> bytes"
    and fits :: "bytes \<Rightarrow> bool"
  assumes hdr_pos: "0 < hdr"
    and length_enc: "fits c \<Longrightarrow> length (enc t c) = hdr + length c"
    and drop_enc: "fits c \<Longrightarrow> drop hdr (enc t c) = c"
begin

definition encode :: "('tag \<times> bytes) list \<Rightarrow> bytes" where
  "encode els = concat (map (\<lambda>(t, c). enc t c) els)"

definition well_formed :: "('tag \<times> bytes) list \<Rightarrow> bool" where
  "well_formed els \<longleftrightarrow> (\<forall>(t, c) \<in> set els. fits c)"

text \<open>Offset and content length of the first element that satisfies a test.\<close>

fun find_el :: "('tag \<Rightarrow> bytes \<Rightarrow> bool) \<Rightarrow> nat \<Rightarrow> ('tag \<times> bytes) list \<Rightarrow> (nat \<times> nat) option" where
  "find_el m p [] = None"
| "find_el m p ((t, c) # els) = (if m t c then Some (p, length c) else find_el m (p + hdr + length c) els)"

lemma encode_simps [simp]:
  "encode [] = []" "encode ((t, c) # els) = enc t c @ encode els" "encode (xs @ ys) = encode xs @ encode ys"
  by (simp_all add: encode_def)

lemma well_formed_simps [simp]:
  "well_formed []" "well_formed ((t, c) # els) \<longleftrightarrow> fits c \<and> well_formed els"
  "well_formed (xs @ ys) \<longleftrightarrow> well_formed xs \<and> well_formed ys"
  by (auto simp: well_formed_def)

lemma well_formed_filter: "well_formed els \<Longrightarrow> well_formed (filter P els)"
  by (auto simp: well_formed_def)

text \<open>
  A loop that stops at the end of the sequence, returns at a match and steps over every other
  element computes \<open>find_el\<close>.
\<close>

lemma scan:
  assumes at_end: "f (length pre + length (encode els)) = stop None"
    and found: "\<And>ys t c zs. els = ys @ (t, c) # zs \<Longrightarrow> fits c \<Longrightarrow> m t c \<Longrightarrow>
      f (length pre + length (encode ys)) = stop (Some (length pre + length (encode ys), length c))"
    and skip: "\<And>ys t c zs. els = ys @ (t, c) # zs \<Longrightarrow> fits c \<Longrightarrow> \<not> m t c \<Longrightarrow>
      f (length pre + length (encode ys)) = f (length pre + length (encode ys) + hdr + length c)"
    and wf: "well_formed els"
  shows "f (length pre) = stop (find_el m (length pre) els)"
proof -
  have "f (length pre + length (encode ys)) = stop (find_el m (length pre + length (encode ys)) zs)"
    if "els = ys @ zs" for ys zs
    using that
  proof (induction zs arbitrary: ys)
    case Nil
    then show ?case using at_end by simp
  next
    case (Cons el zs)
    obtain t c where el: "el = (t, c)" by fastforce
    have fc: "fits c" using wf Cons.prems el by simp
    have IH: "f (length pre + length (encode (ys @ [el]))) =
        stop (find_el m (length pre + length (encode (ys @ [el]))) zs)"
      using Cons.IH [of "ys @ [el]"] Cons.prems by simp
    show ?case
      using IH found [of ys t c zs] skip [of ys t c zs] Cons.prems fc
      by (cases "m t c") (simp_all add: el length_enc add.assoc)
  qed
  from this [of "[]" els] show ?thesis by simp
qed

lemma find_el_Some:
  assumes "find_el m p els = Some (q, n)" and "well_formed els"
  obtains ys t c zs where "els = ys @ (t, c) # zs" "m t c" "n = length c"
    "q = p + length (encode ys)" "\<forall>(t', c') \<in> set ys. \<not> m t' c'"
  using assms
proof (induction els arbitrary: p thesis)
  case (Cons el els)
  obtain t c where el: "el = (t, c)" by fastforce
  show ?case
  proof (cases "m t c")
    case True
    then show ?thesis using Cons.prems(2) Cons.prems(1) [of "[]" t c els] el by simp
  next
    case False
    then have "find_el m (p + hdr + length c) els = Some (q, n)" "well_formed els"
      using Cons.prems(2,3) el by simp_all
    then obtain ys t' c' zs where ys: "els = ys @ (t', c') # zs" "m t' c'" "n = length c'"
      "q = p + hdr + length c + length (encode ys)" "\<forall>(t', c') \<in> set ys. \<not> m t' c'"
      using Cons.IH by metis
    show ?thesis
      by (rule Cons.prems(1) [of "el # ys" t' c' zs]) (use ys False el Cons.prems(3) in \<open>auto simp: length_enc\<close>)
  qed
qed simp

lemma find_el_prefix:
  "well_formed us \<Longrightarrow> \<forall>(t, c) \<in> set us. \<not> m t c \<Longrightarrow>
   find_el m p (us @ vs) = find_el m (p + length (encode us)) vs"
  by (induction us arbitrary: p) (auto simp: length_enc add.assoc)

lemma find_el_None: "find_el m p els = None \<longleftrightarrow> (\<forall>(t, c) \<in> set els. \<not> m t c)"
  by (induction m p els rule: find_el.induct) auto

end

end
