(* ===== verification/Info_Elements.thy ===== *)
theory Info_Elements
  imports TLV
begin

text \<open>
  The information elements of \<^verbatim>\<open>core/rtw_ieee80211.c\<close>: writing one, finding one by identifier
  (and OUI), replacing one in place, removing all that match, and the extended capabilities built
  on them.

  A buffer is the memory from the given address on; positions in it are offsets, and a search
  returns the offset and the length field of the element it finds. The length argument of a search
  is separate from the memory: the code may read behind it, and what it reads is there as long as
  the memory goes on.
\<close>

section \<open>Writing an element\<close>

text \<open>
  \<open>rtw_set_ie buf off index source frlen\<close> writes at \<^verbatim>\<open>pbuf = buf + off\<close>; the result is the buffer,
  the frame length and the position behind the element. The identifier and the length are cut to
  eight bits.
\<close>

definition rtw_set_ie :: "bytes \<Rightarrow> nat \<Rightarrow> int \<Rightarrow> bytes \<Rightarrow> nat \<Rightarrow> (bytes \<times> nat \<times> nat) c_result" where
  "rtw_set_ie buf off index source frlen =
     c_bind (c_write buf off [word_of_int index]) (\<lambda>buf.
     c_bind (c_write buf (off + 1) [of_nat (length source)]) (\<lambda>buf.
     c_bind (if 0 < length source then c_write buf (off + 2) source else Ret buf) (\<lambda>buf.
       Ret (buf, frlen + (length source + 2), off + length source + 2))))"

definition rtw_set_fixed_ie :: "bytes \<Rightarrow> nat \<Rightarrow> bytes \<Rightarrow> nat \<Rightarrow> (bytes \<times> nat \<times> nat) c_result" where
  "rtw_set_fixed_ie buf off source frlen =
     c_bind (c_write buf off source) (\<lambda>buf. Ret (buf, frlen + length source, off + length source))"

definition rtw_set_ie_ch_switch ::
  "bytes \<Rightarrow> nat \<Rightarrow> u8 \<Rightarrow> u8 \<Rightarrow> u8 \<Rightarrow> nat \<Rightarrow> (bytes \<times> nat \<times> nat) c_result" where
  "rtw_set_ie_ch_switch buf off ch_switch_mode new_ch ch_switch_cnt buf_len =
     rtw_set_ie buf off 37 [ch_switch_mode, new_ch, ch_switch_cnt] buf_len"

definition rtw_set_ie_mesh_ch_switch_parm ::
  "bytes \<Rightarrow> nat \<Rightarrow> u8 \<Rightarrow> u8 \<Rightarrow> u16 \<Rightarrow> u16 \<Rightarrow> nat \<Rightarrow> (bytes \<times> nat \<times> nat) c_result" where
  "rtw_set_ie_mesh_ch_switch_parm buf off ttl flags reason precedence buf_len =
     rtw_set_ie buf off 0x118 ([ttl, flags] @ RTW_PUT_LE16 reason @ RTW_PUT_LE16 precedence) buf_len"

section \<open>Searching\<close>

text \<open>
  The loop of \<^verbatim>\<open>rtw_get_ie\<close> at offset \<open>i\<close>: both branches read the length byte, and the limit is
  tested only after an element has been stepped over.
\<close>

function get_ie_loop :: "bytes \<Rightarrow> int \<Rightarrow> int \<Rightarrow> nat \<Rightarrow> (nat \<times> nat) option c_result" where
  "get_ie_loop buf index limit i =
     (if length buf < i + 2 then Oob
      else if uint (buf ! i) = index then Ret (Some (i, unat (buf ! (i + 1))))
      else let i = i + (unat (buf ! (i + 1)) + 2)
           in if limit \<le> int i then Ret None else get_ie_loop buf index limit i)"
  by pat_completeness auto
termination
  by (relation "measure (\<lambda>(buf, index, limit, i). length buf - i)") auto

declare get_ie_loop.simps [simp del]

definition rtw_get_ie :: "bytes \<Rightarrow> int \<Rightarrow> int \<Rightarrow> (nat \<times> nat) option c_result" where
  "rtw_get_ie pbuf index limit = (if limit < 1 then Ret None else get_ie_loop pbuf index limit 0)"

text \<open>
  \<^verbatim>\<open>rtw_get_ie_ex\<close>: a match also compares \<^verbatim>\<open>oui_len\<close> bytes behind the header when an OUI is given,
  whatever the length field says. The result is the offset and the length of the whole element, so the model reads the
  length byte of a match also for a caller that does not ask for it.
\<close>

function get_ie_ex_loop :: "bytes \<Rightarrow> nat \<Rightarrow> u8 \<Rightarrow> bytes option \<Rightarrow> nat \<Rightarrow> (nat \<times> nat) option c_result" where
  "get_ie_ex_loop in_ie in_len eid oui cnt =
     (if in_len \<le> cnt then Ret None
      else if length in_ie \<le> cnt then Oob
      else c_bind (if eid = in_ie ! cnt
             then case oui of None \<Rightarrow> Ret True
                  | Some o' \<Rightarrow> c_bind (c_slice in_ie (cnt + 2) (length o')) (\<lambda>b. Ret (b = o'))
             else Ret False) (\<lambda>match.
           if length in_ie \<le> cnt + 1 then Oob
           else if match then Ret (Some (cnt, unat (in_ie ! (cnt + 1)) + 2))
           else get_ie_ex_loop in_ie in_len eid oui (cnt + (unat (in_ie ! (cnt + 1)) + 2))))"
  by pat_completeness auto
termination
  by (relation "measure (\<lambda>(in_ie, in_len, eid, oui, cnt). in_len - cnt)") auto

declare get_ie_ex_loop.simps [simp del]

definition rtw_get_ie_ex :: "bytes \<Rightarrow> nat \<Rightarrow> u8 \<Rightarrow> bytes option \<Rightarrow> (nat \<times> nat) option c_result" where
  "rtw_get_ie_ex in_ie in_len eid oui =
     (if in_len = 0 then Ret None else get_ie_ex_loop in_ie in_len eid oui 0)"

text \<open>
  The searches for elements and attributes copy what they find into the caller's buffer, unless that
  is \<^verbatim>\<open>NULL\<close>. Most callers only want the position.
\<close>

definition copy_found :: "bytes \<Rightarrow> bytes option \<Rightarrow> (nat \<times> nat) option \<Rightarrow> ((nat \<times> nat) option \<times> bytes option) c_result" where
  "copy_found in_ie buf found =
     (case found of None \<Rightarrow> Ret (None, buf)
      | Some (p, n) \<Rightarrow>
         (case buf of None \<Rightarrow> Ret (found, None)
          | Some b \<Rightarrow> c_bind (c_slice in_ie p n) (\<lambda>el. c_bind (c_write b 0 el) (\<lambda>b. Ret (found, Some b)))))"

definition get_ie_ex_copy ::
  "bytes \<Rightarrow> nat \<Rightarrow> u8 \<Rightarrow> bytes option \<Rightarrow> bytes option \<Rightarrow> ((nat \<times> nat) option \<times> bytes option) c_result" where
  "get_ie_ex_copy in_ie in_len eid oui ie = c_bind (rtw_get_ie_ex in_ie in_len eid oui) (copy_found in_ie ie)"

lemma copy_found_None [simp]: "copy_found in_ie None found = Ret (found, None)"
  by (cases found) (auto simp: copy_found_def)

section \<open>Replacing and removing\<close>

text \<open>
  \<^verbatim>\<open>rtw_ies_update_ie\<close>. \<open>malloc\<close> says which sizes the allocator grants. The remaining length is an
  unsigned 32-bit difference.
\<close>

definition u32_diff :: "nat \<Rightarrow> nat \<Rightarrow> nat" where
  "u32_diff a b = nat ((int a - int b) mod 2 ^ 32)"

definition rtw_ies_update_ie ::
  "(nat \<Rightarrow> bool) \<Rightarrow> bytes \<Rightarrow> nat \<Rightarrow> nat \<Rightarrow> u8 \<Rightarrow> bytes \<Rightarrow> (bool \<times> bytes \<times> nat) c_result" where
  "rtw_ies_update_ie malloc ies ies_len ies_offset eid content =
     (if ies_len = 0 \<or> ies_len \<le> ies_offset then Ret (False, ies, ies_len)
      else let search_len = ies_len - ies_offset
        in c_bind (rtw_get_ie (drop ies_offset ies) (uint eid) (int search_len)) (\<lambda>target.
           case target of
             None \<Rightarrow> Ret (False, ies, ies_len)
           | Some (t, target_ielen) \<Rightarrow>
               if target_ielen = 0 then Ret (False, ies, ies_len)
               else let target_ie = ies_offset + t;
                        remain_len = u32_diff search_len (t + 2 + target_ielen)
                 in if target_ielen \<noteq> length content \<and> \<not> malloc remain_len then Ret (False, ies, ies_len)
                    else c_bind (if target_ielen \<noteq> length content
                           then c_slice ies (target_ie + 2 + target_ielen) remain_len else Ret []) (\<lambda>backup_ies.
                         c_bind (c_write ies (target_ie + 2) content) (\<lambda>ies.
                         c_bind (c_write ies (target_ie + 1) [of_nat (length content)]) (\<lambda>ies.
                           if target_ielen \<noteq> length content
                           then c_bind (c_write ies (target_ie + 2 + length content) backup_ies) (\<lambda>ies.
                             Ret (True, ies, ies_len + length content - target_ielen))
                           else Ret (True, ies, ies_len))))))"

text \<open>
  The loop of \<^verbatim>\<open>rtw_ies_remove_ie\<close>: \<open>start\<close> and \<open>search_len\<close> delimit what is still searched. An element
  that reaches behind it makes the remaining length wrap, and the move runs over \<open>2^32\<close> bytes.
\<close>

function remove_ie_loop ::
  "bytes \<Rightarrow> nat \<Rightarrow> u8 \<Rightarrow> bytes option \<Rightarrow> bool \<Rightarrow> nat \<Rightarrow> nat \<Rightarrow> (bool \<times> bytes \<times> nat) c_result" where
  "remove_ie_loop ies ies_len eid oui ret start search_len =
     (case rtw_get_ie_ex (drop start ies) search_len eid oui of
        Oob \<Rightarrow> Oob
      | Ret None \<Rightarrow> Ret (ret, ies, ies_len)
      | Ret (Some (t, target_ielen)) \<Rightarrow>
          if target_ielen = 0 then Ret (ret, ies, ies_len)
          else if search_len < t + target_ielen then Oob
          else let remain_len = search_len - (t + target_ielen)
               in case c_slice ies (start + t + target_ielen) remain_len of
                    Oob \<Rightarrow> Oob
                  | Ret remain \<Rightarrow>
                      remove_ie_loop (memcpy_at ies (start + t) remain) (ies_len - target_ielen) eid oui True
                        (start + t) remain_len)"
  by pat_completeness auto
termination
  by (relation "measure (\<lambda>(ies, ies_len, eid, oui, ret, start, search_len). search_len)") auto

declare remove_ie_loop.simps [simp del]

definition rtw_ies_remove_ie ::
  "bytes \<Rightarrow> nat \<Rightarrow> nat \<Rightarrow> u8 \<Rightarrow> bytes option \<Rightarrow> (bool \<times> bytes \<times> nat) c_result" where
  "rtw_ies_remove_ie ies ies_len offset eid oui =
     (if ies_len \<le> offset then Ret (False, ies, ies_len)
      else remove_ie_loop ies ies_len eid oui False offset (ies_len - offset))"

section \<open>The format\<close>

definition ie_enc :: "u8 \<Rightarrow> bytes \<Rightarrow> bytes" where
  "ie_enc eid content = eid # of_nat (length content) # content"

abbreviation ie_fits :: "bytes \<Rightarrow> bool" where
  "ie_fits content \<equiv> length content \<le> 255"

interpretation ie: tlv 2 ie_enc ie_fits
  by unfold_locales (simp_all add: ie_enc_def)

lemma length_ie_enc [simp, buf_len]: "length (ie_enc t c) = length c + 2"
  by (simp add: ie_enc_def)

lemma unat_of_nat_ie [simp]: "length c \<le> 255 \<Longrightarrow> unat (of_nat (length c) :: u8) = length c"
  by (simp add: unat_of_nat)

lemma ie_enc_nth:
  assumes "buf = pre @ ie_enc t c @ post" and "ie_fits c"
  shows "length pre + 2 \<le> length buf" "buf ! length pre = t" "unat (buf ! Suc (length pre)) = length c"
    "c_slice buf (length pre + 2) n = (if n \<le> length (c @ post) then Ret (take n (c @ post)) else Oob)"
  using assms by (auto simp: ie_enc_def nth_append c_slice_def)

section \<open>Searching finds the first matching element\<close>

lemma rtw_get_ie_find:
  assumes "ie.well_formed els"
  shows "rtw_get_ie (ie.encode els @ rest) index (int (length (ie.encode els))) =
    Ret (ie.find_el (\<lambda>t c. uint t = index) 0 els)"
proof -
  let ?buf = "ie.encode els @ rest" and ?limit = "int (length (ie.encode els))"
  define f where "f i = (if ?limit \<le> int i then Ret None else get_ie_loop ?buf index ?limit i)" for i
  have "f (length ([] :: bytes)) = Ret (ie.find_el (\<lambda>t c. uint t = index) (length ([] :: bytes)) els)"
  proof (rule ie.scan [OF _ _ _ assms])
    show "f (length ([] :: bytes) + length (ie.encode els)) = Ret None" by (simp add: f_def)
  next
    fix ys t c zs assume els: "els = ys @ (t, c) # zs" and c: "ie_fits c" and m: "uint t = index"
    have buf: "?buf = ie.encode ys @ ie_enc t c @ (ie.encode zs @ rest)" by (simp add: els)
    note at = ie_enc_nth [OF buf c]
    have "length (ie.encode ys) < length (ie.encode els)" using c by (simp add: els ie.length_enc)
    then show "f (length ([] :: bytes) + length (ie.encode ys)) =
        Ret (Some (length ([] :: bytes) + length (ie.encode ys), length c))"
      using at m by (simp add: f_def get_ie_loop.simps)
  next
    fix ys t c zs assume els: "els = ys @ (t, c) # zs" and c: "ie_fits c" and m: "uint t \<noteq> index"
    have buf: "?buf = ie.encode ys @ ie_enc t c @ (ie.encode zs @ rest)" by (simp add: els)
    note at = ie_enc_nth [OF buf c]
    have "length (ie.encode ys) < length (ie.encode els)" using c by (simp add: els ie.length_enc)
    then show "f (length ([] :: bytes) + length (ie.encode ys)) =
        f (length ([] :: bytes) + length (ie.encode ys) + 2 + length c)"
      using at m by (subst (1) f_def) (simp add: get_ie_loop.simps [of _ _ _ "length (ie.encode ys)"] f_def Let_def add.commute add.left_commute)
  qed
  then show ?thesis by (simp add: rtw_get_ie_def f_def split: if_splits)
qed

text \<open>An OUI is compared inside every candidate element only if those are long enough for it.\<close>

definition oui_covered :: "u8 \<Rightarrow> bytes option \<Rightarrow> (u8 \<times> bytes) list \<Rightarrow> bool" where
  "oui_covered eid oui els \<longleftrightarrow>
     (case oui of None \<Rightarrow> True | Some o' \<Rightarrow> \<forall>(t, c) \<in> set els. t = eid \<longrightarrow> length o' \<le> length c)"

definition ie_match :: "u8 \<Rightarrow> bytes option \<Rightarrow> u8 \<Rightarrow> bytes \<Rightarrow> bool" where
  "ie_match eid oui t c \<longleftrightarrow> t = eid \<and> (case oui of None \<Rightarrow> True | Some o' \<Rightarrow> take (length o') c = o')"

lemma rtw_get_ie_ex_find:
  assumes "ie.well_formed els" and "oui_covered eid oui els"
  shows "rtw_get_ie_ex (ie.encode els @ rest) (length (ie.encode els)) eid oui =
    Ret (map_option (\<lambda>(p, n). (p, n + 2)) (ie.find_el (ie_match eid oui) 0 els))"
proof -
  let ?buf = "ie.encode els @ rest" and ?n = "length (ie.encode els)"
  define f where "f = get_ie_ex_loop ?buf ?n eid oui"
  have step: "f (length (ie.encode ys)) =
      (if ie_match eid oui t c then Ret (Some (length (ie.encode ys), length c + 2))
       else f (length (ie.encode ys) + 2 + length c))"
    if els: "els = ys @ (t, c) # zs" and c: "ie_fits c" for ys t c zs
  proof -
    have buf: "?buf = ie.encode ys @ ie_enc t c @ (ie.encode zs @ rest)" by (simp add: els)
    note at = ie_enc_nth [OF buf c]
    have lt: "length (ie.encode ys) < ?n" using c by (simp add: els ie.length_enc)
    have slice: "c_slice ?buf (length (ie.encode ys) + 2) (length o') = Ret (take (length o') c)"
      if "oui = Some o'" "t = eid" for o'
      using at(4) [of "length o'"] assms(2) els that by (auto simp: oui_covered_def)
    show ?thesis
      unfolding f_def using at(1-3) lt slice
      by (subst get_ie_ex_loop.simps)
        (auto simp: ie_match_def add.commute add.left_commute split: option.splits)
  qed
  have "f (length ([] :: bytes)) = (\<lambda>r. Ret (map_option (\<lambda>(p, n). (p, n + 2)) r))
      (ie.find_el (ie_match eid oui) (length ([] :: bytes)) els)"
    by (rule ie.scan [OF _ _ _ assms(1)]) (auto simp: step, simp add: f_def get_ie_ex_loop.simps)
  then show ?thesis by (cases "ie.encode els = []") (auto simp: rtw_get_ie_ex_def f_def get_ie_ex_loop.simps)
qed

section \<open>Writing an element\<close>

lemma rtw_set_ie_append:
  assumes "ie_fits source" and "length source + 2 \<le> length post"
  shows "rtw_set_ie (pre @ post) (length pre) index source frlen =
    Ret (pre @ ie_enc (word_of_int index) source @ drop (length source + 2) post,
      frlen + (length source + 2), length pre + length source + 2)"
proof -
  obtain a b post' where post: "post = a # b # post'" using assms(2) by (metis add_2_eq_Suc' list.size(3) neq_Nil_conv
      le_zero_eq length_Cons nat.distinct(1) not_less_eq_eq)
  have len: "length source \<le> length post'" using assms(2) post by simp
  show ?thesis
    using len by (simp add: rtw_set_ie_def c_write_def memcpy_at_def ie_enc_def post)
qed

section \<open>Replacing the first matching element\<close>

lemma u32_diff_le: "b \<le> a \<Longrightarrow> a < 2 ^ 32 \<Longrightarrow> u32_diff a b = a - b"
  by (simp add: u32_diff_def nat_diff_distrib)

lemma update_found:
  assumes "ie.well_formed (ys @ (eid, c) # zs)" and "eid \<notin> fst ` set ys" and "c \<noteq> []" and "ie_fits content"
    and "length content \<le> length c + length rest"
    and "length pre + length (ie.encode (ys @ (eid, c) # zs)) < 2 ^ 32"
    and "length content = length c \<or> malloc (length (ie.encode zs))"
  shows "\<exists>rest'. rtw_ies_update_ie malloc (pre @ ie.encode (ys @ (eid, c) # zs) @ rest)
      (length pre + length (ie.encode (ys @ (eid, c) # zs))) (length pre) eid content =
    Ret (True, pre @ ie.encode (ys @ (eid, content) # zs) @ rest',
      length pre + length (ie.encode (ys @ (eid, content) # zs)))"
proof -
  let ?els = "ys @ (eid, c) # zs" and ?t = "length (ie.encode ys)"
  let ?ies = "pre @ ie.encode ?els @ rest"
  have c: "ie_fits c" using assms(1) by simp
  have find: "ie.find_el (\<lambda>t c. uint t = uint eid) 0 ?els = Some (?t, length c)"
    using assms(1,2) by (subst ie.find_el_prefix) (force simp: word_uint_eq_iff [symmetric])+
  have get: "rtw_get_ie (drop (length pre) ?ies) (uint eid) (int (length (ie.encode ?els))) =
      Ret (Some (?t, length c))"
    using rtw_get_ie_find [OF assms(1), of rest "uint eid"] find by simp
  have remain: "u32_diff (length (ie.encode ?els)) (?t + 2 + length c) = length (ie.encode zs)"
    using assms(6) by (subst u32_diff_le) simp_all
  have pos: "0 < length (ie.encode ?els)" by simp
  show ?thesis
  proof (cases "length content = length c")
    case True
    then have "rtw_ies_update_ie malloc ?ies (length pre + length (ie.encode ?els)) (length pre) eid content =
        Ret (True, pre @ ie.encode (ys @ (eid, content) # zs) @ rest, length pre + length (ie.encode ?els))"
      using get remain assms(3) pos
      by (simp add: rtw_ies_update_ie_def Let_def c_write_def memcpy_at_def ie_enc_def)
    then show ?thesis using True by auto
  next
    case False
    let ?tail = "c @ ie.encode zs @ rest"
    have slice: "c_slice ?ies (length pre + ?t + 2 + length c) (length (ie.encode zs)) = Ret (ie.encode zs)"
      by (simp add: c_slice_def)
    have w1: "c_write ?ies (length pre + ?t + 2) content =
        Ret (pre @ ie.encode ys @ [eid, of_nat (length c)] @ content @ drop (length content) ?tail)"
      using assms(5) by (simp add: c_write_def memcpy_at_def ie_enc_def)
    have w2: "c_write (pre @ ie.encode ys @ [eid, of_nat (length c)] @ content @ drop (length content) ?tail)
        (length pre + ?t + 1) [of_nat (length content)] =
        Ret (pre @ ie.encode ys @ ie_enc eid content @ drop (length content) ?tail)"
      by (simp add: c_write_def memcpy_at_def ie_enc_def)
    have room: "length (ie.encode zs) \<le> length (drop (length content) ?tail)" using assms(5) by simp
    have off: "length pre + ?t + 2 + length content = length (pre @ ie.encode ys @ ie_enc eid content)" by simp
    have w3: "c_write (pre @ ie.encode ys @ ie_enc eid content @ drop (length content) ?tail)
        (length pre + ?t + 2 + length content) (ie.encode zs) =
        Ret (pre @ ie.encode (ys @ (eid, content) # zs) @ drop (length (ie.encode zs)) (drop (length content) ?tail))"
      using c_write_over [OF off room] by (simp only: append_assoc ie.encode_simps)
    have "rtw_ies_update_ie malloc ?ies (length pre + length (ie.encode ?els)) (length pre) eid content =
        Ret (True, pre @ ie.encode (ys @ (eid, content) # zs) @ drop (length (ie.encode zs)) (drop (length content) ?tail),
          length pre + length (ie.encode ?els) + length content - length c)"
      unfolding rtw_ies_update_ie_def Let_def
      using False get remain assms(3,7) pos slice w1 w2 w3 by (simp del: ie.encode_simps append_assoc)
    then show ?thesis by auto
  qed
qed

section \<open>Removing every matching element\<close>

definition keep :: "u8 \<Rightarrow> bytes option \<Rightarrow> (u8 \<times> bytes) list \<Rightarrow> (u8 \<times> bytes) list" where
  "keep eid oui els = filter (\<lambda>(t, c). \<not> ie_match eid oui t c) els"

lemma remove_loop:
  assumes "ie.well_formed els" and "oui_covered eid oui els"
  shows "\<exists>rest'. remove_ie_loop (pre @ ie.encode els @ rest) (k + length (ie.encode els)) eid oui ret
      (length pre) (length (ie.encode els)) =
    Ret (ret \<or> keep eid oui els \<noteq> els, pre @ ie.encode (keep eid oui els) @ rest',
      k + length (ie.encode (keep eid oui els)))"
  using assms
proof (induction "length els" arbitrary: els pre rest k ret rule: less_induct)
  case less
  let ?m = "ie_match eid oui"
  have get: "rtw_get_ie_ex (drop (length pre) (pre @ ie.encode els @ rest)) (length (ie.encode els)) eid oui =
      Ret (map_option (\<lambda>(p, n). (p, n + 2)) (ie.find_el ?m 0 els))"
    using rtw_get_ie_ex_find [OF less.prems] by simp
  show ?case
  proof (cases "ie.find_el ?m 0 els")
    case None
    then have "keep eid oui els = els" by (auto simp: ie.find_el_None keep_def filter_id_conv)
    then show ?thesis using get None by (subst remove_ie_loop.simps) auto
  next
    case (Some pn)
    then have "ie.find_el ?m 0 els = Some (fst pn, snd pn)" by simp
    then obtain ys t c zs where els: "els = ys @ (t, c) # zs" and m: "?m t c"
      and p': "snd pn = length c" "fst pn = 0 + length (ie.encode ys)" and ys: "\<forall>(t, c) \<in> set ys. \<not> ?m t c"
      by (rule ie.find_el_Some [OF _ less.prems(1)])
    then have p: "pn = (length (ie.encode ys), length c)" by (simp add: prod_eq_iff)
    have keep: "keep eid oui els = ys @ keep eid oui zs" "keep eid oui els \<noteq> els"
    proof -
      have "filter (\<lambda>(t, c). \<not> ?m t c) ys = ys" using ys by (auto simp: filter_id_conv)
      then show k: "keep eid oui els = ys @ keep eid oui zs" using m by (simp add: keep_def els)
      have "length (keep eid oui zs) \<le> length zs" by (simp add: keep_def)
      then show "keep eid oui els \<noteq> els" unfolding k by (auto simp: els dest: arg_cong [of _ _ length])
    qed
    have wf: "ie.well_formed zs" "oui_covered eid oui zs"
      using less.prems by (auto simp: els oui_covered_def split: option.splits)
    let ?pre = "pre @ ie.encode ys" and ?t = "length (ie.encode ys)"
    have slice: "c_slice (pre @ ie.encode els @ rest) (length pre + ?t + (length c + 2)) (length (ie.encode zs)) =
        Ret (ie.encode zs)"
      by (simp add: c_slice_def els)
    have move: "memcpy_at (pre @ ie.encode els @ rest) (length pre + ?t) (ie.encode zs) =
        ?pre @ ie.encode zs @ drop (length (ie.encode zs)) (ie_enc t c @ ie.encode zs @ rest)"
      by (simp add: memcpy_at_def els)
    have run: "remove_ie_loop (pre @ ie.encode els @ rest) (k + length (ie.encode els)) eid oui ret
        (length pre) (length (ie.encode els)) =
        remove_ie_loop (?pre @ ie.encode zs @ drop (length (ie.encode zs)) (ie_enc t c @ ie.encode zs @ rest))
          (k + ?t + length (ie.encode zs)) eid oui True (length ?pre) (length (ie.encode zs))"
      unfolding move [symmetric] using get Some p slice
      by (subst remove_ie_loop.simps) (simp add: els Let_def add.assoc)
    from less.hyps [OF _ wf, of ?pre "drop (length (ie.encode zs)) (ie_enc t c @ ie.encode zs @ rest)" "k + ?t" True]
    obtain rest' where "remove_ie_loop (?pre @ ie.encode zs @ drop (length (ie.encode zs)) (ie_enc t c @ ie.encode zs @ rest))
        (k + ?t + length (ie.encode zs)) eid oui True (length ?pre) (length (ie.encode zs)) =
        Ret (True, ?pre @ ie.encode (keep eid oui zs) @ rest', k + ?t + length (ie.encode (keep eid oui zs)))"
      by (auto simp: els)
    then show ?thesis using run keep by (auto simp: add.assoc)
  qed
qed

section \<open>Properties\<close>

text \<open>C25.
  On a sequence of well-formed elements \<^verbatim>\<open>rtw_get_ie\<close> returns the first element with the identifier,
  by offset and length, or \<^verbatim>\<open>NULL\<close> when there is none, and reads nothing behind the sequence.
  \<^verbatim>\<open>rtw_get_ie_ex\<close> does the same for elements that start with an OUI, on condition that every element
  with the identifier is long enough to hold one: of shorter ones it compares the bytes that
  follow, which may lie behind the sequence (\<open>get_ie_reads_behind_limit\<close>).
\<close>

theorem get_ie_finds_first:
  assumes "ie.well_formed els"
  shows "rtw_get_ie (ie.encode els) (uint eid) (int (length (ie.encode els))) =
      Ret (ie.find_el (\<lambda>t c. t = eid) 0 els) \<and>
    (oui_covered eid oui els \<longrightarrow> rtw_get_ie_ex (ie.encode els) (length (ie.encode els)) eid oui =
      Ret (map_option (\<lambda>(p, n). (p, n + 2)) (ie.find_el (ie_match eid oui) 0 els)))"
  using rtw_get_ie_find [OF assms, of "[]" "uint eid"] rtw_get_ie_ex_find [OF assms, of eid oui "[]"]
  by (simp add: word_uint_eq_iff [symmetric])

definition sample_ies :: "(u8 \<times> bytes) list" where
  "sample_ies = [(0, [1, 2]), (221, [0, 0x50, 0xf2, 1]), (127, [4]), (221, [0, 0x50, 0xf2, 4])]"

lemma sample_ies_ok:
  "ie.well_formed sample_ies" "oui_covered 221 (Some [0, 0x50, 0xf2, 4]) sample_ies"
  by (simp_all add: sample_ies_def oui_covered_def)

theorem get_ie_finds_first_witness:
  "rtw_get_ie (ie.encode sample_ies) (uint (221 :: u8)) (int (length (ie.encode sample_ies))) =
      Ret (ie.find_el (\<lambda>t c. t = 221) 0 sample_ies) \<and>
   rtw_get_ie_ex (ie.encode sample_ies) (length (ie.encode sample_ies)) 221 (Some [0, 0x50, 0xf2, 4]) =
      Ret (Some (13, 6))"
proof -
  have "ie.find_el (ie_match 221 (Some [0, 0x50, 0xf2, 4])) 0 sample_ies = Some (13, 4)"
    by (simp add: sample_ies_def ie_match_def)
  then show ?thesis using get_ie_finds_first [OF sample_ies_ok(1), of 221] sample_ies_ok(2) by fastforce
qed

text \<open>\<^verbatim>\<open>rtw_ies_update_ie\<close> replaces the content of the first element with the identifier and leaves every
  other element as it is, moving the later ones and adjusting the length, when the memory behind the
  elements has room for the growth and, for a change of size, the backup can be allocated; the fixed
  bytes in front of the elements are not touched.
\<close>

lemma ies_update_replaces_first:
  assumes "ie.well_formed (ys @ (eid, c) # zs)" and "eid \<notin> fst ` set ys" and "c \<noteq> []" and "ie_fits content"
    and "length content \<le> length c + length rest"
    and "length pre + length (ie.encode (ys @ (eid, c) # zs)) < 2 ^ 32"
    and "length content = length c \<or> malloc (length (ie.encode zs))"
  shows "\<exists>rest'. rtw_ies_update_ie malloc (pre @ ie.encode (ys @ (eid, c) # zs) @ rest)
      (length pre + length (ie.encode (ys @ (eid, c) # zs))) (length pre) eid content =
    Ret (True, pre @ ie.encode (ys @ (eid, content) # zs) @ rest',
      length pre + length (ie.encode (ys @ (eid, content) # zs)))"
  using assms by (rule update_found)

lemma ies_update_replaces_first_witness:
  "\<exists>rest'. rtw_ies_update_ie (\<lambda>n. True) ([9, 9] @ ie.encode ([(0, [1, 2])] @ (127, [4]) # [(48, [1])]) @ [7, 7])
      (length [9, 9 :: u8] + length (ie.encode ([(0, [1, 2])] @ (127, [4]) # [(48, [1])]))) (length [9, 9 :: u8])
      127 [5, 6] =
    Ret (True, [9, 9] @ ie.encode ([(0, [1, 2])] @ (127, [5, 6]) # [(48, [1])]) @ rest',
      length [9, 9 :: u8] + length (ie.encode ([(0, [1, 2])] @ (127, [5, 6]) # [(48, [1])])))"
  by (rule ies_update_replaces_first) simp_all

text \<open>\<^verbatim>\<open>rtw_ies_remove_ie\<close> removes exactly the elements that match the identifier and the OUI, keeps the
  others in their order, shrinks the length accordingly and reports whether anything was removed; the
  memory is never left.
\<close>

lemma ies_remove_filters:
  assumes "ie.well_formed els" and "oui_covered eid oui els"
  shows "\<exists>rest'. rtw_ies_remove_ie (pre @ ie.encode els @ rest) (length pre + length (ie.encode els))
      (length pre) eid oui =
    Ret (keep eid oui els \<noteq> els, pre @ ie.encode (keep eid oui els) @ rest',
      length pre + length (ie.encode (keep eid oui els)))"
proof (cases "els = []")
  case True
  then show ?thesis by (auto simp: rtw_ies_remove_ie_def keep_def)
next
  case False
  then have "\<not> length pre + length (ie.encode els) \<le> length pre" by (cases els) (auto simp: ie_enc_def)
  then show ?thesis
    using remove_loop [OF assms, of pre rest "length pre" False] by (simp add: rtw_ies_remove_ie_def)
qed

lemma ies_remove_filters_witness:
  "\<exists>rest'. rtw_ies_remove_ie ([9] @ ie.encode sample_ies @ [7]) (length [9 :: u8] + length (ie.encode sample_ies))
      (length [9 :: u8]) 221 (Some [0, 0x50, 0xf2, 4]) =
    Ret (True, [9] @ ie.encode [(0, [1, 2]), (221, [0, 0x50, 0xf2, 1]), (127, [4])] @ rest',
      length [9 :: u8] + length (ie.encode [(0, [1, 2]), (221, [0, 0x50, 0xf2, 1]), (127, [4])]))"
proof -
  have k: "keep 221 (Some [0, 0x50, 0xf2, 4]) sample_ies = [(0, [1, 2]), (221, [0, 0x50, 0xf2, 1]), (127, [4])]"
    by (simp add: sample_ies_def keep_def ie_match_def)
  have "keep 221 (Some [0, 0x50, 0xf2, 4]) sample_ies \<noteq> sample_ies" unfolding k by (simp add: sample_ies_def)
  then show ?thesis using ies_remove_filters [OF sample_ies_ok, of "[9]" "[7]"] unfolding k by simp
qed

text \<open>A truncated last element makes \<^verbatim>\<open>rtw_get_ie\<close> read behind the limit it is given: with one byte left
  it still reads the length byte that follows.
\<close>

lemma get_ie_reads_behind_limit:
  assumes "ie.well_formed els" and "\<forall>(t, c) \<in> set els. uint t \<noteq> index"
  shows "rtw_get_ie (ie.encode els @ [b]) index (int (length (ie.encode els @ [b]))) = Oob"
proof -
  let ?buf = "ie.encode els @ [b]" and ?limit = "int (length (ie.encode els @ [b]))"
  have "get_ie_loop ?buf index ?limit (length ([] :: bytes)) =
      (\<lambda>_. Oob) (ie.find_el (\<lambda>t c. uint t = index) (length ([] :: bytes)) els)"
  proof (rule ie.scan [OF _ _ _ assms(1)])
    fix ys t c zs assume els: "els = ys @ (t, c) # zs" and c: "ie_fits c" and m: "uint t \<noteq> index"
    have buf: "?buf = ie.encode ys @ ie_enc t c @ (ie.encode zs @ [b])" by (simp add: els)
    note at = ie_enc_nth [OF buf c]
    show "get_ie_loop ?buf index ?limit (length ([] :: bytes) + length (ie.encode ys)) =
        get_ie_loop ?buf index ?limit (length ([] :: bytes) + length (ie.encode ys) + 2 + length c)"
      using at m by (subst get_ie_loop.simps) (simp add: els Let_def add.commute add.left_commute)
  qed (use assms(2) in \<open>auto simp: get_ie_loop.simps\<close>)
  then show ?thesis by (simp add: rtw_get_ie_def)
qed

lemma get_ie_reads_behind_limit_witness:
  "rtw_get_ie (ie.encode [(0, [1, 2])] @ [221]) 221 (int (length (ie.encode [(0, [1, 2])] @ [221]))) = Oob"
  by (rule get_ie_reads_behind_limit) simp_all

end
