(* ===== verification/Security_IE.thy ===== *)
theory Security_IE
  imports Info_Elements
begin

unbundle bit_operations_syntax

text \<open>
  The security elements of \<^verbatim>\<open>core/rtw_ieee80211.c\<close>: finding the WPA, RSN and WAPI elements of a
  frame, the cipher and key management suites, and the parsers of the WPA and RSN elements.

  As in the previous theory a buffer is the memory from the given address on and a pointer into it
  an offset; the length argument is separate. A \<^verbatim>\<open>NULL\<close> out-parameter is \<open>None\<close>.
\<close>

section \<open>Suite selectors\<close>

definition RTW_WPA_OUI_TYPE :: bytes where "RTW_WPA_OUI_TYPE = [0x00, 0x50, 0xf2, 1]"
definition WPA_AUTH_KEY_MGMT_NONE :: bytes where "WPA_AUTH_KEY_MGMT_NONE = [0x00, 0x50, 0xf2, 0]"
definition WPA_AUTH_KEY_MGMT_UNSPEC_802_1X :: bytes where "WPA_AUTH_KEY_MGMT_UNSPEC_802_1X = [0x00, 0x50, 0xf2, 1]"
definition WPA_AUTH_KEY_MGMT_PSK_OVER_802_1X :: bytes where "WPA_AUTH_KEY_MGMT_PSK_OVER_802_1X = [0x00, 0x50, 0xf2, 2]"
definition WPA_CIPHER_SUITE_NONE :: bytes where "WPA_CIPHER_SUITE_NONE = [0x00, 0x50, 0xf2, 0]"
definition WPA_CIPHER_SUITE_WEP40 :: bytes where "WPA_CIPHER_SUITE_WEP40 = [0x00, 0x50, 0xf2, 1]"
definition WPA_CIPHER_SUITE_TKIP :: bytes where "WPA_CIPHER_SUITE_TKIP = [0x00, 0x50, 0xf2, 2]"
definition WPA_CIPHER_SUITE_WRAP :: bytes where "WPA_CIPHER_SUITE_WRAP = [0x00, 0x50, 0xf2, 3]"
definition WPA_CIPHER_SUITE_CCMP :: bytes where "WPA_CIPHER_SUITE_CCMP = [0x00, 0x50, 0xf2, 4]"
definition WPA_CIPHER_SUITE_WEP104 :: bytes where "WPA_CIPHER_SUITE_WEP104 = [0x00, 0x50, 0xf2, 5]"
definition RSN_CIPHER_SUITE_NONE :: bytes where "RSN_CIPHER_SUITE_NONE = [0x00, 0x0f, 0xac, 0]"
definition RSN_CIPHER_SUITE_WEP40 :: bytes where "RSN_CIPHER_SUITE_WEP40 = [0x00, 0x0f, 0xac, 1]"
definition RSN_CIPHER_SUITE_TKIP :: bytes where "RSN_CIPHER_SUITE_TKIP = [0x00, 0x0f, 0xac, 2]"
definition RSN_CIPHER_SUITE_WRAP :: bytes where "RSN_CIPHER_SUITE_WRAP = [0x00, 0x0f, 0xac, 3]"
definition RSN_CIPHER_SUITE_CCMP :: bytes where "RSN_CIPHER_SUITE_CCMP = [0x00, 0x0f, 0xac, 4]"
definition RSN_CIPHER_SUITE_AES_128_CMAC :: bytes where "RSN_CIPHER_SUITE_AES_128_CMAC = [0x00, 0x0f, 0xac, 6]"
definition RSN_CIPHER_SUITE_GCMP :: bytes where "RSN_CIPHER_SUITE_GCMP = [0x00, 0x0f, 0xac, 8]"
definition RSN_CIPHER_SUITE_GCMP_256 :: bytes where "RSN_CIPHER_SUITE_GCMP_256 = [0x00, 0x0f, 0xac, 9]"
definition RSN_CIPHER_SUITE_CCMP_256 :: bytes where "RSN_CIPHER_SUITE_CCMP_256 = [0x00, 0x0f, 0xac, 10]"
definition RSN_CIPHER_SUITE_BIP_GMAC_128 :: bytes where "RSN_CIPHER_SUITE_BIP_GMAC_128 = [0x00, 0x0f, 0xac, 11]"
definition RSN_CIPHER_SUITE_BIP_GMAC_256 :: bytes where "RSN_CIPHER_SUITE_BIP_GMAC_256 = [0x00, 0x0f, 0xac, 12]"
definition RSN_CIPHER_SUITE_BIP_CMAC_256 :: bytes where "RSN_CIPHER_SUITE_BIP_CMAC_256 = [0x00, 0x0f, 0xac, 13]"
definition RSN_CIPHER_SUITE_WEP104 :: bytes where "RSN_CIPHER_SUITE_WEP104 = [0x00, 0x0f, 0xac, 5]"
definition WLAN_AKM_8021X :: bytes where "WLAN_AKM_8021X = [0x00, 0x0f, 0xac, 1]"
definition WLAN_AKM_PSK :: bytes where "WLAN_AKM_PSK = [0x00, 0x0f, 0xac, 2]"
definition WLAN_AKM_FT_8021X :: bytes where "WLAN_AKM_FT_8021X = [0x00, 0x0f, 0xac, 3]"
definition WLAN_AKM_FT_PSK :: bytes where "WLAN_AKM_FT_PSK = [0x00, 0x0f, 0xac, 4]"
definition WLAN_AKM_8021X_SHA256 :: bytes where "WLAN_AKM_8021X_SHA256 = [0x00, 0x0f, 0xac, 5]"
definition WLAN_AKM_PSK_SHA256 :: bytes where "WLAN_AKM_PSK_SHA256 = [0x00, 0x0f, 0xac, 6]"
definition WLAN_AKM_TDLS :: bytes where "WLAN_AKM_TDLS = [0x00, 0x0f, 0xac, 7]"
definition WLAN_AKM_SAE :: bytes where "WLAN_AKM_SAE = [0x00, 0x0f, 0xac, 8]"
definition WLAN_AKM_FT_OVER_SAE :: bytes where "WLAN_AKM_FT_OVER_SAE = [0x00, 0x0f, 0xac, 9]"
definition WLAN_AKM_8021X_SUITE_B :: bytes where "WLAN_AKM_8021X_SUITE_B = [0x00, 0x0f, 0xac, 11]"
definition WLAN_AKM_8021X_SUITE_B_192 :: bytes where "WLAN_AKM_8021X_SUITE_B_192 = [0x00, 0x0f, 0xac, 12]"
definition WLAN_AKM_FILS_SHA256 :: bytes where "WLAN_AKM_FILS_SHA256 = [0x00, 0x0f, 0xac, 14]"
definition WLAN_AKM_FILS_SHA384 :: bytes where "WLAN_AKM_FILS_SHA384 = [0x00, 0x0f, 0xac, 15]"
definition WLAN_AKM_FT_FILS_SHA256 :: bytes where "WLAN_AKM_FT_FILS_SHA256 = [0x00, 0x0f, 0xac, 16]"
definition WLAN_AKM_FT_FILS_SHA384 :: bytes where "WLAN_AKM_FT_FILS_SHA384 = [0x00, 0x0f, 0xac, 17]"

definition WPA_CIPHER_NONE :: u32 where "WPA_CIPHER_NONE = push_bit 0 1"
definition WPA_CIPHER_WEP40 :: u32 where "WPA_CIPHER_WEP40 = push_bit 1 1"
definition WPA_CIPHER_WEP104 :: u32 where "WPA_CIPHER_WEP104 = push_bit 2 1"
definition WPA_CIPHER_TKIP :: u32 where "WPA_CIPHER_TKIP = push_bit 3 1"
definition WPA_CIPHER_CCMP :: u32 where "WPA_CIPHER_CCMP = push_bit 4 1"
definition WPA_CIPHER_GCMP :: u32 where "WPA_CIPHER_GCMP = push_bit 5 1"
definition WPA_CIPHER_GCMP_256 :: u32 where "WPA_CIPHER_GCMP_256 = push_bit 6 1"
definition WPA_CIPHER_CCMP_256 :: u32 where "WPA_CIPHER_CCMP_256 = push_bit 7 1"
definition WPA_CIPHER_BIP_CMAC_128 :: u32 where "WPA_CIPHER_BIP_CMAC_128 = push_bit 8 1"
definition WPA_CIPHER_BIP_GMAC_128 :: u32 where "WPA_CIPHER_BIP_GMAC_128 = push_bit 9 1"
definition WPA_CIPHER_BIP_GMAC_256 :: u32 where "WPA_CIPHER_BIP_GMAC_256 = push_bit 10 1"
definition WPA_CIPHER_BIP_CMAC_256 :: u32 where "WPA_CIPHER_BIP_CMAC_256 = push_bit 11 1"
definition WLAN_AKM_TYPE_8021X :: u32 where "WLAN_AKM_TYPE_8021X = push_bit 0 1"
definition WLAN_AKM_TYPE_PSK :: u32 where "WLAN_AKM_TYPE_PSK = push_bit 1 1"
definition WLAN_AKM_TYPE_FT_8021X :: u32 where "WLAN_AKM_TYPE_FT_8021X = push_bit 2 1"
definition WLAN_AKM_TYPE_FT_PSK :: u32 where "WLAN_AKM_TYPE_FT_PSK = push_bit 3 1"
definition WLAN_AKM_TYPE_8021X_SHA256 :: u32 where "WLAN_AKM_TYPE_8021X_SHA256 = push_bit 4 1"
definition WLAN_AKM_TYPE_PSK_SHA256 :: u32 where "WLAN_AKM_TYPE_PSK_SHA256 = push_bit 5 1"
definition WLAN_AKM_TYPE_TDLS :: u32 where "WLAN_AKM_TYPE_TDLS = push_bit 6 1"
definition WLAN_AKM_TYPE_SAE :: u32 where "WLAN_AKM_TYPE_SAE = push_bit 7 1"
definition WLAN_AKM_TYPE_FT_OVER_SAE :: u32 where "WLAN_AKM_TYPE_FT_OVER_SAE = push_bit 8 1"
definition WLAN_AKM_TYPE_8021X_SUITE_B :: u32 where "WLAN_AKM_TYPE_8021X_SUITE_B = push_bit 9 1"
definition WLAN_AKM_TYPE_8021X_SUITE_B_192 :: u32 where "WLAN_AKM_TYPE_8021X_SUITE_B_192 = push_bit 10 1"
definition WLAN_AKM_TYPE_FILS_SHA256 :: u32 where "WLAN_AKM_TYPE_FILS_SHA256 = push_bit 11 1"
definition WLAN_AKM_TYPE_FILS_SHA384 :: u32 where "WLAN_AKM_TYPE_FILS_SHA384 = push_bit 12 1"
definition WLAN_AKM_TYPE_FT_FILS_SHA256 :: u32 where "WLAN_AKM_TYPE_FT_FILS_SHA256 = push_bit 13 1"
definition WLAN_AKM_TYPE_FT_FILS_SHA384 :: u32 where "WLAN_AKM_TYPE_FT_FILS_SHA384 = push_bit 14 1"

definition rtw_get_wpa_cipher_suite :: "bytes \<Rightarrow> u32" where
  "rtw_get_wpa_cipher_suite s =
     (if s = WPA_CIPHER_SUITE_NONE then WPA_CIPHER_NONE
      else if s = WPA_CIPHER_SUITE_WEP40 then WPA_CIPHER_WEP40
      else if s = WPA_CIPHER_SUITE_TKIP then WPA_CIPHER_TKIP
      else if s = WPA_CIPHER_SUITE_CCMP then WPA_CIPHER_CCMP
      else if s = WPA_CIPHER_SUITE_WEP104 then WPA_CIPHER_WEP104
      else 0)"

definition rtw_get_rsn_cipher_suite :: "bytes \<Rightarrow> u32" where
  "rtw_get_rsn_cipher_suite s =
     (if s = RSN_CIPHER_SUITE_NONE then WPA_CIPHER_NONE
      else if s = RSN_CIPHER_SUITE_WEP40 then WPA_CIPHER_WEP40
      else if s = RSN_CIPHER_SUITE_TKIP then WPA_CIPHER_TKIP
      else if s = RSN_CIPHER_SUITE_CCMP then WPA_CIPHER_CCMP
      else if s = RSN_CIPHER_SUITE_GCMP then WPA_CIPHER_GCMP
      else if s = RSN_CIPHER_SUITE_GCMP_256 then WPA_CIPHER_GCMP_256
      else if s = RSN_CIPHER_SUITE_CCMP_256 then WPA_CIPHER_CCMP_256
      else if s = RSN_CIPHER_SUITE_WEP104 then WPA_CIPHER_WEP104
      else if s = RSN_CIPHER_SUITE_AES_128_CMAC then WPA_CIPHER_BIP_CMAC_128
      else if s = RSN_CIPHER_SUITE_BIP_GMAC_128 then WPA_CIPHER_BIP_GMAC_128
      else if s = RSN_CIPHER_SUITE_BIP_GMAC_256 then WPA_CIPHER_BIP_GMAC_256
      else if s = RSN_CIPHER_SUITE_BIP_CMAC_256 then WPA_CIPHER_BIP_CMAC_256
      else 0)"

definition rtw_get_akm_suite_bitmap :: "bytes \<Rightarrow> u32" where
  "rtw_get_akm_suite_bitmap s =
     (if s = WLAN_AKM_8021X then WLAN_AKM_TYPE_8021X
      else if s = WLAN_AKM_PSK then WLAN_AKM_TYPE_PSK
      else if s = WLAN_AKM_FT_8021X then WLAN_AKM_TYPE_FT_8021X
      else if s = WLAN_AKM_FT_PSK then WLAN_AKM_TYPE_FT_PSK
      else if s = WLAN_AKM_8021X_SHA256 then WLAN_AKM_TYPE_8021X_SHA256
      else if s = WLAN_AKM_PSK_SHA256 then WLAN_AKM_TYPE_PSK_SHA256
      else if s = WLAN_AKM_TDLS then WLAN_AKM_TYPE_TDLS
      else if s = WLAN_AKM_SAE then WLAN_AKM_TYPE_SAE
      else if s = WLAN_AKM_FT_OVER_SAE then WLAN_AKM_TYPE_FT_OVER_SAE
      else if s = WLAN_AKM_8021X_SUITE_B then WLAN_AKM_TYPE_8021X_SUITE_B
      else if s = WLAN_AKM_8021X_SUITE_B_192 then WLAN_AKM_TYPE_8021X_SUITE_B_192
      else if s = WLAN_AKM_FILS_SHA256 then WLAN_AKM_TYPE_FILS_SHA256
      else if s = WLAN_AKM_FILS_SHA384 then WLAN_AKM_TYPE_FILS_SHA384
      else if s = WLAN_AKM_FT_FILS_SHA256 then WLAN_AKM_TYPE_FT_FILS_SHA256
      else if s = WLAN_AKM_FT_FILS_SHA384 then WLAN_AKM_TYPE_FT_FILS_SHA384
      else 0)"

section \<open>Finding the elements\<close>

text \<open>
  \<^verbatim>\<open>rtw_get_wpa_ie\<close>: vendor elements are tried in turn; \<open>pos\<close> is \<^verbatim>\<open>pbuf - pie\<close>.
\<close>

function get_wpa_ie_loop :: "bytes \<Rightarrow> int \<Rightarrow> nat \<Rightarrow> int \<Rightarrow> (nat \<times> nat) option c_result" where
  "get_wpa_ie_loop pie limit pos limit_new =
     c_bind (rtw_get_ie (drop pos pie) 0xdd limit_new) (\<lambda>r.
       case r of None \<Rightarrow> Ret None
       | Some (q, len) \<Rightarrow>
           let pbuf = pos + q;
               limit_new = limit - int pbuf - 2 - int len;
               next_ie = (if limit_new \<le> 0 then Ret None else get_wpa_ie_loop pie limit (pbuf + (2 + len)) limit_new)
           in c_bind (c_slice pie (pbuf + 2) 4) (\<lambda>oui.
              if oui \<noteq> [0x00, 0x50, 0xf2, 0x01] then next_ie
              else c_bind (c_slice pie (pbuf + 6) 2) (\<lambda>ver.
                if RTW_GET_LE16 ver \<noteq> 1 then next_ie
                else c_bind (c_slice pie (pbuf + 1) 1) (\<lambda>l. Ret (Some (pbuf, unat (hd l)))))))"
  by pat_completeness auto
termination
  by (relation "measure (\<lambda>(pie, limit, pos, limit_new). nat (limit - int pos))") auto

declare get_wpa_ie_loop.simps [simp del]

definition rtw_get_wpa_ie :: "bytes \<Rightarrow> int \<Rightarrow> (nat \<times> nat) option c_result" where
  "rtw_get_wpa_ie pie limit = get_wpa_ie_loop pie limit 0 limit"

definition rtw_get_wpa2_ie :: "bytes \<Rightarrow> int \<Rightarrow> (nat \<times> nat) option c_result" where
  "rtw_get_wpa2_ie pie limit = rtw_get_ie pie 0x30 limit"

text \<open>
  \<^verbatim>\<open>rtw_get_sec_ie\<close> and \<^verbatim>\<open>rtw_get_wapi_ie\<close> walk over the elements behind the fixed part of a beacon
  and copy what they find into the caller's buffers, a later element over an earlier one. An output
  is the buffer, unless \<^verbatim>\<open>NULL\<close>, and the length of what was copied.
\<close>

record ie_out =
  out_buf :: "bytes option"
  out_len :: nat

definition copy_ie :: "bytes \<Rightarrow> nat \<Rightarrow> nat \<Rightarrow> ie_out \<Rightarrow> ie_out c_result" where
  "copy_ie in_ie cnt n out =
     c_bind (case out_buf out of None \<Rightarrow> Ret None
             | Some b \<Rightarrow> c_bind (c_slice in_ie cnt n) (\<lambda>el. c_bind (c_write b 0 el) (\<lambda>b. Ret (Some b)))) (\<lambda>b.
       Ret \<lparr>out_buf = b, out_len = n\<rparr>)"

function get_sec_ie_loop :: "bytes \<Rightarrow> nat \<Rightarrow> nat \<Rightarrow> ie_out \<Rightarrow> ie_out \<Rightarrow> (ie_out \<times> ie_out) c_result" where
  "get_sec_ie_loop in_ie in_len cnt rsn wpa =
     (if in_len \<le> cnt then Ret (rsn, wpa)
      else if length in_ie \<le> cnt then Oob
      else let authmode = in_ie ! cnt
        in c_bind (if authmode = 0xdd then c_bind (c_slice in_ie (cnt + 2) 4) (\<lambda>o'. Ret (o' = [0x0, 0x50, 0xf2, 0x01]))
                   else Ret False) (\<lambda>is_wpa.
           if length in_ie \<le> cnt + 1 then Oob
           else let n = unat (in_ie ! (cnt + 1)) + 2
             in if is_wpa
                then c_bind (copy_ie in_ie cnt n wpa) (\<lambda>wpa. get_sec_ie_loop in_ie in_len (cnt + n) rsn wpa)
                else if authmode = 0x30
                then c_bind (copy_ie in_ie cnt n rsn) (\<lambda>rsn. get_sec_ie_loop in_ie in_len (cnt + n) rsn wpa)
                else get_sec_ie_loop in_ie in_len (cnt + n) rsn wpa))"
  by pat_completeness auto
termination
  by (relation "measure (\<lambda>(in_ie, in_len, cnt, rsn, wpa). in_len - cnt)") auto

declare get_sec_ie_loop.simps [simp del]

definition rtw_get_sec_ie ::
  "bytes \<Rightarrow> nat \<Rightarrow> ie_out \<Rightarrow> ie_out \<Rightarrow> (nat \<times> ie_out \<times> ie_out) c_result" where
  "rtw_get_sec_ie in_ie in_len rsn wpa =
     c_bind (get_sec_ie_loop in_ie in_len (8 + 2 + 2) rsn wpa) (\<lambda>(rsn, wpa).
       Ret (out_len rsn + out_len wpa, rsn, wpa))"

function get_wapi_ie_loop :: "bytes \<Rightarrow> nat \<Rightarrow> nat \<Rightarrow> ie_out \<Rightarrow> ie_out c_result" where
  "get_wapi_ie_loop in_ie in_len cnt wapi =
     (if in_len \<le> cnt then Ret wapi
      else if length in_ie \<le> cnt then Oob
      else c_bind (if in_ie ! cnt = 68
                   then c_bind (c_slice in_ie (cnt + 6) 4)
                     (\<lambda>o'. Ret (o' = [0x0, 0x14, 0x72, 0x01] \<or> o' = [0x0, 0x14, 0x72, 0x02]))
                   else Ret False) (\<lambda>is_wapi.
           if length in_ie \<le> cnt + 1 then Oob
           else let n = unat (in_ie ! (cnt + 1)) + 2
             in if is_wapi
                then c_bind (copy_ie in_ie cnt n wapi) (\<lambda>wapi. get_wapi_ie_loop in_ie in_len (cnt + n) wapi)
                else get_wapi_ie_loop in_ie in_len (cnt + n) wapi))"
  by pat_completeness auto
termination
  by (relation "measure (\<lambda>(in_ie, in_len, cnt, wapi). in_len - cnt)") auto

declare get_wapi_ie_loop.simps [simp del]

definition rtw_get_wapi_ie :: "bytes \<Rightarrow> nat \<Rightarrow> ie_out \<Rightarrow> (nat \<times> ie_out) c_result" where
  "rtw_get_wapi_ie in_ie in_len wapi =
     (if in_len = 0 then Ret (0, wapi\<lparr>out_len := 0\<rparr>)
      else c_bind (get_wapi_ie_loop in_ie in_len (8 + 2 + 2) (wapi\<lparr>out_len := 0\<rparr>)) (\<lambda>wapi.
        Ret (out_len wapi, wapi)))"

section \<open>Parsing the elements\<close>

text \<open>The loops over suite lists: \<open>n\<close> selectors from \<open>pos\<close> on, collected into a bit set.\<close>

primrec suites_or :: "(bytes \<Rightarrow> u32) \<Rightarrow> bytes \<Rightarrow> nat \<Rightarrow> nat \<Rightarrow> u32 \<Rightarrow> u32 c_result" where
  "suites_or suite ie pos 0 acc = Ret acc"
| "suites_or suite ie pos (Suc n) acc =
     c_bind (c_slice ie pos 4) (\<lambda>s. suites_or suite ie (pos + 4) n (acc OR suite s))"

definition get_le16_at :: "bytes \<Rightarrow> nat \<Rightarrow> nat c_result" where
  "get_le16_at ie pos = c_bind (c_slice ie pos 2) (\<lambda>b. Ret (unat (RTW_GET_LE16 b)))"

text \<open>
  \<^verbatim>\<open>rtw_parse_wpa_ie\<close>: \<open>left\<close> is an \<^verbatim>\<open>int\<close> and may be negative. The cipher sets are in-out
  parameters; on failure they keep what was found until then.
\<close>

record wpa_info =
  w_group :: u32
  w_pairwise :: u32
  w_akm :: "u32 option"

definition wpa_parse_akm :: "bytes \<Rightarrow> nat \<Rightarrow> int \<Rightarrow> wpa_info \<Rightarrow> (bool \<times> wpa_info) c_result" where
  "wpa_parse_akm wpa_ie pos left i =
     (if w_akm i \<noteq> None \<and> 6 \<le> left
      then c_bind (c_slice wpa_ie (pos + 2) 4) (\<lambda>s.
        Ret (True, if s = [0x00, 0x50, 0xf2, 1] then i\<lparr>w_akm := Some WLAN_AKM_TYPE_8021X\<rparr> else i))
      else Ret (True, i))"

definition wpa_parse_pairwise :: "bytes \<Rightarrow> nat \<Rightarrow> int \<Rightarrow> wpa_info \<Rightarrow> (bool \<times> wpa_info) c_result" where
  "wpa_parse_pairwise wpa_ie pos left i =
     (if 2 \<le> left
      then c_bind (get_le16_at wpa_ie pos) (\<lambda>count.
        if count = 0 \<or> left - 2 < int count * 4 then Ret (False, i)
        else c_bind (suites_or rtw_get_wpa_cipher_suite wpa_ie (pos + 2) count (w_pairwise i)) (\<lambda>p.
          wpa_parse_akm wpa_ie (pos + 2 + 4 * count) (left - 2 - 4 * int count) (i\<lparr>w_pairwise := p\<rparr>)))
      else if left = 1 then Ret (False, i)
      else wpa_parse_akm wpa_ie pos left i)"

definition rtw_parse_wpa_ie :: "bytes \<Rightarrow> int \<Rightarrow> wpa_info \<Rightarrow> (bool \<times> wpa_info) c_result" where
  "rtw_parse_wpa_ie wpa_ie wpa_ie_len i =
     (if wpa_ie_len \<le> 0 then Ret (False, i)
      else c_bind (c_slice wpa_ie 0 1) (\<lambda>b0.
        if b0 \<noteq> [0xdd] then Ret (False, i)
        else c_bind (c_slice wpa_ie 1 1) (\<lambda>b1.
          if b1 \<noteq> [word_of_int (wpa_ie_len - 2)] then Ret (False, i)
          else c_bind (c_slice wpa_ie 2 4) (\<lambda>o'.
            if o' \<noteq> RTW_WPA_OUI_TYPE then Ret (False, i)
            else let left = wpa_ie_len - 8
              in if 4 \<le> left
                 then c_bind (c_slice wpa_ie 8 4) (\<lambda>s.
                   wpa_parse_pairwise wpa_ie 12 (left - 4) (i\<lparr>w_group := rtw_get_wpa_cipher_suite s\<rparr>))
                 else if 0 < left then Ret (False, i)
                 else wpa_parse_pairwise wpa_ie 8 left i))))"

text \<open>\<^verbatim>\<open>rtw_rsne_info_parse\<close>, one definition per field of the element in its order.\<close>

record rsne_info =
  gcs :: "nat option"
  pcs_cnt :: nat
  pcs_list :: "nat option"
  akm_cnt :: nat
  akm_list :: "nat option"
  cap :: "nat option"
  pmkid_cnt :: nat
  pmkid_list :: "nat option"
  gmcs :: "nat option"
  err :: bool

definition rsne_zero :: rsne_info where
  "rsne_zero = \<lparr>gcs = None, pcs_cnt = 0, pcs_list = None, akm_cnt = 0, akm_list = None, cap = None,
     pmkid_cnt = 0, pmkid_list = None, gmcs = None, err = False\<rparr>"

definition rsne_err :: "rsne_info \<Rightarrow> (bool \<times> rsne_info) c_result" where
  "rsne_err info = Ret (False, info\<lparr>err := True\<rparr>)"

definition rsne_end :: "nat \<Rightarrow> nat \<Rightarrow> rsne_info \<Rightarrow> (bool \<times> rsne_info) c_result" where
  "rsne_end ie_len pos info = (if ie_len \<noteq> pos then rsne_err info else Ret (True, info))"

definition rsne_gmcs :: "nat \<Rightarrow> nat \<Rightarrow> rsne_info \<Rightarrow> (bool \<times> rsne_info) c_result" where
  "rsne_gmcs ie_len pos info =
     (if ie_len < pos + 4 then rsne_end ie_len pos info else Ret (True, info\<lparr>gmcs := Some pos\<rparr>))"

definition rsne_pmkid :: "bytes \<Rightarrow> nat \<Rightarrow> nat \<Rightarrow> rsne_info \<Rightarrow> (bool \<times> rsne_info) c_result" where
  "rsne_pmkid ie ie_len pos info =
     (if ie_len < pos + 2 then rsne_end ie_len pos info
      else c_bind (get_le16_at ie pos) (\<lambda>cnt.
        if ie_len < pos + 2 + 16 * cnt then rsne_err info
        else rsne_gmcs ie_len (pos + 2 + 16 * cnt) (info\<lparr>pmkid_cnt := cnt, pmkid_list := Some (pos + 2)\<rparr>)))"

definition rsne_cap :: "bytes \<Rightarrow> nat \<Rightarrow> nat \<Rightarrow> rsne_info \<Rightarrow> (bool \<times> rsne_info) c_result" where
  "rsne_cap ie ie_len pos info =
     (if ie_len < pos + 2 then rsne_end ie_len pos info
      else rsne_pmkid ie ie_len (pos + 2) (info\<lparr>cap := Some pos\<rparr>))"

definition rsne_akm :: "bytes \<Rightarrow> nat \<Rightarrow> nat \<Rightarrow> rsne_info \<Rightarrow> (bool \<times> rsne_info) c_result" where
  "rsne_akm ie ie_len pos info =
     (if ie_len < pos + 2 then rsne_end ie_len pos info
      else c_bind (get_le16_at ie pos) (\<lambda>cnt.
        if ie_len < pos + 2 + 4 * cnt then rsne_end ie_len (pos + 2) info
        else rsne_cap ie ie_len (pos + 2 + 4 * cnt) (info\<lparr>akm_cnt := cnt, akm_list := Some (pos + 2)\<rparr>)))"

definition rsne_pcs :: "bytes \<Rightarrow> nat \<Rightarrow> nat \<Rightarrow> rsne_info \<Rightarrow> (bool \<times> rsne_info) c_result" where
  "rsne_pcs ie ie_len pos info =
     (if ie_len < pos + 2 then rsne_end ie_len pos info
      else c_bind (get_le16_at ie pos) (\<lambda>cnt.
        if ie_len < pos + 2 + 4 * cnt then rsne_end ie_len (pos + 2) info
        else rsne_akm ie ie_len (pos + 2 + 4 * cnt) (info\<lparr>pcs_cnt := cnt, pcs_list := Some (pos + 2)\<rparr>)))"

definition rsne_gcs :: "bytes \<Rightarrow> nat \<Rightarrow> nat \<Rightarrow> rsne_info \<Rightarrow> (bool \<times> rsne_info) c_result" where
  "rsne_gcs ie ie_len pos info =
     (if ie_len < pos + 4 then rsne_end ie_len pos info
      else rsne_pcs ie ie_len (pos + 4) (info\<lparr>gcs := Some pos\<rparr>))"

definition rtw_rsne_info_parse :: "bytes \<Rightarrow> nat \<Rightarrow> (bool \<times> rsne_info) c_result" where
  "rtw_rsne_info_parse ie ie_len =
     (if ie_len < 4 then rsne_err rsne_zero
      else c_bind (c_slice ie 0 2) (\<lambda>h.
        if h ! 0 \<noteq> 48 \<or> unat (h ! 1) \<noteq> ie_len - 2 then rsne_err rsne_zero
        else c_bind (get_le16_at ie 2) (\<lambda>ver.
          if ver \<noteq> 1 then rsne_err rsne_zero else rsne_gcs ie ie_len 4 rsne_zero)))"

text \<open>The two-bit fields of the RSN capabilities.\<close>

definition GET_RSN_CAP_MFP_OPTION :: "bytes \<Rightarrow> u16" where
  "GET_RSN_CAP_MFP_OPTION c = take_bit 2 (drop_bit 6 (RTW_GET_LE16 c))"

definition GET_RSN_CAP_SPP_OPT :: "bytes \<Rightarrow> u16" where
  "GET_RSN_CAP_SPP_OPT c = take_bit 2 (drop_bit 10 (RTW_GET_LE16 c))"

record wpa2_out =
  o_group_cipher :: "u32 option"
  o_pairwise_cipher :: "u32 option"
  o_gmcs :: "u32 option"
  o_akm :: "u32 option"
  o_mfp_opt :: "u16 option"
  o_spp_opt :: "u16 option"

text \<open>An output that is asked for is computed and stored.\<close>

definition c_store :: "'a option \<Rightarrow> 'a c_result \<Rightarrow> 'a option c_result" where
  "c_store p v = (case p of None \<Rightarrow> Ret None | Some _ \<Rightarrow> c_bind v (\<lambda>x. Ret (Some x)))"

definition suite_at :: "(bytes \<Rightarrow> 'a) \<Rightarrow> bytes \<Rightarrow> nat \<Rightarrow> nat option \<Rightarrow> 'a c_result \<Rightarrow> 'a c_result" where
  "suite_at f ie n p none = (case p of None \<Rightarrow> none | Some p \<Rightarrow> c_bind (c_slice ie p n) (\<lambda>s. Ret (f s)))"

definition suites_at :: "(bytes \<Rightarrow> u32) \<Rightarrow> bytes \<Rightarrow> nat \<Rightarrow> nat option \<Rightarrow> u32 c_result" where
  "suites_at f ie cnt p = (case p of None \<Rightarrow> Ret 0 | Some p \<Rightarrow> suites_or f ie p cnt 0)"

definition rtw_parse_wpa2_ie :: "bytes \<Rightarrow> nat \<Rightarrow> wpa2_out \<Rightarrow> (bool \<times> wpa2_out) c_result" where
  "rtw_parse_wpa2_ie rsn_ie rsn_ie_len out =
     c_bind (rtw_rsne_info_parse rsn_ie rsn_ie_len) (\<lambda>(ret, info).
       if \<not> ret then Ret (False, out)
       else
         c_bind (c_store (o_group_cipher out) (suite_at rtw_get_rsn_cipher_suite rsn_ie 4 (gcs info) (Ret 0))) (\<lambda>group_cipher.
         c_bind (c_store (o_pairwise_cipher out) (suites_at rtw_get_rsn_cipher_suite rsn_ie (pcs_cnt info) (pcs_list info))) (\<lambda>pairwise_cipher.
         c_bind (c_store (o_gmcs out) (suite_at rtw_get_rsn_cipher_suite rsn_ie 4 (gmcs info)
           (suite_at (\<lambda>c. if 1 < GET_RSN_CAP_MFP_OPTION c then WPA_CIPHER_BIP_CMAC_128 else 0) rsn_ie 2 (cap info) (Ret 0)))) (\<lambda>gmcs.
         c_bind (c_store (o_akm out) (suites_at rtw_get_akm_suite_bitmap rsn_ie (akm_cnt info) (akm_list info))) (\<lambda>akm.
         c_bind (c_store (o_mfp_opt out) (suite_at GET_RSN_CAP_MFP_OPTION rsn_ie 2 (cap info) (Ret 0))) (\<lambda>mfp_opt.
         c_bind (c_store (o_spp_opt out) (suite_at GET_RSN_CAP_SPP_OPT rsn_ie 2 (cap info) (Ret 0))) (\<lambda>spp_opt.
           Ret (True, \<lparr>o_group_cipher = group_cipher, o_pairwise_cipher = pairwise_cipher, o_gmcs = gmcs,
             o_akm = akm, o_mfp_opt = mfp_opt, o_spp_opt = spp_opt\<rparr>))))))))"

section \<open>Nothing outside an element is read\<close>

lemma c_slice_in [simp]: "off + n \<le> length buf \<Longrightarrow> c_slice buf off n = Ret (take n (drop off buf))"
  by (simp add: c_slice_def)

lemma get_le16_at_in [simp]:
  "pos + 2 \<le> length ie \<Longrightarrow> get_le16_at ie pos = Ret (unat (RTW_GET_LE16 (take 2 (drop pos ie))))"
  by (simp add: get_le16_at_def)

lemma suites_or_in:
  "pos + 4 * n \<le> length ie \<Longrightarrow> suites_or f ie pos n acc \<noteq> Oob"
  by (induction n arbitrary: pos acc) simp_all

text \<open>The pointers of an accepted element lie in it together with what they point to.\<close>

definition ptr_in :: "nat \<Rightarrow> nat \<Rightarrow> nat option \<Rightarrow> bool" where
  "ptr_in n ie_len p = (case p of None \<Rightarrow> True | Some p \<Rightarrow> 4 \<le> p \<and> p + n \<le> ie_len)"

definition rsne_inside :: "nat \<Rightarrow> rsne_info \<Rightarrow> bool" where
  "rsne_inside ie_len info \<longleftrightarrow>
     ptr_in 4 ie_len (gcs info) \<and> ptr_in (4 * pcs_cnt info) ie_len (pcs_list info) \<and>
     ptr_in (4 * akm_cnt info) ie_len (akm_list info) \<and> ptr_in 2 ie_len (cap info) \<and>
     ptr_in (16 * pmkid_cnt info) ie_len (pmkid_list info) \<and> ptr_in 4 ie_len (gmcs info)"

definition rsne_ok :: "nat \<Rightarrow> (bool \<times> rsne_info) c_result \<Rightarrow> bool" where
  "rsne_ok ie_len r = (case r of Oob \<Rightarrow> False | Ret (ret, info) \<Rightarrow> rsne_inside ie_len info \<and> err info = (\<not> ret))"

lemma rsne_ok_err [simp]: "rsne_inside n info \<Longrightarrow> rsne_ok n (rsne_err info)"
  by (simp add: rsne_ok_def rsne_err_def rsne_inside_def)

lemma rsne_ok_end [simp]: "rsne_inside n info \<Longrightarrow> \<not> err info \<Longrightarrow> rsne_ok n (rsne_end n pos info)"
  by (auto simp: rsne_end_def, simp add: rsne_ok_def)

lemma rsne_ok_gmcs: "rsne_inside n info \<Longrightarrow> \<not> err info \<Longrightarrow> 4 \<le> pos \<Longrightarrow> rsne_ok n (rsne_gmcs n pos info)"
  by (simp add: rsne_gmcs_def, auto simp: rsne_ok_def rsne_inside_def ptr_in_def split: option.splits)

lemma rsne_inside_update [simp]:
  assumes "rsne_inside n info"
  shows "4 \<le> p \<Longrightarrow> p + 4 \<le> n \<Longrightarrow> rsne_inside n (info\<lparr>gcs := Some p\<rparr>)"
    "4 \<le> p \<Longrightarrow> p + 4 * c \<le> n \<Longrightarrow> rsne_inside n (info\<lparr>pcs_cnt := c, pcs_list := Some p\<rparr>)"
    "4 \<le> p \<Longrightarrow> p + 4 * c \<le> n \<Longrightarrow> rsne_inside n (info\<lparr>akm_cnt := c, akm_list := Some p\<rparr>)"
    "4 \<le> p \<Longrightarrow> p + 2 \<le> n \<Longrightarrow> rsne_inside n (info\<lparr>cap := Some p\<rparr>)"
    "4 \<le> p \<Longrightarrow> p + 16 * c \<le> n \<Longrightarrow> rsne_inside n (info\<lparr>pmkid_cnt := c, pmkid_list := Some p\<rparr>)"
  using assms by (auto simp: rsne_inside_def ptr_in_def split: option.splits)

lemma rsne_ok_stages:
  assumes "n \<le> length ie"
  shows rsne_ok_pmkid: "rsne_inside n info \<Longrightarrow> \<not> err info \<Longrightarrow> 4 \<le> pos \<Longrightarrow> rsne_ok n (rsne_pmkid ie n pos info)"
    and rsne_ok_cap: "rsne_inside n info \<Longrightarrow> \<not> err info \<Longrightarrow> 4 \<le> pos \<Longrightarrow> rsne_ok n (rsne_cap ie n pos info)"
    and rsne_ok_akm: "rsne_inside n info \<Longrightarrow> \<not> err info \<Longrightarrow> 4 \<le> pos \<Longrightarrow> rsne_ok n (rsne_akm ie n pos info)"
    and rsne_ok_pcs: "rsne_inside n info \<Longrightarrow> \<not> err info \<Longrightarrow> 4 \<le> pos \<Longrightarrow> rsne_ok n (rsne_pcs ie n pos info)"
    and rsne_ok_gcs: "rsne_inside n info \<Longrightarrow> \<not> err info \<Longrightarrow> 4 \<le> pos \<Longrightarrow> rsne_ok n (rsne_gcs ie n pos info)"
proof -
  show 1: "rsne_ok n (rsne_pmkid ie n pos info)" if "rsne_inside n info" "\<not> err info" "4 \<le> pos" for pos info
    using that assms by (simp add: rsne_pmkid_def rsne_ok_gmcs)
  show 2: "rsne_ok n (rsne_cap ie n pos info)" if "rsne_inside n info" "\<not> err info" "4 \<le> pos" for pos info
    using that assms by (simp add: rsne_cap_def 1)
  show 3: "rsne_ok n (rsne_akm ie n pos info)" if "rsne_inside n info" "\<not> err info" "4 \<le> pos" for pos info
    using that assms by (simp add: rsne_akm_def 2)
  show 4: "rsne_ok n (rsne_pcs ie n pos info)" if "rsne_inside n info" "\<not> err info" "4 \<le> pos" for pos info
    using that assms by (simp add: rsne_pcs_def 3)
  show "rsne_ok n (rsne_gcs ie n pos info)" if "rsne_inside n info" "\<not> err info" "4 \<le> pos" for pos info
    using that assms by (simp add: rsne_gcs_def 4)
qed

lemma rsne_ok_parse:
  assumes "n \<le> length ie"
  shows "rsne_ok n (rtw_rsne_info_parse ie n)"
proof -
  have z: "rsne_inside n rsne_zero" "\<not> err rsne_zero"
    by (simp_all add: rsne_inside_def ptr_in_def rsne_zero_def)
  show ?thesis
    using assms z by (simp add: rtw_rsne_info_parse_def rsne_ok_gcs [OF assms])
qed

lemma c_bind_in: "m \<noteq> Oob \<Longrightarrow> (\<And>x. m = Ret x \<Longrightarrow> f x \<noteq> Oob) \<Longrightarrow> c_bind m f \<noteq> Oob"
  by (cases m) simp_all

lemma suite_at_in:
  "ptr_in k n p \<Longrightarrow> n \<le> length ie \<Longrightarrow> none \<noteq> Oob \<Longrightarrow> suite_at f ie k p none \<noteq> Oob"
  by (simp add: suite_at_def ptr_in_def split: option.splits)

lemma suites_at_in: "ptr_in (4 * c) n p \<Longrightarrow> n \<le> length ie \<Longrightarrow> suites_at f ie c p \<noteq> Oob"
  by (simp add: suites_at_def ptr_in_def suites_or_in split: option.splits)

lemma bind_store_in: "v \<noteq> Oob \<Longrightarrow> (\<And>x. f x \<noteq> Oob) \<Longrightarrow> c_bind (c_store p v) f \<noteq> Oob"
  by (cases v) (simp_all add: c_store_def split: option.splits)

lemma rtw_parse_wpa2_ie_in:
  assumes "n \<le> length ie"
  shows "rtw_parse_wpa2_ie ie n out \<noteq> Oob"
proof -
  have "rtw_rsne_info_parse ie n \<noteq> Oob" using rsne_ok_parse [OF assms] by (auto simp: rsne_ok_def)
  then obtain ret info where r: "rtw_rsne_info_parse ie n = Ret (ret, info)"
    by (cases "rtw_rsne_info_parse ie n") auto
  then have "rsne_inside n info" using rsne_ok_parse [OF assms] by (simp add: rsne_ok_def)
  then have in': "ptr_in 4 n (gcs info)" "ptr_in (4 * pcs_cnt info) n (pcs_list info)"
    "ptr_in (4 * akm_cnt info) n (akm_list info)" "ptr_in 2 n (cap info)" "ptr_in 4 n (gmcs info)"
    by (simp_all add: rsne_inside_def)
  show ?thesis
    unfolding rtw_parse_wpa2_ie_def r c_bind.simps prod.case
    by (cases ret)
      (simp_all, intro bind_store_in suite_at_in [OF _ assms] suites_at_in [OF _ assms] in' c_result.distinct(1))
qed

text \<open>The WPA parser looks at the first six bytes whatever the length says, and at nothing behind the element otherwise.\<close>

lemma wpa_parse_akm_in: "int pos + left \<le> int (length ie) \<Longrightarrow> wpa_parse_akm ie pos left i \<noteq> Oob"
  by (simp add: wpa_parse_akm_def)

lemma wpa_parse_pairwise_in:
  assumes "int pos + left \<le> int (length ie)"
  shows "wpa_parse_pairwise ie pos left i \<noteq> Oob"
proof (cases "2 \<le> left")
  case True
  then have le: "pos + 2 \<le> length ie" using assms by linarith
  let ?c = "unat (RTW_GET_LE16 (take 2 (drop pos ie)))"
  show ?thesis
  proof (cases "?c = 0 \<or> left - 2 < int ?c * 4")
    case False
    have "suites_or rtw_get_wpa_cipher_suite ie (pos + 2) ?c (w_pairwise i) \<noteq> Oob"
      using False assms by (intro suites_or_in) linarith
    moreover have "wpa_parse_akm ie (pos + 2 + 4 * ?c) (left - 2 - 4 * int ?c) i \<noteq> Oob" for i
      using assms by (intro wpa_parse_akm_in) linarith
    ultimately show ?thesis
      using True False le by (simp add: wpa_parse_pairwise_def c_bind_in)
  qed (use True le in \<open>auto simp: wpa_parse_pairwise_def\<close>)
next
  case False
  then show ?thesis using wpa_parse_akm_in [OF assms] by (simp add: wpa_parse_pairwise_def)
qed

lemma rtw_parse_wpa_ie_in:
  assumes "n \<le> int (length ie)" "6 \<le> length ie"
  shows "rtw_parse_wpa_ie ie n i \<noteq> Oob"
proof -
  have 12: "wpa_parse_pairwise ie 12 (n - 8 - 4) i \<noteq> Oob" if "12 \<le> n" for i
    using assms that by (intro wpa_parse_pairwise_in) simp
  have 8: "wpa_parse_pairwise ie 8 (n - 8) i \<noteq> Oob" for i
    using assms by (intro wpa_parse_pairwise_in) simp
  have "c_slice ie 8 4 = Ret (take 4 (drop 8 ie))" if "12 \<le> n" using assms that by simp
  then show ?thesis
    using assms 12 8 by (simp add: rtw_parse_wpa_ie_def Let_def)
qed

section \<open>Structured RSN elements\<close>

text \<open>
  An RSN element as a structure: the fields are present up to some point and absent behind it.
\<close>

record rsn =
  r_gcs :: "bytes option"
  r_pcs :: "bytes list option"
  r_akm :: "bytes list option"
  r_cap :: "bytes option"
  r_pmkid :: "bytes list option"
  r_gmcs :: "bytes option"

definition opt_bytes :: "bytes option \<Rightarrow> bytes" where
  "opt_bytes x = (case x of None \<Rightarrow> [] | Some b \<Rightarrow> b)"

definition opt_list :: "bytes list option \<Rightarrow> bytes" where
  "opt_list x = (case x of None \<Rightarrow> [] | Some bs \<Rightarrow> RTW_PUT_LE16 (of_nat (length bs)) @ concat bs)"

definition rsn_body :: "rsn \<Rightarrow> bytes" where
  "rsn_body r = RTW_PUT_LE16 1 @ opt_bytes (r_gcs r) @ opt_list (r_pcs r) @ opt_list (r_akm r) @
     opt_bytes (r_cap r) @ opt_list (r_pmkid r) @ opt_bytes (r_gmcs r)"

definition opt_len :: "nat \<Rightarrow> bytes option \<Rightarrow> bool" where
  "opt_len n x = (case x of None \<Rightarrow> True | Some b \<Rightarrow> length b = n)"

definition opt_lens :: "nat \<Rightarrow> bytes list option \<Rightarrow> bool" where
  "opt_lens n x = (case x of None \<Rightarrow> True | Some bs \<Rightarrow> \<forall>b \<in> set bs. length b = n)"

definition rsn_wf :: "rsn \<Rightarrow> bool" where
  "rsn_wf r \<longleftrightarrow> opt_len 4 (r_gcs r) \<and> opt_lens 4 (r_pcs r) \<and> opt_lens 4 (r_akm r) \<and> opt_len 2 (r_cap r) \<and>
     opt_lens 16 (r_pmkid r) \<and> opt_len 4 (r_gmcs r) \<and>
     (r_gcs r = None \<longrightarrow> r_pcs r = None) \<and> (r_pcs r = None \<longrightarrow> r_akm r = None) \<and>
     (r_akm r = None \<longrightarrow> r_cap r = None) \<and> (r_cap r = None \<longrightarrow> r_pmkid r = None) \<and>
     (r_pmkid r = None \<longrightarrow> r_gmcs r = None) \<and> length (rsn_body r) \<le> 255"

text \<open>Where the fields are in the element, and what the parser reports of it.\<close>

definition opt_cnt :: "bytes list option \<Rightarrow> nat" where
  "opt_cnt x = (case x of None \<Rightarrow> 0 | Some bs \<Rightarrow> length bs)"

definition opt_at :: "nat \<Rightarrow> 'a option \<Rightarrow> nat option" where
  "opt_at p x = map_option (\<lambda>_. p) x"

definition rsn_info :: "rsn \<Rightarrow> rsne_info" where
  "rsn_info r =
     (let p = 4 + length (opt_bytes (r_gcs r)); q = p + length (opt_list (r_pcs r));
          s = q + length (opt_list (r_akm r)); t = s + length (opt_bytes (r_cap r));
          u = t + length (opt_list (r_pmkid r))
      in \<lparr>gcs = opt_at 4 (r_gcs r), pcs_cnt = opt_cnt (r_pcs r), pcs_list = opt_at (p + 2) (r_pcs r),
          akm_cnt = opt_cnt (r_akm r), akm_list = opt_at (q + 2) (r_akm r), cap = opt_at s (r_cap r),
          pmkid_cnt = opt_cnt (r_pmkid r), pmkid_list = opt_at (t + 2) (r_pmkid r),
          gmcs = opt_at u (r_gmcs r), err = False\<rparr>)"

lemma length_concat_const: "\<forall>b \<in> set bs. length b = n \<Longrightarrow> length (concat bs) = n * length bs"
  by (induction bs) simp_all

lemma get_le16_at_put:
  "off = length pre \<Longrightarrow> n < 2 ^ 16 \<Longrightarrow> get_le16_at (pre @ RTW_PUT_LE16 (of_nat n) @ post) off = Ret n"
  by (simp add: get_le16_at_def c_slice_def RTW_GET_PUT_LE16 [of _ "[]", simplified] unat_of_nat)

lemma length_opt_list: "opt_lens n x \<Longrightarrow> length (opt_list x) = (case x of None \<Rightarrow> 0 | Some bs \<Rightarrow> 2 + n * length bs)"
  by (simp add: opt_list_def opt_lens_def length_concat_const split: option.splits)

lemma rsne_gmcs_roundtrip:
  assumes "opt_len 4 g" "gmcs info = None" "n = p + length (opt_bytes g)"
  shows "rsne_gmcs n p info = Ret (True, info\<lparr>gmcs := opt_at p g\<rparr>)"
  using assms by (cases g; cases info) (auto simp: rsne_gmcs_def rsne_end_def opt_len_def opt_bytes_def opt_at_def)

lemma rsne_pmkid_roundtrip:
  assumes ie: "ie = pre @ opt_list ids @ opt_bytes g @ rest" and p: "p = length pre"
    and n: "n = p + length (opt_list ids) + length (opt_bytes g)"
    and wf: "opt_lens 16 ids" "opt_len 4 g" "ids = None \<longrightarrow> g = None" "opt_cnt ids < 2 ^ 16"
    and info: "pmkid_cnt info = 0" "pmkid_list info = None" "gmcs info = None"
  shows "rsne_pmkid ie n p info =
    Ret (True, info\<lparr>pmkid_cnt := opt_cnt ids, pmkid_list := opt_at (p + 2) ids, gmcs := opt_at (p + length (opt_list ids)) g\<rparr>)"
proof (cases ids)
  case None
  then show ?thesis
    using wf(3) info n by (cases info) (auto simp: rsne_pmkid_def rsne_end_def opt_list_def opt_bytes_def opt_at_def opt_cnt_def)
next
  case (Some bs)
  have "get_le16_at ie p = Ret (length bs)"
    using get_le16_at_put [of p pre "length bs" "concat bs @ opt_bytes g @ rest"] wf(4) p
    by (simp add: ie opt_list_def Some opt_cnt_def)
  moreover have "length (opt_list ids) = 2 + 16 * length bs" using wf(1) Some by (simp add: length_opt_list)
  ultimately show ?thesis
    using n info wf(2) by (simp add: rsne_pmkid_def Some rsne_gmcs_roundtrip opt_at_def opt_cnt_def add.assoc)
qed

lemma rsne_cap_roundtrip:
  assumes ie: "ie = pre @ opt_bytes c @ opt_list ids @ opt_bytes g @ rest" and p: "p = length pre"
    and n: "n = p + length (opt_bytes c) + length (opt_list ids) + length (opt_bytes g)"
    and wf: "opt_len 2 c" "opt_lens 16 ids" "opt_len 4 g" "c = None \<longrightarrow> ids = None" "ids = None \<longrightarrow> g = None" "opt_cnt ids < 2 ^ 16"
    and info: "cap info = None" "pmkid_cnt info = 0" "pmkid_list info = None" "gmcs info = None"
  shows "rsne_cap ie n p info = Ret (True, info\<lparr>cap := opt_at p c,
      pmkid_cnt := opt_cnt ids, pmkid_list := opt_at (p + length (opt_bytes c) + 2) ids,
      gmcs := opt_at (p + length (opt_bytes c) + length (opt_list ids)) g\<rparr>)"
proof (cases c)
  case None
  then show ?thesis
    using wf(4,5) info n by (cases info) (auto simp: rsne_cap_def rsne_end_def opt_list_def opt_bytes_def opt_at_def opt_cnt_def)
next
  case (Some b)
  have "length (opt_bytes c) = 2" using wf(1) Some by (simp add: opt_len_def opt_bytes_def)
  then show ?thesis
    using n info rsne_pmkid_roundtrip [of ie "pre @ opt_bytes c" ids g rest "p + 2" n "info\<lparr>cap := Some p\<rparr>"] ie p wf
    by (simp add: rsne_cap_def Some opt_at_def)
qed

text \<open>The two suite lists are parsed alike: a count, then the selectors, then the rest of the element.\<close>

lemma suite_list_roundtrip:
  assumes ie: "ie = pre @ opt_list xs @ rest" and p: "p = length pre" and le: "p + length (opt_list xs) \<le> n"
    and wf: "opt_lens 4 xs" "opt_cnt xs < 2 ^ 16" and last: "xs = None \<longrightarrow> n = p"
  shows "(if n < p + 2 then rsne_end n p info
      else c_bind (get_le16_at ie p) (\<lambda>cnt. if n < p + 2 + 4 * cnt then rsne_end n (p + 2) info
        else f (p + 2 + 4 * cnt) cnt (p + 2))) =
    (if xs = None then Ret (True, info) else f (p + length (opt_list xs)) (opt_cnt xs) (p + 2))"
proof (cases xs)
  case None
  then show ?thesis using last by (simp add: rsne_end_def)
next
  case (Some bs)
  have "get_le16_at ie p = Ret (length bs)"
    using get_le16_at_put [of p pre "length bs" "concat bs @ rest"] wf(2) p by (simp add: ie opt_list_def Some opt_cnt_def)
  then show ?thesis using le wf(1) by (simp add: Some length_opt_list opt_cnt_def add.assoc)
qed

lemma rsn_wf_cnt:
  assumes "rsn_wf r"
  shows "opt_cnt (r_pcs r) < 2 ^ 16" "opt_cnt (r_akm r) < 2 ^ 16" "opt_cnt (r_pmkid r) < 2 ^ 16"
proof -
  have "opt_cnt x \<le> length (opt_list x)" if "opt_lens (Suc k) x" for k x
    using length_opt_list [OF that] by (simp add: opt_cnt_def split: option.splits)
  from this [of 3 "r_pcs r"] this [of 3 "r_akm r"] this [of 15 "r_pmkid r"]
  show "opt_cnt (r_pcs r) < 2 ^ 16" "opt_cnt (r_akm r) < 2 ^ 16" "opt_cnt (r_pmkid r) < 2 ^ 16"
    using assms by (simp_all add: rsn_wf_def rsn_body_def)
qed

lemma rsne_akm_roundtrip:
  assumes ie: "ie = pre @ opt_list (r_akm r) @ opt_bytes (r_cap r) @ opt_list (r_pmkid r) @ opt_bytes (r_gmcs r) @ rest"
    and p: "p = length pre"
    and n: "n = p + length (opt_list (r_akm r)) + length (opt_bytes (r_cap r)) + length (opt_list (r_pmkid r)) + length (opt_bytes (r_gmcs r))"
    and wf: "rsn_wf r"
    and info: "akm_cnt info = 0" "akm_list info = None" "cap info = None" "pmkid_cnt info = 0" "pmkid_list info = None" "gmcs info = None"
  shows "rsne_akm ie n p info =
    (let s = p + length (opt_list (r_akm r)); t = s + length (opt_bytes (r_cap r)); u = t + length (opt_list (r_pmkid r))
     in Ret (True, info\<lparr>akm_cnt := opt_cnt (r_akm r), akm_list := opt_at (p + 2) (r_akm r), cap := opt_at s (r_cap r),
      pmkid_cnt := opt_cnt (r_pmkid r), pmkid_list := opt_at (t + 2) (r_pmkid r), gmcs := opt_at u (r_gmcs r)\<rparr>))"
proof -
  have lens: "opt_lens 4 (r_akm r)" "opt_len 2 (r_cap r)" "opt_lens 16 (r_pmkid r)" "opt_len 4 (r_gmcs r)"
    "r_akm r = None \<longrightarrow> r_cap r = None" "r_cap r = None \<longrightarrow> r_pmkid r = None" "r_pmkid r = None \<longrightarrow> r_gmcs r = None"
    using wf by (simp_all add: rsn_wf_def)
  show ?thesis
  proof (cases "r_akm r = None")
    case True
    then show ?thesis
      using lens info n by (cases info) (auto simp: rsne_akm_def rsne_end_def opt_list_def opt_bytes_def opt_at_def opt_cnt_def)
  next
    case False
    have last: "r_akm r = None \<longrightarrow> n = p" using False by blast
    show ?thesis
      unfolding rsne_akm_def
      using suite_list_roundtrip [OF ie p _ lens(1) rsn_wf_cnt(2) [OF wf] last, of info
          "\<lambda>pos cnt q. rsne_cap ie n pos (info\<lparr>akm_cnt := cnt, akm_list := Some q\<rparr>)"]
        rsne_cap_roundtrip [of ie "pre @ opt_list (r_akm r)" "r_cap r" "r_pmkid r" "r_gmcs r" rest
          "p + length (opt_list (r_akm r))" n "info\<lparr>akm_cnt := opt_cnt (r_akm r), akm_list := Some (p + 2)\<rparr>"]
        False n ie p info lens rsn_wf_cnt(3) [OF wf]
      by (auto simp: Let_def opt_at_def)
  qed
qed

lemma rsne_pcs_roundtrip:
  assumes ie: "ie = pre @ opt_list (r_pcs r) @ opt_list (r_akm r) @ opt_bytes (r_cap r) @ opt_list (r_pmkid r) @ opt_bytes (r_gmcs r) @ rest"
    and p: "p = length pre"
    and n: "n = p + length (opt_list (r_pcs r)) + length (opt_list (r_akm r)) + length (opt_bytes (r_cap r)) + length (opt_list (r_pmkid r)) + length (opt_bytes (r_gmcs r))"
    and wf: "rsn_wf r"
  shows "rsne_pcs ie n p (rsne_zero\<lparr>gcs := Some g\<rparr>) =
    (let q = p + length (opt_list (r_pcs r)); s = q + length (opt_list (r_akm r)); t = s + length (opt_bytes (r_cap r)); u = t + length (opt_list (r_pmkid r))
     in Ret (True, \<lparr>gcs = Some g, pcs_cnt = opt_cnt (r_pcs r), pcs_list = opt_at (p + 2) (r_pcs r),
      akm_cnt = opt_cnt (r_akm r), akm_list = opt_at (q + 2) (r_akm r), cap = opt_at s (r_cap r),
      pmkid_cnt = opt_cnt (r_pmkid r), pmkid_list = opt_at (t + 2) (r_pmkid r), gmcs = opt_at u (r_gmcs r), err = False\<rparr>))"
proof -
  have lens: "opt_lens 4 (r_pcs r)" "r_pcs r = None \<longrightarrow> r_akm r = None" "r_akm r = None \<longrightarrow> r_cap r = None"
    "r_cap r = None \<longrightarrow> r_pmkid r = None" "r_pmkid r = None \<longrightarrow> r_gmcs r = None"
    using wf by (simp_all add: rsn_wf_def)
  show ?thesis
  proof (cases "r_pcs r = None")
    case True
    then show ?thesis
      using lens n by (auto simp: rsne_zero_def rsne_pcs_def rsne_end_def opt_list_def opt_bytes_def opt_at_def opt_cnt_def)
  next
    case False
    have last: "r_pcs r = None \<longrightarrow> n = p" using False by blast
    let ?info = "rsne_zero\<lparr>gcs := Some g\<rparr>"
    show ?thesis
      unfolding rsne_pcs_def
      using suite_list_roundtrip [OF ie p _ lens(1) rsn_wf_cnt(1) [OF wf] last, of ?info
          "\<lambda>pos cnt q. rsne_akm ie n pos (?info\<lparr>pcs_cnt := cnt, pcs_list := Some q\<rparr>)"]
        rsne_akm_roundtrip [of ie "pre @ opt_list (r_pcs r)" r rest
          "p + length (opt_list (r_pcs r))" n "?info\<lparr>pcs_cnt := opt_cnt (r_pcs r), pcs_list := Some (p + 2)\<rparr>"]
        False n ie p wf
      by (auto simp: Let_def opt_at_def rsne_zero_def)
  qed
qed

lemma rsne_parse_roundtrip:
  assumes wf: "rsn_wf r"
  shows "rtw_rsne_info_parse (ie_enc 48 (rsn_body r) @ rest) (length (rsn_body r) + 2) = Ret (True, rsn_info r)"
proof -
  let ?ie = "ie_enc 48 (rsn_body r) @ rest" and ?n = "length (rsn_body r) + 2"
  have body: "length (rsn_body r) \<le> 255" "2 \<le> length (rsn_body r)" using wf by (simp_all add: rsn_wf_def rsn_body_def)
  have head: "c_slice ?ie 0 2 = Ret [48, of_nat (length (rsn_body r))]" by (simp add: ie_enc_def)
  have ver: "get_le16_at ?ie 2 = Ret 1"
    using get_le16_at_put [of 2 "[48, of_nat (length (rsn_body r))]" 1]
    by (simp add: ie_enc_def rsn_body_def del: get_le16_at_in)
  have "rsne_gcs ?ie ?n 4 rsne_zero = Ret (True, rsn_info r)"
  proof (cases "r_gcs r")
    case None
    then have "rsn_body r = RTW_PUT_LE16 1" "rsn_info r = rsne_zero"
      using wf by (auto simp: rsn_wf_def rsn_body_def rsn_info_def opt_bytes_def opt_list_def opt_at_def opt_cnt_def rsne_zero_def)
    then show ?thesis by (simp add: rsne_gcs_def rsne_end_def)
  next
    case (Some g)
    then have g: "length (opt_bytes (r_gcs r)) = 4" using wf by (simp add: rsn_wf_def opt_len_def opt_bytes_def)
    let ?pre = "[48, of_nat (length (rsn_body r))] @ RTW_PUT_LE16 1 @ opt_bytes (r_gcs r)"
    have "?ie = ?pre @ opt_list (r_pcs r) @ opt_list (r_akm r) @ opt_bytes (r_cap r) @ opt_list (r_pmkid r) @ opt_bytes (r_gmcs r) @ rest"
      by (simp add: ie_enc_def rsn_body_def)
    from rsne_pcs_roundtrip [OF this _ _ wf, of 8 ?n 4] show ?thesis
      using g by (simp add: rsne_gcs_def rsn_body_def rsn_info_def Some opt_at_def Let_def add.assoc)
  qed
  then show ?thesis using body by (simp add: rtw_rsne_info_parse_def head ver unat_of_nat del: c_slice_in get_le16_at_in)
qed

text \<open>The fields can be read back where the parser reports them.\<close>

definition or_suites :: "(bytes \<Rightarrow> u32) \<Rightarrow> bytes list option \<Rightarrow> u32" where
  "or_suites f x = (case x of None \<Rightarrow> 0 | Some bs \<Rightarrow> foldl (\<lambda>a s. a OR f s) 0 bs)"

lemma suites_or_list:
  "\<forall>b \<in> set bs. length b = 4 \<Longrightarrow>
   suites_or f (pre @ concat bs @ post) (length pre) (length bs) acc = Ret (foldl (\<lambda>a s. a OR f s) acc bs)"
proof (induction bs arbitrary: pre acc)
  case (Cons b bs)
  show ?case
    using Cons.IH [of "pre @ b" "acc OR f b"] Cons.prems by (simp add: c_slice_append)
qed simp

lemma suite_at_field:
  assumes "ie = pre @ opt_bytes x @ post" "p = length pre" "opt_len n x"
  shows "suite_at f ie n (opt_at p x) none = (case x of None \<Rightarrow> none | Some b \<Rightarrow> Ret (f b))"
  using assms by (auto simp: suite_at_def opt_at_def opt_bytes_def opt_len_def c_slice_append split: option.splits)

lemma suites_at_field:
  assumes "ie = pre @ opt_list x @ post" "p = length pre + 2" "opt_lens 4 x"
  shows "suites_at f ie (opt_cnt x) (opt_at p x) = Ret (or_suites f x)"
proof (cases x)
  case (Some bs)
  then show ?thesis
    using assms suites_or_list [of bs f "pre @ RTW_PUT_LE16 (of_nat (length bs))" post 0]
    by (simp add: suites_at_def opt_at_def opt_list_def opt_cnt_def opt_lens_def or_suites_def)
qed (simp add: suites_at_def opt_at_def or_suites_def)

text \<open>
  What the summary of an element must say, from the tables of IEEE 802.11 for suite selectors
  \<open>00-0F-AC\<close> and the bits the callers of the parser expect: the bit of each cipher and key management
  suite by its type, and the two-bit fields of the capabilities. Nothing of the code is used.
\<close>

definition rsn_cipher_bits :: "(u8 \<times> nat) list" where
  "rsn_cipher_bits = [(0, 0), (1, 1), (2, 3), (4, 4), (8, 5), (9, 6), (10, 7), (5, 2), (6, 8), (11, 9), (12, 10), (13, 11)]"

definition rsn_akm_bits :: "(u8 \<times> nat) list" where
  "rsn_akm_bits = [(1, 0), (2, 1), (3, 2), (4, 3), (5, 4), (6, 5), (7, 6), (8, 7), (9, 8), (11, 9), (12, 10), (14, 11),
     (15, 12), (16, 13), (17, 14)]"

definition suite_bit :: "(u8 \<times> nat) list \<Rightarrow> bytes \<Rightarrow> u32" where
  "suite_bit tab s =
     (if take 3 s = [0x00, 0x0f, 0xac] then foldr (\<lambda>(t, n) r. if s ! 3 = t then push_bit n 1 else r) tab 0 else 0)"

definition cap_mfp :: "bytes \<Rightarrow> u16" where
  "cap_mfp c = (if bit (c ! 0) 6 then 1 else 0) OR (if bit (c ! 0) 7 then 2 else 0)"

definition cap_spp :: "bytes \<Rightarrow> u16" where
  "cap_spp c = (if bit (c ! 1) 2 then 1 else 0) OR (if bit (c ! 1) 3 then 2 else 0)"

definition wpa2_summary :: "rsn \<Rightarrow> wpa2_out \<Rightarrow> wpa2_out" where
  "wpa2_summary r out = (let mfp = (case r_cap r of None \<Rightarrow> 0 | Some c \<Rightarrow> cap_mfp c) in
     \<lparr>o_group_cipher = map_option (\<lambda>_. case r_gcs r of None \<Rightarrow> 0 | Some s \<Rightarrow> suite_bit rsn_cipher_bits s) (o_group_cipher out),
      o_pairwise_cipher = map_option (\<lambda>_. or_suites (suite_bit rsn_cipher_bits) (r_pcs r)) (o_pairwise_cipher out),
      o_gmcs = map_option (\<lambda>_. case r_gmcs r of Some s \<Rightarrow> suite_bit rsn_cipher_bits s
        | None \<Rightarrow> if mfp \<in> {2, 3} then 0x100 else 0) (o_gmcs out),
      o_akm = map_option (\<lambda>_. or_suites (suite_bit rsn_akm_bits) (r_akm r)) (o_akm out),
      o_mfp_opt = map_option (\<lambda>_. mfp) (o_mfp_opt out),
      o_spp_opt = map_option (\<lambda>_. case r_cap r of None \<Rightarrow> 0 | Some c \<Rightarrow> cap_spp c) (o_spp_opt out)\<rparr>)"

lemmas rsn_cipher_defs =
  RSN_CIPHER_SUITE_NONE_def RSN_CIPHER_SUITE_WEP40_def RSN_CIPHER_SUITE_TKIP_def
  RSN_CIPHER_SUITE_WRAP_def RSN_CIPHER_SUITE_CCMP_def RSN_CIPHER_SUITE_AES_128_CMAC_def
  RSN_CIPHER_SUITE_GCMP_def RSN_CIPHER_SUITE_GCMP_256_def RSN_CIPHER_SUITE_CCMP_256_def
  RSN_CIPHER_SUITE_BIP_GMAC_128_def RSN_CIPHER_SUITE_BIP_GMAC_256_def
  RSN_CIPHER_SUITE_BIP_CMAC_256_def RSN_CIPHER_SUITE_WEP104_def WPA_CIPHER_NONE_def
  WPA_CIPHER_WEP40_def WPA_CIPHER_WEP104_def WPA_CIPHER_TKIP_def WPA_CIPHER_CCMP_def
  WPA_CIPHER_GCMP_def WPA_CIPHER_GCMP_256_def WPA_CIPHER_CCMP_256_def WPA_CIPHER_BIP_CMAC_128_def
  WPA_CIPHER_BIP_GMAC_128_def WPA_CIPHER_BIP_GMAC_256_def WPA_CIPHER_BIP_CMAC_256_def

lemmas rsn_akm_defs =
  WLAN_AKM_8021X_def WLAN_AKM_PSK_def WLAN_AKM_FT_8021X_def WLAN_AKM_FT_PSK_def
  WLAN_AKM_8021X_SHA256_def WLAN_AKM_PSK_SHA256_def WLAN_AKM_TDLS_def WLAN_AKM_SAE_def
  WLAN_AKM_FT_OVER_SAE_def WLAN_AKM_8021X_SUITE_B_def WLAN_AKM_8021X_SUITE_B_192_def
  WLAN_AKM_FILS_SHA256_def WLAN_AKM_FILS_SHA384_def WLAN_AKM_FT_FILS_SHA256_def
  WLAN_AKM_FT_FILS_SHA384_def WLAN_AKM_TYPE_8021X_def WLAN_AKM_TYPE_PSK_def
  WLAN_AKM_TYPE_FT_8021X_def WLAN_AKM_TYPE_FT_PSK_def WLAN_AKM_TYPE_8021X_SHA256_def
  WLAN_AKM_TYPE_PSK_SHA256_def WLAN_AKM_TYPE_TDLS_def WLAN_AKM_TYPE_SAE_def
  WLAN_AKM_TYPE_FT_OVER_SAE_def WLAN_AKM_TYPE_8021X_SUITE_B_def WLAN_AKM_TYPE_8021X_SUITE_B_192_def
  WLAN_AKM_TYPE_FILS_SHA256_def WLAN_AKM_TYPE_FILS_SHA384_def WLAN_AKM_TYPE_FT_FILS_SHA256_def
  WLAN_AKM_TYPE_FT_FILS_SHA384_def

lemma length_4E:
  assumes "length xs = 4"
  obtains a b c d where "xs = [a, b, c, d]"
  using assms by (auto simp: length_Suc_conv eval_nat_numeral)

lemma rsn_cipher_bit:
  assumes "length s = 4"
  shows "rtw_get_rsn_cipher_suite s = suite_bit rsn_cipher_bits s"
proof -
  obtain a b c d where s: "s = [a, b, c, d]" using assms by (rule length_4E)
  show ?thesis
    unfolding s rtw_get_rsn_cipher_suite_def suite_bit_def rsn_cipher_bits_def rsn_cipher_defs
    by (cases "a = 0"; cases "b = 0x0f"; cases "c = 0xac"; simp)
qed

lemma rsn_akm_bit:
  assumes "length s = 4"
  shows "rtw_get_akm_suite_bitmap s = suite_bit rsn_akm_bits s"
proof -
  obtain a b c d where s: "s = [a, b, c, d]" using assms by (rule length_4E)
  show ?thesis
    unfolding s rtw_get_akm_suite_bitmap_def suite_bit_def rsn_akm_bits_def rsn_akm_defs
    by (cases "a = 0"; cases "b = 0x0f"; cases "c = 0xac"; simp)
qed

lemma cap_fields:
  assumes "length c = 2"
  shows "GET_RSN_CAP_MFP_OPTION c = cap_mfp c" "GET_RSN_CAP_SPP_OPT c = cap_spp c"
proof -
  obtain a b where c: "c = [a, b]" using assms by (auto simp: length_Suc_conv eval_nat_numeral)
  have two: "bit (2 :: u16) n \<longleftrightarrow> n = 1" for n using bit_exp_iff [where 'a = u16, of 1 n] by (auto simp: possible_bit_def)
  have one: "bit (1 :: u16) n \<longleftrightarrow> n = 0" for n by (simp add: bit_1_iff)
  have c2: "bit (if x then w else (0 :: u16)) n \<longleftrightarrow> x \<and> bit w n" for x w n by simp
  have "bit (GET_RSN_CAP_MFP_OPTION c) n = bit (cap_mfp c) n \<and> bit (GET_RSN_CAP_SPP_OPT c) n = bit (cap_spp c) n" for n
  proof -
    have "n = 0 \<or> n = 1 \<or> 2 \<le> n" by auto
    then show ?thesis
      unfolding cap_mfp_def cap_spp_def GET_RSN_CAP_MFP_OPTION_def GET_RSN_CAP_SPP_OPT_def bit_or_iff c2 one two
      by (elim disjE) (simp_all add: c RTW_GET_LE16_def bit_simps)
  qed
  then show "GET_RSN_CAP_MFP_OPTION c = cap_mfp c" "GET_RSN_CAP_SPP_OPT c = cap_spp c" by (auto intro: word_eqI_bits)
qed

lemma mfp_required: "length c = 2 \<Longrightarrow> 1 < cap_mfp c \<longleftrightarrow> cap_mfp c \<in> {2, 3}"
  by (simp add: cap_mfp_def)

lemma or_suites_cong:
  assumes "opt_lens 4 x" and "\<And>s. length s = 4 \<Longrightarrow> f s = g s"
  shows "or_suites f x = or_suites g x"
proof (cases x)
  case (Some bs)
  have "foldl (\<lambda>a s. a OR f s) z bs = foldl (\<lambda>a s. a OR g s) z bs" for z
    by (rule foldl_cong) (use assms Some in \<open>simp_all add: opt_lens_def\<close>)
  then show ?thesis by (simp add: or_suites_def Some)
qed (simp add: or_suites_def)

text \<open>The summary of a well-formed element, as the code computes it.\<close>

lemma wpa2_summary_eq:
  assumes "rsn_wf r"
  shows "wpa2_summary r out = (let mfp = (case r_cap r of None \<Rightarrow> 0 | Some c \<Rightarrow> GET_RSN_CAP_MFP_OPTION c) in
     \<lparr>o_group_cipher = map_option (\<lambda>_. case r_gcs r of None \<Rightarrow> 0 | Some s \<Rightarrow> rtw_get_rsn_cipher_suite s) (o_group_cipher out),
      o_pairwise_cipher = map_option (\<lambda>_. or_suites rtw_get_rsn_cipher_suite (r_pcs r)) (o_pairwise_cipher out),
      o_gmcs = map_option (\<lambda>_. case r_gmcs r of Some s \<Rightarrow> rtw_get_rsn_cipher_suite s
        | None \<Rightarrow> if 1 < mfp then WPA_CIPHER_BIP_CMAC_128 else 0) (o_gmcs out),
      o_akm = map_option (\<lambda>_. or_suites rtw_get_akm_suite_bitmap (r_akm r)) (o_akm out),
      o_mfp_opt = map_option (\<lambda>_. mfp) (o_mfp_opt out),
      o_spp_opt = map_option (\<lambda>_. case r_cap r of None \<Rightarrow> 0 | Some c \<Rightarrow> GET_RSN_CAP_SPP_OPT c) (o_spp_opt out)\<rparr>)"
proof -
  have lens: "opt_len 4 (r_gcs r)" "opt_lens 4 (r_pcs r)" "opt_lens 4 (r_akm r)" "opt_len 2 (r_cap r)" "opt_len 4 (r_gmcs r)"
    using assms by (simp_all add: rsn_wf_def)
  have lists: "or_suites (suite_bit rsn_cipher_bits) (r_pcs r) = or_suites rtw_get_rsn_cipher_suite (r_pcs r)"
    "or_suites (suite_bit rsn_akm_bits) (r_akm r) = or_suites rtw_get_akm_suite_bitmap (r_akm r)"
    by (rule or_suites_cong [OF lens(2)], simp add: rsn_cipher_bit)
      (rule or_suites_cong [OF lens(3)], simp add: rsn_akm_bit)
  have bip: "WPA_CIPHER_BIP_CMAC_128 = 0x100" by (simp add: WPA_CIPHER_BIP_CMAC_128_def)
  show ?thesis
    unfolding wpa2_summary_def lists bip Let_def using lens(1,4,5)
    by (cases "r_gcs r"; cases "r_cap r"; cases "r_gmcs r")
      (simp_all add: opt_len_def rsn_cipher_bit cap_fields mfp_required)
qed

lemma c_store_Ret: "c_store p (Ret v) = Ret (map_option (\<lambda>_. v) p)"
  by (simp add: c_store_def split: option.splits)

lemma wpa2_parse_summary:
  assumes wf: "rsn_wf r"
  shows "rtw_parse_wpa2_ie (ie_enc 48 (rsn_body r) @ rest) (length (rsn_body r) + 2) out = Ret (True, wpa2_summary r out)"
proof -
  let ?h = "[48, of_nat (length (rsn_body r))] @ RTW_PUT_LE16 1"
  let ?g = "opt_bytes (r_gcs r)" and ?p = "opt_list (r_pcs r)" and ?a = "opt_list (r_akm r)"
    and ?c = "opt_bytes (r_cap r)" and ?k = "opt_list (r_pmkid r)" and ?m = "opt_bytes (r_gmcs r)"
  define ie where "ie = ie_enc 48 (rsn_body r) @ rest"
  have lens: "opt_len 4 (r_gcs r)" "opt_lens 4 (r_pcs r)" "opt_lens 4 (r_akm r)" "opt_len 2 (r_cap r)" "opt_len 4 (r_gmcs r)"
    using wf by (simp_all add: rsn_wf_def)
  have 1: "suite_at f ie 4 (gcs (rsn_info r)) none = (case r_gcs r of None \<Rightarrow> none | Some b \<Rightarrow> Ret (f b))" for f none
    using suite_at_field [of ie ?h "r_gcs r" "?p @ ?a @ ?c @ ?k @ ?m @ rest" 4 4 f none] lens
    by (simp add: ie_def ie_enc_def rsn_body_def rsn_info_def Let_def)
  have 2: "suites_at f ie (pcs_cnt (rsn_info r)) (pcs_list (rsn_info r)) = Ret (or_suites f (r_pcs r))" for f
    using suites_at_field [of ie "?h @ ?g" "r_pcs r" "?a @ ?c @ ?k @ ?m @ rest" "4 + length ?g + 2" f] lens
    by (simp add: ie_def ie_enc_def rsn_body_def rsn_info_def Let_def)
  have 3: "suites_at f ie (akm_cnt (rsn_info r)) (akm_list (rsn_info r)) = Ret (or_suites f (r_akm r))" for f
    using suites_at_field [of ie "?h @ ?g @ ?p" "r_akm r" "?c @ ?k @ ?m @ rest" "4 + length ?g + length ?p + 2" f] lens
    by (simp add: ie_def ie_enc_def rsn_body_def rsn_info_def Let_def)
  have 4: "suite_at f ie 2 (cap (rsn_info r)) none = (case r_cap r of None \<Rightarrow> none | Some b \<Rightarrow> Ret (f b))" for f none
    using suite_at_field [of ie "?h @ ?g @ ?p @ ?a" "r_cap r" "?k @ ?m @ rest" "4 + length ?g + length ?p + length ?a" 2 f none] lens
    by (simp add: ie_def ie_enc_def rsn_body_def rsn_info_def Let_def)
  have 5: "suite_at f ie 4 (gmcs (rsn_info r)) none = (case r_gmcs r of None \<Rightarrow> none | Some b \<Rightarrow> Ret (f b))" for f none
    using suite_at_field [of ie "?h @ ?g @ ?p @ ?a @ ?c @ ?k" "r_gmcs r" rest
        "4 + length ?g + length ?p + length ?a + length ?c + length ?k" 4 f none] lens
    by (simp add: ie_def ie_enc_def rsn_body_def rsn_info_def Let_def)
  have parse: "rtw_rsne_info_parse ie (length (rsn_body r) + 2) = Ret (True, rsn_info r)"
    unfolding ie_def by (rule rsne_parse_roundtrip [OF wf])
  have case_Ret: "(case x of None \<Rightarrow> Ret u | Some b \<Rightarrow> Ret (f b)) = Ret (case x of None \<Rightarrow> u | Some b \<Rightarrow> f b)" for x u f
    by (cases x) simp_all
  show ?thesis
    unfolding ie_def [symmetric] rtw_parse_wpa2_ie_def parse c_bind.simps prod.case 1 2 3 4 5
    by (cases "r_gmcs r"; cases "r_cap r") (simp_all add: case_Ret c_store_Ret wpa2_summary_eq [OF wf])
qed

section \<open>Finding the elements of a well-formed list\<close>

lemma RTW_PUT_GET_LE16 [byte_order]: "RTW_PUT_LE16 (RTW_GET_LE16 [a, b]) = [a, b]"
  by (auto intro!: word_eqI_bits simp: RTW_GET_LE16_def RTW_PUT_LE16_def word_bits dest: bit_imp_le_length)

lemma get_le16_1: "RTW_GET_LE16 [a, b] = 1 \<longleftrightarrow> a = 1 \<and> b = 0"
proof
  assume "RTW_GET_LE16 [a, b] = 1"
  then have "[a, b] = RTW_PUT_LE16 1" using RTW_PUT_GET_LE16 [of a b] by simp
  then show "a = 1 \<and> b = 0" by (simp add: RTW_PUT_LE16_def)
qed (simp add: RTW_GET_LE16_def)

definition wpa_match :: "u8 \<Rightarrow> bytes \<Rightarrow> bool" where
  "wpa_match t c \<longleftrightarrow> t = 0xdd \<and> take 6 c = [0x00, 0x50, 0xf2, 0x01, 0x01, 0x00]"

lemma find_next:
  assumes "ie.well_formed zs"
  shows "rtw_get_ie (ie.encode zs @ rest) 0xdd (int (length (ie.encode zs))) = Ret None \<and> (\<forall>(t, c) \<in> set zs. t \<noteq> 0xdd) \<or>
    (\<exists>us c vs. zs = us @ (0xdd, c) # vs \<and> (\<forall>(t, c) \<in> set us. t \<noteq> 0xdd) \<and>
       rtw_get_ie (ie.encode zs @ rest) 0xdd (int (length (ie.encode zs))) = Ret (Some (length (ie.encode us), length c)))"
proof (cases "ie.find_el (\<lambda>t c. uint t = 0xdd) 0 zs")
  case None
  have "t \<noteq> 0xdd" if "uint t \<noteq> 0xdd" for t :: u8 using that by auto
  then show ?thesis
    using None rtw_get_ie_find [OF assms, of rest "0xdd"] by (auto simp: ie.find_el_None)
next
  case (Some r)
  obtain q n where r: "r = (q, n)" by fastforce
  obtain us t c vs where *: "zs = us @ (t, c) # vs" "uint t = 0xdd" "n = length c" "q = 0 + length (ie.encode us)"
    "\<forall>(t', c') \<in> set us. \<not> uint t' = 0xdd"
    by (rule ie.find_el_Some [OF Some [unfolded r] assms])
  have "t = 0xdd" using *(2) by (simp add: word_uint_eq_iff)
  moreover have "\<forall>(t, c) \<in> set us. t \<noteq> 0xdd" using *(5) by auto
  ultimately show ?thesis
    using * Some r rtw_get_ie_find [OF assms, of rest "0xdd"] by fastforce
qed

lemma get_wpa_ie_find:
  assumes "ie.well_formed zs" "\<forall>(t, c) \<in> set zs. t = 0xdd \<longrightarrow> 6 \<le> length c"
  shows "get_wpa_ie_loop (pre @ ie.encode zs @ rest) (int (length pre + length (ie.encode zs))) (length pre)
      (int (length (ie.encode zs))) = Ret (ie.find_el wpa_match (length pre) zs)"
  using assms
proof (induction zs arbitrary: pre rule: length_induct)
  case (1 zs)
  let ?b = "pre @ ie.encode zs @ rest" and ?l = "int (length pre + length (ie.encode zs))"
  from find_next [OF "1.prems"(1), of rest] show ?case
  proof (elim disjE conjE exE)
    assume none: "rtw_get_ie (ie.encode zs @ rest) 0xdd (int (length (ie.encode zs))) = Ret None"
      "\<forall>(t, c) \<in> set zs. t \<noteq> 0xdd"
    then have "ie.find_el wpa_match (length pre) zs = None" by (auto simp: ie.find_el_None wpa_match_def)
    then show ?thesis using none(1) by (simp add: get_wpa_ie_loop.simps)
  next
    fix us c vs
    assume zs: "zs = us @ (0xdd, c) # vs" and us: "\<forall>(t, c) \<in> set us. t \<noteq> 0xdd"
      and found: "rtw_get_ie (ie.encode zs @ rest) 0xdd (int (length (ie.encode zs))) = Ret (Some (length (ie.encode us), length c))"
    have wf: "ie.well_formed us" "ie.well_formed vs" "ie_fits c" "6 \<le> length c" using "1.prems" zs by auto
    have skip: "ie.find_el wpa_match (length pre) zs = (if wpa_match 0xdd c then Some (length pre + length (ie.encode us), length c)
        else ie.find_el wpa_match (length pre + length (ie.encode us) + 2 + length c) vs)"
      using wf(1) us by (subst zs, subst ie.find_el_prefix) (auto simp: wpa_match_def)
    have b: "?b = (pre @ ie.encode us) @ ie_enc 0xdd c @ (ie.encode vs @ rest)" by (simp add: zs)
    obtain a1 a2 a3 a4 a5 a6 c' where c: "c = a1 # a2 # a3 # a4 # a5 # a6 # c'"
      using wf(4) by (auto simp: Suc_le_length_iff numeral_eq_Suc)
    have oui: "c_slice ?b (length pre + length (ie.encode us) + 2) 4 = Ret [a1, a2, a3, a4]"
      and ver: "c_slice ?b (length pre + length (ie.encode us) + 6) 2 = Ret [a5, a6]"
      and len: "c_slice ?b (length pre + length (ie.encode us) + 1) 1 = Ret [of_nat (length c)]"
      by (simp_all add: zs c_slice_def c ie_enc_def numeral_eq_Suc)
    have le: "RTW_GET_LE16 [a5, a6] = 1 \<longleftrightarrow> a5 = 1 \<and> a6 = 0" by (rule get_le16_1)
    have next_ie: "(if ?l - int (length pre + length (ie.encode us)) - 2 - int (length c) \<le> 0 then Ret None
        else get_wpa_ie_loop ?b ?l (length pre + length (ie.encode us) + (2 + length c))
          (?l - int (length pre + length (ie.encode us)) - 2 - int (length c))) =
        Ret (ie.find_el wpa_match (length pre + length (ie.encode us) + 2 + length c) vs)"
    proof (cases "vs = []")
      case False
      have "0 < length (ie.encode vs)" using False by (cases vs) (auto simp: ie_enc_def)
      then show ?thesis
        using "1.IH" [rule_format, of vs "pre @ ie.encode us @ ie_enc 0xdd c"] "1.prems" wf
        by (simp add: zs ie.length_enc add.assoc)
    qed (simp add: zs)
    have m: "wpa_match 0xdd c \<longleftrightarrow> [a1, a2, a3, a4] = [0x00, 0x50, 0xf2, 0x01] \<and> RTW_GET_LE16 [a5, a6] = 1"
      by (auto simp: wpa_match_def c le)
    have dr: "drop (length pre) ?b = ie.encode zs @ rest" by simp
    have l: "unat (hd [of_nat (length c) :: u8]) = length c" using wf(3) by simp
    show ?thesis
      by (subst get_wpa_ie_loop.simps)
        (simp only: dr found c_bind.simps option.case prod.case Let_def oui ver len next_ie skip m l, auto)
  qed
qed

text \<open>The walk over a frame: the last element of each kind is reported.\<close>

definition is_wpa :: "u8 \<times> bytes \<Rightarrow> bool" where
  "is_wpa el \<longleftrightarrow> fst el = 0xdd \<and> take 4 (snd el) = [0x0, 0x50, 0xf2, 0x01]"

definition is_rsn :: "u8 \<times> bytes \<Rightarrow> bool" where
  "is_rsn el \<longleftrightarrow> fst el = 0x30"

definition out_room :: "ie_out \<Rightarrow> bool" where
  "out_room out = (case out_buf out of None \<Rightarrow> True | Some b \<Rightarrow> 257 \<le> length b)"

definition got :: "ie_out \<Rightarrow> (u8 \<times> bytes) list \<Rightarrow> ie_out \<Rightarrow> bool" where
  "got old els new \<longleftrightarrow>
     (if els = [] then new = old
      else out_len new = length (snd (last els)) + 2 \<and>
        (out_buf old = None \<longrightarrow> out_buf new = None) \<and>
        (out_buf old \<noteq> None \<longrightarrow> take (out_len new) (the (out_buf new)) = ie_enc (fst (last els)) (snd (last els))))"

lemma copy_ie_at:
  assumes "in_ie = pre @ ie_enc t c @ post" "ie_fits c" "out_room out"
  obtains out' where "copy_ie in_ie (length pre) (length c + 2) out = Ret out'" "out_room out'"
    "got out [(t, c)] out'" "out_buf out' = None \<longleftrightarrow> out_buf out = None"
proof (cases "out_buf out")
  case None
  then show ?thesis
    using that [of "\<lparr>out_buf = None, out_len = length c + 2\<rparr>"] by (simp add: copy_ie_def out_room_def got_def)
next
  case (Some b)
  have el: "c_slice in_ie (length pre) (length c + 2) = Ret (ie_enc t c)" using assms(1) by (simp add: c_slice_append)
  have "c_write b 0 (ie_enc t c) = Ret (ie_enc t c @ drop (length c + 2) b)"
    using assms(2,3) Some by (simp add: c_write_def memcpy_at_def out_room_def)
  then show ?thesis
    using that [of "\<lparr>out_buf = Some (ie_enc t c @ drop (length c + 2) b), out_len = length c + 2\<rparr>"] el Some assms(2,3)
    by (simp add: copy_ie_def out_room_def got_def)
qed

lemma got_step: "got old xs new \<Longrightarrow> (out_buf new = None \<longleftrightarrow> out_buf old = None) \<Longrightarrow> got new ys new' \<Longrightarrow> got old (xs @ ys) new'"
  by (auto simp: got_def split: if_splits)

lemma get_sec_ie_walk:
  assumes "ie.well_formed els" "\<forall>(t, c) \<in> set els. t = 0xdd \<longrightarrow> 4 \<le> length c" "out_room rsn" "out_room wpa"
  shows "\<exists>rsn' wpa'. get_sec_ie_loop (pre @ ie.encode els @ rest) (length pre + length (ie.encode els)) (length pre) rsn wpa =
    Ret (rsn', wpa') \<and> got rsn (filter is_rsn els) rsn' \<and> got wpa (filter is_wpa els) wpa'"
  using assms
proof (induction els arbitrary: pre rsn wpa)
  case Nil
  then show ?case by (simp add: get_sec_ie_loop.simps got_def)
next
  case (Cons el els)
  obtain t c where el: "el = (t, c)" by fastforce
  let ?b = "pre @ ie.encode (el # els) @ rest" and ?n = "length pre + length (ie.encode (el # els))"
  have b: "?b = pre @ ie_enc t c @ (ie.encode els @ rest)" by (simp add: el)
  have c: "ie_fits c" using Cons.prems(1) el by simp
  note at = ie_enc_nth [OF b c]
  have step: "get_sec_ie_loop ?b ?n (length pre) rsn wpa =
    (if is_wpa el then c_bind (copy_ie ?b (length pre) (length c + 2) wpa) (\<lambda>wpa. get_sec_ie_loop ?b ?n (length pre + (length c + 2)) rsn wpa)
     else if is_rsn el then c_bind (copy_ie ?b (length pre) (length c + 2) rsn) (\<lambda>rsn. get_sec_ie_loop ?b ?n (length pre + (length c + 2)) rsn wpa)
     else get_sec_ie_loop ?b ?n (length pre + (length c + 2)) rsn wpa)" for rsn wpa
    using at(1-3) at(4) [of 4] Cons.prems(2) c
    by (subst get_sec_ie_loop.simps) (auto simp: el is_wpa_def is_rsn_def Let_def ie.length_enc simp del: c_slice_in)
  have IH: "\<exists>rsn' wpa'. get_sec_ie_loop ?b ?n (length pre + (length c + 2)) rsn wpa = Ret (rsn', wpa') \<and>
      got rsn (filter is_rsn els) rsn' \<and> got wpa (filter is_wpa els) wpa'" if "out_room rsn" "out_room wpa" for rsn wpa
    using Cons.IH [of rsn wpa "pre @ ie_enc t c"] Cons.prems that by (simp add: el ie.length_enc add.assoc add.commute add.left_commute)
  show ?case
  proof (cases "is_wpa el")
    case True
    obtain wpa1 where w: "copy_ie ?b (length pre) (length c + 2) wpa = Ret wpa1" "out_room wpa1" "got wpa [(t, c)] wpa1"
      "out_buf wpa1 = None \<longleftrightarrow> out_buf wpa = None"
      by (rule copy_ie_at [OF b c Cons.prems(4)])
    obtain rsn' wpa' where "get_sec_ie_loop ?b ?n (length pre + (length c + 2)) rsn wpa1 = Ret (rsn', wpa')"
      "got rsn (filter is_rsn els) rsn'" "got wpa1 (filter is_wpa els) wpa'"
      using IH [OF Cons.prems(3) w(2)] by blast
    moreover have "\<not> is_rsn el" using True by (simp add: is_wpa_def is_rsn_def)
    ultimately show ?thesis
      using True w(1) step got_step [OF w(3,4)] by (simp add: el)
  next
    case F: False
    show ?thesis
    proof (cases "is_rsn el")
      case True
      obtain rsn1 where w: "copy_ie ?b (length pre) (length c + 2) rsn = Ret rsn1" "out_room rsn1" "got rsn [(t, c)] rsn1"
        "out_buf rsn1 = None \<longleftrightarrow> out_buf rsn = None"
        by (rule copy_ie_at [OF b c Cons.prems(3)])
      obtain rsn' wpa' where "get_sec_ie_loop ?b ?n (length pre + (length c + 2)) rsn1 wpa = Ret (rsn', wpa')"
        "got rsn1 (filter is_rsn els) rsn'" "got wpa (filter is_wpa els) wpa'"
        using IH [OF w(2) Cons.prems(4)] by blast
      then show ?thesis using F True w(1) step got_step [OF w(3,4)] by (simp add: el)
    next
      case False
      then show ?thesis using F step IH [OF Cons.prems(3,4)] by simp
    qed
  qed
qed

section \<open>Properties\<close>

text \<open>C26.
  Bounds of the parsers. The RSN parsers never read outside the element, whatever it holds: \<open>mem\<close> may end
  where the element ends. The WPA parser stays inside memory that covers the element and, on condition, the six
  bytes of its fixed part, which it reads whatever the length says; on a shorter element it reads behind
  it (\<open>security_parser_gaps\<close>). Every pointer the RSN parser reports lies in the element together with
  the entries counted for it, also when it fails, and the error flag is set exactly on failure.
\<close>

theorem security_parsers_in_bounds:
  assumes "ie_len \<le> length mem" and "wpa_len \<le> int (length mem)" and "6 \<le> length mem"
  shows "(\<exists>ret info. rtw_rsne_info_parse mem ie_len = Ret (ret, info) \<and> err info = (\<not> ret) \<and>
      rsne_inside ie_len info) \<and>
    rtw_parse_wpa2_ie mem ie_len out \<noteq> Oob \<and> rtw_parse_wpa_ie mem wpa_len i \<noteq> Oob"
proof -
  obtain ret info where "rtw_rsne_info_parse mem ie_len = Ret (ret, info)" "rsne_inside ie_len info" "err info = (\<not> ret)"
    using rsne_ok_parse [OF assms(1)] by (auto simp: rsne_ok_def split: c_result.splits)
  then show ?thesis using rtw_parse_wpa2_ie_in [OF assms(1)] rtw_parse_wpa_ie_in [OF assms(2,3)] by blast
qed

definition no_outputs :: wpa2_out where
  "no_outputs = \<lparr>o_group_cipher = None, o_pairwise_cipher = None, o_gmcs = None, o_akm = None, o_mfp_opt = None, o_spp_opt = None\<rparr>"

theorem security_parsers_in_bounds_witness:
  "(\<exists>ret info. rtw_rsne_info_parse [48, 4, 1, 0, 9, 9] 6 = Ret (ret, info) \<and> err info = (\<not> ret) \<and>
      rsne_inside 6 info) \<and>
    rtw_parse_wpa2_ie [48, 4, 1, 0, 9, 9] 6 no_outputs \<noteq> Oob \<and>
    rtw_parse_wpa_ie [48, 4, 1, 0, 9, 9] 6 \<lparr>w_group = 0, w_pairwise = 0, w_akm = None\<rparr> \<noteq> Oob"
  by (rule security_parsers_in_bounds) simp_all

text \<open>C27.
  An RSN element that encodes a structure, whatever follows it, is accepted, and what is reported is
  that structure: the positions of its fields, the group cipher, the union of the pairwise ciphers and
  of the key management suites, the group management cipher with its default when management frame
  protection is on, and the capability options, each as the tables of the standard number them.
\<close>

theorem rsn_element_roundtrip:
  assumes "rsn_wf r"
  shows "rtw_rsne_info_parse (ie_enc 48 (rsn_body r) @ rest) (length (rsn_body r) + 2) = Ret (True, rsn_info r) \<and>
    rtw_parse_wpa2_ie (ie_enc 48 (rsn_body r) @ rest) (length (rsn_body r) + 2) out = Ret (True, wpa2_summary r out)"
  using rsne_parse_roundtrip [OF assms] wpa2_parse_summary [OF assms] by blast

definition sample_rsn :: rsn where
  "sample_rsn = \<lparr>r_gcs = Some RSN_CIPHER_SUITE_CCMP, r_pcs = Some [RSN_CIPHER_SUITE_CCMP, RSN_CIPHER_SUITE_GCMP],
     r_akm = Some [WLAN_AKM_SAE], r_cap = Some [0xc0, 0x00], r_pmkid = None, r_gmcs = None\<rparr>"

theorem rsn_element_roundtrip_witness:
  "rtw_rsne_info_parse (ie_enc 48 (rsn_body sample_rsn) @ [7]) (length (rsn_body sample_rsn) + 2) = Ret (True, rsn_info sample_rsn) \<and>
    rtw_parse_wpa2_ie (ie_enc 48 (rsn_body sample_rsn) @ [7]) (length (rsn_body sample_rsn) + 2) no_outputs =
      Ret (True, wpa2_summary sample_rsn no_outputs)"
  by (rule rsn_element_roundtrip)
    (simp add: rsn_wf_def sample_rsn_def opt_len_def opt_lens_def rsn_body_def opt_bytes_def opt_list_def
      RSN_CIPHER_SUITE_CCMP_def RSN_CIPHER_SUITE_GCMP_def WLAN_AKM_SAE_def)

text \<open>In a well-formed element list whose vendor elements are long enough for their type, \<^verbatim>\<open>rtw_get_wpa_ie\<close>
  finds the first WPA element of version 1, and \<^verbatim>\<open>rtw_get_sec_ie\<close> leaves the last RSN and the last WPA
  element of a frame in the caller's buffers, with their lengths; both stay inside the list.
\<close>

lemma security_elements_found:
  assumes "ie.well_formed els" and "\<forall>(t, c) \<in> set els. t = 0xdd \<longrightarrow> 6 \<le> length c"
    and "length fixed = 12" and "out_room rsn" and "out_room wpa"
  shows "rtw_get_wpa_ie (ie.encode els @ rest) (int (length (ie.encode els))) = Ret (ie.find_el wpa_match 0 els) \<and>
    (\<exists>rsn' wpa'. rtw_get_sec_ie (fixed @ ie.encode els @ rest) (12 + length (ie.encode els)) rsn wpa =
        Ret (out_len rsn' + out_len wpa', rsn', wpa') \<and>
      got rsn (filter is_rsn els) rsn' \<and> got wpa (filter is_wpa els) wpa')"
proof
  show "rtw_get_wpa_ie (ie.encode els @ rest) (int (length (ie.encode els))) = Ret (ie.find_el wpa_match 0 els)"
    using get_wpa_ie_find [OF assms(1,2), of "[]" rest] by (simp add: rtw_get_wpa_ie_def)
  have "\<forall>(t, c) \<in> set els. t = 0xdd \<longrightarrow> 4 \<le> length c" using assms(2) by fastforce
  from get_sec_ie_walk [OF assms(1) this assms(4,5), of "fixed" rest] assms(3)
  show "\<exists>rsn' wpa'. rtw_get_sec_ie (fixed @ ie.encode els @ rest) (12 + length (ie.encode els)) rsn wpa =
        Ret (out_len rsn' + out_len wpa', rsn', wpa') \<and>
      got rsn (filter is_rsn els) rsn' \<and> got wpa (filter is_wpa els) wpa'"
    by (force simp: rtw_get_sec_ie_def)
qed

definition sample_sec :: "(u8 \<times> bytes) list" where
  "sample_sec = [(0, [65, 66]), (0xdd, [0, 0x50, 0xf2, 4, 1, 2]), (48, [1, 0]), (0xdd, [0, 0x50, 0xf2, 1, 1, 0])]"

lemma security_elements_found_witness:
  "rtw_get_wpa_ie (ie.encode sample_sec @ []) (int (length (ie.encode sample_sec))) = Ret (ie.find_el wpa_match 0 sample_sec) \<and>
    (\<exists>rsn' wpa'. rtw_get_sec_ie (replicate 12 0 @ ie.encode sample_sec @ []) (12 + length (ie.encode sample_sec))
        \<lparr>out_buf = Some (replicate 257 0), out_len = 0\<rparr> \<lparr>out_buf = None, out_len = 0\<rparr> =
        Ret (out_len rsn' + out_len wpa', rsn', wpa') \<and>
      got \<lparr>out_buf = Some (replicate 257 0), out_len = 0\<rparr> (filter is_rsn sample_sec) rsn' \<and>
      got \<lparr>out_buf = None, out_len = 0\<rparr> (filter is_wpa sample_sec) wpa')"
  by (rule security_elements_found) (simp_all add: sample_sec_def out_room_def)

text \<open>The WPA parser compares its fixed part before it looks at the length: with a stated length below
  six it reads behind the element. An RSN element that ends behind a suite count is accepted although
  the counted suites are missing.
\<close>

lemma security_parser_gaps:
  "rtw_parse_wpa_ie [0xdd, 0] 2 i = Oob \<and>
   rtw_rsne_info_parse (ie_enc 48 ([1, 0] @ RSN_CIPHER_SUITE_CCMP @ [9, 0])) 10 =
     Ret (True, rsne_zero\<lparr>gcs := Some 4\<rparr>)"
  by (simp add: rtw_parse_wpa_ie_def c_slice_def rtw_rsne_info_parse_def ie_enc_def get_le16_at_def RTW_GET_LE16_def
      RSN_CIPHER_SUITE_CCMP_def rsne_gcs_def rsne_pcs_def rsne_end_def)

end
