(* ===== verification/Attributes.thy ===== *)
theory Attributes
  imports Security_IE
begin

unbundle bit_operations_syntax

text \<open>
  The vendor elements of \<^verbatim>\<open>core/rtw_ieee80211.c\<close>: finding a WPS, OWE or P2P element, and the attributes
  inside WPS and P2P elements, which are searched, copied out, written, removed and merged.

  A WPS attribute has a big-endian identifier and length of two bytes each, a P2P attribute an
  identifier of one byte and a little-endian length of two. The total length of an attribute is kept
  in sixteen bits, so that a search may stand still; a search that never returns is \<open>None\<close>.
\<close>

section \<open>Finding vendor elements\<close>

definition MAX_IE_SZ :: nat where "MAX_IE_SZ = 768"

text \<open>
  \<^verbatim>\<open>rtw_get_wps_ie\<close>, \<^verbatim>\<open>rtw_get_owe_ie\<close> and \<^verbatim>\<open>rtw_get_p2p_ie\<close> have the same loop with a different test;
  the test looks at the element at \<open>cnt\<close>.
\<close>

definition vendor_test :: "bytes \<Rightarrow> bytes \<Rightarrow> nat \<Rightarrow> bool c_result" where
  "vendor_test oui in_ie cnt =
     (if in_ie ! cnt = 0xdd then c_bind (c_slice in_ie (cnt + 2) (length oui)) (\<lambda>b. Ret (b = oui)) else Ret False)"

definition owe_test :: "bytes \<Rightarrow> nat \<Rightarrow> bool c_result" where
  "owe_test in_ie cnt =
     (if in_ie ! cnt = 255 then c_bind (c_slice in_ie (cnt + 2) 1) (\<lambda>b. Ret (b = [32])) else Ret False)"

function get_el_loop :: "(bytes \<Rightarrow> nat \<Rightarrow> bool c_result) \<Rightarrow> bytes \<Rightarrow> nat \<Rightarrow> nat \<Rightarrow> (nat \<times> nat) option c_result" where
  "get_el_loop test in_ie in_len cnt =
     (if in_len \<le> cnt + 1 + 4 then Ret None
      else if length in_ie \<le> cnt then Oob
      else if MAX_IE_SZ \<le> cnt + 1 + 4 then Ret None
      else c_bind (test in_ie cnt) (\<lambda>match.
        if length in_ie \<le> cnt + 1 then Oob
        else let n = unat (in_ie ! (cnt + 1)) + 2
          in if match then Ret (Some (cnt, n)) else get_el_loop test in_ie in_len (cnt + n)))"
  by pat_completeness auto
termination
  by (relation "measure (\<lambda>(test, in_ie, in_len, cnt). in_len - cnt)") auto

declare get_el_loop.simps [simp del]

definition rtw_get_wps_ie :: "bytes \<Rightarrow> int \<Rightarrow> bytes option \<Rightarrow> ((nat \<times> nat) option \<times> bytes option) c_result" where
  "rtw_get_wps_ie in_ie in_len wps_ie =
     (if in_len \<le> 0 then Ret (None, wps_ie)
      else c_bind (get_el_loop (vendor_test [0x00, 0x50, 0xf2, 0x04]) in_ie (nat in_len) 0) (copy_found in_ie wps_ie))"

definition rtw_get_owe_ie :: "bytes \<Rightarrow> nat \<Rightarrow> bytes option \<Rightarrow> ((nat \<times> nat) option \<times> bytes option) c_result" where
  "rtw_get_owe_ie in_ie in_len owe_ie =
     (if in_len = 0 then Ret (None, owe_ie)
      else c_bind (get_el_loop owe_test in_ie in_len 0) (copy_found in_ie owe_ie))"

definition rtw_get_p2p_ie :: "bytes \<Rightarrow> int \<Rightarrow> bytes option \<Rightarrow> ((nat \<times> nat) option \<times> bytes option) c_result" where
  "rtw_get_p2p_ie in_ie in_len p2p_ie =
     (if in_len \<le> 0 then Ret (None, p2p_ie)
      else c_bind (get_el_loop (vendor_test [0x50, 0x6f, 0x9a, 0x09]) in_ie (nat in_len) 0) (copy_found in_ie p2p_ie))"

definition rtw_is_wps_ie :: "bytes \<Rightarrow> nat option c_result" where
  "rtw_is_wps_ie ie_ptr =
     c_bind (c_slice ie_ptr 0 1) (\<lambda>_. c_bind (vendor_test [0x0, 0x50, 0xf2, 0x04] ie_ptr 0) (\<lambda>match.
       if match then c_bind (c_slice ie_ptr 1 1) (\<lambda>l. Ret (Some (unat (hd l) + 2))) else Ret None))"

section \<open>Attributes\<close>

text \<open>The result of a search: position and total length of the attribute.\<close>

partial_function (option) get_wps_attr_loop ::
  "bytes \<Rightarrow> nat \<Rightarrow> u16 \<Rightarrow> nat \<Rightarrow> (nat \<times> nat) option c_result option" where
  "get_wps_attr_loop wps_ie wps_ielen target_attr_id p =
     (if wps_ielen \<le> p then Some (Ret None)
      else if length wps_ie < p + 4 then Some Oob
      else if RTW_GET_BE16 (drop p wps_ie) = target_attr_id
      then Some (Ret (Some (p, unat (RTW_GET_BE16 (drop (p + 2) wps_ie) + 4))))
      else get_wps_attr_loop wps_ie wps_ielen target_attr_id (p + unat (RTW_GET_BE16 (drop (p + 2) wps_ie) + 4)))"

definition find_wps_attr :: "bytes \<Rightarrow> nat \<Rightarrow> u16 \<Rightarrow> (nat \<times> nat) option c_result option" where
  "find_wps_attr wps_ie wps_ielen target_attr_id =
     (if length wps_ie = 0 then Some Oob
      else if wps_ie ! 0 \<noteq> 0xdd then Some (Ret None)
      else if length wps_ie < 6 then Some Oob
      else if take 4 (drop 2 wps_ie) \<noteq> [0x00, 0x50, 0xf2, 0x04] then Some (Ret None)
      else get_wps_attr_loop wps_ie wps_ielen target_attr_id 6)"

partial_function (option) get_p2p_attr_loop ::
  "bytes \<Rightarrow> nat \<Rightarrow> u8 \<Rightarrow> nat \<Rightarrow> (nat \<times> nat) option c_result option" where
  "get_p2p_attr_loop p2p_ie p2p_ielen target_attr_id p =
     (if p2p_ielen < p + 3 then Some (Ret None)
      else if length p2p_ie < p + 3 then Some Oob
      else if p2p_ielen < p + unat (RTW_GET_LE16 (drop (p + 1) p2p_ie) + 3) then Some (Ret None)
      else if p2p_ie ! p = target_attr_id then Some (Ret (Some (p, unat (RTW_GET_LE16 (drop (p + 1) p2p_ie) + 3))))
      else get_p2p_attr_loop p2p_ie p2p_ielen target_attr_id (p + unat (RTW_GET_LE16 (drop (p + 1) p2p_ie) + 3)))"

definition find_p2p_attr :: "bytes \<Rightarrow> nat \<Rightarrow> u8 \<Rightarrow> (nat \<times> nat) option c_result option" where
  "find_p2p_attr p2p_ie p2p_ielen target_attr_id =
     (if p2p_ielen \<le> 6 then Some (Ret None)
      else if length p2p_ie = 0 then Some Oob
      else if p2p_ie ! 0 \<noteq> 0xdd then Some (Ret None)
      else if length p2p_ie < 6 then Some Oob
      else if take 4 (drop 2 p2p_ie) \<noteq> [0x50, 0x6f, 0x9a, 0x09] then Some (Ret None)
      else get_p2p_attr_loop p2p_ie p2p_ielen target_attr_id 6)"

text \<open>\<^verbatim>\<open>rtw_get_wps_attr\<close> and \<^verbatim>\<open>rtw_get_p2p_attr\<close>: the search, then the copy into the caller's buffer if there is one.\<close>

definition rtw_get_wps_attr ::
  "bytes \<Rightarrow> nat \<Rightarrow> u16 \<Rightarrow> bytes option \<Rightarrow> ((nat \<times> nat) option \<times> bytes option) c_result option" where
  "rtw_get_wps_attr wps_ie wps_ielen target_attr_id buf_attr =
     map_option (\<lambda>r. c_bind r (copy_found wps_ie buf_attr)) (find_wps_attr wps_ie wps_ielen target_attr_id)"

definition rtw_get_p2p_attr ::
  "bytes \<Rightarrow> nat \<Rightarrow> u8 \<Rightarrow> bytes option \<Rightarrow> ((nat \<times> nat) option \<times> bytes option) c_result option" where
  "rtw_get_p2p_attr p2p_ie p2p_ielen target_attr_id buf_attr =
     map_option (\<lambda>r. c_bind r (copy_found p2p_ie buf_attr)) (find_p2p_attr p2p_ie p2p_ielen target_attr_id)"

text \<open>
  Copying the content of a found attribute: \<open>hdr\<close> is the size of the attribute header, 4 for WPS and
  3 for P2P. The caller's length is in and out, a missing length means one byte; the content length is
  a 32-bit difference.
\<close>

definition attr_content ::
  "nat \<Rightarrow> bytes \<Rightarrow> (nat \<times> nat) option \<Rightarrow> bytes option \<Rightarrow> u32 option \<Rightarrow> (nat option \<times> bytes option \<times> u32 option) c_result" where
  "attr_content hdr ie found buf_content len_content =
     (case found of
        Some (attr_ptr, attr_len) \<Rightarrow>
          if attr_len = 0 then Ret (None, buf_content, map_option (\<lambda>_. 0) len_content)
          else let n = of_nat attr_len - of_nat hdr;
                   len_content = (case len_content of None \<Rightarrow> None
                     | Some l \<Rightarrow> Some (if buf_content \<noteq> None \<and> n < l \<or> buf_content = None then n else l))
            in (case buf_content of None \<Rightarrow> Ret (Some (attr_ptr + hdr), None, len_content)
                | Some b \<Rightarrow>
                    c_bind (c_slice ie (attr_ptr + hdr) (case len_content of Some l \<Rightarrow> unat l | None \<Rightarrow> 1)) (\<lambda>c.
                    c_bind (c_write b 0 c) (\<lambda>b. Ret (Some (attr_ptr + hdr), Some b, len_content))))
      | None \<Rightarrow> Ret (None, buf_content, map_option (\<lambda>_. 0) len_content))"

definition rtw_get_wps_attr_content ::
  "bytes \<Rightarrow> nat \<Rightarrow> u16 \<Rightarrow> bytes option \<Rightarrow> u32 option \<Rightarrow> (nat option \<times> bytes option \<times> u32 option) c_result option" where
  "rtw_get_wps_attr_content wps_ie wps_ielen target_attr_id buf_content len_content =
     map_option (\<lambda>r. c_bind r (\<lambda>found. attr_content 4 wps_ie found buf_content len_content))
       (find_wps_attr wps_ie wps_ielen target_attr_id)"

definition rtw_get_p2p_attr_content ::
  "bytes \<Rightarrow> nat \<Rightarrow> u8 \<Rightarrow> bytes option \<Rightarrow> u32 option \<Rightarrow> (nat option \<times> bytes option \<times> u32 option) c_result option" where
  "rtw_get_p2p_attr_content p2p_ie p2p_ielen target_attr_id buf_content len_content =
     map_option (\<lambda>r. c_bind r (\<lambda>found. attr_content 3 p2p_ie found buf_content len_content))
       (find_p2p_attr p2p_ie p2p_ielen target_attr_id)"

text \<open>\<open>rtw_set_p2p_attr_content pbuf off\<close> writes at \<^verbatim>\<open>pbuf = buf + off\<close>.\<close>

definition rtw_set_p2p_attr_content :: "bytes \<Rightarrow> nat \<Rightarrow> u8 \<Rightarrow> u16 \<Rightarrow> bytes option \<Rightarrow> (bytes \<times> nat) c_result" where
  "rtw_set_p2p_attr_content pbuf off attr_id attr_len pdata_attr =
     c_bind (c_write pbuf off [attr_id]) (\<lambda>pbuf.
     c_bind (c_write pbuf (off + 1) (RTW_PUT_LE16 attr_len)) (\<lambda>pbuf.
     c_bind (case pdata_attr of None \<Rightarrow> Ret pbuf
             | Some d \<Rightarrow> c_bind (c_slice d 0 (unat attr_len)) (\<lambda>d. c_write pbuf (off + 3) d)) (\<lambda>pbuf.
       Ret (pbuf, unat attr_len + 3))))"

text \<open>
  Removing: the bytes behind the element or attribute are moved over it and the freed end is cleared.
  The length of what remains is an unsigned difference: if the element reaches behind \<open>ies_len\<close> it is
  close to \<open>2 ^ 32\<close> and the copy leaves every buffer.
\<close>

definition close_gap :: "bytes \<Rightarrow> nat \<Rightarrow> nat \<Rightarrow> nat \<Rightarrow> bytes c_result" where
  "close_gap ies ies_len target n =
     (if ies_len < target + n then Oob
      else c_bind (c_slice ies (target + n) (ies_len - (target + n))) (\<lambda>remain.
        c_bind (c_write ies target remain) (\<lambda>ies. c_write ies (target + length remain) (replicate n 0))))"

lemma c_bind_cong [fundef_cong]: "m = m' \<Longrightarrow> (\<And>x. m' = Ret x \<Longrightarrow> f x = f' x) \<Longrightarrow> c_bind m f = c_bind m' f'"
  by (cases m') simp_all

function del_p2p_ie_loop :: "bytes \<Rightarrow> nat \<Rightarrow> (bytes \<times> nat) c_result" where
  "del_p2p_ie_loop ies ies_len =
     c_bind (rtw_get_p2p_ie ies (int ies_len) None) (\<lambda>r.
       case fst r of None \<Rightarrow> Ret (ies, ies_len)
       | Some (target_ie, target_ie_len) \<Rightarrow>
           if target_ie_len = 0 then Ret (ies, ies_len)
           else c_bind (close_gap ies ies_len target_ie target_ie_len) (\<lambda>ies'.
             del_p2p_ie_loop ies' (ies_len - target_ie_len)))"
  by pat_completeness auto
termination
  by (relation "measure snd") (auto simp: rtw_get_p2p_ie_def split: if_splits)

declare del_p2p_ie_loop.simps [simp del]

definition rtw_del_p2p_ie :: "bytes \<Rightarrow> nat \<Rightarrow> (bytes \<times> nat) c_result" where
  "rtw_del_p2p_ie ies ies_len_ori = del_p2p_ie_loop ies ies_len_ori"

partial_function (option) del_p2p_attr_loop :: "bytes \<Rightarrow> nat \<Rightarrow> u8 \<Rightarrow> (bytes \<times> nat) c_result option" where
  "del_p2p_attr_loop ie ielen attr_id =
     Option.bind (find_p2p_attr ie ielen attr_id) (\<lambda>r.
       case r of Oob \<Rightarrow> Some Oob | Ret found \<Rightarrow>
         (case found of None \<Rightarrow> Some (Ret (ie, ielen)) | Some t \<Rightarrow>
           if snd t = 0 then Some (Ret (ie, ielen))
           else (case close_gap ie ielen (fst t) (snd t) of Oob \<Rightarrow> Some Oob
             | Ret ie \<Rightarrow> del_p2p_attr_loop (ie[1 := ie ! 1 - of_nat (snd t)]) (ielen - snd t) attr_id)))"

definition rtw_del_p2p_attr :: "bytes \<Rightarrow> nat \<Rightarrow> u8 \<Rightarrow> (bytes \<times> nat) c_result option" where
  "rtw_del_p2p_attr ie ielen_ori attr_id = del_p2p_attr_loop ie ielen_ori attr_id"

text \<open>
  \<^verbatim>\<open>rtw_p2p_merge_ies\<close>: the contents of the P2P elements behind one header. \<open>len\<close> has eight bits; a
  length byte below four makes the copied length negative, which is outside every buffer.
\<close>

function merge_loop :: "bytes \<Rightarrow> nat \<Rightarrow> bytes \<Rightarrow> nat \<Rightarrow> u8 \<Rightarrow> nat \<Rightarrow> (bytes \<times> u8) c_result" where
  "merge_loop in_ie in_len merge_ie m len i =
     (if in_len \<le> i then Ret (merge_ie, len)
      else if length in_ie < i + 2 then Oob
      else let n = unat (in_ie ! (i + 1))
        in c_bind (vendor_test [0x50, 0x6f, 0x9a, 0x09] in_ie i) (\<lambda>match.
           if match
           then if n < 4 then Oob
             else c_bind (c_slice in_ie (i + 6) (n - 4)) (\<lambda>d. c_bind (c_write merge_ie m d) (\<lambda>merge_ie.
               merge_loop in_ie in_len merge_ie (m + (n - 4)) (len + of_nat n - 4) (i + (n + 2))))
           else merge_loop in_ie in_len merge_ie m len (i + (n + 2))))"
  by pat_completeness auto
termination
  by (relation "measure (\<lambda>(in_ie, in_len, merge_ie, m, len, i). in_len - i)") auto

declare merge_loop.simps [simp del]

definition rtw_p2p_merge_ies :: "bytes \<Rightarrow> nat \<Rightarrow> bytes option \<Rightarrow> (nat \<times> bytes option) c_result" where
  "rtw_p2p_merge_ies in_ie in_len merge_ie =
     (case merge_ie of None \<Rightarrow> Ret (0, None)
      | Some b \<Rightarrow> c_bind (c_write b 0 [0xdd, 0x00, 0x50, 0x6f, 0x9a, 0x09]) (\<lambda>b.
          c_bind (merge_loop in_ie in_len b 6 0 0) (\<lambda>(b, len). Ret (unat len + 4, Some b))))"

section \<open>The attribute formats\<close>

definition wps_enc :: "u16 \<Rightarrow> bytes \<Rightarrow> bytes" where
  "wps_enc attr_id content = RTW_PUT_BE16 attr_id @ RTW_PUT_BE16 (of_nat (length content)) @ content"

definition p2p_enc :: "u8 \<Rightarrow> bytes \<Rightarrow> bytes" where
  "p2p_enc attr_id content = attr_id # RTW_PUT_LE16 (of_nat (length content)) @ content"

abbreviation wps_fits :: "bytes \<Rightarrow> bool" where
  "wps_fits content \<equiv> length content < 0xfffc"

abbreviation p2p_fits :: "bytes \<Rightarrow> bool" where
  "p2p_fits content \<equiv> length content < 0xfffd"

interpretation wps: tlv 4 wps_enc wps_fits
  by unfold_locales (simp_all add: wps_enc_def)

interpretation p2p: tlv 3 p2p_enc p2p_fits
  by unfold_locales (simp_all add: p2p_enc_def)

definition wps_head :: "u8 \<Rightarrow> bytes" where "wps_head l = [0xdd, l, 0x00, 0x50, 0xf2, 0x04]"
definition p2p_head :: "u8 \<Rightarrow> bytes" where "p2p_head l = [0xdd, l, 0x50, 0x6f, 0x9a, 0x09]"

lemma length_attr_enc [simp, buf_len]:
  "length (wps_enc t c) = length c + 4" "length (p2p_enc u c) = length c + 3"
  "length (wps_head l) = 6" "length (p2p_head l) = 6"
  by (simp_all add: wps_enc_def p2p_enc_def wps_head_def p2p_head_def)

lemma wps_enc_at:
  assumes "buf = pre @ wps_enc t c @ post" and "wps_fits c"
  shows "length pre + 4 \<le> length buf" "RTW_GET_BE16 (drop (length pre) buf) = t"
    "unat (RTW_GET_BE16 (drop (length pre + 2) buf) + 4) = length c + 4"
proof -
  show "length pre + 4 \<le> length buf" "RTW_GET_BE16 (drop (length pre) buf) = t"
    using assms by (simp_all add: wps_enc_def RTW_GET_PUT_BE16)
  have "RTW_GET_BE16 (drop (length pre + 2) buf) = of_nat (length c)"
    using assms by (simp add: wps_enc_def RTW_GET_PUT_BE16)
  moreover have "(of_nat (length c) + 4 :: u16) = of_nat (length c + 4)" by simp
  ultimately show "unat (RTW_GET_BE16 (drop (length pre + 2) buf) + 4) = length c + 4"
    using assms(2) by (simp only: unat_of_nat) simp
qed

lemma p2p_enc_at:
  assumes "buf = pre @ p2p_enc t c @ post" and "p2p_fits c"
  shows "length pre + 3 \<le> length buf" "buf ! length pre = t"
    "unat (RTW_GET_LE16 (drop (Suc (length pre)) buf) + 3) = length c + 3"
proof -
  show "length pre + 3 \<le> length buf" "buf ! length pre = t"
    using assms by (simp_all add: p2p_enc_def)
  have "RTW_GET_LE16 (drop (Suc (length pre)) buf) = of_nat (length c)"
    using assms by (simp add: p2p_enc_def RTW_GET_PUT_LE16)
  moreover have "(of_nat (length c) + 3 :: u16) = of_nat (length c + 3)" by simp
  ultimately show "unat (RTW_GET_LE16 (drop (Suc (length pre)) buf) + 3) = length c + 3"
    using assms(2) by (simp only: unat_of_nat) simp
qed

section \<open>Searching attributes\<close>

lemma find_wps_attr_find:
  assumes "wps.well_formed els"
  shows "find_wps_attr (wps_head l @ wps.encode els @ rest) (6 + length (wps.encode els)) attr_id =
    Some (Ret (map_option (\<lambda>(p, n). (p, n + 4)) (wps.find_el (\<lambda>t c. t = attr_id) 6 els)))"
proof -
  let ?h = "wps_head l" let ?b = "?h @ wps.encode els @ rest" and ?n = "6 + length (wps.encode els)"
  define f where "f = get_wps_attr_loop ?b ?n attr_id"
  have step: "f (length ?h + length (wps.encode ys)) =
      (if t = attr_id then Some (Ret (Some (length ?h + length (wps.encode ys), length c + 4)))
       else f (length ?h + length (wps.encode ys) + 4 + length c))"
    if els: "els = ys @ (t, c) # zs" and c: "wps_fits c" for ys t c zs
  proof -
    have b: "?b = (?h @ wps.encode ys) @ wps_enc t c @ (wps.encode zs @ rest)" by (simp add: els)
    note at = wps_enc_at [OF b c]
    have "length ?h + length (wps.encode ys) < ?n" using c by (simp add: els)
    then show ?thesis
      unfolding f_def using at by (subst get_wps_attr_loop.simps) (auto simp: add.assoc add.commute)
  qed
  have "f (length ?h) = (\<lambda>r. Some (Ret (map_option (\<lambda>(p, n). (p, n + 4)) r)))
      (wps.find_el (\<lambda>t c. t = attr_id) (length ?h) els)"
  proof (rule wps.scan [OF _ _ _ assms])
    show "f (length ?h + length (wps.encode els)) = Some (Ret (map_option (\<lambda>(p, n). (p, n + 4)) None))"
      unfolding f_def by (subst get_wps_attr_loop.simps) simp
  next
    fix ys t c zs assume "els = ys @ (t, c) # zs" "wps_fits c" "t = attr_id"
    then show "f (length ?h + length (wps.encode ys)) =
        Some (Ret (map_option (\<lambda>(p, n). (p, n + 4)) (Some (length ?h + length (wps.encode ys), length c))))"
      by (simp only: step if_True option.map prod.case simp_thms)
  next
    fix ys t c zs assume "els = ys @ (t, c) # zs" "wps_fits c" "t \<noteq> attr_id"
    then show "f (length ?h + length (wps.encode ys)) = f (length ?h + length (wps.encode ys) + 4 + length c)"
      by (simp only: step if_False simp_thms)
  qed
  moreover have "find_wps_attr ?b ?n attr_id = f 6" by (simp add: find_wps_attr_def f_def wps_head_def)
  ultimately show ?thesis by simp
qed

lemma find_p2p_attr_find:
  assumes "p2p.well_formed els"
  shows "find_p2p_attr (p2p_head l @ p2p.encode els @ rest) (6 + length (p2p.encode els)) attr_id =
    Some (Ret (map_option (\<lambda>(p, n). (p, n + 3)) (p2p.find_el (\<lambda>t c. t = attr_id) 6 els)))"
proof -
  let ?h = "p2p_head l" let ?b = "?h @ p2p.encode els @ rest" and ?n = "6 + length (p2p.encode els)"
  define f where "f = get_p2p_attr_loop ?b ?n attr_id"
  have step: "f (length ?h + length (p2p.encode ys)) =
      (if t = attr_id then Some (Ret (Some (length ?h + length (p2p.encode ys), length c + 3)))
       else f (length ?h + length (p2p.encode ys) + 3 + length c))"
    if els: "els = ys @ (t, c) # zs" and c: "p2p_fits c" for ys t c zs
  proof -
    have b: "?b = (?h @ p2p.encode ys) @ p2p_enc t c @ (p2p.encode zs @ rest)" by (simp add: els)
    note at = p2p_enc_at [OF b c]
    have "length ?h + length (p2p.encode ys) + (length c + 3) \<le> ?n" using c by (simp add: els)
    then show ?thesis
      unfolding f_def using at by (subst get_p2p_attr_loop.simps) (auto simp: add.assoc add.commute)
  qed
  have "f (length ?h) = (\<lambda>r. Some (Ret (map_option (\<lambda>(p, n). (p, n + 3)) r)))
      (p2p.find_el (\<lambda>t c. t = attr_id) (length ?h) els)"
  proof (rule p2p.scan [OF _ _ _ assms])
    show "f (length ?h + length (p2p.encode els)) = Some (Ret (map_option (\<lambda>(p, n). (p, n + 3)) None))"
      unfolding f_def by (subst get_p2p_attr_loop.simps) simp
  next
    fix ys t c zs assume "els = ys @ (t, c) # zs" "p2p_fits c" "t = attr_id"
    then show "f (length ?h + length (p2p.encode ys)) =
        Some (Ret (map_option (\<lambda>(p, n). (p, n + 3)) (Some (length ?h + length (p2p.encode ys), length c))))"
      by (simp only: step if_True option.map prod.case simp_thms)
  next
    fix ys t c zs assume "els = ys @ (t, c) # zs" "p2p_fits c" "t \<noteq> attr_id"
    then show "f (length ?h + length (p2p.encode ys)) = f (length ?h + length (p2p.encode ys) + 3 + length c)"
      by (simp only: step if_False simp_thms)
  qed
  moreover have "0 < length (p2p.encode els)" if "els \<noteq> []"
    using that by (cases els) (auto simp: p2p_enc_def)
  then have "find_p2p_attr ?b ?n attr_id = f 6" if "els \<noteq> []"
    using that by (simp add: find_p2p_attr_def f_def p2p_head_def)
  ultimately show ?thesis by (cases "els = []") (simp_all add: find_p2p_attr_def)
qed

text \<open>An attribute whose length field makes its total length zero: the search stays there.\<close>

lemma wps_attr_stuck:
  "get_wps_attr_loop ie n attr_id p = Some y \<Longrightarrow>
   \<not> (p < n \<and> p + 4 \<le> length ie \<and> RTW_GET_BE16 (drop p ie) \<noteq> attr_id \<and> RTW_GET_BE16 (drop (p + 2) ie) = 0xfffc)"
  by (erule get_wps_attr_loop.raw_induct [where P = "\<lambda>ie n attr_id p y.
    \<not> (p < n \<and> p + 4 \<le> length ie \<and> RTW_GET_BE16 (drop p ie) \<noteq> attr_id \<and> RTW_GET_BE16 (drop (p + 2) ie) = 0xfffc)", rotated])
    (force split: if_splits)

lemma p2p_attr_stuck:
  "get_p2p_attr_loop ie n attr_id p = Some y \<Longrightarrow>
   \<not> (p + 3 \<le> n \<and> p + 3 \<le> length ie \<and> ie ! p \<noteq> attr_id \<and> RTW_GET_LE16 (drop (p + 1) ie) = 0xfffd)"
  by (erule get_p2p_attr_loop.raw_induct [where P = "\<lambda>ie n attr_id p y.
    \<not> (p + 3 \<le> n \<and> p + 3 \<le> length ie \<and> ie ! p \<noteq> attr_id \<and> RTW_GET_LE16 (drop (p + 1) ie) = 0xfffd)", rotated])
    (force split: if_splits)

section \<open>Removing attributes and elements\<close>

lemma close_gap_at:
  assumes "buf = pre @ gap @ post @ rest" and "ies_len = length (pre @ gap @ post)"
  shows "close_gap buf ies_len (length pre) (length gap) = Ret (pre @ post @ replicate (length gap) 0 @ rest)"
  using assms by (simp add: close_gap_def c_slice_def c_write_def memcpy_at_def)

definition drop_attrs :: "u8 \<Rightarrow> (u8 \<times> bytes) list \<Rightarrow> (u8 \<times> bytes) list" where
  "drop_attrs attr_id els = filter (\<lambda>(t, c). t \<noteq> attr_id) els"

lemma drop_attrs_simps [simp]:
  "drop_attrs i (xs @ ys) = drop_attrs i xs @ drop_attrs i ys" "drop_attrs i ((i, c) # xs) = drop_attrs i xs"
  by (simp_all add: drop_attrs_def)

lemma drop_attrs_same: "\<forall>(t, c) \<in> set xs. \<not> t = i \<Longrightarrow> drop_attrs i xs = xs"
  by (auto simp: drop_attrs_def filter_id_conv)

lemma length_drop_attrs: "length (p2p.encode (drop_attrs i els)) \<le> length (p2p.encode els)"
  by (induction els) (auto simp: drop_attrs_def)

lemma del_p2p_attr_step:
  "find_p2p_attr ie n i = Some (Ret (Some (q, k))) \<Longrightarrow> k \<noteq> 0 \<Longrightarrow> close_gap ie n q k = Ret ie' \<Longrightarrow>
   del_p2p_attr_loop ie n i = del_p2p_attr_loop (ie'[1 := ie' ! 1 - of_nat k]) (n - k) i"
  by (subst del_p2p_attr_loop.simps) simp

lemma del_p2p_attr_filter:
  assumes "p2p.well_formed els"
  shows "del_p2p_attr_loop (p2p_head l @ p2p.encode els @ rest) (6 + length (p2p.encode els)) attr_id =
    (let kept = p2p.encode (drop_attrs attr_id els); freed = length (p2p.encode els) - length kept
     in Some (Ret (p2p_head (l - of_nat freed) @ kept @ replicate freed 0 @ rest, 6 + length kept)))"
  using assms
proof (induction els arbitrary: l rest rule: length_induct)
  case (1 els)
  note find = find_p2p_attr_find [OF "1.prems", of l rest attr_id]
  show ?case
  proof (cases "p2p.find_el (\<lambda>t c. t = attr_id) 6 els")
    case None
    then have "drop_attrs attr_id els = els" by (intro drop_attrs_same) (simp add: p2p.find_el_None)
    then show ?thesis
      using find None by (subst del_p2p_attr_loop.simps) (simp add: Let_def)
  next
    case (Some r)
    obtain q n where r: "r = (q, n)" by fastforce
    obtain us t c vs where *: "els = us @ (t, c) # vs" "t = attr_id" "n = length c" "q = 6 + length (p2p.encode us)"
      "\<forall>(t', c') \<in> set us. \<not> t' = attr_id"
      by (rule p2p.find_el_Some [OF Some [unfolded r] "1.prems"])
    have wf: "p2p.well_formed (us @ vs)" and len: "length (us @ vs) < length els" using "1.prems" * by auto
    have us: "drop_attrs attr_id us = us" by (rule drop_attrs_same [OF *(5)])
    let ?pre = "p2p_head l @ p2p.encode us"
    have gap: "close_gap (p2p_head l @ p2p.encode els @ rest) (6 + length (p2p.encode els)) q (length c + 3) =
        Ret (?pre @ p2p.encode vs @ replicate (length c + 3) 0 @ rest)"
      using close_gap_at [of "p2p_head l @ p2p.encode els @ rest" ?pre "p2p_enc t c" "p2p.encode vs" rest] * by simp
    have head: "(p2p_head l @ xs)[1 := (p2p_head l @ xs) ! 1 - v] = p2p_head (l - v) @ xs" for xs v
      by (simp add: p2p_head_def)
    let ?r = "replicate (length c + 3) 0 @ rest" and ?n = "of_nat (length c + 3) :: u8"
    have found: "find_p2p_attr (p2p_head l @ p2p.encode els @ rest) (6 + length (p2p.encode els)) attr_id = Some (Ret (Some (q, length c + 3)))"
      using find Some r *(3) by simp
    have freed: "length (p2p.encode els) = length c + 3 + length (p2p.encode (us @ vs))" using * by simp
    have rec: "del_p2p_attr_loop (p2p_head l @ p2p.encode els @ rest) (6 + length (p2p.encode els)) attr_id =
        del_p2p_attr_loop (p2p_head (l - ?n) @ p2p.encode (us @ vs) @ ?r) (6 + length (p2p.encode (us @ vs))) attr_id"
    proof -
      have "6 + length (p2p.encode els) - (length c + 3) = 6 + length (p2p.encode (us @ vs))" using freed by linarith
      then show ?thesis
        using del_p2p_attr_step [OF found _ gap] head [of "p2p.encode us @ p2p.encode vs @ ?r" ?n]
        by (simp only: append_assoc p2p.encode_simps)
    qed
    show ?thesis
      unfolding rec "1.IH" [rule_format, OF len wf]
      using * us freed length_drop_attrs [of attr_id vs]
      by (simp add: Let_def replicate_add [symmetric] algebra_simps)
  qed
qed

definition p2p_match :: "u8 \<Rightarrow> bytes \<Rightarrow> bool" where
  "p2p_match t c \<longleftrightarrow> t = 0xdd \<and> take 4 c = [0x50, 0x6f, 0x9a, 0x09]"

text \<open>Vendor elements must be long enough for the comparison to stay in them.\<close>

definition vendor_covered :: "(u8 \<times> bytes) list \<Rightarrow> bool" where
  "vendor_covered els \<longleftrightarrow> (\<forall>(t, c) \<in> set els. t = 0xdd \<longrightarrow> 4 \<le> length c)"

lemma vendor_test_at:
  assumes "buf = pre @ ie_enc t c @ post" "ie_fits c" "t = 0xdd \<Longrightarrow> 4 \<le> length c" "length oui = 4"
  shows "vendor_test oui buf (length pre) = Ret (t = 0xdd \<and> take 4 c = oui)"
  using ie_enc_nth(2) [OF assms(1,2)] ie_enc_nth(4) [OF assms(1,2), of 4] assms(3,4)
  by (cases "t = 0xdd") (simp_all add: vendor_test_def del: c_slice_in)

lemma vendor_ie_find:
  assumes "ie.well_formed els" "vendor_covered els" "length (ie.encode els) \<le> MAX_IE_SZ" "length oui = 4"
  shows "get_el_loop (vendor_test oui) (ie.encode els @ rest) (length (ie.encode els)) 0 =
    Ret (map_option (\<lambda>(p, n). (p, n + 2)) (ie.find_el (\<lambda>t c. t = 0xdd \<and> take 4 c = oui) 0 els))"
proof -
  let ?b = "ie.encode els @ rest" and ?n = "length (ie.encode els)"
  define f where "f = get_el_loop (vendor_test oui) ?b ?n"
  have test: "vendor_test oui ?b (length (ie.encode ys)) = Ret (t = 0xdd \<and> take 4 c = oui)"
    and at: "length (ie.encode ys) + 2 \<le> length ?b" "unat (?b ! Suc (length (ie.encode ys))) = length c"
    if els: "els = ys @ (t, c) # zs" and c: "ie_fits c" for ys t c zs
  proof -
    have buf: "?b = ie.encode ys @ ie_enc t c @ (ie.encode zs @ rest)" by (simp add: els)
    note at = ie_enc_nth [OF buf c]
    show "length (ie.encode ys) + 2 \<le> length ?b" "unat (?b ! Suc (length (ie.encode ys))) = length c" by (rule at)+
    have "t = 0xdd \<Longrightarrow> 4 \<le> length c" using assms(2) els by (auto simp: vendor_covered_def)
    then show "vendor_test oui ?b (length (ie.encode ys)) = Ret (t = 0xdd \<and> take 4 c = oui)"
      by (rule vendor_test_at [OF buf c _ assms(4)])
  qed
  have "f (length ([] :: bytes)) = (\<lambda>r. Ret (map_option (\<lambda>(p, n). (p, n + 2)) r))
      (ie.find_el (\<lambda>t c. t = 0xdd \<and> take 4 c = oui) (length ([] :: bytes)) els)"
  proof (rule ie.scan [OF _ _ _ assms(1)])
    fix ys t c zs assume els: "els = ys @ (t, c) # zs" and c: "ie_fits c" and m: "t = 0xdd \<and> take 4 c = oui"
    have "4 \<le> length c" using m assms(4) by (metis length_take min.cobounded1)
    then have "\<not> ?n \<le> length (ie.encode ys) + 5" using els c by simp
    moreover have "\<not> MAX_IE_SZ \<le> length (ie.encode ys) + 5" using calculation assms(3) by simp
    ultimately show "f (length ([] :: bytes) + length (ie.encode ys)) =
        Ret (map_option (\<lambda>(p, n). (p, n + 2)) (Some (length ([] :: bytes) + length (ie.encode ys), length c)))"
      unfolding f_def using test [OF els c] at [OF els c] m by (subst get_el_loop.simps) (simp add: Let_def)
  next
    fix ys t c zs assume els: "els = ys @ (t, c) # zs" and c: "ie_fits c" and m: "\<not> (t = 0xdd \<and> take 4 c = oui)"
    show "f (length ([] :: bytes) + length (ie.encode ys)) = f (length ([] :: bytes) + length (ie.encode ys) + 2 + length c)"
    proof (cases "?n \<le> length (ie.encode ys) + 5")
      case True
      then show ?thesis unfolding f_def by (simp add: get_el_loop.simps)
    next
      case False
      then show ?thesis
        unfolding f_def using test [OF els c] at [OF els c] m assms(3)
        by (subst get_el_loop.simps) (simp add: Let_def add.assoc)
    qed
  qed (simp add: f_def get_el_loop.simps)
  then show ?thesis by (simp add: f_def)
qed

definition drop_p2p :: "(u8 \<times> bytes) list \<Rightarrow> (u8 \<times> bytes) list" where
  "drop_p2p els = filter (\<lambda>(t, c). \<not> p2p_match t c) els"

lemma length_drop_p2p: "length (ie.encode (drop_p2p els)) \<le> length (ie.encode els)"
  by (induction els) (auto simp: drop_p2p_def)

lemma del_p2p_ie_filter:
  assumes "ie.well_formed els" "vendor_covered els" "length (ie.encode els) \<le> MAX_IE_SZ"
  shows "del_p2p_ie_loop (ie.encode els @ rest) (length (ie.encode els)) =
    (let kept = ie.encode (drop_p2p els)
     in Ret (kept @ replicate (length (ie.encode els) - length kept) 0 @ rest, length kept))"
  using assms
proof (induction els arbitrary: rest rule: length_induct)
  case (1 els)
  have get: "rtw_get_p2p_ie (ie.encode els @ rest) (int (length (ie.encode els))) None =
      Ret (map_option (\<lambda>(p, n). (p, n + 2)) (ie.find_el p2p_match 0 els), None)"
  proof (cases "ie.encode els = []")
    case True
    then have "els = []" by (cases els) (auto simp: ie_enc_def)
    then show ?thesis by (simp add: rtw_get_p2p_ie_def)
  next
    case False
    have p: "p2p_match = (\<lambda>t c. t = 0xdd \<and> take 4 c = [0x50, 0x6f, 0x9a, 0x09])" by (intro ext) (simp add: p2p_match_def)
    show ?thesis
      using False vendor_ie_find [OF "1.prems", of "[0x50, 0x6f, 0x9a, 0x09]" rest] by (simp add: rtw_get_p2p_ie_def p)
  qed
  show ?case
  proof (cases "ie.find_el p2p_match 0 els")
    case None
    then have "drop_p2p els = els" by (auto simp: drop_p2p_def filter_id_conv ie.find_el_None)
    then show ?thesis using get None by (subst del_p2p_ie_loop.simps) (simp add: Let_def)
  next
    case (Some r)
    obtain q n where r: "r = (q, n)" by fastforce
    obtain us t c vs where *: "els = us @ (t, c) # vs" "p2p_match t c" "n = length c" "q = 0 + length (ie.encode us)"
      "\<forall>(t', c') \<in> set us. \<not> p2p_match t' c'"
      by (rule ie.find_el_Some [OF Some [unfolded r] "1.prems"(1)])
    have us: "drop_p2p us = us" using *(5) by (auto simp: drop_p2p_def filter_id_conv)
    have gap: "close_gap (ie.encode els @ rest) (length (ie.encode els)) q (length c + 2) =
        Ret (ie.encode us @ ie.encode vs @ replicate (length c + 2) 0 @ rest)"
      using close_gap_at [of "ie.encode els @ rest" "ie.encode us" "ie_enc t c" "ie.encode vs" rest] * by simp
    have len: "length (us @ vs) < length els" and wf: "ie.well_formed (us @ vs)" "vendor_covered (us @ vs)"
      "length (ie.encode (us @ vs)) \<le> MAX_IE_SZ"
      using "1.prems" * by (auto simp: vendor_covered_def)
    have rec: "del_p2p_ie_loop (ie.encode els @ rest) (length (ie.encode els)) =
        del_p2p_ie_loop (ie.encode (us @ vs) @ replicate (length c + 2) 0 @ rest) (length (ie.encode (us @ vs)))"
      using get Some r *(3) gap by (subst del_p2p_ie_loop.simps) (simp add: *(1))
    have dr: "drop_p2p els = us @ drop_p2p vs" "drop_p2p (us @ vs) = us @ drop_p2p vs"
      using *(1,2) us by (simp_all add: drop_p2p_def)
    show ?thesis
      unfolding rec "1.IH" [rule_format, OF len wf]
      using * dr length_drop_p2p [of vs] by (simp add: Let_def replicate_add [symmetric] algebra_simps del: replicate_Suc)
  qed
qed

section \<open>Merging\<close>

definition p2p_contents :: "(u8 \<times> bytes) list \<Rightarrow> bytes" where
  "p2p_contents els = concat (map (\<lambda>(t, c). drop 4 c) (filter (\<lambda>(t, c). p2p_match t c) els))"

lemma merge_loop_contents:
  assumes "ie.well_formed els" "vendor_covered els" "length (p2p_contents els) \<le> length post"
  shows "merge_loop (pre @ ie.encode els @ rest) (length pre + length (ie.encode els)) (out @ post) (length out) len (length pre) =
    Ret (out @ p2p_contents els @ drop (length (p2p_contents els)) post, len + of_nat (length (p2p_contents els)))"
  using assms
proof (induction els arbitrary: pre out post len)
  case Nil
  then show ?case by (simp add: merge_loop.simps p2p_contents_def)
next
  case (Cons el els)
  obtain t c where el: "el = (t, c)" by fastforce
  let ?b = "pre @ ie.encode (el # els) @ rest" and ?n = "length pre + length (ie.encode (el # els))"
  have b: "?b = pre @ ie_enc t c @ (ie.encode els @ rest)" by (simp add: el)
  have c: "ie_fits c" and cov: "t = 0xdd \<Longrightarrow> 4 \<le> length c" using Cons.prems el by (auto simp: vendor_covered_def)
  note at = ie_enc_nth [OF b c]
  have test: "vendor_test [0x50, 0x6f, 0x9a, 0x09] ?b (length pre) = Ret (p2p_match t c)"
    unfolding p2p_match_def by (rule vendor_test_at [OF b c cov]) simp_all
  have next_el: "?b = (pre @ ie_enc t c) @ ie.encode els @ rest" "?n = length (pre @ ie_enc t c) + length (ie.encode els)"
    "length pre + (length c + 2) = length (pre @ ie_enc t c)"
    by (simp_all add: el)
  show ?case
  proof (cases "p2p_match t c")
    case True
    then have c4: "4 \<le> length c" using cov by (simp add: p2p_match_def)
    have con: "p2p_contents (el # els) = drop 4 c @ p2p_contents els" using True by (simp add: p2p_contents_def el)
    have slice: "c_slice ?b (length pre + 6) (length c - 4) = Ret (drop 4 c)"
      using c4 by (simp add: c_slice_def el ie_enc_def)
    have wr: "c_write (out @ post) (length out) (drop 4 c) = Ret ((out @ drop 4 c) @ drop (length c - 4) post)"
      using Cons.prems(3) con by (subst c_write_over) simp_all
    have len: "len + of_nat (length c) - 4 = len + of_nat (length c - 4)" using c4 by (simp add: of_nat_diff)
    have "merge_loop ?b ?n (out @ post) (length out) len (length pre) =
        merge_loop ?b ?n ((out @ drop 4 c) @ drop (length c - 4) post) (length (out @ drop 4 c)) (len + of_nat (length c - 4)) (length pre + (length c + 2))"
      using at(1,3) test True c4 slice wr len
      by (subst merge_loop.simps) (simp add: Let_def el add_diff_eq del: append_assoc)
    also have "\<dots> = Ret ((out @ drop 4 c) @ p2p_contents els @ drop (length (p2p_contents els)) (drop (length c - 4) post),
        len + of_nat (length c - 4) + of_nat (length (p2p_contents els)))"
      unfolding next_el using Cons.prems con by (intro Cons.IH) (auto simp: el vendor_covered_def)
    finally show ?thesis using con by (simp add: add.commute)
  next
    case False
    have con: "p2p_contents (el # els) = p2p_contents els" using False by (simp add: p2p_contents_def el)
    have "merge_loop ?b ?n (out @ post) (length out) len (length pre) =
        merge_loop ?b ?n (out @ post) (length out) len (length pre + (length c + 2))"
      using at(1,3) test False by (subst merge_loop.simps) (simp add: Let_def el)
    also have "\<dots> = Ret (out @ p2p_contents els @ drop (length (p2p_contents els)) post, len + of_nat (length (p2p_contents els)))"
      unfolding next_el using Cons.prems con by (intro Cons.IH) (auto simp: el vendor_covered_def)
    finally show ?thesis using con by simp
  qed
qed

section \<open>Properties\<close>

text \<open>On a well-formed WPS or P2P element, whatever follows it in memory, the attribute searches return,
  and they return the first attribute with the identifier: its position and its total length.
\<close>

lemma attr_searches_find_first:
  assumes "wps.well_formed ws" and "p2p.well_formed ps"
  shows "find_wps_attr (wps_head l @ wps.encode ws @ rest) (6 + length (wps.encode ws)) wid =
      Some (Ret (map_option (\<lambda>(p, n). (p, n + 4)) (wps.find_el (\<lambda>t c. t = wid) 6 ws))) \<and>
    find_p2p_attr (p2p_head l @ p2p.encode ps @ rest) (6 + length (p2p.encode ps)) pid =
      Some (Ret (map_option (\<lambda>(p, n). (p, n + 3)) (p2p.find_el (\<lambda>t c. t = pid) 6 ps)))"
  using find_wps_attr_find [OF assms(1)] find_p2p_attr_find [OF assms(2)] by blast

lemma attr_searches_find_first_witness:
  "find_wps_attr (wps_head 0 @ wps.encode [(0x104a, [16]), (0x1044, [1, 2])] @ []) (6 + length (wps.encode [(0x104a, [16]), (0x1044, [1, 2])])) 0x1044 =
      Some (Ret (map_option (\<lambda>(p, n). (p, n + 4)) (wps.find_el (\<lambda>t c. t = 0x1044) 6 [(0x104a, [16]), (0x1044, [1, 2])]))) \<and>
    find_p2p_attr (p2p_head 0 @ p2p.encode [(2, [1]), (7, [])] @ []) (6 + length (p2p.encode [(2, [1]), (7, [])])) 7 =
      Some (Ret (map_option (\<lambda>(p, n). (p, n + 3)) (p2p.find_el (\<lambda>t c. t = 7) 6 [(2, [1]), (7, [])])))"
  by (rule attr_searches_find_first) simp_all

text \<open>C28.
  The total length of an attribute is computed in sixteen bits. One WPS attribute with length field
  \<open>0xfffc\<close>, or one P2P attribute with length field \<open>0xfffd\<close>, that is not the one searched for makes the
  search never return, whatever the rest of the element and whatever the identifier searched for.
\<close>

theorem attr_searches_may_not_return:
  assumes "wid \<noteq> wid'" and "pid \<noteq> pid'" and "10 \<le> n"
  shows "find_wps_attr (wps_head l @ RTW_PUT_BE16 wid' @ RTW_PUT_BE16 0xfffc @ rest) n wid = None \<and>
    find_p2p_attr (p2p_head l @ pid' # RTW_PUT_LE16 0xfffd @ rest) n pid = None"
proof
  let ?w = "wps_head l @ RTW_PUT_BE16 wid' @ RTW_PUT_BE16 0xfffc @ rest"
  have "RTW_GET_BE16 (drop 6 ?w) = wid'" "RTW_GET_BE16 (drop (6 + 2) ?w) = 0xfffc" "6 + 4 \<le> length ?w"
    by (simp_all add: wps_head_def RTW_GET_PUT_BE16)
  then have "get_wps_attr_loop ?w n wid 6 = None"
    using wps_attr_stuck [of ?w n wid 6] assms(1,3) by (cases "get_wps_attr_loop ?w n wid 6") auto
  then show "find_wps_attr ?w n wid = None" by (simp add: find_wps_attr_def wps_head_def)
next
  let ?p = "p2p_head l @ pid' # RTW_PUT_LE16 0xfffd @ rest"
  have "?p ! 6 = pid'" "RTW_GET_LE16 (drop (6 + 1) ?p) = 0xfffd" "6 + 3 \<le> length ?p"
    by (simp_all add: p2p_head_def RTW_GET_PUT_LE16)
  then have "get_p2p_attr_loop ?p n pid 6 = None"
    using p2p_attr_stuck [of ?p n pid 6] assms(2,3) by (cases "get_p2p_attr_loop ?p n pid 6") auto
  then show "find_p2p_attr ?p n pid = None" using assms(3) by (simp add: find_p2p_attr_def p2p_head_def)
qed

theorem attr_searches_may_not_return_witness:
  "find_wps_attr (wps_head 4 @ RTW_PUT_BE16 0x104a @ RTW_PUT_BE16 0xfffc @ [0]) 10 0x1044 = None \<and>
    find_p2p_attr (p2p_head 4 @ 2 # RTW_PUT_LE16 0xfffd @ [0]) 10 7 = None"
  by (rule attr_searches_may_not_return) simp_all

text \<open>Removing P2P attributes and P2P elements: exactly the matching ones go, the others keep their order
  and content, the freed bytes are cleared, what follows in memory is untouched, and the element's
  length byte is reduced by what was removed.
\<close>

lemma p2p_removal_filters:
  assumes "p2p.well_formed ps" and "ie.well_formed els" and "vendor_covered els" and "length (ie.encode els) \<le> MAX_IE_SZ"
  shows "rtw_del_p2p_attr (p2p_head l @ p2p.encode ps @ rest) (6 + length (p2p.encode ps)) attr_id =
      (let kept = p2p.encode (drop_attrs attr_id ps); freed = length (p2p.encode ps) - length kept
       in Some (Ret (p2p_head (l - of_nat freed) @ kept @ replicate freed 0 @ rest, 6 + length kept))) \<and>
    rtw_del_p2p_ie (ie.encode els @ rest) (length (ie.encode els)) =
      (let kept = ie.encode (drop_p2p els)
       in Ret (kept @ replicate (length (ie.encode els) - length kept) 0 @ rest, length kept))"
  using del_p2p_attr_filter [OF assms(1)] del_p2p_ie_filter [OF assms(2-4)]
  by (simp add: rtw_del_p2p_attr_def rtw_del_p2p_ie_def)

lemma p2p_removal_filters_witness:
  "rtw_del_p2p_attr (p2p_head 14 @ p2p.encode [(2, [1]), (7, [5, 6]), (2, [])] @ [9]) (6 + length (p2p.encode [(2, [1]), (7, [5, 6]), (2, [])])) 2 =
      (let kept = p2p.encode (drop_attrs 2 [(2, [1]), (7, [5, 6]), (2, [])]); freed = length (p2p.encode [(2, [1]), (7, [5, 6]), (2, [])]) - length kept
       in Some (Ret (p2p_head (14 - of_nat freed) @ kept @ replicate freed 0 @ [9], 6 + length kept))) \<and>
    rtw_del_p2p_ie (ie.encode sample_sec @ [9]) (length (ie.encode sample_sec)) =
      (let kept = ie.encode (drop_p2p sample_sec)
       in Ret (kept @ replicate (length (ie.encode sample_sec) - length kept) 0 @ [9], length kept))"
  by (rule p2p_removal_filters)
    (simp_all add: sample_sec_def vendor_covered_def MAX_IE_SZ_def)

text \<open>Merging the P2P elements of a frame concatenates their contents behind one header, but the length
  byte of that header stays 0, and the length returned is that of the contents modulo 256 plus four.
\<close>

lemma p2p_merge_contents:
  assumes "ie.well_formed els" and "vendor_covered els" and "6 + length (p2p_contents els) \<le> length buf"
  shows "rtw_p2p_merge_ies (ie.encode els @ rest) (length (ie.encode els)) (Some buf) =
    Ret (length (p2p_contents els) mod 256 + 4,
      Some (p2p_head 0 @ p2p_contents els @ drop (6 + length (p2p_contents els)) buf))"
proof -
  have wr: "c_write buf 0 [0xdd, 0x00, 0x50, 0x6f, 0x9a, 0x09] = Ret (p2p_head 0 @ drop 6 buf)"
    using assms(3) by (simp add: c_write_def memcpy_at_def p2p_head_def eval_nat_numeral)
  have "merge_loop (ie.encode els @ rest) (length (ie.encode els)) (p2p_head 0 @ drop 6 buf) 6 0 0 =
      Ret (p2p_head 0 @ p2p_contents els @ drop (length (p2p_contents els)) (drop 6 buf), of_nat (length (p2p_contents els)))"
    using merge_loop_contents [OF assms(1,2), of "drop 6 buf" "[]" rest "p2p_head 0" 0] assms(3) by simp
  then show ?thesis by (simp add: rtw_p2p_merge_ies_def wr unat_of_nat add.commute)
qed

lemma p2p_merge_contents_witness:
  "rtw_p2p_merge_ies (ie.encode [(0xdd, [0x50, 0x6f, 0x9a, 9, 1, 2]), (0, [7]), (0xdd, [0x50, 0x6f, 0x9a, 9, 3])] @ [])
      (length (ie.encode [(0xdd, [0x50, 0x6f, 0x9a, 9, 1, 2]), (0, [7]), (0xdd, [0x50, 0x6f, 0x9a, 9, 3])])) (Some (replicate 9 0)) =
    Ret (length (p2p_contents [(0xdd, [0x50, 0x6f, 0x9a, 9, 1, 2]), (0, [7]), (0xdd, [0x50, 0x6f, 0x9a, 9, 3])]) mod 256 + 4,
      Some (p2p_head 0 @ p2p_contents [(0xdd, [0x50, 0x6f, 0x9a, 9, 1, 2]), (0, [7]), (0xdd, [0x50, 0x6f, 0x9a, 9, 3])] @
        drop (6 + length (p2p_contents [(0xdd, [0x50, 0x6f, 0x9a, 9, 1, 2]), (0, [7]), (0xdd, [0x50, 0x6f, 0x9a, 9, 3])])) (replicate 9 0)))"
  by (rule p2p_merge_contents) (simp_all add: vendor_covered_def p2p_contents_def p2p_match_def)

end
