(* ===== verification/Access_Control.thy ===== *)
theory Access_Control
  imports Prelude
begin

text \<open>
  The access control lists of the access point: \<^verbatim>\<open>_rtw_access_ctrl\<close> of \<^verbatim>\<open>core/rtw_sta_mgt.c\<close> and the
  \<^verbatim>\<open>rtw_acl\<close> and \<^verbatim>\<open>macaddr_acl\<close> operations of \<^verbatim>\<open>core/rtw_ap.c\<close>.

  A list has a pool of \<open>NUM_ACL\<close> nodes and a queue that threads the used ones; the queue is a list of
  node indices. There is one list per period (device, BSS). Locks only bracket an operation.
\<close>

section \<open>State and operations\<close>

definition NUM_ACL :: nat where "NUM_ACL = 16"
definition RTW_ACL_PERIOD_NUM :: nat where "RTW_ACL_PERIOD_NUM = 2"
definition RTW_ACL_MODE_DISABLED :: int where "RTW_ACL_MODE_DISABLED = 0"
definition RTW_ACL_MODE_ACCEPT_UNLESS_LISTED :: int where "RTW_ACL_MODE_ACCEPT_UNLESS_LISTED = 1"
definition RTW_ACL_MODE_DENY_UNLESS_LISTED :: int where "RTW_ACL_MODE_DENY_UNLESS_LISTED = 2"

record rtw_wlan_acl_node =
  node_addr :: bytes
  node_valid :: bool

record wlan_acl_pool =
  acl_mode :: int
  acl_num :: int
  aclnode :: "rtw_wlan_acl_node list"
  acl_node_q :: "nat list"

type_synonym acl_list = "wlan_acl_pool list"

text \<open>An operation on a period that does not exist does nothing.\<close>

definition on_period :: "nat \<Rightarrow> (wlan_acl_pool \<Rightarrow> wlan_acl_pool) \<Rightarrow> acl_list \<Rightarrow> acl_list" where
  "on_period period f acls = (if RTW_ACL_PERIOD_NUM \<le> period then acls else acls[period := f (acls ! period)])"

definition acl_init :: "wlan_acl_pool \<Rightarrow> wlan_acl_pool" where
  "acl_init acl = acl\<lparr>acl_node_q := [], acl_num := 0, acl_mode := RTW_ACL_MODE_DISABLED,
     aclnode := map (\<lambda>n. n\<lparr>node_valid := False\<rparr>) (aclnode acl)\<rparr>"

definition rtw_macaddr_acl_init :: "acl_list \<Rightarrow> nat \<Rightarrow> acl_list" where
  "rtw_macaddr_acl_init acls period = on_period period acl_init acls"

text \<open>Taking a valid node out of the queue: shared by clearing a list and removing an address.\<close>

definition acl_drop :: "(rtw_wlan_acl_node \<Rightarrow> bool) \<Rightarrow> wlan_acl_pool \<Rightarrow> nat \<Rightarrow> wlan_acl_pool" where
  "acl_drop P acl i =
     (if P (aclnode acl ! i) \<and> node_valid (aclnode acl ! i)
      then acl\<lparr>aclnode := (aclnode acl)[i := (aclnode acl ! i)\<lparr>node_valid := False\<rparr>],
             acl_node_q := remove1 i (acl_node_q acl), acl_num := acl_num acl - 1\<rparr>
      else acl)"

definition acl_clear :: "wlan_acl_pool \<Rightarrow> wlan_acl_pool" where
  "acl_clear acl = (foldl (acl_drop (\<lambda>_. True)) acl (acl_node_q acl))\<lparr>acl_mode := RTW_ACL_MODE_DISABLED\<rparr>"

definition rtw_macaddr_acl_clear :: "acl_list \<Rightarrow> nat \<Rightarrow> acl_list" where
  "rtw_macaddr_acl_clear acls period = on_period period acl_clear acls"

definition rtw_set_macaddr_acl :: "acl_list \<Rightarrow> nat \<Rightarrow> int \<Rightarrow> acl_list" where
  "rtw_set_macaddr_acl acls period mode = on_period period (acl_mode_update (\<lambda>_. mode)) acls"

text \<open>The search of the queue for a valid node with an address.\<close>

definition acl_search :: "wlan_acl_pool \<Rightarrow> bytes \<Rightarrow> bool" where
  "acl_search acl addr = list_ex (\<lambda>i. node_addr (aclnode acl ! i) = addr \<and> node_valid (aclnode acl ! i)) (acl_node_q acl)"

fun first_free :: "rtw_wlan_acl_node list \<Rightarrow> nat option" where
  "first_free [] = None"
| "first_free (n # ns) = (if \<not> node_valid n then Some 0 else map_option Suc (first_free ns))"

definition acl_add :: "wlan_acl_pool \<Rightarrow> bytes \<Rightarrow> int \<times> wlan_acl_pool" where
  "acl_add acl addr =
     (if acl_search acl addr then (0, acl)
      else if int NUM_ACL \<le> acl_num acl then (-1, acl)
      else case first_free (aclnode acl) of None \<Rightarrow> (-1, acl)
        | Some i \<Rightarrow> (0, acl\<lparr>aclnode := (aclnode acl)[i := \<lparr>node_addr = addr, node_valid = True\<rparr>],
            acl_node_q := acl_node_q acl @ [i], acl_num := acl_num acl + 1\<rparr>))"

definition rtw_acl_add_sta :: "acl_list \<Rightarrow> nat \<Rightarrow> bytes \<Rightarrow> int \<times> acl_list" where
  "rtw_acl_add_sta acls period addr =
     (if RTW_ACL_PERIOD_NUM \<le> period then (-1, acls)
      else (fst (acl_add (acls ! period) addr), on_period period (\<lambda>acl. snd (acl_add acl addr)) acls))"

definition bcast_addr :: bytes where "bcast_addr = [0xff, 0xff, 0xff, 0xff, 0xff, 0xff]"

definition acl_remove :: "bytes \<Rightarrow> wlan_acl_pool \<Rightarrow> wlan_acl_pool" where
  "acl_remove addr acl = foldl (acl_drop (\<lambda>n. addr = bcast_addr \<or> node_addr n = addr)) acl (acl_node_q acl)"

definition rtw_acl_remove_sta :: "acl_list \<Rightarrow> nat \<Rightarrow> bytes \<Rightarrow> int \<times> acl_list" where
  "rtw_acl_remove_sta acls period addr = (0, on_period period (acl_remove addr) acls)"

definition access_ctrl_period :: "acl_list \<Rightarrow> nat \<Rightarrow> bytes \<Rightarrow> bool" where
  "access_ctrl_period acls period mac_addr =
     (if RTW_ACL_PERIOD_NUM \<le> period then True
      else let acl = acls ! period
        in if acl_mode acl \<noteq> RTW_ACL_MODE_ACCEPT_UNLESS_LISTED \<and> acl_mode acl \<noteq> RTW_ACL_MODE_DENY_UNLESS_LISTED then True
           else if acl_mode acl = RTW_ACL_MODE_ACCEPT_UNLESS_LISTED then \<not> acl_search acl mac_addr
           else acl_search acl mac_addr)"

definition rtw_access_ctrl :: "acl_list \<Rightarrow> bytes \<Rightarrow> bool" where
  "rtw_access_ctrl acls mac_addr = list_all (\<lambda>i. access_ctrl_period acls i mac_addr) [0..<RTW_ACL_PERIOD_NUM]"

section \<open>A list is a set of addresses\<close>

definition acl_wf :: "wlan_acl_pool \<Rightarrow> bool" where
  "acl_wf acl \<longleftrightarrow> length (aclnode acl) = NUM_ACL \<and> distinct (acl_node_q acl) \<and>
     set (acl_node_q acl) = {i. i < NUM_ACL \<and> node_valid (aclnode acl ! i)} \<and>
     acl_num acl = int (length (acl_node_q acl)) \<and>
     inj_on (\<lambda>i. node_addr (aclnode acl ! i)) (set (acl_node_q acl))"

definition acl_addrs :: "wlan_acl_pool \<Rightarrow> bytes set" where
  "acl_addrs acl = (\<lambda>i. node_addr (aclnode acl ! i)) ` set (acl_node_q acl)"

definition acls_wf :: "acl_list \<Rightarrow> bool" where
  "acls_wf acls \<longleftrightarrow> length acls = RTW_ACL_PERIOD_NUM \<and> (\<forall>acl \<in> set acls. acl_wf acl)"

lemma acl_wf_valid: "acl_wf acl \<Longrightarrow> i \<in> set (acl_node_q acl) \<Longrightarrow> node_valid (aclnode acl ! i) \<and> i < length (aclnode acl)"
  by (simp add: acl_wf_def)

lemma acl_search_addrs: "acl_wf acl \<Longrightarrow> acl_search acl addr \<longleftrightarrow> addr \<in> acl_addrs acl"
  by (auto simp: acl_search_def acl_addrs_def list_ex_iff dest: acl_wf_valid)

lemma card_acl_addrs: "acl_wf acl \<Longrightarrow> card (acl_addrs acl) = length (acl_node_q acl)"
  unfolding acl_addrs_def acl_wf_def by (metis card_image distinct_card)

lemma first_free_Some: "first_free ns = Some i \<Longrightarrow> i < length ns \<and> \<not> node_valid (ns ! i)"
  by (induction ns arbitrary: i) (auto split: if_splits)

lemma first_free_None: "first_free ns = None \<Longrightarrow> j < length ns \<Longrightarrow> node_valid (ns ! j)"
  by (induction ns arbitrary: j) (auto split: if_splits simp: nth_Cons')

lemma acl_add_refines:
  assumes wf: "acl_wf acl"
  shows "acl_wf (snd (acl_add acl addr))"
    "fst (acl_add acl addr) = (if addr \<in> acl_addrs acl \<or> card (acl_addrs acl) < NUM_ACL then 0 else -1)"
    "acl_addrs (snd (acl_add acl addr)) = (if fst (acl_add acl addr) = 0 then insert addr (acl_addrs acl) else acl_addrs acl)"
    "acl_mode (snd (acl_add acl addr)) = acl_mode acl"
proof -
  have num: "acl_num acl = int (card (acl_addrs acl))" using wf card_acl_addrs [OF wf] by (simp add: acl_wf_def)
  have free: "\<exists>i. first_free (aclnode acl) = Some i" if "card (acl_addrs acl) < NUM_ACL"
  proof (rule ccontr)
    assume "\<nexists>i. first_free (aclnode acl) = Some i"
    then have "set (acl_node_q acl) = {..<NUM_ACL}" using wf first_free_None [of "aclnode acl"] by (auto simp: acl_wf_def)
    then have "length (acl_node_q acl) = NUM_ACL" using wf by (metis acl_wf_def card_lessThan distinct_card)
    then show False using that card_acl_addrs [OF wf] by simp
  qed
  show "fst (acl_add acl addr) = (if addr \<in> acl_addrs acl \<or> card (acl_addrs acl) < NUM_ACL then 0 else -1)"
  proof (cases "card (acl_addrs acl) < NUM_ACL")
    case True
    then show ?thesis using free num by (auto simp: acl_add_def acl_search_addrs [OF wf])
  qed (use num in \<open>simp add: acl_add_def acl_search_addrs [OF wf]\<close>)
  show "acl_mode (snd (acl_add acl addr)) = acl_mode acl" by (simp add: acl_add_def split: option.splits)
  have new: "acl_wf acl' \<and> acl_addrs acl' = insert addr (acl_addrs acl)"
    if i: "first_free (aclnode acl) = Some i" and na: "addr \<notin> acl_addrs acl"
      and acl': "acl' = acl\<lparr>aclnode := (aclnode acl)[i := \<lparr>node_addr = addr, node_valid = True\<rparr>],
            acl_node_q := acl_node_q acl @ [i], acl_num := acl_num acl + 1\<rparr>" for i acl'
  proof -
    have i': "i < NUM_ACL" "i \<notin> set (acl_node_q acl)" "length (aclnode acl) = NUM_ACL"
      using first_free_Some [OF i] wf by (auto simp: acl_wf_def)
    have other: "aclnode acl' ! j = aclnode acl ! j" if "j \<in> set (acl_node_q acl)" for j
      using that i'(2) acl' by (cases "j = i") auto
    have at_i: "aclnode acl' ! i = \<lparr>node_addr = addr, node_valid = True\<rparr>" using i' acl' by simp
    have addrs: "acl_addrs acl' = insert addr (acl_addrs acl)"
      using other at_i acl' by (auto simp: acl_addrs_def)
    have "inj_on (\<lambda>j. node_addr (aclnode acl' ! j)) (set (acl_node_q acl))"
      using wf other by (simp add: acl_wf_def inj_on_def)
    moreover have "node_addr (aclnode acl' ! i) \<notin> (\<lambda>j. node_addr (aclnode acl' ! j)) ` set (acl_node_q acl)"
      using na at_i other by (auto simp: acl_addrs_def)
    ultimately have "inj_on (\<lambda>j. node_addr (aclnode acl' ! j)) (set (acl_node_q acl'))"
      using i' acl' by (simp add: inj_on_insert)
    then show ?thesis using wf i' acl' addrs by (auto simp: acl_wf_def nth_list_update)
  qed
  show "acl_wf (snd (acl_add acl addr))"
    using wf new by (auto simp: acl_add_def acl_search_addrs [OF wf] split: option.splits)
  show "acl_addrs (snd (acl_add acl addr)) = (if fst (acl_add acl addr) = 0 then insert addr (acl_addrs acl) else acl_addrs acl)"
    using wf new by (auto simp: acl_add_def acl_search_addrs [OF wf] split: option.splits)
qed

lemma acl_drop_step:
  assumes wf: "acl_wf acl" and i: "i \<in> set (acl_node_q acl)"
  shows "acl_wf (acl_drop P acl i)" "acl_mode (acl_drop P acl i) = acl_mode acl"
    "set (acl_node_q (acl_drop P acl i)) = set (acl_node_q acl) - (if P (aclnode acl ! i) then {i} else {})"
    "j \<noteq> i \<Longrightarrow> aclnode (acl_drop P acl i) ! j = aclnode acl ! j"
proof -
  have d: "distinct (acl_node_q acl)" "node_valid (aclnode acl ! i)" "i < length (aclnode acl)"
    using wf i acl_wf_valid [OF wf i] by (simp_all add: acl_wf_def)
  show q: "set (acl_node_q (acl_drop P acl i)) = set (acl_node_q acl) - (if P (aclnode acl ! i) then {i} else {})"
    using d by (auto simp: acl_drop_def)
  show "acl_mode (acl_drop P acl i) = acl_mode acl" "j \<noteq> i \<Longrightarrow> aclnode (acl_drop P acl i) ! j = aclnode acl ! j" for j
    by (simp_all add: acl_drop_def)
  show "acl_wf (acl_drop P acl i)"
  proof (cases "P (aclnode acl ! i)")
    case True
    have "set (remove1 i (acl_node_q acl)) = set (acl_node_q acl) - {i}" using d(1) by simp
    moreover have "0 < length (acl_node_q acl)" using i by (cases "acl_node_q acl") auto
    moreover have "inj_on (\<lambda>j. node_addr ((aclnode acl)[i := x] ! j)) (set (acl_node_q acl) - {i})" for x
      using wf by (auto simp: acl_wf_def inj_on_def)
    ultimately show ?thesis
      using wf d i True by (auto simp: acl_drop_def acl_wf_def nth_list_update length_remove1 of_nat_diff Suc_leI)
  qed (simp add: acl_drop_def wf)
qed

lemma acl_drop_fold:
  assumes "acl_wf acl" "set is \<subseteq> set (acl_node_q acl)" "distinct is"
  shows "acl_wf (foldl (acl_drop P) acl is) \<and> acl_mode (foldl (acl_drop P) acl is) = acl_mode acl \<and>
    set (acl_node_q (foldl (acl_drop P) acl is)) = {j \<in> set (acl_node_q acl). j \<in> set is \<longrightarrow> \<not> P (aclnode acl ! j)} \<and>
    (\<forall>j \<in> set (acl_node_q (foldl (acl_drop P) acl is)). node_addr (aclnode (foldl (acl_drop P) acl is) ! j) = node_addr (aclnode acl ! j))"
  using assms
proof (induction "is" arbitrary: acl)
  case (Cons i js)
  have i: "i \<in> set (acl_node_q acl)" using Cons.prems by simp
  note step = acl_drop_step [OF Cons.prems(1) i, where P = P]
  have sub: "set js \<subseteq> set (acl_node_q (acl_drop P acl i))" using Cons.prems step(3) by auto
  have same: "aclnode (acl_drop P acl i) ! j = aclnode acl ! j" if "j \<in> set js" for j
    using Cons.prems(3) that by (intro step(4)) auto
  have addr_i: "node_addr (aclnode (acl_drop P acl i) ! j) = node_addr (aclnode acl ! j)" for j
    using step(4) [of j] acl_wf_valid [OF Cons.prems(1) i] by (cases "j = i") (simp_all add: acl_drop_def)
  show ?case
    using Cons.IH [OF step(1) sub] Cons.prems(3) step(2,3) same addr_i by auto
qed simp

lemma acl_remove_refines:
  assumes wf: "acl_wf acl"
  shows "acl_wf (acl_remove addr acl)" "acl_mode (acl_remove addr acl) = acl_mode acl"
    "acl_addrs (acl_remove addr acl) = (if addr = bcast_addr then {} else acl_addrs acl - {addr})"
proof -
  let ?P = "\<lambda>n. addr = bcast_addr \<or> node_addr n = addr"
  have "distinct (acl_node_q acl)" using wf by (simp add: acl_wf_def)
  from acl_drop_fold [OF wf subset_refl this, of ?P]
  have f: "acl_wf (acl_remove addr acl)" "acl_mode (acl_remove addr acl) = acl_mode acl"
    "set (acl_node_q (acl_remove addr acl)) = {j \<in> set (acl_node_q acl). \<not> ?P (aclnode acl ! j)}"
    "\<forall>j \<in> set (acl_node_q (acl_remove addr acl)). node_addr (aclnode (acl_remove addr acl) ! j) = node_addr (aclnode acl ! j)"
    by (auto simp: acl_remove_def)
  then show "acl_wf (acl_remove addr acl)" "acl_mode (acl_remove addr acl) = acl_mode acl" by blast+
  show "acl_addrs (acl_remove addr acl) = (if addr = bcast_addr then {} else acl_addrs acl - {addr})"
    using f(3,4) by (auto simp: acl_addrs_def)
qed

lemma acl_clear_refines:
  assumes wf: "acl_wf acl"
  shows "acl_wf (acl_clear acl)" "acl_addrs (acl_clear acl) = {}" "acl_mode (acl_clear acl) = RTW_ACL_MODE_DISABLED"
proof -
  have "distinct (acl_node_q acl)" using wf by (simp add: acl_wf_def)
  from acl_drop_fold [OF wf subset_refl this, of "\<lambda>_. True"]
  show "acl_wf (acl_clear acl)" "acl_addrs (acl_clear acl) = {}" "acl_mode (acl_clear acl) = RTW_ACL_MODE_DISABLED"
    by (auto simp: acl_clear_def acl_wf_def acl_addrs_def)
qed

section \<open>Properties\<close>

lemma on_period_refines:
  assumes "acls_wf acls" "p < RTW_ACL_PERIOD_NUM" "acl_wf (acls ! p) \<Longrightarrow> acl_wf (f (acls ! p))"
  shows "acls_wf (on_period p f acls)" "map g (on_period p f acls) = (map g acls)[p := g (f (acls ! p))]"
proof -
  have "acl_wf (acls ! p)" using assms(1,2) by (simp add: acls_wf_def)
  then show "acls_wf (on_period p f acls)"
    using assms set_update_subset_insert [of acls p "f (acls ! p)"] by (auto simp: acls_wf_def on_period_def)
  show "map g (on_period p f acls) = (map g acls)[p := g (f (acls ! p))]"
    using assms(2) by (simp add: on_period_def map_update)
qed

text \<open>C31.
  The access control lists of the two periods are sets of at most sixteen addresses. Every operation
  keeps the pool and its queue consistent and acts on the set of its period only: adding inserts the
  address, and fails exactly when it is new and the set is full; removing deletes it, or everything for
  the broadcast address; clearing empties the set and disables the list. A station is admitted iff no
  list in accept mode names it and every list in deny mode does.
\<close>

theorem acl_is_set_of_addresses:
  assumes wf: "acls_wf acls" and p: "p < RTW_ACL_PERIOD_NUM"
  shows "(let (ret, acls') = rtw_acl_add_sta acls p addr; S = acl_addrs (acls ! p)
      in acls_wf acls' \<and> map acl_mode acls' = map acl_mode acls \<and>
         ret = (if addr \<in> S \<or> card S < NUM_ACL then 0 else -1) \<and>
         map acl_addrs acls' = (map acl_addrs acls)[p := if ret = 0 then insert addr S else S]) \<and>
    (let (ret, acls') = rtw_acl_remove_sta acls p addr
      in acls_wf acls' \<and> map acl_mode acls' = map acl_mode acls \<and>
         map acl_addrs acls' = (map acl_addrs acls)[p := if addr = bcast_addr then {} else acl_addrs (acls ! p) - {addr}]) \<and>
    (let acls' = rtw_macaddr_acl_clear acls p
      in acls_wf acls' \<and> map acl_mode acls' = (map acl_mode acls)[p := RTW_ACL_MODE_DISABLED] \<and>
         map acl_addrs acls' = (map acl_addrs acls)[p := {}]) \<and>
    (rtw_access_ctrl acls addr \<longleftrightarrow>
      (\<forall>acl \<in> set acls. (acl_mode acl = RTW_ACL_MODE_ACCEPT_UNLESS_LISTED \<longrightarrow> addr \<notin> acl_addrs acl) \<and>
        (acl_mode acl = RTW_ACL_MODE_DENY_UNLESS_LISTED \<longrightarrow> addr \<in> acl_addrs acl)))"
proof -
  have pw: "acl_wf (acls ! p)" and len: "length acls = RTW_ACL_PERIOD_NUM" using wf p by (simp_all add: acls_wf_def)
  have same: "(map acl_mode acls)[p := acl_mode (acls ! p)] = map acl_mode acls"
    using p len by (metis list_update_id nth_map)
  note add = on_period_refines [OF wf p, of "\<lambda>acl. snd (acl_add acl addr)", OF acl_add_refines(1)]
  note rem = on_period_refines [OF wf p, of "acl_remove addr", OF acl_remove_refines(1)]
  note clr = on_period_refines [OF wf p, of acl_clear, OF acl_clear_refines(1)]
  have "access_ctrl_period acls i addr \<longleftrightarrow> (acl_mode (acls ! i) = RTW_ACL_MODE_ACCEPT_UNLESS_LISTED \<longrightarrow> addr \<notin> acl_addrs (acls ! i)) \<and>
        (acl_mode (acls ! i) = RTW_ACL_MODE_DENY_UNLESS_LISTED \<longrightarrow> addr \<in> acl_addrs (acls ! i))"
    if "i < RTW_ACL_PERIOD_NUM" for i
    using wf that by (auto simp: access_ctrl_period_def Let_def acl_search_addrs acls_wf_def
        RTW_ACL_MODE_ACCEPT_UNLESS_LISTED_def RTW_ACL_MODE_DENY_UNLESS_LISTED_def)
  then have ctrl: "rtw_access_ctrl acls addr \<longleftrightarrow>
      (\<forall>acl \<in> set acls. (acl_mode acl = RTW_ACL_MODE_ACCEPT_UNLESS_LISTED \<longrightarrow> addr \<notin> acl_addrs acl) \<and>
        (acl_mode acl = RTW_ACL_MODE_DENY_UNLESS_LISTED \<longrightarrow> addr \<in> acl_addrs acl))"
    using len by (auto simp: rtw_access_ctrl_def list_all_iff all_set_conv_all_nth)
  show ?thesis
    unfolding ctrl using p acl_add_refines [OF pw, of addr] acl_remove_refines [OF pw, of addr] acl_clear_refines [OF pw] same
    by (simp add: add rem clr rtw_acl_add_sta_def rtw_acl_remove_sta_def rtw_macaddr_acl_clear_def Let_def split del: if_split)
qed

definition sample_acls :: acl_list where
  "sample_acls = replicate 2 \<lparr>acl_mode = 2, acl_num = 1,
     aclnode = \<lparr>node_addr = [2, 0, 0, 0, 0, 1], node_valid = True\<rparr> # replicate 15 \<lparr>node_addr = [], node_valid = False\<rparr>,
     acl_node_q = [0]\<rparr>"

lemma sample_acls_wf: "acls_wf sample_acls"
  by (auto simp: acls_wf_def acl_wf_def sample_acls_def RTW_ACL_PERIOD_NUM_def NUM_ACL_def nth_Cons' nth_replicate)

theorem acl_is_set_of_addresses_witness:
  "(let (ret, acls') = rtw_acl_add_sta sample_acls 1 [2, 0, 0, 0, 0, 7]; S = acl_addrs (sample_acls ! 1)
      in acls_wf acls' \<and> map acl_mode acls' = map acl_mode sample_acls \<and>
         ret = (if [2, 0, 0, 0, 0, 7] \<in> S \<or> card S < NUM_ACL then 0 else -1) \<and>
         map acl_addrs acls' = (map acl_addrs sample_acls)[1 := if ret = 0 then insert [2, 0, 0, 0, 0, 7] S else S]) \<and>
    \<not> rtw_access_ctrl sample_acls [2, 0, 0, 0, 0, 7]"
  using acl_is_set_of_addresses [OF sample_acls_wf, of 1 "[2, 0, 0, 0, 0, 7]"]
  by (simp add: RTW_ACL_PERIOD_NUM_def Let_def) (simp add: sample_acls_def acl_addrs_def RTW_ACL_MODE_DENY_UNLESS_LISTED_def)

end
