(* ===== verification/Stations.thy ===== *)
theory Stations
  imports Access_Control "HOL-Library.Multiset"
begin

unbundle bit_operations_syntax

text \<open>
  The station table of \<^verbatim>\<open>core/rtw_sta_mgt.c\<close>: a pool of \<open>NUM_STA\<close> station entries, the queue of free
  ones, the hash table of the others by address, the lists of authenticating and associated stations,
  the association identifiers and the traffic bitmaps.

  A pointer to a station is its index in the pool. The queues of a station hold frame numbers; freeing
  a station returns its transmit frames to the transmit pool and its receive frames to the receive
  pool. Locks only bracket an operation. Timers, work items, the hardware's MAC identifiers and the
  notifications to other parts of the driver do not belong to this state and are left out; stations
  prepared before linking are compiled out of the driver (\<^verbatim>\<open>CONFIG_RTW_PRE_LINK_STA\<close> is 0).
\<close>

section \<open>State\<close>

definition NUM_STA :: nat where "NUM_STA = 32"
definition WIFI_ASOC_STATE :: u32 where "WIFI_ASOC_STATE = 1"
definition WIFI_SLEEP_STATE :: u32 where "WIFI_SLEEP_STATE = 4"
definition WIFI_STA_ALIVE_CHK_STATE :: u32 where "WIFI_STA_ALIVE_CHK_STATE = 0x400"

record recv_reorder_ctrl =
  ro_tid :: nat
  ro_enable :: bool
  ro_indicate_seq :: u16
  ro_wend_b :: u16
  ro_wsize_b :: u8
  ro_ampdu_size :: u8
  ro_pending :: "nat list"

record sta_info =
  mac_addr :: bytes
  sta_state :: u32
  sta_aid_no :: nat
  is_freeing :: bool
  tx_q_enable :: bool
  tx_queue :: "nat list"
  sleep_q :: "nat list"
  sleepq_len :: u32
  mgmt_sleep_q :: "nat list"
  mgmt_sleepq_len :: u32
  ac_pending :: "nat list list"
  ac_qcnt :: "int list"
  qos_option :: bool
  qos_info :: u8
  max_sp_len :: u8
  uapsd_bk :: u8
  uapsd_be :: u8
  uapsd_vi :: u8
  uapsd_vo :: u8
  has_legacy_ac :: bool
  sleepq_ac_len :: u32
  sta_expire_to :: u32
  tid_rxseq :: "u16 list"
  bmc_tid_rxseq :: "u16 list"
  nonqos_rxseq :: u16
  nonqos_bmc_rxseq :: u16
  RxMgmtFrameSeqNum :: u16
  recvreorder_ctrl :: "recv_reorder_ctrl list"
  defrag_q :: "nat list"
  keytrack :: int

record sta_priv =
  stas :: "sta_info list"
  free_sta_queue :: "nat list"
  sta_hash :: "nat list list"
  asoc_sta_count :: int
  asoc_list :: "nat list"
  asoc_list_cnt :: u8
  auth_list :: "nat list"
  auth_list_cnt :: u8
  sta_aid :: "nat option list"
  max_aid :: nat
  started_aid :: nat
  rr_aid :: bool
  aid_bmp_len :: nat
  sta_dz_bitmap :: bytes
  tim_bitmap :: bytes
  max_num_sta :: nat
  hw_state_ap :: bool
  xmit_accnt :: "int list"
  hw_pending :: "nat list list"
  free_xmit_frames :: "nat list"
  free_recv_queue :: "nat list"

text \<open>
  The configuration of the access category of a priority: bit 0 makes it delivery enabled, bit 1 trigger
  enabled (the \<^verbatim>\<open>switch\<close> on the priority that \<^verbatim>\<open>core/rtw_xmit.c\<close> and \<^verbatim>\<open>core/rtw_recv.c\<close> repeat).
\<close>

definition uapsd_of :: "sta_info \<Rightarrow> nat \<Rightarrow> u8" where
  "uapsd_of sta priority =
     (if priority = 1 \<or> priority = 2 then uapsd_bk sta
      else if priority = 4 \<or> priority = 5 then uapsd_vi sta
      else if priority = 6 \<or> priority = 7 then uapsd_vo sta
      else uapsd_be sta)"

abbreviation upd_sta :: "nat \<Rightarrow> (sta_info \<Rightarrow> sta_info) \<Rightarrow> sta_priv \<Rightarrow> sta_priv" where
  "upd_sta i f s \<equiv> s\<lparr>stas := (stas s)[i := f (stas s ! i)]\<rparr>"

section \<open>Helpers\<close>

definition wifi_mac_hash :: "bytes \<Rightarrow> u32" where
  "wifi_mac_hash mac =
     (let x = ucast (mac ! 0);
          x = push_bit 2 x XOR ucast (mac ! 1);
          x = push_bit 2 x XOR ucast (mac ! 2);
          x = push_bit 2 x XOR ucast (mac ! 3);
          x = push_bit 2 x XOR ucast (mac ! 4);
          x = push_bit 2 x XOR ucast (mac ! 5);
          x = x XOR drop_bit 8 x
      in x AND (of_nat NUM_STA - 1))"

definition rtw_bmp_is_set :: "bytes \<Rightarrow> nat \<Rightarrow> nat \<Rightarrow> bool" where
  "rtw_bmp_is_set bmp bmp_len k = (if bmp_len \<le> k div 8 then False else bmp ! (k div 8) AND push_bit (k mod 8) 1 \<noteq> 0)"

definition rtw_bmp_set :: "bytes \<Rightarrow> nat \<Rightarrow> nat \<Rightarrow> bytes" where
  "rtw_bmp_set bmp bmp_len k = (if k div 8 < bmp_len then bmp[k div 8 := bmp ! (k div 8) OR push_bit (k mod 8) 1] else bmp)"

definition rtw_bmp_clear :: "bytes \<Rightarrow> nat \<Rightarrow> nat \<Rightarrow> bytes" where
  "rtw_bmp_clear bmp bmp_len k =
     (if k div 8 < bmp_len then bmp[k div 8 := bmp ! (k div 8) AND NOT (push_bit (k mod 8) 1)] else bmp)"

definition AID_BMP_LEN :: "nat \<Rightarrow> nat" where
  "AID_BMP_LEN n = (n + 1) div 8 + (if (n + 1) mod 8 \<noteq> 0 then 1 else 0)"

section \<open>Setting up\<close>

definition init_stainfo :: sta_info where
  "init_stainfo = \<lparr>mac_addr = replicate 6 0, sta_state = 0, sta_aid_no = 0, is_freeing = False,
     tx_q_enable = False, tx_queue = [], sleep_q = [], sleepq_len = 0, mgmt_sleep_q = [], mgmt_sleepq_len = 0,
     ac_pending = replicate 5 [], ac_qcnt = replicate 5 0,
     qos_option = False, qos_info = 0, max_sp_len = 0, uapsd_bk = 0, uapsd_be = 0, uapsd_vi = 0, uapsd_vo = 0,
     has_legacy_ac = False, sleepq_ac_len = 0, sta_expire_to = 0,
     tid_rxseq = replicate 16 0, bmc_tid_rxseq = replicate 16 0, nonqos_rxseq = 0, nonqos_bmc_rxseq = 0,
     RxMgmtFrameSeqNum = 0,
     recvreorder_ctrl = replicate 16 \<lparr>ro_tid = 0, ro_enable = False, ro_indicate_seq = 0, ro_wend_b = 0,
       ro_wsize_b = 0, ro_ampdu_size = 0, ro_pending = []\<rparr>,
     defrag_q = [], keytrack = 0\<rparr>"

text \<open>
  \<^verbatim>\<open>_rtw_init_sta_priv\<close>: \<open>alloc\<close> says which of its four allocations succeed; \<open>macid_num\<close> and
  \<open>max_ap_assoc_sta\<close> come from the hardware and the registry. \<open>None\<close> is \<^verbatim>\<open>_FAIL\<close>.
\<close>

definition rtw_init_sta_priv :: "(nat \<Rightarrow> bool) \<Rightarrow> nat \<Rightarrow> nat \<Rightarrow> sta_priv option" where
  "rtw_init_sta_priv alloc macid_num max_ap_assoc_sta =
     (let max_aid = (if max_ap_assoc_sta \<noteq> 0 then min macid_num max_ap_assoc_sta else macid_num)
      in if alloc 0 \<and> alloc 1 \<and> alloc 2 \<and> alloc 3
         then Some \<lparr>stas = replicate NUM_STA init_stainfo, free_sta_queue = [0..<NUM_STA],
           sta_hash = replicate NUM_STA [], asoc_sta_count = 0, asoc_list = [], asoc_list_cnt = 0,
           auth_list = [], auth_list_cnt = 0, sta_aid = replicate max_aid None, max_aid = max_aid,
           started_aid = 1, rr_aid = False, aid_bmp_len = AID_BMP_LEN max_aid,
           sta_dz_bitmap = replicate (AID_BMP_LEN max_aid) 0, tim_bitmap = replicate (AID_BMP_LEN max_aid) 0,
           max_num_sta = (if max_ap_assoc_sta \<noteq> 0 then min NUM_STA max_ap_assoc_sta else NUM_STA),
           hw_state_ap = False, xmit_accnt = replicate 5 0, hw_pending = replicate 5 [], free_xmit_frames = [], free_recv_queue = []\<rparr>
         else None)"

section \<open>Allocating, finding and freeing stations\<close>

text \<open>The entry \<^verbatim>\<open>rtw_alloc_stainfo\<close> hands out.\<close>

definition new_sta :: "bytes \<Rightarrow> sta_info" where
  "new_sta hwaddr = init_stainfo\<lparr>mac_addr := hwaddr, tid_rxseq := replicate 16 0xffff, bmc_tid_rxseq := replicate 16 0xffff,
     nonqos_bmc_rxseq := 0xffff, nonqos_rxseq := 0xffff, RxMgmtFrameSeqNum := 0xffff,
     recvreorder_ctrl := map (\<lambda>i. \<lparr>ro_tid = i, ro_enable = False, ro_indicate_seq = 0xffff, ro_wend_b = 0xffff,
       ro_wsize_b = 64, ro_ampdu_size = 0xff, ro_pending = []\<rparr>) [0..<16]\<rparr>"

definition rtw_alloc_stainfo :: "sta_priv \<Rightarrow> bytes \<Rightarrow> nat option \<times> sta_priv" where
  "rtw_alloc_stainfo s hwaddr =
     (case free_sta_queue s of
        [] \<Rightarrow> (None, s)
      | i # rest \<Rightarrow>
          let index = unat (wifi_mac_hash hwaddr);
              s = s\<lparr>free_sta_queue := rest, stas := (stas s)[i := init_stainfo\<lparr>mac_addr := hwaddr\<rparr>]\<rparr>
          in if NUM_STA \<le> index then (None, s)
             else (Some i, s\<lparr>sta_hash := (sta_hash s)[index := sta_hash s ! index @ [i]],
               asoc_sta_count := asoc_sta_count s + 1, stas := (stas s)[i := new_sta hwaddr]\<rparr>))"

definition get_stainfo :: "sta_priv \<Rightarrow> bytes \<Rightarrow> bool \<Rightarrow> nat option \<times> sta_priv" where
  "get_stainfo s hwaddr to_free =
     (let addr = (if hwaddr ! 0 AND 1 \<noteq> 0 then bcast_addr else hwaddr);
          found = find (\<lambda>i. mac_addr (stas s ! i) = addr) (sta_hash s ! unat (wifi_mac_hash addr))
      in (found, case found of None \<Rightarrow> s
            | Some i \<Rightarrow> if to_free then upd_sta i (\<lambda>sta. sta\<lparr>is_freeing := True\<rparr>) s else s))"

definition rtw_get_stainfo :: "sta_priv \<Rightarrow> bytes \<Rightarrow> nat option" where
  "rtw_get_stainfo s hwaddr = fst (get_stainfo s hwaddr False)"

definition rtw_get_stainfo_to_free :: "sta_priv \<Rightarrow> bytes \<Rightarrow> nat option \<times> sta_priv" where
  "rtw_get_stainfo_to_free s hwaddr = get_stainfo s hwaddr True"

definition rtw_stainfo_claim_to_free :: "sta_priv \<Rightarrow> nat \<Rightarrow> sta_priv" where
  "rtw_stainfo_claim_to_free s i =
     (if i \<in> set (concat (sta_hash s)) then upd_sta i (\<lambda>sta. sta\<lparr>is_freeing := True\<rparr>) s else s)"

definition rtw_init_bcmc_stainfo :: "sta_priv \<Rightarrow> sta_priv" where
  "rtw_init_bcmc_stainfo s = snd (rtw_alloc_stainfo s bcast_addr)"

definition rtw_get_bcmc_stainfo :: "sta_priv \<Rightarrow> nat option" where
  "rtw_get_bcmc_stainfo s = rtw_get_stainfo s bcast_addr"

text \<open>The parts of \<^verbatim>\<open>rtw_free_stainfo\<close> in the order of the code.\<close>

definition hash_del :: "nat \<Rightarrow> sta_priv \<Rightarrow> sta_priv" where
  "hash_del i s = s\<lparr>sta_hash := map (filter (\<lambda>j. j \<noteq> i)) (sta_hash s)\<rparr>"

definition free_sta_xmit :: "nat \<Rightarrow> sta_priv \<Rightarrow> sta_priv" where
  "free_sta_xmit i s =
     (let sta = stas s ! i
      in upd_sta i (\<lambda>sta. sta\<lparr>tx_queue := [], sleep_q := [], sleepq_len := 0, mgmt_sleep_q := [], mgmt_sleepq_len := 0,
          ac_pending := replicate 5 [], ac_qcnt := replicate 5 0\<rparr>)
        (s\<lparr>free_xmit_frames := free_xmit_frames s @ tx_queue sta @ sleep_q sta @ mgmt_sleep_q sta @ concat (ac_pending sta),
           hw_pending := map (filter (\<lambda>j. j \<noteq> i)) (hw_pending s),
           xmit_accnt := map2 (-) (xmit_accnt s) (ac_qcnt sta)\<rparr>))"

definition free_sta_recv :: "nat \<Rightarrow> sta_priv \<Rightarrow> sta_priv" where
  "free_sta_recv i s =
     (let sta = stas s ! i
      in upd_sta i (\<lambda>sta. sta\<lparr>recvreorder_ctrl := map (\<lambda>r. r\<lparr>ro_pending := []\<rparr>) (recvreorder_ctrl sta), defrag_q := []\<rparr>)
        (s\<lparr>free_recv_queue := free_recv_queue s @ concat (map ro_pending (recvreorder_ctrl sta)) @ defrag_q sta\<rparr>))"

definition rtw_stapriv_asoc_list_add :: "sta_priv \<Rightarrow> nat \<Rightarrow> sta_priv" where
  "rtw_stapriv_asoc_list_add s i = s\<lparr>asoc_list := asoc_list s @ [i], asoc_list_cnt := asoc_list_cnt s + 1\<rparr>"

definition rtw_stapriv_asoc_list_del :: "sta_priv \<Rightarrow> nat \<Rightarrow> sta_priv" where
  "rtw_stapriv_asoc_list_del s i = s\<lparr>asoc_list := filter (\<lambda>j. j \<noteq> i) (asoc_list s), asoc_list_cnt := asoc_list_cnt s - 1\<rparr>"

definition free_sta_lists :: "nat \<Rightarrow> sta_priv \<Rightarrow> sta_priv" where
  "free_sta_lists i s =
     (let s = (if i \<in> set (asoc_list s) then rtw_stapriv_asoc_list_del s i else s)
      in if i \<in> set (auth_list s)
         then s\<lparr>auth_list := filter (\<lambda>j. j \<noteq> i) (auth_list s), auth_list_cnt := auth_list_cnt s - 1\<rparr> else s)"

definition free_sta_ps :: "nat \<Rightarrow> sta_priv \<Rightarrow> sta_priv" where
  "free_sta_ps i s = upd_sta i (\<lambda>sta. sta\<lparr>sta_expire_to := 0, sleepq_ac_len := 0, qos_info := 0, max_sp_len := 0,
     uapsd_bk := 0, uapsd_be := 0, uapsd_vi := 0, uapsd_vo := 0, has_legacy_ac := False\<rparr>) s"

definition free_sta_aid :: "nat \<Rightarrow> sta_priv \<Rightarrow> sta_priv" where
  "free_sta_aid i s =
     (if \<not> hw_state_ap s then s
      else let aid = sta_aid_no (stas s ! i);
               s = s\<lparr>sta_dz_bitmap := rtw_bmp_clear (sta_dz_bitmap s) (aid_bmp_len s) (aid mod 256),
                     tim_bitmap := rtw_bmp_clear (tim_bitmap s) (aid_bmp_len s) (aid mod 256)\<rparr>
        in if 0 < aid \<and> sta_aid s ! (aid - 1) = Some i
           then upd_sta i (\<lambda>sta. sta\<lparr>sta_aid_no := 0\<rparr>) (s\<lparr>sta_aid := (sta_aid s)[aid - 1 := None]\<rparr>)
           else s)"

definition rtw_free_stainfo :: "sta_priv \<Rightarrow> nat \<Rightarrow> sta_priv" where
  "rtw_free_stainfo s i =
     (let s = hash_del i s;
          s = s\<lparr>asoc_sta_count := asoc_sta_count s - 1\<rparr>;
          s = upd_sta i (\<lambda>sta. sta\<lparr>sta_state := sta_state sta AND NOT WIFI_ASOC_STATE\<rparr>) s;
          s = free_sta_xmit i s;
          s = free_sta_recv i s;
          s = free_sta_lists i s;
          s = free_sta_ps i s;
          s = free_sta_aid i s;
          s = upd_sta i (\<lambda>sta. sta\<lparr>is_freeing := False\<rparr>) s
      in s\<lparr>free_sta_queue := free_sta_queue s @ [i]\<rparr>)"

definition rtw_free_all_stainfo :: "sta_priv \<Rightarrow> sta_priv" where
  "rtw_free_all_stainfo s =
     (if asoc_sta_count s = 1 then s
      else let bc = rtw_get_bcmc_stainfo s;
               free_sta_list = filter (\<lambda>i. bc \<noteq> Some i) (concat (sta_hash s));
               s = s\<lparr>sta_hash := map (filter (\<lambda>i. bc = Some i)) (sta_hash s)\<rparr>
        in foldl rtw_free_stainfo s free_sta_list)"

section \<open>Association identifiers\<close>

text \<open>
  The search of \<^verbatim>\<open>rtw_aid_alloc\<close> from step \<open>i\<close> on, \<open>n\<close> steps before the end; the result is the step it
  stopped at, the number of used identifiers seen and the identifier.
\<close>

primrec aid_search :: "sta_priv \<Rightarrow> nat \<Rightarrow> nat \<Rightarrow> nat \<Rightarrow> nat \<Rightarrow> nat \<times> nat \<times> nat" where
  "aid_search s i 0 used_cnt aid = (i, used_cnt, aid)"
| "aid_search s i (Suc n) used_cnt aid =
     (let aid = (i + started_aid s - 1) mod max_aid s + 1
      in if sta_aid s ! (aid - 1) = None then (i, used_cnt, aid)
         else if max_num_sta s \<le> used_cnt + 1 then (i, used_cnt + 1, aid)
         else aid_search s (i + 1) n (used_cnt + 1) aid)"

definition rtw_aid_alloc :: "sta_priv \<Rightarrow> nat \<Rightarrow> nat \<times> sta_priv" where
  "rtw_aid_alloc s sta =
     (let (i, used_cnt, aid) = aid_search s 0 (max_aid s) 0 0;
          aid = (if max_aid s \<le> i \<or> max_num_sta s \<le> used_cnt then 0 else aid);
          s = upd_sta sta (\<lambda>x. x\<lparr>sta_aid_no := aid\<rparr>) s
      in (aid, if aid = 0 then s
        else let s = s\<lparr>sta_aid := (sta_aid s)[aid - 1 := Some sta]\<rparr>
          in if rr_aid s then s\<lparr>started_aid := aid mod max_aid s + 1\<rparr> else s))"

section \<open>The invariant\<close>

definition hashed :: "sta_priv \<Rightarrow> nat list" where
  "hashed s = concat (sta_hash s)"

text \<open>
  Every entry of the pool is in exactly one place: free, hashed under its address, or, while all
  stations are being freed, in the list of those still to free. The counters agree with the lists, and
  the lists of authenticating and associated stations hold stations in use.
\<close>

definition sta_wf_limbo :: "sta_priv \<Rightarrow> nat list \<Rightarrow> bool" where
  "sta_wf_limbo s L \<longleftrightarrow>
     length (stas s) = NUM_STA \<and> length (sta_hash s) = NUM_STA \<and>
     mset (free_sta_queue s) + mset (hashed s) + mset L = mset [0..<NUM_STA] \<and>
     asoc_sta_count s = int (length (hashed s) + length L) \<and>
     (\<forall>b < NUM_STA. \<forall>i \<in> set (sta_hash s ! b). unat (wifi_mac_hash (mac_addr (stas s ! i))) = b) \<and>
     distinct (asoc_list s) \<and> set (asoc_list s) \<subseteq> set (hashed s) \<union> set L \<and> asoc_list_cnt s = of_nat (length (asoc_list s)) \<and>
     distinct (auth_list s) \<and> set (auth_list s) \<subseteq> set (hashed s) \<union> set L \<and> auth_list_cnt s = of_nat (length (auth_list s))"

definition sta_wf :: "sta_priv \<Rightarrow> bool" where
  "sta_wf s \<longleftrightarrow> sta_wf_limbo s []"

lemma mac_hash_bound: "unat (wifi_mac_hash mac) < NUM_STA"
proof -
  have m: "(of_nat NUM_STA - 1 :: u32) = mask 5" by (simp add: NUM_STA_def mask_eq_exp_minus_1)
  have "wifi_mac_hash mac = (wifi_mac_hash mac) AND mask 5"
    unfolding wifi_mac_hash_def Let_def m by (simp add: and.assoc)
  then have "wifi_mac_hash mac = take_bit 5 (wifi_mac_hash mac)" by (simp add: take_bit_eq_mask)
  then have "unat (wifi_mac_hash mac) = take_bit 5 (unat (wifi_mac_hash mac))" by (metis unsigned_take_bit_eq)
  also have "\<dots> < 2 ^ 5" by (rule take_bit_nat_less_exp)
  finally show ?thesis by (simp add: NUM_STA_def)
qed

lemma limbo_parts:
  assumes "sta_wf_limbo s L"
  shows "distinct (free_sta_queue s)" "distinct (hashed s)" "distinct L"
    "set (free_sta_queue s) \<inter> set (hashed s) = {}" "set (free_sta_queue s) \<inter> set L = {}" "set (hashed s) \<inter> set L = {}"
    "set (free_sta_queue s) \<union> set (hashed s) \<union> set L = {..<NUM_STA}"
proof -
  have "mset (free_sta_queue s @ hashed s @ L) = mset [0..<NUM_STA]" using assms by (simp add: sta_wf_limbo_def add.assoc)
  then have "distinct (free_sta_queue s @ hashed s @ L)" "set (free_sta_queue s @ hashed s @ L) = set [0..<NUM_STA]"
    by (metis distinct_upt mset_eq_imp_distinct_iff, metis mset_eq_setD)
  then show "distinct (free_sta_queue s)" "distinct (hashed s)" "distinct L"
    "set (free_sta_queue s) \<inter> set (hashed s) = {}" "set (free_sta_queue s) \<inter> set L = {}" "set (hashed s) \<inter> set L = {}"
    "set (free_sta_queue s) \<union> set (hashed s) \<union> set L = {..<NUM_STA}"
    by auto
qed

lemma set_hashed: "set (hashed s) = (\<Union>b < length (sta_hash s). set (sta_hash s ! b))"
  by (auto simp: hashed_def in_set_conv_nth Bex_def) (metis nth_mem in_set_conv_nth)+

lemma mset_bucket_append:
  "b < length xss \<Longrightarrow> mset (concat (xss[b := xss ! b @ [x]])) = mset (concat xss) + {#x#}"
  by (induction xss arbitrary: b) (auto simp: nth_Cons' list_update_code split: nat.splits)

section \<open>What freeing a station does\<close>

lemma free_sta_xmit_fields [simp]:
  "sta_hash (free_sta_xmit i s) = sta_hash s"
  "free_sta_queue (free_sta_xmit i s) = free_sta_queue s"
  "asoc_sta_count (free_sta_xmit i s) = asoc_sta_count s"
  "asoc_list (free_sta_xmit i s) = asoc_list s"
  "asoc_list_cnt (free_sta_xmit i s) = asoc_list_cnt s"
  "auth_list (free_sta_xmit i s) = auth_list s"
  "auth_list_cnt (free_sta_xmit i s) = auth_list_cnt s"
  "length (stas (free_sta_xmit i s)) = length (stas s)"
  "j \<noteq> i \<Longrightarrow> stas (free_sta_xmit i s) ! j = stas s ! j"
  by (simp_all add: free_sta_xmit_def Let_def)

lemma free_sta_recv_fields [simp]:
  "sta_hash (free_sta_recv i s) = sta_hash s"
  "free_sta_queue (free_sta_recv i s) = free_sta_queue s"
  "asoc_sta_count (free_sta_recv i s) = asoc_sta_count s"
  "asoc_list (free_sta_recv i s) = asoc_list s"
  "asoc_list_cnt (free_sta_recv i s) = asoc_list_cnt s"
  "auth_list (free_sta_recv i s) = auth_list s"
  "auth_list_cnt (free_sta_recv i s) = auth_list_cnt s"
  "length (stas (free_sta_recv i s)) = length (stas s)"
  "j \<noteq> i \<Longrightarrow> stas (free_sta_recv i s) ! j = stas s ! j"
  by (simp_all add: free_sta_recv_def Let_def)

lemma free_sta_aid_fields [simp]:
  "sta_hash (free_sta_aid i s) = sta_hash s"
  "free_sta_queue (free_sta_aid i s) = free_sta_queue s"
  "asoc_sta_count (free_sta_aid i s) = asoc_sta_count s"
  "asoc_list (free_sta_aid i s) = asoc_list s"
  "asoc_list_cnt (free_sta_aid i s) = asoc_list_cnt s"
  "auth_list (free_sta_aid i s) = auth_list s"
  "auth_list_cnt (free_sta_aid i s) = auth_list_cnt s"
  "length (stas (free_sta_aid i s)) = length (stas s)"
  "j \<noteq> i \<Longrightarrow> stas (free_sta_aid i s) ! j = stas s ! j"
  by (simp_all add: free_sta_aid_def Let_def)

lemma free_sta_ps_fields [simp]:
  "sta_hash (free_sta_ps i s) = sta_hash s"
  "free_sta_queue (free_sta_ps i s) = free_sta_queue s"
  "asoc_sta_count (free_sta_ps i s) = asoc_sta_count s"
  "asoc_list (free_sta_ps i s) = asoc_list s"
  "asoc_list_cnt (free_sta_ps i s) = asoc_list_cnt s"
  "auth_list (free_sta_ps i s) = auth_list s"
  "auth_list_cnt (free_sta_ps i s) = auth_list_cnt s"
  "length (stas (free_sta_ps i s)) = length (stas s)"
  "j \<noteq> i \<Longrightarrow> stas (free_sta_ps i s) ! j = stas s ! j"
  by (simp_all add: free_sta_ps_def)

lemma free_sta_lists_fields [simp]:
  "sta_hash (free_sta_lists i s) = sta_hash s"
  "free_sta_queue (free_sta_lists i s) = free_sta_queue s"
  "asoc_sta_count (free_sta_lists i s) = asoc_sta_count s"
  "length (stas (free_sta_lists i s)) = length (stas s)"
  "j \<noteq> i \<Longrightarrow> stas (free_sta_lists i s) ! j = stas s ! j"
  "asoc_list (free_sta_lists i s) = filter (\<lambda>j. j \<noteq> i) (asoc_list s)"
  "asoc_list_cnt (free_sta_lists i s) = asoc_list_cnt s - (if i \<in> set (asoc_list s) then 1 else 0)"
  "auth_list (free_sta_lists i s) = filter (\<lambda>j. j \<noteq> i) (auth_list s)"
  "auth_list_cnt (free_sta_lists i s) = auth_list_cnt s - (if i \<in> set (auth_list s) then 1 else 0)"
proof -
  have "filter (\<lambda>j. j \<noteq> i) xs = xs" if "i \<notin> set xs" for xs using that by (auto simp: filter_id_conv)
  then show "asoc_list (free_sta_lists i s) = filter (\<lambda>j. j \<noteq> i) (asoc_list s)"
    "auth_list (free_sta_lists i s) = filter (\<lambda>j. j \<noteq> i) (auth_list s)"
    by (simp_all add: free_sta_lists_def Let_def rtw_stapriv_asoc_list_del_def)
qed (simp_all add: free_sta_lists_def Let_def rtw_stapriv_asoc_list_del_def)

lemma free_stainfo_fields:
  "sta_hash (rtw_free_stainfo s i) = map (filter (\<lambda>j. j \<noteq> i)) (sta_hash s)"
  "free_sta_queue (rtw_free_stainfo s i) = free_sta_queue s @ [i]"
  "asoc_sta_count (rtw_free_stainfo s i) = asoc_sta_count s - 1"
  "asoc_list (rtw_free_stainfo s i) = filter (\<lambda>j. j \<noteq> i) (asoc_list s)"
  "asoc_list_cnt (rtw_free_stainfo s i) = asoc_list_cnt s - (if i \<in> set (asoc_list s) then 1 else 0)"
  "auth_list (rtw_free_stainfo s i) = filter (\<lambda>j. j \<noteq> i) (auth_list s)"
  "auth_list_cnt (rtw_free_stainfo s i) = auth_list_cnt s - (if i \<in> set (auth_list s) then 1 else 0)"
  "length (stas (rtw_free_stainfo s i)) = length (stas s)"
  "j \<noteq> i \<Longrightarrow> stas (rtw_free_stainfo s i) ! j = stas s ! j"
  by (simp_all add: rtw_free_stainfo_def Let_def hash_del_def)

section \<open>Every operation keeps the invariant\<close>

lemma concat_map_filter: "concat (map (filter P) xss) = filter P (concat xss)"
  by (simp add: filter_concat)

lemma filter_other: "i \<notin> set xs \<Longrightarrow> filter (\<lambda>j. j \<noteq> i) xs = xs"
  by (auto simp: filter_id_conv)

lemma length_filter_other: "distinct xs \<Longrightarrow> i \<in> set xs \<Longrightarrow> length xs = Suc (length (filter (\<lambda>j. j \<noteq> i) xs))"
  by (induction xs) (auto simp: filter_other)

lemma mset_filter_other: "distinct xs \<Longrightarrow> i \<in> set xs \<Longrightarrow> mset xs = add_mset i (mset (filter (\<lambda>j. j \<noteq> i) xs))"
  by (induction xs) (auto simp: filter_other simp del: mset_filter)

lemma list_cnt_filter:
  "distinct xs \<Longrightarrow> (of_nat (length xs) :: u8) - (if i \<in> set xs then 1 else 0) = of_nat (length (filter (\<lambda>j. j \<noteq> i) xs))"
  using length_filter_other [of xs i] by (simp add: filter_other)

lemma free_stainfo_wf:
  assumes wf: "sta_wf_limbo s L" and i: "i \<in> set (hashed s) \<union> set L"
  shows "sta_wf_limbo (rtw_free_stainfo s i) (filter (\<lambda>j. j \<noteq> i) L)"
proof -
  note parts = limbo_parts [OF wf]
  have h: "hashed (rtw_free_stainfo s i) = filter (\<lambda>j. j \<noteq> i) (hashed s)"
    by (simp add: hashed_def free_stainfo_fields concat_map_filter)
  have "i \<in> set (hashed s) \<and> i \<notin> set L \<or> i \<notin> set (hashed s) \<and> i \<in> set L" using i parts(6) by auto
  then have all: "mset (hashed s) + mset L = {#i#} + mset (filter (\<lambda>j. j \<noteq> i) (hashed s)) + mset (filter (\<lambda>j. j \<noteq> i) L)"
    and cnt: "length (hashed s) + length L = Suc (length (filter (\<lambda>j. j \<noteq> i) (hashed s)) + length (filter (\<lambda>j. j \<noteq> i) L))"
    using mset_filter_other [OF parts(2), of i] mset_filter_other [OF parts(3), of i]
      length_filter_other [OF parts(2), of i] length_filter_other [OF parts(3), of i] by (auto simp: filter_other simp del: mset_filter)
  have bucket: "unat (wifi_mac_hash (mac_addr (stas (rtw_free_stainfo s i) ! j))) = b"
    if "b < NUM_STA" "j \<in> set (filter (\<lambda>j. j \<noteq> i) (sta_hash s ! b))" for b j
    using wf that by (auto simp: sta_wf_limbo_def free_stainfo_fields)
  have "mset (free_sta_queue s) + (mset (hashed s) + mset L) = mset [0..<NUM_STA]"
    using wf by (simp add: sta_wf_limbo_def add.assoc)
  then have pool: "mset (free_sta_queue s @ [i]) + mset (filter (\<lambda>j. j \<noteq> i) (hashed s)) + mset (filter (\<lambda>j. j \<noteq> i) L) = mset [0..<NUM_STA]"
    unfolding all by (simp add: ac_simps del: mset_filter mset_upt)
  show ?thesis
    unfolding sta_wf_limbo_def h using wf pool bucket cnt list_cnt_filter [of "asoc_list s" i] list_cnt_filter [of "auth_list s" i]
    by (auto simp: free_stainfo_fields sta_wf_limbo_def simp del: mset_upt mset_filter)
qed

lemma free_stainfo_fold_wf:
  assumes "sta_wf_limbo s (L @ K)" "distinct L"
  shows "sta_wf_limbo (foldl rtw_free_stainfo s L) K"
  using assms
proof (induction L arbitrary: s)
  case (Cons i L)
  have "distinct ((i # L) @ K)" using limbo_parts(3) [OF Cons.prems(1)] by simp
  then have "filter (\<lambda>j. j \<noteq> i) ((i # L) @ K) = L @ K" by (auto simp: filter_other)
  then show ?case using free_stainfo_wf [OF Cons.prems(1), of i] Cons.IH Cons.prems(2) by simp
qed simp

lemma alloc_stainfo_Some:
  assumes "free_sta_queue s = i # rest"
  shows "rtw_alloc_stainfo s hwaddr = (Some i, s\<lparr>free_sta_queue := rest,
      sta_hash := (sta_hash s)[unat (wifi_mac_hash hwaddr) := sta_hash s ! unat (wifi_mac_hash hwaddr) @ [i]],
      asoc_sta_count := asoc_sta_count s + 1, stas := (stas s)[i := new_sta hwaddr]\<rparr>)"
  using assms mac_hash_bound [of hwaddr] by (simp add: rtw_alloc_stainfo_def Let_def)

lemma alloc_stainfo_wf:
  assumes wf: "sta_wf s"
  shows "sta_wf (snd (rtw_alloc_stainfo s hwaddr))"
proof (cases "free_sta_queue s")
  case Nil
  then show ?thesis using wf by (simp add: rtw_alloc_stainfo_def)
next
  case (Cons i rest)
  let ?b = "unat (wifi_mac_hash hwaddr)" and ?s = "snd (rtw_alloc_stainfo s hwaddr)"
  note parts = limbo_parts [OF wf [unfolded sta_wf_def]]
  have b: "?b < length (sta_hash s)" using wf mac_hash_bound by (simp add: sta_wf_def sta_wf_limbo_def)
  have h: "mset (hashed ?s) = mset (hashed s) + {#i#}"
    using mset_bucket_append [OF b, of i] by (simp add: alloc_stainfo_Some [OF Cons] hashed_def)
  then have len: "length (hashed ?s) = Suc (length (hashed s))" and set: "set (hashed ?s) = insert i (set (hashed s))"
    by (metis size_mset size_add_mset add_mset_add_single, metis set_mset_mset set_mset_add_mset_insert add_mset_add_single)
  have i: "i < NUM_STA" "i \<notin> set (hashed s)" using parts Cons by auto
  have "mac_addr (new_sta hwaddr) = hwaddr" by (simp add: new_sta_def)
  moreover have "i \<notin> set (sta_hash s ! b)" if "b < NUM_STA" for b
    using that i(2) wf by (auto simp: set_hashed sta_wf_def sta_wf_limbo_def)
  ultimately have bucket: "unat (wifi_mac_hash (mac_addr (stas ?s ! j))) = b"
    if "b < NUM_STA" "j \<in> set (sta_hash ?s ! b)" for b j
    using wf that i b by (auto simp: alloc_stainfo_Some [OF Cons] nth_list_update sta_wf_def sta_wf_limbo_def split: if_splits)
  show ?thesis
    using wf h len set bucket Cons unfolding sta_wf_def sta_wf_limbo_def
    by (auto simp: alloc_stainfo_Some [OF Cons] ac_simps simp del: mset_upt)
qed

lemma wf_same_table:
  assumes "sta_wf s" "length (stas s') = length (stas s)" "\<And>j. mac_addr (stas s' ! j) = mac_addr (stas s ! j)"
    "free_sta_queue s' = free_sta_queue s" "sta_hash s' = sta_hash s" "asoc_sta_count s' = asoc_sta_count s"
    "asoc_list s' = asoc_list s" "asoc_list_cnt s' = asoc_list_cnt s" "auth_list s' = auth_list s" "auth_list_cnt s' = auth_list_cnt s"
  shows "sta_wf s'"
  using assms by (simp add: sta_wf_def sta_wf_limbo_def hashed_def)

lemma upd_sta_mac: "mac_addr (f (stas s ! i)) = mac_addr (stas s ! i) \<Longrightarrow> mac_addr ((stas s)[i := f (stas s ! i)] ! j) = mac_addr (stas s ! j)"
  by (cases "i < length (stas s)"; cases "j = i") (simp_all add: list_update_beyond)

lemma free_all_wf:
  assumes wf: "sta_wf s"
  shows "sta_wf (rtw_free_all_stainfo s)"
proof (cases "asoc_sta_count s = 1")
  case False
  define bc where "bc = rtw_get_bcmc_stainfo s"
  define L where "L = filter (\<lambda>i. bc \<noteq> Some i) (hashed s)"
  define s' where "s' = s\<lparr>sta_hash := map (filter (\<lambda>i. bc = Some i)) (sta_hash s)\<rparr>"
  have h: "hashed s' = filter (\<lambda>i. bc = Some i) (hashed s)" by (simp add: s'_def hashed_def concat_map_filter)
  have split: "mset (hashed s) = mset (hashed s') + mset L" "length (hashed s) = length (hashed s') + length L"
    "set (hashed s) = set (hashed s') \<union> set L"
    unfolding h L_def using sum_length_filter_compl [of "\<lambda>i. bc = Some i" "hashed s"]
    by (auto simp: multiset_partition [symmetric])
  have "sta_wf_limbo s' (L @ [])"
    using wf split unfolding sta_wf_def sta_wf_limbo_def
    by (auto simp: s'_def ac_simps simp del: mset_upt)
  moreover have "distinct L" using limbo_parts(2) [OF wf [unfolded sta_wf_def]] by (simp add: L_def)
  ultimately have "sta_wf_limbo (foldl rtw_free_stainfo s' L) []" by (rule free_stainfo_fold_wf)
  then show ?thesis
    using False by (simp add: rtw_free_all_stainfo_def Let_def sta_wf_def s'_def L_def bc_def hashed_def)
qed (simp add: rtw_free_all_stainfo_def wf)

section \<open>Reachable tables\<close>

text \<open>
  The tables the driver can reach: from the initial one by the operations above, each with what its
  callers ensure, and by changes the rest of the driver makes to a station's other fields.
\<close>

definition auth_list_add :: "sta_priv \<Rightarrow> nat \<Rightarrow> sta_priv" where
  "auth_list_add s i = s\<lparr>auth_list := auth_list s @ [i], auth_list_cnt := auth_list_cnt s + 1\<rparr>"

inductive sta_reach :: "sta_priv \<Rightarrow> bool" where
  init: "rtw_init_sta_priv alloc macid_num max_ap_assoc_sta = Some s \<Longrightarrow> sta_reach s"
| alloc: "sta_reach s \<Longrightarrow> sta_reach (snd (rtw_alloc_stainfo s hwaddr))"
| bcmc: "sta_reach s \<Longrightarrow> sta_reach (rtw_init_bcmc_stainfo s)"
| free: "sta_reach s \<Longrightarrow> i \<in> set (hashed s) \<Longrightarrow> sta_reach (rtw_free_stainfo s i)"
| free_all: "sta_reach s \<Longrightarrow> sta_reach (rtw_free_all_stainfo s)"
| to_free: "sta_reach s \<Longrightarrow> sta_reach (snd (rtw_get_stainfo_to_free s hwaddr))"
| claim: "sta_reach s \<Longrightarrow> sta_reach (rtw_stainfo_claim_to_free s i)"
| asoc_add: "sta_reach s \<Longrightarrow> i \<in> set (hashed s) \<Longrightarrow> i \<notin> set (asoc_list s) \<Longrightarrow> sta_reach (rtw_stapriv_asoc_list_add s i)"
| asoc_del: "sta_reach s \<Longrightarrow> i \<in> set (asoc_list s) \<Longrightarrow> sta_reach (rtw_stapriv_asoc_list_del s i)"
| auth_add: "sta_reach s \<Longrightarrow> i \<in> set (hashed s) \<Longrightarrow> i \<notin> set (auth_list s) \<Longrightarrow> sta_reach (auth_list_add s i)"
| aid: "sta_reach s \<Longrightarrow> i \<in> set (hashed s) \<Longrightarrow> sta_reach (snd (rtw_aid_alloc s i))"
| other: "sta_reach s \<Longrightarrow> (\<And>x. mac_addr (f x) = mac_addr x) \<Longrightarrow> sta_reach (upd_sta i f s)"

lemma init_wf: "rtw_init_sta_priv alloc m n = Some s \<Longrightarrow> sta_wf s"
  by (auto simp: rtw_init_sta_priv_def Let_def sta_wf_def sta_wf_limbo_def hashed_def split: if_splits)

lemma get_stainfo_wf: "sta_wf s \<Longrightarrow> sta_wf (snd (get_stainfo s hwaddr to_free))"
  by (erule wf_same_table) (auto simp: get_stainfo_def Let_def upd_sta_mac split: option.splits)

lemma asoc_list_wf:
  assumes wf: "sta_wf s"
  shows "i \<in> set (hashed s) \<Longrightarrow> i \<notin> set (asoc_list s) \<Longrightarrow> sta_wf (rtw_stapriv_asoc_list_add s i)"
    "i \<in> set (hashed s) \<Longrightarrow> i \<notin> set (auth_list s) \<Longrightarrow> sta_wf (auth_list_add s i)"
    "i \<in> set (asoc_list s) \<Longrightarrow> sta_wf (rtw_stapriv_asoc_list_del s i)"
proof -
  show "i \<in> set (hashed s) \<Longrightarrow> i \<notin> set (asoc_list s) \<Longrightarrow> sta_wf (rtw_stapriv_asoc_list_add s i)"
    "i \<in> set (hashed s) \<Longrightarrow> i \<notin> set (auth_list s) \<Longrightarrow> sta_wf (auth_list_add s i)"
    using wf by (auto simp: sta_wf_def sta_wf_limbo_def hashed_def rtw_stapriv_asoc_list_add_def auth_list_add_def add.commute)
  show "i \<in> set (asoc_list s) \<Longrightarrow> sta_wf (rtw_stapriv_asoc_list_del s i)"
    using wf list_cnt_filter [of "asoc_list s" i]
    by (auto simp: sta_wf_def sta_wf_limbo_def hashed_def rtw_stapriv_asoc_list_del_def)
qed

lemma aid_alloc_wf: "sta_wf s \<Longrightarrow> sta_wf (snd (rtw_aid_alloc s i))"
  by (erule wf_same_table) (auto simp: rtw_aid_alloc_def Let_def upd_sta_mac split: prod.splits)

lemma reach_wf: "sta_reach s \<Longrightarrow> sta_wf s"
proof (induction rule: sta_reach.induct)
  case (free s i)
  then show ?case using free_stainfo_wf [of s "[]" i] by (simp add: sta_wf_def)
next
  case (claim s i)
  then show ?case by (intro wf_same_table [OF claim.IH]) (auto simp: rtw_stainfo_claim_to_free_def upd_sta_mac)
next
  case (other s f i)
  then show ?case by (intro wf_same_table [OF other.IH]) (auto simp: upd_sta_mac)
qed (auto intro: init_wf alloc_stainfo_wf free_all_wf get_stainfo_wf asoc_list_wf aid_alloc_wf
    simp: rtw_init_bcmc_stainfo_def rtw_get_stainfo_to_free_def)

section \<open>Looking up\<close>

text \<open>
  What the users of the table rely on: every address has the list of the entries under it, a new entry
  comes last, and deleting an entry takes it out of every list. The laws of a table of entries by address.
\<close>

locale address_table =
  fixes inv :: "'s \<Rightarrow> bool" and used :: "'s \<Rightarrow> 'i set" and entries :: "'s \<Rightarrow> 'a \<Rightarrow> 'i list"
    and put :: "'s \<Rightarrow> 'a \<Rightarrow> 'i option \<times> 's" and del :: "'s \<Rightarrow> 'i \<Rightarrow> 's"
  assumes put_inv: "inv s \<Longrightarrow> inv (snd (put s a))"
    and del_inv: "inv s \<Longrightarrow> i \<in> used s \<Longrightarrow> inv (del s i)"
    and entries_used: "inv s \<Longrightarrow> set (entries s a) \<subseteq> used s"
    and put_fresh: "inv s \<Longrightarrow> put s a = (Some i, t) \<Longrightarrow> i \<notin> used s \<and> used t = insert i (used s)"
    and put_entries: "inv s \<Longrightarrow> put s a = (Some i, t) \<Longrightarrow> entries t b = entries s b @ (if b = a then [i] else [])"
    and del_entries: "inv s \<Longrightarrow> i \<in> used s \<Longrightarrow> entries (del s i) b = filter (\<lambda>j. j \<noteq> i) (entries s b)"
begin

lemma put_found: "inv s \<Longrightarrow> put s a = (Some i, t) \<Longrightarrow> entries s a = [] \<Longrightarrow> entries t a = [i]"
  by (simp add: put_entries)

lemma put_del:
  assumes "inv s" "put s a = (Some i, t)"
  shows "entries (del t i) b = entries s b"
proof -
  have t: "inv t" "i \<in> used t" using put_inv [OF assms(1), of a] put_fresh [OF assms] assms(2) by auto
  have "i \<notin> set (entries s b)" using put_fresh [OF assms] entries_used [OF assms(1)] by blast
  then have "filter (\<lambda>j. j \<noteq> i) (entries s b) = entries s b" by (auto intro: filter_True)
  then show ?thesis by (simp add: del_entries [OF t] put_entries [OF assms])
qed

lemma del_gone: "inv s \<Longrightarrow> i \<in> used s \<Longrightarrow> i \<notin> set (entries (del s i) b)"
  by (simp add: del_entries)

end

definition sta_entries :: "sta_priv \<Rightarrow> bytes \<Rightarrow> nat list" where
  "sta_entries s addr = filter (\<lambda>i. mac_addr (stas s ! i) = addr) (sta_hash s ! unat (wifi_mac_hash addr))"

definition lookup_addr :: "bytes \<Rightarrow> bytes" where
  "lookup_addr hwaddr = (if hwaddr ! 0 AND 1 \<noteq> 0 then bcast_addr else hwaddr)"

lemma find_filter: "find P xs = (case filter P xs of [] \<Rightarrow> None | x # _ \<Rightarrow> Some x)"
  by (induction xs) auto

lemma get_stainfo_entries:
  "rtw_get_stainfo s hwaddr = (case sta_entries s (lookup_addr hwaddr) of [] \<Rightarrow> None | i # _ \<Rightarrow> Some i)"
  by (simp add: rtw_get_stainfo_def get_stainfo_def Let_def find_filter sta_entries_def lookup_addr_def)

lemma alloc_cases:
  assumes "rtw_alloc_stainfo s hwaddr = (Some i, t)"
  obtains rest where "free_sta_queue s = i # rest"
  using assms by (cases "free_sta_queue s") (auto simp: rtw_alloc_stainfo_def Let_def split: if_splits)

lemma alloc_fresh:
  assumes "sta_wf s" "rtw_alloc_stainfo s hwaddr = (Some i, t)"
  shows "i \<notin> set (hashed s) \<and> set (hashed t) = insert i (set (hashed s))"
proof -
  obtain rest where free: "free_sta_queue s = i # rest" by (rule alloc_cases [OF assms(2)])
  have b: "unat (wifi_mac_hash hwaddr) < length (sta_hash s)" using assms(1) mac_hash_bound by (simp add: sta_wf_def sta_wf_limbo_def)
  have t: "t = snd (rtw_alloc_stainfo s hwaddr)" using assms(2) by simp
  have "mset (hashed t) = mset (hashed s) + {#i#}"
    using mset_bucket_append [OF b, of i] by (simp add: t alloc_stainfo_Some [OF free] hashed_def)
  then have "set (hashed t) = insert i (set (hashed s))" by (metis set_mset_mset set_mset_add_mset_insert add_mset_add_single)
  then show ?thesis using limbo_parts(4) [OF assms(1) [unfolded sta_wf_def]] free by auto
qed

lemma alloc_entries:
  assumes wf: "sta_wf s" and al: "rtw_alloc_stainfo s hwaddr = (Some i, t)"
  shows "sta_entries t addr = sta_entries s addr @ (if addr = hwaddr then [i] else [])"
proof -
  obtain rest where free: "free_sta_queue s = i # rest" by (rule alloc_cases [OF al])
  have t: "t = snd (rtw_alloc_stainfo s hwaddr)" using al by simp
  have len: "length (sta_hash s) = NUM_STA" "i < length (stas s)"
    using wf limbo_parts(7) [OF wf [unfolded sta_wf_def]] free by (auto simp: sta_wf_def sta_wf_limbo_def)
  have "i \<notin> set (sta_hash s ! unat (wifi_mac_hash a))" for a
    using alloc_fresh [OF assms] mac_hash_bound len(1) by (auto simp: set_hashed)
  then have old: "filter (\<lambda>j. mac_addr ((stas s)[i := new_sta hwaddr] ! j) = addr) (sta_hash s ! unat (wifi_mac_hash addr)) = sta_entries s addr"
    unfolding sta_entries_def by (intro filter_cong refl) (metis nth_list_update_neq)
  have "stas t = (stas s)[i := new_sta hwaddr]" by (simp add: t alloc_stainfo_Some [OF free])
  moreover have "sta_hash t ! unat (wifi_mac_hash addr) =
      sta_hash s ! unat (wifi_mac_hash addr) @ (if unat (wifi_mac_hash addr) = unat (wifi_mac_hash hwaddr) then [i] else [])"
    using len(1) mac_hash_bound by (simp add: t alloc_stainfo_Some [OF free] nth_list_update_eq nth_list_update_neq)
  moreover have "mac_addr ((stas s)[i := new_sta hwaddr] ! i) = hwaddr" using len(2) by (simp add: new_sta_def)
  ultimately show ?thesis by (auto simp: sta_entries_def [of t] old)
qed

lemma free_entries:
  assumes wf: "sta_wf s"
  shows "sta_entries (rtw_free_stainfo s i) addr = filter (\<lambda>j. j \<noteq> i) (sta_entries s addr)"
proof -
  have "unat (wifi_mac_hash addr) < length (sta_hash s)" using wf mac_hash_bound by (simp add: sta_wf_def sta_wf_limbo_def)
  then have "sta_entries (rtw_free_stainfo s i) addr =
      filter (\<lambda>j. mac_addr (stas (rtw_free_stainfo s i) ! j) = addr \<and> j \<noteq> i) (sta_hash s ! unat (wifi_mac_hash addr))"
    by (simp add: sta_entries_def free_stainfo_fields conj_commute)
  also have "\<dots> = filter (\<lambda>j. mac_addr (stas s ! j) = addr \<and> j \<noteq> i) (sta_hash s ! unat (wifi_mac_hash addr))"
    by (rule filter_cong [OF refl]) (metis free_stainfo_fields)
  finally show ?thesis by (simp add: sta_entries_def conj_commute)
qed

interpretation sta: address_table sta_wf "\<lambda>s. set (hashed s)" sta_entries rtw_alloc_stainfo rtw_free_stainfo
proof unfold_locales
  fix s :: sta_priv and a
  assume wf: "sta_wf s"
  have "unat (wifi_mac_hash a) < length (sta_hash s)" using wf mac_hash_bound by (simp add: sta_wf_def sta_wf_limbo_def)
  then show "set (sta_entries s a) \<subseteq> set (hashed s)" by (auto simp: sta_entries_def set_hashed)
next
  fix s :: sta_priv and i
  assume "sta_wf s" "i \<in> set (hashed s)"
  then show "sta_wf (rtw_free_stainfo s i)" using free_stainfo_wf [of s "[]" i] by (simp add: sta_wf_def)
qed (auto simp: alloc_stainfo_wf alloc_entries free_entries dest: alloc_fresh)

lemma hash_fold_free: "sta_hash (foldl rtw_free_stainfo s L) = map (filter (\<lambda>j. j \<notin> set L)) (sta_hash s)"
proof (induction L arbitrary: s)
  case Nil
  have "filter (\<lambda>j. True) = (\<lambda>xs :: nat list. xs)" by (rule ext) simp
  then show ?case by simp
next
  case (Cons i L)
  then show ?case by (simp add: free_stainfo_fields conj_commute)
qed

lemma free_all_hashed:
  assumes "asoc_sta_count s \<noteq> 1"
  shows "hashed (rtw_free_all_stainfo s) = filter (\<lambda>i. rtw_get_bcmc_stainfo s = Some i) (hashed s)"
proof -
  have absorb: "(P \<and> (Q \<or> P)) = P" for P Q by blast
  show ?thesis
    using assms by (simp add: rtw_free_all_stainfo_def Let_def hashed_def hash_fold_free concat_map_filter [symmetric] o_def absorb)
qed

section \<open>No frame is lost\<close>

definition sta_xmit_frames :: "sta_info \<Rightarrow> nat multiset" where
  "sta_xmit_frames sta = mset (tx_queue sta @ sleep_q sta @ mgmt_sleep_q sta @ concat (ac_pending sta))"

definition sta_recv_frames :: "sta_info \<Rightarrow> nat multiset" where
  "sta_recv_frames sta = mset (concat (map ro_pending (recvreorder_ctrl sta)) @ defrag_q sta)"

definition xmit_frames :: "sta_priv \<Rightarrow> nat multiset" where
  "xmit_frames s = mset (free_xmit_frames s) + sum_list (map sta_xmit_frames (stas s))"

definition recv_frames :: "sta_priv \<Rightarrow> nat multiset" where
  "recv_frames s = mset (free_recv_queue s) + sum_list (map sta_recv_frames (stas s))"

lemma sum_list_update_mset:
  "i < length xs \<Longrightarrow> sum_list (map f (xs[i := x])) + f (xs ! i) = sum_list (map f xs) + (f x :: 'a multiset)"
  by (induction xs arbitrary: i) (auto simp: nth_Cons' list_update_code add.assoc add.left_commute split: nat.splits)

lemma sum_list_update_same: "g x = g (xs ! i) \<Longrightarrow> sum_list (map g (xs[i := x])) = sum_list (map g xs)"
  by (cases "i < length xs") (simp_all add: map_update list_update_beyond, metis list_update_id nth_map)

lemma frames_upd:
  "stas s = stas t \<Longrightarrow> sta_xmit_frames x = sta_xmit_frames (stas t ! i) \<Longrightarrow> xmit_frames (s\<lparr>stas := (stas t)[i := x]\<rparr>) = xmit_frames s"
  "stas s = stas t \<Longrightarrow> sta_recv_frames x = sta_recv_frames (stas t ! i) \<Longrightarrow> recv_frames (s\<lparr>stas := (stas t)[i := x]\<rparr>) = recv_frames s"
  by (simp_all add: xmit_frames_def recv_frames_def sum_list_update_same)

lemma frames_free_sta_xmit:
  assumes "i < length (stas s)"
  shows "xmit_frames (free_sta_xmit i s) = xmit_frames s" "recv_frames (free_sta_xmit i s) = recv_frames s"
proof -
  let ?x = "(stas s ! i)\<lparr>tx_queue := [], sleep_q := [], sleepq_len := 0, mgmt_sleep_q := [], mgmt_sleepq_len := 0,
    ac_pending := replicate 5 [], ac_qcnt := replicate 5 0\<rparr>"
  have e: "sta_xmit_frames ?x = {#}" "sta_recv_frames ?x = sta_recv_frames (stas s ! i)"
    by (simp_all add: sta_xmit_frames_def sta_recv_frames_def eval_nat_numeral)
  show "xmit_frames (free_sta_xmit i s) = xmit_frames s"
    using sum_list_update_mset [OF assms, of sta_xmit_frames ?x] e(1)
    by (simp add: xmit_frames_def free_sta_xmit_def Let_def sta_xmit_frames_def ac_simps)
  show "recv_frames (free_sta_xmit i s) = recv_frames s"
    using sum_list_update_mset [OF assms, of sta_recv_frames ?x] e(2) by (simp add: recv_frames_def free_sta_xmit_def Let_def)
qed

lemma frames_free_sta_recv:
  assumes "i < length (stas s)"
  shows "xmit_frames (free_sta_recv i s) = xmit_frames s" "recv_frames (free_sta_recv i s) = recv_frames s"
proof -
  let ?x = "(stas s ! i)\<lparr>recvreorder_ctrl := map (\<lambda>r. r\<lparr>ro_pending := []\<rparr>) (recvreorder_ctrl (stas s ! i)), defrag_q := []\<rparr>"
  have "concat (map (\<lambda>r. []) rs) = []" for rs :: "recv_reorder_ctrl list" by (induction rs) simp_all
  then have e: "sta_recv_frames ?x = {#}" "sta_xmit_frames ?x = sta_xmit_frames (stas s ! i)"
    by (simp_all add: sta_xmit_frames_def sta_recv_frames_def o_def)
  show "recv_frames (free_sta_recv i s) = recv_frames s"
    using sum_list_update_mset [OF assms, of sta_recv_frames ?x] e(1)
    by (simp add: recv_frames_def free_sta_recv_def Let_def sta_recv_frames_def ac_simps)
  show "xmit_frames (free_sta_recv i s) = xmit_frames s"
    using sum_list_update_mset [OF assms, of sta_xmit_frames ?x] e(2) by (simp add: xmit_frames_def free_sta_recv_def Let_def)
qed

lemma frames_simple [simp]:
  "xmit_frames (hash_del i s) = xmit_frames s" "recv_frames (hash_del i s) = recv_frames s"
  "xmit_frames (s\<lparr>asoc_sta_count := c\<rparr>) = xmit_frames s" "recv_frames (s\<lparr>asoc_sta_count := c\<rparr>) = recv_frames s"
  "xmit_frames (s\<lparr>free_sta_queue := q\<rparr>) = xmit_frames s" "recv_frames (s\<lparr>free_sta_queue := q\<rparr>) = recv_frames s"
  "xmit_frames (free_sta_lists i s) = xmit_frames s" "recv_frames (free_sta_lists i s) = recv_frames s"
  "stas (free_sta_lists i s) = stas s" "stas (hash_del i s) = stas s"
  by (simp_all add: xmit_frames_def recv_frames_def hash_del_def free_sta_lists_def Let_def rtw_stapriv_asoc_list_del_def)

lemma frames_free_sta_aid:
  assumes "i < length (stas s)"
  shows "xmit_frames (free_sta_aid i s) = xmit_frames s" "recv_frames (free_sta_aid i s) = recv_frames s"
  using sum_list_update_mset [OF assms, of sta_xmit_frames "(stas s ! i)\<lparr>sta_aid_no := 0\<rparr>"]
    sum_list_update_mset [OF assms, of sta_recv_frames "(stas s ! i)\<lparr>sta_aid_no := 0\<rparr>"]
  by (simp_all add: xmit_frames_def recv_frames_def free_sta_aid_def Let_def sta_xmit_frames_def sta_recv_frames_def)

lemma frames_free_stainfo:
  assumes "i < length (stas s)"
  shows "xmit_frames (rtw_free_stainfo s i) = xmit_frames s" "recv_frames (rtw_free_stainfo s i) = recv_frames s"
proof -
  have same: "sta_xmit_frames (x\<lparr>sta_state := v\<rparr>) = sta_xmit_frames x" "sta_recv_frames (x\<lparr>sta_state := v\<rparr>) = sta_recv_frames x"
    "sta_xmit_frames (x\<lparr>sta_expire_to := e, sleepq_ac_len := l, qos_info := q, max_sp_len := m,
       uapsd_bk := u1, uapsd_be := u2, uapsd_vi := u3, uapsd_vo := u4, has_legacy_ac := False\<rparr>) = sta_xmit_frames x"
    "sta_recv_frames (x\<lparr>sta_expire_to := e, sleepq_ac_len := l, qos_info := q, max_sp_len := m,
       uapsd_bk := u1, uapsd_be := u2, uapsd_vi := u3, uapsd_vo := u4, has_legacy_ac := False\<rparr>) = sta_recv_frames x"
    "sta_xmit_frames (x\<lparr>is_freeing := b\<rparr>) = sta_xmit_frames x" "sta_recv_frames (x\<lparr>is_freeing := b\<rparr>) = sta_recv_frames x" for x v b e l q m u1 u2 u3 u4
    by (simp_all add: sta_xmit_frames_def sta_recv_frames_def)
  show "xmit_frames (rtw_free_stainfo s i) = xmit_frames s" "recv_frames (rtw_free_stainfo s i) = recv_frames s"
    unfolding rtw_free_stainfo_def Let_def using assms
    by (simp_all add: free_sta_ps_def frames_upd frames_free_sta_aid frames_free_sta_recv frames_free_sta_xmit same)
qed

section \<open>Association identifiers\<close>

definition aid_slot :: "sta_priv \<Rightarrow> nat \<Rightarrow> nat" where
  "aid_slot s k = (k + started_aid s - 1) mod max_aid s"

lemma aid_search_first:
  assumes "sta_aid s ! aid_slot s k = None" "i \<le> k" "k < i + n"
    "\<And>j. i \<le> j \<Longrightarrow> j < k \<Longrightarrow> sta_aid s ! aid_slot s j \<noteq> None" "u + (k - i) < max_num_sta s"
  shows "aid_search s i n u a = (k, u + (k - i), aid_slot s k + 1)"
  using assms
proof (induction n arbitrary: i u a)
  case (Suc n)
  show ?case
  proof (cases "i = k")
    case True
    then show ?thesis using Suc.prems(1) by (simp add: aid_slot_def Let_def)
  next
    case False
    then have "aid_search s (i + 1) n (u + 1) (aid_slot s i + 1) = (k, u + 1 + (k - (i + 1)), aid_slot s k + 1)"
      using Suc.prems by (intro Suc.IH) auto
    then show ?thesis using Suc.prems False by (auto simp: aid_slot_def Let_def)
  qed
qed simp

lemma aid_search_sound:
  assumes "aid_search s i n u a = (i', u', a')" "i' < i + n" "u' < max_num_sta s"
  shows "a' = aid_slot s i' + 1 \<and> sta_aid s ! (a' - 1) = None"
  using assms
proof (induction n arbitrary: i u a)
  case (Suc n)
  then show ?case by (auto simp: aid_slot_def Let_def split: if_splits)
qed simp

lemma aid_slot_onto:
  assumes "f < max_aid s" "1 \<le> started_aid s" "started_aid s \<le> max_aid s"
  obtains k where "k < max_aid s" "aid_slot s k = f"
proof (cases "started_aid s - 1 \<le> f")
  case True
  then show ?thesis using that [of "f - (started_aid s - 1)"] assms by (simp add: aid_slot_def)
next
  case False
  let ?k = "f + max_aid s - (started_aid s - 1)"
  have "?k + started_aid s - 1 = f + max_aid s" using False assms by simp
  then show ?thesis using that [of ?k] False assms by (simp add: aid_slot_def)
qed

lemma aid_alloc_sound:
  assumes al: "rtw_aid_alloc s sta = (aid, s')" and len: "length (sta_aid s) = max_aid s"
  shows "aid \<noteq> 0 \<Longrightarrow> aid \<le> max_aid s \<and> sta_aid s ! (aid - 1) = None \<and> sta_aid s' = (sta_aid s)[aid - 1 := Some sta]"
    "aid = 0 \<Longrightarrow> sta_aid s' = sta_aid s"
proof -
  obtain i u a where sr: "aid_search s 0 (max_aid s) 0 0 = (i, u, a)" by (metis prod_cases3)
  have aid: "aid = (if max_aid s \<le> i \<or> max_num_sta s \<le> u then 0 else a)"
    using al sr by (simp add: rtw_aid_alloc_def Let_def)
  show "aid = 0 \<Longrightarrow> sta_aid s' = sta_aid s" using al sr by (auto simp: rtw_aid_alloc_def Let_def split: if_splits)
  assume nz: "aid \<noteq> 0"
  then have lt: "i < 0 + max_aid s" "u < max_num_sta s" and a: "aid = a" using aid by (auto split: if_splits)
  from aid_search_sound [OF sr lt] have f: "a = aid_slot s i + 1" "sta_aid s ! (a - 1) = None" by auto
  have "0 < max_aid s" using lt(1) by simp
  then have "aid_slot s i < max_aid s" by (simp add: aid_slot_def)
  moreover have "sta_aid s' = (sta_aid s)[aid - 1 := Some sta]"
    using al sr nz by (auto simp: rtw_aid_alloc_def Let_def split: if_splits)
  ultimately show "aid \<le> max_aid s \<and> sta_aid s ! (aid - 1) = None \<and> sta_aid s' = (sta_aid s)[aid - 1 := Some sta]"
    using f a by simp
qed

lemma aid_alloc_complete:
  assumes start: "1 \<le> started_aid s" "started_aid s \<le> max_aid s" and f: "f < max_aid s" "sta_aid s ! f = None"
    and lim: "max_aid s \<le> max_num_sta s"
  shows "fst (rtw_aid_alloc s sta) \<noteq> 0"
proof -
  obtain k0 where k0: "k0 < max_aid s" "aid_slot s k0 = f" by (rule aid_slot_onto [OF f(1) start])
  define k where "k = (LEAST k. sta_aid s ! aid_slot s k = None)"
  have k: "sta_aid s ! aid_slot s k = None" "k \<le> k0" "\<And>j. j < k \<Longrightarrow> sta_aid s ! aid_slot s j \<noteq> None"
    unfolding k_def using k0 f(2) LeastI [of "\<lambda>k. sta_aid s ! aid_slot s k = None" k0]
      Least_le [of "\<lambda>k. sta_aid s ! aid_slot s k = None" k0] not_less_Least by auto
  have "aid_search s 0 (max_aid s) 0 0 = (k, 0 + (k - 0), aid_slot s k + 1)"
    using k k0 lim by (intro aid_search_first) auto
  then show ?thesis using k k0 lim by (simp add: rtw_aid_alloc_def Let_def)
qed

section \<open>The table's properties\<close>

lemma frames_fold_free:
  assumes "set L \<subseteq> {..<length (stas s)}"
  shows "xmit_frames (foldl rtw_free_stainfo s L) = xmit_frames s \<and> recv_frames (foldl rtw_free_stainfo s L) = recv_frames s"
  using assms
proof (induction L arbitrary: s)
  case (Cons i L)
  then show ?case using frames_free_stainfo [of i s] by (simp add: free_stainfo_fields)
qed simp

lemma frames_free_all:
  assumes "sta_wf s"
  shows "xmit_frames (rtw_free_all_stainfo s) = xmit_frames s \<and> recv_frames (rtw_free_all_stainfo s) = recv_frames s"
proof -
  have "set (hashed s) \<subseteq> {..<length (stas s)}"
    using assms limbo_parts(7) [OF assms [unfolded sta_wf_def]] by (auto simp: sta_wf_def sta_wf_limbo_def)
  then have "set (filter P (concat (sta_hash s))) \<subseteq> {..<length (stas (s\<lparr>sta_hash := h\<rparr>))}" for P h by (auto simp: hashed_def)
  note f = frames_fold_free [OF this]
  have "xmit_frames (s\<lparr>sta_hash := h\<rparr>) = xmit_frames s \<and> recv_frames (s\<lparr>sta_hash := h\<rparr>) = recv_frames s" for h
    by (simp add: xmit_frames_def recv_frames_def)
  then show ?thesis using f by (simp add: rtw_free_all_stainfo_def Let_def)
qed

lemma alloc_None_iff:
  assumes "sta_wf s"
  shows "fst (rtw_alloc_stainfo s hwaddr) = None \<longleftrightarrow> length (hashed s) = NUM_STA"
proof -
  have "mset (free_sta_queue s @ hashed s) = mset [0..<NUM_STA]" using assms by (simp add: sta_wf_def sta_wf_limbo_def)
  then have "length (free_sta_queue s @ hashed s) = length [0..<NUM_STA]" by (metis size_mset)
  then have "free_sta_queue s = [] \<longleftrightarrow> length (hashed s) = NUM_STA" by auto
  moreover have "fst (rtw_alloc_stainfo s hwaddr) = None \<longleftrightarrow> free_sta_queue s = []"
  proof (cases "free_sta_queue s")
    case (Cons i rest)
    then show ?thesis by (simp add: alloc_stainfo_Some [OF Cons])
  qed (simp add: rtw_alloc_stainfo_def)
  ultimately show ?thesis by simp
qed

text \<open>
  C29. The station table stays consistent in every history: whatever sequence of allocations, frees,
  list updates and identifier assignments leads to a table, every entry of the pool is in exactly one
  place (free or hashed), sits in the bucket of its address, the counters of stations in use, of
  associated and of authenticating stations agree with the lists, and those lists only hold stations
  in use.
\<close>

theorem station_table_invariant:
  assumes "sta_reach s"
  shows "mset (free_sta_queue s) + mset (concat (sta_hash s)) = mset [0..<NUM_STA] \<and>
    (\<forall>b < NUM_STA. \<forall>i \<in> set (sta_hash s ! b). unat (wifi_mac_hash (mac_addr (stas s ! i))) = b) \<and>
    asoc_sta_count s = int (length (concat (sta_hash s))) \<and>
    distinct (asoc_list s) \<and> set (asoc_list s) \<subseteq> set (concat (sta_hash s)) \<and>
    asoc_list_cnt s = of_nat (length (asoc_list s)) \<and>
    distinct (auth_list s) \<and> set (auth_list s) \<subseteq> set (concat (sta_hash s)) \<and>
    auth_list_cnt s = of_nat (length (auth_list s))"
  using reach_wf [OF assms] by (simp add: sta_wf_def sta_wf_limbo_def hashed_def del: mset_upt)

definition example_table :: sta_priv where
  "example_table = the (rtw_init_sta_priv (\<lambda>_. True) 16 4)"

definition example_mac :: bytes where
  "example_mac = [2, 0x11, 0x22, 0x33, 0x44, 0x55]"

definition example_alloc :: "nat option \<times> sta_priv" where
  "example_alloc = rtw_alloc_stainfo example_table example_mac"

lemma example_reach: "sta_reach example_table" "sta_reach (snd example_alloc)"
proof -
  have "rtw_init_sta_priv (\<lambda>_. True) 16 4 = Some example_table" by (simp add: example_table_def rtw_init_sta_priv_def Let_def)
  then show "sta_reach example_table" by (rule sta_reach.init)
  then show "sta_reach (snd example_alloc)" unfolding example_alloc_def by (rule sta_reach.alloc)
qed

lemma example_alloc_eq: "example_alloc = (Some 0, snd example_alloc)"
proof -
  have "free_sta_queue example_table = 0 # [1..<NUM_STA]"
    by (simp add: example_table_def rtw_init_sta_priv_def Let_def NUM_STA_def upt_rec)
  from alloc_stainfo_Some [OF this, of example_mac] show ?thesis by (simp add: example_alloc_def)
qed

theorem station_table_invariant_witness:
  "asoc_sta_count (snd example_alloc) = int (length (concat (sta_hash (snd example_alloc))))"
  using station_table_invariant [OF example_reach(2)] by simp

lemma lookup_facts:
  assumes "sta_reach s"
  shows "fst (rtw_alloc_stainfo s hwaddr) = None \<longleftrightarrow> length (concat (sta_hash s)) = NUM_STA"
    and "rtw_alloc_stainfo s hwaddr = (Some i, t) \<Longrightarrow> hwaddr ! 0 AND 1 = 0 \<Longrightarrow> rtw_get_stainfo s hwaddr = None \<Longrightarrow>
      rtw_get_stainfo t hwaddr = Some i"
    and "rtw_alloc_stainfo s hwaddr = (Some i, t) \<Longrightarrow> hwaddr ! 0 AND 1 = 0 \<Longrightarrow> other \<noteq> hwaddr \<Longrightarrow>
      rtw_get_stainfo t other = rtw_get_stainfo s other"
    and "rtw_alloc_stainfo s hwaddr = (Some i, t) \<Longrightarrow> rtw_get_stainfo (rtw_free_stainfo t i) other = rtw_get_stainfo s other"
    and "i \<in> set (concat (sta_hash s)) \<Longrightarrow> rtw_get_stainfo (rtw_free_stainfo s i) other \<noteq> Some i"
proof -
  note wf = reach_wf [OF assms]
  have bc: "bcast_addr ! 0 AND 1 \<noteq> 0" by (simp add: bcast_addr_def)
  show "fst (rtw_alloc_stainfo s hwaddr) = None \<longleftrightarrow> length (concat (sta_hash s)) = NUM_STA"
    using alloc_None_iff [OF wf] by (simp add: hashed_def)
  show "rtw_get_stainfo t hwaddr = Some i"
    if "rtw_alloc_stainfo s hwaddr = (Some i, t)" "hwaddr ! 0 AND 1 = 0" "rtw_get_stainfo s hwaddr = None"
    using that sta.put_found [OF wf that(1)] by (auto simp: get_stainfo_entries lookup_addr_def split: list.splits)
  show "rtw_get_stainfo t other = rtw_get_stainfo s other"
    if "rtw_alloc_stainfo s hwaddr = (Some i, t)" "hwaddr ! 0 AND 1 = 0" "other \<noteq> hwaddr"
    using that bc by (auto simp: get_stainfo_entries sta.put_entries [OF wf that(1)] lookup_addr_def)
  show "rtw_get_stainfo (rtw_free_stainfo t i) other = rtw_get_stainfo s other" if "rtw_alloc_stainfo s hwaddr = (Some i, t)"
    by (simp add: get_stainfo_entries sta.put_del [OF wf that])
  show "rtw_get_stainfo (rtw_free_stainfo s i) other \<noteq> Some i" if "i \<in> set (concat (sta_hash s))"
    using sta.del_gone [OF wf, of i "lookup_addr other"] that by (auto simp: get_stainfo_entries hashed_def split: list.splits)
qed

text \<open>
  C30. Looking stations up. Allocating an entry fails exactly when all \<open>NUM_STA\<close> entries are in use. An entry
  allocated for a unicast address that had none is what a lookup of that address then returns, every
  lookup of another address is unaffected, and freeing the entry again makes every lookup what it was
  before. A freed station is never found again.
\<close>

theorem station_lookup:
  assumes "sta_reach s"
  shows "(fst (rtw_alloc_stainfo s hwaddr) = None \<longleftrightarrow> length (concat (sta_hash s)) = NUM_STA) \<and>
    (\<forall>i t. rtw_alloc_stainfo s hwaddr = (Some i, t) \<longrightarrow>
      (hwaddr ! 0 AND 1 = 0 \<longrightarrow>
        (rtw_get_stainfo s hwaddr = None \<longrightarrow> rtw_get_stainfo t hwaddr = Some i) \<and>
        (\<forall>other. other \<noteq> hwaddr \<longrightarrow> rtw_get_stainfo t other = rtw_get_stainfo s other)) \<and>
      (\<forall>other. rtw_get_stainfo (rtw_free_stainfo t i) other = rtw_get_stainfo s other)) \<and>
    (\<forall>i other. i \<in> set (concat (sta_hash s)) \<longrightarrow> rtw_get_stainfo (rtw_free_stainfo s i) other \<noteq> Some i)"
  by (intro conjI allI impI) (erule lookup_facts [OF assms] | rule lookup_facts [OF assms] | assumption)+

theorem station_lookup_witness:
  "rtw_get_stainfo (rtw_free_stainfo (snd example_alloc) 0) example_mac = rtw_get_stainfo example_table example_mac"
  using station_lookup [OF example_reach(1), of example_mac] example_alloc_eq unfolding example_alloc_def by blast

text \<open>
  Freeing stations loses nothing: the transmit frames a station had queued or buffered for its sleep
  return to the transmit pool and the frames it was reordering or reassembling to the receive pool, so
  that both pools together with all the stations hold the same frames as before, for one station and for
  all of them. Unless the table says only one station is in use, freeing all of them keeps exactly the
  broadcast station.
\<close>

lemma freeing_stations_keeps_frames:
  assumes "sta_reach s"
  shows "(\<forall>i \<in> set (concat (sta_hash s)). xmit_frames (rtw_free_stainfo s i) = xmit_frames s \<and> recv_frames (rtw_free_stainfo s i) = recv_frames s) \<and>
    xmit_frames (rtw_free_all_stainfo s) = xmit_frames s \<and> recv_frames (rtw_free_all_stainfo s) = recv_frames s \<and>
    (asoc_sta_count s \<noteq> 1 \<longrightarrow>
      concat (sta_hash (rtw_free_all_stainfo s)) = filter (\<lambda>i. rtw_get_bcmc_stainfo s = Some i) (concat (sta_hash s)))"
proof -
  note wf = reach_wf [OF assms]
  have "xmit_frames (rtw_free_stainfo s i) = xmit_frames s \<and> recv_frames (rtw_free_stainfo s i) = recv_frames s" if "i \<in> set (hashed s)" for i
    using limbo_parts(7) [OF wf [unfolded sta_wf_def]] wf that frames_free_stainfo [of i s] by (auto simp: sta_wf_def sta_wf_limbo_def)
  then show ?thesis using frames_free_all [OF wf] free_all_hashed [of s] unfolding hashed_def by blast
qed

lemma freeing_stations_keeps_frames_witness:
  "xmit_frames (rtw_free_all_stainfo (snd example_alloc)) = xmit_frames (snd example_alloc)"
  using freeing_stations_keeps_frames [OF example_reach(2)] by simp

lemma aid_facts:
  assumes "rtw_aid_alloc s sta = (aid, t)" and "length (sta_aid s) = max_aid s"
    and "1 \<le> started_aid s" and "started_aid s \<le> max_aid s"
  shows "aid \<noteq> 0 \<Longrightarrow> aid \<le> max_aid s \<and> sta_aid s ! (aid - 1) = None \<and> sta_aid t = (sta_aid s)[aid - 1 := Some sta]"
    and "aid = 0 \<Longrightarrow> sta_aid t = sta_aid s"
    and "1 \<le> started_aid t \<and> started_aid t \<le> max_aid t"
    and "max_aid s \<le> max_num_sta s \<Longrightarrow> None \<in> set (sta_aid s) \<Longrightarrow> aid \<noteq> 0"
proof -
  show "1 \<le> started_aid t \<and> started_aid t \<le> max_aid t"
    using assms(1,3,4) by (auto simp: rtw_aid_alloc_def Let_def Suc_le_eq split: prod.splits if_splits)
  show "aid \<noteq> 0" if lim: "max_aid s \<le> max_num_sta s" and none: "None \<in> set (sta_aid s)"
  proof -
    obtain f where "f < max_aid s" "sta_aid s ! f = None" using none assms(2) by (metis in_set_conv_nth)
    from aid_alloc_complete [OF assms(3,4) this lim] show ?thesis using assms(1) by (metis fst_conv)
  qed
qed (use aid_alloc_sound [OF assms(1,2)] in auto)

text \<open>
  Association identifiers. A station is only given an identifier that is free and at most the largest
  one, the identifier is then recorded as its own and no other identifier changes; 0 means none was
  given and leaves the table of identifiers alone. Whenever an identifier is free and the configured
  number of stations is not below the number of identifiers, one is given, wherever the search starts.
\<close>

lemma aid_allocation:
  assumes "rtw_aid_alloc s sta = (aid, t)" and "length (sta_aid s) = max_aid s"
    and "1 \<le> started_aid s" and "started_aid s \<le> max_aid s"
  shows "(aid \<noteq> 0 \<longrightarrow> aid \<le> max_aid s \<and> sta_aid s ! (aid - 1) = None \<and> sta_aid t = (sta_aid s)[aid - 1 := Some sta]) \<and>
    (aid = 0 \<longrightarrow> sta_aid t = sta_aid s) \<and> 1 \<le> started_aid t \<and> started_aid t \<le> max_aid t \<and>
    (max_aid s \<le> max_num_sta s \<longrightarrow> None \<in> set (sta_aid s) \<longrightarrow> aid \<noteq> 0)"
  using aid_facts [OF assms] by blast

lemma aid_allocation_witness:
  "rtw_aid_alloc example_table 0 = (1, snd (rtw_aid_alloc example_table 0)) \<and> sta_aid (snd (rtw_aid_alloc example_table 0)) = (sta_aid example_table)[0 := Some 0]"
proof -
  have e: "length (sta_aid example_table) = max_aid example_table" "started_aid example_table = 1" "max_aid example_table = 4"
    "max_num_sta example_table = 4" "sta_aid example_table ! 0 = None"
    by (simp_all add: example_table_def rtw_init_sta_priv_def Let_def NUM_STA_def)
  have "aid_search example_table 0 (Suc 3) 0 0 = (0, 0, 1)" using e by (simp only: aid_search.simps) (simp add: Let_def)
  then have "fst (rtw_aid_alloc example_table 0) = 1" using e by (simp add: rtw_aid_alloc_def Let_def)
  then have r: "rtw_aid_alloc example_table 0 = (1, snd (rtw_aid_alloc example_table 0))" by (metis prod.collapse)
  then show ?thesis using aid_allocation [OF r] e by simp
qed

end
