(* ===== verification/Arcfour.thy ===== *)
theory Arcfour
  imports Prelude
begin

unbundle bit_operations_syntax

text \<open>
  The RC4 stream cipher of \<^verbatim>\<open>core/rtw_security.c\<close> (\<^verbatim>\<open>arcfour_init\<close>,
  \<^verbatim>\<open>arcfour_byte\<close>, \<^verbatim>\<open>arcfour_encrypt\<close>), which WEP and TKIP share.

  The code keeps the permutation in a 256-byte array and its two counters in 32-bit integers
  masked with \<open>0xff\<close>. The reference is RC4 over the ring of 8-bit integers: the permutation is a
  function from bytes to bytes, the counters are bytes and addition wraps. The refinement reads
  the array as that function.
\<close>

section \<open>The code\<close>

record arc4context =
  arc4_x :: u32
  arc4_y :: u32
  arc4_state :: bytes

text \<open>
  One turn of the key-scheduling loop, on the array, \<^verbatim>\<open>keyindex\<close> and \<^verbatim>\<open>stateindex\<close>. The
  additions are made in \<^verbatim>\<open>u32\<close>; the key index never exceeds the length of the key.
\<close>

definition arcfour_init_step ::
  "bytes \<Rightarrow> nat \<Rightarrow> nat \<Rightarrow> bytes \<times> nat \<times> u32 \<Rightarrow> bytes \<times> nat \<times> u32" where
  "arcfour_init_step key key_len counter s =
     (case s of (state, keyindex, stateindex) \<Rightarrow>
        let t = (ucast (state ! counter) :: u32);
            stateindex = (stateindex + ucast (key ! keyindex) + t) AND 0xff;
            u = (ucast (state ! unat stateindex) :: u32);
            state = state[unat stateindex := ucast t];
            state = state[counter := ucast u];
            keyindex = keyindex + 1
        in (state, if key_len \<le> keyindex then 0 else keyindex, stateindex))"

definition arcfour_init :: "bytes \<Rightarrow> nat \<Rightarrow> arc4context" where
  "arcfour_init key key_len =
     (case fold (arcfour_init_step key key_len) [0..<256] (map of_nat [0..<256], 0, 0) of
        (state, keyindex, stateindex) \<Rightarrow> \<lparr>arc4_x = 0, arc4_y = 0, arc4_state = state\<rparr>)"

definition arcfour_byte :: "arc4context \<Rightarrow> u32 \<times> arc4context" where
  "arcfour_byte ctx =
     (let state = arc4_state ctx;
          x = (arc4_x ctx + 1) AND 0xff;
          sx = (ucast (state ! unat x) :: u32);
          y = (sx + arc4_y ctx) AND 0xff;
          sy = (ucast (state ! unat y) :: u32);
          state = state[unat y := ucast sx];
          state = state[unat x := ucast sy]
      in (ucast (state ! unat ((sx + sy) AND 0xff)),
          \<lparr>arc4_x = x, arc4_y = y, arc4_state = state\<rparr>))"

primrec arcfour_encrypt :: "arc4context \<Rightarrow> bytes \<Rightarrow> bytes \<times> arc4context" where
  "arcfour_encrypt ctx [] = ([], ctx)"
| "arcfour_encrypt ctx (b # src) =
     (let (k, ctx) = arcfour_byte ctx; (dest, ctx) = arcfour_encrypt ctx src
      in ((b XOR ucast k) # dest, ctx))"

declare arcfour_encrypt.simps(2) [simp del]

section \<open>RC4 over the bytes\<close>

type_synonym rc4_state = "u8 \<times> u8 \<times> (u8 \<Rightarrow> u8)"

definition swap_fun :: "('a \<Rightarrow> 'b) \<Rightarrow> 'a \<Rightarrow> 'a \<Rightarrow> 'a \<Rightarrow> 'b" where
  "swap_fun S i j = S(j := S i, i := S j)"

definition rc4_next :: "rc4_state \<Rightarrow> u8 \<times> rc4_state" where
  "rc4_next s =
     (case s of (i, j, S) \<Rightarrow>
        let i' = i + 1; j' = j + S i'; S' = swap_fun S i' j'
        in (S' (S i' + S j'), (i', j', S')))"

primrec rc4_stream :: "nat \<Rightarrow> rc4_state \<Rightarrow> bytes" where
  "rc4_stream 0 s = []"
| "rc4_stream (Suc n) s = fst (rc4_next s) # rc4_stream n (snd (rc4_next s))"

definition rc4_schedule_step :: "bytes \<Rightarrow> nat \<Rightarrow> u8 \<times> (u8 \<Rightarrow> u8) \<Rightarrow> u8 \<times> (u8 \<Rightarrow> u8)" where
  "rc4_schedule_step key i s =
     (case s of (j, S) \<Rightarrow>
        let j' = j + S (of_nat i) + key ! (i mod length key)
        in (j', swap_fun S (of_nat i) j'))"

definition rc4_schedule :: "bytes \<Rightarrow> u8 \<Rightarrow> u8" where
  "rc4_schedule key = snd (fold (rc4_schedule_step key) [0..<256] (0, \<lambda>i. i))"

definition arc4_valid :: "arc4context \<Rightarrow> bool" where
  "arc4_valid ctx \<longleftrightarrow> length (arc4_state ctx) = 256 \<and> distinct (arc4_state ctx) \<and>
     arc4_x ctx < 256 \<and> arc4_y ctx < 256"

definition table_fun :: "bytes \<Rightarrow> u8 \<Rightarrow> u8" where
  "table_fun st i = st ! unat i"

definition arc4_abs :: "arc4context \<Rightarrow> rc4_state" where
  "arc4_abs ctx = (ucast (arc4_x ctx), ucast (arc4_y ctx), table_fun (arc4_state ctx))"

section \<open>Index arithmetic\<close>

lemma unat_and_0xff_u32: "unat (w AND 0xff :: u32) = unat (ucast w :: u8)"
  by (simp add: and_0xff unsigned_ucast_eq unsigned_take_bit_eq)

lemma unat_byte_less_256 [simp]: "unat (w :: u8) < 256"
  using unsigned_less [of w] by simp

lemma and_0xff_lt_256 [simp]: "(w AND 0xff :: u32) < 256"
  by (simp add: word_less_nat_alt unat_and_0xff_u32)

lemma ucast_and_0xff [simp]: "(ucast (w AND 0xff :: u32) :: u8) = ucast w"
  by (rule word_eqI_bits) (auto simp: word_bits)

lemma ucast_u8_u32_u8 [simp]: "(ucast (ucast (b :: u8) :: u32) :: u8) = b"
  by (rule word_eqI_bits) (auto simp: word_bits)

lemma ucast_plus_u8 [simp]: "(ucast (a + b :: u32) :: u8) = ucast a + ucast b"
  by (simp add: word_unat_eq_iff unsigned_ucast_eq unat_word_ariths take_bit_eq_mod mod_mod_cancel
      mod_add_eq)

lemma table_fun_update [simp]:
  "length st = 256 \<Longrightarrow> table_fun (st[unat i := v]) = (table_fun st)(i := v)"
  by (auto simp: table_fun_def fun_eq_iff nth_list_update word_unat_eq_iff)

lemma table_fun_swap:
  "length st = 256 \<Longrightarrow>
   table_fun (st[unat j := table_fun st i, unat i := table_fun st j]) = swap_fun (table_fun st) i j"
  by (simp add: swap_fun_def)

lemma distinct_table_swap:
  "length st = 256 \<Longrightarrow> distinct st \<Longrightarrow>
   distinct (st[unat (j :: u8) := table_fun st i, unat i := table_fun st j])"
  using distinct_swap [of "unat j" st "unat i"] by (simp add: table_fun_def)

section \<open>The code refines it\<close>

lemma arcfour_byte_refines:
  assumes "arc4_valid ctx"
  shows "ucast (fst (arcfour_byte ctx)) = fst (rc4_next (arc4_abs ctx))"
    and "arc4_abs (snd (arcfour_byte ctx)) = snd (rc4_next (arc4_abs ctx))"
    and "arc4_valid (snd (arcfour_byte ctx))"
proof -
  let ?S = "table_fun (arc4_state ctx)"
  let ?i = "ucast (arc4_x ctx) + 1 :: u8"
  let ?j = "ucast (arc4_y ctx) + ?S ?i"
  let ?st = "(arc4_state ctx)[unat ?j := ?S ?i, unat ?i := ?S ?j]"
  have len: "length (arc4_state ctx) = 256" and dist: "distinct (arc4_state ctx)"
    using assms by (simp_all add: arc4_valid_def)
  have x: "unat ((arc4_x ctx + 1) AND 0xff) = unat ?i" by (simp add: unat_and_0xff_u32)
  have y: "unat ((ucast (?S ?i) + arc4_y ctx) AND 0xff) = unat ?j"
    by (simp add: unat_and_0xff_u32 add.commute)
  have byte: "arcfour_byte ctx =
      (ucast (?st ! unat (?S ?i + ?S ?j)),
       \<lparr>arc4_x = (arc4_x ctx + 1) AND 0xff, arc4_y = (ucast (?S ?i) + arc4_y ctx) AND 0xff,
        arc4_state = ?st\<rparr>)"
    using x y by (simp add: arcfour_byte_def Let_def table_fun_def unat_and_0xff_u32)
  have st: "table_fun ?st = swap_fun ?S ?i ?j" by (rule table_fun_swap [OF len])
  then have at: "?st ! unat k = swap_fun ?S ?i ?j k" for k
    unfolding table_fun_def [symmetric, of ?st] by simp
  show "ucast (fst (arcfour_byte ctx)) = fst (rc4_next (arc4_abs ctx))"
    by (simp add: byte at rc4_next_def arc4_abs_def Let_def)
  show "arc4_abs (snd (arcfour_byte ctx)) = snd (rc4_next (arc4_abs ctx))"
    using st by (simp add: byte rc4_next_def arc4_abs_def Let_def add.commute)
  show "arc4_valid (snd (arcfour_byte ctx))"
    using len distinct_table_swap [OF len dist, of ?j ?i] by (simp add: byte arc4_valid_def)
qed

lemma arcfour_encrypt_Cons:
  "arcfour_encrypt ctx (b # src) =
     ((b XOR ucast (fst (arcfour_byte ctx))) # fst (arcfour_encrypt (snd (arcfour_byte ctx)) src),
      snd (arcfour_encrypt (snd (arcfour_byte ctx)) src))"
  by (simp add: arcfour_encrypt.simps Let_def split_beta)

lemma arcfour_encrypt_stream:
  "arc4_valid ctx \<Longrightarrow>
   fst (arcfour_encrypt ctx src) = xor_bytes src (rc4_stream (length src) (arc4_abs ctx))"
  by (induction src arbitrary: ctx)
    (simp_all add: arcfour_encrypt_Cons arcfour_byte_refines)

lemma arcfour_encrypt_append:
  "arcfour_encrypt ctx (xs @ ys) =
     (fst (arcfour_encrypt ctx xs) @ fst (arcfour_encrypt (snd (arcfour_encrypt ctx xs)) ys),
      snd (arcfour_encrypt (snd (arcfour_encrypt ctx xs)) ys))"
  by (induction xs arbitrary: ctx) (simp_all add: arcfour_encrypt_Cons)

lemma length_arcfour_encrypt [simp, buf_len]: "length (fst (arcfour_encrypt ctx src)) = length src"
  by (induction src arbitrary: ctx) (simp_all add: arcfour_encrypt_Cons)

lemma arcfour_encrypt_twice:
  "fst (arcfour_encrypt ctx (fst (arcfour_encrypt ctx src))) = src"
  by (induction src arbitrary: ctx) (simp_all add: arcfour_encrypt_Cons xor.assoc)

lemma length_rc4_stream [simp, buf_len]: "length (rc4_stream n s) = n"
  by (induction n arbitrary: s) simp_all

section \<open>Key scheduling\<close>

definition arc4_start :: "bytes \<times> nat \<times> u32" where
  "arc4_start = (map of_nat [0..<256], 0, 0)"

lemma init_keyindex:
  "0 < k \<Longrightarrow> (if k \<le> Suc (n mod k) then 0 else Suc (n mod k)) = Suc n mod (k :: nat)"
  by (metis Suc_leI antisym mod_Suc mod_less_divisor)

lemma arcfour_init_fold:
  assumes "0 < length key" and "n \<le> 256"
  shows "\<exists>st si. fold (arcfour_init_step key (length key)) [0..<n] arc4_start = (st, n mod length key, si)
     \<and> length st = 256 \<and> distinct st
     \<and> fold (rc4_schedule_step key) [0..<n] (0, \<lambda>i. i) = (ucast si, table_fun st)"
  using assms(2)
proof (induction n)
  case 0
  have "distinct (map of_nat [0..<256] :: bytes)"
    by (auto simp: distinct_map inj_on_def of_nat_inverse dest: arg_cong [of _ _ unat] simp: unat_of_nat)
  moreover have "table_fun (map of_nat [0..<256]) = (\<lambda>i. i)"
    by (rule ext) (simp add: table_fun_def)
  ultimately show ?case by (auto simp: arc4_start_def)
next
  case (Suc n)
  obtain st si where
    run: "fold (arcfour_init_step key (length key)) [0..<n] arc4_start = (st, n mod length key, si)"
      "fold (rc4_schedule_step key) [0..<n] (0, \<lambda>i. i) = (ucast si, table_fun st)"
    and len: "length st = 256" and dist: "distinct st"
    using Suc_leD [OF Suc.prems] Suc.IH by blast
  let ?i = "of_nat n :: u8"
  let ?j = "ucast si + table_fun st ?i + key ! (n mod length key) :: u8"
  let ?st = "st[unat ?j := table_fun st ?i, unat ?i := table_fun st ?j]"
  let ?w = "(si + ucast (key ! (n mod length key)) + ucast (table_fun st ?i)) AND 0xff"
  have n: "unat ?i = n" using Suc.prems by (simp add: unat_of_nat)
  have j: "unat ?w = unat ?j" by (simp add: unat_and_0xff_u32 add.assoc add.commute add.left_commute)
  have "arcfour_init_step key (length key) n (st, n mod length key, si) =
      (?st, Suc n mod length key, ?w)"
    using n j init_keyindex [OF assms(1), of n]
    by (simp add: arcfour_init_step_def Let_def table_fun_def split del: if_split)
  moreover have "rc4_schedule_step key n (ucast si, table_fun st) = (ucast ?w, table_fun ?st)"
    unfolding table_fun_swap [OF len] by (simp add: rc4_schedule_step_def Let_def add.assoc add.commute add.left_commute)
  ultimately show ?case
    using run len distinct_table_swap [OF len dist, of ?j ?i] by simp
qed

lemma arcfour_init_refines:
  assumes "key \<noteq> []"
  shows "arc4_abs (arcfour_init key (length key)) = (0, 0, rc4_schedule key)"
    and "arc4_valid (arcfour_init key (length key))"
  using arcfour_init_fold [of key 256] assms
  by (auto simp: arcfour_init_def arc4_start_def rc4_schedule_def arc4_abs_def arc4_valid_def
      simp del: upt_rec_numeral)

text \<open>For every non-empty key the code is RC4: the array is a permutation of the 256 bytes after key
  scheduling, and \<^verbatim>\<open>arcfour_encrypt\<close> adds to the source the key stream of RC4 over the bytes. The
  32-bit counters with their masks and the in-place swaps compute modulo 256.
\<close>

lemma arcfour_is_rc4:
  assumes "key \<noteq> []"
  shows "arc4_valid (arcfour_init key (length key)) \<and>
    fst (arcfour_encrypt (arcfour_init key (length key)) src) =
      xor_bytes src (rc4_stream (length src) (0, 0, rc4_schedule key))"
  using arcfour_init_refines [OF assms] by (simp add: arcfour_encrypt_stream)

lemma arcfour_is_rc4_witness:
  "arc4_valid (arcfour_init [1, 2, 3, 4, 5] (length [1, 2, 3, 4, 5 :: u8])) \<and>
    fst (arcfour_encrypt (arcfour_init [1, 2, 3, 4, 5] (length [1, 2, 3, 4, 5 :: u8])) [0xab, 0xcd]) =
      xor_bytes [0xab, 0xcd] (rc4_stream (length [0xab, 0xcd :: u8]) (0, 0, rc4_schedule [1, 2, 3, 4, 5]))"
  by (rule arcfour_is_rc4 [of "[1, 2, 3, 4, 5]" "[0xab, 0xcd]"]) simp

end
