(* ===== verification/Checksums.thy ===== *)
theory Checksums
  imports Prelude
begin

unbundle bit_operations_syntax

text \<open>
  The checksums of \<^verbatim>\<open>core/rtw_security.c\<close>: the table-driven CRC-32 that is the integrity check
  value of WEP and TKIP frames, and the bit-serial CRC-16 of the wake-on-WLAN patterns.

  The reference for the CRC-32 is the shift register of the standard: one bit at a time, least
  significant bit first, with the reflected polynomial \<open>0xEDB88320\<close>.
\<close>

section \<open>The code\<close>

definition CRC32_POLY :: u32 where "CRC32_POLY = 0x04c11db7"

text \<open>
  The arithmetic of \<^verbatim>\<open>crc32_reverseBit\<close> is done in \<^verbatim>\<open>int\<close>; every shifted value is masked to one
  bit of the low byte.
\<close>

definition crc32_reverseBit :: "u8 \<Rightarrow> u8" where
  "crc32_reverseBit data =
     (let d = (ucast data :: u32)
      in ucast (push_bit 7 d AND 0x80) OR
         ucast ((push_bit 5 d AND 0x40) OR (push_bit 3 d AND 0x20) OR (push_bit 1 d AND 0x10) OR
           (drop_bit 1 d AND 0x08) OR (drop_bit 3 d AND 0x04) OR (drop_bit 5 d AND 0x02) OR
           (drop_bit 7 d AND 0x01)))"

definition crc32_shift :: "u32 \<Rightarrow> u32" where
  "crc32_shift c =
     (if c AND 0x80000000 \<noteq> 0 then push_bit 1 c XOR CRC32_POLY else push_bit 1 c)"

text \<open>
  One entry of \<^verbatim>\<open>crc32_table\<close>: the four bytes of the shifted word, each reversed, are stored in
  the opposite order (little-endian bytes \<^verbatim>\<open>p[0..3]\<close> of \<^verbatim>\<open>c\<close>).
\<close>

definition crc32_entry :: "nat \<Rightarrow> u32" where
  "crc32_entry i =
     (let k = crc32_reverseBit (of_nat i);
          p = RTW_PUT_LE32 ((crc32_shift ^^ 8) (push_bit 24 (ucast k)))
      in RTW_GET_LE32 [crc32_reverseBit (p ! 3), crc32_reverseBit (p ! 2),
           crc32_reverseBit (p ! 1), crc32_reverseBit (p ! 0)])"

definition crc32_init :: "u32 list" where
  "crc32_init = map crc32_entry [0..<256]"

definition getcrc32_step :: "u8 \<Rightarrow> u32 \<Rightarrow> u32" where
  "getcrc32_step b crc = crc32_init ! unat ((crc XOR ucast b) AND 0xff) XOR drop_bit 8 crc"

definition getcrc32 :: "bytes \<Rightarrow> u32" where
  "getcrc32 buf = NOT (fold getcrc32_step buf 0xffffffff)"

definition rtw_calc_crc32 :: "bytes \<Rightarrow> u32" where
  "rtw_calc_crc32 data =
     NOT (fold (\<lambda>b crc. crc32_init ! unat ((crc XOR ucast b) AND 0xff) XOR drop_bit 8 crc)
       data 0xFFFFFFFF)"

text \<open>One turn of the loop of \<^verbatim>\<open>rtw_cal_crc16\<close>; the one-bit variables are truth values.\<close>

definition crc16_step :: "u8 \<Rightarrow> nat \<Rightarrow> u16 \<Rightarrow> u16" where
  "crc16_step data index crc =
     (let crc_bit15 = crc AND 0x8000 \<noteq> 0;
          data_bit = data AND push_bit index 1 \<noteq> 0;
          shift_in = (crc_bit15 \<noteq> data_bit);
          crc_result = push_bit 1 crc;
          crc_result = (if shift_in then crc_result OR 1 else crc_result AND NOT 1);
          crc_bit11 = ((crc AND 0x800 \<noteq> 0) \<noteq> shift_in);
          crc_result = (if crc_bit11 then crc_result OR 0x1000 else crc_result AND NOT 0x1000);
          crc_bit4 = ((crc AND 0x10 \<noteq> 0) \<noteq> shift_in)
      in if crc_bit4 then crc_result OR 0x20 else crc_result AND NOT 0x20)"

definition rtw_cal_crc16 :: "u8 \<Rightarrow> u16 \<Rightarrow> u16" where
  "rtw_cal_crc16 data crc = fold (crc16_step data) [0..<8] crc"

definition rtw_calc_crc :: "bytes \<Rightarrow> u16" where
  "rtw_calc_crc pdata = NOT (fold rtw_cal_crc16 pdata 0xffff)"

section \<open>The reference\<close>

definition crc32_reg :: "u32 \<Rightarrow> u32" where
  "crc32_reg c = (if bit c 0 then drop_bit 1 c XOR 0xEDB88320 else drop_bit 1 c)"

definition crc32_reg_byte :: "u8 \<Rightarrow> u32 \<Rightarrow> u32" where
  "crc32_reg_byte b c = (crc32_reg ^^ 8) (c XOR ucast b)"

definition crc32_spec :: "bytes \<Rightarrow> u32" where
  "crc32_spec buf = NOT (fold crc32_reg_byte buf 0xffffffff)"

text \<open>CCITT CRC-16: shift left, feed back \<open>0x1021\<close>.\<close>

definition crc16_reg :: "bool \<Rightarrow> u16 \<Rightarrow> u16" where
  "crc16_reg d c = push_bit 1 c XOR (if bit c 15 \<noteq> d then 0x1021 else 0)"

section \<open>Reversal of bits\<close>

lemma bit_times_2: "bit ((x :: 'a::len word) * 2) n \<longleftrightarrow> n < LENGTH('a) \<and> 0 < n \<and> bit x (n - 1)"
  using bit_push_bit_iff [of 1 x n] by (auto simp: push_bit_eq_mult dest: bit_imp_le_length)

lemma crc32_reverseBit_reverse: "crc32_reverseBit b = word_reverse b"
proof (rule word_eqI_bits)
  fix n assume "n < LENGTH(8)"
  then have "n < 8" by simp
  then consider "n = 0" | "n = 1" | "n = 2" | "n = 3" | "n = 4" | "n = 5" | "n = 6" | "n = 7"
    by linarith
  then show "bit (crc32_reverseBit b) n = bit (word_reverse b) n"
    by cases (simp_all add: crc32_reverseBit_def Let_def bit_simps bit_numeral_rec bit_times_2)
qed

lemma word_reverse_xor: "word_reverse (a XOR b) = word_reverse a XOR word_reverse b"
  by (rule word_eqI_bits) (simp add: bit_simps)

lemma word_reverse_double: "word_reverse (push_bit 1 c) = drop_bit 1 (word_reverse (c :: u32))"
  by (rule word_eqI_bits) (auto simp: bit_simps bit_times_2)

lemma word_reverse_poly: "word_reverse CRC32_POLY = 0xEDB88320"
  by (simp add: CRC32_POLY_def word_reverse_def upt_conv_Cons bit_numeral_rec)

lemma and_high_bit: "c AND 0x80000000 \<noteq> 0 \<longleftrightarrow> bit (c :: u32) 31"
  using bit_iff_and_push_bit_not_eq_0 [of c 31] by simp

lemma crc32_shift_reverse: "word_reverse (crc32_shift c) = crc32_reg (word_reverse c)"
  unfolding crc32_shift_def crc32_reg_def and_high_bit
  by (simp only: word_reverse_xor word_reverse_double word_reverse_poly if_distrib [of word_reverse])
    (simp add: bit_simps)

lemma crc32_shift_funpow: "word_reverse ((crc32_shift ^^ n) c) = (crc32_reg ^^ n) (word_reverse c)"
  by (induction n) (simp_all add: crc32_shift_reverse)

lemma get_le32_reverse:
  "RTW_GET_LE32 [word_reverse (p ! 3), word_reverse (p ! 2), word_reverse (p ! 1), word_reverse (p ! 0)] =
     word_reverse (RTW_GET_LE32 p)"
proof (rule word_eqI_bits)
  fix n assume "n < LENGTH(32)"
  then consider "n < 8" | "8 \<le> n" "n < 16" | "16 \<le> n" "n < 24" | "24 \<le> n" "n < 32" by fastforce
  then show "bit (RTW_GET_LE32 [word_reverse (p ! 3), word_reverse (p ! 2), word_reverse (p ! 1),
      word_reverse (p ! 0)]) n = bit (word_reverse (RTW_GET_LE32 p)) n"
    by cases (auto simp: RTW_GET_LE32_def bit_simps)
qed

lemma get_put_le32: "RTW_GET_LE32 (RTW_PUT_LE32 v) = v"
proof (rule word_eqI_bits)
  fix n assume "n < LENGTH(32)"
  then consider "n < 8" | "8 \<le> n" "n < 16" | "16 \<le> n" "n < 24" | "24 \<le> n" "n < 32" by fastforce
  then show "bit (RTW_GET_LE32 (RTW_PUT_LE32 v)) n = bit v n"
    by cases (auto simp: RTW_GET_LE32_def RTW_PUT_LE32_def word_bits)
qed

lemma word_reverse_high_byte:
  "word_reverse (push_bit 24 (ucast (word_reverse (b :: u8))) :: u32) = ucast b"
proof (rule word_eqI_bits)
  fix n assume "n < LENGTH(32)"
  show "bit (word_reverse (push_bit 24 (ucast (word_reverse b)) :: u32)) n = bit (ucast b :: u32) n"
    by (cases "n < 8") (auto simp: bit_simps)
qed

lemma crc32_entry_reg: "crc32_entry i = (crc32_reg ^^ 8) (ucast (of_nat i :: u8))"
  unfolding crc32_entry_def Let_def crc32_reverseBit_reverse get_le32_reverse get_put_le32
    crc32_shift_funpow word_reverse_high_byte ..

section \<open>The register is linear and loses nothing\<close>

lemma crc32_reg_xor: "crc32_reg (a XOR b) = crc32_reg a XOR crc32_reg b"
  by (simp add: crc32_reg_def bit_xor_iff drop_bit_xor xor.assoc xor.commute xor.left_commute)

lemma crc32_reg_funpow_xor: "(crc32_reg ^^ n) (a XOR b) = (crc32_reg ^^ n) a XOR (crc32_reg ^^ n) b"
  by (induction n) (simp_all add: crc32_reg_xor)

lemma crc32_reg_0 [simp]: "crc32_reg 0 = 0"
  by (simp add: crc32_reg_def)

lemma crc32_reg_funpow_0 [simp]: "(crc32_reg ^^ n) 0 = 0"
  by (induction n) simp_all

lemma bit_31_crc32_reg: "bit (crc32_reg c) 31 = bit c 0"
  by (auto simp: crc32_reg_def bit_simps bit_numeral_rec dest: bit_imp_le_length)

lemma crc32_reg_eq_0_iff [simp]: "crc32_reg c = 0 \<longleftrightarrow> c = 0"
proof
  assume z: "crc32_reg c = 0"
  then have low: "\<not> bit c 0" using bit_31_crc32_reg [of c] by simp
  then have "drop_bit 1 c = 0" using z by (simp add: crc32_reg_def)
  then have "bit (drop_bit 1 c) n = False" for n by simp
  then have "\<not> bit c (Suc n)" for n by (simp add: bit_drop_bit_eq)
  with low show "c = 0" by (intro word_eqI_bits) (metis bit_0_eq bot_apply bot_bool_def not0_implies_Suc)
qed simp

lemma crc32_reg_funpow_eq_0_iff [simp]: "(crc32_reg ^^ n) c = 0 \<longleftrightarrow> c = 0"
  by (induction n) simp_all

lemma crc32_reg_funpow_shift: "take_bit n c = 0 \<Longrightarrow> (crc32_reg ^^ n) c = drop_bit n c"
proof (induction n)
  case (Suc n)
  have "take_bit n c = take_bit n (take_bit (Suc n) c)" by (simp only: take_bit_take_bit min_absorb1)
  then have low: "take_bit n c = 0" using Suc.prems by simp
  have "bit (take_bit (Suc n) c) n = bit c n" by (simp only: bit_take_bit_iff) simp
  then have "\<not> bit c n" using Suc.prems by simp
  then show ?case using Suc.IH [OF low] by (simp add: crc32_reg_def bit_drop_bit_eq drop_bit_drop_bit)
qed simp

lemma crc32_reg_push: "drop_bit n (push_bit n y) = y \<Longrightarrow> (crc32_reg ^^ n) (push_bit n y) = y"
  by (simp add: crc32_reg_funpow_shift take_bit_push_bit)

lemma split_low_byte: "c = (c AND 0xff) XOR push_bit 8 (drop_bit 8 (c :: u32))"
  by (rule word_eqI_bits) (auto simp: word_bits)

lemma crc32_reg_byte_split: "(crc32_reg ^^ 8) x = (crc32_reg ^^ 8) (x AND 0xff) XOR drop_bit 8 x"
proof -
  have "drop_bit 8 (push_bit 8 (drop_bit 8 x)) = drop_bit 8 x"
    by (rule word_eqI_bits) (auto simp: bit_simps dest: bit_imp_le_length)
  then show ?thesis
    by (subst split_low_byte [of x]) (simp only: crc32_reg_funpow_xor crc32_reg_push)
qed

lemma low_byte_ucast: "c AND 0xff = ucast (ucast c :: u8)" for c :: u32
  by (rule word_eqI_bits) (auto simp: word_bits)

lemma getcrc32_step_reg: "getcrc32_step b c = crc32_reg_byte b c"
proof -
  let ?x = "c XOR ucast b :: u32"
  have idx: "unat (?x AND 0xff) < 256"
    using take_bit_nat_less_exp [of 8 "unat ?x"] unfolding and_0xff unsigned_take_bit_eq by simp
  have of: "(ucast (?x AND 0xff) :: u8) = ucast ?x"
    by (rule word_eqI_bits) (auto simp: word_bits)
  have high: "drop_bit 8 ?x = drop_bit 8 c" by (rule word_eqI_bits) (auto simp: word_bits)
  have "crc32_init ! unat (?x AND 0xff) = (crc32_reg ^^ 8) (ucast (ucast ?x :: u8))"
    using idx by (simp add: crc32_init_def crc32_entry_reg of del: upt_rec_numeral)
  then show ?thesis
    unfolding getcrc32_step_def crc32_reg_byte_def crc32_reg_byte_split [of ?x] low_byte_ucast high
    by simp
qed

lemma getcrc32_spec: "getcrc32 buf = crc32_spec buf"
proof -
  have "getcrc32_step = crc32_reg_byte" by (intro ext getcrc32_step_reg)
  then show ?thesis by (simp add: getcrc32_def crc32_spec_def)
qed

lemma rtw_calc_crc32_eq: "rtw_calc_crc32 buf = getcrc32 buf"
  by (simp add: rtw_calc_crc32_def getcrc32_def getcrc32_step_def [abs_def])

section \<open>Burst errors\<close>

lemma xor_eq_0_iff: "(u :: 'a::len word) XOR v = 0 \<longleftrightarrow> u = v"
  by (metis xor.assoc xor.right_neutral xor_self_eq)

lemma crc32_fold_xor:
  "length xs = length ys \<Longrightarrow>
   fold crc32_reg_byte xs a XOR fold crc32_reg_byte ys b =
     fold crc32_reg_byte (xor_bytes xs ys) (a XOR b)"
proof (induction xs ys arbitrary: a b rule: list_induct2)
  case (Cons x xs y ys)
  have "ucast (x XOR y) = (ucast x XOR ucast y :: u32)" by (rule word_eqI_bits) (auto simp: bit_simps)
  then have "crc32_reg_byte x a XOR crc32_reg_byte y b = crc32_reg_byte (x XOR y) (a XOR b)"
    by (simp add: crc32_reg_byte_def crc32_reg_funpow_xor xor.assoc xor.left_commute)
  then show ?case using Cons.IH by simp
qed simp

lemma crc32_reg_byte_0_iff [simp]: "crc32_reg_byte 0 c = 0 \<longleftrightarrow> c = 0"
  by (simp add: crc32_reg_byte_def)

lemma crc32_fold_0: "fold crc32_reg_byte (replicate n 0) c = 0 \<longleftrightarrow> c = 0"
  by (induction n arbitrary: c) simp_all

lemma crc32_append_byte:
  "drop_bit n (push_bit n (ucast b)) = (ucast b :: u32) \<Longrightarrow>
   crc32_reg_byte b ((crc32_reg ^^ n) x) = (crc32_reg ^^ (8 + n)) (x XOR push_bit n (ucast b))"
  using crc32_reg_push [of n "ucast b"]
  by (simp add: crc32_reg_byte_def crc32_reg_funpow_xor funpow_add)

lemma crc32_four_bytes:
  "fold crc32_reg_byte [b0, b1, b2, b3] 0 = (crc32_reg ^^ 32) (RTW_GET_LE32 [b0, b1, b2, b3])"
proof -
  have fit: "drop_bit n (push_bit n (ucast b)) = (ucast b :: u32)" if "n \<le> 24" for n and b :: u8
  proof (rule word_eqI_bits)
    fix i assume "i < LENGTH(32)"
    then show "bit (drop_bit n (push_bit n (ucast b)) :: u32) i = bit (ucast b :: u32) i"
      using that by (cases "i < 8") (auto simp: bit_simps)
  qed
  have "RTW_GET_LE32 [b0, b1, b2, b3] =
      ((ucast b0 XOR push_bit 8 (ucast b1)) XOR push_bit 16 (ucast b2)) XOR push_bit 24 (ucast b3)"
    by (rule word_eqI_bits) (auto simp: RTW_GET_LE32_def bit_simps)
  then show ?thesis
    using crc32_append_byte [OF fit, of 0 b0 0] crc32_append_byte [OF fit, of 8 b1 "ucast b0"]
      crc32_append_byte [OF fit, of 16 b2 "ucast b0 XOR push_bit 8 (ucast b1)"]
      crc32_append_byte [OF fit, of 24 b3 "(ucast b0 XOR push_bit 8 (ucast b1)) XOR push_bit 16 (ucast b2)"]
    by simp
qed

lemma get_le32_eq_0: "RTW_GET_LE32 [a, b, c, d] = 0 \<Longrightarrow> [a, b, c, d] = replicate 4 0"
  using RTW_PUT_GET_LE32 [of a b c d] by (simp add: RTW_PUT_LE32_def eval_nat_numeral)

lemma crc32_burst_0:
  assumes "length d \<le> 4" and "fold crc32_reg_byte d 0 = 0"
  shows "d = replicate (length d) 0"
proof -
  let ?d = "d @ replicate (4 - length d) 0"
  have "length ?d = 4" using assms(1) by simp
  then obtain a b c e where d: "?d = [a, b, c, e]"
    by (auto simp: eval_nat_numeral length_Suc_conv simp del: length_append)
  have "fold crc32_reg_byte ?d 0 = 0" unfolding fold_append comp_apply assms(2) crc32_fold_0 ..
  then have "RTW_GET_LE32 [a, b, c, e] = 0" unfolding d crc32_four_bytes by simp
  then have "?d = replicate 4 0" unfolding d by (rule get_le32_eq_0)
  then have "take (length d) ?d = take (length d) (replicate 4 0)" by simp
  then show ?thesis using assms(1) by (simp add: min_absorb1)
qed

lemma crc32_reg_byte_inj: "crc32_reg_byte b x = crc32_reg_byte b y \<longleftrightarrow> x = y"
proof -
  have "crc32_reg_byte b x XOR crc32_reg_byte b y = (crc32_reg ^^ 8) (x XOR y)"
    by (simp add: crc32_reg_byte_def crc32_reg_funpow_xor xor.assoc xor.commute xor.left_commute)
  then have "crc32_reg_byte b x XOR crc32_reg_byte b y = 0 \<longleftrightarrow> x XOR y = 0" by simp
  then show ?thesis by (simp add: xor_eq_0_iff)
qed

lemma crc32_fold_inj: "fold crc32_reg_byte bs x = fold crc32_reg_byte bs y \<longleftrightarrow> x = y"
  by (induction bs arbitrary: x y) (simp_all add: crc32_reg_byte_inj)

lemma xor_bytes_0:
  "length xs = length ys \<Longrightarrow> xor_bytes xs ys = replicate (length xs) 0 \<longleftrightarrow> xs = ys"
  by (induction xs ys rule: list_induct2) (auto simp: xor_eq_0_iff)

lemma crc32_burst:
  assumes "length w = length w'" "length w \<le> 4"
  shows "getcrc32 (a @ w @ b) = getcrc32 (a @ w' @ b) \<longleftrightarrow> w = w'"
proof
  let ?c = "fold crc32_reg_byte a 0xffffffff"
  assume "getcrc32 (a @ w @ b) = getcrc32 (a @ w' @ b)"
  then have "fold crc32_reg_byte w ?c = fold crc32_reg_byte w' ?c"
    by (simp add: getcrc32_spec crc32_spec_def crc32_fold_inj)
  then have "fold crc32_reg_byte (xor_bytes w w') 0 = 0"
    using crc32_fold_xor [OF assms(1), of ?c ?c] by simp
  then have "xor_bytes w w' = replicate (length (xor_bytes w w')) 0"
    using assms by (intro crc32_burst_0) simp_all
  then show "w = w'" using assms xor_bytes_0 by simp
qed simp

section \<open>CRC-16\<close>

lemma and_bit_u16: "(c AND 0x8000 \<noteq> 0) = bit (c :: u16) 15" "(c AND 0x800 \<noteq> 0) = bit c 11"
  "(c AND 0x10 \<noteq> 0) = bit c 4"
  using bit_iff_and_push_bit_not_eq_0 [of c 15] bit_iff_and_push_bit_not_eq_0 [of c 11]
    bit_iff_and_push_bit_not_eq_0 [of c 4] by simp_all

lemma crc16_step_reg: "crc16_step data i crc = crc16_reg (bit data i) crc"
proof (rule word_eqI_bits)
  fix n assume "n < LENGTH(16)"
  then have "n < 16" by simp
  then consider "n = 0" | "n = 1" | "n = 2" | "n = 3" | "n = 4" | "n = 5" | "n = 6" | "n = 7" |
    "n = 8" | "n = 9" | "n = 10" | "n = 11" | "n = 12" | "n = 13" | "n = 14" | "n = 15"
    by (auto simp: eval_nat_numeral less_Suc_eq)
  then show "bit (crc16_step data i crc) n = bit (crc16_reg (bit data i) crc) n"
    unfolding crc16_step_def crc16_reg_def Let_def and_bit_u16
      bit_iff_and_push_bit_not_eq_0 [symmetric, of data i]
    by cases (auto simp: bit_simps bit_numeral_rec bit_times_2)
qed

text \<open>C24.
  The table-driven checksum of the WEP and TKIP frames is the CRC-32 of the standard, computed by
  the one-bit shift register with the reflected polynomial and started and finished with the
  complement; \<^verbatim>\<open>rtw_calc_crc32\<close> computes the same function. The checksum of the wake-on-WLAN
  patterns is the register of the CCITT polynomial fed with the bits of each byte, lowest first.
\<close>

theorem checksums_are_shift_registers:
  "getcrc32 buf = crc32_spec buf \<and> rtw_calc_crc32 buf = crc32_spec buf \<and>
   rtw_calc_crc buf =
     NOT (fold (\<lambda>b crc. fold (\<lambda>i. crc16_reg (bit b i)) [0..<8] crc) buf 0xffff)"
  by (simp add: getcrc32_spec rtw_calc_crc32_eq rtw_calc_crc_def rtw_cal_crc16_def [abs_def]
      crc16_step_reg [abs_def] del: upt_rec_numeral)

text \<open>A change confined to four consecutive bytes of a frame always changes its CRC-32: the integrity
  check value detects every error burst of up to 32 bits.
\<close>

lemma getcrc32_detects_bursts:
  assumes "length w = length w'" and "length w \<le> 4" and "w \<noteq> w'"
  shows "getcrc32 (a @ w @ b) \<noteq> getcrc32 (a @ w' @ b)"
  using assms crc32_burst by simp

lemma getcrc32_detects_bursts_witness:
  "getcrc32 ([1, 2] @ [3, 4, 5, 6] @ [7]) \<noteq> getcrc32 ([1, 2] @ [3, 4, 5, 0x86] @ [7])"
  by (rule getcrc32_detects_bursts [of "[3, 4, 5, 6]" "[3, 4, 5, 0x86]" "[1, 2]" "[7]"]) simp_all

end
