(* ===== verification/TKIP_Keys.thy ===== *)
theory TKIP_Keys
  imports AES_Tables
begin

unbundle bit_operations_syntax

text \<open>
  The TKIP key mixing of \<^verbatim>\<open>core/rtw_security.c\<close>: the 16-bit S-box, \<^verbatim>\<open>phase1\<close> (transmitter address
  and upper IV into the 80-bit \<^verbatim>\<open>P1K\<close>) and \<^verbatim>\<open>phase2\<close> (\<^verbatim>\<open>P1K\<close> and lower IV into the RC4 key).

  The comments of the code promise that the mixing is a permutation for a given temporal key and
  that RC4 keys are therefore never reused; that is what is proved here.
\<close>

section \<open>The code\<close>

definition RotR1 :: "u16 \<Rightarrow> u16" where
  "RotR1 v16 = (drop_bit 1 v16 AND 0x7FFF) XOR push_bit 15 (v16 AND 1)"

definition Lo8 :: "u16 \<Rightarrow> u8" where "Lo8 v16 = ucast (v16 AND 0x00FF)"
definition Hi8 :: "u16 \<Rightarrow> u8" where "Hi8 v16 = ucast (drop_bit 8 v16 AND 0x00FF)"
definition Lo16 :: "u32 \<Rightarrow> u16" where "Lo16 v32 = ucast (v32 AND 0xFFFF)"
definition Hi16 :: "u32 \<Rightarrow> u16" where "Hi16 v32 = ucast (drop_bit 16 v32 AND 0xFFFF)"
definition Mk16 :: "u8 \<Rightarrow> u8 \<Rightarrow> u16" where "Mk16 hi lo = ucast lo XOR push_bit 8 (ucast hi)"

definition TK16 :: "bytes \<Rightarrow> nat \<Rightarrow> u16" where
  "TK16 tk N = Mk16 (tk ! (2 * N + 1)) (tk ! (2 * N))"

definition Sbox1 :: "u16 list list" where
  "Sbox1 =
   [[0xC6A5, 0xF884, 0xEE99, 0xF68D, 0xFF0D, 0xD6BD, 0xDEB1, 0x9154,
     0x6050, 0x0203, 0xCEA9, 0x567D, 0xE719, 0xB562, 0x4DE6, 0xEC9A,
     0x8F45, 0x1F9D, 0x8940, 0xFA87, 0xEF15, 0xB2EB, 0x8EC9, 0xFB0B,
     0x41EC, 0xB367, 0x5FFD, 0x45EA, 0x23BF, 0x53F7, 0xE496, 0x9B5B,
     0x75C2, 0xE11C, 0x3DAE, 0x4C6A, 0x6C5A, 0x7E41, 0xF502, 0x834F,
     0x685C, 0x51F4, 0xD134, 0xF908, 0xE293, 0xAB73, 0x6253, 0x2A3F,
     0x080C, 0x9552, 0x4665, 0x9D5E, 0x3028, 0x37A1, 0x0A0F, 0x2FB5,
     0x0E09, 0x2436, 0x1B9B, 0xDF3D, 0xCD26, 0x4E69, 0x7FCD, 0xEA9F,
     0x121B, 0x1D9E, 0x5874, 0x342E, 0x362D, 0xDCB2, 0xB4EE, 0x5BFB,
     0xA4F6, 0x764D, 0xB761, 0x7DCE, 0x527B, 0xDD3E, 0x5E71, 0x1397,
     0xA6F5, 0xB968, 0x0000, 0xC12C, 0x4060, 0xE31F, 0x79C8, 0xB6ED,
     0xD4BE, 0x8D46, 0x67D9, 0x724B, 0x94DE, 0x98D4, 0xB0E8, 0x854A,
     0xBB6B, 0xC52A, 0x4FE5, 0xED16, 0x86C5, 0x9AD7, 0x6655, 0x1194,
     0x8ACF, 0xE910, 0x0406, 0xFE81, 0xA0F0, 0x7844, 0x25BA, 0x4BE3,
     0xA2F3, 0x5DFE, 0x80C0, 0x058A, 0x3FAD, 0x21BC, 0x7048, 0xF104,
     0x63DF, 0x77C1, 0xAF75, 0x4263, 0x2030, 0xE51A, 0xFD0E, 0xBF6D,
     0x814C, 0x1814, 0x2635, 0xC32F, 0xBEE1, 0x35A2, 0x88CC, 0x2E39,
     0x9357, 0x55F2, 0xFC82, 0x7A47, 0xC8AC, 0xBAE7, 0x322B, 0xE695,
     0xC0A0, 0x1998, 0x9ED1, 0xA37F, 0x4466, 0x547E, 0x3BAB, 0x0B83,
     0x8CCA, 0xC729, 0x6BD3, 0x283C, 0xA779, 0xBCE2, 0x161D, 0xAD76,
     0xDB3B, 0x6456, 0x744E, 0x141E, 0x92DB, 0x0C0A, 0x486C, 0xB8E4,
     0x9F5D, 0xBD6E, 0x43EF, 0xC4A6, 0x39A8, 0x31A4, 0xD337, 0xF28B,
     0xD532, 0x8B43, 0x6E59, 0xDAB7, 0x018C, 0xB164, 0x9CD2, 0x49E0,
     0xD8B4, 0xACFA, 0xF307, 0xCF25, 0xCAAF, 0xF48E, 0x47E9, 0x1018,
     0x6FD5, 0xF088, 0x4A6F, 0x5C72, 0x3824, 0x57F1, 0x73C7, 0x9751,
     0xCB23, 0xA17C, 0xE89C, 0x3E21, 0x96DD, 0x61DC, 0x0D86, 0x0F85,
     0xE090, 0x7C42, 0x71C4, 0xCCAA, 0x90D8, 0x0605, 0xF701, 0x1C12,
     0xC2A3, 0x6A5F, 0xAEF9, 0x69D0, 0x1791, 0x9958, 0x3A27, 0x27B9,
     0xD938, 0xEB13, 0x2BB3, 0x2233, 0xD2BB, 0xA970, 0x0789, 0x33A7,
     0x2DB6, 0x3C22, 0x1592, 0xC920, 0x8749, 0xAAFF, 0x5078, 0xA57A,
     0x038F, 0x59F8, 0x0980, 0x1A17, 0x65DA, 0xD731, 0x84C6, 0xD0B8,
     0x82C3, 0x29B0, 0x5A77, 0x1E11, 0x7BCB, 0xA8FC, 0x6DD6, 0x2C3A],
    [0xA5C6, 0x84F8, 0x99EE, 0x8DF6, 0x0DFF, 0xBDD6, 0xB1DE, 0x5491,
     0x5060, 0x0302, 0xA9CE, 0x7D56, 0x19E7, 0x62B5, 0xE64D, 0x9AEC,
     0x458F, 0x9D1F, 0x4089, 0x87FA, 0x15EF, 0xEBB2, 0xC98E, 0x0BFB,
     0xEC41, 0x67B3, 0xFD5F, 0xEA45, 0xBF23, 0xF753, 0x96E4, 0x5B9B,
     0xC275, 0x1CE1, 0xAE3D, 0x6A4C, 0x5A6C, 0x417E, 0x02F5, 0x4F83,
     0x5C68, 0xF451, 0x34D1, 0x08F9, 0x93E2, 0x73AB, 0x5362, 0x3F2A,
     0x0C08, 0x5295, 0x6546, 0x5E9D, 0x2830, 0xA137, 0x0F0A, 0xB52F,
     0x090E, 0x3624, 0x9B1B, 0x3DDF, 0x26CD, 0x694E, 0xCD7F, 0x9FEA,
     0x1B12, 0x9E1D, 0x7458, 0x2E34, 0x2D36, 0xB2DC, 0xEEB4, 0xFB5B,
     0xF6A4, 0x4D76, 0x61B7, 0xCE7D, 0x7B52, 0x3EDD, 0x715E, 0x9713,
     0xF5A6, 0x68B9, 0x0000, 0x2CC1, 0x6040, 0x1FE3, 0xC879, 0xEDB6,
     0xBED4, 0x468D, 0xD967, 0x4B72, 0xDE94, 0xD498, 0xE8B0, 0x4A85,
     0x6BBB, 0x2AC5, 0xE54F, 0x16ED, 0xC586, 0xD79A, 0x5566, 0x9411,
     0xCF8A, 0x10E9, 0x0604, 0x81FE, 0xF0A0, 0x4478, 0xBA25, 0xE34B,
     0xF3A2, 0xFE5D, 0xC080, 0x8A05, 0xAD3F, 0xBC21, 0x4870, 0x04F1,
     0xDF63, 0xC177, 0x75AF, 0x6342, 0x3020, 0x1AE5, 0x0EFD, 0x6DBF,
     0x4C81, 0x1418, 0x3526, 0x2FC3, 0xE1BE, 0xA235, 0xCC88, 0x392E,
     0x5793, 0xF255, 0x82FC, 0x477A, 0xACC8, 0xE7BA, 0x2B32, 0x95E6,
     0xA0C0, 0x9819, 0xD19E, 0x7FA3, 0x6644, 0x7E54, 0xAB3B, 0x830B,
     0xCA8C, 0x29C7, 0xD36B, 0x3C28, 0x79A7, 0xE2BC, 0x1D16, 0x76AD,
     0x3BDB, 0x5664, 0x4E74, 0x1E14, 0xDB92, 0x0A0C, 0x6C48, 0xE4B8,
     0x5D9F, 0x6EBD, 0xEF43, 0xA6C4, 0xA839, 0xA431, 0x37D3, 0x8BF2,
     0x32D5, 0x438B, 0x596E, 0xB7DA, 0x8C01, 0x64B1, 0xD29C, 0xE049,
     0xB4D8, 0xFAAC, 0x07F3, 0x25CF, 0xAFCA, 0x8EF4, 0xE947, 0x1810,
     0xD56F, 0x88F0, 0x6F4A, 0x725C, 0x2438, 0xF157, 0xC773, 0x5197,
     0x23CB, 0x7CA1, 0x9CE8, 0x213E, 0xDD96, 0xDC61, 0x860D, 0x850F,
     0x90E0, 0x427C, 0xC471, 0xAACC, 0xD890, 0x0506, 0x01F7, 0x121C,
     0xA3C2, 0x5F6A, 0xF9AE, 0xD069, 0x9117, 0x5899, 0x273A, 0xB927,
     0x38D9, 0x13EB, 0xB32B, 0x3322, 0xBBD2, 0x70A9, 0x8907, 0xA733,
     0xB62D, 0x223C, 0x9215, 0x20C9, 0x4987, 0xFFAA, 0x7850, 0x7AA5,
     0x8F03, 0xF859, 0x8009, 0x171A, 0xDA65, 0x31D7, 0xC684, 0xB8D0,
     0xC382, 0xB029, 0x775A, 0x111E, 0xCB7B, 0xFCA8, 0xD66D, 0x3A2C]]"

definition tkip_S :: "u16 \<Rightarrow> u16" where
  "tkip_S v16 = Sbox1 ! 0 ! unat (Lo8 v16) XOR Sbox1 ! 1 ! unat (Hi8 v16)"

text \<open>\<open>mix k j f xs\<close> is the assignment \<^verbatim>\<open>xs[k] += f(xs[j])\<close>, modulo \<open>2^16\<close>.\<close>

definition mix :: "nat \<Rightarrow> nat \<Rightarrow> (u16 \<Rightarrow> u16) \<Rightarrow> u16 list \<Rightarrow> u16 list" where
  "mix k j f xs = xs[k := xs ! k + f (xs ! j)]"

definition phase1_round :: "bytes \<Rightarrow> nat \<Rightarrow> u16 list \<Rightarrow> u16 list" where
  "phase1_round tk i p1k =
     (let p1k = mix 0 4 (\<lambda>v. tkip_S (v XOR TK16 tk (i mod 2 + 0))) p1k;
          p1k = mix 1 0 (\<lambda>v. tkip_S (v XOR TK16 tk (i mod 2 + 2))) p1k;
          p1k = mix 2 1 (\<lambda>v. tkip_S (v XOR TK16 tk (i mod 2 + 4))) p1k;
          p1k = mix 3 2 (\<lambda>v. tkip_S (v XOR TK16 tk (i mod 2 + 6))) p1k;
          p1k = mix 4 3 (\<lambda>v. tkip_S (v XOR TK16 tk (i mod 2 + 0))) p1k
      in p1k[4 := p1k ! 4 + of_nat i])"

definition phase1 :: "bytes \<Rightarrow> bytes \<Rightarrow> u32 \<Rightarrow> u16 list" where
  "phase1 tk ta iv32 =
     fold (phase1_round tk) [0..<8]
       [Lo16 iv32, Hi16 iv32, Mk16 (ta ! 1) (ta ! 0), Mk16 (ta ! 3) (ta ! 2), Mk16 (ta ! 5) (ta ! 4)]"

text \<open>The two sweeps over \<^verbatim>\<open>PPK[0..5]\<close>.\<close>

definition phase2_mix :: "bytes \<Rightarrow> u16 list \<Rightarrow> u16 list" where
  "phase2_mix tk PPK =
     (let PPK = mix 0 5 (\<lambda>v. tkip_S (v XOR TK16 tk 0)) PPK;
          PPK = mix 1 0 (\<lambda>v. tkip_S (v XOR TK16 tk 1)) PPK;
          PPK = mix 2 1 (\<lambda>v. tkip_S (v XOR TK16 tk 2)) PPK;
          PPK = mix 3 2 (\<lambda>v. tkip_S (v XOR TK16 tk 3)) PPK;
          PPK = mix 4 3 (\<lambda>v. tkip_S (v XOR TK16 tk 4)) PPK;
          PPK = mix 5 4 (\<lambda>v. tkip_S (v XOR TK16 tk 5)) PPK;
          PPK = mix 0 5 (\<lambda>v. RotR1 (v XOR TK16 tk 6)) PPK;
          PPK = mix 1 0 (\<lambda>v. RotR1 (v XOR TK16 tk 7)) PPK;
          PPK = mix 2 1 RotR1 PPK;
          PPK = mix 3 2 RotR1 PPK;
          PPK = mix 4 3 RotR1 PPK
      in mix 5 4 RotR1 PPK)"

definition phase2 :: "bytes \<Rightarrow> u16 list \<Rightarrow> u16 \<Rightarrow> bytes" where
  "phase2 tk p1k iv16 =
     (let PPK = phase2_mix tk (take 5 p1k @ [p1k ! 4 + iv16])
      in [Hi8 iv16, (Hi8 iv16 OR 0x20) AND 0x7F, Lo8 iv16,
          Lo8 (drop_bit 1 (PPK ! 5 XOR TK16 tk 0))] @
         concat (map (\<lambda>i. [Lo8 (PPK ! i), Hi8 (PPK ! i)]) [0, 1, 2, 3, 4, 5]))"

section \<open>The S-box\<close>

definition tkip_sbox_entry :: "u32 \<Rightarrow> u16 \<Rightarrow> bool" where
  "tkip_sbox_entry t s \<longleftrightarrow> s = push_bit 8 (ucast (drop_bit 24 t)) OR ucast (t AND 0xff)"

lemma sbox1_low_check: "list_all2 tkip_sbox_entry Te0 (Sbox1 ! 0)"
  unfolding Te0_def Sbox1_def by (simp add: tkip_sbox_entry_def)

lemma sbox1_high_check:
  "list_all2 (\<lambda>s t. t = push_bit 8 s OR drop_bit 8 s) (Sbox1 ! 0) (Sbox1 ! 1)"
  unfolding Sbox1_def by simp

section \<open>Each assignment is a permutation\<close>

lemma length_mix [simp, buf_len]: "length (mix k j f xs) = length xs"
  by (simp add: mix_def)

lemma mix_eq_iff:
  assumes "length xs = length ys" "j \<noteq> k" "k < length ys"
  shows "mix k j f xs = mix k j f ys \<longleftrightarrow> xs = ys"
proof
  assume eq: "mix k j f xs = mix k j f ys"
  then have other: "xs ! i = ys ! i" if "i \<noteq> k" for i
    using that by (metis mix_def nth_list_update_neq)
  have "xs ! k + f (xs ! j) = ys ! k + f (ys ! j)"
    using eq assms by (metis mix_def nth_list_update_eq)
  then have "xs ! k = ys ! k" using other assms(2) by simp
  then show "xs = ys" using other assms(1) by (metis nth_equalityI)
qed simp

lemma add_word_eq_iff:
  "length xs = length ys \<Longrightarrow> k < length ys \<Longrightarrow>
   xs[k := xs ! k + c] = ys[k := ys ! k + (c :: u16)] \<longleftrightarrow> xs = ys"
  by (metis add_right_cancel list_update_id list_update_overwrite nth_list_update_eq)

lemma length_phase1_round [simp, buf_len]: "length (phase1_round tk i p) = length p"
  by (simp add: phase1_round_def Let_def)

lemma phase1_round_eq_iff:
  "length p = 5 \<Longrightarrow> length q = 5 \<Longrightarrow> phase1_round tk i p = phase1_round tk i q \<longleftrightarrow> p = q"
  unfolding phase1_round_def Let_def by (simp add: add_word_eq_iff mix_eq_iff)

lemma phase1_fold_eq_iff:
  "length p = 5 \<Longrightarrow> length q = 5 \<Longrightarrow>
   fold (phase1_round tk) is p = fold (phase1_round tk) is q \<longleftrightarrow> p = q"
  by (induction "is" arbitrary: p q) (simp_all add: phase1_round_eq_iff)

lemma length_phase1_fold [simp]: "length (fold (phase1_round tk) is p) = length p"
  by (induction "is" arbitrary: p) simp_all

lemma length_phase1 [simp, buf_len]: "length (phase1 tk ta iv32) = 5"
  by (simp add: phase1_def del: upt_rec_numeral)

lemma length_phase2_mix [simp, buf_len]: "length (phase2_mix tk p) = length p"
  by (simp add: phase2_mix_def)

lemma phase2_mix_eq_iff:
  "length p = 6 \<Longrightarrow> length q = 6 \<Longrightarrow> phase2_mix tk p = phase2_mix tk q \<longleftrightarrow> p = q"
  unfolding phase2_mix_def Let_def by (simp add: mix_eq_iff)

section \<open>Halves of words\<close>

lemma Mk16_eq_iff: "Mk16 h l = Mk16 h' l' \<longleftrightarrow> h = h' \<and> l = l'"
proof
  assume eq: "Mk16 h l = Mk16 h' l'"
  have "Lo8 (Mk16 h l) = l" "Hi8 (Mk16 h l) = h" for h l
    by (auto intro!: word_eqI_bits simp: Lo8_def Hi8_def Mk16_def word_bits)
  then show "h = h' \<and> l = l'" using eq by metis
qed simp

lemma Mk16_halves: "Mk16 (Hi8 v) (Lo8 v) = v"
  by (rule word_eqI_bits) (auto simp: Lo8_def Hi8_def Mk16_def word_bits)

lemma Lo8_Hi8_eq_iff: "Lo8 v = Lo8 w \<and> Hi8 v = Hi8 w \<longleftrightarrow> v = w"
  by (metis Mk16_halves)

lemma and_0xffff: "x AND 0xFFFF = take_bit 16 (x :: 'a::len word)"
  by (simp add: take_bit_eq_mask mask_eq_exp_minus_1)

lemma Lo16_Hi16_eq_iff: "Lo16 v = Lo16 w \<and> Hi16 v = Hi16 w \<longleftrightarrow> v = w"
proof
  have "v = ucast (Lo16 v) OR push_bit 16 (ucast (Hi16 v))" for v
    by (rule word_eqI_bits) (auto simp: Lo16_def Hi16_def bit_simps and_0xffff)
  then show "Lo16 v = Lo16 w \<and> Hi16 v = Hi16 w \<Longrightarrow> v = w" by metis
qed simp

section \<open>The mixing never repeats an RC4 key\<close>

lemma phase1_eq_iff:
  assumes "length ta = 6" "length ta' = 6"
  shows "phase1 tk ta iv32 = phase1 tk ta' iv32' \<longleftrightarrow> ta = ta' \<and> iv32 = iv32'"
proof -
  have six: "xs = [xs ! 0, xs ! 1, xs ! 2, xs ! 3, xs ! 4, xs ! 5]" if "length xs = 6" for xs :: bytes
    using map_nth [of xs, symmetric] that by (simp add: upt_rec eval_nat_numeral)
  have "ta = ta' \<longleftrightarrow> ta ! 0 = ta' ! 0 \<and> ta ! 1 = ta' ! 1 \<and> ta ! 2 = ta' ! 2 \<and> ta ! 3 = ta' ! 3 \<and>
      ta ! 4 = ta' ! 4 \<and> ta ! 5 = ta' ! 5"
    by (subst six [OF assms(1)], subst six [OF assms(2)]) simp
  then show ?thesis
    using Lo16_Hi16_eq_iff [of iv32 iv32']
    by (auto simp: phase1_def phase1_fold_eq_iff Mk16_eq_iff simp del: upt_rec_numeral)
qed

lemma phase2_ppk:
  assumes "phase2 tk p iv16 = phase2 tk q iv16'" "length p = 5" "length q = 5"
  shows "phase2_mix tk (take 5 p @ [p ! 4 + iv16]) = phase2_mix tk (take 5 q @ [q ! 4 + iv16'])"
proof (rule nth_equalityI)
  let ?P = "phase2_mix tk (take 5 p @ [p ! 4 + iv16])"
  let ?Q = "phase2_mix tk (take 5 q @ [q ! 4 + iv16'])"
  show "length ?P = length ?Q" using assms by simp
  fix i assume "i < length ?P"
  then have "i < 6" using assms by simp
  then consider "i = 0" | "i = 1" | "i = 2" | "i = 3" | "i = 4" | "i = 5" by linarith
  then have "Lo8 (?P ! i) = Lo8 (?Q ! i) \<and> Hi8 (?P ! i) = Hi8 (?Q ! i)"
    using assms(1) by cases (simp_all add: phase2_def Let_def)
  then show "?P ! i = ?Q ! i" by (simp only: Lo8_Hi8_eq_iff)
qed

lemma phase2_eq_iff:
  assumes "length p = 5" "length q = 5"
  shows "phase2 tk p iv16 = phase2 tk q iv16' \<longleftrightarrow> p = q \<and> iv16 = iv16'"
  using phase2_ppk [of tk p iv16 q iv16'] assms by (auto simp: phase2_mix_eq_iff)

text \<open>C21.
  For a given temporal key the RC4 key of a packet determines the transmitter address and the whole
  48-bit sequence counter: two packets that differ in any of them are encrypted under different RC4
  keys, as the comments of the key mixing promise.
\<close>

theorem tkip_rc4key_unique:
  assumes "length ta = 6" and "length ta' = 6"
  shows "phase2 tk (phase1 tk ta iv32) iv16 = phase2 tk (phase1 tk ta' iv32') iv16' \<longleftrightarrow>
    ta = ta' \<and> iv32 = iv32' \<and> iv16 = iv16'"
  by (auto simp: phase2_eq_iff phase1_eq_iff [OF assms])

theorem tkip_rc4key_unique_witness:
  "phase2 (replicate 16 1) (phase1 (replicate 16 1) [1, 2, 3, 4, 5, 6] 7) 8 \<noteq>
   phase2 (replicate 16 1) (phase1 (replicate 16 1) [1, 2, 3, 4, 5, 6] 7) 9"
  using tkip_rc4key_unique [of "[1, 2, 3, 4, 5, 6]" "[1, 2, 3, 4, 5, 6]" "replicate 16 1" 7 8 7 9]
  by simp

text \<open>The two halves of the TKIP S-box hold, for each byte, twice and three times the AES S-box over
  GF(256), the second half with its bytes exchanged.
\<close>

lemma tkip_sbox_is_aes:
  "Sbox1 ! 0 ! unat x = Mk16 (gmul 2 (aes_sbox x)) (gmul 3 (aes_sbox x)) \<and>
   Sbox1 ! 1 ! unat x = Mk16 (gmul 3 (aes_sbox x)) (gmul 2 (aes_sbox x))"
proof -
  let ?a = "gmul 2 (aes_sbox x)" let ?b = "gmul 3 (aes_sbox x)"
  have te: "Te0 ! unat x = GETU32 [?a, aes_sbox x, aes_sbox x, ?b]"
    by (simp add: Te0_column gf_column_def)
  have "tkip_sbox_entry (Te0 ! unat x) (Sbox1 ! 0 ! unat x)"
    using nth_list_all2 [OF sbox1_low_check, of x] by (simp add: length_tables)
  then have low: "Sbox1 ! 0 ! unat x = Mk16 ?a ?b"
    unfolding te tkip_sbox_entry_def
    by (auto intro!: word_eqI_bits simp: Mk16_def GETU32_def word_bits)
  have "Sbox1 ! 1 ! unat x = push_bit 8 (Mk16 ?a ?b) OR drop_bit 8 (Mk16 ?a ?b)"
    using nth_list_all2 [OF sbox1_high_check, of x] list_all2_lengthD [OF sbox1_low_check]
    unfolding low by (simp add: length_tables)
  also have "\<dots> = Mk16 ?b ?a"
    by (rule word_eqI_bits) (auto simp: Mk16_def bit_simps)
  finally show ?thesis using low by simp
qed

end
