(* ===== verification/Legacy_Frames.thy ===== *)
theory Legacy_Frames
  imports Arcfour Checksums TKIP_Keys
begin

unbundle bit_operations_syntax

text \<open>
  WEP and TKIP encapsulation of whole frames (\<^verbatim>\<open>rtw_wep_encrypt\<close>, \<^verbatim>\<open>rtw_wep_decrypt\<close>,
  \<^verbatim>\<open>rtw_tkip_encrypt\<close>, \<^verbatim>\<open>rtw_tkip_decrypt\<close> of \<^verbatim>\<open>core/rtw_security.c\<close>).

  A transmit buffer holds the fragments of one frame one after the other, each at a multiple of four
  bytes; a fragment is a header, an IV, the payload and room for the integrity check value. Pointers
  are addresses, the bytes of the buffer start at \<^verbatim>\<open>buf_addr\<close> and address 0 is \<^verbatim>\<open>NULL\<close>. Reading or
  writing outside a buffer or an array is \<open>Oob\<close>.
\<close>

section \<open>State\<close>

definition WEP40 :: u8 where "WEP40 = 0x01"
definition TKIP :: u8 where "TKIP = 0x02"
definition WEP104 :: u8 where "WEP104 = 0x05"

text \<open>The three software counters of an operation: broadcast, multicast, unicast.\<close>

record sw_cnt =
  cnt_bc :: u64
  cnt_mc :: u64
  cnt_uc :: u64

record security_priv =
  dot11PrivacyKeyIndex :: nat
  dot11DefKey :: "bytes list"
  dot11DefKeylen :: "nat list"
  dot118021XGrpKeyid :: nat
  dot118021XGrpKey :: "bytes list"
  binstallGrpkey :: bool
  btkip_countermeasure :: bool
  btkip_countermeasure_time :: nat
  wep_sw_enc_cnt :: sw_cnt
  wep_sw_dec_cnt :: sw_cnt
  tkip_sw_enc_cnt :: sw_cnt
  tkip_sw_dec_cnt :: sw_cnt

record pkt_attrib =
  pa_encrypt :: u8
  pa_hdrlen :: nat
  pa_iv_len :: nat
  pa_icv_len :: nat
  pa_nr_frags :: nat
  pa_last_txcmdsz :: u32
  pa_ra :: bytes
  pa_ta :: bytes
  pa_UncstKey :: bytes

record xmit_frame =
  xf_attrib :: pkt_attrib
  xf_buf_addr :: nat
  xf_pkt_offset :: int
  xf_buf :: bytes

record rx_frame =
  rx_encrypt :: u8
  rx_hdrlen :: nat
  rx_iv_len :: nat
  rx_key_index :: nat
  rx_ra :: bytes
  rx_ta :: bytes
  rx_data :: bytes

section \<open>Helpers of the code\<close>

definition IS_MCAST :: "bytes \<Rightarrow> bool" where
  "IS_MCAST da \<longleftrightarrow> da ! 0 AND 1 \<noteq> 0"

definition is_broadcast_mac_addr :: "bytes \<Rightarrow> bool" where
  "is_broadcast_mac_addr a \<longleftrightarrow> a ! 0 = 0xff \<and> a ! 1 = 0xff \<and> a ! 2 = 0xff \<and> a ! 3 = 0xff \<and>
     a ! 4 = 0xff \<and> a ! 5 = 0xff"

definition SW_CNT_INC :: "sw_cnt \<Rightarrow> bytes \<Rightarrow> sw_cnt" where
  "SW_CNT_INC cnt ra =
     (if is_broadcast_mac_addr ra then cnt\<lparr>cnt_bc := cnt_bc cnt + 1\<rparr>
      else if IS_MCAST ra then cnt\<lparr>cnt_mc := cnt_mc cnt + 1\<rparr>
      else cnt\<lparr>cnt_uc := cnt_uc cnt + 1\<rparr>)"

definition RND4 :: "nat \<Rightarrow> nat" where
  "RND4 x = (x div 4 + (if x mod 4 = 0 then 0 else 1)) * 4"

definition TXDESC_SIZE :: int where "TXDESC_SIZE = 48"
definition PACKET_OFFSET_SZ :: int where "PACKET_OFFSET_SZ = 8"

text \<open>\<^verbatim>\<open>hw_hdr_offset\<close> is a \<^verbatim>\<open>u8\<close>.\<close>

definition hw_hdr_offset :: "xmit_frame \<Rightarrow> nat" where
  "hw_hdr_offset f = nat ((TXDESC_SIZE + xf_pkt_offset f * PACKET_OFFSET_SZ) mod 256)"

text \<open>Reading \<open>n\<close> bytes of a buffer from an offset.\<close>

definition c_read :: "bytes \<Rightarrow> nat \<Rightarrow> nat \<Rightarrow> bytes c_result" where
  "c_read buf off n = (if off + n \<le> length buf then Ret (take n (drop off buf)) else Oob)"

definition c_nth :: "'a list \<Rightarrow> nat \<Rightarrow> 'a c_result" where
  "c_nth xs i = (if i < length xs then Ret (xs ! i) else Oob)"

section \<open>One fragment\<close>

text \<open>
  Checksum, key set-up and encryption of one fragment, which both ciphers do with the same five
  statements. \<open>len\<close> is the \<^verbatim>\<open>sint length\<close>: as a loop bound of \<^verbatim>\<open>getcrc32\<close> a negative value reads
  nothing, as the \<^verbatim>\<open>u32\<close> argument of \<^verbatim>\<open>arcfour_encrypt\<close> it is at least \<open>2^31\<close>.
\<close>

definition frag_encrypt :: "bytes \<Rightarrow> nat \<Rightarrow> u32 \<Rightarrow> bytes \<Rightarrow> bytes c_result" where
  "frag_encrypt key off len buf =
     c_bind (c_read buf off (unat len)) (\<lambda>payload.
       if length buf < off + unat len + 4 then Oob
       else let crc = RTW_PUT_LE32 (getcrc32 (take (nat (sint len)) payload));
                ctx = arcfour_init key (length key);
                (body, ctx) = arcfour_encrypt ctx payload;
                (icv, ctx) = arcfour_encrypt ctx crc
            in Ret (memcpy_at buf off (body @ icv)))"

text \<open>
  The loop over the fragments: \<open>key_of\<close> derives the RC4 key from the \<open>n\<close> IV bytes it reads; the
  last fragment is as long as \<^verbatim>\<open>last_txcmdsz\<close> says, the others \<^verbatim>\<open>frag_len\<close>.
\<close>

definition frag_len_of :: "pkt_attrib \<Rightarrow> u32 \<Rightarrow> u32" where
  "frag_len_of pa sz = sz - of_nat (pa_hdrlen pa) - of_nat (pa_iv_len pa) - of_nat (pa_icv_len pa)"

primrec frags_encrypt ::
  "nat \<Rightarrow> (bytes \<Rightarrow> bytes c_result) \<Rightarrow> nat \<Rightarrow> pkt_attrib \<Rightarrow> u32 \<Rightarrow> nat \<Rightarrow> nat \<Rightarrow> bytes \<Rightarrow> bytes c_result" where
  "frags_encrypt 0 key_of n pa frag_len base pframe buf = Ret buf"
| "frags_encrypt (Suc k) key_of n pa frag_len base pframe buf =
     c_bind (c_read buf (pframe - base + pa_hdrlen pa) n) (\<lambda>iv.
     c_bind (key_of iv) (\<lambda>key.
       let payload = pframe - base + pa_iv_len pa + pa_hdrlen pa
       in if k = 0 then frag_encrypt key payload (frag_len_of pa (pa_last_txcmdsz pa)) buf
          else c_bind (frag_encrypt key payload (frag_len_of pa frag_len) buf)
                 (frags_encrypt k key_of n pa frag_len base (RND4 (pframe + unat frag_len)))))"

section \<open>WEP\<close>

text \<open>\<^verbatim>\<open>wepkey\<close> has 16 bytes and the key arrays have as many entries as their lists.\<close>

definition wep_key :: "security_priv \<Rightarrow> nat \<Rightarrow> bytes \<Rightarrow> bytes c_result" where
  "wep_key sec idx iv =
     c_bind (c_nth (dot11DefKeylen sec) idx) (\<lambda>keylength.
     c_bind (c_nth (dot11DefKey sec) idx) (\<lambda>skey.
     c_bind (c_read skey 0 keylength) (\<lambda>k.
       if 16 < 3 + keylength then Oob else Ret (take 3 iv @ k))))"

definition rtw_wep_encrypt ::
  "security_priv \<Rightarrow> u32 \<Rightarrow> xmit_frame \<Rightarrow> (security_priv \<times> xmit_frame) c_result" where
  "rtw_wep_encrypt sec frag_len f =
     (let pa = xf_attrib f
      in if xf_buf_addr f = 0 then Ret (sec, f)
         else if pa_encrypt pa = WEP40 \<or> pa_encrypt pa = WEP104
         then c_bind (frags_encrypt (pa_nr_frags pa) (wep_key sec (dot11PrivacyKeyIndex sec)) 3 pa
                frag_len (xf_buf_addr f) (xf_buf_addr f + hw_hdr_offset f) (xf_buf f)) (\<lambda>buf.
              Ret (sec\<lparr>wep_sw_enc_cnt := SW_CNT_INC (wep_sw_enc_cnt sec) (pa_ra pa)\<rparr>, f\<lparr>xf_buf := buf\<rparr>))
         else Ret (sec, f))"

text \<open>
  \<^verbatim>\<open>rtw_wep_decrypt\<close> decrypts payload and check value in place. It computes the CRC of the payload
  and drops it. The received length is that of the list; a negative payload length is \<open>Oob\<close>, since
  the decryption loop would run over \<open>2^31\<close> bytes.
\<close>

definition rtw_wep_decrypt :: "security_priv \<Rightarrow> rx_frame \<Rightarrow> (security_priv \<times> rx_frame) c_result" where
  "rtw_wep_decrypt sec f =
     (if rx_encrypt f = WEP40 \<or> rx_encrypt f = WEP104
      then c_bind (c_read (rx_data f) (rx_hdrlen f) 3) (\<lambda>iv.
           c_bind (wep_key sec (rx_key_index f) iv) (\<lambda>key.
             let off = rx_iv_len f + rx_hdrlen f
             in if length (rx_data f) < off then Oob
                else let payload = fst (arcfour_encrypt (arcfour_init key (length key)) (drop off (rx_data f)))
                     in Ret (sec\<lparr>wep_sw_dec_cnt := SW_CNT_INC (wep_sw_dec_cnt sec) (rx_ra f)\<rparr>,
                             f\<lparr>rx_data := take off (rx_data f) @ payload\<rparr>)))
      else Ret (sec, f))"

section \<open>TKIP\<close>

text \<open>
  \<^verbatim>\<open>GET_TKIP_PN\<close>: the 48-bit counter from the IV bytes, with its lower 16 and upper 32 bits; the two
  bytes of the union the macro leaves unset are shifted out.
\<close>

definition GET_TKIP_PN :: "bytes \<Rightarrow> u64" where
  "GET_TKIP_PN iv =
     (ucast (iv ! 2) OR push_bit 8 (ucast (iv ! 0)) OR push_bit 16 (ucast (iv ! 4)) OR
      push_bit 24 (ucast (iv ! 5)) OR push_bit 32 (ucast (iv ! 6)) OR push_bit 40 (ucast (iv ! 7)))"

definition tkip_rc4key :: "bytes \<Rightarrow> bytes \<Rightarrow> bytes \<Rightarrow> bytes" where
  "tkip_rc4key prwskey ta iv =
     (let pn = GET_TKIP_PN iv; pnl = ucast pn; pnh = ucast (drop_bit 16 pn)
      in phase2 prwskey (phase1 prwskey ta pnh) pnl)"

definition rtw_tkip_encrypt ::
  "security_priv \<Rightarrow> u32 \<Rightarrow> xmit_frame \<Rightarrow> (bool \<times> security_priv \<times> xmit_frame) c_result" where
  "rtw_tkip_encrypt sec frag_len f =
     (let pa = xf_attrib f
      in if xf_buf_addr f = 0 then Ret (False, sec, f)
         else if pa_encrypt pa = TKIP
         then c_bind (if IS_MCAST (pa_ra pa) then c_nth (dot118021XGrpKey sec) (dot118021XGrpKeyid sec)
                      else Ret (pa_UncstKey pa)) (\<lambda>prwskey.
              c_bind (frags_encrypt (pa_nr_frags pa) (\<lambda>iv. Ret (tkip_rc4key prwskey (pa_ta pa) iv)) 8 pa
                frag_len (xf_buf_addr f) (xf_buf_addr f + hw_hdr_offset f) (xf_buf f)) (\<lambda>buf.
              Ret (True, sec\<lparr>tkip_sw_enc_cnt := SW_CNT_INC (tkip_sw_enc_cnt sec) (pa_ra pa)\<rparr>,
                   f\<lparr>xf_buf := buf\<rparr>)))
         else Ret (True, sec, f))"

text \<open>
  The static variables of \<^verbatim>\<open>rtw_tkip_decrypt\<close> that count frames dropped for want of a group key.
  \<open>now\<close> is the current time and \<open>passing\<close> the milliseconds since a time stamp, both of the
  operating system.
\<close>

record gkey_stat =
  gk_start :: nat
  no_gkey_bc_cnt :: u32
  no_gkey_mc_cnt :: u32

definition no_gkey_drop :: "nat \<Rightarrow> (nat \<Rightarrow> nat) \<Rightarrow> bytes \<Rightarrow> gkey_stat \<Rightarrow> gkey_stat" where
  "no_gkey_drop now passing ra st =
     (let st = (if gk_start st = 0 then st\<lparr>gk_start := now\<rparr> else st);
          st = (if is_broadcast_mac_addr ra then st\<lparr>no_gkey_bc_cnt := no_gkey_bc_cnt st + 1\<rparr>
                else st\<lparr>no_gkey_mc_cnt := no_gkey_mc_cnt st + 1\<rparr>)
      in if 1000 < passing (gk_start st)
         then \<lparr>gk_start = now, no_gkey_bc_cnt = 0, no_gkey_mc_cnt = 0\<rparr> else st)"

text \<open>
  Decryption and check of one frame: the four CRC bytes are compared with the last four bytes of the
  decrypted frame. A payload shorter than four bytes makes the indices negative, and the comparison
  reads the IV in front of it.
\<close>

definition tkip_open :: "bytes \<Rightarrow> rx_frame \<Rightarrow> (bool \<times> bytes) c_result" where
  "tkip_open prwskey f =
     (let off = rx_iv_len f + rx_hdrlen f
      in c_bind (c_read (rx_data f) (rx_hdrlen f) 8) (\<lambda>iv.
         if length (rx_data f) < off then Oob
         else let key = tkip_rc4key prwskey (rx_ta f) iv;
                  payload = fst (arcfour_encrypt (arcfour_init key 16) (drop off (rx_data f)));
                  crc = RTW_PUT_LE32 (getcrc32 (take (length payload - 4) payload));
                  data = take off (rx_data f) @ payload;
                  n = length data
              in if n < 4 then Oob
                 else Ret (\<not> (crc ! 3 \<noteq> data ! (n - 1) \<or> crc ! 2 \<noteq> data ! (n - 2) \<or>
                           crc ! 1 \<noteq> data ! (n - 3) \<or> crc ! 0 \<noteq> data ! (n - 4)), data)))"

text \<open>
  \<open>find_sta\<close> is \<^verbatim>\<open>rtw_get_stainfo\<close> on the adapter's station table, reduced to the unicast key of the
  station it finds.
\<close>

definition rtw_tkip_decrypt ::
  "nat \<Rightarrow> (nat \<Rightarrow> nat) \<Rightarrow> (bytes \<Rightarrow> bytes option) \<Rightarrow> gkey_stat \<Rightarrow> security_priv \<Rightarrow> rx_frame \<Rightarrow>
     (bool \<times> gkey_stat \<times> security_priv \<times> rx_frame) c_result" where
  "rtw_tkip_decrypt now passing find_sta st sec f =
     (if rx_encrypt f = TKIP
      then case find_sta (rx_ta f) of
             Some uncst_key \<Rightarrow>
               if IS_MCAST (rx_ra f) \<and> \<not> binstallGrpkey sec
               then Ret (False, no_gkey_drop now passing (rx_ra f) st, sec, f)
               else let st = (if IS_MCAST (rx_ra f)
                              then \<lparr>gk_start = 0, no_gkey_bc_cnt = 0, no_gkey_mc_cnt = 0\<rparr> else st)
                    in c_bind (if IS_MCAST (rx_ra f) then c_nth (dot118021XGrpKey sec) (rx_key_index f)
                               else Ret uncst_key) (\<lambda>prwskey.
                       c_bind (tkip_open prwskey f) (\<lambda>(ok, data).
                         Ret (ok, st,
                              sec\<lparr>tkip_sw_dec_cnt := SW_CNT_INC (tkip_sw_dec_cnt sec) (rx_ra f)\<rparr>,
                              f\<lparr>rx_data := data\<rparr>)))
           | None \<Rightarrow> Ret (False, st, sec, f)
      else Ret (True, st, sec, f))"

section \<open>TKIP countermeasures\<close>

definition rtw_handle_tkip_countermeasure :: "(nat \<Rightarrow> nat) \<Rightarrow> security_priv \<Rightarrow> bool \<times> security_priv" where
  "rtw_handle_tkip_countermeasure passing sec =
     (if btkip_countermeasure sec
      then if 60 * 1000 < passing (btkip_countermeasure_time sec)
           then (True, sec\<lparr>btkip_countermeasure := False, btkip_countermeasure_time := 0\<rparr>)
           else (False, sec)
      else (True, sec))"

section \<open>A sealed fragment\<close>

text \<open>
  What a fragment holds after encryption: payload and CRC-32 of the payload under the RC4 key
  stream of the per-packet key.
\<close>

definition icv_seal :: "bytes \<Rightarrow> bytes \<Rightarrow> bytes" where
  "icv_seal key payload =
     xor_bytes (payload @ RTW_PUT_LE32 (getcrc32 payload))
       (rc4_stream (length payload + 4) (0, 0, rc4_schedule key))"

lemma length_icv_seal [simp, buf_len]: "length (icv_seal key payload) = length payload + 4"
  by (simp add: icv_seal_def)

lemma nat_sint_u32: "unat (w :: u32) < 2 ^ 31 \<Longrightarrow> nat (sint w) = unat w"
proof -
  assume a: "unat w < 2 ^ 31"
  have "uint w < 2 ^ 31" using a by (simp add: unat_eq_nat_uint nat_less_iff del: nat_uint_eq)
  moreover have "- (2 ^ 31) \<le> uint w" by (rule order_trans [OF _ uint_ge_0]) simp
  ultimately have "sint w = uint w" unfolding sint_uint
    by (intro signed_take_bit_int_eq_self) simp_all
  then show ?thesis by simp
qed

lemma frag_encrypt_seal:
  assumes "key \<noteq> []" and "unat len < 2 ^ 31" and "off + unat len + 4 \<le> length buf"
  shows "frag_encrypt key off len buf =
    Ret (memcpy_at buf off (icv_seal key (take (unat len) (drop off buf))))"
proof -
  let ?p = "take (unat len) (drop off buf)"
  have n: "nat (sint len) = unat len" by (rule nat_sint_u32 [OF assms(2)])
  have "fst (arcfour_encrypt (arcfour_init key (length key)) (?p @ RTW_PUT_LE32 (getcrc32 ?p))) =
      icv_seal key ?p"
    using arcfour_init_refines [OF assms(1)] by (simp add: arcfour_encrypt_stream icv_seal_def)
  then show ?thesis
    using assms(3) by (simp add: frag_encrypt_def c_read_def n arcfour_encrypt_append split_beta)
qed

lemma icv_unseal:
  assumes "key \<noteq> []"
  shows "fst (arcfour_encrypt (arcfour_init key (length key)) (icv_seal key payload)) =
    payload @ RTW_PUT_LE32 (getcrc32 payload)"
  using arcfour_init_refines [OF assms]
  by (simp add: arcfour_encrypt_stream icv_seal_def xor_bytes_cancel)

section \<open>All fragments of a frame\<close>

text \<open>Where the \<open>j\<close>-th fragment starts, and how long it is.\<close>

primrec frag_pos :: "u32 \<Rightarrow> nat \<Rightarrow> nat \<Rightarrow> nat" where
  "frag_pos frag_len p 0 = p"
| "frag_pos frag_len p (Suc j) = frag_pos frag_len (RND4 (p + unat frag_len)) j"

definition frag_size :: "pkt_attrib \<Rightarrow> u32 \<Rightarrow> nat \<Rightarrow> nat \<Rightarrow> nat" where
  "frag_size pa frag_len k j = unat (if Suc j = k then pa_last_txcmdsz pa else frag_len)"

definition frag_region :: "pkt_attrib \<Rightarrow> u32 \<Rightarrow> nat \<Rightarrow> nat \<Rightarrow> nat \<Rightarrow> nat \<Rightarrow> bytes \<Rightarrow> bytes" where
  "frag_region pa frag_len k base p j buf =
     take (frag_size pa frag_len k j) (drop (frag_pos frag_len p j - base) buf)"

text \<open>A fragment as it is before encryption: header, IV, payload, and four bytes for the ICV.\<close>

definition frag_payload :: "pkt_attrib \<Rightarrow> bytes \<Rightarrow> bytes" where
  "frag_payload pa frag = take (length frag - 4 - (pa_hdrlen pa + pa_iv_len pa)) (drop (pa_hdrlen pa + pa_iv_len pa) frag)"

definition sealed_frag :: "(bytes \<Rightarrow> bytes) \<Rightarrow> nat \<Rightarrow> pkt_attrib \<Rightarrow> bytes \<Rightarrow> bytes" where
  "sealed_frag key_of n pa frag =
     take (pa_hdrlen pa + pa_iv_len pa) frag @
     icv_seal (key_of (take n (drop (pa_hdrlen pa) frag))) (frag_payload pa frag)"

text \<open>The fragments lie inside the buffer, each with room for header, IV and ICV.\<close>

definition frags_fit :: "pkt_attrib \<Rightarrow> u32 \<Rightarrow> nat \<Rightarrow> nat \<Rightarrow> nat \<Rightarrow> nat \<Rightarrow> bool" where
  "frags_fit pa frag_len k base p n \<longleftrightarrow> base \<le> p \<and>
     (\<forall>j<k. frag_pos frag_len p j - base + frag_size pa frag_len k j \<le> n \<and>
        pa_hdrlen pa + pa_iv_len pa + 4 \<le> frag_size pa frag_len k j \<and>
        frag_size pa frag_len k j < 2 ^ 31)"

lemma RND4_ge: "x \<le> RND4 x"
  unfolding RND4_def by presburger

lemma frag_pos_ge: "p \<le> frag_pos frag_len p j"
proof (induction j arbitrary: p)
  case (Suc j)
  have "p \<le> RND4 (p + unat frag_len)" using RND4_ge [of "p + unat frag_len"] by simp
  then show ?case using Suc.IH [of "RND4 (p + unat frag_len)"] by simp
qed simp

lemma unat_minus_of_nat: "h \<le> unat (sz :: u32) \<Longrightarrow> unat (sz - of_nat h) = unat sz - h"
proof -
  assume a: "h \<le> unat sz"
  then have "h < 2 ^ 32" using unsigned_less [of sz, where 'a = nat] by simp
  then have h: "unat (of_nat h :: u32) = h" by (simp add: unat_of_nat)
  then show ?thesis using a unat_sub [of "of_nat h" sz] by (simp add: word_le_nat_alt)
qed

lemma unat_frag_len_of:
  assumes "pa_icv_len pa = 4" and "pa_hdrlen pa + pa_iv_len pa + 4 \<le> unat sz"
  shows "unat (frag_len_of pa sz) = unat sz - 4 - (pa_hdrlen pa + pa_iv_len pa)"
proof -
  have "frag_len_of pa sz = sz - of_nat (pa_hdrlen pa + pa_iv_len pa + 4)"
    by (simp add: frag_len_of_def assms(1) algebra_simps)
  then show ?thesis using unat_minus_of_nat [OF assms(2)] by simp
qed

lemma take_drop_memcpy_at:
  assumes "off + length src \<le> length buf" and "q + m \<le> off \<or> off + length src \<le> q"
  shows "take m (drop q (memcpy_at buf off src)) = take m (drop q buf)"
  using assms
proof (elim disjE)
  assume "q + m \<le> off"
  then have "take m (drop q xs) = take m (drop q (take off xs))" for xs :: bytes by (simp add: drop_take)
  from this [of buf] this [of "memcpy_at buf off src"] show ?thesis using assms(1) by simp
next
  assume "off + length src \<le> q"
  then have "drop q (memcpy_at buf off src) = drop q buf"
    using assms(1) by (simp add: memcpy_at_def)
  then show ?thesis by simp
qed

lemma take_drop_memcpy_within:
  assumes "off + length src \<le> length buf" and "q \<le> off" and "m = off - q + length src"
  shows "take m (drop q (memcpy_at buf off src)) = take (off - q) (drop q buf) @ src"
  using assms by (simp add: memcpy_at_def drop_take)

locale rc4_encapsulation =
  fixes key_of :: "bytes \<Rightarrow> bytes" and n :: nat
  assumes key_nonempty: "length iv = n \<Longrightarrow> key_of iv \<noteq> []"
begin

lemma one_frag:
  assumes "pa_icv_len pa = 4" and "n \<le> pa_iv_len pa"
    and "pa_hdrlen pa + pa_iv_len pa + 4 \<le> unat sz" and "unat sz < 2 ^ 31"
    and "q + unat sz \<le> length buf"
  defines "frag \<equiv> take (unat sz) (drop q buf)"
    and "off \<equiv> q + pa_iv_len pa + pa_hdrlen pa"
  shows "c_read buf (q + pa_hdrlen pa) n = Ret (take n (drop (pa_hdrlen pa) frag))"
    and "frag_encrypt (key_of (take n (drop (pa_hdrlen pa) frag))) off (frag_len_of pa sz) buf =
      Ret (memcpy_at buf off
        (icv_seal (key_of (take n (drop (pa_hdrlen pa) frag))) (frag_payload pa frag)))"
    and "off + length (icv_seal key (frag_payload pa frag)) = q + unat sz"
    and "take (unat sz) (drop q (memcpy_at buf off
        (icv_seal (key_of (take n (drop (pa_hdrlen pa) frag))) (frag_payload pa frag)))) =
      sealed_frag key_of n pa frag"
proof -
  have frag: "length frag = unat sz" using assms(5) by (simp add: frag_def)
  have len: "unat (frag_len_of pa sz) = unat sz - 4 - (pa_hdrlen pa + pa_iv_len pa)"
    by (rule unat_frag_len_of [OF assms(1,3)])
  show iv: "c_read buf (q + pa_hdrlen pa) n = Ret (take n (drop (pa_hdrlen pa) frag))"
    using assms(2,3,5) by (simp add: c_read_def frag_def drop_take add.commute)
  have payload: "take (unat (frag_len_of pa sz)) (drop off buf) = frag_payload pa frag"
    using assms(3,5) frag by (simp add: frag_payload_def len frag_def off_def drop_take add.commute add.left_commute)
  have "length (take n (drop (pa_hdrlen pa) frag)) = n" using assms(2,3) frag by simp
  then show "frag_encrypt (key_of (take n (drop (pa_hdrlen pa) frag))) off (frag_len_of pa sz) buf =
      Ret (memcpy_at buf off
        (icv_seal (key_of (take n (drop (pa_hdrlen pa) frag))) (frag_payload pa frag)))"
    unfolding payload [symmetric] using assms(3,4,5)
    by (intro frag_encrypt_seal key_nonempty) (simp_all add: len off_def)
  show size: "off + length (icv_seal key (frag_payload pa frag)) = q + unat sz" for key
    using assms(3) frag by (simp add: frag_payload_def off_def)
  show "take (unat sz) (drop q (memcpy_at buf off
        (icv_seal (key_of (take n (drop (pa_hdrlen pa) frag))) (frag_payload pa frag)))) =
      sealed_frag key_of n pa frag"
    using size assms(5)
    by (subst take_drop_memcpy_within)
      (auto simp: sealed_frag_def frag_def off_def add.commute min_def)
qed

lemma all_frags:
  assumes "pa_icv_len pa = 4" and "n \<le> pa_iv_len pa"
    and "frags_fit pa frag_len k base p (length buf)"
  shows "\<exists>buf'. frags_encrypt k (\<lambda>iv. Ret (key_of iv)) n pa frag_len base p buf = Ret buf' \<and>
    length buf' = length buf \<and> take (p - base) buf' = take (p - base) buf \<and>
    (\<forall>j<k. frag_region pa frag_len k base p j buf' =
       sealed_frag key_of n pa (frag_region pa frag_len k base p j buf))"
  using assms(3)
proof (induction k arbitrary: p buf)
  case (Suc k)
  let ?q = "p - base" and ?sz = "if k = 0 then pa_last_txcmdsz pa else frag_len"
  let ?frag = "take (unat ?sz) (drop ?q buf)" and ?off = "p - base + pa_iv_len pa + pa_hdrlen pa"
  let ?key = "key_of (take n (drop (pa_hdrlen pa) ?frag))"
  let ?src = "icv_seal ?key (frag_payload pa ?frag)"
  let ?buf = "memcpy_at buf ?off ?src"
  let ?p = "RND4 (p + unat frag_len)"
  have fit: "pa_hdrlen pa + pa_iv_len pa + 4 \<le> unat ?sz" "unat ?sz < 2 ^ 31"
    "?q + unat ?sz \<le> length buf" and base: "base \<le> p"
    using Suc.prems unfolding frags_fit_def by (force simp: frag_size_def dest: spec [of _ 0])+
  note one = one_frag [OF assms(1,2) fit]
  have src: "?off + length ?src = ?q + unat ?sz" using one(3) .
  have run: "frags_encrypt (Suc k) (\<lambda>iv. Ret (key_of iv)) n pa frag_len base p buf =
      (if k = 0 then Ret ?buf
       else frags_encrypt k (\<lambda>iv. Ret (key_of iv)) n pa frag_len base ?p ?buf)"
    using one(1,2) by (cases "k = 0") (simp_all add: Let_def)
  have len: "length ?buf = length buf" using src fit(3) by simp
  have "?off \<le> length buf" using src fit(3) by linarith
  then have pre: "take ?q ?buf = take ?q buf" by (intro take_memcpy_at) simp_all
  show ?case
  proof (cases "k = 0")
    case True
    then show ?thesis
      using run len pre one(4) by (simp add: frag_region_def frag_size_def)
  next
    case False
    have p: "?q + unat frag_len \<le> ?p - base" using RND4_ge [of "p + unat frag_len"] base by simp
    have shift: "frag_region pa frag_len (Suc k) base p (Suc j) b = frag_region pa frag_len k base ?p j b"
      for j b by (simp add: frag_region_def frag_size_def)
    have "frags_fit pa frag_len k base ?p (length ?buf)"
      using Suc.prems base RND4_ge [of "p + unat frag_len"] unfolding frags_fit_def len
      by (force simp: frag_size_def dest: spec [of _ "Suc _"])
    from Suc.IH [OF this] obtain buf' where
      buf': "frags_encrypt k (\<lambda>iv. Ret (key_of iv)) n pa frag_len base ?p ?buf = Ret buf'"
      "length buf' = length ?buf" "take (?p - base) buf' = take (?p - base) ?buf"
      "\<forall>j<k. frag_region pa frag_len k base ?p j buf' =
         sealed_frag key_of n pa (frag_region pa frag_len k base ?p j ?buf)"
      by blast
    have inside: "take m (drop r buf') = take m (drop r ?buf)" if "r + m \<le> ?p - base" for r m
    proof -
      have cut: "take m (drop r xs) = take m (drop r (take (?p - base) xs))" for xs :: bytes
        using that by (simp add: drop_take)
      show ?thesis unfolding cut [of buf'] cut [of ?buf] buf'(3) ..
    qed
    have first: "frag_region pa frag_len (Suc k) base p 0 buf' = sealed_frag key_of n pa
        (frag_region pa frag_len (Suc k) base p 0 buf)"
    proof -
      have "frag_region pa frag_len (Suc k) base p 0 b = take (unat ?sz) (drop ?q b)" for b
        using False by (simp add: frag_region_def frag_size_def)
      moreover have "take (unat ?sz) (drop ?q buf') = take (unat ?sz) (drop ?q ?buf)"
        by (rule inside) (use p False in simp)
      ultimately show ?thesis using one(4) by (simp only:)
    qed
    have rest: "frag_region pa frag_len k base ?p j ?buf = frag_region pa frag_len k base ?p j buf" for j
    proof -
      have "?p \<le> frag_pos frag_len ?p j" by (rule frag_pos_ge)
      then have "?off + length ?src \<le> frag_pos frag_len ?p j - base" using src p False by simp
      moreover have "?off + length ?src \<le> length buf" using src fit(3) by simp
      ultimately show ?thesis unfolding frag_region_def by (intro take_drop_memcpy_at disjI2)
    qed
    have "\<forall>j<Suc k. frag_region pa frag_len (Suc k) base p j buf' =
       sealed_frag key_of n pa (frag_region pa frag_len (Suc k) base p j buf)"
      using first buf'(4) unfolding rest by (auto simp: less_Suc_eq_0_disj shift)
    moreover have "take ?q buf' = take ?q buf" using inside [of 0 ?q] p pre by simp
    ultimately show ?thesis using run False buf' len by auto
  qed
qed (simp add: frags_fit_def)

end

section \<open>The two ciphers\<close>

interpretation wep: rc4_encapsulation "\<lambda>iv. take 3 iv @ k" 3 for k :: bytes
  by unfold_locales auto

lemma length_phase2 [simp, buf_len]: "length (phase2 tk p1k iv16) = 16"
  by (simp add: phase2_def Let_def)

lemma length_tkip_rc4key [simp, buf_len]: "length (tkip_rc4key tk ta iv) = 16"
  by (simp add: tkip_rc4key_def Let_def)

interpretation tkip: rc4_encapsulation "tkip_rc4key tk ta" 8 for tk ta :: bytes
  by unfold_locales (metis length_tkip_rc4key list.size(3) zero_neq_numeral)

text \<open>The WEP key of a slot: at most 13 bytes of the stored key.\<close>

definition wep_slot :: "security_priv \<Rightarrow> nat \<Rightarrow> bytes \<Rightarrow> bool" where
  "wep_slot sec idx k \<longleftrightarrow> idx < length (dot11DefKeylen sec) \<and> idx < length (dot11DefKey sec) \<and>
     length k = dot11DefKeylen sec ! idx \<and> length k \<le> 13 \<and>
     k = take (length k) (dot11DefKey sec ! idx)"

lemma wep_key_slot: "wep_slot sec idx k \<Longrightarrow> wep_key sec idx = (\<lambda>iv. Ret (take 3 iv @ k))"
  by (rule ext) (auto simp: wep_slot_def wep_key_def c_nth_def c_read_def dest: sym [of k])

text \<open>A received frame made of one transmitted fragment.\<close>

definition rx_of_frag :: "pkt_attrib \<Rightarrow> nat \<Rightarrow> bytes \<Rightarrow> rx_frame" where
  "rx_of_frag pa idx frag =
     \<lparr>rx_encrypt = pa_encrypt pa, rx_hdrlen = pa_hdrlen pa, rx_iv_len = pa_iv_len pa,
      rx_key_index = idx, rx_ra = pa_ra pa, rx_ta = pa_ta pa, rx_data = frag\<rparr>"

definition frame_fits :: "xmit_frame \<Rightarrow> u32 \<Rightarrow> bool" where
  "frame_fits f frag_len \<longleftrightarrow> xf_buf_addr f \<noteq> 0 \<and> pa_icv_len (xf_attrib f) = 4 \<and>
     frags_fit (xf_attrib f) frag_len (pa_nr_frags (xf_attrib f)) (xf_buf_addr f)
       (xf_buf_addr f + hw_hdr_offset f) (length (xf_buf f))"

abbreviation tx_frag :: "xmit_frame \<Rightarrow> u32 \<Rightarrow> nat \<Rightarrow> bytes \<Rightarrow> bytes" where
  "tx_frag f frag_len j \<equiv> frag_region (xf_attrib f) frag_len (pa_nr_frags (xf_attrib f)) (xf_buf_addr f)
     (xf_buf_addr f + hw_hdr_offset f) j"

lemma frame_fits_frag:
  assumes "frame_fits f frag_len" and "j < pa_nr_frags (xf_attrib f)"
  shows "pa_hdrlen (xf_attrib f) + pa_iv_len (xf_attrib f) + 4 \<le> length (tx_frag f frag_len j (xf_buf f))"
  using assms by (auto simp: frame_fits_def frags_fit_def frag_region_def)

text \<open>Taking a sealed fragment apart again.\<close>

lemma sealed_frag_parts:
  assumes "pa_hdrlen pa + pa_iv_len pa + 4 \<le> length frag" and "n \<le> pa_iv_len pa"
  shows "take n (drop (pa_hdrlen pa) (sealed_frag key_of n pa frag)) = take n (drop (pa_hdrlen pa) frag)"
    and "take (pa_hdrlen pa + pa_iv_len pa) (sealed_frag key_of n pa frag) = take (pa_hdrlen pa + pa_iv_len pa) frag"
    and "drop (pa_hdrlen pa + pa_iv_len pa) (sealed_frag key_of n pa frag) =
      icv_seal (key_of (take n (drop (pa_hdrlen pa) frag))) (frag_payload pa frag)"
    and "length (sealed_frag key_of n pa frag) = length frag"
  using assms by (auto simp: sealed_frag_def frag_payload_def drop_take)

lemma wep_decrypt_sealed:
  assumes "wep_slot sec idx k" and "pa_encrypt pa = WEP40 \<or> pa_encrypt pa = WEP104"
    and "pa_hdrlen pa + pa_iv_len pa + 4 \<le> length frag" and "3 \<le> pa_iv_len pa"
  shows "rtw_wep_decrypt sec (rx_of_frag pa idx (sealed_frag (\<lambda>iv. take 3 iv @ k) 3 pa frag)) =
    Ret (sec\<lparr>wep_sw_dec_cnt := SW_CNT_INC (wep_sw_dec_cnt sec) (pa_ra pa)\<rparr>,
      rx_of_frag pa idx (take (pa_hdrlen pa + pa_iv_len pa) frag @ frag_payload pa frag @
        RTW_PUT_LE32 (getcrc32 (frag_payload pa frag))))"
proof -
  note parts = sealed_frag_parts [OF assms(3,4), of "\<lambda>iv. take 3 iv @ k"]
  let ?iv = "take 3 (drop (pa_hdrlen pa) frag)"
  have "take 3 ?iv @ k \<noteq> []" using assms(3,4) by auto
  note unseal = icv_unseal [OF this, of "frag_payload pa frag"]
  show ?thesis
    using assms parts unseal wep_key_slot [OF assms(1)]
    by (simp add: rtw_wep_decrypt_def rx_of_frag_def c_read_def Let_def add.commute)
qed

lemma last_four: "4 \<le> length xs \<Longrightarrow>
  drop (length xs - 4) xs = [xs ! (length xs - 4), xs ! (length xs - 3), xs ! (length xs - 2), xs ! (length xs - 1)]"
  by (rule nth_equalityI) (auto simp: nth_Cons' eval_nat_numeral less_Suc_eq intro!: arg_cong [of _ _ "nth xs"])

lemma icv_compare:
  "4 \<le> length xs \<Longrightarrow>
   (\<not> (RTW_PUT_LE32 c ! 3 \<noteq> xs ! (length xs - 1) \<or> RTW_PUT_LE32 c ! 2 \<noteq> xs ! (length xs - 2) \<or>
       RTW_PUT_LE32 c ! 1 \<noteq> xs ! (length xs - 3) \<or> RTW_PUT_LE32 c ! 0 \<noteq> xs ! (length xs - 4))) \<longleftrightarrow>
   drop (length xs - 4) xs = RTW_PUT_LE32 c"
  unfolding last_four by (auto simp: RTW_PUT_LE32_def)

text \<open>What a received frame decrypts to under the mixed key.\<close>

definition tkip_plain :: "bytes \<Rightarrow> rx_frame \<Rightarrow> bytes" where
  "tkip_plain tk f = fst (arcfour_encrypt (arcfour_init (tkip_rc4key tk (rx_ta f)
      (take 8 (drop (rx_hdrlen f) (rx_data f)))) 16) (drop (rx_iv_len f + rx_hdrlen f) (rx_data f)))"

text \<open>The four comparisons of \<^verbatim>\<open>rtw_tkip_decrypt\<close> compare the last four bytes with the CRC.\<close>

lemma tkip_open_iff:
  assumes "rx_hdrlen f + 8 \<le> length (rx_data f)" and "rx_iv_len f + rx_hdrlen f + 4 \<le> length (rx_data f)"
  shows "tkip_open tk f =
    Ret (drop (length (tkip_plain tk f) - 4) (tkip_plain tk f) =
         RTW_PUT_LE32 (getcrc32 (take (length (tkip_plain tk f) - 4) (tkip_plain tk f))),
      take (rx_iv_len f + rx_hdrlen f) (rx_data f) @ tkip_plain tk f)"
proof -
  let ?plain = "tkip_plain tk f"
  let ?data = "take (rx_iv_len f + rx_hdrlen f) (rx_data f) @ ?plain"
  have plain: "4 \<le> length ?plain" using assms(2) by (simp add: tkip_plain_def)
  then have "drop (length ?plain - 4) ?plain = drop (length ?data - 4) ?data" by simp
  then have "(\<not> (crc ! 3 \<noteq> ?data ! (length ?data - 1) \<or> crc ! 2 \<noteq> ?data ! (length ?data - 2) \<or>
      crc ! 1 \<noteq> ?data ! (length ?data - 3) \<or> crc ! 0 \<noteq> ?data ! (length ?data - 4))) \<longleftrightarrow>
      drop (length ?plain - 4) ?plain = crc" if "crc = RTW_PUT_LE32 c" for crc c
    using icv_compare [of ?data c] plain that by simp
  moreover have "\<not> length ?data < 4" using plain by simp
  moreover have "c_read (rx_data f) (rx_hdrlen f) 8 = Ret (take 8 (drop (rx_hdrlen f) (rx_data f)))"
    "\<not> length (rx_data f) < rx_iv_len f + rx_hdrlen f"
    using assms by (simp_all add: c_read_def)
  ultimately show ?thesis
    unfolding tkip_open_def Let_def by (simp only: c_bind.simps tkip_plain_def [symmetric] if_False refl)
qed

lemma tkip_open_sealed:
  assumes "pa_hdrlen pa + pa_iv_len pa + 4 \<le> length frag" and "8 \<le> pa_iv_len pa"
  shows "tkip_open tk (rx_of_frag pa idx (sealed_frag (tkip_rc4key tk (pa_ta pa)) 8 pa frag)) =
    Ret (True, take (pa_hdrlen pa + pa_iv_len pa) frag @ frag_payload pa frag @
        RTW_PUT_LE32 (getcrc32 (frag_payload pa frag)))"
proof -
  note parts = sealed_frag_parts [OF assms, of "tkip_rc4key tk (pa_ta pa)"]
  let ?key = "tkip_rc4key tk (pa_ta pa) (take 8 (drop (pa_hdrlen pa) frag))"
  have "?key \<noteq> []" using length_tkip_rc4key by (metis list.size(3) zero_neq_numeral)
  note unseal = icv_unseal [OF this, of "frag_payload pa frag"]
  show ?thesis
    using assms parts unseal
    by (subst tkip_open_iff) (simp_all add: rx_of_frag_def tkip_plain_def add.commute)
qed

section \<open>Properties\<close>

abbreviation clear_frag :: "pkt_attrib \<Rightarrow> bytes \<Rightarrow> bytes" where
  "clear_frag pa frag \<equiv> take (pa_hdrlen pa + pa_iv_len pa) frag @ frag_payload pa frag @
     RTW_PUT_LE32 (getcrc32 (frag_payload pa frag))"

text \<open>WEP round trip of a whole frame: when the fragments fit the transmit buffer and the default key has
  at most 13 bytes, \<^verbatim>\<open>rtw_wep_encrypt\<close> stays inside the buffer, counts the frame, and every fragment
  it leaves there, received and passed to \<^verbatim>\<open>rtw_wep_decrypt\<close>, comes back with its header, IV and
  payload followed by the CRC-32 of the payload.
\<close>

lemma wep_frame_roundtrip:
  assumes "frame_fits f frag_len" and "pa_encrypt (xf_attrib f) = WEP40 \<or> pa_encrypt (xf_attrib f) = WEP104"
    and "3 \<le> pa_iv_len (xf_attrib f)" and "wep_slot sec (dot11PrivacyKeyIndex sec) k"
  shows "\<exists>buf. rtw_wep_encrypt sec frag_len f =
      Ret (sec\<lparr>wep_sw_enc_cnt := SW_CNT_INC (wep_sw_enc_cnt sec) (pa_ra (xf_attrib f))\<rparr>, f\<lparr>xf_buf := buf\<rparr>) \<and>
    (\<forall>j<pa_nr_frags (xf_attrib f).
       rtw_wep_decrypt sec (rx_of_frag (xf_attrib f) (dot11PrivacyKeyIndex sec) (tx_frag f frag_len j buf)) =
         Ret (sec\<lparr>wep_sw_dec_cnt := SW_CNT_INC (wep_sw_dec_cnt sec) (pa_ra (xf_attrib f))\<rparr>,
           rx_of_frag (xf_attrib f) (dot11PrivacyKeyIndex sec)
             (clear_frag (xf_attrib f) (tx_frag f frag_len j (xf_buf f)))))"
proof -
  let ?pa = "xf_attrib f"
  have fit: "xf_buf_addr f \<noteq> 0" "pa_icv_len ?pa = 4" "frags_fit ?pa frag_len (pa_nr_frags ?pa) (xf_buf_addr f)
      (xf_buf_addr f + hw_hdr_offset f) (length (xf_buf f))"
    using assms(1) by (simp_all add: frame_fits_def)
  from wep.all_frags [OF fit(2) assms(3) fit(3), of k] obtain buf where
    run: "frags_encrypt (pa_nr_frags ?pa) (\<lambda>iv. Ret (take 3 iv @ k)) 3 ?pa frag_len (xf_buf_addr f)
      (xf_buf_addr f + hw_hdr_offset f) (xf_buf f) = Ret buf"
    and sealed: "\<forall>j<pa_nr_frags ?pa. tx_frag f frag_len j buf =
      sealed_frag (\<lambda>iv. take 3 iv @ k) 3 ?pa (tx_frag f frag_len j (xf_buf f))"
    by blast
  have "rtw_wep_encrypt sec frag_len f = Ret (sec\<lparr>wep_sw_enc_cnt :=
      SW_CNT_INC (wep_sw_enc_cnt sec) (pa_ra ?pa)\<rparr>, f\<lparr>xf_buf := buf\<rparr>)"
    unfolding rtw_wep_encrypt_def Let_def wep_key_slot [OF assms(4)] run using fit(1) assms(2) by simp
  moreover have "rtw_wep_decrypt sec (rx_of_frag ?pa (dot11PrivacyKeyIndex sec) (tx_frag f frag_len j buf)) =
      Ret (sec\<lparr>wep_sw_dec_cnt := SW_CNT_INC (wep_sw_dec_cnt sec) (pa_ra ?pa)\<rparr>,
        rx_of_frag ?pa (dot11PrivacyKeyIndex sec) (clear_frag ?pa (tx_frag f frag_len j (xf_buf f))))"
    if "j < pa_nr_frags ?pa" for j
    using wep_decrypt_sealed [OF assms(4,2) frame_fits_frag [OF assms(1) that] assms(3)] sealed that by simp
  ultimately show ?thesis by blast
qed

text \<open>C22.
  TKIP round trip of a whole frame, unicast or group addressed: every fragment \<^verbatim>\<open>rtw_tkip_encrypt\<close>
  leaves in the buffer is accepted by \<^verbatim>\<open>rtw_tkip_decrypt\<close> of a receiver that knows the transmitter
  and holds the same key, and comes back with its header, IV and payload followed by its ICV.
\<close>

theorem tkip_frame_roundtrip:
  assumes "frame_fits f frag_len" and "pa_encrypt (xf_attrib f) = TKIP" and "8 \<le> pa_iv_len (xf_attrib f)"
    and "find_sta (pa_ta (xf_attrib f)) = Some (pa_UncstKey (xf_attrib f))"
    and "IS_MCAST (pa_ra (xf_attrib f)) \<Longrightarrow>
      binstallGrpkey sec \<and> dot118021XGrpKeyid sec < length (dot118021XGrpKey sec)"
  shows "\<exists>buf. rtw_tkip_encrypt sec frag_len f =
      Ret (True, sec\<lparr>tkip_sw_enc_cnt := SW_CNT_INC (tkip_sw_enc_cnt sec) (pa_ra (xf_attrib f))\<rparr>,
        f\<lparr>xf_buf := buf\<rparr>) \<and>
    (\<forall>j<pa_nr_frags (xf_attrib f). \<exists>st' sec'.
       rtw_tkip_decrypt now passing find_sta st sec
         (rx_of_frag (xf_attrib f) (dot118021XGrpKeyid sec) (tx_frag f frag_len j buf)) =
         Ret (True, st', sec', rx_of_frag (xf_attrib f) (dot118021XGrpKeyid sec)
             (clear_frag (xf_attrib f) (tx_frag f frag_len j (xf_buf f)))))"
proof -
  let ?pa = "xf_attrib f"
  define tk where "tk = (if IS_MCAST (pa_ra ?pa) then dot118021XGrpKey sec ! dot118021XGrpKeyid sec
    else pa_UncstKey ?pa)"
  have fit: "xf_buf_addr f \<noteq> 0" "pa_icv_len ?pa = 4" "frags_fit ?pa frag_len (pa_nr_frags ?pa) (xf_buf_addr f)
      (xf_buf_addr f + hw_hdr_offset f) (length (xf_buf f))"
    using assms(1) by (simp_all add: frame_fits_def)
  from tkip.all_frags [OF fit(2) assms(3) fit(3), of tk "pa_ta ?pa"] obtain buf where
    run: "frags_encrypt (pa_nr_frags ?pa) (\<lambda>iv. Ret (tkip_rc4key tk (pa_ta ?pa) iv)) 8 ?pa frag_len (xf_buf_addr f)
      (xf_buf_addr f + hw_hdr_offset f) (xf_buf f) = Ret buf"
    and sealed: "\<forall>j<pa_nr_frags ?pa. tx_frag f frag_len j buf =
      sealed_frag (tkip_rc4key tk (pa_ta ?pa)) 8 ?pa (tx_frag f frag_len j (xf_buf f))"
    by blast
  have key: "(if IS_MCAST (pa_ra ?pa) then c_nth (dot118021XGrpKey sec) (dot118021XGrpKeyid sec)
      else Ret (pa_UncstKey ?pa)) = Ret tk"
    using assms(5) by (simp add: tk_def c_nth_def)
  have "rtw_tkip_encrypt sec frag_len f = Ret (True, sec\<lparr>tkip_sw_enc_cnt :=
      SW_CNT_INC (tkip_sw_enc_cnt sec) (pa_ra ?pa)\<rparr>, f\<lparr>xf_buf := buf\<rparr>)"
    unfolding rtw_tkip_encrypt_def Let_def key using fit(1) assms(2) run by simp
  moreover have "\<exists>st' sec'. rtw_tkip_decrypt now passing find_sta st sec
      (rx_of_frag ?pa (dot118021XGrpKeyid sec) (tx_frag f frag_len j buf)) =
      Ret (True, st', sec', rx_of_frag ?pa (dot118021XGrpKeyid sec)
        (clear_frag ?pa (tx_frag f frag_len j (xf_buf f))))" if "j < pa_nr_frags ?pa" for j
    using tkip_open_sealed [OF frame_fits_frag [OF assms(1) that] assms(3), of tk "dot118021XGrpKeyid sec"]
      sealed that key assms(2,4,5)
    by (auto simp: rtw_tkip_decrypt_def rx_of_frag_def Let_def)
  ultimately show ?thesis by blast
qed

text \<open>A frame of two fragments of 40 and 37 bytes behind a 48-byte descriptor, and its keys.\<close>

definition sample_frame :: "u8 \<Rightarrow> nat \<Rightarrow> xmit_frame" where
  "sample_frame enc iv =
     \<lparr>xf_attrib = \<lparr>pa_encrypt = enc, pa_hdrlen = 24, pa_iv_len = iv, pa_icv_len = 4, pa_nr_frags = 2,
        pa_last_txcmdsz = 37, pa_ra = [2, 0, 0, 0, 0, 1], pa_ta = [2, 0, 0, 0, 0, 2],
        pa_UncstKey = replicate 32 7\<rparr>,
      xf_buf_addr = 4096, xf_pkt_offset = 0, xf_buf = replicate 200 5\<rparr>"

definition sample_security :: security_priv where
  "sample_security =
     (let c = \<lparr>cnt_bc = 0, cnt_mc = 0, cnt_uc = 0\<rparr>
      in \<lparr>dot11PrivacyKeyIndex = 1, dot11DefKey = replicate 6 (replicate 32 9), dot11DefKeylen = replicate 6 5,
       dot118021XGrpKeyid = 1, dot118021XGrpKey = replicate 6 (replicate 32 3), binstallGrpkey = True,
       btkip_countermeasure = False, btkip_countermeasure_time = 0, wep_sw_enc_cnt = c, wep_sw_dec_cnt = c,
       tkip_sw_enc_cnt = c, tkip_sw_dec_cnt = c\<rparr>)"

lemma all_less_2: "(\<forall>j<2. P j) \<longleftrightarrow> P 0 \<and> P (Suc 0)"
  by (auto simp: less_2_cases_iff)

lemma sample_fits: "iv \<le> 8 \<Longrightarrow> frame_fits (sample_frame enc iv) 40"
  by (simp add: frame_fits_def frags_fit_def sample_frame_def hw_hdr_offset_def TXDESC_SIZE_def
      frag_size_def RND4_def all_less_2)

lemma sample_slot: "wep_slot sample_security (dot11PrivacyKeyIndex sample_security) (replicate 5 9)"
  by (simp add: wep_slot_def sample_security_def Let_def)

lemma wep_frame_roundtrip_witness:
  "\<exists>buf. rtw_wep_encrypt sample_security 40 (sample_frame WEP104 4) =
      Ret (sample_security\<lparr>wep_sw_enc_cnt := SW_CNT_INC (wep_sw_enc_cnt sample_security)
          (pa_ra (xf_attrib (sample_frame WEP104 4)))\<rparr>, (sample_frame WEP104 4)\<lparr>xf_buf := buf\<rparr>) \<and>
     (\<forall>j<pa_nr_frags (xf_attrib (sample_frame WEP104 4)). \<exists>sec'.
       rtw_wep_decrypt sample_security (rx_of_frag (xf_attrib (sample_frame WEP104 4))
           (dot11PrivacyKeyIndex sample_security) (tx_frag (sample_frame WEP104 4) 40 j buf)) =
         Ret (sec', rx_of_frag (xf_attrib (sample_frame WEP104 4)) (dot11PrivacyKeyIndex sample_security)
             (clear_frag (xf_attrib (sample_frame WEP104 4))
               (tx_frag (sample_frame WEP104 4) 40 j (xf_buf (sample_frame WEP104 4))))))"
proof -
  have a: "pa_encrypt (xf_attrib (sample_frame WEP104 4)) = WEP40 \<or>
      pa_encrypt (xf_attrib (sample_frame WEP104 4)) = WEP104" "3 \<le> pa_iv_len (xf_attrib (sample_frame WEP104 4))"
    by (simp_all add: sample_frame_def)
  show ?thesis using wep_frame_roundtrip [OF sample_fits a sample_slot] by fastforce
qed

theorem tkip_frame_roundtrip_witness:
  "\<exists>buf. (\<exists>sec' f'. rtw_tkip_encrypt sample_security 40 (sample_frame TKIP 8) = Ret (True, sec', f') \<and>
       xf_buf f' = buf) \<and>
     (\<forall>j<pa_nr_frags (xf_attrib (sample_frame TKIP 8)). \<exists>st' sec'.
       rtw_tkip_decrypt 5 (\<lambda>_. 0) (\<lambda>_. Some (replicate 32 7)) \<lparr>gk_start = 0, no_gkey_bc_cnt = 0, no_gkey_mc_cnt = 0\<rparr>
         sample_security (rx_of_frag (xf_attrib (sample_frame TKIP 8)) (dot118021XGrpKeyid sample_security)
           (tx_frag (sample_frame TKIP 8) 40 j buf)) =
         Ret (True, st', sec', rx_of_frag (xf_attrib (sample_frame TKIP 8)) (dot118021XGrpKeyid sample_security)
             (clear_frag (xf_attrib (sample_frame TKIP 8))
               (tx_frag (sample_frame TKIP 8) 40 j (xf_buf (sample_frame TKIP 8))))))"
proof -
  have a: "pa_encrypt (xf_attrib (sample_frame TKIP 8)) = TKIP" "8 \<le> pa_iv_len (xf_attrib (sample_frame TKIP 8))"
    "Some (replicate 32 7) = Some (pa_UncstKey (xf_attrib (sample_frame TKIP 8)))"
    "binstallGrpkey sample_security \<and> dot118021XGrpKeyid sample_security < length (dot118021XGrpKey sample_security)"
    by (simp_all add: sample_frame_def sample_security_def Let_def)
  show ?thesis
    using tkip_frame_roundtrip [OF sample_fits a(1,2), of "\<lambda>_. Some (replicate 32 7)", OF _ a(3,4), of 5 "\<lambda>_. 0"
        "\<lparr>gk_start = 0, no_gkey_bc_cnt = 0, no_gkey_mc_cnt = 0\<rparr>"]
    by fastforce
qed

text \<open>C23.
  The outcome of \<^verbatim>\<open>rtw_tkip_decrypt\<close> on a TKIP frame that holds an IV and at least an ICV, in every case.
  From an unknown transmitter nothing changes. A group frame without a group key fails, leaves frame
  and keys alone and is counted as broadcast or multicast, in windows of one second whose counters start over when
  the second is past. In all other cases the payload is decrypted in place and counted, the drop
  counters are cleared by a group frame, and the frame is accepted exactly when the last four
  decrypted bytes are the CRC-32 of the rest, least significant byte first.
\<close>

theorem tkip_decrypt_outcome:
  assumes "rx_encrypt f = TKIP" and "rx_hdrlen f + 8 \<le> length (rx_data f)"
    and "rx_iv_len f + rx_hdrlen f + 4 \<le> length (rx_data f)"
    and "IS_MCAST (rx_ra f) \<Longrightarrow> rx_key_index f < length (dot118021XGrpKey sec)"
  shows "\<exists>ok st' sec' f'. rtw_tkip_decrypt now passing find_sta st sec f = Ret (ok, st', sec', f') \<and>
    (let group = IS_MCAST (rx_ra f); bc = (\<forall>i \<in> {0, 1, 2, 3, 4, 5}. rx_ra f ! i = 0xff) in
     case find_sta (rx_ta f) of
       None \<Rightarrow> \<not> ok \<and> st' = st \<and> sec' = sec \<and> f' = f
     | Some key \<Rightarrow>
         if group \<and> \<not> binstallGrpkey sec
         then \<not> ok \<and> sec' = sec \<and> f' = f \<and>
           (let start = (if gk_start st = 0 then now else gk_start st)
            in if 1000 < passing start
               then gk_start st' = now \<and> no_gkey_bc_cnt st' = 0 \<and> no_gkey_mc_cnt st' = 0
               else gk_start st' = start \<and> no_gkey_bc_cnt st' = no_gkey_bc_cnt st + of_bool bc \<and>
                 no_gkey_mc_cnt st' = no_gkey_mc_cnt st + of_bool (\<not> bc))
         else
           (let plain = tkip_plain (if group then dot118021XGrpKey sec ! rx_key_index f else key) f;
                n = length plain - 4; c = tkip_sw_dec_cnt sec; c' = tkip_sw_dec_cnt sec'
            in (ok \<longleftrightarrow> drop n plain = rev (be_bytes 4 (getcrc32 (take n plain)))) \<and>
               f' = f\<lparr>rx_data := take (rx_iv_len f + rx_hdrlen f) (rx_data f) @ plain\<rparr> \<and>
               sec' = sec\<lparr>tkip_sw_dec_cnt := c'\<rparr> \<and> cnt_bc c' = cnt_bc c + of_bool bc \<and>
               cnt_mc c' = cnt_mc c + of_bool (group \<and> \<not> bc) \<and> cnt_uc c' = cnt_uc c + of_bool (\<not> group \<and> \<not> bc) \<and>
               (if group then gk_start st' = 0 \<and> no_gkey_bc_cnt st' = 0 \<and> no_gkey_mc_cnt st' = 0 else st' = st)))"
proof -
  have bc: "(\<forall>i \<in> {0, 1, 2, 3, 4, 5}. rx_ra f ! i = 0xff) \<longleftrightarrow> is_broadcast_mac_addr (rx_ra f)"
    by (simp add: is_broadcast_mac_addr_def)
  have le: "rev (be_bytes 4 w) = RTW_PUT_LE32 w" for w :: u32
    by (simp add: put_is_be_bytes [symmetric] RTW_PUT_BE32_def RTW_PUT_LE32_def)
  have no: "Ex Not" by (rule exI [of _ False]) simp
  note open_iff = tkip_open_iff [OF assms(2,3)]
  show ?thesis
  proof (cases "find_sta (rx_ta f)")
    case None
    then show ?thesis using assms(1) by (simp add: rtw_tkip_decrypt_def Let_def no)
  next
    case (Some key)
    show ?thesis
    proof (cases "IS_MCAST (rx_ra f) \<and> \<not> binstallGrpkey sec")
      case True
      then have run: "rtw_tkip_decrypt now passing find_sta st sec f = Ret (False, no_gkey_drop now passing (rx_ra f) st, sec, f)"
        using Some assms(1) by (simp add: rtw_tkip_decrypt_def)
      show ?thesis
        unfolding run bc Let_def Some option.case by (use True in \<open>simp add: no_gkey_drop_def Let_def no\<close>)
    next
      case False
      let ?key = "if IS_MCAST (rx_ra f) then dot118021XGrpKey sec ! rx_key_index f else key"
      have run: "rtw_tkip_decrypt now passing find_sta st sec f =
          Ret (drop (length (tkip_plain ?key f) - 4) (tkip_plain ?key f) =
              RTW_PUT_LE32 (getcrc32 (take (length (tkip_plain ?key f) - 4) (tkip_plain ?key f))),
            if IS_MCAST (rx_ra f) then \<lparr>gk_start = 0, no_gkey_bc_cnt = 0, no_gkey_mc_cnt = 0\<rparr> else st,
            sec\<lparr>tkip_sw_dec_cnt := SW_CNT_INC (tkip_sw_dec_cnt sec) (rx_ra f)\<rparr>,
            f\<lparr>rx_data := take (rx_iv_len f + rx_hdrlen f) (rx_data f) @ tkip_plain ?key f\<rparr>)"
        using Some False assms(1,4) open_iff by (auto simp: rtw_tkip_decrypt_def Let_def c_nth_def)
      show ?thesis
        unfolding run bc Let_def Some option.case le using False by (simp add: SW_CNT_INC_def)
    qed
  qed
qed

text \<open>A received unicast frame of the sample station: 24-byte header, 8-byte IV, 20 more bytes.\<close>

definition sample_rx :: "u8 \<Rightarrow> nat \<Rightarrow> rx_frame" where
  "sample_rx enc iv = \<lparr>rx_encrypt = enc, rx_hdrlen = 24, rx_iv_len = iv, rx_key_index = 1,
     rx_ra = [2, 0, 0, 0, 0, 1], rx_ta = [2, 0, 0, 0, 0, 2], rx_data = replicate 52 6\<rparr>"

theorem tkip_decrypt_outcome_witness:
  "\<exists>st'. rtw_tkip_decrypt 5 (\<lambda>_. 0) (\<lambda>_. Some (replicate 32 7)) \<lparr>gk_start = 0, no_gkey_bc_cnt = 0, no_gkey_mc_cnt = 0\<rparr>
      (sample_security\<lparr>binstallGrpkey := False\<rparr>) ((sample_rx TKIP 8)\<lparr>rx_ra := replicate 6 0xff\<rparr>) =
    Ret (False, st', sample_security\<lparr>binstallGrpkey := False\<rparr>, (sample_rx TKIP 8)\<lparr>rx_ra := replicate 6 0xff\<rparr>) \<and>
    gk_start st' = 5 \<and> no_gkey_bc_cnt st' = 1 \<and> no_gkey_mc_cnt st' = 0"
proof -
  let ?f = "(sample_rx TKIP 8)\<lparr>rx_ra := replicate 6 0xff\<rparr>"
  have a: "rx_encrypt ?f = TKIP" "rx_hdrlen ?f + 8 \<le> length (rx_data ?f)"
    "rx_iv_len ?f + rx_hdrlen ?f + 4 \<le> length (rx_data ?f)"
    "rx_key_index ?f < length (dot118021XGrpKey (sample_security\<lparr>binstallGrpkey := False\<rparr>))"
    by (simp_all add: sample_rx_def sample_security_def Let_def)
  have m: "IS_MCAST (replicate 6 0xff)" by (simp add: IS_MCAST_def)
  show ?thesis
    using tkip_decrypt_outcome [OF a, of 5 "\<lambda>_. 0" "\<lambda>_. Some (replicate 32 7)"
        "\<lparr>gk_start = 0, no_gkey_bc_cnt = 0, no_gkey_mc_cnt = 0\<rparr>"]
    by (simp add: m) fastforce
qed

text \<open>\<^verbatim>\<open>rtw_wep_decrypt\<close> computes the CRC of the payload but compares it with nothing: a frame that holds
  the IV is decrypted, counted and handed on whatever its last four bytes are.
\<close>

lemma wep_decrypt_accepts_any_icv:
  assumes "rx_encrypt f = WEP40 \<or> rx_encrypt f = WEP104" and "wep_slot sec (rx_key_index f) k"
    and "rx_hdrlen f + rx_iv_len f \<le> length hdr" and "3 \<le> rx_iv_len f"
  shows "\<exists>sec'. \<forall>icv. length icv = 4 \<longrightarrow>
    rtw_wep_decrypt sec (f\<lparr>rx_data := hdr @ payload @ icv\<rparr>) =
      Ret (sec', f\<lparr>rx_data := take (rx_hdrlen f + rx_iv_len f) hdr @
        fst (arcfour_encrypt (arcfour_init (take 3 (drop (rx_hdrlen f) hdr) @ k) (3 + length k))
          (drop (rx_hdrlen f + rx_iv_len f) hdr @ payload @ icv))\<rparr>)"
proof -
  have len: "length (take 3 (take 3 (drop (rx_hdrlen f) hdr)) @ k) = 3 + length k" using assms(3,4) by simp
  show ?thesis
    using assms(1,3,4) wep_key_slot [OF assms(2)] len
    by (auto simp: rtw_wep_decrypt_def c_read_def Let_def add.commute)
qed

lemma wep_decrypt_accepts_any_icv_witness:
  "\<exists>sec'. \<forall>icv. length icv = 4 \<longrightarrow>
    rtw_wep_decrypt sample_security ((sample_rx WEP40 4)\<lparr>rx_data := replicate 28 1 @ [2, 3] @ icv\<rparr>) =
      Ret (sec', (sample_rx WEP40 4)\<lparr>rx_data := take (rx_hdrlen (sample_rx WEP40 4) + rx_iv_len (sample_rx WEP40 4)) (replicate 28 1) @
        fst (arcfour_encrypt (arcfour_init (take 3 (drop (rx_hdrlen (sample_rx WEP40 4)) (replicate 28 1)) @ replicate 5 9)
          (3 + length (replicate 5 (9 :: u8))))
          (drop (rx_hdrlen (sample_rx WEP40 4) + rx_iv_len (sample_rx WEP40 4)) (replicate 28 1) @ [2, 3] @ icv))\<rparr>)"
proof (rule wep_decrypt_accepts_any_icv)
  show "wep_slot sample_security (rx_key_index (sample_rx WEP40 4)) (replicate 5 9)"
    using sample_slot by (simp add: sample_rx_def sample_security_def Let_def)
qed (simp_all add: sample_rx_def)

text \<open>While TKIP countermeasures are active the driver refuses, and it stops refusing exactly when more
  than 60 seconds have passed, clearing the flag and the time stamp.
\<close>

lemma tkip_countermeasure_window:
  "(case rtw_handle_tkip_countermeasure passing sec of (ok, sec') \<Rightarrow>
     (ok \<longleftrightarrow> (btkip_countermeasure sec \<longrightarrow> 60000 < passing (btkip_countermeasure_time sec))) \<and>
     btkip_countermeasure sec' = (\<not> ok) \<and>
     (if ok \<and> btkip_countermeasure sec then btkip_countermeasure_time sec' = 0
      else sec' = sec))"
  by (simp add: rtw_handle_tkip_countermeasure_def)

end
