(* ===== verification/Michael.thy ===== *)
theory Michael
  imports Prelude
begin

unbundle bit_operations_syntax

text \<open>
  The Michael message integrity code of TKIP (\<^verbatim>\<open>rtw_secmic*\<close> and \<^verbatim>\<open>rtw_seccalctkipmic\<close> of
  \<^verbatim>\<open>core/rtw_security.c\<close>).

  The code takes the message one byte at a time, collecting four of them in the word \<^verbatim>\<open>M\<close>. The
  reference pads the whole message and folds the block function over its little-endian words.
  \<open>mic_absorbed\<close> relates the two: what a state has consumed so far.
\<close>

section \<open>The code\<close>

definition ROL32 :: "u32 \<Rightarrow> nat \<Rightarrow> u32" where
  "ROL32 A n = (push_bit n A OR (drop_bit (32 - n) A AND (push_bit n 1 - 1)))"

definition ROR32 :: "u32 \<Rightarrow> nat \<Rightarrow> u32" where
  "ROR32 A n = ROL32 A (32 - n)"

record mic_data =
  mic_K0 :: u32
  mic_K1 :: u32
  mic_L :: u32
  mic_R :: u32
  mic_M :: u32
  nBytesInM :: nat

definition secmicgetuint32 :: "bytes \<Rightarrow> u32" where
  "secmicgetuint32 p = fold (\<lambda>i res. res OR push_bit (8 * i) (ucast (p ! i))) [0, 1, 2, 3] 0"

definition secmicputuint32 :: "u32 \<Rightarrow> bytes" where
  "secmicputuint32 val = map (\<lambda>i. ucast (drop_bit (8 * i) val AND 0xff)) [0, 1, 2, 3]"

definition secmicclear :: "mic_data \<Rightarrow> mic_data" where
  "secmicclear md = md\<lparr>mic_L := mic_K0 md, mic_R := mic_K1 md, nBytesInM := 0, mic_M := 0\<rparr>"

definition rtw_secmicsetkey :: "mic_data \<Rightarrow> bytes \<Rightarrow> mic_data" where
  "rtw_secmicsetkey md key =
     secmicclear (md\<lparr>mic_K0 := secmicgetuint32 key, mic_K1 := secmicgetuint32 (drop 4 key)\<rparr>)"

definition rtw_secmicappendbyte :: "mic_data \<Rightarrow> u8 \<Rightarrow> mic_data" where
  "rtw_secmicappendbyte md b =
     (let M = mic_M md OR push_bit (8 * nBytesInM md) (ucast b);
          n = nBytesInM md + 1
      in if 4 \<le> n
         then let L = mic_L md XOR M;
                  R = mic_R md XOR ROL32 L 17;
                  L = L + R;
                  R = R XOR (drop_bit 8 (L AND 0xff00ff00) OR push_bit 8 (L AND 0x00ff00ff));
                  L = L + R;
                  R = R XOR ROL32 L 3;
                  L = L + R;
                  R = R XOR ROR32 L 2;
                  L = L + R
              in md\<lparr>mic_L := L, mic_R := R, mic_M := 0, nBytesInM := 0\<rparr>
         else md\<lparr>mic_M := M, nBytesInM := n\<rparr>)"

definition rtw_secmicappend :: "mic_data \<Rightarrow> bytes \<Rightarrow> mic_data" where
  "rtw_secmicappend md src = fold (\<lambda>b md. rtw_secmicappendbyte md b) src md"

text \<open>The padding loop runs until the accumulator is empty.\<close>

function secgetmic_pad :: "mic_data \<Rightarrow> mic_data" where
  "secgetmic_pad md =
     (if nBytesInM md = 0 then md else secgetmic_pad (rtw_secmicappendbyte md 0))"
  by pat_completeness auto
termination
  by (relation "measure (\<lambda>md. if nBytesInM md = 0 then 0 else 5 - nBytesInM md + 1)")
    (auto simp: rtw_secmicappendbyte_def Let_def)

declare secgetmic_pad.simps [simp del]

definition rtw_secgetmic :: "mic_data \<Rightarrow> bytes \<times> mic_data" where
  "rtw_secgetmic md =
     (let md = rtw_secmicappendbyte md 0x5a;
          md = rtw_secmicappendbyte md 0;
          md = rtw_secmicappendbyte md 0;
          md = rtw_secmicappendbyte md 0;
          md = rtw_secmicappendbyte md 0;
          md = secgetmic_pad md
      in (secmicputuint32 (mic_L md) @ secmicputuint32 (mic_R md), secmicclear md))"

text \<open>\<open>micdata\<close> is the uninitialised local variable of the function.\<close>

definition rtw_seccalctkipmic :: "mic_data \<Rightarrow> bytes \<Rightarrow> bytes \<Rightarrow> bytes \<Rightarrow> u8 \<Rightarrow> bytes" where
  "rtw_seccalctkipmic micdata key header data pri =
     (let md = rtw_secmicsetkey micdata key;
          priority = [pri, 0, 0, 0];
          md = (if header ! 1 AND 1 \<noteq> 0
            then let md = rtw_secmicappend md (take 6 (drop 16 header))
                 in if header ! 1 AND 2 \<noteq> 0 then rtw_secmicappend md (take 6 (drop 24 header))
                    else rtw_secmicappend md (take 6 (drop 10 header))
            else let md = rtw_secmicappend md (take 6 (drop 4 header))
                 in if header ! 1 AND 2 \<noteq> 0 then rtw_secmicappend md (take 6 (drop 16 header))
                    else rtw_secmicappend md (take 6 (drop 10 header)));
          md = rtw_secmicappend md priority;
          md = rtw_secmicappend md data
      in fst (rtw_secgetmic md))"

section \<open>The reference\<close>

definition xswap :: "u32 \<Rightarrow> u32" where
  "xswap w = RTW_GET_LE32 [RTW_PUT_LE32 w ! 1, RTW_PUT_LE32 w ! 0, RTW_PUT_LE32 w ! 3, RTW_PUT_LE32 w ! 2]"

definition michael_block :: "u32 \<Rightarrow> u32 \<times> u32 \<Rightarrow> u32 \<times> u32" where
  "michael_block m s =
     (case s of (l, r) \<Rightarrow>
        let l = l XOR m; r = r XOR word_rotl 17 l; l = l + r; r = r XOR xswap l; l = l + r;
            r = r XOR word_rotl 3 l; l = l + r; r = r XOR word_rotr 2 l
        in (l + r, r))"

text \<open>The little-endian words of the message; an incomplete last word is dropped.\<close>

fun le_words :: "bytes \<Rightarrow> u32 list" where
  "le_words (a # b # c # d # rest) = RTW_GET_LE32 [a, b, c, d] # le_words rest"
| "le_words _ = []"

definition michael_pad :: "bytes \<Rightarrow> bytes" where
  "michael_pad msg = msg @ [0x5a] @ replicate (7 - length msg mod 4) 0"

definition michael :: "bytes \<Rightarrow> bytes \<Rightarrow> bytes" where
  "michael key msg =
     (case fold michael_block (le_words (michael_pad msg))
        (RTW_GET_LE32 key, RTW_GET_LE32 (drop 4 key)) of
        (l, r) \<Rightarrow> RTW_PUT_LE32 l @ RTW_PUT_LE32 r)"

text \<open>
  \<open>mic_absorbed key md msg\<close>: the state \<open>md\<close> has consumed \<open>msg\<close> since the key was set; the
  complete words are folded in, the remaining bytes are in the accumulator.
\<close>

definition tail_word :: "bytes \<Rightarrow> u32" where
  "tail_word bs = fold (\<lambda>i w. w OR push_bit (8 * i) (ucast (bs ! i))) [0..<length bs] 0"

definition mic_absorbed :: "bytes \<Rightarrow> mic_data \<Rightarrow> bytes \<Rightarrow> bool" where
  "mic_absorbed key md msg \<longleftrightarrow>
     mic_K0 md = RTW_GET_LE32 key \<and> mic_K1 md = RTW_GET_LE32 (drop 4 key) \<and>
     (mic_L md, mic_R md) =
       fold michael_block (le_words msg) (RTW_GET_LE32 key, RTW_GET_LE32 (drop 4 key)) \<and>
     nBytesInM md = length msg mod 4 \<and>
     mic_M md = tail_word (drop (4 * (length msg div 4)) msg)"

section \<open>Words\<close>

lemma rotl_index:
  "0 < n \<Longrightarrow> n < 32 \<Longrightarrow> i < 32 \<Longrightarrow> (i + (32 - n)) mod 32 = (if i < n then i + (32 - n) else i - (n :: nat))"
proof (cases "i < n")
  case False
  assume "n < 32" "i < 32"
  then have "i + (32 - n) = i - n + 32" and "i - n < 32" using False by linarith+
  then show ?thesis using False by (simp only: mod_add_self2) simp
qed simp

lemma ROL32_rotl:
  assumes "0 < n" "n < 32"
  shows "ROL32 A n = word_rotl n A"
proof (rule word_eqI_bits)
  fix i assume "i < LENGTH(32)"
  then have i: "i < 32" by simp
  have "push_bit n 1 - 1 = (mask n :: u32)" by (simp add: mask_eq_exp_minus_1)
  then have "bit (ROL32 A n) i \<longleftrightarrow> (if i < n then bit A (i + (32 - n)) else bit A (i - n))"
    using i assms by (auto simp: ROL32_def bit_simps add.commute dest: bit_imp_le_length)
  moreover have "bit (word_rotl n A) i \<longleftrightarrow> bit A ((i + (32 - n)) mod 32)"
    using i assms by (simp add: bit_word_rotl_iff)
  ultimately show "bit (ROL32 A n) i = bit (word_rotl n A) i"
    using rotl_index [OF assms i] by simp
qed

lemma ROR32_rotr:
  assumes "0 < n" "n < 32"
  shows "ROR32 A n = word_rotr n A"
proof (rule word_eqI_bits)
  fix i assume "i < LENGTH(32)"
  then have "i < 32" by simp
  moreover have "ROR32 A n = word_rotl (32 - n) A" using assms by (simp add: ROR32_def ROL32_rotl)
  ultimately show "bit (ROR32 A n) i = bit (word_rotr n A) i"
    using assms by (simp add: bit_word_rotl_iff bit_word_rotr_iff)
qed

lemma bit_xswap_masks:
  "bit (0xff00ff00 :: u32) i \<longleftrightarrow> 8 \<le> i \<and> i < 16 \<or> 24 \<le> i \<and> i < 32"
  "bit (0x00ff00ff :: u32) i \<longleftrightarrow> i < 8 \<or> 16 \<le> i \<and> i < 24"
proof -
  have eq: "(0xff00ff00 :: u32) = push_bit 8 (mask 8) OR push_bit 24 (mask 8)"
    "(0x00ff00ff :: u32) = mask 8 OR push_bit 16 (mask 8)"
    by (simp_all add: mask_eq_exp_minus_1)
  show "bit (0xff00ff00 :: u32) i \<longleftrightarrow> 8 \<le> i \<and> i < 16 \<or> 24 \<le> i \<and> i < 32"
    unfolding eq by (auto simp: bit_simps)
  show "bit (0x00ff00ff :: u32) i \<longleftrightarrow> i < 8 \<or> 16 \<le> i \<and> i < 24"
    unfolding eq by (auto simp: bit_simps)
qed

lemma xswap_masks: "drop_bit 8 (L AND 0xff00ff00) OR push_bit 8 (L AND 0x00ff00ff) = xswap L"
proof (rule word_eqI_bits)
  fix n assume n: "n < LENGTH(32)"
  then have l: "bit (drop_bit 8 (L AND 0xff00ff00) OR push_bit 8 (L AND 0x00ff00ff)) n \<longleftrightarrow>
      bit L (8 + n) \<and> (n < 8 \<or> 16 \<le> n \<and> n < 24) \<or>
      8 \<le> n \<and> bit L (n - 8) \<and> (n < 16 \<or> 24 \<le> n)"
    unfolding bit_or_iff bit_drop_bit_eq comp_def bit_and_iff bit_push_bit_iff bit_xswap_masks
    by auto
  from n consider "n < 8" | "8 \<le> n" "n < 16" | "16 \<le> n" "n < 24" | "24 \<le> n" "n < 32" by fastforce
  then show "bit (drop_bit 8 (L AND 0xff00ff00) OR push_bit 8 (L AND 0x00ff00ff)) n = bit (xswap L) n"
    unfolding l by cases (auto simp: xswap_def RTW_GET_LE32_def RTW_PUT_LE32_def word_bits)
qed

lemma secmic_words: "secmicgetuint32 p = RTW_GET_LE32 p" "secmicputuint32 v = RTW_PUT_LE32 v"
  by (simp_all add: secmicgetuint32_def RTW_GET_LE32_def secmicputuint32_def RTW_PUT_LE32_def
      or.assoc or.commute or.left_commute)

section \<open>What a state has absorbed\<close>

lemma appendbyte_part:
  "nBytesInM md < 3 \<Longrightarrow> rtw_secmicappendbyte md b =
     md\<lparr>mic_M := mic_M md OR push_bit (8 * nBytesInM md) (ucast b), nBytesInM := nBytesInM md + 1\<rparr>"
  by (simp add: rtw_secmicappendbyte_def)

lemma appendbyte_full:
  "nBytesInM md = 3 \<Longrightarrow> rtw_secmicappendbyte md b =
     (case michael_block (mic_M md OR push_bit 24 (ucast b)) (mic_L md, mic_R md) of
        (l, r) \<Rightarrow> md\<lparr>mic_L := l, mic_R := r, mic_M := 0, nBytesInM := 0\<rparr>)"
  unfolding rtw_secmicappendbyte_def xswap_masks
  by (simp add: Let_def michael_block_def ROL32_rotl ROR32_rotr)

lemma le_words_append: "length xs mod 4 = 0 \<Longrightarrow> le_words (xs @ ys) = le_words xs @ le_words ys"
proof (induction xs rule: le_words.induct)
  case (1 a b c d rest)
  have "length (a # b # c # d # rest) = length rest + 4" by simp
  then have "length rest mod 4 = 0" using "1.prems" by (simp only: mod_add_self2)
  then show ?case using "1.IH" by simp
qed simp_all

lemma le_words_short: "length xs < 4 \<Longrightarrow> le_words xs = []"
  by (cases xs rule: le_words.cases) auto

lemma take_words:
  obtains ws t where "msg = ws @ t" "length ws mod 4 = 0" "length t = length msg mod 4"
    "drop (4 * (length msg div 4)) msg = t"
proof
  let ?n = "4 * (length msg div 4)"
  show "msg = take ?n msg @ drop ?n msg" by simp
  show "length (take ?n msg) mod 4 = 0" by (simp add: min_absorb2)
  show "length (drop ?n msg) = length msg mod 4" by (simp add: modulo_nat_def mult.commute)
qed simp

lemma tail_drop: "length ws mod 4 = 0 \<Longrightarrow> length t < 4 \<Longrightarrow>
  drop (4 * (length (ws @ t) div 4)) (ws @ t) = t \<and> length (ws @ t) mod 4 = length t"
proof -
  assume a: "length ws mod 4 = 0" "length t < 4"
  from a(1) obtain k where "length ws = 4 * k" by (auto simp: mod_eq_0_iff_dvd)
  moreover from this a(2) have "length (ws @ t) div 4 = k" "length (ws @ t) mod 4 = length t" by simp_all
  ultimately show ?thesis by simp
qed

lemma tail_word_snoc: "tail_word (t @ [b]) = tail_word t OR push_bit (8 * length t) (ucast b)"
proof -
  have "fold (\<lambda>i w. w OR push_bit (8 * i) (ucast ((t @ [b]) ! i))) [0..<length t] (0 :: u32) =
      fold (\<lambda>i w. w OR push_bit (8 * i) (ucast (t ! i))) [0..<length t] 0"
    by (rule fold_cong) (simp_all add: nth_append fun_eq_iff)
  then show ?thesis by (simp add: tail_word_def del: fold_append) simp
qed

lemma tail_word_4: "tail_word [a, b, c, d] = RTW_GET_LE32 [a, b, c, d]"
  by (simp add: tail_word_def RTW_GET_LE32_def or.assoc or.commute or.left_commute)

lemma mic_absorbed_iff:
  assumes "length ws mod 4 = 0" and "length t < 4"
  shows "mic_absorbed key md (ws @ t) \<longleftrightarrow>
     mic_K0 md = RTW_GET_LE32 key \<and> mic_K1 md = RTW_GET_LE32 (drop 4 key) \<and>
     (mic_L md, mic_R md) =
       fold michael_block (le_words ws) (RTW_GET_LE32 key, RTW_GET_LE32 (drop 4 key)) \<and>
     nBytesInM md = length t \<and> mic_M md = tail_word t"
  unfolding mic_absorbed_def
  using tail_drop [OF assms] le_words_append [OF assms(1), of t] le_words_short [OF assms(2)] by simp

lemma mic_absorbed_setkey: "mic_absorbed key (rtw_secmicsetkey md key) []"
  by (simp add: mic_absorbed_def rtw_secmicsetkey_def secmicclear_def secmic_words tail_word_def)

lemma mic_absorbed_byte:
  assumes "mic_absorbed key md msg"
  shows "mic_absorbed key (rtw_secmicappendbyte md b) (msg @ [b])"
proof -
  obtain ws t where msg: "msg = ws @ t" and ws: "length ws mod 4 = 0" and t: "length t = length msg mod 4"
    by (rule take_words)
  have lt: "length t < 4" using t by simp
  have md: "mic_K0 md = RTW_GET_LE32 key" "mic_K1 md = RTW_GET_LE32 (drop 4 key)"
    "(mic_L md, mic_R md) =
       fold michael_block (le_words ws) (RTW_GET_LE32 key, RTW_GET_LE32 (drop 4 key))"
    "nBytesInM md = length t" "mic_M md = tail_word t"
    using assms mic_absorbed_iff [OF ws lt, of key md] by (simp_all add: msg)
  show ?thesis
  proof (cases "length t = 3")
    case False
    then have lt': "length (t @ [b]) < 4" "nBytesInM md < 3" using lt md by simp_all
    have "mic_absorbed key (rtw_secmicappendbyte md b) (ws @ t @ [b])"
      unfolding mic_absorbed_iff [OF ws lt'(1)] appendbyte_part [OF lt'(2)] tail_word_snoc
      using md by simp
    then show ?thesis by (simp add: msg)
  next
    case True
    then obtain x y z where t': "t = [x, y, z]" by (auto simp: eval_nat_numeral length_Suc_conv)
    have m: "mic_M md OR push_bit 24 (ucast b) = RTW_GET_LE32 [x, y, z, b]"
      using md(5) tail_word_snoc [of t b] by (simp add: t' tail_word_4)
    have len: "length (ws @ [x, y, z, b]) mod 4 = 0" using ws by (simp add: mod_eq_0_iff_dvd)
    obtain l r where blk: "michael_block (RTW_GET_LE32 [x, y, z, b]) (mic_L md, mic_R md) = (l, r)"
      by fastforce
    have step: "rtw_secmicappendbyte md b = md\<lparr>mic_L := l, mic_R := r, mic_M := 0, nBytesInM := 0\<rparr>"
      using appendbyte_full [of md b] md(4) True unfolding m blk by simp
    have fold: "fold michael_block (le_words (ws @ [x, y, z, b]))
        (RTW_GET_LE32 key, RTW_GET_LE32 (drop 4 key)) = (l, r)"
      using le_words_append [OF ws, of "[x, y, z, b]"] md(3) blk by simp
    have "mic_absorbed key (rtw_secmicappendbyte md b) ((ws @ [x, y, z, b]) @ [])"
      by (subst mic_absorbed_iff [OF len]) (simp_all add: step fold md(1,2) tail_word_def del: append_assoc)
    then show ?thesis by (simp add: msg t')
  qed
qed

lemma mic_absorbed_append:
  "mic_absorbed key md msg \<Longrightarrow> mic_absorbed key (rtw_secmicappend md src) (msg @ src)"
  using mic_absorbed_byte
  by (induction src arbitrary: md msg) (fastforce simp: rtw_secmicappend_def)+

lemma pad_count:
  shows "n mod 4 \<noteq> 0 \<Longrightarrow> Suc ((4 - Suc n mod 4) mod 4) = (4 - n mod 4) mod 4"
    and "7 - n mod 4 = 4 + (4 - (n + 5) mod 4) mod (4 :: nat)"
proof -
  have r: "n mod 4 = 0 \<or> n mod 4 = 1 \<or> n mod 4 = 2 \<or> n mod 4 = 3"
    using mod_less_divisor [of 4 n] by linarith
  have "Suc n mod 4 = Suc (n mod 4) mod 4" "(n + 5) mod 4 = (n mod 4 + 5) mod 4"
    by (simp_all add: mod_Suc_eq mod_add_left_eq)
  then show "n mod 4 \<noteq> 0 \<Longrightarrow> Suc ((4 - Suc n mod 4) mod 4) = (4 - n mod 4) mod 4"
    and "7 - n mod 4 = 4 + (4 - (n + 5) mod 4) mod (4 :: nat)"
    using r by auto
qed

lemma secgetmic_pad_absorbed:
  "mic_absorbed key md msg \<Longrightarrow>
   mic_absorbed key (secgetmic_pad md) (msg @ replicate ((4 - length msg mod 4) mod 4) 0)"
proof (induction md arbitrary: msg rule: secgetmic_pad.induct)
  case (1 md)
  have n: "nBytesInM md = length msg mod 4" using "1.prems" by (simp add: mic_absorbed_def)
  show ?case
  proof (cases "nBytesInM md = 0")
    case True
    then show ?thesis using n "1.prems" by (simp add: secgetmic_pad.simps)
  next
    case False
    have "Suc ((4 - Suc (length msg) mod 4) mod 4) = (4 - length msg mod 4) mod 4"
      using False unfolding n by (rule pad_count(1))
    then have "(msg @ [0]) @ replicate ((4 - length (msg @ [0]) mod 4) mod 4) 0 =
        msg @ replicate ((4 - length msg mod 4) mod 4) (0 :: u8)"
      by (simp flip: replicate_Suc)
    then show ?thesis
      using "1.IH" [OF False mic_absorbed_byte [OF "1.prems", of 0]] False
      by (simp add: secgetmic_pad.simps [of md] del: append_assoc)
  qed
qed

lemma michael_pad_split:
  "michael_pad msg = (msg @ [0x5a, 0, 0, 0, 0]) @
     replicate ((4 - length (msg @ [0x5a, 0, 0, 0, 0 :: u8]) mod 4) mod 4) 0"
proof -
  have len: "length (msg @ [0x5a, 0, 0, 0, 0 :: u8]) = length msg + 5" by simp
  have zeros: "replicate 4 (0 :: u8) = [0, 0, 0, 0]" by (simp add: eval_nat_numeral)
  show ?thesis
    unfolding michael_pad_def pad_count(2) [of "length msg"] replicate_add zeros len by simp
qed

lemma rtw_secgetmic_michael:
  assumes "mic_absorbed key md msg"
  shows "fst (rtw_secgetmic md) = michael key msg"
    and "mic_absorbed key (snd (rtw_secgetmic md)) []"
proof -
  let ?md = "rtw_secmicappend md [0x5a, 0, 0, 0, 0]"
  have get: "rtw_secgetmic md = (secmicputuint32 (mic_L (secgetmic_pad ?md)) @
      secmicputuint32 (mic_R (secgetmic_pad ?md)), secmicclear (secgetmic_pad ?md))"
    by (simp add: rtw_secgetmic_def rtw_secmicappend_def Let_def)
  have "mic_absorbed key (secgetmic_pad ?md) (michael_pad msg)"
    unfolding michael_pad_split by (rule secgetmic_pad_absorbed [OF mic_absorbed_append [OF assms]])
  then have pad: "(mic_L (secgetmic_pad ?md), mic_R (secgetmic_pad ?md)) =
      fold michael_block (le_words (michael_pad msg)) (RTW_GET_LE32 key, RTW_GET_LE32 (drop 4 key))"
    and key: "mic_K0 (secgetmic_pad ?md) = RTW_GET_LE32 key"
      "mic_K1 (secgetmic_pad ?md) = RTW_GET_LE32 (drop 4 key)"
    by (simp_all add: mic_absorbed_def)
  show "fst (rtw_secgetmic md) = michael key msg"
    by (simp add: get michael_def secmic_words flip: pad)
  show "mic_absorbed key (snd (rtw_secgetmic md)) []"
    using key by (simp add: get secmicclear_def mic_absorbed_def tail_word_def)
qed

section \<open>The MIC of a frame\<close>

text \<open>Destination and source of a frame, by its ToDS and FromDS bits.\<close>

definition frame_da :: "bytes \<Rightarrow> bytes" where
  "frame_da header = take 6 (drop (if bit (header ! 1) 0 then 16 else 4) header)"

definition frame_sa :: "bytes \<Rightarrow> bytes" where
  "frame_sa header = take 6 (drop (if \<not> bit (header ! 1) 1 then 10
     else if bit (header ! 1) 0 then 24 else 16) header)"

lemma and_1_2_bits: "(w AND 1 \<noteq> 0) = bit (w :: u8) 0" "(w AND 2 \<noteq> 0) = bit w 1"
  using bit_iff_and_push_bit_not_eq_0 [of w 0] bit_iff_and_push_bit_not_eq_0 [of w 1] by simp_all

text \<open>The byte-at-a-time accumulator computes Michael: for every key, header and payload the code of the
  frame is Michael, over the padded little-endian words, of the destination and source addresses the
  ToDS and FromDS bits select, the priority followed by three zero bytes, and the payload; the
  uninitialised local state does not matter.
\<close>

lemma rtw_seccalctkipmic_is_michael:
  "rtw_seccalctkipmic micdata key header data pri =
     michael key (frame_da header @ frame_sa header @ [pri, 0, 0, 0] @ data)"
proof -
  let ?append = "\<lambda>md. rtw_secmicappend md"
  have "mic_absorbed key (?append (?append (?append (?append (rtw_secmicsetkey micdata key)
      (frame_da header)) (frame_sa header)) [pri, 0, 0, 0]) data)
      (((([] @ frame_da header) @ frame_sa header) @ [pri, 0, 0, 0]) @ data)"
    by (intro mic_absorbed_append mic_absorbed_setkey)
  from rtw_secgetmic_michael(1) [OF this] show ?thesis
    unfolding rtw_seccalctkipmic_def and_1_2_bits frame_da_def frame_sa_def Let_def
    by (cases "bit (header ! 1) 0"; cases "bit (header ! 1) 1") simp_all
qed

text \<open>A MIC state keeps exactly what it has consumed, whatever the sizes of the pieces it was given, and
  after the code is produced it is back at the empty message under the same key.
\<close>

lemma secmic_chunks:
  assumes "mic_absorbed key md msg"
  shows "fst (rtw_secgetmic (fold (\<lambda>src md. rtw_secmicappend md src) chunks md)) =
      michael key (msg @ concat chunks) \<and>
    mic_absorbed key (snd (rtw_secgetmic (fold (\<lambda>src md. rtw_secmicappend md src) chunks md))) []"
proof -
  have "mic_absorbed key (fold (\<lambda>src md. rtw_secmicappend md src) chunks md) (msg @ concat chunks)"
    using assms by (induction chunks arbitrary: md msg) (force dest: mic_absorbed_append)+
  then show ?thesis using rtw_secgetmic_michael by blast
qed

lemma secmic_chunks_witness:
  "fst (rtw_secgetmic (fold (\<lambda>src md. rtw_secmicappend md src) [[1], [2, 3, 4, 5, 6]]
      (rtw_secmicsetkey \<lparr>mic_K0 = 0, mic_K1 = 0, mic_L = 0, mic_R = 0, mic_M = 7, nBytesInM = 2\<rparr>
        [1, 2, 3, 4, 5, 6, 7, 8]))) =
      michael [1, 2, 3, 4, 5, 6, 7, 8] ([] @ concat [[1], [2, 3, 4, 5, 6]])"
  using secmic_chunks [OF mic_absorbed_setkey [of "[1, 2, 3, 4, 5, 6, 7, 8]"]] by blast

end
