(* ===== verification/Defrag.thy ===== *)
theory Defrag
  imports Stations Legacy_Frames Michael
begin

unbundle bit_operations_syntax

text \<open>
  Reassembly of fragmented frames in \<^verbatim>\<open>core/rtw_recv.c\<close>: the fragments of a station are queued until the
  last one arrives; they are then checked against each other and their payloads appended to the buffer of
  the first one.

  A received frame is a buffer with the offsets of its data and its tail, the length field and the
  attributes the code uses. Frames are named by their number in the pool; the queues of fragments and the
  queue of free frames are those of the station table.
\<close>

section \<open>Received frames\<close>

definition ENC_TKIP :: u8 where "ENC_TKIP = 0x02"
definition ENC_AES :: u8 where "ENC_AES = 0x04"
definition ENC_GCMP :: u8 where "ENC_GCMP = 0x07"
definition ENC_CCMP_256 :: u8 where "ENC_CCMP_256 = 0x14"
definition ENC_GCMP_256 :: u8 where "ENC_GCMP_256 = 0x17"
definition WIFI_DATA_TYPE :: u8 where "WIFI_DATA_TYPE = 8"

record recv_frame =
  rf_buf :: bytes
  rf_data :: nat
  rf_tail :: nat
  rf_len :: u32
  rf_keytrack :: int
  rf_encrypt :: u8
  rf_hdrlen :: u8
  rf_iv_len :: u8
  rf_icv_len :: u8
  rf_frag_num :: u8
  rf_mfrag :: bool
  rf_privacy :: bool
  rf_ta :: bytes
  rf_ra :: bytes
  rf_priority :: u8
  rf_key_index :: nat

definition recvframe_pull :: "recv_frame \<Rightarrow> nat \<Rightarrow> recv_frame" where
  "recvframe_pull f sz =
     (if rf_tail f < rf_data f + sz then f
      else f\<lparr>rf_data := rf_data f + sz, rf_len := rf_len f - of_nat sz\<rparr>)"

definition recvframe_put :: "recv_frame \<Rightarrow> nat \<Rightarrow> recv_frame" where
  "recvframe_put f sz =
     (if length (rf_buf f) < rf_tail f + sz then f
      else f\<lparr>rf_tail := rf_tail f + sz, rf_len := rf_len f + of_nat sz\<rparr>)"

definition recvframe_pull_tail :: "recv_frame \<Rightarrow> nat \<Rightarrow> recv_frame" where
  "recvframe_pull_tail f sz =
     (if rf_tail f < rf_data f + sz then f
      else f\<lparr>rf_tail := rf_tail f - sz, rf_len := rf_len f - of_nat sz\<rparr>)"

definition le64 :: "bytes \<Rightarrow> u64" where
  "le64 a = push_bit 32 (ucast (RTW_GET_LE32 (drop 4 a))) OR ucast (RTW_GET_LE32 a)"

definition CCMPH_2_PN :: "u64 \<Rightarrow> u64" where
  "CCMPH_2_PN ch = (ch AND 0x000000000000ffff) OR drop_bit 16 (ch AND 0xffffffff00000000)"

definition frame_pn :: "recv_frame \<Rightarrow> u64" where
  "frame_pn f = CCMPH_2_PN (le64 (take 8 (drop (rf_data f + unat (rf_hdrlen f)) (rf_buf f))))"

definition has_pn :: "recv_frame \<Rightarrow> bool" where
  "has_pn f \<longleftrightarrow> rf_encrypt f = ENC_AES \<or> rf_encrypt f = ENC_CCMP_256 \<or> rf_encrypt f = ENC_GCMP \<or> rf_encrypt f = ENC_GCMP_256"

section \<open>Reassembly\<close>

text \<open>\<^verbatim>\<open>memcpy\<close> of \<open>src\<close> to offset \<open>off\<close> of a buffer.\<close>

definition copy_to :: "bytes \<Rightarrow> nat \<Rightarrow> bytes \<Rightarrow> bytes" where
  "copy_to buf off src = take off buf @ src @ drop (off + length src) buf"

definition append_fragment :: "recv_frame \<Rightarrow> recv_frame \<Rightarrow> recv_frame" where
  "append_fragment pf nf =
     (let pf = recvframe_pull_tail pf (unat (rf_icv_len pf));
          n = unat (rf_len nf);
          pf = pf\<lparr>rf_buf := copy_to (rf_buf pf) (rf_tail pf) (take n (drop (rf_data nf) (rf_buf nf)))\<rparr>;
          pf = recvframe_put pf n
      in pf\<lparr>rf_icv_len := rf_icv_len nf\<rparr>)"

fun defrag_loop :: "recv_frame \<Rightarrow> u64 \<Rightarrow> u8 \<Rightarrow> recv_frame list \<Rightarrow> recv_frame option" where
  "defrag_loop pf cur_pn curfragnum [] = Some pf"
| "defrag_loop pf cur_pn curfragnum (nf # rest) =
     (if has_pn nf \<and> frame_pn nf \<noteq> cur_pn + 1 then None
      else if rf_keytrack pf \<noteq> rf_keytrack nf then None
      else if curfragnum \<noteq> rf_frag_num nf then None
      else let cur_pn = (if has_pn nf then frame_pn nf else cur_pn);
               nf = recvframe_pull nf (unat (rf_hdrlen nf + rf_iv_len nf))
           in if length (rf_buf pf) - rf_tail pf < unat (rf_len nf) then None
              else defrag_loop (append_fragment pf nf) cur_pn (curfragnum + 1) rest)"

text \<open>The frame returned, if any, and the frames freed, in the order of the code.\<close>

fun recvframe_defrag :: "(nat \<Rightarrow> recv_frame) \<Rightarrow> nat list \<Rightarrow> (nat \<times> recv_frame) option \<times> nat list" where
  "recvframe_defrag frames [] = (None, [])"
| "recvframe_defrag frames (f # q) =
     (let pf = frames f; cur_pn = (if has_pn pf then frame_pn pf else 0)
      in if rf_frag_num pf \<noteq> 0 then (None, f # q)
         else case defrag_loop pf cur_pn 1 (map frames q) of
             None \<Rightarrow> (None, f # q)
           | Some r \<Rightarrow> (Some (f, r), q))"

section \<open>Queueing fragments\<close>

record rx_state =
  rx_stapriv :: sta_priv
  rx_frames :: "nat \<Rightarrow> recv_frame"

definition set_defrag_q :: "nat \<Rightarrow> nat list \<Rightarrow> rx_state \<Rightarrow> rx_state" where
  "set_defrag_q i q s = s\<lparr>rx_stapriv := upd_sta i (\<lambda>sta. sta\<lparr>defrag_q := q\<rparr>) (rx_stapriv s)\<rparr>"

definition free_recvframes :: "nat list \<Rightarrow> rx_state \<Rightarrow> rx_state" where
  "free_recvframes fs s =
     s\<lparr>rx_stapriv := (rx_stapriv s)\<lparr>free_recv_queue := free_recv_queue (rx_stapriv s) @ fs\<rparr>,
       rx_frames := (\<lambda>g. if g \<in> set fs then (rx_frames s g)\<lparr>rf_len := 0\<rparr> else rx_frames s g)\<rparr>"

text \<open>
  The keys of the MIC check: the group keys by index and whether they are installed, and the key of a
  station. \<open>micdata\<close> is the working state of the MIC computation before it is set up.
\<close>

record mic_keys =
  mk_group :: "nat \<Rightarrow> bytes"
  mk_installed :: bool
  mk_sta :: "nat \<Rightarrow> bytes"

definition recvframe_chkmic :: "mic_keys \<Rightarrow> mic_data \<Rightarrow> sta_priv \<Rightarrow> recv_frame \<Rightarrow> bool \<times> recv_frame" where
  "recvframe_chkmic keys micdata stapriv fr =
     (if rf_encrypt fr \<noteq> ENC_TKIP then (True, fr)
      else case rtw_get_stainfo stapriv (rf_ta fr) of
          None \<Rightarrow> (True, recvframe_pull_tail fr 8)
        | Some i \<Rightarrow>
            if IS_MCAST (rf_ra fr) \<and> \<not> mk_installed keys then (False, fr)
            else if rf_len fr \<le> ucast (rf_hdrlen fr) then (False, fr)
            else let mickey = (if IS_MCAST (rf_ra fr) then mk_group keys (rf_key_index fr) else mk_sta keys i);
                     datalen = rf_len fr - ucast (rf_hdrlen fr) - ucast (rf_iv_len fr) - ucast (rf_icv_len fr) - 8;
                     pframe = drop (rf_data fr) (rf_buf fr);
                     payload = drop (unat (rf_hdrlen fr) + unat (rf_iv_len fr)) pframe
                 in if rf_tail fr - rf_data fr < unat datalen \<or> length (rf_buf fr) - rf_data fr < unat datalen then (False, fr)
                    else let miccode = rtw_seccalctkipmic micdata mickey pframe (take (unat datalen) payload) (rf_priority fr)
                         in (miccode = take 8 (drop (unat datalen) payload), recvframe_pull_tail fr 8))"

text \<open>The middle of \<^verbatim>\<open>recvframe_chk_defrag\<close>: queue a fragment of station \<open>psta\<close>, or put the frame together.\<close>

definition queue_fragment :: "nat option \<Rightarrow> rx_state \<Rightarrow> nat \<Rightarrow> nat option \<times> rx_state" where
  "queue_fragment psta s f =
     (let fr = rx_frames s f
      in case psta of
           None \<Rightarrow> (None, free_recvframes [f] s)
         | Some i \<Rightarrow>
             let s = s\<lparr>rx_frames := (rx_frames s)(f := fr\<lparr>rf_keytrack := keytrack (stas (rx_stapriv s) ! i)\<rparr>)\<rparr>;
                 q = defrag_q (stas (rx_stapriv s) ! i)
             in if rf_mfrag fr
                then if rf_frag_num fr = 0 then (None, set_defrag_q i [f] (free_recvframes q s))
                     else (None, set_defrag_q i (q @ [f]) s)
                else let (r, freed) = recvframe_defrag (rx_frames s) (q @ [f]);
                         s = free_recvframes freed (set_defrag_q i [] s)
                     in case r of None \<Rightarrow> (None, s)
                        | Some (g, gr) \<Rightarrow> (Some g, s\<lparr>rx_frames := (rx_frames s)(g := gr)\<rparr>))"

definition recvframe_chk_defrag :: "mic_keys \<Rightarrow> mic_data \<Rightarrow> rx_state \<Rightarrow> nat \<Rightarrow> nat option \<times> rx_state" where
  "recvframe_chk_defrag keys micdata s f =
     (let fr = rx_frames s f;
          stapriv = rx_stapriv s;
          psta = (case rtw_get_stainfo stapriv (rf_ta fr) of
              Some i \<Rightarrow> Some i
            | None \<Rightarrow> if (rf_buf fr ! rf_data fr) AND 0x0C \<noteq> WIFI_DATA_TYPE then rtw_get_bcmc_stainfo stapriv else None);
          fragmented = (rf_mfrag fr \<or> rf_frag_num fr \<noteq> 0)
      in if fragmented \<and> IS_MCAST (rf_ra fr) then (None, free_recvframes [f] s)
         else let (prtnframe, s) = (if fragmented then queue_fragment psta s f else (Some f, s))
              in case prtnframe of
                   None \<Rightarrow> (None, s)
                 | Some g \<Rightarrow>
                     if rf_privacy (rx_frames s g)
                     then let (ok, gr) = recvframe_chkmic keys micdata (rx_stapriv s) (rx_frames s g);
                              s = s\<lparr>rx_frames := (rx_frames s)(g := gr)\<rparr>
                          in if ok then (Some g, s) else (None, free_recvframes [g] s)
                     else (Some g, s))"

section \<open>What a reassembled frame holds\<close>

definition rf_bytes :: "recv_frame \<Rightarrow> bytes" where
  "rf_bytes f = take (rf_tail f - rf_data f) (drop (rf_data f) (rf_buf f))"

definition rf_wf :: "recv_frame \<Rightarrow> bool" where
  "rf_wf f \<longleftrightarrow> rf_data f \<le> rf_tail f \<and> rf_tail f \<le> length (rf_buf f) \<and> unat (rf_len f) = rf_tail f - rf_data f \<and>
     length (rf_buf f) < 2 ^ 32"

text \<open>The part of a fragment behind its header and initialization vector.\<close>

definition frag_body :: "recv_frame \<Rightarrow> bytes" where
  "frag_body f = drop (unat (rf_hdrlen f) + unat (rf_iv_len f)) (rf_bytes f)"

text \<open>A fragment long enough for its header, initialization vector and integrity value.\<close>

definition frag_wf :: "recv_frame \<Rightarrow> bool" where
  "frag_wf f \<longleftrightarrow> rf_wf f \<and> unat (rf_hdrlen f) + unat (rf_iv_len f) < 256 \<and>
     unat (rf_hdrlen f) + unat (rf_iv_len f) + unat (rf_icv_len f) \<le> length (rf_bytes f)"

lemma length_rf_bytes: "rf_wf f \<Longrightarrow> length (rf_bytes f) = rf_tail f - rf_data f"
  by (auto simp: rf_wf_def rf_bytes_def min_def)

lemma unat_u32_minus: "n \<le> unat (x :: u32) \<Longrightarrow> unat (x - of_nat n) = unat x - n"
proof -
  assume "n \<le> unat x"
  moreover have "n < 2 ^ 32" using calculation unsigned_less [of x, where 'a = nat] by simp
  then have "unat (of_nat n :: u32) = n" by (simp add: unsigned_of_nat take_bit_nat_eq_self)
  ultimately show ?thesis by (simp add: unat_sub word_le_nat_alt)
qed

lemma unat_u32_plus: "unat (x :: u32) + n < 2 ^ 32 \<Longrightarrow> unat (x + of_nat n) = unat x + n"
  by (simp add: unat_word_ariths unsigned_of_nat take_bit_nat_eq_self)

lemma pull_body:
  assumes "frag_wf f"
  defines "g \<equiv> recvframe_pull f (unat (rf_hdrlen f + rf_iv_len f))"
  shows "rf_wf g" "rf_bytes g = frag_body f" "rf_icv_len g = rf_icv_len f"
    "take (unat (rf_len g)) (drop (rf_data g) (rf_buf g)) = frag_body f" "unat (rf_len g) = length (frag_body f)"
proof -
  let ?n = "unat (rf_hdrlen f) + unat (rf_iv_len f)"
  have n: "unat (rf_hdrlen f + rf_iv_len f) = ?n" using assms(1) by (simp add: frag_wf_def unat_word_ariths)
  have wf: "rf_wf f" and le: "?n \<le> rf_tail f - rf_data f" using assms(1) length_rf_bytes by (auto simp: frag_wf_def)
  have g: "g = f\<lparr>rf_data := rf_data f + ?n, rf_len := rf_len f - of_nat ?n\<rparr>"
  proof -
    have "\<not> rf_tail f < rf_data f + ?n" using le wf unfolding rf_wf_def by linarith
    then show ?thesis by (simp only: g_def n recvframe_pull_def if_False)
  qed
  have len: "unat (rf_len g) = rf_tail f - rf_data f - ?n"
    using unat_u32_minus [of ?n "rf_len f"] le wf by (simp add: g rf_wf_def del: of_nat_add)
  have "rf_data f + ?n \<le> rf_tail f" using wf le unfolding rf_wf_def by linarith
  then show wfg: "rf_wf g" using wf len by (simp add: g rf_wf_def)
  show b: "rf_bytes g = frag_body f" using le by (simp add: g rf_bytes_def frag_body_def drop_take add.commute del: of_nat_add)
  show "rf_icv_len g = rf_icv_len f" by (simp add: g)
  show "unat (rf_len g) = length (frag_body f)" using length_rf_bytes [OF wfg] wfg b by (simp add: rf_wf_def)
  then show "take (unat (rf_len g)) (drop (rf_data g) (rf_buf g)) = frag_body f"
    using b wfg by (simp add: rf_bytes_def rf_wf_def)
qed

lemma copy_to_bytes:
  assumes "d \<le> m" "m \<le> length buf"
  shows "take (m + length body - d) (drop d (copy_to buf m body)) = take (m - d) (drop d buf) @ body"
proof -
  have d: "drop d (copy_to buf m body) = take (m - d) (drop d buf) @ body @ drop (m + length body) buf"
    using assms by (simp add: copy_to_def drop_take)
  have "length (take (m - d) (drop d buf)) = m - d" using assms by (simp add: min_absorb2 diff_le_mono)
  moreover have "m + length body - d = (m - d) + length body" using assms(1) by simp
  ultimately show ?thesis unfolding d by (simp only: take_append) simp
qed

lemma append_fragment_bytes:
  assumes pf: "rf_wf pf" "unat (rf_icv_len pf) \<le> length (rf_bytes pf)"
    and nf: "take (unat (rf_len nf)) (drop (rf_data nf) (rf_buf nf)) = body" "unat (rf_len nf) = length body"
    and room: "length body \<le> length (rf_buf pf) - rf_tail pf"
  shows "rf_wf (append_fragment pf nf)" "rf_icv_len (append_fragment pf nf) = rf_icv_len nf"
    "rf_bytes (append_fragment pf nf) = take (length (rf_bytes pf) - unat (rf_icv_len pf)) (rf_bytes pf) @ body"
    "rf_keytrack (append_fragment pf nf) = rf_keytrack pf" "length (rf_buf (append_fragment pf nf)) = length (rf_buf pf)"
    "rf_data (append_fragment pf nf) = rf_data pf"
proof -
  let ?icv = "unat (rf_icv_len pf)" and ?n = "length body"
  have le: "?icv \<le> rf_tail pf - rf_data pf" "rf_data pf \<le> rf_tail pf" "rf_tail pf \<le> length (rf_buf pf)"
    using pf length_rf_bytes by (auto simp: rf_wf_def)
  have c: "\<not> rf_tail pf < rf_data pf + ?icv" "\<not> length (rf_buf pf) < rf_tail pf - ?icv + ?n" using le room by linarith+
  have body: "take ?n (drop (rf_data nf) (rf_buf nf)) = body" using nf by simp
  have buf: "length (copy_to (rf_buf pf) (rf_tail pf - ?icv) body) = length (rf_buf pf)" using le room by (simp add: copy_to_def)
  have p: "recvframe_pull_tail pf ?icv = pf\<lparr>rf_tail := rf_tail pf - ?icv, rf_len := rf_len pf - of_nat ?icv\<rparr>"
    using c(1) by (simp only: recvframe_pull_tail_def if_False)
  have a: "append_fragment pf nf = pf\<lparr>rf_tail := rf_tail pf - ?icv + ?n, rf_len := rf_len pf - of_nat ?icv + of_nat ?n,
      rf_buf := copy_to (rf_buf pf) (rf_tail pf - ?icv) body, rf_icv_len := rf_icv_len nf\<rparr>"
    unfolding append_fragment_def Let_def p nf(2) recvframe_put_def using c(2) by (simp add: body buf)
  have "unat (rf_len pf - of_nat ?icv) = rf_tail pf - rf_data pf - ?icv" using unat_u32_minus [of ?icv "rf_len pf"] le pf(1) by (simp add: rf_wf_def)
  then have "unat (rf_len pf - of_nat ?icv + of_nat ?n) = rf_tail pf - rf_data pf - ?icv + ?n"
  proof -
    have "rf_tail pf - rf_data pf - ?icv + ?n < 2 ^ 32" using room le pf(1) unfolding rf_wf_def by linarith
    then show ?thesis using unat_u32_plus [of "rf_len pf - of_nat ?icv" ?n] \<open>unat (rf_len pf - of_nat ?icv) = _\<close> by simp
  qed
  then show "rf_wf (append_fragment pf nf)" using le room buf pf(1) by (auto simp: a rf_wf_def)
  show "rf_bytes (append_fragment pf nf) = take (length (rf_bytes pf) - ?icv) (rf_bytes pf) @ body"
  proof -
    have m: "rf_data pf \<le> rf_tail pf - ?icv" "rf_tail pf - ?icv \<le> length (rf_buf pf)" using le by linarith+
    have "take (length (rf_bytes pf) - ?icv) (rf_bytes pf) = take (rf_tail pf - ?icv - rf_data pf) (drop (rf_data pf) (rf_buf pf))"
      by (simp only: length_rf_bytes [OF pf(1)]) (simp add: rf_bytes_def min_absorb1 add.commute)
    then show ?thesis using copy_to_bytes [OF m, of body] by (simp add: a rf_bytes_def)
  qed
  show "rf_icv_len (append_fragment pf nf) = rf_icv_len nf" "rf_keytrack (append_fragment pf nf) = rf_keytrack pf"
    "length (rf_buf (append_fragment pf nf)) = length (rf_buf pf)" "rf_data (append_fragment pf nf) = rf_data pf"
    using buf by (simp_all add: a)
qed

text \<open>
  The payload put together: of every fragment but the last the integrity value is cut off; the first
  keeps its header.
\<close>

definition cut_icv :: "bytes \<times> nat \<Rightarrow> bytes" where
  "cut_icv p = take (length (fst p) - snd p) (fst p)"

definition frag_pieces :: "recv_frame list \<Rightarrow> (bytes \<times> nat) list" where
  "frag_pieces gs = map (\<lambda>g. (frag_body g, unat (rf_icv_len g))) gs"

definition put_together :: "(bytes \<times> nat) list \<Rightarrow> bytes" where
  "put_together ps = concat (map cut_icv (butlast ps)) @ fst (last ps)"

fun joined :: "bytes \<Rightarrow> nat \<Rightarrow> recv_frame list \<Rightarrow> bytes" where
  "joined acc icv [] = acc"
| "joined acc icv (g # gs) = joined (take (length acc - icv) acc @ frag_body g) (unat (rf_icv_len g)) gs"

lemma frag_body_icv: "frag_wf g \<Longrightarrow> unat (rf_icv_len g) \<le> length (frag_body g)"
  unfolding frag_wf_def frag_body_def length_drop by linarith

lemma joined_pieces:
  assumes "icv \<le> length b" "\<forall>g \<in> set gs. frag_wf g"
  shows "joined (pre @ b) icv gs = pre @ put_together ((b, icv) # frag_pieces gs)"
  using assms
proof (induction gs arbitrary: pre b icv)
  case Nil
  then show ?case by (simp add: put_together_def frag_pieces_def)
next
  case (Cons g gs)
  have "take (length (pre @ b) - icv) (pre @ b) = pre @ cut_icv (b, icv)" using Cons.prems(1) by (simp add: cut_icv_def)
  then have "joined (pre @ b) icv (g # gs) = joined ((pre @ cut_icv (b, icv)) @ frag_body g) (unat (rf_icv_len g)) gs" by simp
  also have "\<dots> = (pre @ cut_icv (b, icv)) @ put_together ((frag_body g, unat (rf_icv_len g)) # frag_pieces gs)"
    using Cons.prems(2) frag_body_icv by (intro Cons.IH) auto
  finally show ?case by (simp add: put_together_def frag_pieces_def)
qed

lemma loop_sound:
  assumes "defrag_loop pf pn c gs = Some r" "rf_wf pf" "unat (rf_icv_len pf) \<le> length (rf_bytes pf)" "\<forall>g \<in> set gs. frag_wf g"
  shows "rf_wf r \<and> rf_bytes r = joined (rf_bytes pf) (unat (rf_icv_len pf)) gs \<and>
    (\<forall>k < length gs. rf_frag_num (gs ! k) = c + of_nat k \<and> rf_keytrack (gs ! k) = rf_keytrack pf) \<and>
    ((\<forall>g \<in> set gs. has_pn g) \<longrightarrow> (\<forall>k < length gs. frame_pn (gs ! k) = pn + 1 + of_nat k))"
  using assms
proof (induction gs arbitrary: pf pn c)
  case (Cons g gs)
  let ?g = "recvframe_pull g (unat (rf_hdrlen g + rf_iv_len g))" and ?pn = "if has_pn g then frame_pn g else pn"
  let ?pf = "append_fragment pf ?g"
  have gw: "frag_wf g" using Cons.prems(4) by simp
  have cond: "has_pn g \<longrightarrow> frame_pn g = pn + 1" "rf_keytrack g = rf_keytrack pf" "rf_frag_num g = c"
    and room: "unat (rf_len ?g) \<le> length (rf_buf pf) - rf_tail pf" and rec: "defrag_loop ?pf ?pn (c + 1) gs = Some r"
    using Cons.prems(1) by (auto simp: Let_def split: if_splits)
  note app = append_fragment_bytes [OF Cons.prems(2,3) pull_body(4,5) [OF gw] room [unfolded pull_body(5) [OF gw]]]
  have icv: "unat (rf_icv_len ?pf) \<le> length (rf_bytes ?pf)" using app(2,3) pull_body(3) [OF gw] frag_body_icv [OF gw] by simp
  have gsw: "\<forall>g \<in> set gs. frag_wf g" using Cons.prems(4) by simp
  note IH = Cons.IH [OF rec app(1) icv gsw]
  have "rf_frag_num ((g # gs) ! k) = c + of_nat k \<and> rf_keytrack ((g # gs) ! k) = rf_keytrack pf" if "k < length (g # gs)" for k
    using that IH cond app(4) by (cases k) (simp_all add: add.assoc)
  moreover have "frame_pn ((g # gs) ! k) = pn + 1 + of_nat k" if "\<forall>g \<in> set (g # gs). has_pn g" "k < length (g # gs)" for k
    using that IH cond by (cases k) (simp_all add: add.assoc)
  moreover have "rf_bytes r = joined (rf_bytes pf) (unat (rf_icv_len pf)) (g # gs)" using IH app(2,3) pull_body(3) [OF gw] by simp
  ultimately show ?case using IH by blast
qed simp

lemma loop_complete:
  assumes "rf_wf pf" "unat (rf_icv_len pf) \<le> length (rf_bytes pf)" "\<forall>g \<in> set gs. frag_wf g"
    "\<forall>k < length gs. rf_frag_num (gs ! k) = c + of_nat k \<and> rf_keytrack (gs ! k) = rf_keytrack pf"
    "(\<forall>g \<in> set gs. \<not> has_pn g) \<or> (\<forall>g \<in> set gs. has_pn g) \<and> (\<forall>k < length gs. frame_pn (gs ! k) = pn + 1 + of_nat k)"
    "rf_tail pf + sum_list (map (\<lambda>g. length (frag_body g)) gs) \<le> length (rf_buf pf)"
  shows "defrag_loop pf pn c gs \<noteq> None"
  using assms
proof (induction gs arbitrary: pf pn c)
  case (Cons g gs)
  let ?g = "recvframe_pull g (unat (rf_hdrlen g + rf_iv_len g))" and ?pn = "if has_pn g then frame_pn g else pn"
  let ?pf = "append_fragment pf ?g"
  have gw: "frag_wf g" "\<forall>g \<in> set gs. frag_wf g" using Cons.prems(3) by simp_all
  have room: "length (frag_body g) \<le> length (rf_buf pf) - rf_tail pf" using Cons.prems(6) by simp
  note app = append_fragment_bytes [OF Cons.prems(1,2) pull_body(4,5) [OF gw(1)] room]
  have icv: "unat (rf_icv_len ?pf) \<le> length (rf_bytes ?pf)" using app(2,3) pull_body(3) [OF gw(1)] frag_body_icv [OF gw(1)] by simp
  have head: "rf_frag_num g = c" "rf_keytrack g = rf_keytrack pf" using Cons.prems(4) [rule_format, of 0] by simp_all
  have tail: "\<forall>k < length gs. rf_frag_num (gs ! k) = c + 1 + of_nat k \<and> rf_keytrack (gs ! k) = rf_keytrack ?pf"
  proof (intro allI impI)
    fix k assume "k < length gs"
    then show "rf_frag_num (gs ! k) = c + 1 + of_nat k \<and> rf_keytrack (gs ! k) = rf_keytrack ?pf"
      using Cons.prems(4) [rule_format, of "Suc k"] app(4) by (simp add: add.assoc)
  qed
  have pn0: "has_pn g \<longrightarrow> frame_pn g = pn + 1" using Cons.prems(5) by force
  have pns: "(\<forall>g \<in> set gs. \<not> has_pn g) \<or> (\<forall>g \<in> set gs. has_pn g) \<and> (\<forall>k < length gs. frame_pn (gs ! k) = ?pn + 1 + of_nat k)"
  proof (cases "has_pn g")
    case True
    then have all: "\<forall>g \<in> set (g # gs). has_pn g" "\<forall>k < length (g # gs). frame_pn ((g # gs) ! k) = pn + 1 + of_nat k" using Cons.prems(5) by auto
    have "frame_pn (gs ! k) = ?pn + 1 + of_nat k" if "k < length gs" for k
      using all(2) [rule_format, of "Suc k"] that pn0 True by (simp add: add.assoc)
    then show ?thesis using all(1) by simp
  next
    case False
    then show ?thesis using Cons.prems(5) by auto
  qed
  have "rf_tail ?pf + sum_list (map (\<lambda>g. length (frag_body g)) gs) \<le> length (rf_buf ?pf)"
  proof -
    have "rf_tail ?pf - rf_data pf \<le> length (rf_bytes pf) + length (frag_body g)"
      using length_rf_bytes [OF app(1)] app(3,6) by simp
    then have "rf_tail ?pf \<le> rf_tail pf + length (frag_body g)"
      using length_rf_bytes [OF Cons.prems(1)] Cons.prems(1) unfolding rf_wf_def by linarith
    then show ?thesis using Cons.prems(6) app(5) by simp
  qed
  from Cons.IH [OF app(1) icv gw(2) tail pns this] have "defrag_loop ?pf ?pn (c + 1) gs \<noteq> None" .
  moreover have "\<not> length (rf_buf pf) - rf_tail pf < unat (rf_len ?g)" using room pull_body(5) [OF gw(1)] by simp
  ultimately show ?case using head pn0 by (simp add: Let_def)
qed simp

section \<open>Properties of reassembly\<close>

text \<open>
  C36. Reassembly. Of fragments that are long enough for their headers, only a sequence that is
  numbered 0, 1, 2, ..., was received under one key and, when all of it is encrypted with packet
  numbers, has consecutive packet numbers is put together; the frame then holds the first fragment and
  the bodies of the others with the integrity values between them cut off, inside the buffer of the
  first fragment. Conversely such a sequence, all encrypted or all not, is put together whenever it fits
  the buffer.
\<close>

theorem defrag_checks_and_joins:
  assumes "\<forall>g \<in> set (f # q). frag_wf (frames g)"
  shows "(\<forall>r freed. recvframe_defrag frames (f # q) = (Some r, freed) \<longrightarrow>
      fst r = f \<and> freed = q \<and> rf_wf (snd r) \<and>
      rf_bytes (snd r) = put_together ((rf_bytes (frames f), unat (rf_icv_len (frames f))) # frag_pieces (map frames q)) \<and>
      (\<forall>k < length (f # q). rf_frag_num (frames ((f # q) ! k)) = of_nat k \<and> rf_keytrack (frames ((f # q) ! k)) = rf_keytrack (frames f)) \<and>
      ((\<forall>g \<in> set (f # q). has_pn (frames g)) \<longrightarrow>
        (\<forall>k < length (f # q). frame_pn (frames ((f # q) ! k)) = frame_pn (frames f) + of_nat k))) \<and>
    ((\<forall>k < length (f # q). rf_frag_num (frames ((f # q) ! k)) = of_nat k \<and> rf_keytrack (frames ((f # q) ! k)) = rf_keytrack (frames f)) \<and>
      ((\<forall>g \<in> set (f # q). \<not> has_pn (frames g)) \<or>
        (\<forall>g \<in> set (f # q). has_pn (frames g)) \<and> (\<forall>k < length (f # q). frame_pn (frames ((f # q) ! k)) = frame_pn (frames f) + of_nat k)) \<and>
      rf_tail (frames f) + sum_list (map (\<lambda>g. length (frag_body (frames g))) q) \<le> length (rf_buf (frames f)) \<longrightarrow>
      fst (recvframe_defrag frames (f # q)) \<noteq> None)"
proof -
  have wf: "rf_wf (frames f)" "unat (rf_icv_len (frames f)) \<le> length (rf_bytes (frames f))" "\<forall>g \<in> set (map frames q). frag_wf g"
    using assms by (auto simp: frag_wf_def)
  let ?pn = "if has_pn (frames f) then frame_pn (frames f) else 0"
  have shift: "(\<forall>k < length (f # q). P (frames ((f # q) ! k)) k) \<longleftrightarrow> P (frames f) 0 \<and> (\<forall>k < length q. P (frames (q ! k)) (Suc k))" for P
    by (auto simp: nth_Cons split: nat.splits)
  have num: "(\<forall>k < length (f # q). rf_frag_num (frames ((f # q) ! k)) = of_nat k \<and> rf_keytrack (frames ((f # q) ! k)) = rf_keytrack (frames f)) \<longleftrightarrow>
      rf_frag_num (frames f) = 0 \<and> (\<forall>k < length (map frames q). rf_frag_num (map frames q ! k) = 1 + of_nat k \<and> rf_keytrack (map frames q ! k) = rf_keytrack (frames f))"
    using shift [of "\<lambda>x k. rf_frag_num x = of_nat k \<and> rf_keytrack x = rf_keytrack (frames f)"] by simp
  have pns: "(\<forall>k < length (f # q). frame_pn (frames ((f # q) ! k)) = frame_pn (frames f) + of_nat k) \<longleftrightarrow>
      (\<forall>k < length (map frames q). frame_pn (map frames q ! k) = frame_pn (frames f) + 1 + of_nat k)"
    using shift [of "\<lambda>x k. frame_pn x = frame_pn (frames f) + of_nat k"] by (simp add: add.assoc)
  have sound: "fst r = f \<and> freed = q \<and> rf_wf (snd r) \<and>
      rf_bytes (snd r) = put_together ((rf_bytes (frames f), unat (rf_icv_len (frames f))) # frag_pieces (map frames q)) \<and>
      rf_frag_num (frames f) = 0 \<and> (\<forall>k < length (map frames q). rf_frag_num (map frames q ! k) = 1 + of_nat k \<and> rf_keytrack (map frames q ! k) = rf_keytrack (frames f)) \<and>
      ((\<forall>g \<in> set (map frames q). has_pn g) \<longrightarrow> (\<forall>k < length (map frames q). frame_pn (map frames q ! k) = ?pn + 1 + of_nat k))"
    if "recvframe_defrag frames (f # q) = (Some r, freed)" for r freed
  proof -
    have r: "defrag_loop (frames f) ?pn 1 (map frames q) = Some (snd r)" "fst r = f" "freed = q" "rf_frag_num (frames f) = 0"
      using that by (auto simp: Let_def split: if_splits option.splits)
    show ?thesis using loop_sound [OF r(1) wf] joined_pieces [OF wf(2,3), of "[]"] r(2-4) by simp
  qed
  have complete: "fst (recvframe_defrag frames (f # q)) \<noteq> None"
    if "rf_frag_num (frames f) = 0" and "\<forall>k < length (map frames q). rf_frag_num (map frames q ! k) = 1 + of_nat k \<and> rf_keytrack (map frames q ! k) = rf_keytrack (frames f)"
      and "(\<forall>g \<in> set (map frames q). \<not> has_pn g) \<or> (\<forall>g \<in> set (map frames q). has_pn g) \<and> (\<forall>k < length (map frames q). frame_pn (map frames q ! k) = ?pn + 1 + of_nat k)"
      and "rf_tail (frames f) + sum_list (map (\<lambda>g. length (frag_body g)) (map frames q)) \<le> length (rf_buf (frames f))"
    using loop_complete [OF wf that(2,3,4)] that(1) by (auto simp: Let_def)
  show ?thesis unfolding num pns
    using sound complete by (auto simp: o_def)
qed

section \<open>Every frame has one owner\<close>

definition handed_over :: "nat option \<Rightarrow> nat multiset" where
  "handed_over r = (case r of None \<Rightarrow> {#} | Some g \<Rightarrow> {#g#})"

lemma recv_frames_free: "recv_frames (rx_stapriv (free_recvframes fs s)) = recv_frames (rx_stapriv s) + mset fs"
  by (simp add: free_recvframes_def recv_frames_def)

lemma recv_frames_set_q:
  assumes "i < length (stas (rx_stapriv s))"
  shows "recv_frames (rx_stapriv (set_defrag_q i q s)) + mset (defrag_q (stas (rx_stapriv s) ! i)) = recv_frames (rx_stapriv s) + mset q"
proof -
  let ?sp = "rx_stapriv s"
  let ?x = "(stas ?sp ! i)\<lparr>defrag_q := q\<rparr>"
  let ?S = "sum_list (map sta_recv_frames (stas ?sp))" and ?S' = "sum_list (map sta_recv_frames ((stas ?sp)[i := ?x]))"
    and ?d = "mset (defrag_q (stas ?sp ! i))" and ?old = "sta_recv_frames (stas ?sp ! i)"
  have x: "sta_recv_frames ?x + ?d = ?old + mset q" by (simp add: sta_recv_frames_def)
  have "(?S' + ?d) + ?old = (?S' + ?old) + ?d" by (simp only: ac_simps)
  also have "\<dots> = (?S + sta_recv_frames ?x) + ?d" by (simp only: sum_list_update_mset [OF assms])
  also have "\<dots> = ?S + (sta_recv_frames ?x + ?d)" by (simp only: ac_simps)
  also have "\<dots> = ?S + (?old + mset q)" by (simp only: x)
  also have "\<dots> = (?S + mset q) + ?old" by (simp only: ac_simps)
  finally have "?S' + ?d = ?S + mset q" by (simp only: add_right_cancel)
  then show ?thesis by (simp add: set_defrag_q_def recv_frames_def add.assoc)
qed

lemma defrag_owner: "q \<noteq> [] \<Longrightarrow> recvframe_defrag frames q = (r, freed) \<Longrightarrow> mset freed + handed_over (map_option fst r) = mset q"
  by (cases q) (auto simp: Let_def handed_over_def split: if_splits option.splits)

lemma get_stainfo_bound:
  assumes "sta_wf s" "rtw_get_stainfo s a = Some i"
  shows "i < length (stas s)"
proof -
  have "i \<in> set (sta_entries s (lookup_addr a))" using assms(2) by (auto simp: get_stainfo_entries split: list.splits)
  then have "i \<in> set (hashed s)" using sta.entries_used [OF assms(1)] by blast
  then show ?thesis using limbo_parts(7) [OF assms(1) [unfolded sta_wf_def]] assms(1) by (auto simp: sta_wf_def sta_wf_limbo_def)
qed

lemma queue_fragment_owner:
  assumes "\<forall>i. psta = Some i \<longrightarrow> i < length (stas (rx_stapriv s))" "queue_fragment psta s f = (r, s')"
  shows "recv_frames (rx_stapriv s') + handed_over r = recv_frames (rx_stapriv s) + {#f#}"
proof (cases psta)
  case None
  then show ?thesis using assms(2) by (auto simp: queue_fragment_def Let_def recv_frames_free handed_over_def)
next
  case (Some i)
  let ?q = "defrag_q (stas (rx_stapriv s) ! i)"
  define t where "t = s\<lparr>rx_frames := (rx_frames s)(f := (rx_frames s f)\<lparr>rf_keytrack := keytrack (stas (rx_stapriv s) ! i)\<rparr>)\<rparr>"
  have t: "rx_stapriv t = rx_stapriv s" by (simp add: t_def)
  have i: "i < length (stas (rx_stapriv t))" using assms(1) Some t by simp
  have set_q: "recv_frames (rx_stapriv (set_defrag_q i q t)) + mset ?q = recv_frames (rx_stapriv s) + mset q" for q
    using recv_frames_set_q [OF i] t by simp
  show ?thesis
  proof (cases "rf_mfrag (rx_frames s f)")
    case mf: True
    show ?thesis
    proof (cases "rf_frag_num (rx_frames s f) = 0")
      case True
      have "recv_frames (rx_stapriv (set_defrag_q i [f] (free_recvframes ?q t))) + mset ?q = recv_frames (rx_stapriv t) + mset ?q + {#f#}"
        using recv_frames_set_q [of i "free_recvframes ?q t" "[f]"] i t by (simp add: recv_frames_free) (simp add: free_recvframes_def)
      then show ?thesis using assms(2) Some mf True t by (auto simp: queue_fragment_def Let_def t_def handed_over_def)
    next
      case False
      then show ?thesis using assms(2) Some mf set_q [of "?q @ [f]"] by (auto simp: queue_fragment_def Let_def t_def handed_over_def)
    qed
  next
    case False
    obtain rr freed where d: "recvframe_defrag (rx_frames t) (?q @ [f]) = (rr, freed)" by fastforce
    have own: "mset freed + handed_over (map_option fst rr) = mset ?q + {#f#}" using defrag_owner [OF _ d] by simp
    have s': "rx_stapriv s' = rx_stapriv (free_recvframes freed (set_defrag_q i [] t))" "r = map_option fst rr"
      using assms(2) Some False d by (auto simp: queue_fragment_def Let_def t_def split: option.splits)
    have "recv_frames (rx_stapriv (set_defrag_q i [] t)) + mset ?q = recv_frames (rx_stapriv s)" using set_q [of "[]"] by simp
    then show ?thesis using own by (simp add: s' recv_frames_free) (metis (no_types, lifting) add.assoc add_mset_add_single)
  qed
qed

text \<open>
  C37. No frame is lost or freed twice on its way through reassembly: whether a frame is passed through,
  queued as a fragment, completes a frame, replaces a sequence left unfinished, or is refused (a group
  address, an unknown sender, fragments that do not belong together, a wrong MIC), the free frames, the
  frames the stations hold and the frame handed on are together the ones of before and the new frame.
\<close>

theorem defrag_keeps_frames:
  assumes "sta_wf (rx_stapriv s)" and "recvframe_chk_defrag keys micdata s f = (r, s')"
  shows "recv_frames (rx_stapriv s') + (case r of None \<Rightarrow> {#} | Some g \<Rightarrow> {#g#}) = recv_frames (rx_stapriv s) + {#f#}"
proof -
  let ?fr = "rx_frames s f"
  define psta where "psta = (case rtw_get_stainfo (rx_stapriv s) (rf_ta ?fr) of Some i \<Rightarrow> Some i
    | None \<Rightarrow> if (rf_buf ?fr ! rf_data ?fr) AND 0x0C \<noteq> WIFI_DATA_TYPE then rtw_get_bcmc_stainfo (rx_stapriv s) else None)"
  define frag where "frag = (rf_mfrag ?fr \<or> rf_frag_num ?fr \<noteq> 0)"
  have bound: "\<forall>i. psta = Some i \<longrightarrow> i < length (stas (rx_stapriv s))"
    using get_stainfo_bound [OF assms(1)] by (auto simp: psta_def rtw_get_bcmc_stainfo_def split: option.splits if_splits)
  show ?thesis
  proof (cases "frag \<and> IS_MCAST (rf_ra ?fr)")
    case True
    then show ?thesis using assms(2) by (auto simp: recvframe_chk_defrag_def Let_def frag_def recv_frames_free)
  next
    case False
    obtain g t where q: "(if frag then queue_fragment psta s f else (Some f, s)) = (g, t)" by fastforce
    have own: "recv_frames (rx_stapriv t) + handed_over g = recv_frames (rx_stapriv s) + {#f#}"
      using queue_fragment_owner [OF bound] q by (auto simp: handed_over_def split: if_splits)
    have "(r, s') = (case g of None \<Rightarrow> (None, t) | Some h \<Rightarrow>
        if rf_privacy (rx_frames t h)
        then let (ok, gr) = recvframe_chkmic keys micdata (rx_stapriv t) (rx_frames t h); t = t\<lparr>rx_frames := (rx_frames t)(h := gr)\<rparr>
             in if ok then (Some h, t) else (None, free_recvframes [h] t)
        else (Some h, t))"
      using assms(2) False q unfolding recvframe_chk_defrag_def Let_def psta_def [symmetric] frag_def [symmetric] by simp
    then have "recv_frames (rx_stapriv s') + handed_over r = recv_frames (rx_stapriv t) + handed_over g"
      by (auto simp: Let_def recv_frames_free handed_over_def split: option.splits if_splits prod.splits)
    then show ?thesis using own by (simp add: handed_over_def)
  qed
qed

definition example_frag :: "u8 \<Rightarrow> bool \<Rightarrow> recv_frame" where
  "example_frag n more_frags = \<lparr>rf_buf = replicate 100 7, rf_data = 0, rf_tail = 40, rf_len = 40, rf_keytrack = 0, rf_encrypt = 0, rf_hdrlen = 24,
     rf_iv_len = 0, rf_icv_len = 0, rf_frag_num = n, rf_mfrag = more_frags, rf_privacy = False, rf_ta = [2, 0, 0, 0, 0, 1], rf_ra = [2, 0, 0, 0, 0, 2],
     rf_priority = 0, rf_key_index = 0\<rparr>"

theorem defrag_checks_and_joins_witness:
  "fst (recvframe_defrag (\<lambda>g. example_frag (of_nat g) (g < 2)) [0, 1, 2]) \<noteq> None"
proof -
  have wf: "\<forall>g \<in> set [0, 1, 2]. frag_wf (example_frag (of_nat g) (g < 2))"
    by (simp add: frag_wf_def rf_wf_def rf_bytes_def example_frag_def)
  have "\<forall>k < length [0, 1, 2 :: nat]. [0, 1, 2 :: nat] ! k = k" by (simp add: nth_Cons' less_Suc_eq)
  then have "\<forall>k < length [0, 1, 2 :: nat]. rf_frag_num (example_frag (of_nat ([0, 1, 2] ! k)) ([0, 1, 2] ! k < 2)) = of_nat k \<and>
      rf_keytrack (example_frag (of_nat ([0, 1, 2] ! k)) ([0, 1, 2 :: nat] ! k < 2)) = 0" by (simp add: example_frag_def)
  then show ?thesis
    using defrag_checks_and_joins [OF wf] by (simp add: frag_body_def rf_bytes_def has_pn_def example_frag_def ENC_AES_def ENC_CCMP_256_def ENC_GCMP_def ENC_GCMP_256_def
      del: recvframe_defrag.simps)
qed

definition example_keys :: mic_keys where
  "example_keys = \<lparr>mk_group = (\<lambda>_. replicate 8 0), mk_installed = False, mk_sta = (\<lambda>_. replicate 8 0)\<rparr>"

definition example_mic :: mic_data where
  "example_mic = \<lparr>mic_K0 = 0, mic_K1 = 0, mic_L = 0, mic_R = 0, mic_M = 0, nBytesInM = 0\<rparr>"

theorem defrag_keeps_frames_witness:
  "recv_frames (rx_stapriv (snd (recvframe_chk_defrag example_keys example_mic \<lparr>rx_stapriv = example_table, rx_frames = (\<lambda>g. example_frag 0 False)\<rparr> 5))) +
    (case fst (recvframe_chk_defrag example_keys example_mic \<lparr>rx_stapriv = example_table, rx_frames = (\<lambda>g. example_frag 0 False)\<rparr> 5) of None \<Rightarrow> {#} | Some g \<Rightarrow> {#g#}) =
    recv_frames example_table + {#5#}"
  using defrag_keeps_frames [of "\<lparr>rx_stapriv = example_table, rx_frames = (\<lambda>g. example_frag 0 False)\<rparr>"] reach_wf [OF example_reach(1)] by simp

end
