(* ===== verification/AMSDU.thy ===== *)
theory AMSDU
  imports Defrag "HOL-Library.Sublist"
begin

unbundle bit_operations_syntax

text \<open>
  Aggregated frames: \<^verbatim>\<open>amsdu_to_msdu\<close> of \<^verbatim>\<open>core/rtw_recv.c\<close> takes the subframes out of an A-MSDU and hands them to
  the network stack as Ethernet frames, on the path of a station. Memory for the \<open>k\<close>-th packet can be had
  iff \<open>alloc k\<close>. Forwarding between the stations of an access point, the LED and the statistics are left out.
\<close>

section \<open>Operations\<close>

definition ETH_HLEN :: nat where "ETH_HLEN = 14"
definition SNAP_SIZE :: nat where "SNAP_SIZE = 6"
definition MAX_SUBFRAME_COUNT :: nat where "MAX_SUBFRAME_COUNT = 64"
definition ETH_P_AARP :: u16 where "ETH_P_AARP = 0x80F3"
definition ETH_P_IPX :: u16 where "ETH_P_IPX = 0x8137"
definition rtw_rfc1042_header :: bytes where "rtw_rfc1042_header = [0xaa, 0xaa, 0x03, 0x00, 0x00, 0x00]"
definition rtw_bridge_tunnel_header :: bytes where "rtw_bridge_tunnel_header = [0xaa, 0xaa, 0x03, 0x00, 0x00, 0xf8]"

datatype rtw_rx_llc_hdl = RTW_RX_LLC_KEEP | RTW_RX_LLC_REMOVE | RTW_RX_LLC_VLAN

definition rtw_recv_llc_parse :: "bytes \<Rightarrow> rtw_rx_llc_hdl" where
  "rtw_recv_llc_parse msdu =
     (if length msdu < 8 then RTW_RX_LLC_KEEP
      else let eth_type = RTW_GET_BE16 (drop SNAP_SIZE msdu)
           in if take SNAP_SIZE msdu = rtw_rfc1042_header \<and> eth_type \<noteq> ETH_P_AARP \<and> eth_type \<noteq> ETH_P_IPX \<or>
                 take SNAP_SIZE msdu = rtw_bridge_tunnel_header
              then RTW_RX_LLC_REMOVE else RTW_RX_LLC_KEEP)"

text \<open>\<open>am_protected\<close>: A-MSDUs are used without SPP and the network encrypts.\<close>

record amsdu_ctx =
  am_protected :: bool
  am_to_fr_ds :: nat
  am_ra :: bytes
  am_ta :: bytes

definition validate_amsdu_content :: "amsdu_ctx \<Rightarrow> bytes \<Rightarrow> bytes \<Rightarrow> bool" where
  "validate_amsdu_content c da sa =
     (if am_protected c
      then \<not> (am_to_fr_ds c = 2 \<and> da \<noteq> am_ra c) \<and> \<not> (am_to_fr_ds c = 1 \<and> sa \<noteq> am_ta c) \<and> da \<noteq> rtw_rfc1042_header
      else True)"

definition rtw_os_alloc_msdu_pkt :: "bytes \<Rightarrow> bytes \<Rightarrow> bytes \<Rightarrow> rtw_rx_llc_hdl \<Rightarrow> bytes" where
  "rtw_os_alloc_msdu_pkt da sa msdu llc_hdl =
     (if llc_hdl \<noteq> RTW_RX_LLC_KEEP then da @ sa @ drop SNAP_SIZE msdu
      else da @ sa @ RTW_PUT_BE16 (of_nat (length msdu)) @ msdu)"

function amsdu_loop :: "amsdu_ctx \<Rightarrow> (nat \<Rightarrow> bool) \<Rightarrow> nat \<Rightarrow> bytes \<Rightarrow> bytes list" where
  "amsdu_loop c alloc nr_subframes pdata =
     (if length pdata \<le> ETH_HLEN then []
      else let n = unat (RTW_GET_BE16 (drop 12 pdata))
           in if length pdata < ETH_HLEN + n then []
              else let da = take 6 pdata; sa = take 6 (drop 6 pdata); msdu = take n (drop ETH_HLEN pdata)
                   in if \<not> validate_amsdu_content c da sa then []
                      else if \<not> alloc nr_subframes then []
                      else let pkt = rtw_os_alloc_msdu_pkt da sa msdu (rtw_recv_llc_parse msdu);
                               rest = drop (ETH_HLEN + n) pdata;
                               pad = (4 - (n + ETH_HLEN) mod 4) mod 4
                           in if MAX_SUBFRAME_COUNT \<le> nr_subframes + 1 then [pkt]
                              else if rest = [] then [pkt]
                              else if length rest < pad then [pkt]
                              else pkt # amsdu_loop c alloc (nr_subframes + 1) (drop pad rest))"
  by pat_completeness auto
termination
  by (relation "measure (\<lambda>(c, alloc, nr, pdata). length pdata)") (auto simp: ETH_HLEN_def)

declare amsdu_loop.simps [simp del]

definition amsdu_to_msdu :: "amsdu_ctx \<Rightarrow> (nat \<Rightarrow> bool) \<Rightarrow> recv_frame \<Rightarrow> bytes list" where
  "amsdu_to_msdu c alloc fr =
     (let fr = recvframe_pull fr (unat (rf_hdrlen fr));
          fr = (if rf_iv_len fr \<noteq> 0 then recvframe_pull fr (unat (rf_iv_len fr)) else fr);
          fr = (if rf_encrypt fr \<noteq> 0 then recvframe_pull_tail fr (unat (rf_icv_len fr)) else fr)
      in amsdu_loop c alloc 0 (take (unat (rf_len fr)) (drop (rf_data fr) (rf_buf fr))))"

text \<open>
  A frame that is not aggregated becomes an Ethernet frame in its own buffer: the addresses are written over
  the end of the header that is removed. \<open>rmv_len\<close> is at least 24, the length of the shortest header of a
  data frame, so that no difference is negative.
\<close>

definition wlanhdr_to_ethhdr :: "bytes \<Rightarrow> bytes \<Rightarrow> recv_frame \<Rightarrow> rtw_rx_llc_hdl \<Rightarrow> bool \<times> recv_frame" where
  "wlanhdr_to_ethhdr dst src fr llc_hdl =
     (let fr = (if rf_encrypt fr \<noteq> 0 then recvframe_pull_tail fr (unat (rf_icv_len fr)) else fr);
          rmv_len = unat (rf_hdrlen fr) + unat (rf_iv_len fr) + (if llc_hdl \<noteq> RTW_RX_LLC_KEEP then SNAP_SIZE else 0);
          len = ucast (rf_len fr - of_nat rmv_len) :: u16;
          sz = rmv_len - ETH_HLEN + (if llc_hdl \<noteq> RTW_RX_LLC_KEEP then 2 else 0)
      in if rf_tail fr < rf_data fr + sz then (False, fr)
         else let fr = recvframe_pull fr sz;
                  buf = copy_to (copy_to (rf_buf fr) (rf_data fr) dst) (rf_data fr + 6) src;
                  buf = (if llc_hdl = RTW_RX_LLC_KEEP then copy_to buf (rf_data fr + 12) (RTW_PUT_BE16 len) else buf)
              in (True, fr\<lparr>rf_buf := buf\<rparr>))"

section \<open>Subframes\<close>

text \<open>
  A subframe as a sender writes it, and an A-MSDU of several, all but the last padded to four bytes. The Ethernet
  frame of a subframe is that of IEEE 802.1H: destination, source, and then, behind the LLC/SNAP header of RFC 1042 or of a
  bridge tunnel, the EtherType and payload that follow that header; AppleTalk ARP (\<open>80-F3\<close>) and IPX (\<open>81-37\<close>)
  keep their RFC 1042 header, and they and all other payloads are preceded by their length. None
  of these definitions uses one of the code.
\<close>

type_synonym subframe = "bytes \<times> bytes \<times> bytes"

fun sub_enc :: "subframe \<Rightarrow> bytes" where
  "sub_enc (da, sa, msdu) = da @ sa @ be_bytes 2 (of_nat (length msdu) :: u16) @ msdu"

fun sub_fits :: "subframe \<Rightarrow> bool" where
  "sub_fits (da, sa, msdu) \<longleftrightarrow> length da = 6 \<and> length sa = 6 \<and> msdu \<noteq> [] \<and> length msdu < 65536"

definition snap_encapsulated :: "bytes \<Rightarrow> bool" where
  "snap_encapsulated msdu \<longleftrightarrow> 8 \<le> length msdu \<and>
     (take 6 msdu = [0xaa, 0xaa, 0x03, 0, 0, 0] \<and> take 2 (drop 6 msdu) \<notin> {[0x80, 0xf3], [0x81, 0x37]} \<or>
      take 6 msdu = [0xaa, 0xaa, 0x03, 0, 0, 0xf8])"

fun sub_eth :: "subframe \<Rightarrow> bytes" where
  "sub_eth (da, sa, msdu) =
     (if snap_encapsulated msdu then da @ sa @ drop 6 msdu
      else da @ sa @ be_bytes 2 (of_nat (length msdu) :: u16) @ msdu)"

text \<open>The addresses of a subframe are those the network allows: in a protected one, those of the frame around it.\<close>

fun sub_allowed :: "amsdu_ctx \<Rightarrow> subframe \<Rightarrow> bool" where
  "sub_allowed c (da, sa, msdu) \<longleftrightarrow> (am_protected c \<longrightarrow>
     (am_to_fr_ds c = 2 \<longrightarrow> da = am_ra c) \<and> (am_to_fr_ds c = 1 \<longrightarrow> sa = am_ta c) \<and> da \<noteq> [0xaa, 0xaa, 0x03, 0, 0, 0])"

lemma sub_allowed_valid: "validate_amsdu_content c (fst s) (fst (snd s)) \<longleftrightarrow> sub_allowed c s"
  by (cases s) (auto simp: validate_amsdu_content_def rtw_rfc1042_header_def)

lemma snap_type:
  assumes "8 \<le> length msdu"
  shows "RTW_GET_BE16 (drop SNAP_SIZE msdu) = ETH_P_AARP \<longleftrightarrow> take 2 (drop 6 msdu) = [0x80, 0xf3]"
    and "RTW_GET_BE16 (drop SNAP_SIZE msdu) = ETH_P_IPX \<longleftrightarrow> take 2 (drop 6 msdu) = [0x81, 0x37]"
proof -
  have l: "2 \<le> length (drop 6 msdu)" using assms by simp
  then obtain a q where q: "drop 6 msdu = a # q" by (cases "drop 6 msdu") auto
  from l [unfolded q] obtain b r where r: "q = b # r" by (cases q) auto
  note d = q [unfolded r]
  have be: "RTW_GET_BE16 (a # b # r) = RTW_GET_BE16 [x, y] \<longleftrightarrow> a = x \<and> b = y" for x y
  proof
    assume e: "RTW_GET_BE16 (a # b # r) = RTW_GET_BE16 [x, y]"
    have "RTW_PUT_BE16 (RTW_GET_BE16 (u # v # w)) = [u, v]" for u v w
      by (auto intro!: word_eqI_bits simp: RTW_GET_BE16_def RTW_PUT_BE16_def word_bits dest: bit_imp_le_length)
    from this [of a b r] this [of x y "[]"] e show "a = x \<and> b = y" by simp
  qed (simp add: RTW_GET_BE16_def)
  have "RTW_GET_BE16 [0x80, 0xf3] = ETH_P_AARP" "RTW_GET_BE16 [0x81, 0x37] = ETH_P_IPX"
    by (simp_all add: RTW_GET_BE16_def ETH_P_AARP_def ETH_P_IPX_def)
  then show "RTW_GET_BE16 (drop SNAP_SIZE msdu) = ETH_P_AARP \<longleftrightarrow> take 2 (drop 6 msdu) = [0x80, 0xf3]"
    "RTW_GET_BE16 (drop SNAP_SIZE msdu) = ETH_P_IPX \<longleftrightarrow> take 2 (drop 6 msdu) = [0x81, 0x37]"
    using be [of "0x80" "0xf3"] be [of "0x81" "0x37"] by (simp_all add: d SNAP_SIZE_def)
qed

text \<open>The code computes these packets.\<close>

lemma llc_parse_snap: "rtw_recv_llc_parse msdu = (if snap_encapsulated msdu then RTW_RX_LLC_REMOVE else RTW_RX_LLC_KEEP)"
proof (cases "8 \<le> length msdu")
  case True
  then show ?thesis
    unfolding rtw_recv_llc_parse_def Let_def snap_type [OF True] snap_encapsulated_def
    by (simp add: SNAP_SIZE_def rtw_rfc1042_header_def rtw_bridge_tunnel_header_def)
qed (simp add: rtw_recv_llc_parse_def snap_encapsulated_def)

lemma sub_eth_pkt: "rtw_os_alloc_msdu_pkt da sa msdu (rtw_recv_llc_parse msdu) = sub_eth (da, sa, msdu)"
  by (simp add: rtw_os_alloc_msdu_pkt_def llc_parse_snap SNAP_SIZE_def put_is_be_bytes)

lemma sub_eth_code: "sub_eth (da, sa, msdu) = rtw_os_alloc_msdu_pkt da sa msdu (rtw_recv_llc_parse msdu)"
  by (rule sub_eth_pkt [symmetric])

lemma sub_enc_code: "sub_enc (da, sa, msdu) = da @ sa @ RTW_PUT_BE16 (of_nat (length msdu)) @ msdu"
  by (simp add: put_is_be_bytes)

declare sub_enc.simps [simp del] sub_eth.simps [simp del]
declare sub_enc_code [simp] sub_eth_code [simp]

definition sub_pad :: "nat \<Rightarrow> nat" where
  "sub_pad n = (4 - n mod 4) mod 4"

fun amsdu_enc :: "subframe list \<Rightarrow> bytes" where
  "amsdu_enc [] = []"
| "amsdu_enc [s] = sub_enc s"
| "amsdu_enc (s # t # ss) = sub_enc s @ replicate (sub_pad (length (sub_enc s))) 0 @ amsdu_enc (t # ss)"

lemma sub_enc_parts:
  assumes "sub_fits (da, sa, msdu)"
  shows "take 6 (sub_enc (da, sa, msdu) @ xs) = da" "take 6 (drop 6 (sub_enc (da, sa, msdu) @ xs)) = sa"
    "unat (RTW_GET_BE16 (drop 12 (sub_enc (da, sa, msdu) @ xs))) = length msdu"
    "take (length msdu) (drop ETH_HLEN (sub_enc (da, sa, msdu) @ xs)) = msdu"
    "drop (ETH_HLEN + length msdu) (sub_enc (da, sa, msdu) @ xs) = xs"
    "length (sub_enc (da, sa, msdu)) = ETH_HLEN + length msdu"
proof -
  have l: "length da = 6" "length sa = 6" "length msdu < 65536" using assms by simp_all
  obtain h l' where be: "RTW_PUT_BE16 (of_nat (length msdu)) = [h, l']" by (simp add: RTW_PUT_BE16_def)
  have get: "RTW_GET_BE16 ([h, l'] @ ys) = of_nat (length msdu)" for ys
    using be by (metis RTW_GET_PUT_BE16)
  have "unat (of_nat (length msdu) :: u16) = length msdu" using l(3) by (simp add: unsigned_of_nat take_bit_nat_eq_self)
  then show "unat (RTW_GET_BE16 (drop 12 (sub_enc (da, sa, msdu) @ xs))) = length msdu" using l get by (simp add: be)
qed (use assms in \<open>simp_all add: ETH_HLEN_def\<close>)

text \<open>One round of the loop: it ends with nothing when a guard fails, and otherwise gives the packet.\<close>

definition sub_size :: "bytes \<Rightarrow> nat" where
  "sub_size d = unat (RTW_GET_BE16 (drop 12 d))"

definition sub_ok :: "amsdu_ctx \<Rightarrow> bytes \<Rightarrow> bool" where
  "sub_ok c d \<longleftrightarrow> ETH_HLEN < length d \<and> ETH_HLEN + sub_size d \<le> length d \<and> validate_amsdu_content c (take 6 d) (take 6 (drop 6 d))"

definition sub_pkt :: "bytes \<Rightarrow> bytes" where
  "sub_pkt d = sub_eth (take 6 d, take 6 (drop 6 d), take (sub_size d) (drop ETH_HLEN d))"

lemma amsdu_loop_stop: "\<not> sub_ok c d \<or> \<not> alloc nr \<Longrightarrow> amsdu_loop c alloc nr d = []"
  unfolding sub_ok_def sub_size_def by (subst amsdu_loop.simps) (simp only: Let_def not_le not_less split: if_split, blast)

lemma amsdu_loop_go:
  assumes "sub_ok c d" "alloc nr"
  shows "amsdu_loop c alloc nr d =
    (if MAX_SUBFRAME_COUNT \<le> nr + 1 \<or> drop (ETH_HLEN + sub_size d) d = [] \<or>
        length (drop (ETH_HLEN + sub_size d) d) < sub_pad (sub_size d + ETH_HLEN) then [sub_pkt d]
     else sub_pkt d # amsdu_loop c alloc (nr + 1) (drop (sub_pad (sub_size d + ETH_HLEN)) (drop (ETH_HLEN + sub_size d) d)))"
proof -
  have g: "\<not> length d \<le> ETH_HLEN" "\<not> length d < ETH_HLEN + sub_size d" "validate_amsdu_content c (take 6 d) (take 6 (drop 6 d))"
    using assms(1) unfolding sub_ok_def by (simp_all only: not_le not_less)
  show ?thesis
    unfolding amsdu_loop.simps [of c alloc nr d] Let_def sub_size_def [symmetric] sub_pkt_def sub_eth_code sub_pad_def
    using g assms(2) by (simp only: if_False if_True not_True_eq_False split: if_split, blast)
qed

lemma amsdu_step:
  assumes s: "sub_fits s" and v: "validate_amsdu_content c (fst s) (fst (snd s))" and al: "alloc nr"
  shows "amsdu_loop c alloc nr (sub_enc s @ xs) =
    (if MAX_SUBFRAME_COUNT \<le> nr + 1 \<or> xs = [] \<or> length xs < sub_pad (length (sub_enc s)) then [sub_eth s]
     else sub_eth s # amsdu_loop c alloc (nr + 1) (drop (sub_pad (length (sub_enc s))) xs))"
proof -
  obtain da sa msdu where e: "s = (da, sa, msdu)" by (cases s) auto
  note p = sub_enc_parts [OF s [unfolded e]]
  have sz: "sub_size (sub_enc s @ xs) = length msdu" unfolding sub_size_def e by (rule p(3))
  have len: "length (sub_enc s @ xs) = ETH_HLEN + length msdu + length xs" by (simp only: length_append e p(6))
  have "length msdu \<noteq> 0" using s by (simp add: e)
  then have ok: "sub_ok c (sub_enc s @ xs)"
    using v unfolding sub_ok_def sz len unfolding e p(1,2) by simp
  have pk: "sub_pkt (sub_enc s @ xs) = sub_eth s" unfolding sub_pkt_def sz unfolding e p(1,2,4) ..
  have d: "drop (ETH_HLEN + length msdu) (sub_enc s @ xs) = xs" unfolding e by (rule p(5))
  have l: "length (sub_enc s) = length msdu + ETH_HLEN" unfolding e p(6) by simp
  show ?thesis unfolding amsdu_loop_go [where alloc = alloc, OF ok al] sz d pk l ..
qed

lemma amsdu_run:
  assumes "\<forall>s \<in> set ss. sub_fits s \<and> validate_amsdu_content c (fst s) (fst (snd s))" "\<forall>k < MAX_SUBFRAME_COUNT. alloc k"
    "nr + length ss \<le> MAX_SUBFRAME_COUNT"
  shows "amsdu_loop c alloc nr (amsdu_enc ss) = map sub_eth ss"
  using assms
proof (induction ss arbitrary: nr rule: amsdu_enc.induct)
  case 1
  show ?case by (subst amsdu_loop.simps) simp
next
  case (2 s)
  then show ?case using amsdu_step [of s c alloc nr "[]"] by simp
next
  case (3 s t ss)
  have "amsdu_enc (t # ss) \<noteq> []" using "3.prems"(1) by (cases ss; cases t) auto
  moreover have "amsdu_loop c alloc (nr + 1) (amsdu_enc (t # ss)) = map sub_eth (t # ss)" using "3.prems" by (intro "3.IH") auto
  ultimately show ?case using "3.prems" amsdu_step [of s c alloc nr] by simp
qed

section \<open>Frames\<close>

text \<open>The body of a received frame: what is between its header and initialization vector and its integrity value.\<close>

definition rf_body :: "recv_frame \<Rightarrow> bytes" where
  "rf_body f = (let n = (if rf_encrypt f \<noteq> 0 then unat (rf_icv_len f) else 0)
     in take (length (rf_bytes f) - n - (unat (rf_hdrlen f) + unat (rf_iv_len f))) (drop (unat (rf_hdrlen f) + unat (rf_iv_len f)) (rf_bytes f)))"

lemma pull_bytes:
  assumes "rf_wf f" "n \<le> length (rf_bytes f)"
  shows "rf_wf (recvframe_pull f n)" "rf_bytes (recvframe_pull f n) = drop n (rf_bytes f)"
    "recvframe_pull f n = f\<lparr>rf_data := rf_data f + n, rf_len := rf_len f - of_nat n\<rparr>"
proof -
  have le: "n \<le> rf_tail f - rf_data f" "rf_data f \<le> rf_tail f" using assms length_rf_bytes by (auto simp: rf_wf_def)
  then have "\<not> rf_tail f < rf_data f + n" by linarith
  then show p: "recvframe_pull f n = f\<lparr>rf_data := rf_data f + n, rf_len := rf_len f - of_nat n\<rparr>" by (simp add: recvframe_pull_def)
  have "unat (rf_len f - of_nat n) = rf_tail f - rf_data f - n" using unat_u32_minus [of n "rf_len f"] le assms(1) by (simp add: rf_wf_def)
  then show "rf_wf (recvframe_pull f n)" using le assms(1) by (simp add: p rf_wf_def)
  show "rf_bytes (recvframe_pull f n) = drop n (rf_bytes f)" by (simp add: p rf_bytes_def drop_take add.commute)
qed

lemma pull_tail_bytes:
  assumes "rf_wf f" "n \<le> length (rf_bytes f)"
  shows "rf_wf (recvframe_pull_tail f n)" "rf_bytes (recvframe_pull_tail f n) = take (length (rf_bytes f) - n) (rf_bytes f)"
    "recvframe_pull_tail f n = f\<lparr>rf_tail := rf_tail f - n, rf_len := rf_len f - of_nat n\<rparr>"
proof -
  have l: "length (rf_bytes f) = rf_tail f - rf_data f" by (rule length_rf_bytes [OF assms(1)])
  then have le: "n \<le> rf_tail f - rf_data f" "rf_data f \<le> rf_tail f" using assms by (auto simp: rf_wf_def)
  then have "\<not> rf_tail f < rf_data f + n" by linarith
  then show p: "recvframe_pull_tail f n = f\<lparr>rf_tail := rf_tail f - n, rf_len := rf_len f - of_nat n\<rparr>" by (simp add: recvframe_pull_tail_def)
  have "unat (rf_len f - of_nat n) = rf_tail f - rf_data f - n" using unat_u32_minus [of n "rf_len f"] le assms(1) by (simp add: rf_wf_def)
  then show "rf_wf (recvframe_pull_tail f n)" using le assms(1) by (auto simp: p rf_wf_def)
  show "rf_bytes (recvframe_pull_tail f n) = take (length (rf_bytes f) - n) (rf_bytes f)"
    unfolding l by (simp add: p rf_bytes_def min_def add.commute)
qed

lemma amsdu_to_msdu_body:
  assumes "frag_wf fr"
  shows "amsdu_to_msdu c alloc fr = amsdu_loop c alloc 0 (rf_body fr)"
proof -
  let ?h = "unat (rf_hdrlen fr)" and ?i = "unat (rf_iv_len fr)"
  have wf: "rf_wf fr" and room: "?h + ?i + unat (rf_icv_len fr) \<le> length (rf_bytes fr)" using assms by (simp_all add: frag_wf_def)
  define f1 where "f1 = recvframe_pull fr ?h"
  have f1: "rf_wf f1" "rf_bytes f1 = drop ?h (rf_bytes fr)" "rf_iv_len f1 = rf_iv_len fr" "rf_encrypt f1 = rf_encrypt fr" "rf_icv_len f1 = rf_icv_len fr"
    using pull_bytes [OF wf, of ?h] room by (simp_all add: f1_def)
  define f2 where "f2 = (if rf_iv_len f1 \<noteq> 0 then recvframe_pull f1 (unat (rf_iv_len f1)) else f1)"
  have f2: "rf_wf f2" "rf_bytes f2 = drop (?h + ?i) (rf_bytes fr)" "rf_encrypt f2 = rf_encrypt fr" "rf_icv_len f2 = rf_icv_len fr"
    using pull_bytes [OF f1(1), of ?i] room f1 by (auto simp: f2_def add.commute)
  define f3 where "f3 = (if rf_encrypt f2 \<noteq> 0 then recvframe_pull_tail f2 (unat (rf_icv_len f2)) else f2)"
  have "rf_wf f3" "rf_bytes f3 = rf_body fr"
    using pull_tail_bytes [OF f2(1), of "unat (rf_icv_len fr)"] room f2 by (auto simp: f3_def rf_body_def Let_def ac_simps)
  then have "take (unat (rf_len f3)) (drop (rf_data f3) (rf_buf f3)) = rf_body fr" by (simp add: rf_wf_def rf_bytes_def)
  then show ?thesis by (simp only: amsdu_to_msdu_def Let_def f1_def [symmetric] f2_def [symmetric] f3_def [symmetric])
qed

lemma copy_to_rf_bytes:
  assumes "rf_wf f" "k + length x \<le> length (rf_bytes f)"
  shows "rf_bytes (f\<lparr>rf_buf := copy_to (rf_buf f) (rf_data f + k) x\<rparr>) = copy_to (rf_bytes f) k x"
    "rf_wf (f\<lparr>rf_buf := copy_to (rf_buf f) (rf_data f + k) x\<rparr>)"
proof -
  let ?n = "rf_tail f - rf_data f"
  have l: "length (rf_bytes f) = ?n" by (rule length_rf_bytes [OF assms(1)])
  have b: "rf_data f \<le> rf_tail f" "rf_tail f \<le> length (rf_buf f)" using assms(1) by (simp_all add: rf_wf_def)
  have k: "k + length x \<le> ?n" using assms(2) l by simp
  have "drop (rf_data f) (copy_to (rf_buf f) (rf_data f + k) x) = copy_to (drop (rf_data f) (rf_buf f)) k x"
    using b k by (simp add: copy_to_def drop_take add.commute add.left_commute)
  moreover have "take n (copy_to e k x) = copy_to (take n e) k x" if "n \<le> length e" "k + length x \<le> n" for n and e :: bytes
  proof -
    have "k \<le> n" "length x \<le> n - k" "k \<le> length e" using that by linarith+
    then show ?thesis by (simp add: copy_to_def take_drop min_absorb1 min_absorb2)
  qed
  ultimately show "rf_bytes (f\<lparr>rf_buf := copy_to (rf_buf f) (rf_data f + k) x\<rparr>) = copy_to (rf_bytes f) k x"
    using b k by (simp add: rf_bytes_def)
  have "length (copy_to (rf_buf f) (rf_data f + k) x) = length (rf_buf f)" using b k by (simp add: copy_to_def)
  then show "rf_wf (f\<lparr>rf_buf := copy_to (rf_buf f) (rf_data f + k) x\<rparr>)" using assms(1) by (simp add: rf_wf_def)
qed

text \<open>The addresses, and possibly a length, written over the start of the data.\<close>

lemma copy_header:
  assumes wf: "rf_wf f" and l: "length dst = 6" "length src = 6" "12 + length x \<le> length (rf_bytes f)"
  defines "g \<equiv> f\<lparr>rf_buf := copy_to (copy_to (copy_to (rf_buf f) (rf_data f) dst) (rf_data f + 6) src) (rf_data f + 12) x\<rparr>"
  shows "rf_wf g" "rf_bytes g = dst @ src @ x @ drop (12 + length x) (rf_bytes f)"
proof -
  have len: "length (copy_to b k y) = length b" if "k + length y \<le> length b" for b y :: bytes and k using that by (simp add: copy_to_def)
  define f1 where "f1 = f\<lparr>rf_buf := copy_to (rf_buf f) (rf_data f + 0) dst\<rparr>"
  have f1: "rf_wf f1" "rf_bytes f1 = copy_to (rf_bytes f) 0 dst" using copy_to_rf_bytes [OF wf, of 0 dst] l by (simp_all add: f1_def)
  have n1: "length (rf_bytes f1) = length (rf_bytes f)" using l by (simp add: f1(2) len)
  define f2 where "f2 = f1\<lparr>rf_buf := copy_to (rf_buf f1) (rf_data f1 + 6) src\<rparr>"
  have f2: "rf_wf f2" "rf_bytes f2 = copy_to (rf_bytes f1) 6 src" using copy_to_rf_bytes [OF f1(1), of 6 src] l n1 by (simp_all add: f2_def)
  have n2: "length (rf_bytes f2) = length (rf_bytes f)" using l n1 by (simp add: f2(2) len)
  have g: "g = f2\<lparr>rf_buf := copy_to (rf_buf f2) (rf_data f2 + 12) x\<rparr>" by (simp add: g_def f2_def f1_def)
  show "rf_wf g" unfolding g using copy_to_rf_bytes(2) [OF f2(1), of 12 x] l n2 by simp
  have "rf_bytes g = copy_to (rf_bytes f2) 12 x" unfolding g using copy_to_rf_bytes(1) [OF f2(1), of 12 x] l n2 by simp
  then show "rf_bytes g = dst @ src @ x @ drop (12 + length x) (rf_bytes f)" using l by (simp add: f2(2) f1(2) copy_to_def add.commute)
qed

lemma amsdu_loop_count: "nr < MAX_SUBFRAME_COUNT \<Longrightarrow> length (amsdu_loop c alloc nr d) \<le> MAX_SUBFRAME_COUNT - nr"
proof (induction "MAX_SUBFRAME_COUNT - nr" arbitrary: nr d)
  case 0
  then show ?case by simp
next
  case (Suc m)
  show ?case
  proof (cases "sub_ok c d \<and> alloc nr \<and> nr + 1 < MAX_SUBFRAME_COUNT")
    case True
    have "m = MAX_SUBFRAME_COUNT - (nr + 1)" using Suc.hyps(2) by simp
    then have "length (amsdu_loop c alloc (nr + 1) e) \<le> m" for e using Suc.hyps(1) [of "nr + 1" e] True by simp
    then show ?thesis unfolding Suc.hyps(2) [symmetric] using True by (simp add: amsdu_loop_go)
  next
    case False
    then have "length (amsdu_loop c alloc nr d) \<le> 1"
      using amsdu_loop_stop [of c d alloc nr] amsdu_loop_go [of c d alloc nr] by (cases "sub_ok c d \<and> alloc nr") auto
    then show ?thesis using Suc.hyps(2) by simp
  qed
qed

text \<open>The packets of the loop are packets of suffixes of the data that pass the guards.\<close>

lemma amsdu_loop_packets: "p \<in> set (amsdu_loop c alloc nr d) \<Longrightarrow> \<exists>k. sub_ok c (drop k d) \<and> p = sub_pkt (drop k d)"
proof (induction "length d" arbitrary: nr d rule: less_induct)
  case less
  have ok: "sub_ok c d" "alloc nr" using less.prems amsdu_loop_stop [of c d alloc nr] by fastforce+
  define k where "k = sub_pad (sub_size d + ETH_HLEN) + (ETH_HLEN + sub_size d)"
  have "0 < k" "0 < length d" using ok(1) by (auto simp: k_def sub_ok_def ETH_HLEN_def)
  then have "length (drop k d) < length d" by simp
  moreover have "p = sub_pkt d \<or> p \<in> set (amsdu_loop c alloc (nr + 1) (drop k d))"
    using less.prems by (simp add: amsdu_loop_go [where alloc = alloc, OF ok] k_def split: if_splits)
  ultimately show ?case using less.hyps [of "drop k d" "nr + 1"] ok(1) by (metis drop_0 drop_drop)
qed

lemma sub_pkt_parts:
  assumes "sub_ok c d"
  shows "take 12 (sub_pkt d) = take 12 d" "sublist (drop 12 (sub_pkt d)) d \<or> sublist (drop 14 (sub_pkt d)) d"
proof -
  have l: "ETH_HLEN < length d" using assms by (simp add: sub_ok_def)
  have t: "take 12 d = take 6 d @ take 6 (drop 6 d)" using take_add [of 6 6 d] by simp
  let ?m = "take (sub_size d) (drop ETH_HLEN d)"
  have m: "sublist (drop n ?m) d" for n by (meson sublist_drop sublist_order.order_trans sublist_take)
  have two: "length (RTW_PUT_BE16 w) = 2" for w by (simp add: RTW_PUT_BE16_def)
  obtain q where q: "sub_pkt d = take 6 d @ take 6 (drop 6 d) @ q" "q = drop SNAP_SIZE ?m \<or> q = RTW_PUT_BE16 (of_nat (length ?m)) @ ?m"
    by (cases "rtw_recv_llc_parse ?m") (simp_all add: sub_pkt_def rtw_os_alloc_msdu_pkt_def)
  have s: "sub_pkt d = take 12 d @ q" using q(1) t by simp
  have "length (take 12 d) = 12" using l by (simp add: ETH_HLEN_def)
  then have d12: "drop 12 (sub_pkt d) = q" and d14: "drop 14 (sub_pkt d) = drop 2 q" and "take 12 (sub_pkt d) = take 12 d"
    unfolding s by simp_all
  then show "take 12 (sub_pkt d) = take 12 d" by simp
  show "sublist (drop 12 (sub_pkt d)) d \<or> sublist (drop 14 (sub_pkt d)) d"
    unfolding d12 d14 using q(2) m [of 0] m [of SNAP_SIZE] two by auto
qed

section \<open>Properties\<close>

text \<open>
  Aggregation round trip: of a received A-MSDU of at most 64 subframes, each with a payload of 1 to
  65535 bytes and addresses the network allows, the station hands on exactly the subframes, in order, each as
  an Ethernet frame, with header, initialization vector, padding and integrity value removed.
\<close>

lemma amsdu_roundtrip:
  assumes "frag_wf fr" and "rf_body fr = amsdu_enc ss"
    and "\<forall>s \<in> set ss. sub_fits s \<and> sub_allowed c s"
    and "\<forall>k < MAX_SUBFRAME_COUNT. alloc k" and "length ss \<le> MAX_SUBFRAME_COUNT"
  shows "amsdu_to_msdu c alloc fr = map sub_eth ss"
  using amsdu_run [OF assms(3) [folded sub_allowed_valid] assms(4), of 0] assms(5) by (simp add: amsdu_to_msdu_body [OF assms(1)] assms(2))

definition example_ctx :: amsdu_ctx where
  "example_ctx = \<lparr>am_protected = True, am_to_fr_ds = 2, am_ra = [2, 2, 2, 2, 2, 2], am_ta = [4, 4, 4, 4, 4, 4]\<rparr>"

definition example_subframes :: "subframe list" where
  "example_subframes = [([2, 2, 2, 2, 2, 2], [4, 4, 4, 4, 4, 4], [1, 1, 1]), ([2, 2, 2, 2, 2, 2], [6, 6, 6, 6, 6, 6], [3])]"

text \<open>A frame with a header of two bytes and an integrity value of one.\<close>

definition example_amsdu :: recv_frame where
  "example_amsdu =
     \<lparr>rf_buf = [0x88, 0] @ amsdu_enc example_subframes @ [9], rf_data = 0, rf_tail = 38, rf_len = 38, rf_keytrack = 0, rf_encrypt = ENC_AES,
      rf_hdrlen = 2, rf_iv_len = 0, rf_icv_len = 1, rf_frag_num = 0, rf_mfrag = False, rf_privacy = True,
      rf_ta = [4, 4, 4, 4, 4, 4], rf_ra = [2, 2, 2, 2, 2, 2], rf_priority = 0, rf_key_index = 0\<rparr>"

lemma example_amsdu_facts:
  "frag_wf example_amsdu" "rf_body example_amsdu = amsdu_enc example_subframes"
  by (simp_all add: frag_wf_def rf_wf_def rf_bytes_def rf_body_def example_amsdu_def example_subframes_def sub_pad_def RTW_PUT_BE16_def ENC_AES_def)

lemma amsdu_roundtrip_witness: "amsdu_to_msdu example_ctx (\<lambda>_. True) example_amsdu = map sub_eth example_subframes"
proof (rule amsdu_roundtrip [OF example_amsdu_facts])
  show "\<forall>s \<in> set example_subframes. sub_fits s \<and> sub_allowed example_ctx s"
    by (simp add: example_subframes_def example_ctx_def)
qed (simp_all add: example_subframes_def MAX_SUBFRAME_COUNT_def)

text \<open>
  C40. What an arbitrary, possibly forged A-MSDU can achieve: at most 64 packets are handed on, each with
  addresses and a payload that are parts of the body of the frame; in a protected network none of them is for
  another receiver than the frame (when it comes from the access point) or from another sender (when it
  goes there), and a frame whose body starts with an LLC/SNAP header, an ordinary frame whose A-MSDU flag
  was set on the way, yields nothing.
\<close>

theorem amsdu_checks:
  assumes "frag_wf fr"
  shows "length (amsdu_to_msdu c alloc fr) \<le> MAX_SUBFRAME_COUNT \<and>
   (\<forall>p \<in> set (amsdu_to_msdu c alloc fr).
      sublist (take 12 p) (rf_body fr) \<and> (sublist (drop 12 p) (rf_body fr) \<or> sublist (drop 14 p) (rf_body fr)) \<and>
      (am_protected c \<longrightarrow> (am_to_fr_ds c = 2 \<longrightarrow> take 6 p = am_ra c) \<and> (am_to_fr_ds c = 1 \<longrightarrow> take 6 (drop 6 p) = am_ta c) \<and>
        take 6 p \<noteq> rtw_rfc1042_header)) \<and>
   (am_protected c \<and> take 6 (rf_body fr) = rtw_rfc1042_header \<longrightarrow> amsdu_to_msdu c alloc fr = [])"
proof -
  let ?d = "rf_body fr"
  have packet: "sublist (take 12 p) ?d \<and> (sublist (drop 12 p) ?d \<or> sublist (drop 14 p) ?d) \<and>
      (am_protected c \<longrightarrow> (am_to_fr_ds c = 2 \<longrightarrow> take 6 p = am_ra c) \<and> (am_to_fr_ds c = 1 \<longrightarrow> take 6 (drop 6 p) = am_ta c) \<and>
        take 6 p \<noteq> rtw_rfc1042_header)" if "p \<in> set (amsdu_loop c alloc 0 ?d)" for p
  proof -
    obtain k where k: "sub_ok c (drop k ?d)" "p = sub_pkt (drop k ?d)" using amsdu_loop_packets \<open>p \<in> _\<close> by blast
    note parts = sub_pkt_parts [OF k(1), folded k(2)]
    have "take 6 (take 12 p) = take 6 (take 12 (drop k ?d))" "drop 6 (take 12 p) = drop 6 (take 12 (drop k ?d))"
      using parts(1) by simp_all
    then have "take 6 p = take 6 (drop k ?d)" "take 6 (drop 6 p) = take 6 (drop 6 (drop k ?d))"
      by (simp_all add: drop_take)
    moreover have "validate_amsdu_content c (take 6 (drop k ?d)) (take 6 (drop 6 (drop k ?d)))" using k(1) by (simp only: sub_ok_def)
    ultimately have "validate_amsdu_content c (take 6 p) (take 6 (drop 6 p))" by simp
    moreover have "sublist (take 12 p) ?d" unfolding parts(1) by (meson sublist_drop sublist_order.order_trans sublist_take)
    moreover have "sublist (drop 12 p) ?d \<or> sublist (drop 14 p) ?d" using parts(2) by (meson sublist_drop sublist_order.order_trans)
    ultimately show ?thesis by (simp add: validate_amsdu_content_def split: if_splits)
  qed
  have "amsdu_loop c alloc 0 ?d = []" if "am_protected c" "take 6 ?d = rtw_rfc1042_header"
    using that by (intro amsdu_loop_stop) (simp add: sub_ok_def validate_amsdu_content_def)
  moreover have "length (amsdu_loop c alloc 0 ?d) \<le> MAX_SUBFRAME_COUNT"
    using amsdu_loop_count [of 0 c alloc ?d] by (simp add: MAX_SUBFRAME_COUNT_def)
  ultimately show ?thesis unfolding amsdu_to_msdu_body [OF assms] using packet by blast
qed

theorem amsdu_checks_witness:
  "length (amsdu_to_msdu example_ctx (\<lambda>_. True) example_amsdu) \<le> MAX_SUBFRAME_COUNT"
  using amsdu_checks [OF example_amsdu_facts(1)] by blast

text \<open>
  Frames that are not aggregated become the same Ethernet frames as the subframes of an A-MSDU: behind
  a header of at least 14 bytes the body is handed on with the addresses before it, an LLC/SNAP header
  replaced and any other body preceded by its length, without leaving the data of the frame.
\<close>

lemma wlanhdr_to_ethhdr_frame:
  assumes "frag_wf fr" and "ETH_HLEN \<le> unat (rf_hdrlen fr)" and "length dst = 6" and "length src = 6"
  shows "\<exists>fr'. wlanhdr_to_ethhdr dst src fr (rtw_recv_llc_parse (rf_body fr)) = (True, fr') \<and> rf_wf fr' \<and>
    rf_bytes fr' = sub_eth (dst, src, rf_body fr)"
proof -
  define m where "m = unat (rf_hdrlen fr) + unat (rf_iv_len fr)"
  define f1 where "f1 = (if rf_encrypt fr \<noteq> 0 then recvframe_pull_tail fr (unat (rf_icv_len fr)) else fr)"
  have wf: "rf_wf fr" and room: "m + unat (rf_icv_len fr) \<le> length (rf_bytes fr)" using assms(1) by (simp_all add: frag_wf_def m_def)
  have f1: "rf_wf f1" "rf_body fr = drop m (rf_bytes f1)" "m \<le> length (rf_bytes f1)" "rf_hdrlen f1 = rf_hdrlen fr" "rf_iv_len f1 = rf_iv_len fr"
    using pull_tail_bytes [OF wf, of "unat (rf_icv_len fr)"] room wf
    by (auto simp: f1_def rf_body_def m_def Let_def drop_take ac_simps)
  have m14: "14 \<le> m" using assms(2) by (simp add: m_def ETH_HLEN_def)
  have len: "unat (rf_len f1) = length (rf_bytes f1)" using f1(1) length_rf_bytes by (simp add: rf_wf_def)
  define keep where "keep \<longleftrightarrow> rtw_recv_llc_parse (rf_body fr) = RTW_RX_LLC_KEEP"
  define sz where "sz = (if keep then m - 14 else m - 6)"
  define f2 where "f2 = recvframe_pull f1 sz"
  have szle: "sz \<le> length (rf_bytes f1)" using f1(3) unfolding sz_def by (auto intro: le_trans)
  note f2 = pull_bytes [OF f1(1) szle, folded f2_def]
  have guard: "\<not> rf_tail f1 < rf_data f1 + sz" using szle f1(1) length_rf_bytes [OF f1(1)] unfolding rf_wf_def by linarith
  let ?llc = "rtw_recv_llc_parse (rf_body fr)"
  have run: "wlanhdr_to_ethhdr dst src fr ?llc = (True, f2\<lparr>rf_buf := copy_to (copy_to (copy_to (rf_buf f2) (rf_data f2) dst) (rf_data f2 + 6) src)
      (rf_data f2 + 12) (if keep then RTW_PUT_BE16 (ucast (rf_len f1 - of_nat m)) else [])\<rparr>)"
  proof (cases keep)
    case True
    then have "sz = m - ETH_HLEN" "?llc = RTW_RX_LLC_KEEP" by (simp_all add: sz_def ETH_HLEN_def keep_def)
    then show ?thesis using guard True
      by (simp add: wlanhdr_to_ethhdr_def Let_def f1_def [symmetric] f1(4,5) m_def [symmetric] f2_def del: of_nat_add)
  next
    case False
    then have "sz = m + SNAP_SIZE - ETH_HLEN + 2" "?llc \<noteq> RTW_RX_LLC_KEEP" using m14 by (simp_all add: sz_def ETH_HLEN_def SNAP_SIZE_def keep_def)
    moreover have "copy_to b k [] = b" for b :: bytes and k by (simp add: copy_to_def)
    ultimately show ?thesis using guard False
      by (simp add: wlanhdr_to_ethhdr_def Let_def f1_def [symmetric] f1(4,5) m_def [symmetric] f2_def del: of_nat_add)
  qed
  show ?thesis
  proof (cases keep)
    case True
    have "length (rf_bytes f1) - m = unat (rf_len f1 - of_nat m)" using unat_u32_minus [of m "rf_len f1"] f1(3) len by simp
    then have "ucast (rf_len f1 - of_nat m) = (of_nat (length (rf_body fr)) :: u16)" by (simp add: f1(2))
    moreover have "length (RTW_PUT_BE16 w) = 2" for w by (simp add: RTW_PUT_BE16_def)
    ultimately show ?thesis
      using copy_header [OF f2(1) assms(3,4), of "RTW_PUT_BE16 (of_nat (length (rf_body fr)))"] m14 f1(2,3) True run
      by (simp add: f2(2) sz_def keep_def rtw_os_alloc_msdu_pkt_def)
  next
    case False
    then have "8 \<le> length (rf_body fr)" by (auto simp: keep_def rtw_recv_llc_parse_def split: if_splits)
    then show ?thesis
      using copy_header [OF f2(1) assms(3,4), of "[]"] m14 f1(2,3) False run
      by (simp add: f2(2) sz_def keep_def rtw_os_alloc_msdu_pkt_def SNAP_SIZE_def add.commute)
  qed
qed

definition example_msdu :: recv_frame where
  "example_msdu = example_amsdu\<lparr>rf_hdrlen := 24\<rparr>"

lemma wlanhdr_to_ethhdr_frame_witness:
  "\<exists>fr'. wlanhdr_to_ethhdr [2, 2, 2, 2, 2, 2] [4, 4, 4, 4, 4, 4] example_msdu (rtw_recv_llc_parse (rf_body example_msdu)) = (True, fr') \<and>
    rf_wf fr' \<and> rf_bytes fr' = sub_eth ([2, 2, 2, 2, 2, 2], [4, 4, 4, 4, 4, 4], rf_body example_msdu)"
  by (rule wlanhdr_to_ethhdr_frame)
    (simp_all add: example_msdu_def frag_wf_def rf_wf_def rf_bytes_def example_amsdu_def example_subframes_def sub_pad_def RTW_PUT_BE16_def ETH_HLEN_def)

end
