(* ===== verification/Reorder.thy ===== *)
theory Reorder
  imports Stations
begin

unbundle bit_operations_syntax

text \<open>
  The reordering buffer of \<^verbatim>\<open>core/rtw_recv.c\<close>: frames of a block acknowledgement agreement arrive out of
  order, are kept in a queue sorted by sequence number and are handed on in order, through a window that
  moves with the frames and a timer that gives up on missing ones.

  A frame is its number in the pool, \<open>seq_num\<close> its 12-bit sequence number. Handing a frame to
  \<^verbatim>\<open>recv_process_mpdu\<close> appends it to \<open>indicated\<close>; whether that succeeds only feeds a debug counter,
  which is left out with the other debug counters except the count of lost frames. The timer is modelled
  by whether it is set.
\<close>

section \<open>State and operations\<close>

definition FAIL :: int where "FAIL = 0"
definition SUCCESS :: int where "SUCCESS = 1"
definition RTW_RX_HANDLED :: int where "RTW_RX_HANDLED = 2"

record reorder = recv_reorder_ctrl +
  bReorderWaiting :: bool
  ack_or_timeout :: bool
  reorder_wow :: bool
  reordering_ctrl_timer :: bool
  indicated :: "nat list"
  dbg_rx_ampdu_loss_count :: u64
  rx_drop :: u64

definition SN_LESS :: "u16 \<Rightarrow> u16 \<Rightarrow> bool" where
  "SN_LESS a b = ((uint a - uint b) AND 0x800 \<noteq> 0)"

definition check_indicate_seq :: "reorder \<Rightarrow> u16 \<Rightarrow> bool \<times> reorder" where
  "check_indicate_seq st seq_num =
     (let wsize = ro_wsize_b st;
          st = (if ro_indicate_seq st = 0xFFFF then st\<lparr>ro_indicate_seq := seq_num\<rparr> else st);
          wend = word_of_int ((uint (ro_indicate_seq st) + uint wsize - 1) AND 0xFFF)
      in if SN_LESS seq_num (ro_indicate_seq st) then (False, st)
         else if seq_num = ro_indicate_seq st
         then (True, st\<lparr>ro_indicate_seq := word_of_int ((uint (ro_indicate_seq st) + 1) AND 0xFFF)\<rparr>)
         else if SN_LESS wend seq_num
         then (True, st\<lparr>ro_indicate_seq :=
            (if uint wsize - 1 \<le> uint seq_num then word_of_int (uint seq_num + 1 - uint wsize)
             else word_of_int (0xFFF - (uint wsize - (uint seq_num + 1)) + 1))\<rparr>)
         else (True, st))"

fun enqueue_reorder_recvframe :: "(nat \<Rightarrow> u16) \<Rightarrow> nat list \<Rightarrow> nat \<Rightarrow> nat list option" where
  "enqueue_reorder_recvframe seq_num [] f = Some [f]"
| "enqueue_reorder_recvframe seq_num (g # gs) f =
     (if SN_LESS (seq_num g) (seq_num f) then map_option (Cons g) (enqueue_reorder_recvframe seq_num gs f)
      else if seq_num g = seq_num f then None
      else Some (f # g # gs))"

definition recv_indicatepkts_pkt_loss_cnt :: "reorder \<Rightarrow> u64 \<Rightarrow> u64 \<Rightarrow> reorder" where
  "recv_indicatepkts_pkt_loss_cnt st prev_seq current_seq =
     (if current_seq < prev_seq
      then st\<lparr>dbg_rx_ampdu_loss_count := dbg_rx_ampdu_loss_count st + (4096 + current_seq - prev_seq),
              rx_drop := rx_drop st + (4096 + current_seq - prev_seq)\<rparr>
      else st\<lparr>dbg_rx_ampdu_loss_count := dbg_rx_ampdu_loss_count st + (current_seq - prev_seq),
              rx_drop := rx_drop st + (current_seq - prev_seq)\<rparr>)"

text \<open>The loop of \<^verbatim>\<open>recv_indicatepkts_in_order\<close>: the frames handed on, the new start, the queue left, \<^verbatim>\<open>bPktInBuf\<close>.\<close>

fun indicate_loop :: "(nat \<Rightarrow> u16) \<Rightarrow> u16 \<Rightarrow> nat list \<Rightarrow> nat list \<times> u16 \<times> nat list \<times> bool" where
  "indicate_loop seq_num start [] = ([], start, [], False)"
| "indicate_loop seq_num start (f # fs) =
     (if \<not> SN_LESS start (seq_num f)
      then let start = (if start = seq_num f then word_of_int ((uint start + 1) AND 0xFFF) else start);
               (out, start, rest, in_buf) = indicate_loop seq_num start fs
           in (f # out, start, rest, in_buf)
      else ([], start, f # fs, True))"

definition recv_indicatepkts_in_order :: "(nat \<Rightarrow> u16) \<Rightarrow> reorder \<Rightarrow> bool \<Rightarrow> bool \<times> reorder" where
  "recv_indicatepkts_in_order seq_num st bforced =
     (if bforced \<and> ro_pending st = [] then (True, st)
      else let st = (if bforced
                     then let f = hd (ro_pending st);
                              st = recv_indicatepkts_pkt_loss_cnt st (ucast (ro_indicate_seq st)) (ucast (seq_num f))
                          in st\<lparr>ro_indicate_seq := seq_num f\<rparr>
                     else st);
               (out, start, rest, bPktInBuf) = indicate_loop seq_num (ro_indicate_seq st) (ro_pending st)
           in (bPktInBuf, st\<lparr>ro_indicate_seq := start, ro_pending := rest, indicated := indicated st @ out\<rparr>))"

text \<open>\<open>None\<close> is a frame without a reordering control block.\<close>

definition recv_indicatepkt_reorder :: "(nat \<Rightarrow> u16) \<Rightarrow> bool \<Rightarrow> reorder option \<Rightarrow> nat \<Rightarrow> int \<times> reorder option" where
  "recv_indicatepkt_reorder seq_num qos preorder_ctrl f =
     (case preorder_ctrl of
        None \<Rightarrow> (SUCCESS, None)
      | Some st \<Rightarrow>
          if \<not> qos \<or> \<not> ro_enable st then (SUCCESS, Some st)
          else let st = (if ack_or_timeout st then st\<lparr>ack_or_timeout := False, ro_indicate_seq := 0xFFFF\<rparr> else st);
                   st = (if reorder_wow st then st\<lparr>reorder_wow := False, ro_indicate_seq := 0xFFFF\<rparr> else st);
                   (ok, st) = check_indicate_seq st (seq_num f)
               in if \<not> ok then (FAIL, Some st)
                  else case enqueue_reorder_recvframe seq_num (ro_pending st) f of
                    None \<Rightarrow> (FAIL, Some st)
                  | Some q \<Rightarrow>
                      let (in_buf, st) = recv_indicatepkts_in_order seq_num (st\<lparr>ro_pending := q\<rparr>) False
                      in (RTW_RX_HANDLED, Some
                        (if in_buf
                         then if \<not> bReorderWaiting st then st\<lparr>bReorderWaiting := True, reordering_ctrl_timer := True\<rparr> else st
                         else st\<lparr>bReorderWaiting := False, reordering_ctrl_timer := False\<rparr>)))"

text \<open>The timer has expired, so that it is no longer set when its handler runs.\<close>

definition rtw_reordering_ctrl_timeout_handler :: "(nat \<Rightarrow> u16) \<Rightarrow> bool \<Rightarrow> reorder \<Rightarrow> reorder" where
  "rtw_reordering_ctrl_timeout_handler seq_num cannot_run st =
     (let st = st\<lparr>reordering_ctrl_timer := False\<rparr>
      in if cannot_run then st
         else let (in_buf, st) = recv_indicatepkts_in_order seq_num (st\<lparr>bReorderWaiting := False\<rparr>) True
              in if in_buf then st\<lparr>reordering_ctrl_timer := True\<rparr> else st)"

definition recv_set_iseq_before_mpdu_process :: "reorder option \<Rightarrow> u16 \<Rightarrow> reorder option" where
  "recv_set_iseq_before_mpdu_process ctrl seq_num = map_option (\<lambda>st. st\<lparr>ro_indicate_seq := seq_num\<rparr>) ctrl"

definition recv_set_iseq_after_mpdu_process :: "reorder option \<Rightarrow> reorder option" where
  "recv_set_iseq_after_mpdu_process ctrl =
     map_option (\<lambda>st. st\<lparr>ro_indicate_seq := word_of_int ((uint (ro_indicate_seq st) + 1) mod 4096)\<rparr>) ctrl"

text \<open>A block acknowledgement request moves the start of the window; an answered agreement enables reordering.\<close>

definition rtw_process_bar_frame :: "u16 \<Rightarrow> reorder \<Rightarrow> reorder" where
  "rtw_process_bar_frame ba_starting_seqctrl st = st\<lparr>ro_indicate_seq := drop_bit 4 ba_starting_seqctrl\<rparr>"

definition add_ba_rsp_hdl :: "nat \<Rightarrow> u8 \<Rightarrow> reorder \<Rightarrow> reorder" where
  "add_ba_rsp_hdl status sz st =
     (let st = st\<lparr>ack_or_timeout := True\<rparr>
      in if status = 0 then st\<lparr>ro_enable := True, ro_ampdu_size := sz\<rparr>
         else if status = 37 then st\<lparr>ro_enable := False\<rparr> else st)"

section \<open>Sequence numbers modulo 4096\<close>

definition wrap12 :: "int \<Rightarrow> u16" where
  "wrap12 n = word_of_int (n mod 4096)"

lemma and_0xFFF: "(x :: int) AND 0xFFF = x mod 4096"
proof -
  have "x AND mask 12 = x mod 2 ^ 12" by (simp only: take_bit_eq_mask [symmetric] take_bit_eq_mod)
  then show ?thesis by (simp add: mask_eq_exp_minus_1)
qed

lemma uint_wrap12: "uint (wrap12 n) = n mod 4096"
proof -
  have "0 \<le> n mod 4096" "n mod 4096 < 65536" by (auto intro: order.strict_trans2 [OF pos_mod_bound])
  then show ?thesis by (simp add: wrap12_def uint_word_of_int)
qed

lemma wrap12_not_init: "wrap12 n \<noteq> 0xFFFF"
proof
  assume "wrap12 n = 0xFFFF"
  then have "n mod 4096 = uint (0xFFFF :: u16)" by (simp flip: uint_wrap12)
  moreover have "n mod 4096 < 4096" by simp
  ultimately show False by simp
qed

lemma wrap12_eq_iff: "\<bar>a - b\<bar> < 4096 \<Longrightarrow> wrap12 a = wrap12 b \<longleftrightarrow> a = b"
proof
  assume near: "\<bar>a - b\<bar> < 4096" and "wrap12 a = wrap12 b"
  then have "a mod 4096 = b mod 4096" by (metis uint_wrap12)
  then obtain k where "a - b = 4096 * k" unfolding mod_eq_dvd_iff by (rule dvdE)
  then have "\<bar>k\<bar> < 1" using near by simp
  then show "a = b" using \<open>a - b = 4096 * k\<close> by simp
qed simp

lemma wrap12_Suc: "word_of_int ((uint (wrap12 n) + 1) AND 0xFFF) = wrap12 (n + 1)"
  unfolding and_0xFFF uint_wrap12 by (simp add: wrap12_def mod_simps)

lemma SN_LESS_mod: "SN_LESS a b \<longleftrightarrow> 2048 \<le> (uint a - uint b) mod 4096"
proof -
  have odd: "odd (x div 2048) \<longleftrightarrow> 2048 \<le> x mod 4096" for x :: int
  proof -
    have "x mod 4096 = 2048 * (x div 2048 mod 2) + x mod 2048" using zmod_zmult2_eq [of 2 x 2048] by simp
    moreover have "0 \<le> x mod 2048" "x mod 2048 < 2048" by simp_all
    ultimately show ?thesis by (cases "odd (x div 2048)") (auto simp: odd_iff_mod_2_eq_one)
  qed
  have "x AND 0x800 = 0 \<longleftrightarrow> \<not> bit x 11" for x :: int using and_exp_eq_0_iff_not_bit [of x 11] by simp
  then show ?thesis by (simp add: SN_LESS_def bit_iff_odd odd)
qed

lemma SN_LESS_wrap12: "- 2048 \<le> a - b \<Longrightarrow> a - b < 2048 \<Longrightarrow> SN_LESS (wrap12 a) (wrap12 b) \<longleftrightarrow> a < b"
proof -
  assume "- 2048 \<le> a - b" "a - b < 2048"
  moreover have "(a - b) mod 4096 = (a - b + 4096) mod 4096" by simp
  ultimately have "2048 \<le> (a - b) mod 4096 \<longleftrightarrow> a < b"
    using mod_pos_pos_trivial [of "a - b" 4096] mod_pos_pos_trivial [of "a - b + 4096" 4096] by (cases "a < b") auto
  then show ?thesis by (simp add: SN_LESS_mod uint_wrap12 mod_simps)
qed

section \<open>The window over unbounded sequence numbers\<close>

text \<open>
  The specification: frames carry unbounded numbers \<open>num\<close>. A frame below the start of the window or
  already buffered is refused. Otherwise the window moves just so far that the frame fits, the frame is
  buffered, and the frames below the start together with the run from the start on are handed over.
\<close>

type_synonym window = "int option \<times> nat list"

fun win_flush :: "(nat \<Rightarrow> int) \<Rightarrow> int \<Rightarrow> nat list \<Rightarrow> nat list \<times> int \<times> nat list" where
  "win_flush num s [] = ([], s, [])"
| "win_flush num s (f # fs) =
     (if num f \<le> s then let (out, s', rest) = win_flush num (max s (num f + 1)) fs in (f # out, s', rest)
      else ([], s, f # fs))"

definition win_recv :: "(nat \<Rightarrow> int) \<Rightarrow> int \<Rightarrow> window \<Rightarrow> nat \<Rightarrow> (nat list \<times> int \<times> nat list) option" where
  "win_recv num w W f =
     (let s = (case fst W of None \<Rightarrow> num f | Some s \<Rightarrow> s)
      in if num f < s \<or> num f \<in> num ` set (snd W) then None
         else Some (win_flush num (max s (num f + 1 - w)) (insort_key num f (snd W))))"

fun win_expire :: "(nat \<Rightarrow> int) \<Rightarrow> window \<Rightarrow> nat list \<times> window" where
  "win_expire num (so, []) = ([], so, [])"
| "win_expire num (so, f # fs) = (let (out, s, rest) = win_flush num (num f) (f # fs) in (out, Some s, rest))"

abbreviation seq_of :: "(nat \<Rightarrow> int) \<Rightarrow> nat \<Rightarrow> u16" where
  "seq_of num \<equiv> \<lambda>f. wrap12 (num f)"

lemma win_flush_facts:
  assumes "win_flush num s fs = (out, s', rest)" "sorted_wrt (\<lambda>a b. num a < num b) fs"
  shows "fs = out @ rest \<and> s \<le> s' \<and> (\<forall>f \<in> set out. num f < s') \<and> (\<forall>f \<in> set rest. s' < num f)"
  using assms
proof (induction fs arbitrary: s out)
  case (Cons f fs)
  show ?case
  proof (cases "num f \<le> s")
    case True
    then obtain out' where "win_flush num (max s (num f + 1)) fs = (out', s', rest)" "out = f # out'"
      using Cons.prems(1) by (auto simp: Let_def split: prod.splits)
    then show ?thesis using Cons.IH [of "max s (num f + 1)" out'] Cons.prems(2) by auto
  next
    case False
    then have "s < num f" by simp
    then have "\<forall>g \<in> set (f # fs). s < num g" using Cons.prems(2) order.strict_trans [of s "num f"] by auto
    then show ?thesis using Cons.prems(1) False by auto
  qed
qed simp

lemma loop_refines_flush:
  assumes "sorted_wrt (\<lambda>a b. num a < num b) fs" "\<forall>f \<in> set fs. s - num f < 2048 \<and> num f - s \<le> 2048"
  shows "indicate_loop (seq_of num) (wrap12 s) fs =
    (case win_flush num s fs of (out, s', rest) \<Rightarrow> (out, wrap12 s', rest, rest \<noteq> []))"
  using assms
proof (induction fs arbitrary: s)
  case (Cons f fs)
  have less: "SN_LESS (wrap12 s) (wrap12 (num f)) \<longleftrightarrow> s < num f" using Cons.prems(2) by (intro SN_LESS_wrap12) auto
  have eq: "wrap12 s = wrap12 (num f) \<longleftrightarrow> s = num f" using Cons.prems(2) by (intro wrap12_eq_iff) auto
  show ?case
  proof (cases "num f \<le> s")
    case True
    let ?s = "max s (num f + 1)"
    have "indicate_loop (seq_of num) (wrap12 ?s) fs = (case win_flush num ?s fs of (out, s', rest) \<Rightarrow> (out, wrap12 s', rest, rest \<noteq> []))"
      using Cons.prems True by (intro Cons.IH) fastforce+
    moreover have "(if wrap12 s = wrap12 (num f) then word_of_int ((uint (wrap12 s) + 1) AND 0xFFF) else wrap12 s) = wrap12 ?s"
      using True by (simp add: eq wrap12_Suc)
    ultimately show ?thesis using True less by (simp add: Let_def split: prod.splits)
  qed (simp add: less)
qed simp

lemma enqueue_refines_insort:
  assumes "sorted_wrt (\<lambda>a b. num a < num b) fs" "\<forall>g \<in> set fs. - 2048 \<le> num g - num f \<and> num g - num f < 2048"
  shows "enqueue_reorder_recvframe (seq_of num) fs f = (if num f \<in> num ` set fs then None else Some (insort_key num f fs))"
  using assms
proof (induction fs)
  case (Cons g fs)
  have "SN_LESS (wrap12 (num g)) (wrap12 (num f)) \<longleftrightarrow> num g < num f" using Cons.prems(2) by (intro SN_LESS_wrap12) auto
  moreover have "wrap12 (num g) = wrap12 (num f) \<longleftrightarrow> num g = num f" using Cons.prems(2) by (intro wrap12_eq_iff) auto
  ultimately show ?case using Cons by auto
qed simp

lemma insort_key_sorted_wrt:
  "sorted_wrt (\<lambda>a b. num a < num b) fs \<Longrightarrow> (num f :: int) \<notin> num ` set fs \<Longrightarrow> sorted_wrt (\<lambda>a b. num a < num b) (insort_key num f fs)"
  by (induction fs) (auto simp: set_insort_key)

lemma window_jump:
  assumes "0 < w" "w \<le> 255"
  shows "(if w - 1 \<le> n mod 4096 then word_of_int (n mod 4096 + 1 - w) else word_of_int (0xFFF - (w - (n mod 4096 + 1)) + 1)) = wrap12 (n + 1 - w)"
proof -
  have b: "0 \<le> n mod 4096" "n mod 4096 < 4096" by simp_all
  have m: "(n + 1 - w) mod 4096 = (n mod 4096 + 1 - w) mod 4096" 
    using mod_add_left_eq [of n 4096 "1 - w"] by (simp add: algebra_simps)
  show ?thesis
  proof (cases "w - 1 \<le> n mod 4096")
    case True
    then have "(n mod 4096 + 1 - w) mod 4096 = n mod 4096 + 1 - w" using b assms by (intro mod_pos_pos_trivial) auto
    then show ?thesis using True m by (simp add: wrap12_def)
  next
    case False
    have "(n mod 4096 + 1 - w) mod 4096 = (n mod 4096 + 1 - w + 4096) mod 4096" by (rule mod_add_self2 [symmetric])
    also have "\<dots> = n mod 4096 + 1 - w + 4096" using False b assms by (intro mod_pos_pos_trivial) auto
    also have "\<dots> = 0xFFF - (w - (n mod 4096 + 1)) + 1" by simp
    finally show ?thesis unfolding wrap12_def m using False by (simp only: if_False)
  qed
qed

lemma check_refines:
  assumes "ro_indicate_seq st = wrap12 s" "uint (ro_wsize_b st) = w" "0 < w" "s - 2048 \<le> n" "n < s + 2048"
  shows "check_indicate_seq st (wrap12 n) =
    (s \<le> n, st\<lparr>ro_indicate_seq := wrap12 (if n = s then s + 1 else if n < s then s else max s (n + 1 - w))\<rparr>)"
proof -
  have "uint (ro_wsize_b st) < 2 ^ LENGTH(8)" by (rule unsigned_less)
  then have w: "w \<le> 255" using assms(2) by simp
  have wend: "word_of_int ((uint (wrap12 s) + w - 1) AND 0xFFF) = wrap12 (s + w - 1)"
    unfolding and_0xFFF uint_wrap12 using mod_add_left_eq [of s 4096 "w - 1"] by (simp add: wrap12_def add_diff_eq)
  have l1: "SN_LESS (wrap12 n) (wrap12 s) \<longleftrightarrow> n < s" using assms by (intro SN_LESS_wrap12) auto
  have l2: "s \<le> n \<Longrightarrow> SN_LESS (wrap12 (s + w - 1)) (wrap12 n) \<longleftrightarrow> s + w - 1 < n" using assms w by (intro SN_LESS_wrap12) auto
  have e: "wrap12 n = wrap12 s \<longleftrightarrow> n = s" using assms by (intro wrap12_eq_iff) auto
  have same: "st\<lparr>ro_indicate_seq := wrap12 s\<rparr> = st" using assms(1) by simp
  note eqs = wrap12_not_init [of s] wend l1 e wrap12_Suc window_jump [OF assms(3) w, of n, folded uint_wrap12]
  show ?thesis
  proof (cases "n < s")
    case True
    then show ?thesis unfolding check_indicate_seq_def Let_def assms(1,2) by (simp only: eqs if_False if_True assms(1,2)) (simp add: same)
  next
    case False
    then have less: "SN_LESS (wrap12 (s + w - 1)) (wrap12 n) \<longleftrightarrow> s + w - 1 < n" by (intro l2) simp
    have "check_indicate_seq st (wrap12 n) = (if n = s then (True, st\<lparr>ro_indicate_seq := wrap12 (s + 1)\<rparr>)
        else if s + w - 1 < n then (True, st\<lparr>ro_indicate_seq := wrap12 (n + 1 - w)\<rparr>) else (True, st))"
      unfolding check_indicate_seq_def Let_def assms(1,2) using False by (simp only: eqs less if_False assms(1,2) simp_thms)
    moreover have "max s (n + 1 - w) = (if s + w - 1 < n then n + 1 - w else s)" by auto
    ultimately show ?thesis using False same by simp
  qed
qed

section \<open>The buffer implements the window\<close>

definition rx_rel :: "(nat \<Rightarrow> int) \<Rightarrow> int \<Rightarrow> window \<Rightarrow> reorder \<Rightarrow> bool" where
  "rx_rel num w W st \<longleftrightarrow>
     ro_enable st \<and> \<not> ack_or_timeout st \<and> \<not> reorder_wow st \<and> uint (ro_wsize_b st) = w \<and> 0 < w \<and> ro_pending st = snd W \<and>
     (case fst W of None \<Rightarrow> ro_indicate_seq st = 0xFFFF \<and> snd W = []
      | Some s \<Rightarrow> ro_indicate_seq st = wrap12 s \<and> sorted_wrt (\<lambda>a b. num a < num b) (snd W) \<and>
          (\<forall>f \<in> set (snd W). s < num f \<and> num f < s + w))"

definition half_space :: "(nat \<Rightarrow> int) \<Rightarrow> window \<Rightarrow> nat \<Rightarrow> bool" where
  "half_space num W f = (case fst W of None \<Rightarrow> True | Some s \<Rightarrow> s - 2048 \<le> num f \<and> num f < s + 2048)"

lemma w_bound: "rx_rel num w W st \<Longrightarrow> w \<le> 255"
proof -
  assume "rx_rel num w W st"
  moreover have "uint (ro_wsize_b st) < 2 ^ LENGTH(8)" by (rule unsigned_less)
  ultimately show ?thesis by (simp add: rx_rel_def)
qed

text \<open>A window whose start is still open behaves like one that starts at the arriving frame.\<close>

lemma check_open:
  assumes "ro_indicate_seq st = 0xFFFF"
  shows "check_indicate_seq st (wrap12 n) = check_indicate_seq (st\<lparr>ro_indicate_seq := wrap12 n\<rparr>) (wrap12 n)"
  using assms wrap12_not_init [of n] by (simp add: check_indicate_seq_def Let_def)

lemma rx_check:
  assumes rel: "rx_rel num w W st" and half: "half_space num W f"
  obtains s where "s = (case fst W of None \<Rightarrow> num f | Some s \<Rightarrow> s)" "s - 2048 \<le> num f" "num f < s + 2048"
    "sorted_wrt (\<lambda>a b. num a < num b) (snd W)" "\<forall>g \<in> set (snd W). s < num g \<and> num g < s + w"
    "check_indicate_seq st (wrap12 (num f)) =
      (s \<le> num f, st\<lparr>ro_indicate_seq := wrap12 (if num f = s then s + 1 else if num f < s then s else max s (num f + 1 - w))\<rparr>)"
proof (cases "fst W")
  case None
  have "check_indicate_seq (st\<lparr>ro_indicate_seq := wrap12 (num f)\<rparr>) (wrap12 (num f)) = (True, st\<lparr>ro_indicate_seq := wrap12 (num f + 1)\<rparr>)"
    using rel by (subst check_refines [where s = "num f" and w = w]) (simp_all add: rx_rel_def)
  then show ?thesis using that [of "num f"] None rel check_open [of st "num f"] by (simp add: rx_rel_def)
next
  case (Some s)
  then show ?thesis
    using that [of s] check_refines [of st s w "num f"] rel half by (simp add: rx_rel_def half_space_def)
qed

lemma flush_start_eq:
  assumes "num f = s" "\<forall>g \<in> set fs. s < num g" "0 < w"
  shows "win_flush num (s + 1) (insort_key num f fs) = win_flush num (max s (num f + 1 - w)) (insort_key num f fs)"
proof -
  have "insort_key num f fs = f # fs" using assms(1,2) by (cases fs) auto
  moreover have "max s (num f + 1 - w) = s" using assms by simp
  ultimately show ?thesis using assms(1) by simp
qed

lemma rx_frame_refines:
  assumes rel: "rx_rel num w W st" and half: "half_space num W f"
  shows "case win_recv num w W f of
      None \<Rightarrow> recv_indicatepkt_reorder (seq_of num) True (Some st) f = (FAIL, Some st)
    | Some (out, s', rest) \<Rightarrow> \<exists>st'. recv_indicatepkt_reorder (seq_of num) True (Some st) f = (RTW_RX_HANDLED, Some st') \<and>
        indicated st' = indicated st @ out \<and> rx_rel num w (Some s', rest) st'"
proof -
  obtain s where s: "s = (case fst W of None \<Rightarrow> num f | Some s \<Rightarrow> s)" and n: "s - 2048 \<le> num f" "num f < s + 2048"
    and srt: "sorted_wrt (\<lambda>a b. num a < num b) (snd W)" and win: "\<forall>g \<in> set (snd W). s < num g \<and> num g < s + w"
    and chk: "check_indicate_seq st (wrap12 (num f)) =
      (s \<le> num f, st\<lparr>ro_indicate_seq := wrap12 (if num f = s then s + 1 else if num f < s then s else max s (num f + 1 - w))\<rparr>)"
    by (rule rx_check [OF assms])
  let ?start = "if num f = s then s + 1 else if num f < s then s else max s (num f + 1 - w)"
  let ?base = "max s (num f + 1 - w)" and ?q = "insort_key num f (snd W)"
  have w: "0 < w" "w \<le> 255" using rel w_bound [OF rel] by (auto simp: rx_rel_def)
  have bits: "ro_enable st" "\<not> ack_or_timeout st" "\<not> reorder_wow st" "ro_pending st = snd W" using rel by (auto simp: rx_rel_def)
  show ?thesis
  proof (cases "num f < s")
    case True
    then have "fst W = Some s" using s by (auto split: option.splits)
    then have "st\<lparr>ro_indicate_seq := wrap12 s\<rparr> = st" using rel by (simp add: rx_rel_def)
    then show ?thesis
      using True bits chk s by (simp add: win_recv_def recv_indicatepkt_reorder_def Let_def)
  next
    case ge: False
    have "\<forall>g \<in> set (snd W). - 2048 \<le> num g - num f \<and> num g - num f < 2048" using win n ge w by fastforce
    note enq = enqueue_refines_insort [OF srt this]
    show ?thesis
    proof (cases "num f \<in> num ` set (snd W)")
      case True
      then have "s < num f" "num f < s + w" using win by auto
      then have "?start = s" "fst W = Some s" using s by (auto split: option.splits)
      then have "st\<lparr>ro_indicate_seq := wrap12 ?start\<rparr> = st" using rel by (simp add: rx_rel_def)
      then show ?thesis
        using True bits chk s ge enq by (simp add: win_recv_def recv_indicatepkt_reorder_def Let_def)
    next
      case new: False
      have sq: "sorted_wrt (\<lambda>a b. num a < num b) ?q" using srt new by (rule insort_key_sorted_wrt)
      have near: "\<forall>g \<in> set ?q. ?start - num g < 2048 \<and> num g - ?start \<le> 2048"
        using win n ge w by (fastforce simp: set_insort_key)
      obtain out s' rest where fl: "win_flush num ?base ?q = (out, s', rest)" by (cases "win_flush num ?base ?q") auto
      have "win_flush num ?start ?q = (out, s', rest)"
        using fl flush_start_eq [of num f s "snd W" w] ge win w by (auto simp: Ball_def)
      then have loop: "indicate_loop (seq_of num) (wrap12 ?start) ?q = (out, wrap12 s', rest, rest \<noteq> [])"
        using loop_refines_flush [OF sq near] by simp
      note ff = win_flush_facts [OF fl sq]
      have "\<forall>g \<in> set rest. s' < num g \<and> num g < s' + w"
      proof
        fix g assume g: "g \<in> set rest"
        then have "g \<in> insert f (set (snd W))" using ff by (metis Un_iff set_append set_insort_key)
        then have "num g < ?base + w" using win w by auto
        then show "s' < num g \<and> num g < s' + w" using ff g by auto
      qed
      moreover have "sorted_wrt (\<lambda>a b. num a < num b) rest" using ff sq by (simp add: sorted_wrt_append)
      ultimately show ?thesis
        using rel new bits chk s ge enq loop fl
        by (auto simp: win_recv_def recv_indicatepkt_reorder_def recv_indicatepkts_in_order_def Let_def rx_rel_def simp del: indicate_loop.simps)
    qed
  qed
qed

lemma rx_expire_refines:
  assumes rel: "rx_rel num w W st"
  shows "indicated (rtw_reordering_ctrl_timeout_handler (seq_of num) False st) = indicated st @ fst (win_expire num W) \<and>
    rx_rel num w (snd (win_expire num W)) (rtw_reordering_ctrl_timeout_handler (seq_of num) False st)"
proof -
  obtain so buf where W: "W = (so, buf)" by fastforce
  show ?thesis
  proof (cases buf)
    case Nil
    then show ?thesis
      using rel W by (auto simp: rtw_reordering_ctrl_timeout_handler_def recv_indicatepkts_in_order_def rx_rel_def Let_def split: option.splits)
  next
    case (Cons f fs)
    then obtain s where so: "so = Some s" using rel W by (auto simp: rx_rel_def split: option.splits)
    have srt: "sorted_wrt (\<lambda>a b. num a < num b) buf" and win: "\<forall>g \<in> set buf. s < num g \<and> num g < s + w"
      using rel W so by (auto simp: rx_rel_def)
    obtain out s' rest where fl: "win_flush num (num f) buf = (out, s', rest)" by (cases "win_flush num (num f) buf") auto
    have "\<forall>g \<in> set buf. num f - num g < 2048 \<and> num g - num f \<le> 2048" using srt win Cons w_bound [OF rel] by fastforce
    from loop_refines_flush [OF srt this]
    have loop: "indicate_loop (seq_of num) (wrap12 (num f)) buf = (out, wrap12 s', rest, rest \<noteq> [])" using fl by simp
    note ff = win_flush_facts [OF fl srt]
    have "s < num f" using win Cons by simp
    then have "s < s'" using ff by linarith
    moreover have "\<forall>g \<in> set rest. num g < s + w" using ff win by simp
    ultimately have "\<forall>g \<in> set rest. s' < num g \<and> num g < s' + w" using ff by (metis add_less_cancel_right order.strict_trans)
    moreover have "sorted_wrt (\<lambda>a b. num a < num b) rest" using ff srt by (simp add: sorted_wrt_append)
    ultimately show ?thesis
      using rel W so loop fl Cons
      by (auto simp: rtw_reordering_ctrl_timeout_handler_def recv_indicatepkts_in_order_def recv_indicatepkts_pkt_loss_cnt_def
          rx_rel_def Let_def simp del: indicate_loop.simps win_flush.simps)
  qed
qed

section \<open>Runs\<close>

datatype rx_event = Rx nat | Expire

fun rx_step :: "(nat \<Rightarrow> u16) \<Rightarrow> reorder \<Rightarrow> rx_event \<Rightarrow> reorder" where
  "rx_step seq_num st (Rx f) = the (snd (recv_indicatepkt_reorder seq_num True (Some st) f))"
| "rx_step seq_num st Expire = rtw_reordering_ctrl_timeout_handler seq_num False st"

fun win_step :: "(nat \<Rightarrow> int) \<Rightarrow> int \<Rightarrow> window \<Rightarrow> rx_event \<Rightarrow> nat list \<times> window" where
  "win_step num w W (Rx f) = (case win_recv num w W f of None \<Rightarrow> ([], W) | Some (out, s, rest) \<Rightarrow> (out, Some s, rest))"
| "win_step num w W Expire = win_expire num W"

fun win_run :: "(nat \<Rightarrow> int) \<Rightarrow> int \<Rightarrow> window \<Rightarrow> rx_event list \<Rightarrow> nat list \<times> window" where
  "win_run num w W [] = ([], W)"
| "win_run num w W (e # es) =
     (let (out, W) = win_step num w W e; (outs, W) = win_run num w W es in (out @ outs, W))"

text \<open>Every frame arrives within half of the sequence space of the start of the window.\<close>

fun half_space_run :: "(nat \<Rightarrow> int) \<Rightarrow> int \<Rightarrow> window \<Rightarrow> rx_event list \<Rightarrow> bool" where
  "half_space_run num w W [] \<longleftrightarrow> True"
| "half_space_run num w W (e # es) \<longleftrightarrow>
     (case e of Rx f \<Rightarrow> half_space num W f | Expire \<Rightarrow> True) \<and> half_space_run num w (snd (win_step num w W e)) es"

lemma step_refines:
  assumes "rx_rel num w W st" "case e of Rx f \<Rightarrow> half_space num W f | Expire \<Rightarrow> True"
  shows "indicated (rx_step (seq_of num) st e) = indicated st @ fst (win_step num w W e) \<and>
    rx_rel num w (snd (win_step num w W e)) (rx_step (seq_of num) st e)"
proof (cases e)
  case (Rx f)
  then show ?thesis using rx_frame_refines [of num w W st f] assms by (auto split: option.splits)
next
  case Expire
  then show ?thesis using rx_expire_refines [OF assms(1)] by simp
qed

lemma run_refines:
  assumes "rx_rel num w W st" "half_space_run num w W es"
  shows "indicated (foldl (rx_step (seq_of num)) st es) = indicated st @ fst (win_run num w W es) \<and>
    rx_rel num w (snd (win_run num w W es)) (foldl (rx_step (seq_of num)) st es)"
  using assms
proof (induction es arbitrary: W st)
  case (Cons e es)
  then have "indicated (rx_step (seq_of num) st e) = indicated st @ fst (win_step num w W e)"
    "rx_rel num w (snd (win_step num w W e)) (rx_step (seq_of num) st e)" using step_refines [of num w W st e] by auto
  then show ?case using Cons.IH [of "snd (win_step num w W e)" "rx_step (seq_of num) st e"] Cons.prems(2)
    by (simp add: Let_def case_prod_unfold)
qed simp

section \<open>Order of delivery\<close>

definition win_inv :: "(nat \<Rightarrow> int) \<Rightarrow> nat list \<Rightarrow> window \<Rightarrow> bool" where
  "win_inv num out W \<longleftrightarrow> sorted_wrt (\<lambda>a b. num a < num b) (out @ snd W) \<and>
     (case fst W of None \<Rightarrow> out @ snd W = [] | Some s \<Rightarrow> (\<forall>f \<in> set out. num f < s) \<and> (\<forall>f \<in> set (snd W). s < num f))"

lemma win_inv_flush:
  assumes "win_flush num s' q = (o2, t, rest)" "sorted_wrt (\<lambda>a b. num a < num b) q" "sorted_wrt (\<lambda>a b. num a < num b) out"
    "\<forall>f \<in> set out. num f < s" "\<forall>f \<in> set q. s \<le> num f" "s \<le> s'"
  shows "win_inv num (out @ o2) (Some t, rest)"
proof -
  note ff = win_flush_facts [OF assms(1,2)]
  have "\<forall>f \<in> set out. \<forall>g \<in> set q. num f < num g" using assms(4,5) by fastforce
  then show ?thesis using ff assms by (fastforce simp: win_inv_def sorted_wrt_append)
qed

lemma win_step_inv:
  assumes "win_inv num out W"
  shows "win_inv num (out @ fst (win_step num w W e)) (snd (win_step num w W e))"
proof (cases e)
  case (Rx f)
  show ?thesis
  proof (cases "win_recv num w W f")
    case None
    then show ?thesis using assms Rx by simp
  next
    case (Some r)
    obtain o2 t rest where r: "r = (o2, t, rest)" by (cases r) auto
    define s where "s = (case fst W of None \<Rightarrow> num f | Some s \<Rightarrow> s)"
    have fl: "win_flush num (max s (num f + 1 - w)) (insort_key num f (snd W)) = (o2, t, rest)"
      and new: "s \<le> num f" "num f \<notin> num ` set (snd W)"
      using Some by (auto simp: win_recv_def Let_def s_def r split: if_splits)
    have "sorted_wrt (\<lambda>a b. num a < num b) (snd W)" using assms by (simp add: win_inv_def sorted_wrt_append)
    note srt = insort_key_sorted_wrt [OF this new(2)]
    have "\<forall>g \<in> set out. num g < s" "\<forall>g \<in> set (snd W). s \<le> num g"
      using assms by (auto simp: win_inv_def s_def split: option.splits)
    moreover have "sorted_wrt (\<lambda>a b. num a < num b) out" using assms by (simp add: win_inv_def sorted_wrt_append)
    ultimately have "win_inv num (out @ o2) (Some t, rest)"
      using new(1) by (intro win_inv_flush [OF fl srt, of out s]) (simp_all add: set_insort_key)
    then show ?thesis using Rx Some r by simp
  qed
next
  case Expire
  show ?thesis
  proof (cases "snd W")
    case Nil
    then show ?thesis using assms Expire by (cases W) simp
  next
    case (Cons f fs)
    then obtain s where s: "fst W = Some s" using assms by (cases "fst W") (auto simp: win_inv_def)
    obtain o2 t rest where fl: "win_flush num (num f) (f # fs) = (o2, t, rest)" by (cases "win_flush num (num f) (f # fs)") auto
    have parts: "sorted_wrt (\<lambda>a b. num a < num b) (f # fs)" "sorted_wrt (\<lambda>a b. num a < num b) out"
      "\<forall>g \<in> set out. num g < s" "\<forall>g \<in> set (f # fs). s \<le> num g" "s \<le> num f"
      using assms s Cons by (auto simp: win_inv_def sorted_wrt_append)
    have "win_step num w W e = (o2, Some t, rest)" using fl Cons s Expire by (cases W) (simp del: win_flush.simps)
    then show ?thesis using win_inv_flush [OF fl parts] by simp
  qed
qed

lemma win_run_inv:
  "win_inv num out W \<Longrightarrow> win_inv num (out @ fst (win_run num w W es)) (snd (win_run num w W es))"
proof (induction es arbitrary: out W)
  case (Cons e es)
  from Cons.IH [OF win_step_inv [OF Cons.prems]] show ?case by (simp add: Let_def case_prod_unfold)
qed simp

section \<open>The timer and progress\<close>

lemma indicate_loop_facts:
  assumes "indicate_loop seq_num start q = (out, start', rest, in_buf)"
  shows "q = out @ rest" "in_buf \<longleftrightarrow> rest \<noteq> []"
  using assms by (induction q arbitrary: start out) (auto simp: Let_def split: prod.splits if_splits)

lemma indicate_loop_first: "q \<noteq> [] \<Longrightarrow> fst (indicate_loop seq_num (seq_num (hd q)) q) \<noteq> []"
  by (cases q) (auto simp: Let_def SN_LESS_def split: prod.splits)

text \<open>Whenever frames wait the timer is set, and the flag that says so is only up while it is.\<close>

definition timer_ok :: "reorder \<Rightarrow> bool" where
  "timer_ok st \<longleftrightarrow> (ro_pending st \<noteq> [] \<longrightarrow> reordering_ctrl_timer st) \<and> (bReorderWaiting st \<longrightarrow> reordering_ctrl_timer st)"

lemma check_keeps:
  "check_indicate_seq st n = (ok, st') \<Longrightarrow> ro_pending st' = ro_pending st \<and> reordering_ctrl_timer st' = reordering_ctrl_timer st \<and>
     bReorderWaiting st' = bReorderWaiting st \<and> indicated st' = indicated st"
  by (auto simp: check_indicate_seq_def Let_def split: if_splits)

lemma in_order_keeps:
  assumes "recv_indicatepkts_in_order seq_num st forced = (in_buf, st')"
  shows "bReorderWaiting st' = bReorderWaiting st" "reordering_ctrl_timer st' = reordering_ctrl_timer st"
    "in_buf \<longleftrightarrow> ro_pending st' \<noteq> [] \<or> forced \<and> ro_pending st = []"
    "indicated st' @ ro_pending st' = indicated st @ ro_pending st"
  using assms indicate_loop_facts
  by (fastforce simp: recv_indicatepkts_in_order_def recv_indicatepkts_pkt_loss_cnt_def Let_def split: if_splits prod.splits)+

lemma timer_ok_reorder:
  assumes ok: "timer_ok st" and r: "recv_indicatepkt_reorder seq_num qos (Some st) f = (ret, Some st')"
  shows "timer_ok st'"
proof (cases "qos \<and> ro_enable st")
  case True
  define st1 where "st1 = (let st = (if ack_or_timeout st then st\<lparr>ack_or_timeout := False, ro_indicate_seq := 0xFFFF\<rparr> else st)
    in if reorder_wow st then st\<lparr>reorder_wow := False, ro_indicate_seq := 0xFFFF\<rparr> else st)"
  have st1: "timer_ok st1" using ok by (simp add: st1_def Let_def timer_ok_def)
  obtain b st2 where chk: "check_indicate_seq st1 (seq_num f) = (b, st2)" by fastforce
  have st2: "timer_ok st2" using st1 check_keeps [OF chk] by (simp add: timer_ok_def)
  show ?thesis
  proof (cases "b \<and> enqueue_reorder_recvframe seq_num (ro_pending st2) f \<noteq> None")
    case False
    then have "st' = st2" using r True chk by (auto simp: recv_indicatepkt_reorder_def st1_def Let_def split: if_splits option.splits prod.splits)
    then show ?thesis using st2 by simp
  next
    case go: True
    then obtain q where q: "b" "enqueue_reorder_recvframe seq_num (ro_pending st2) f = Some q" by auto
    obtain in_buf st3 where io: "recv_indicatepkts_in_order seq_num (st2\<lparr>ro_pending := q\<rparr>) False = (in_buf, st3)" by fastforce
    have "st' = (if in_buf then if \<not> bReorderWaiting st3 then st3\<lparr>bReorderWaiting := True, reordering_ctrl_timer := True\<rparr> else st3
        else st3\<lparr>bReorderWaiting := False, reordering_ctrl_timer := False\<rparr>)"
      using r True chk q io by (simp add: recv_indicatepkt_reorder_def st1_def Let_def)
    then show ?thesis using in_order_keeps [OF io] st2 by (simp add: timer_ok_def)
  qed
qed (use ok r in \<open>auto simp: recv_indicatepkt_reorder_def\<close>)

lemma timeout_facts:
  fixes seq_num st
  defines "st' \<equiv> rtw_reordering_ctrl_timeout_handler seq_num False st"
  shows "timer_ok st'" "indicated st' @ ro_pending st' = indicated st @ ro_pending st"
    "length (ro_pending st') \<le> length (ro_pending st) - 1"
proof -
  obtain in_buf st1 where io: "recv_indicatepkts_in_order seq_num (st\<lparr>reordering_ctrl_timer := False, bReorderWaiting := False\<rparr>) True = (in_buf, st1)"
    by fastforce
  have st': "st' = (if in_buf then st1\<lparr>reordering_ctrl_timer := True\<rparr> else st1)"
    using io by (simp add: st'_def rtw_reordering_ctrl_timeout_handler_def Let_def)
  show "timer_ok st'" "indicated st' @ ro_pending st' = indicated st @ ro_pending st"
    using in_order_keeps [OF io] st' by (auto simp: timer_ok_def)
  show "length (ro_pending st') \<le> length (ro_pending st) - 1"
  proof (cases "ro_pending st = []")
    case False
    let ?start = "seq_num (hd (ro_pending st))"
    obtain out start rest b where loop: "indicate_loop seq_num ?start (ro_pending st) = (out, start, rest, b)"
      by (cases "indicate_loop seq_num ?start (ro_pending st)") auto
    have "ro_pending st1 = rest"
      using io loop False by (auto simp: recv_indicatepkts_in_order_def recv_indicatepkts_pkt_loss_cnt_def Let_def split: if_splits)
    moreover have "out \<noteq> []" using indicate_loop_first [OF False, of seq_num] loop by simp
    ultimately show ?thesis using indicate_loop_facts(1) [OF loop] st' by (cases out) auto
  qed (use in_order_keeps(4) [OF io] st' io in \<open>auto simp: recv_indicatepkts_in_order_def\<close>)
qed

lemma timeouts_drain:
  assumes "length (ro_pending st) \<le> n"
  shows "ro_pending ((rtw_reordering_ctrl_timeout_handler seq_num False ^^ n) st) = [] \<and>
    indicated ((rtw_reordering_ctrl_timeout_handler seq_num False ^^ n) st) = indicated st @ ro_pending st"
proof -
  let ?h = "rtw_reordering_ctrl_timeout_handler seq_num False"
  have "indicated ((?h ^^ n) st) @ ro_pending ((?h ^^ n) st) = indicated st @ ro_pending st \<and>
      length (ro_pending ((?h ^^ n) st)) \<le> length (ro_pending st) - n" for n
  proof (induction n)
    case (Suc n)
    then show ?case using timeout_facts(2,3) [of seq_num "(?h ^^ n) st"] by (simp, linarith)
  qed simp
  from this [of n] show ?thesis using assms by auto
qed

section \<open>Nothing missing, nothing held back\<close>

lemma win_flush_run:
  assumes "win_flush num s q = (out, s', rest)" "sorted_wrt (\<lambda>a b. num a < num b) q" "\<forall>f \<in> set q. s \<le> num f"
  shows "num ` set out = {s..<s'}"
  using assms
proof (induction q arbitrary: s out)
  case (Cons f fs)
  show ?case
  proof (cases "num f \<le> s")
    case True
    then have s: "num f = s" using Cons.prems(3) by auto
    then obtain out' where "win_flush num (s + 1) fs = (out', s', rest)" "out = f # out'"
      using Cons.prems(1) by (auto simp: Let_def split: prod.splits)
    moreover have "\<forall>g \<in> set fs. s + 1 \<le> num g" using Cons.prems(2) s by auto
    ultimately have "num ` set out' = {s + 1..<s'}" "s + 1 \<le> s'" using Cons.IH [of "s + 1" out'] Cons.prems(2) win_flush_facts [of num "s + 1" fs] by auto
    then show ?thesis using s \<open>out = f # out'\<close> by auto
  next
    case False
    then show ?thesis using Cons.prems(1) by auto
  qed
qed simp

definition full_inv :: "(nat \<Rightarrow> int) \<Rightarrow> int \<Rightarrow> nat list \<Rightarrow> window \<Rightarrow> bool" where
  "full_inv num a out W \<longleftrightarrow> (\<exists>s \<ge> a. fst W = Some s \<and> num ` set out = {a..<s} \<and> (\<forall>g \<in> set (snd W). s < num g)) \<and>
     sorted_wrt (\<lambda>a b. num a < num b) (snd W)"

lemma full_step:
  assumes inv: "full_inv num a out W" and f: "a \<le> num f" "num f < a + w"
  shows "full_inv num a (out @ fst (win_step num w W (Rx f))) (snd (win_step num w W (Rx f))) \<and>
    num ` (set out \<union> set (fst (win_step num w W (Rx f))) \<union> set (snd (snd (win_step num w W (Rx f))))) = insert (num f) (num ` (set out \<union> set (snd W)))"
proof -
  obtain s where s: "a \<le> s" "fst W = Some s" "num ` set out = {a..<s}" "\<forall>g \<in> set (snd W). s < num g"
    and srt: "sorted_wrt (\<lambda>a b. num a < num b) (snd W)" using inv by (auto simp: full_inv_def)
  show ?thesis
  proof (cases "num f < s \<or> num f \<in> num ` set (snd W)")
    case True
    then have "num f \<in> num ` (set out \<union> set (snd W))" using s(3) f(1) by (auto simp: image_Un)
    then show ?thesis using True inv s(2) by (auto simp: win_recv_def Let_def)
  next
    case False
    let ?q = "insort_key num f (snd W)"
    obtain o2 t rest where fl: "win_flush num s ?q = (o2, t, rest)" by (cases "win_flush num s ?q") auto
    have sq: "sorted_wrt (\<lambda>a b. num a < num b) ?q" using srt False by (intro insort_key_sorted_wrt) auto
    note ff = win_flush_facts [OF fl sq]
    have "\<forall>g \<in> set ?q. s \<le> num g" using s(4) False by (auto simp: set_insort_key)
    note run = win_flush_run [OF fl sq this]
    have "max s (num f + 1 - w) = s" using f(2) s(1) by simp
    then have step: "win_step num w W (Rx f) = (o2, Some t, rest)" using False s(2) fl by (simp add: win_recv_def Let_def)
    have "set o2 \<union> set rest = insert f (set (snd W))" using ff by (metis set_append set_insort_key)
    then have all: "num ` (set out \<union> set o2 \<union> set rest) = insert (num f) (num ` (set out \<union> set (snd W)))" by (simp add: Un_assoc)
    have "num ` set (out @ o2) = {a..<t}" using s(1,3) run ff by (auto simp: image_Un)
    moreover have "sorted_wrt (\<lambda>a b. num a < num b) rest" using ff sq by (simp add: sorted_wrt_append)
    ultimately have "full_inv num a (out @ o2) (Some t, rest)" using ff s(1) by (auto simp: full_inv_def)
    then show ?thesis using step all by simp
  qed
qed

lemma full_run:
  assumes "full_inv num a out W" "\<forall>f \<in> set fs. a \<le> num f \<and> num f < a + w"
  shows "full_inv num a (out @ fst (win_run num w W (map Rx fs))) (snd (win_run num w W (map Rx fs))) \<and>
    num ` (set out \<union> set (fst (win_run num w W (map Rx fs))) \<union> set (snd (snd (win_run num w W (map Rx fs))))) =
      num ` set fs \<union> num ` (set out \<union> set (snd W))"
  using assms
proof (induction fs arbitrary: out W)
  case (Cons f fs)
  let ?o = "fst (win_step num w W (Rx f))" and ?W = "snd (win_step num w W (Rx f))"
  have step: "full_inv num a (out @ ?o) ?W" "num ` (set out \<union> set ?o \<union> set (snd ?W)) = insert (num f) (num ` (set out \<union> set (snd W)))"
    using full_step [of num a out W f w] Cons.prems by (auto simp del: win_step.simps)
  then show ?case using Cons.IH [OF step(1)] Cons.prems(2) by (auto simp: Let_def case_prod_unfold image_Un Un_assoc simp del: win_step.simps)
qed (auto simp: image_Un)

lemma full_end:
  assumes inv: "full_inv num a out (so, buf)" and all: "num ` (set out \<union> set buf) = {a..<a + int n}"
    and srt: "sorted_wrt (\<lambda>a b. num a < num b) out"
  shows "buf = [] \<and> map num out = [a..a + int n - 1]"
proof -
  obtain s where s: "a \<le> s" "num ` set out = {a..<s}" "\<forall>g \<in> set buf. s < num g" using inv by (auto simp: full_inv_def)
  have "buf = []"
  proof (rule ccontr)
    assume "buf \<noteq> []"
    then obtain g where g: "g \<in> set buf" by (cases buf) auto
    then have "num g < a + int n" "s < num g" using all s(3) by (auto simp: image_Un)
    then have "s \<in> num ` (set out \<union> set buf)" using s(1) all by auto
    then show False using s(2,3) by (auto simp: image_Un)
  qed
  moreover have "sorted_wrt (<) (map num out)" using srt by (simp add: sorted_wrt_map)
  then have "sorted (map num out)" "distinct (map num out)" by (auto simp: strict_sorted_iff)
  moreover have "set (map num out) = set [a..a + int n - 1]" using all \<open>buf = []\<close> by auto
  ultimately show ?thesis using sorted_distinct_set_unique [of "map num out" "[a..a + int n - 1]"] by simp
qed

lemma half_space_full:
  assumes "full_inv num a out W" "\<forall>f \<in> set fs. a \<le> num f \<and> num f < a + w" "0 < w" "w \<le> 255"
    "\<forall>m \<in> num ` (set out \<union> set (snd W)). m < a + w"
  shows "half_space_run num w W (map Rx fs)"
  using assms
proof (induction fs arbitrary: out W)
  case (Cons f fs)
  let ?W = "snd (win_step num w W (Rx f))" and ?o = "fst (win_step num w W (Rx f))"
  have inv: "full_inv num a (out @ ?o) ?W"
    and all: "num ` (set out \<union> set ?o \<union> set (snd ?W)) = insert (num f) (num ` (set out \<union> set (snd W)))"
    using full_step [OF Cons.prems(1), of f w] Cons.prems(2) by (simp_all del: win_step.simps)
  obtain s where s: "a \<le> s" "fst W = Some s" "num ` set out = {a..<s}" using Cons.prems(1) by (auto simp: full_inv_def)
  have "s \<le> a + w"
  proof (rule ccontr)
    assume "\<not> s \<le> a + w"
    then have "a + w \<in> num ` set out" using s(3) Cons.prems(3) by simp
    then show False using Cons.prems(5) by auto
  qed
  then have "half_space num W f" using s Cons.prems(2,4) by (auto simp: half_space_def)
  moreover have "\<forall>m \<in> num ` (set (out @ ?o) \<union> set (snd ?W)). m < a + w"
    using Cons.prems(2,5) by (simp only: set_append all) simp
  ultimately show ?case using Cons.IH [OF inv] Cons.prems by (simp del: win_step.simps)
qed simp

section \<open>Reachable control blocks\<close>

text \<open>The control block of traffic class \<open>i\<close> of a new station.\<close>

definition new_reorder :: "nat \<Rightarrow> reorder" where
  "new_reorder i = recv_reorder_ctrl.extend (recvreorder_ctrl (new_sta []) ! i) (reorder.fields False False False False [] 0 0)"

inductive reorder_reach :: "(nat \<Rightarrow> u16) \<Rightarrow> reorder \<Rightarrow> bool" for seq_num where
  new: "i < 16 \<Longrightarrow> reorder_reach seq_num (new_reorder i)"
| frame: "reorder_reach seq_num st \<Longrightarrow> recv_indicatepkt_reorder seq_num qos (Some st) f = (ret, Some st') \<Longrightarrow> reorder_reach seq_num st'"
| expire: "reorder_reach seq_num st \<Longrightarrow> reorder_reach seq_num (rtw_reordering_ctrl_timeout_handler seq_num False st)"
| before: "reorder_reach seq_num st \<Longrightarrow> recv_set_iseq_before_mpdu_process (Some st) (seq_num f) = Some st' \<Longrightarrow> reorder_reach seq_num st'"
| after: "reorder_reach seq_num st \<Longrightarrow> recv_set_iseq_after_mpdu_process (Some st) = Some st' \<Longrightarrow> reorder_reach seq_num st'"
| bar: "reorder_reach seq_num st \<Longrightarrow> reorder_reach seq_num (rtw_process_bar_frame seqctrl st)"
| addba: "reorder_reach seq_num st \<Longrightarrow> reorder_reach seq_num (add_ba_rsp_hdl status sz st)"
| wow: "reorder_reach seq_num st \<Longrightarrow> reorder_reach seq_num (st\<lparr>reorder_wow := True\<rparr>)"

lemma new_reorder_fields:
  assumes "i < 16"
  shows "ro_pending (new_reorder i) = []" "ro_indicate_seq (new_reorder i) = 0xFFFF" "ro_wsize_b (new_reorder i) = 64"
    "\<not> bReorderWaiting (new_reorder i)" "indicated (new_reorder i) = []" "\<not> reorder_wow (new_reorder i)"
  using assms by (simp_all add: new_reorder_def new_sta_def recv_reorder_ctrl.defs reorder.defs)

lemma reach_timer_ok: "reorder_reach seq_num st \<Longrightarrow> timer_ok st"
proof (induction rule: reorder_reach.induct)
  case (new i)
  then show ?case by (simp add: timer_ok_def new_reorder_fields)
next
  case (frame st qos f ret st')
  then show ?case by (blast intro: timer_ok_reorder)
next
  case (expire st)
  then show ?case by (intro timeout_facts)
qed (auto simp: timer_ok_def recv_set_iseq_before_mpdu_process_def recv_set_iseq_after_mpdu_process_def
    rtw_process_bar_frame_def add_ba_rsp_hdl_def Let_def)

definition start_ok :: "reorder \<Rightarrow> bool" where
  "start_ok st \<longleftrightarrow> ro_wsize_b st = 64 \<and> (ro_indicate_seq st = 0xFFFF \<or> uint (ro_indicate_seq st) < 4096)"

lemma uint_low12: "uint (word_of_int (x AND 0xFFF) :: u16) < 4096"
  using uint_wrap12 [of x] by (simp add: and_0xFFF wrap12_def)

lemma start_ok_check:
  assumes "start_ok st" "uint n < 4096" "check_indicate_seq st n = (ok, st')"
  shows "start_ok st'"
proof -
  have n: "0 \<le> uint n" by simp
  have jump: "63 \<le> uint n \<Longrightarrow> uint (word_of_int (uint n + 1 - 64) :: u16) < 4096"
    "uint n < 63 \<Longrightarrow> uint (word_of_int (0xFFF - (64 - (uint n + 1)) + 1) :: u16) < 4096"
    using assms(2) n by (simp_all only: uint_word_of_int) (auto intro: order.strict_trans1 [OF zmod_le_nonneg_dividend])
  have "uint (ro_wsize_b st) = 64" using assms(1) by (simp add: start_ok_def)
  then show ?thesis
    using assms jump [simplified] uint_low12 by (auto simp: check_indicate_seq_def Let_def start_ok_def not_le split: if_splits)
qed

lemma start_ok_loop:
  assumes "indicate_loop seq_num start q = (out, start', rest, in_buf)" "uint start < 4096 \<or> start = 0xFFFF"
  shows "uint start' < 4096 \<or> start' = 0xFFFF"
  using assms
proof (induction q arbitrary: start out)
  case (Cons f fs)
  then show ?case using uint_low12 [of "uint start + 1"] by (auto simp: Let_def split: prod.splits if_splits)
qed simp

lemma start_ok_in_order:
  assumes "start_ok st" "\<forall>f. uint (seq_num f) < 4096" "recv_indicatepkts_in_order seq_num st forced = (in_buf, st')"
  shows "start_ok st'"
proof -
  define st1 where "st1 = (if forced then (recv_indicatepkts_pkt_loss_cnt st (ucast (ro_indicate_seq st)) (ucast (seq_num (hd (ro_pending st)))))\<lparr>ro_indicate_seq := seq_num (hd (ro_pending st))\<rparr> else st)"
  have st1: "start_ok st1" using assms(1,2) by (auto simp: st1_def start_ok_def recv_indicatepkts_pkt_loss_cnt_def)
  obtain out start rest b where loop: "indicate_loop seq_num (ro_indicate_seq st1) (ro_pending st1) = (out, start, rest, b)"
    by (cases "indicate_loop seq_num (ro_indicate_seq st1) (ro_pending st1)") auto
  then have "start_ok (st1\<lparr>ro_indicate_seq := start, ro_pending := rest, indicated := indicated st1 @ out\<rparr>)"
    using start_ok_loop [OF loop] st1 by (auto simp: start_ok_def)
  moreover have "st' = st1\<lparr>ro_indicate_seq := start, ro_pending := rest, indicated := indicated st1 @ out\<rparr>" if "\<not> (forced \<and> ro_pending st = [])"
    using assms(3) loop that by (auto simp: recv_indicatepkts_in_order_def Let_def st1_def split: if_splits prod.splits)
  ultimately show ?thesis using assms(1,3) by (cases "forced \<and> ro_pending st = []") (auto simp: recv_indicatepkts_in_order_def)
qed

lemma start_ok_reorder:
  assumes ok: "start_ok st" and n: "\<forall>f. uint (seq_num f) < 4096" and r: "recv_indicatepkt_reorder seq_num qos (Some st) f = (ret, Some st')"
  shows "start_ok st'"
proof (cases "qos \<and> ro_enable st")
  case True
  define st1 where "st1 = (let st = (if ack_or_timeout st then st\<lparr>ack_or_timeout := False, ro_indicate_seq := 0xFFFF\<rparr> else st)
    in if reorder_wow st then st\<lparr>reorder_wow := False, ro_indicate_seq := 0xFFFF\<rparr> else st)"
  have st1: "start_ok st1" using ok by (simp add: st1_def Let_def start_ok_def)
  obtain b st2 where chk: "check_indicate_seq st1 (seq_num f) = (b, st2)" by fastforce
  have st2: "start_ok st2" using start_ok_check [OF st1 _ chk] n by simp
  show ?thesis
  proof (cases "b \<and> enqueue_reorder_recvframe seq_num (ro_pending st2) f \<noteq> None")
    case False
    then have "st' = st2" using r True chk by (auto simp: recv_indicatepkt_reorder_def st1_def Let_def split: if_splits option.splits prod.splits)
    then show ?thesis using st2 by simp
  next
    case go: True
    then obtain q where q: "b" "enqueue_reorder_recvframe seq_num (ro_pending st2) f = Some q" by auto
    obtain in_buf st3 where io: "recv_indicatepkts_in_order seq_num (st2\<lparr>ro_pending := q\<rparr>) False = (in_buf, st3)" by fastforce
    have "start_ok st3" using st2 by (intro start_ok_in_order [OF _ n io]) (simp add: start_ok_def)
    then show ?thesis using r True chk q io by (auto simp: recv_indicatepkt_reorder_def st1_def Let_def start_ok_def split: if_splits)
  qed
qed (use ok r in \<open>auto simp: recv_indicatepkt_reorder_def\<close>)

lemma reach_start_ok:
  assumes "reorder_reach seq_num st" "\<forall>f. uint (seq_num f) < 4096"
  shows "start_ok st"
  using assms(1)
proof (induction rule: reorder_reach.induct)
  case (new i)
  then show ?case by (simp add: start_ok_def new_reorder_fields)
next
  case (frame st qos f ret st')
  then show ?case using start_ok_reorder assms(2) by blast
next
  case (expire st)
  obtain in_buf st1 where io: "recv_indicatepkts_in_order seq_num (st\<lparr>reordering_ctrl_timer := False, bReorderWaiting := False\<rparr>) True = (in_buf, st1)"
    by fastforce
  have "start_ok st1" using expire.IH by (intro start_ok_in_order [OF _ assms(2) io]) (simp add: start_ok_def)
  then show ?case using io by (simp add: rtw_reordering_ctrl_timeout_handler_def Let_def start_ok_def)
next
  case (before st f st')
  then show ?case using assms(2) by (auto simp: start_ok_def recv_set_iseq_before_mpdu_process_def)
next
  case (after st st')
  then show ?case using uint_low12 [of "uint (ro_indicate_seq st) + 1"]
    by (auto simp: start_ok_def recv_set_iseq_after_mpdu_process_def and_0xFFF)
next
  case (bar st seqctrl)
  have "uint (drop_bit 4 seqctrl) < 4096"
    using unsigned_less [of seqctrl, where 'a = int] by (simp add: drop_bit_eq_div uint_div)
  then show ?case using bar by (simp add: start_ok_def rtw_process_bar_frame_def)
qed (auto simp: start_ok_def add_ba_rsp_hdl_def Let_def)

section \<open>An agreement from its start\<close>

lemma agreement_start:
  fixes sz
  assumes "ro_pending st = []" "\<not> reorder_wow st" "0 < uint (ro_wsize_b st)"
  defines "st1 \<equiv> (add_ba_rsp_hdl 0 sz st)\<lparr>ack_or_timeout := False, ro_indicate_seq := 0xFFFF\<rparr>"
  shows "rx_rel num (uint (ro_wsize_b st)) (None, []) st1" "indicated st1 = indicated st"
    "rx_step seq_num (add_ba_rsp_hdl 0 sz st) (Rx f) = rx_step seq_num st1 (Rx f)"
  using assms by (simp_all add: rx_rel_def add_ba_rsp_hdl_def recv_indicatepkt_reorder_def Let_def)

lemma agreement_run:
  fixes sz
  assumes "ro_pending st = []" "\<not> reorder_wow st" "0 < w" "w = uint (ro_wsize_b st)" "half_space_run num w (None, []) (Rx f # es)"
  defines "st' \<equiv> foldl (rx_step (seq_of num)) (add_ba_rsp_hdl 0 sz st) (Rx f # es)"
  shows "indicated st' = indicated st @ fst (win_run num w (None, []) (Rx f # es))" "rx_rel num w (snd (win_run num w (None, []) (Rx f # es))) st'"
proof -
  note ag = agreement_start [OF assms(1,2), folded assms(4), OF assms(3)]
  have "st' = foldl (rx_step (seq_of num)) ((add_ba_rsp_hdl 0 sz st)\<lparr>ack_or_timeout := False, ro_indicate_seq := 0xFFFF\<rparr>) (Rx f # es)"
    using ag(3) by (simp add: st'_def)
  then show "indicated st' = indicated st @ fst (win_run num w (None, []) (Rx f # es))" "rx_rel num w (snd (win_run num w (None, []) (Rx f # es))) st'"
    using run_refines [OF ag(1) assms(5)] ag(2) by simp_all
qed

lemma rx_rel_pending_bound: "rx_rel num w W st \<Longrightarrow> int (length (ro_pending st)) < w"
proof -
  assume rel: "rx_rel num w W st"
  show ?thesis
  proof (cases "fst W")
    case None
    then show ?thesis using rel by (simp add: rx_rel_def)
  next
    case (Some s)
    then have srt: "sorted_wrt (\<lambda>a b. num a < num b) (snd W)" and win: "num ` set (snd W) \<subseteq> {s + 1..<s + w}" using rel by (auto simp: rx_rel_def)
    have "distinct (map num (snd W))" using srt by (metis sorted_wrt_map strict_sorted_iff)
    then have "length (snd W) = card (num ` set (snd W))" by (metis distinct_card length_map list.set_map)
    also have "\<dots> \<le> card {s + 1..<s + w}" using win by (intro card_mono) simp_all
    finally have "length (snd W) \<le> nat (w - 1)" by simp
    moreover have "0 < w" "ro_pending st = snd W" using rel by (auto simp: rx_rel_def)
    ultimately show ?thesis by simp
  qed
qed

section \<open>Properties of the reordering buffer\<close>

text \<open>
  C32. The reordering buffer hands frames on in order. From the acceptance of an agreement on, with
  nothing waiting, whatever frames arrive and timeouts happen, as long as every frame is within half of
  the sequence space of the window's start: the frames handed on are those of the window over unbounded
  sequence numbers, their numbers increase strictly (so that no number is handed on twice and no frame
  after a later one), those still waiting come after all of them, and fewer frames wait than the window
  is wide. The 12-bit wrap-around of the sequence numbers is invisible.
\<close>

theorem frames_indicated_in_order:
  assumes "ro_pending st = []" and "\<not> reorder_wow st" and "0 < w" and "w = uint (ro_wsize_b st)"
    and "half_space_run num w (None, []) (Rx f # es)"
    and "st' = foldl (rx_step (\<lambda>g. wrap12 (num g))) (add_ba_rsp_hdl 0 sz st) (Rx f # es)"
  shows "\<exists>out. indicated st' = indicated st @ out \<and> (out, ro_pending st') = map_prod id snd (win_run num w (None, []) (Rx f # es)) \<and>
    sorted_wrt (\<lambda>g h. num g < num h) (out @ ro_pending st') \<and> int (length (ro_pending st')) < w"
proof -
  note run = agreement_run [OF assms(1-5), of sz, folded assms(6)]
  have pend: "ro_pending st' = snd (snd (win_run num w (None, []) (Rx f # es)))" using run(2) by (simp add: rx_rel_def)
  have "win_inv num [] (None, [])" by (simp add: win_inv_def)
  from win_run_inv [OF this, of w "Rx f # es"]
  have "sorted_wrt (\<lambda>g h. num g < num h) (fst (win_run num w (None, []) (Rx f # es)) @ ro_pending st')"
    unfolding pend by (simp add: win_inv_def del: win_run.simps)
  then show ?thesis
    using run(1) pend rx_rel_pending_bound [OF run(2)] by (intro exI [of _ "fst (win_run num w (None, []) (Rx f # es))"]) (simp add: map_prod_def case_prod_unfold del: win_run.simps)
qed

theorem frames_indicated_in_order_witness:
  "\<exists>out. indicated (foldl (rx_step (\<lambda>g. wrap12 (int g + 4094))) (add_ba_rsp_hdl 0 64 (new_reorder 0)) [Rx 0, Rx 3, Rx 1, Rx 1, Expire]) = out \<and>
    sorted_wrt (\<lambda>g h. int g + 4094 < int h + 4094) out"
proof -
  define st' where "st' = foldl (rx_step (\<lambda>g. wrap12 (int g + 4094))) (add_ba_rsp_hdl 0 64 (new_reorder 0)) [Rx 0, Rx 3, Rx 1, Rx 1, Expire]"
  have half: "half_space_run (\<lambda>g. int g + 4094) 64 (None, []) [Rx 0, Rx 3, Rx 1, Rx 1, Expire]" by (simp add: win_recv_def half_space_def)
  have w: "0 < (64 :: int)" "(64 :: int) = uint (ro_wsize_b (new_reorder 0))" "(0 :: nat) < 16" by (simp_all add: new_reorder_fields)
  obtain out where "indicated st' = indicated (new_reorder 0) @ out" "sorted_wrt (\<lambda>g h. int g + 4094 < int h + 4094) (out @ ro_pending st')"
    using frames_indicated_in_order [OF new_reorder_fields(1,6) [OF w(3)] w(1,2) half st'_def] by blast
  then show ?thesis unfolding st'_def [symmetric] sorted_wrt_append new_reorder_fields(5) [OF w(3)] append_Nil by blast
qed

text \<open>
  C33. Nothing is held back when nothing is missing: if the first frame of an agreement carries the lowest
  number, and the frames that arrive, in any order and with any repetitions, are all numbers of a
  stretch no longer than the window, then exactly one frame of each number is handed on, in the order of
  the numbers, and no frame is left waiting, without any timeout.
\<close>

theorem frames_all_indicated:
  assumes "ro_pending st = []" and "\<not> reorder_wow st" and "w = uint (ro_wsize_b st)" and "0 < n" and "int n \<le> w"
    and "num f = a" and "num ` set (f # fs) = {a..<a + int n}"
    and "st' = foldl (rx_step (\<lambda>g. wrap12 (num g))) (add_ba_rsp_hdl 0 sz st) (map Rx (f # fs))"
  shows "\<exists>out. indicated st' = indicated st @ out \<and> map num out = [a..a + int n - 1] \<and> ro_pending st' = []"
proof -
  have w: "0 < w" "w \<le> 255" using assms(3,4,5) unsigned_less [of "ro_wsize_b st", where 'a = int] by auto
  have rng: "\<forall>g \<in> set fs. a \<le> num g \<and> num g < a + w"
  proof
    fix g assume "g \<in> set fs"
    then have "num g \<in> {a..<a + int n}" unfolding assms(7) [symmetric] by simp
    then show "a \<le> num g \<and> num g < a + w" using assms(5) by simp
  qed
  let ?W = "(Some (a + 1), []) :: window"
  have first: "win_step num w (None, []) (Rx f) = ([f], ?W)" using assms(6) w by (simp add: win_recv_def)
  have inv1: "full_inv num a [f] ?W" using assms(6) by (auto simp: full_inv_def)
  have "half_space_run num w ?W (map Rx fs)" using half_space_full [OF inv1 rng w] assms(6) w by simp
  then have half: "half_space_run num w (None, []) (Rx f # map Rx fs)" using first by (simp add: half_space_def)
  let ?r = "win_run num w ?W (map Rx fs)"
  have split: "win_run num w (None, []) (Rx f # map Rx fs) = ([f] @ fst ?r, snd ?r)" using first by (simp add: Let_def case_prod_unfold)
  note run = agreement_run [OF assms(1,2) w(1) assms(3) half, of sz, folded list.map(2), folded assms(8)]
  have "win_inv num [f] ?W" by (simp add: win_inv_def assms(6))
  from win_run_inv [OF this, of w "map Rx fs"] have srt: "sorted_wrt (\<lambda>g h. num g < num h) ([f] @ fst ?r)" by (simp add: win_inv_def sorted_wrt_append)
  have "num ` (set ([f] @ fst ?r) \<union> set (snd (snd ?r))) = {a..<a + int n}"
    using full_run [OF inv1 rng] assms(7) by (simp add: image_Un)
  from full_end [OF _ this srt, of "fst (snd ?r)"] full_run [OF inv1 rng]
  have "snd (snd ?r) = []" "map num ([f] @ fst ?r) = [a..a + int n - 1]" by simp_all
  then show ?thesis using run split by (intro exI [of _ "[f] @ fst ?r"]) (simp add: rx_rel_def del: win_run.simps)
qed

theorem frames_all_indicated_witness:
  "\<exists>out. indicated (foldl (rx_step (\<lambda>g. wrap12 (int g + 4094))) (add_ba_rsp_hdl 0 64 (new_reorder 0)) (map Rx [0, 3, 1, 1, 2])) = [] @ out \<and>
    map (\<lambda>g. int g + 4094) out = [4094..4097]"
proof -
  have "(\<lambda>g. int g + 4094) ` set [0, 3, 1, 1, 2] = {4094..<4094 + int 4}" by auto
  from frames_all_indicated [OF _ _ refl _ _ _ this refl, of "new_reorder 0" 64]
  show ?thesis by (auto simp: new_reorder_fields simp del: foldl.simps list.map)
qed

text \<open>
  C34. No frame waits for ever. In every control block the driver can reach, whatever frames, block
  acknowledgement requests and new agreements came, the timer is set whenever frames wait; and from any
  state, as many timeouts as frames wait hand on all of them, in the order they are queued.
\<close>

theorem pending_frames_drain:
  assumes "reorder_reach seq_num st" and "length (ro_pending st) \<le> n"
  shows "(ro_pending st \<noteq> [] \<longrightarrow> reordering_ctrl_timer st) \<and>
    ro_pending ((rtw_reordering_ctrl_timeout_handler seq_num False ^^ n) st) = [] \<and>
    indicated ((rtw_reordering_ctrl_timeout_handler seq_num False ^^ n) st) = indicated st @ ro_pending st"
  using reach_timer_ok [OF assms(1)] timeouts_drain [OF assms(2)] by (simp add: timer_ok_def)

theorem pending_frames_drain_witness:
  "ro_pending ((rtw_reordering_ctrl_timeout_handler (\<lambda>g. of_nat g) False ^^ 1) (new_reorder 0)) = []"
  using pending_frames_drain [OF reorder_reach.new [of 0 "\<lambda>g. of_nat g"], of 1] by (simp add: new_reorder_fields)

text \<open>
  C35. In every reachable control block the start of the window is a 12-bit sequence number or the marker
  0xFFFF of an open window, and the window keeps its width of 64, provided frames carry 12-bit numbers.
\<close>

theorem window_start_range:
  assumes "reorder_reach seq_num st" and "\<forall>f. uint (seq_num f) < 4096"
  shows "ro_wsize_b st = 64 \<and> (ro_indicate_seq st = 0xFFFF \<or> uint (ro_indicate_seq st) < 4096)"
  using reach_start_ok [OF assms] by (simp add: start_ok_def)

theorem window_start_range_witness:
  "ro_wsize_b (new_reorder 3) = 64 \<and> (ro_indicate_seq (new_reorder 3) = 0xFFFF \<or> uint (ro_indicate_seq (new_reorder 3)) < 4096)"
  using window_start_range [OF reorder_reach.new [of 3 "\<lambda>g. 7"]] by simp

end
