(* ===== verification/AES.thy ===== *)
theory AES
  imports AES_Tables
begin

unbundle bit_operations_syntax

text \<open>
  The AES block cipher of \<^verbatim>\<open>core/crypto/aes-internal.c\<close> (key schedule) and
  \<^verbatim>\<open>core/crypto/aes-internal-enc.c\<close> (encryption, context set-up), with the macros of
  \<^verbatim>\<open>core/crypto/aes_i.h\<close> in the compiled configuration (\<open>AES_SMALL_TABLES\<close>, no
  \<open>FULL_UNROLL\<close>). The reference is FIPS-197, on byte lists.

  The context \<^verbatim>\<open>u32 rk[61]\<close>, whose last word holds the number of rounds, is the record
  \<open>aes_ctx\<close> of the words the key schedule wrote and the number of rounds. The length of the key in bits,
  an \<^verbatim>\<open>int\<close> in the code, is not truncated: all keys of the driver have at most 64 bytes. \<open>alloc n\<close> says whether
  a request to \<^verbatim>\<open>os_malloc\<close> for \<open>n\<close> bytes succeeds.
\<close>

section \<open>Macros of aes_i.h\<close>

definition PUTU32 :: "u32 \<Rightarrow> bytes" where
  "PUTU32 st = [ucast (drop_bit 24 st), ucast (drop_bit 16 st), ucast (drop_bit 8 st), ucast st]"

definition RCON :: "nat \<Rightarrow> u32" where
  "RCON i = push_bit 24 (ucast (rcons ! i))"

definition TE0 :: "u32 \<Rightarrow> u32" where
  "TE0 i = Te0 ! unat (drop_bit 24 i AND 0xff)"
definition TE1 :: "u32 \<Rightarrow> u32" where
  "TE1 i = rotr (Te0 ! unat (drop_bit 16 i AND 0xff)) 8"
definition TE2 :: "u32 \<Rightarrow> u32" where
  "TE2 i = rotr (Te0 ! unat (drop_bit 8 i AND 0xff)) 16"
definition TE3 :: "u32 \<Rightarrow> u32" where
  "TE3 i = rotr (Te0 ! unat (i AND 0xff)) 24"
definition TE41 :: "u32 \<Rightarrow> u32" where
  "TE41 i = (push_bit 8 (Te0 ! unat (drop_bit 24 i AND 0xff)) AND 0xff000000)"
definition TE42 :: "u32 \<Rightarrow> u32" where
  "TE42 i = (Te0 ! unat (drop_bit 16 i AND 0xff) AND 0x00ff0000)"
definition TE43 :: "u32 \<Rightarrow> u32" where
  "TE43 i = (Te0 ! unat (drop_bit 8 i AND 0xff) AND 0x0000ff00)"
definition TE44 :: "u32 \<Rightarrow> u32" where
  "TE44 i = (drop_bit 8 (Te0 ! unat (i AND 0xff)) AND 0x000000ff)"
definition TE421 :: "u32 \<Rightarrow> u32" where
  "TE421 i = (push_bit 8 (Te0 ! unat (drop_bit 16 i AND 0xff)) AND 0xff000000)"
definition TE432 :: "u32 \<Rightarrow> u32" where
  "TE432 i = (Te0 ! unat (drop_bit 8 i AND 0xff) AND 0x00ff0000)"
definition TE443 :: "u32 \<Rightarrow> u32" where
  "TE443 i = (Te0 ! unat (i AND 0xff) AND 0x0000ff00)"
definition TE414 :: "u32 \<Rightarrow> u32" where
  "TE414 i = (drop_bit 8 (Te0 ! unat (drop_bit 24 i AND 0xff)) AND 0x000000ff)"
definition TE411 :: "u32 \<Rightarrow> u32" where
  "TE411 i = (push_bit 8 (Te0 ! unat (drop_bit 24 i AND 0xff)) AND 0xff000000)"
definition TE422 :: "u32 \<Rightarrow> u32" where
  "TE422 i = (Te0 ! unat (drop_bit 16 i AND 0xff) AND 0x00ff0000)"
definition TE433 :: "u32 \<Rightarrow> u32" where
  "TE433 i = (Te0 ! unat (drop_bit 8 i AND 0xff) AND 0x0000ff00)"
definition TE444 :: "u32 \<Rightarrow> u32" where
  "TE444 i = (drop_bit 8 (Te0 ! unat (i AND 0xff)) AND 0x000000ff)"

lemmas TE_round_defs = TE0_def TE1_def TE2_def TE3_def
lemmas TE_last_defs = TE41_def TE42_def TE43_def TE44_def
lemmas TE_key_defs = TE421_def TE432_def TE443_def TE414_def TE411_def TE422_def TE433_def TE444_def

section \<open>Key schedule\<close>

text \<open>One pass of each loop of \<open>rijndaelKeySetupEnc\<close>: \<open>w\<close> holds the words written so far and
  \<open>rk\<close>, the moving pointer, starts at word 4, 6 or 8 times \<open>i\<close>.\<close>

definition keysetup_128_step :: "nat \<Rightarrow> u32 list \<Rightarrow> u32 list" where
  "keysetup_128_step i w =
     (let rk = drop (4 * i) w; temp = rk ! 3;
          rk4 = rk ! 0 XOR TE421 temp XOR TE432 temp XOR TE443 temp XOR TE414 temp XOR RCON i;
          rk5 = rk ! 1 XOR rk4;
          rk6 = rk ! 2 XOR rk5;
          rk7 = rk ! 3 XOR rk6
      in w @ [rk4, rk5, rk6, rk7])"

definition keysetup_192_step :: "nat \<Rightarrow> u32 list \<Rightarrow> u32 list" where
  "keysetup_192_step i w =
     (let rk = drop (6 * i) w; temp = rk ! 5;
          rk6 = rk ! 0 XOR TE421 temp XOR TE432 temp XOR TE443 temp XOR TE414 temp XOR RCON i;
          rk7 = rk ! 1 XOR rk6;
          rk8 = rk ! 2 XOR rk7;
          rk9 = rk ! 3 XOR rk8;
          rk10 = rk ! 4 XOR rk9;
          rk11 = rk ! 5 XOR rk10
      in if i = 7 then w @ [rk6, rk7, rk8, rk9] else w @ [rk6, rk7, rk8, rk9, rk10, rk11])"

definition keysetup_256_step :: "nat \<Rightarrow> u32 list \<Rightarrow> u32 list" where
  "keysetup_256_step i w =
     (let rk = drop (8 * i) w; temp = rk ! 7;
          rk8 = rk ! 0 XOR TE421 temp XOR TE432 temp XOR TE443 temp XOR TE414 temp XOR RCON i;
          rk9 = rk ! 1 XOR rk8;
          rk10 = rk ! 2 XOR rk9;
          rk11 = rk ! 3 XOR rk10;
          temp = rk11;
          rk12 = rk ! 4 XOR TE411 temp XOR TE422 temp XOR TE433 temp XOR TE444 temp;
          rk13 = rk ! 5 XOR rk12;
          rk14 = rk ! 6 XOR rk13;
          rk15 = rk ! 7 XOR rk14
      in if i = 6 then w @ [rk8, rk9, rk10, rk11]
         else w @ [rk8, rk9, rk10, rk11, rk12, rk13, rk14, rk15])"

definition rijndaelKeySetupEnc :: "bytes \<Rightarrow> nat \<Rightarrow> u32 list \<times> int" where
  "rijndaelKeySetupEnc cipherKey keyBits =
     (let rk = [GETU32 cipherKey, GETU32 (drop 4 cipherKey),
                GETU32 (drop 8 cipherKey), GETU32 (drop 12 cipherKey)]
      in if keyBits = 128 then (fold keysetup_128_step [0..<10] rk, 10)
         else let rk = rk @ [GETU32 (drop 16 cipherKey), GETU32 (drop 20 cipherKey)]
         in if keyBits = 192 then (fold keysetup_192_step [0..<8] rk, 12)
         else let rk = rk @ [GETU32 (drop 24 cipherKey), GETU32 (drop 28 cipherKey)]
         in if keyBits = 256 then (fold keysetup_256_step [0..<7] rk, 14)
         else (rk, - 1))"

section \<open>Encryption\<close>

type_synonym aes_state = "u32 \<times> u32 \<times> u32 \<times> u32"

text \<open>\<open>AES_ROUND rk s\<close> is the macro \<open>ROUND(i, d, s)\<close> with \<open>rk\<close> advanced by \<open>4 * i\<close>.\<close>

fun AES_ROUND :: "u32 list \<Rightarrow> aes_state \<Rightarrow> aes_state" where
  "AES_ROUND rk (s0, s1, s2, s3) =
     (TE0 s0 XOR TE1 s1 XOR TE2 s2 XOR TE3 s3 XOR rk ! 0,
      TE0 s1 XOR TE1 s2 XOR TE2 s3 XOR TE3 s0 XOR rk ! 1,
      TE0 s2 XOR TE1 s3 XOR TE2 s0 XOR TE3 s1 XOR rk ! 2,
      TE0 s3 XOR TE1 s0 XOR TE2 s1 XOR TE3 s2 XOR rk ! 3)"

text \<open>The loop of \<open>Nr - 1\<close> full rounds; it breaks when the decremented \<open>r\<close> reaches 0.\<close>

fun enc_rounds :: "nat \<Rightarrow> u32 list \<Rightarrow> aes_state \<Rightarrow> aes_state \<times> u32 list" where
  "enc_rounds r rk s =
     (let t = AES_ROUND (drop 4 rk) s; rk = drop 8 rk
      in if r \<le> 1 then (t, rk) else enc_rounds (r - 1) rk (AES_ROUND rk t))"

declare enc_rounds.simps [simp del]

fun AES_LAST_ROUND :: "u32 list \<Rightarrow> aes_state \<Rightarrow> bytes" where
  "AES_LAST_ROUND rk (t0, t1, t2, t3) =
     PUTU32 (TE41 t0 XOR TE42 t1 XOR TE43 t2 XOR TE44 t3 XOR rk ! 0) @
     PUTU32 (TE41 t1 XOR TE42 t2 XOR TE43 t3 XOR TE44 t0 XOR rk ! 1) @
     PUTU32 (TE41 t2 XOR TE42 t3 XOR TE43 t0 XOR TE44 t1 XOR rk ! 2) @
     PUTU32 (TE41 t3 XOR TE42 t0 XOR TE43 t1 XOR TE44 t2 XOR rk ! 3)"

definition rijndaelEncrypt :: "u32 list \<Rightarrow> nat \<Rightarrow> bytes \<Rightarrow> bytes" where
  "rijndaelEncrypt rk Nr pt =
     (let s = (GETU32 pt XOR rk ! 0, GETU32 (drop 4 pt) XOR rk ! 1,
               GETU32 (drop 8 pt) XOR rk ! 2, GETU32 (drop 12 pt) XOR rk ! 3);
          (t, rk) = enc_rounds (Nr div 2) rk s
      in AES_LAST_ROUND rk t)"

record aes_ctx =
  ctx_rk :: "u32 list"
  ctx_nr :: nat

definition AES_PRIV_SIZE :: nat where
  "AES_PRIV_SIZE = 4 * 4 * 15 + 4"

definition aes_encrypt_init :: "(nat \<Rightarrow> bool) \<Rightarrow> bytes \<Rightarrow> aes_ctx option" where
  "aes_encrypt_init alloc key =
     (if \<not> alloc AES_PRIV_SIZE then None
      else let (rk, res) = rijndaelKeySetupEnc key (length key * 8)
      in if res < 0 then None else Some \<lparr>ctx_rk = rk, ctx_nr = nat res\<rparr>)"

definition wpa_aes_encrypt :: "aes_ctx \<Rightarrow> bytes \<Rightarrow> bytes" where
  "wpa_aes_encrypt ctx plain = rijndaelEncrypt (ctx_rk ctx) (ctx_nr ctx) plain"

section \<open>FIPS-197\<close>

text \<open>
  The reference reads no table and uses no macro of the code: bytes are substituted by
  \<open>fips_sbox\<close>, which is the affine map after inversion in \<open>GF(2^8)\<close>, columns are mixed with
  \<open>gmul\<close>, and words are put together from bytes by \<open>be_word\<close> and \<open>be_bytes\<close>.
\<close>

definition sub_bytes :: "bytes \<Rightarrow> bytes" where
  "sub_bytes s = map fips_sbox s"

text \<open>The state is stored column by column: byte \<open>r + 4 c\<close> is row \<open>r\<close> of column \<open>c\<close>.\<close>

definition shift_rows :: "bytes \<Rightarrow> bytes" where
  "shift_rows s = map (\<lambda>i. s ! ((i + 4 * (i mod 4)) mod 16)) [0..<16]"

fun mix_columns :: "bytes \<Rightarrow> bytes" where
  "mix_columns (a # b # c # d # s) =
     (gmul 2 a XOR gmul 3 b XOR c XOR d) # (a XOR gmul 2 b XOR gmul 3 c XOR d) #
     (a XOR b XOR gmul 2 c XOR gmul 3 d) # (gmul 3 a XOR b XOR c XOR gmul 2 d) # mix_columns s"
| "mix_columns s = s"

definition fips_round :: "bytes \<Rightarrow> bytes \<Rightarrow> bytes" where
  "fips_round k s = xor_bytes (mix_columns (shift_rows (sub_bytes s))) k"

definition fips_final :: "bytes \<Rightarrow> bytes \<Rightarrow> bytes" where
  "fips_final k s = xor_bytes (shift_rows (sub_bytes s)) k"

text \<open>Bytes of the round key \<open>i\<close> of a schedule.\<close>

definition round_key :: "u32 list \<Rightarrow> nat \<Rightarrow> bytes" where
  "round_key w i = be_bytes 4 (w ! (4 * i)) @ be_bytes 4 (w ! (4 * i + 1)) @
     be_bytes 4 (w ! (4 * i + 2)) @ be_bytes 4 (w ! (4 * i + 3))"

definition fips_cipher :: "u32 list \<Rightarrow> nat \<Rightarrow> bytes \<Rightarrow> bytes" where
  "fips_cipher w Nr pt =
     fips_final (round_key w Nr)
       (foldl (\<lambda>s i. fips_round (round_key w i) s) (xor_bytes pt (round_key w 0)) [1..<Nr])"

definition sub_word :: "u32 \<Rightarrow> u32" where
  "sub_word v = be_word (sub_bytes (be_bytes 4 v))"

definition rot_word :: "u32 \<Rightarrow> u32" where
  "rot_word v = be_word (rotate 1 (be_bytes 4 v))"

definition fips_rcon :: "nat \<Rightarrow> u32" where
  "fips_rcon i = be_word [(xtime ^^ (i - 1)) 1, 0, 0, 0]"

definition fips_key_word :: "nat \<Rightarrow> u32 list \<Rightarrow> nat \<Rightarrow> u32" where
  "fips_key_word Nk w i =
     (let temp = w ! (i - 1);
          temp = (if i mod Nk = 0 then sub_word (rot_word temp) XOR fips_rcon (i div Nk)
                  else if 6 < Nk \<and> i mod Nk = 4 then sub_word temp else temp)
      in w ! (i - Nk) XOR temp)"

definition fips_schedule :: "nat \<Rightarrow> bytes \<Rightarrow> u32 list \<Rightarrow> bool" where
  "fips_schedule Nk key w \<longleftrightarrow>
     (\<forall>i < Nk. w ! i = be_word (take 4 (drop (4 * i) key))) \<and>
     (\<forall>i. Nk \<le> i \<and> i < length w \<longrightarrow> w ! i = fips_key_word Nk w i)"

section \<open>Words and their bytes\<close>

lemma unat_and_0xff: "unat (v AND 0xff :: u32) = unat (ucast v :: u8)"
  by (simp add: and_0xff unsigned_ucast_eq unsigned_take_bit_eq)

lemma u32_masks:
  "(0xff000000 :: u32) = push_bit 24 (mask 8)" "(0x00ff0000 :: u32) = push_bit 16 (mask 8)"
  "(0x0000ff00 :: u32) = push_bit 8 (mask 8)"
  by (simp_all add: mask_eq_exp_minus_1)

lemma GETU32_bytes [simp]:
  "ucast (drop_bit 24 (GETU32 [a, b, c, d])) = a"
  "ucast (drop_bit 16 (GETU32 [a, b, c, d])) = b"
  "ucast (drop_bit 8 (GETU32 [a, b, c, d])) = c"
  "ucast (GETU32 [a, b, c, d]) = d"
  by (auto intro!: word_eqI_bits simp: GETU32_def word_bits)

lemma PUTU32_GETU32 [simp]: "PUTU32 (GETU32 [a, b, c, d]) = [a, b, c, d]"
  by (simp add: PUTU32_def)

lemma PUTU32_be: "be_bytes 4 v = PUTU32 v"
  by (simp add: be_bytes_def PUTU32_def upt_rec)

lemma GETU32_be: "be_word [a, b, c, d] = GETU32 [a, b, c, d]"
  by (rule word_eqI_bits, erule u32_byte_cases, auto simp: be_word_def GETU32_def word_bits)

lemma GETU32_take:
  assumes "4 \<le> length bs"
  shows "be_word (take 4 bs) = GETU32 bs"
proof -
  have "take 4 bs = [bs ! 0, bs ! 1, bs ! 2, bs ! 3]"
    using assms by (intro nth_equalityI) (auto simp: less_Suc_eq eval_nat_numeral)
  then show ?thesis by (simp only: GETU32_be) (simp add: GETU32_def)
qed

lemma sub_bytes_eq: "sub_bytes s = map aes_sbox s"
  by (simp add: sub_bytes_def aes_sbox_is_fips197)

lemma round_key_eq:
  "round_key w i = PUTU32 (w ! (4 * i)) @ PUTU32 (w ! (4 * i + 1)) @ PUTU32 (w ! (4 * i + 2)) @ PUTU32 (w ! (4 * i + 3))"
  by (simp only: round_key_def PUTU32_be)

lemma word_steps_eq:
  "sub_word (GETU32 [a, b, c, d]) = GETU32 [aes_sbox a, aes_sbox b, aes_sbox c, aes_sbox d]"
  "rot_word (GETU32 [a, b, c, d]) = GETU32 [b, c, d, a]"
  by (simp_all add: sub_word_def rot_word_def PUTU32_be sub_bytes_eq GETU32_be)

lemma GETU32_PUTU32 [simp]: "GETU32 (PUTU32 v @ xs) = v" "GETU32 (PUTU32 v) = v"
  by (rule word_eqI_bits; erule u32_byte_cases; auto simp: PUTU32_def GETU32_def word_bits)+

lemma GETU32_Cons: "GETU32 (a # b # c # d # e # xs) = GETU32 [a, b, c, d]"
  by (simp add: GETU32_def)

lemma length_PUTU32 [simp, buf_len]: "length (PUTU32 v) = 4"
  by (simp add: PUTU32_def)

lemma GETU32_xor:
  "GETU32 [a, b, c, d] XOR GETU32 [a', b', c', d'] = GETU32 [a XOR a', b XOR b', c XOR c', d XOR d']"
  by (rule word_eqI_bits, erule u32_byte_cases, auto simp: GETU32_def word_bits)

lemma GETU32_masks:
  "push_bit 8 (GETU32 [a, b, c, d]) AND 0xff000000 = GETU32 [b, 0, 0, 0]"
  "GETU32 [a, b, c, d] AND 0x00ff0000 = GETU32 [0, b, 0, 0]"
  "GETU32 [a, b, c, d] AND 0x0000ff00 = GETU32 [0, 0, c, 0]"
  "drop_bit 8 (GETU32 [a, b, c, d]) AND 0x000000ff = GETU32 [0, 0, 0, c]"
  unfolding u32_masks
  by (rule word_eqI_bits; erule u32_byte_cases; auto simp: GETU32_def word_bits)+

lemma u32_exhaust:
  obtains a b c d where "(v :: u32) = GETU32 [a, b, c, d]"
  using GETU32_PUTU32(2) [of v, symmetric] by (auto simp: PUTU32_def)

lemma Te0_byte: "Te0 ! unat x = GETU32 [gmul 2 (aes_sbox x), aes_sbox x, aes_sbox x, gmul 3 (aes_sbox x)]"
  by (simp add: Te0_column gf_column_def)

lemma TE_round:
  "TE0 (GETU32 [a, b, c, d]) = GETU32 [gmul 2 (aes_sbox a), aes_sbox a, aes_sbox a, gmul 3 (aes_sbox a)]"
  "TE1 (GETU32 [a, b, c, d]) = GETU32 [gmul 3 (aes_sbox b), gmul 2 (aes_sbox b), aes_sbox b, aes_sbox b]"
  "TE2 (GETU32 [a, b, c, d]) = GETU32 [aes_sbox c, gmul 3 (aes_sbox c), gmul 2 (aes_sbox c), aes_sbox c]"
  "TE3 (GETU32 [a, b, c, d]) = GETU32 [aes_sbox d, aes_sbox d, gmul 3 (aes_sbox d), gmul 2 (aes_sbox d)]"
  by (simp_all add: TE_round_defs unat_and_0xff Te0_byte GETU32_rotr)

lemma TE_last:
  "TE41 (GETU32 [a, b, c, d]) = GETU32 [aes_sbox a, 0, 0, 0]"
  "TE42 (GETU32 [a, b, c, d]) = GETU32 [0, aes_sbox b, 0, 0]"
  "TE43 (GETU32 [a, b, c, d]) = GETU32 [0, 0, aes_sbox c, 0]"
  "TE44 (GETU32 [a, b, c, d]) = GETU32 [0, 0, 0, aes_sbox d]"
  unfolding TE_last_defs unat_and_0xff by (simp_all add: Te0_byte GETU32_masks)

lemma TE_key:
  "TE421 (GETU32 [a, b, c, d]) = GETU32 [aes_sbox b, 0, 0, 0]"
  "TE432 (GETU32 [a, b, c, d]) = GETU32 [0, aes_sbox c, 0, 0]"
  "TE443 (GETU32 [a, b, c, d]) = GETU32 [0, 0, aes_sbox d, 0]"
  "TE414 (GETU32 [a, b, c, d]) = GETU32 [0, 0, 0, aes_sbox a]"
  "TE411 (GETU32 [a, b, c, d]) = GETU32 [aes_sbox a, 0, 0, 0]"
  "TE422 (GETU32 [a, b, c, d]) = GETU32 [0, aes_sbox b, 0, 0]"
  "TE433 (GETU32 [a, b, c, d]) = GETU32 [0, 0, aes_sbox c, 0]"
  "TE444 (GETU32 [a, b, c, d]) = GETU32 [0, 0, 0, aes_sbox d]"
  unfolding TE_key_defs unat_and_0xff by (simp_all add: Te0_byte GETU32_masks)

section \<open>Encryption refines FIPS-197\<close>

fun state_bytes :: "aes_state \<Rightarrow> bytes" where
  "state_bytes (s0, s1, s2, s3) = PUTU32 s0 @ PUTU32 s1 @ PUTU32 s2 @ PUTU32 s3"

lemma shift_rows_16:
  "shift_rows [a0, a1, a2, a3, b0, b1, b2, b3, c0, c1, c2, c3, d0, d1, d2, d3] =
     [a0, b1, c2, d3, b0, c1, d2, a3, c0, d1, a2, b3, d0, a1, b2, c3]"
  by (simp add: shift_rows_def upt_rec)

lemma round_key_0:
  "round_key rk 0 = PUTU32 (rk ! 0) @ PUTU32 (rk ! 1) @ PUTU32 (rk ! 2) @ PUTU32 (rk ! 3)"
  by (simp add: round_key_eq numeral_2_eq_2)

lemma round_key_drop: "4 * i \<le> length w \<Longrightarrow> round_key (drop (4 * i) w) 0 = round_key w i"
  unfolding round_key_0 by (simp add: round_key_eq)

lemma length_round_key [simp, buf_len]: "length (round_key w i) = 16"
  by (simp add: round_key_eq)

lemma AES_ROUND_fips:
  "state_bytes (AES_ROUND rk s) = fips_round (round_key rk 0) (state_bytes s)"
proof -
  obtain s0 s1 s2 s3 where s: "s = (s0, s1, s2, s3)" by (cases s) auto
  obtain a0 a1 a2 a3 where 0: "s0 = GETU32 [a0, a1, a2, a3]" by (rule u32_exhaust)
  obtain b0 b1 b2 b3 where 1: "s1 = GETU32 [b0, b1, b2, b3]" by (rule u32_exhaust)
  obtain c0 c1 c2 c3 where 2: "s2 = GETU32 [c0, c1, c2, c3]" by (rule u32_exhaust)
  obtain d0 d1 d2 d3 where 3: "s3 = GETU32 [d0, d1, d2, d3]" by (rule u32_exhaust)
  obtain k0 k1 k2 k3 where k0: "rk ! 0 = GETU32 [k0, k1, k2, k3]" by (rule u32_exhaust)
  obtain l0 l1 l2 l3 where k1: "rk ! 1 = GETU32 [l0, l1, l2, l3]" by (rule u32_exhaust)
  obtain m0 m1 m2 m3 where k2: "rk ! 2 = GETU32 [m0, m1, m2, m3]" by (rule u32_exhaust)
  obtain n0 n1 n2 n3 where k3: "rk ! 3 = GETU32 [n0, n1, n2, n3]" by (rule u32_exhaust)
  show ?thesis
    unfolding s 0 1 2 3 AES_ROUND.simps k0 k1 k2 k3 state_bytes.simps TE_round GETU32_xor
      PUTU32_GETU32 round_key_0 fips_round_def
    by (simp add: sub_bytes_eq shift_rows_16 ac_simps)
qed

lemma AES_LAST_ROUND_fips:
  "AES_LAST_ROUND rk t = fips_final (round_key rk 0) (state_bytes t)"
proof -
  obtain t0 t1 t2 t3 where t: "t = (t0, t1, t2, t3)" by (cases t) auto
  obtain a0 a1 a2 a3 where 0: "t0 = GETU32 [a0, a1, a2, a3]" by (rule u32_exhaust)
  obtain b0 b1 b2 b3 where 1: "t1 = GETU32 [b0, b1, b2, b3]" by (rule u32_exhaust)
  obtain c0 c1 c2 c3 where 2: "t2 = GETU32 [c0, c1, c2, c3]" by (rule u32_exhaust)
  obtain d0 d1 d2 d3 where 3: "t3 = GETU32 [d0, d1, d2, d3]" by (rule u32_exhaust)
  obtain k0 k1 k2 k3 where k0: "rk ! 0 = GETU32 [k0, k1, k2, k3]" by (rule u32_exhaust)
  obtain l0 l1 l2 l3 where k1: "rk ! 1 = GETU32 [l0, l1, l2, l3]" by (rule u32_exhaust)
  obtain m0 m1 m2 m3 where k2: "rk ! 2 = GETU32 [m0, m1, m2, m3]" by (rule u32_exhaust)
  obtain n0 n1 n2 n3 where k3: "rk ! 3 = GETU32 [n0, n1, n2, n3]" by (rule u32_exhaust)
  show ?thesis
    unfolding t 0 1 2 3 AES_LAST_ROUND.simps k0 k1 k2 k3 state_bytes.simps TE_last GETU32_xor
      PUTU32_GETU32 round_key_0 fips_final_def
    by (simp add: sub_bytes_eq shift_rows_16 ac_simps)
qed

lemma enc_rounds_fips:
  assumes "1 \<le> r" and "8 * r + 4 \<le> length rk"
  shows "snd (enc_rounds r rk s) = drop (8 * r) rk \<and>
    state_bytes (fst (enc_rounds r rk s)) =
      foldl (\<lambda>s i. fips_round (round_key rk i) s) (state_bytes s) [1..<2 * r]"
  using assms
proof (induction r rk s rule: enc_rounds.induct)
  case (1 r rk s)
  let ?t = "AES_ROUND (drop 4 rk) s"
  have t: "state_bytes ?t = fips_round (round_key rk 1) (state_bytes s)"
    using round_key_drop [of 1 rk] "1.prems" by (simp add: AES_ROUND_fips)
  show ?case
  proof (cases "r \<le> 1")
    case True
    with "1.prems" have "r = 1" by simp
    then show ?thesis using t by (subst (1 2) enc_rounds.simps) (simp add: Let_def upt_rec)
  next
    case False
    let ?u = "AES_ROUND (drop 8 rk) ?t"
    have u: "state_bytes ?u = fips_round (round_key rk 2) (state_bytes ?t)"
      using round_key_drop [of 2 rk] "1.prems" by (simp add: AES_ROUND_fips)
    have eq: "enc_rounds r rk s = enc_rounds (r - 1) (drop 8 rk) ?u"
      using False by (subst enc_rounds.simps) (simp add: Let_def)
    have IH: "snd (enc_rounds (r - 1) (drop 8 rk) ?u) = drop (8 * (r - 1)) (drop 8 rk) \<and>
      state_bytes (fst (enc_rounds (r - 1) (drop 8 rk) ?u)) =
        foldl (\<lambda>s i. fips_round (round_key (drop 8 rk) i) s) (state_bytes ?u) [1..<2 * (r - 1)]"
      using False "1.prems" by (intro "1.IH") auto
    have shift: "round_key (drop 8 rk) i = round_key rk (i + 2)" for i
      using "1.prems" by (simp add: round_key_eq ac_simps)
    have "foldl (\<lambda>s i. fips_round (round_key (drop 8 rk) i) s) (state_bytes ?u) [1..<2 * (r - 1)] =
      foldl (\<lambda>s i. fips_round (round_key rk i) s) (state_bytes ?u)
        (map (\<lambda>i. i + 2) [1..<2 * (r - 1)])"
      by (simp add: foldl_map shift)
    also have "map (\<lambda>i. i + 2) [1..<2 * (r - 1)] = [3..<2 * r]"
      by (rule nth_equalityI) (use False in auto)
    finally have "state_bytes (fst (enc_rounds r rk s)) =
      foldl (\<lambda>s i. fips_round (round_key rk i) s) (state_bytes ?u) [3..<2 * r]"
      using IH eq by simp
    moreover have "[1..<2 * r] = 1 # 2 # [3..<2 * r]"
      using False by (simp add: upt_conv_Cons numeral_2_eq_2 numeral_3_eq_3)
    moreover have "drop (8 * (r - 1)) (drop 8 rk) = drop (8 * r) rk"
      using False by (simp add: algebra_simps)
    ultimately show ?thesis using IH eq t u by simp
  qed
qed

lemma xor_PUTU32: "xor_bytes (PUTU32 a) (PUTU32 b) = PUTU32 (a XOR b)"
  by (auto simp: PUTU32_def intro!: word_eqI_bits simp: word_bits)

lemma initial_state:
  assumes "length pt = 16"
  shows "state_bytes (GETU32 pt XOR rk ! 0, GETU32 (drop 4 pt) XOR rk ! 1,
    GETU32 (drop 8 pt) XOR rk ! 2, GETU32 (drop 12 pt) XOR rk ! 3) = xor_bytes pt (round_key rk 0)"
proof -
  obtain a b c d where "GETU32 pt = a" "GETU32 (drop 4 pt) = b" "GETU32 (drop 8 pt) = c"
    "GETU32 (drop 12 pt) = d" by blast
  moreover have "pt = PUTU32 (GETU32 pt) @ PUTU32 (GETU32 (drop 4 pt)) @
      PUTU32 (GETU32 (drop 8 pt)) @ PUTU32 (GETU32 (drop 12 pt))"
    using assms by (auto elim!: length_16E simp: GETU32_Cons)
  ultimately have "pt = PUTU32 a @ PUTU32 b @ PUTU32 c @ PUTU32 d" by simp
  then show ?thesis
    by (simp add: round_key_0 xor_bytes_append xor_PUTU32)
qed

lemma rijndaelEncrypt_fips:
  assumes "length pt = 16" and "even Nr" and "2 \<le> Nr" and "length rk = 4 * (Nr + 1)"
  shows "rijndaelEncrypt rk Nr pt = fips_cipher rk Nr pt"
proof -
  let ?r = "Nr div 2"
  have r: "1 \<le> ?r" "8 * ?r + 4 \<le> length rk" "2 * ?r = Nr" using assms by auto
  have last: "round_key (drop (8 * ?r) rk) 0 = round_key rk Nr"
  proof -
    have "8 * ?r = 4 * Nr" using r(3) by simp
    moreover have "4 * Nr \<le> length rk" using assms(4) by simp
    ultimately show ?thesis using round_key_drop [of Nr rk] by (simp only:)
  qed
  show ?thesis
    using enc_rounds_fips [OF r(1,2)] initial_state [OF assms(1)] r(3)
    by (simp add: rijndaelEncrypt_def fips_cipher_def Let_def case_prod_beta AES_LAST_ROUND_fips last)
qed

section \<open>The key schedule refines FIPS-197\<close>

lemma sub_rot_word:
  "TE421 v XOR TE432 v XOR TE443 v XOR TE414 v = sub_word (rot_word v)"
proof (rule u32_exhaust [of v])
  fix a b c d assume "v = GETU32 [a, b, c, d]"
  then show ?thesis
    by (simp add: TE_key GETU32_xor word_steps_eq)
qed

lemma sub_word_TE: "TE411 v XOR TE422 v XOR TE433 v XOR TE444 v = sub_word v"
proof (rule u32_exhaust [of v])
  fix a b c d assume "v = GETU32 [a, b, c, d]"
  then show ?thesis by (simp add: TE_key GETU32_xor word_steps_eq)
qed

lemma rcons_xtime: "i < 9 \<Longrightarrow> rcons ! Suc i = xtime (rcons ! i)"
proof -
  assume "i < 9"
  then have "i \<in> {0, 1, 2, 3, 4, 5, 6, 7, 8}" by auto
  then show ?thesis by (auto simp: rcons_def xtime_def)
qed

lemma rcons_funpow: "i < 10 \<Longrightarrow> rcons ! i = (xtime ^^ i) 1"
proof (induction i)
  case 0
  show ?case by (simp add: rcons_def)
next
  case (Suc i)
  then show ?case by (simp add: rcons_xtime)
qed

lemma RCON_fips: "i < 10 \<Longrightarrow> RCON i = fips_rcon (Suc i)"
  by (simp add: RCON_def fips_rcon_def GETU32_be GETU32_def rcons_funpow)

text \<open>A schedule stays one when a block of words that satisfies the recurrence is appended.\<close>

lemma fips_key_word_append: "0 < i \<Longrightarrow> i < length w \<Longrightarrow> fips_key_word Nk (w @ ys) i = fips_key_word Nk w i"
  by (simp add: fips_key_word_def nth_append less_imp_diff_less)

lemma fips_schedule_append:
  assumes "fips_schedule Nk key w" and "0 < Nk" and "Nk \<le> length w"
    and "\<And>j. j < length ys \<Longrightarrow> ys ! j = fips_key_word Nk (w @ ys) (length w + j)"
  shows "fips_schedule Nk key (w @ ys)"
  unfolding fips_schedule_def
proof (intro conjI allI impI)
  fix i assume "i < Nk"
  then show "(w @ ys) ! i = be_word (take 4 (drop (4 * i) key))"
    using assms(1,3) by (simp add: fips_schedule_def nth_append)
next
  fix i assume i: "Nk \<le> i \<and> i < length (w @ ys)"
  show "(w @ ys) ! i = fips_key_word Nk (w @ ys) i"
  proof (cases "i < length w")
    case True
    then show ?thesis
      using i assms(1,2) by (simp add: fips_schedule_def nth_append fips_key_word_append)
  next
    case False
    then have "i - length w < length ys" using i by auto
    then show ?thesis
      using False assms(4) [of "i - length w"] by (simp add: nth_append)
  qed
qed

lemma fips_schedule_block:
  assumes "fips_schedule Nk key w" and len: "length w = Nk * i + Nk" and Nk: "4 \<le> Nk"
    and ys: "length ys \<le> Nk" "ys \<noteq> []"
    and first: "ys ! 0 = w ! (Nk * i) XOR sub_word (rot_word (w ! (Nk * i + (Nk - 1)))) XOR fips_rcon (Suc i)"
    and "next": "\<And>j. 1 \<le> j \<Longrightarrow> j < length ys \<Longrightarrow> ys ! j = w ! (Nk * i + j) XOR
       (if 6 < Nk \<and> j = 4 then sub_word (ys ! (j - 1)) else ys ! (j - 1))"
  shows "fips_schedule Nk key (w @ ys)"
proof (rule fips_schedule_append)
  fix j assume j: "j < length ys"
  have "length w + j = Nk * Suc i + j" using len by simp
  then have m: "(length w + j) mod Nk = j" "(length w + j) - Nk = Nk * i + j"
    using j ys(1) by (simp_all only: mod_mult_self4) simp_all
  have q: "length w div Nk = Suc i" using len Nk by simp
  show "ys ! j = fips_key_word Nk (w @ ys) (length w + j)"
  proof (cases "j = 0")
    case True
    have "length w - 1 = Nk * i + (Nk - 1)" using len Nk by simp
    then show ?thesis
      using True m q first len Nk by (simp add: fips_key_word_def nth_append ac_simps)
  next
    case False
    then have "\<not> length w + j - 1 < length w" "length w + j - 1 - length w = j - 1" by auto
    moreover have "j < Nk" using j ys(1) by simp
    ultimately show ?thesis
      using False "next" [of j] j m len Nk by (simp add: fips_key_word_def nth_append Let_def)
  qed
qed (use assms in auto)

lemma key_round_words:
  "x XOR TE421 v XOR TE432 v XOR TE443 v XOR TE414 v XOR y = x XOR sub_word (rot_word v) XOR y"
  "x XOR TE411 v XOR TE422 v XOR TE433 v XOR TE444 v = x XOR sub_word v"
  unfolding sub_rot_word [symmetric] by (simp_all add: sub_word_TE [symmetric] ac_simps)

lemma nat_less_cases:
  "1 \<le> j \<Longrightarrow> j < (4 :: nat) \<Longrightarrow> j = 1 \<or> j = 2 \<or> j = 3"
  "1 \<le> j \<Longrightarrow> j < (6 :: nat) \<Longrightarrow> j = 1 \<or> j = 2 \<or> j = 3 \<or> j = 4 \<or> j = 5"
  "1 \<le> j \<Longrightarrow> j < (8 :: nat) \<Longrightarrow> j = 1 \<or> j = 2 \<or> j = 3 \<or> j = 4 \<or> j = 5 \<or> j = 6 \<or> j = 7"
  by auto

lemma keysetup_128_step_fips:
  assumes "fips_schedule 4 key w" and "length w = 4 * i + 4" and "i < 10"
  shows "fips_schedule 4 key (keysetup_128_step i w) \<and>
         length (keysetup_128_step i w) = 4 * Suc i + 4"
  using assms unfolding keysetup_128_step_def Let_def key_round_words
  by (auto intro!: fips_schedule_block [where i = i] dest!: nat_less_cases simp: RCON_fips)

lemma keysetup_192_step_fips:
  assumes "fips_schedule 6 key w" and "length w = 6 * i + 6" and "i < 8"
  shows "fips_schedule 6 key (keysetup_192_step i w)"
    and "length (keysetup_192_step i w) = 6 * i + (if i = 7 then 10 else 12)"
  using assms unfolding keysetup_192_step_def Let_def key_round_words if_distrib [of "fips_schedule 6 key"]
  by (auto intro!: fips_schedule_block [where i = i] dest!: nat_less_cases simp: RCON_fips)

lemma keysetup_256_step_fips:
  assumes "fips_schedule 8 key w" and "length w = 8 * i + 8" and "i < 7"
  shows "fips_schedule 8 key (keysetup_256_step i w)"
    and "length (keysetup_256_step i w) = 8 * i + (if i = 6 then 12 else 16)"
  using assms unfolding keysetup_256_step_def Let_def key_round_words if_distrib [of "fips_schedule 8 key"]
  by (auto intro!: fips_schedule_block [where i = i] dest!: nat_less_cases simp: RCON_fips)

lemma fips_schedule_init:
  "length key = 4 * Nk \<Longrightarrow> length w = Nk \<Longrightarrow> (\<And>i. i < Nk \<Longrightarrow> w ! i = GETU32 (drop (4 * i) key)) \<Longrightarrow> fips_schedule Nk key w"
  by (auto simp: fips_schedule_def GETU32_take)

text \<open>Running a loop of steps from a schedule of \<open>Nk\<close> words.\<close>

lemma fold_schedule:
  assumes "fips_schedule Nk key w" and "length w = Nk"
    and "\<And>i w. i < n \<Longrightarrow> fips_schedule Nk key w \<Longrightarrow> length w = Nk * i + Nk \<Longrightarrow>
       fips_schedule Nk key (f i w) \<and> length (f i w) = Nk * Suc i + Nk"
  shows "fips_schedule Nk key (fold f [0..<n] w) \<and> length (fold f [0..<n] w) = Nk * n + Nk"
  using assms(3)
proof (induction n)
  case 0
  show ?case using assms(1,2) by simp
next
  case (Suc n)
  then show ?case by (simp add: less_SucI)
qed

lemma keysetup_128_fips:
  assumes "length key = 16"
  shows "snd (rijndaelKeySetupEnc key 128) = 10 \<and>
         length (fst (rijndaelKeySetupEnc key 128)) = 44 \<and>
         fips_schedule 4 key (fst (rijndaelKeySetupEnc key 128))"
proof -
  let ?w = "[GETU32 key, GETU32 (drop 4 key), GETU32 (drop 8 key), GETU32 (drop 12 key)]"
  have init: "fips_schedule 4 key ?w"
    by (rule fips_schedule_init) (use assms in \<open>auto simp: less_Suc_eq eval_nat_numeral\<close>)
  show ?thesis
    using fold_schedule [OF init, of 10 keysetup_128_step] keysetup_128_step_fips
    by (simp add: rijndaelKeySetupEnc_def Let_def)
qed

lemma keysetup_192_fips:
  assumes "length key = 24"
  shows "snd (rijndaelKeySetupEnc key 192) = 12 \<and>
         length (fst (rijndaelKeySetupEnc key 192)) = 52 \<and>
         fips_schedule 6 key (fst (rijndaelKeySetupEnc key 192))"
proof -
  let ?w = "[GETU32 key, GETU32 (drop 4 key), GETU32 (drop 8 key), GETU32 (drop 12 key),
    GETU32 (drop 16 key), GETU32 (drop 20 key)]"
  have init: "fips_schedule 6 key ?w"
    by (rule fips_schedule_init) (use assms in \<open>auto simp: less_Suc_eq eval_nat_numeral\<close>)
  let ?v = "fold keysetup_192_step [0..<7] ?w"
  have v: "fips_schedule 6 key ?v" "length ?v = 48"
    using fold_schedule [OF init, of 7 keysetup_192_step] keysetup_192_step_fips by auto
  have "fold keysetup_192_step [0..<8] ?w = keysetup_192_step 7 ?v"
    using upt_Suc_append [of 0 7] by simp
  then show ?thesis
    using keysetup_192_step_fips [OF v(1), of 7] v(2)
    by (simp add: rijndaelKeySetupEnc_def Let_def)
qed

lemma keysetup_256_fips:
  assumes "length key = 32"
  shows "snd (rijndaelKeySetupEnc key 256) = 14 \<and>
         length (fst (rijndaelKeySetupEnc key 256)) = 60 \<and>
         fips_schedule 8 key (fst (rijndaelKeySetupEnc key 256))"
proof -
  let ?w = "[GETU32 key, GETU32 (drop 4 key), GETU32 (drop 8 key), GETU32 (drop 12 key),
    GETU32 (drop 16 key), GETU32 (drop 20 key), GETU32 (drop 24 key), GETU32 (drop 28 key)]"
  have init: "fips_schedule 8 key ?w"
    by (rule fips_schedule_init) (use assms in \<open>auto simp: less_Suc_eq eval_nat_numeral\<close>)
  let ?v = "fold keysetup_256_step [0..<6] ?w"
  have v: "fips_schedule 8 key ?v" "length ?v = 56"
    using fold_schedule [OF init, of 6 keysetup_256_step] keysetup_256_step_fips by auto
  have "fold keysetup_256_step [0..<7] ?w = keysetup_256_step 6 ?v"
    using upt_Suc_append [of 0 6] by simp
  then show ?thesis
    using keysetup_256_step_fips [OF v(1), of 6] v(2)
    by (simp add: rijndaelKeySetupEnc_def Let_def)
qed

section \<open>The block cipher as its clients use it\<close>

lemma length_AES_LAST_ROUND [simp]: "length (AES_LAST_ROUND rk t) = 16"
  by (cases t) simp

lemma length_rijndaelEncrypt [simp, buf_len]: "length (rijndaelEncrypt rk Nr pt) = 16"
  by (simp add: rijndaelEncrypt_def Let_def case_prod_beta)

lemma length_wpa_aes_encrypt [simp, buf_len]: "length (wpa_aes_encrypt ctx pt) = 16"
  by (simp add: wpa_aes_encrypt_def)

text \<open>A context that the driver can hold: a FIPS-197 schedule for the key it was made from.\<close>

definition aes_ctx_for :: "bytes \<Rightarrow> aes_ctx \<Rightarrow> bool" where
  "aes_ctx_for key ctx \<longleftrightarrow> length key \<in> {16, 24, 32} \<and>
     ctx_nr ctx = length key div 4 + 6 \<and>
     length (ctx_rk ctx) = 4 * (ctx_nr ctx + 1) \<and>
     fips_schedule (length key div 4) key (ctx_rk ctx)"

lemma aes_encrypt_init_None_iff:
  "aes_encrypt_init alloc key = None \<longleftrightarrow> \<not> alloc AES_PRIV_SIZE \<or> length key \<notin> {16, 24, 32}"
  by (auto simp: aes_encrypt_init_def rijndaelKeySetupEnc_def Let_def split: if_splits)

lemma aes_encrypt_init_ctx:
  assumes "aes_encrypt_init alloc key = Some ctx"
  shows "aes_ctx_for key ctx"
proof -
  have len: "length key \<in> {16, 24, 32}" using assms aes_encrypt_init_None_iff [of alloc key] by auto
  have ctx: "ctx = \<lparr>ctx_rk = fst (rijndaelKeySetupEnc key (length key * 8)),
      ctx_nr = nat (snd (rijndaelKeySetupEnc key (length key * 8)))\<rparr>"
    using assms by (auto simp: aes_encrypt_init_def Let_def case_prod_beta split: if_splits)
  from len show ?thesis
    using keysetup_128_fips keysetup_192_fips keysetup_256_fips
    by (auto simp: aes_ctx_for_def ctx)
qed

lemma wpa_aes_encrypt_fips:
  assumes "aes_ctx_for key ctx" and "length pt = 16"
  shows "wpa_aes_encrypt ctx pt = fips_cipher (ctx_rk ctx) (ctx_nr ctx) pt"
  using assms by (auto simp: aes_ctx_for_def wpa_aes_encrypt_def intro!: rijndaelEncrypt_fips)

section \<open>Properties\<close>

text \<open>C1. Encryption refines FIPS-197: whenever \<open>aes_encrypt_init\<close> returns a context for a key,
  \<open>wpa_aes_encrypt\<close> with that context is the FIPS-197 cipher (SubBytes, ShiftRows, MixColumns,
  AddRoundKey on the 16-byte state) with 10, 12 or 14 rounds, and the round keys satisfy the
  FIPS-197 key expansion recurrence for that key.\<close>

theorem aes_encrypt_refines_fips197:
  assumes "aes_encrypt_init alloc key = Some ctx" and "length pt = 16"
  shows "wpa_aes_encrypt ctx pt = fips_cipher (ctx_rk ctx) (length key div 4 + 6) pt \<and>
         fips_schedule (length key div 4) key (ctx_rk ctx) \<and>
         length (ctx_rk ctx) = 4 * (length key div 4 + 7)"
  using aes_encrypt_init_ctx [OF assms(1)] wpa_aes_encrypt_fips [OF _ assms(2), of key ctx]
  by (simp add: aes_ctx_for_def)

text \<open>\<open>aes_encrypt_init\<close> returns a context exactly when its allocation of 244 bytes succeeds
  and the key is 16, 24 or 32 bytes long; otherwise it returns the null pointer.\<close>

lemma aes_encrypt_init_succeeds_iff:
  "(\<exists>ctx. aes_encrypt_init alloc key = Some ctx) \<longleftrightarrow> alloc 244 \<and> length key \<in> {16, 24, 32}"
  using aes_encrypt_init_None_iff [of alloc key]
  by (cases "aes_encrypt_init alloc key") (auto simp: AES_PRIV_SIZE_def)

theorem aes_encrypt_refines_fips197_witness:
  "\<exists>ctx. aes_encrypt_init (\<lambda>_. True) (map word_of_nat [0..<16]) = Some ctx \<and>
    wpa_aes_encrypt ctx (replicate 16 0) = fips_cipher (ctx_rk ctx) 10 (replicate 16 0)"
proof -
  obtain ctx where ctx: "aes_encrypt_init (\<lambda>_. True) (map word_of_nat [0..<16]) = Some ctx"
    using aes_encrypt_init_None_iff [of "\<lambda>_. True" "map word_of_nat [0..<16]"] by auto
  show ?thesis using aes_encrypt_refines_fips197 [OF ctx, of "replicate 16 0"] ctx by auto
qed

end
