(* ===== verification/Block_Modes.thy ===== *)
theory Block_Modes
  imports AES
begin

unbundle bit_operations_syntax

text \<open>
  What the modes of operation need of a block cipher, as a locale, and the reference
  constructions the modes are compared with: a key stream of cipher blocks exclusive-ored onto
  the data, the chained MAC over a whole number of blocks, and blocks read as 128-bit integers.
  The cipher of \<open>AES\<close> interprets the locale.
\<close>

section \<open>Blocks\<close>

definition xor_aes_block :: "bytes \<Rightarrow> bytes \<Rightarrow> bytes" where
  "xor_aes_block dst src =
     RTW_PUT_LE32 (RTW_GET_LE32 dst XOR RTW_GET_LE32 src) @
     RTW_PUT_LE32 (RTW_GET_LE32 (drop 4 dst) XOR RTW_GET_LE32 (drop 4 src)) @
     RTW_PUT_LE32 (RTW_GET_LE32 (drop 8 dst) XOR RTW_GET_LE32 (drop 8 src)) @
     RTW_PUT_LE32 (RTW_GET_LE32 (drop 12 dst) XOR RTW_GET_LE32 (drop 12 src)) @ drop 16 dst"

lemma RTW_GET_LE32_Cons: "RTW_GET_LE32 (a # b # c # d # e # xs) = RTW_GET_LE32 [a, b, c, d]"
  by (simp add: RTW_GET_LE32_def)

text \<open>Four 32-bit exclusive-ors are one bytewise exclusive-or of 16 bytes.\<close>

lemma xor_aes_block_bytes:
  assumes "length dst = 16" and "16 \<le> length src"
  shows "xor_aes_block dst src = xor_bytes dst (take 16 src)"
proof -
  have len: "length (take 16 src) = 16" using assms(2) by simp
  obtain a b c d e f g h i j k l m n p q where
    dst: "dst = [a, b, c, d, e, f, g, h, i, j, k, l, m, n, p, q]" by (rule length_16E [OF assms(1)])
  obtain a' b' c' d' e' f' g' h' i' j' k' l' m' n' p' q' where
    src: "take 16 src = [a', b', c', d', e', f', g', h', i', j', k', l', m', n', p', q']"
    by (rule length_16E [OF len])
  have src16: "src = take 16 src @ drop 16 src" by simp
  have get: "RTW_GET_LE32 (drop n src) = RTW_GET_LE32 (drop n (take 16 src))" if "n \<le> 12" for n
    using assms(2) that by (simp add: RTW_GET_LE32_def)
  show ?thesis
    using get [of 0] get [of 4] get [of 8] get [of 12]
    by (simp add: xor_aes_block_def dst src RTW_GET_LE32_Cons RTW_GET_LE32_xor)
qed

section \<open>Key streams\<close>

function stream_xor :: "(nat \<Rightarrow> bytes) \<Rightarrow> nat \<Rightarrow> bytes \<Rightarrow> bytes" where
  "stream_xor ks i data =
     (if data = [] then []
      else xor_bytes (take 16 data) (ks i) @ stream_xor ks (Suc i) (drop 16 data))"
  by pat_completeness auto
termination
  by (relation "measure (\<lambda>(ks, i, data). length data)") auto

declare stream_xor.simps [simp del]

lemma stream_xor_Nil [simp]: "stream_xor ks i [] = []"
  by (simp add: stream_xor.simps)

lemma stream_xor_nonempty:
  "data \<noteq> [] \<Longrightarrow>
   stream_xor ks i data = xor_bytes (take 16 data) (ks i) @ stream_xor ks (Suc i) (drop 16 data)"
  by (simp add: stream_xor.simps)

lemma stream_xor_short:
  "length data \<le> 16 \<Longrightarrow> stream_xor ks i data = xor_bytes data (ks i)"
  by (cases "data = []") (simp_all add: stream_xor_nonempty)

lemma stream_xor_shift: "stream_xor ks (i + n) data = stream_xor (\<lambda>j. ks (j + n)) i data"
proof (induction "\<lambda>j. ks (j + n)" i data rule: stream_xor.induct)
  case (1 i data)
  then show ?case by (cases "data = []") (simp_all add: stream_xor_nonempty)
qed

text \<open>Whole blocks and the remainder: one stream.\<close>

lemma stream_xor_split:
  assumes "\<And>i. length (ks i) = 16"
  shows "stream_xor ks i (take (16 * n) data) @ stream_xor ks (i + n) (drop (16 * n) data) = stream_xor ks i data"
proof (induction n arbitrary: i data)
  case 0
  then show ?case by simp
next
  case (Suc n)
  show ?case
  proof (cases "data = []")
    case False
    have "take 16 (take (16 * Suc n) data) = take 16 data"
      "drop 16 (take (16 * Suc n) data) = take (16 * n) (drop 16 data)"
      by (simp_all add: drop_take)
    then show ?thesis
      using False Suc [of "Suc i" "drop 16 data"]
      by (simp add: stream_xor_nonempty add.commute)
  qed simp
qed

section \<open>Chained MAC\<close>

function cbc_mac :: "(bytes \<Rightarrow> bytes) \<Rightarrow> bytes \<Rightarrow> bytes \<Rightarrow> bytes" where
  "cbc_mac E x data =
     (if data = [] then x else cbc_mac E (E (xor_bytes x (take 16 data))) (drop 16 data))"
  by pat_completeness auto
termination
  by (relation "measure (\<lambda>(E, x, data). length data)") auto

declare cbc_mac.simps [simp del]

lemma cbc_mac_Nil [simp]: "cbc_mac E x [] = x"
  by (simp add: cbc_mac.simps)

lemma cbc_mac_block:
  "length b = 16 \<Longrightarrow> cbc_mac E x (b @ data) = cbc_mac E (E (xor_bytes x b)) data"
  by (subst cbc_mac.simps) auto

lemma cbc_mac_append:
  "16 dvd length xs \<Longrightarrow> cbc_mac E x (xs @ ys) = cbc_mac E (cbc_mac E x xs) ys"
proof (induction E x xs rule: cbc_mac.induct)
  case (1 E x xs)
  show ?case
  proof (cases "xs = []")
    case False
    with "1.prems" have "16 \<le> length xs" by (auto dest: dvd_imp_le)
    moreover have "16 dvd length (drop 16 xs)" using "1.prems" by (simp add: dvd_diff_nat)
    ultimately show ?thesis
      using "1.IH" False cbc_mac.simps [of E x xs] cbc_mac.simps [of E x "xs @ ys"] by simp
  qed simp
qed

text \<open>Zero padding to a whole number of blocks.\<close>

definition pad16 :: "bytes \<Rightarrow> bytes" where
  "pad16 data = data @ replicate ((16 - length data mod 16) mod 16) 0"

lemma dvd_length_pad16 [simp]: "16 dvd length (pad16 data)"
proof -
  define r where "r = length data mod 16"
  have "r < 16" by (simp add: r_def)
  have "(length data + (16 - r) mod 16) mod 16 = (r + (16 - r) mod 16) mod 16"
    by (simp only: r_def mod_add_left_eq)
  also have "\<dots> = (r + (16 - r)) mod 16" by (simp only: mod_add_right_eq)
  also have "\<dots> = 0" using \<open>r < 16\<close> by simp
  finally show ?thesis
    by (simp only: pad16_def dvd_eq_mod_eq_0 r_def length_append length_replicate)
qed

lemma pad16_dvd [simp]: "16 dvd length data \<Longrightarrow> pad16 data = data"
  by (simp add: pad16_def)

lemma pad16_tail:
  assumes "length xs < 16" and "xs \<noteq> []"
  shows "pad16 xs = xs @ replicate (16 - length xs) 0"
  using assms by (simp add: pad16_def)

lemma xor_bytes_zero_right: "length xs = n \<Longrightarrow> xor_bytes xs (replicate n 0) = xs"
  by (rule nth_equalityI) simp_all

lemma xor_partial_block:
  assumes "length x = 16" and "length d < 16" and "d \<noteq> []"
  shows "xor_bytes (take (length d) x) d @ drop (length d) x = xor_bytes x (pad16 d)"
proof -
  have "xor_bytes (take (length d) x @ drop (length d) x) (d @ replicate (16 - length d) 0) =
      xor_bytes (take (length d) x) d @ xor_bytes (drop (length d) x) (replicate (16 - length d) 0)"
    using assms by (intro xor_bytes_append) simp
  then show ?thesis using assms by (simp add: pad16_tail xor_bytes_zero_right)
qed

lemma pad16_split: "pad16 data = take (16 * (length data div 16)) data @ pad16 (drop (16 * (length data div 16)) data)"
proof -
  have "length (drop (16 * (length data div 16)) data) = length data mod 16"
    by (simp add: minus_mult_div_eq_mod [symmetric])
  then show ?thesis by (simp add: pad16_def)
qed

lemma length_tail16: "length (drop (16 * (length data div 16)) data) = length data mod 16"
  by (simp add: minus_mult_div_eq_mod [symmetric])

text \<open>The MAC of padded data: the whole blocks, then the padded remainder if there is one.\<close>

lemma cbc_mac_pad16:
  "cbc_mac E x (pad16 data) =
    (let y = cbc_mac E x (take (16 * (length data div 16)) data);
         d = drop (16 * (length data div 16)) data
     in if length data mod 16 = 0 then y else E (xor_bytes y (pad16 d)))"
proof -
  let ?n = "length data div 16"
  let ?y = "cbc_mac E x (take (16 * ?n) data)" and ?d = "drop (16 * ?n) data"
  have pad: "cbc_mac E x (pad16 data) = cbc_mac E ?y (pad16 ?d)"
    by (subst pad16_split) (simp add: cbc_mac_append)
  show ?thesis
  proof (cases "length data mod 16 = 0")
    case False
    then have "length ?d < 16" "?d \<noteq> []" using length_tail16 [of data] by auto
    then have "cbc_mac E ?y (pad16 ?d) = E (xor_bytes ?y (pad16 ?d))"
      using cbc_mac_block [of "pad16 ?d" E ?y "[]"] by (simp add: pad16_tail)
    with False pad show ?thesis by simp
  next
    case True
    then show ?thesis using pad length_tail16 [of data] by simp
  qed
qed

section \<open>Blocks as 128-bit integers\<close>

definition block_word :: "bytes \<Rightarrow> 128 word" where
  "block_word b = foldl (\<lambda>w x. push_bit 8 w OR ucast x) 0 b"

lemma bit_block_word_rev:
  "bit (block_word b) n \<longleftrightarrow> n < 128 \<and> n div 8 < length b \<and> bit (rev b ! (n div 8)) (n mod 8)"
proof (induction b arbitrary: n rule: rev_induct)
  case Nil
  then show ?case by (simp add: block_word_def)
next
  case (snoc x xs)
  have step: "block_word (xs @ [x]) = push_bit 8 (block_word xs) OR ucast x"
    by (simp add: block_word_def)
  show ?case
  proof (cases "n < 8")
    case True
    then show ?thesis by (simp add: step bit_simps)
  next
    case False
    then obtain m where m: "n = m + 8" by (metis add.commute le_Suc_ex not_less)
    moreover have "(m + 8) div 8 = Suc (m div 8)" by simp
    ultimately show ?thesis using snoc [of m] by (auto simp: step bit_simps simp del: div_add_self2)
  qed
qed

lemma bit_block_word:
  "length b = 16 \<Longrightarrow> n < 128 \<Longrightarrow> bit (block_word b) n = bit (b ! (15 - n div 8)) (n mod 8)"
  by (simp add: bit_block_word_rev rev_nth less_mult_imp_div_less)

lemma block_word_inject:
  assumes "length a = 16" and "length b = 16"
  shows "block_word a = block_word b \<longleftrightarrow> a = b"
proof
  assume eq: "block_word a = block_word b"
  show "a = b"
  proof (rule nth_equalityI)
    fix i assume "i < length a"
    then have i: "i < 16" using assms by simp
    show "a ! i = b ! i"
    proof (rule word_eqI_bits)
      fix n assume "n < LENGTH(8)"
      then have n: "n < 8" by simp
      have "bit (block_word c) (8 * (15 - i) + n) = bit (c ! i) n" if "length c = 16" for c
        using i n that by (subst bit_block_word) simp_all
      from this [OF assms(1)] this [OF assms(2)] show "bit (a ! i) n = bit (b ! i) n"
        using eq by simp
    qed
  qed (use assms in simp)
qed simp

lemma block_word_xor:
  "length a = 16 \<Longrightarrow> length b = 16 \<Longrightarrow> block_word (xor_bytes a b) = block_word a XOR block_word b"
  by (rule word_eqI_bits) (auto simp: bit_block_word bit_xor_iff)

lemma block_word_zero [simp]: "block_word (replicate 16 0) = 0"
  by (rule word_eqI_bits) (simp add: bit_block_word)

text \<open>In the terms of the standards: the number a block stands for, and back.\<close>

lemma block_word_be: "be_word b = block_word b"
  by (simp add: be_word_def block_word_def)

lemma block_word_be_bytes: "block_word (be_bytes 16 w) = w"
proof (rule word_eqI_bits)
  fix n assume "n < LENGTH(128)"
  then have n: "n < 128" by simp
  then have q: "n div 8 < 16" by simp
  have "bit (block_word (be_bytes 16 w)) n = bit (be_bytes 16 w ! (15 - n div 8)) (n mod 8)"
    using n by (intro bit_block_word) simp_all
  also have "be_bytes 16 w ! (15 - n div 8) = ucast (drop_bit (8 * (n div 8)) w)"
  proof -
    have k: "15 - n div 8 < 16" by simp
    then have "[0..<16] ! (15 - n div 8) = 15 - n div 8" by (subst nth_upt) simp_all
    moreover have "8 * (16 - 1 - (15 - n div 8)) = 8 * (n div 8)" using q by simp
    ultimately show ?thesis unfolding be_bytes_def by (subst nth_map) (simp_all only: length_upt, simp_all)
  qed
  also have "bit (ucast (drop_bit (8 * (n div 8)) w) :: u8) (n mod 8) = bit w n"
    by (simp add: bit_simps)
  finally show "bit (block_word (be_bytes 16 w)) n = bit w n" .
qed

section \<open>The block cipher interface\<close>

locale block_cipher =
  fixes E :: "'k \<Rightarrow> bytes \<Rightarrow> bytes"
  assumes length_E: "length (E k b) = 16"
begin

lemma stream_length: "length (stream_xor (\<lambda>i. E k (c i)) i data) = length data"
proof (induction "\<lambda>i. E k (c i)" i data rule: stream_xor.induct)
  case (1 i data)
  then show ?case by (cases "data = []") (simp_all add: stream_xor_nonempty length_E)
qed

lemma stream_involution:
  "stream_xor (\<lambda>i. E k (c i)) i (stream_xor (\<lambda>i. E k (c i)) i data) = data"
proof (induction "\<lambda>i. E k (c i)" i data rule: stream_xor.induct)
  case (1 i data)
  show ?case
  proof (cases "data = []")
    case False
    let ?s = "stream_xor (\<lambda>i. E k (c i))"
    have head: "length (xor_bytes (take 16 data) (E k (c i))) = min (length data) 16"
      by (simp add: length_E)
    have ne: "?s i data \<noteq> []" using False stream_length [of k c i data] by auto
    have tl: "length data < 16 \<Longrightarrow> ?s (Suc i) (drop 16 data) = []" by simp
    have tk: "take 16 (?s i data) = xor_bytes (take 16 data) (E k (c i))"
      using False tl
      by (cases "length data < 16") (simp_all add: stream_xor_nonempty [OF False] length_E take_xor_bytes)
    have dr: "drop 16 (?s i data) = ?s (Suc i) (drop 16 data)"
      using False tl
      by (cases "length data < 16") (simp_all add: stream_xor_nonempty [OF False] length_E)
    show ?thesis
      using 1 False tk dr
      by (simp add: stream_xor_nonempty [OF ne] xor_bytes_cancel length_E)
  qed simp
qed

lemma stream_nth:
  assumes "j < length data"
  shows "stream_xor (\<lambda>i. E k (c i)) i data ! j = data ! j XOR E k (c (i + j div 16)) ! (j mod 16)"
  using assms
proof (induction "\<lambda>i. E k (c i)" i data arbitrary: j rule: stream_xor.induct)
  case (1 i data)
  then have ne: "data \<noteq> []" by auto
  show ?case
  proof (cases "j < 16")
    case True
    then show ?thesis
      using "1.prems" by (simp add: stream_xor_nonempty [OF ne] nth_append length_E)
  next
    case False
    then obtain m where m: "j = 16 + m" using le_Suc_ex [of 16 j] by auto
    have "stream_xor (\<lambda>i. E k (c i)) i data ! j = stream_xor (\<lambda>i. E k (c i)) (Suc i) (drop 16 data) ! m"
      using "1.prems" m by (simp add: stream_xor_nonempty [OF ne] nth_append length_E)
    then show ?thesis
      using "1.hyps" [OF ne, of m] "1.prems" m div_add_self1 [of 16 m] by simp
  qed
qed

lemma cbc_mac_length: "length x = 16 \<Longrightarrow> length (cbc_mac (E k) x data) = 16"
proof (induction "E k" x data rule: cbc_mac.induct)
  case (1 x data)
  then show ?case by (subst cbc_mac.simps) (simp add: length_E)
qed

end

section \<open>Authenticated encryption\<close>

text \<open>
  The contract of an authenticated mode: \<open>ad\<close> accepts exactly the pairs of ciphertext and tag
  that \<open>ae\<close> produces, for nonces and associated data that satisfy \<open>ok\<close>. The frame protocols
  (CCMP, GCMP) rely on these laws only.
\<close>

locale aead =
  fixes ae :: "'k \<Rightarrow> bytes \<Rightarrow> bytes \<Rightarrow> bytes \<Rightarrow> (bytes \<times> bytes) option"
    and ad :: "'k \<Rightarrow> bytes \<Rightarrow> bytes \<Rightarrow> bytes \<Rightarrow> bytes \<Rightarrow> bytes option"
    and tag_len :: nat
    and ok :: "bytes \<Rightarrow> bytes \<Rightarrow> bool"
  assumes ad_iff: "ok n a \<Longrightarrow> length t = tag_len \<Longrightarrow> ad k n c a t = Some p \<longleftrightarrow> ae k n p a = Some (c, t)"
    and ae_lengths: "ok n a \<Longrightarrow> ae k n p a = Some (c, t) \<Longrightarrow> length c = length p \<and> length t = tag_len"
    and cipher_inj: "ok n a \<Longrightarrow> ae k n p a = Some (c, t) \<Longrightarrow> ae k n p' a = Some (c, t') \<Longrightarrow> p = p'"
begin

lemma seal_open: "ok n a \<Longrightarrow> ae k n p a = Some (c, t) \<Longrightarrow> ad k n c a t = Some p"
  using ad_iff ae_lengths by blast

lemma open_sealed: "ok n a \<Longrightarrow> length t = tag_len \<Longrightarrow> ad k n c a t = Some p \<Longrightarrow> ae k n p a = Some (c, t)"
  using ad_iff by blast

lemma open_length: "ok n a \<Longrightarrow> length t = tag_len \<Longrightarrow> ad k n c a t = Some p \<Longrightarrow> length p = length c"
  using ae_lengths open_sealed by metis

lemma seal_inj: "ok n a \<Longrightarrow> ae k n p a = Some r \<Longrightarrow> ae k n p' a = Some r \<Longrightarrow> p = p'"
  by (metis option.inject seal_open surj_pair)

text \<open>A changed tag is refused.\<close>

lemma forged_tag_refused:
  assumes "ok n a" and "ae k n p a = Some (c, t)" and "length t' = tag_len" and "t' \<noteq> t"
  shows "ad k n c a t' = None"
proof (rule ccontr)
  assume "ad k n c a t' \<noteq> None"
  then obtain q where q: "ad k n c a t' = Some q" by auto
  with assms(1,3) have s: "ae k n q a = Some (c, t')" by (intro open_sealed)
  with assms(1,2) have "q = p" by (intro cipher_inj)
  with s assms(2,4) show False by simp
qed

end

interpretation aes: block_cipher wpa_aes_encrypt
  by unfold_locales simp

end
