(* ===== verification/AES_CCM.thy ===== *)
theory AES_CCM
  imports Block_Modes
begin

unbundle bit_operations_syntax

text \<open>
  Counter with CBC-MAC, \<^verbatim>\<open>core/crypto/aes-ccm.c\<close>, with the constant-time comparison of
  \<^verbatim>\<open>core/crypto/rtw_crypto_wrap.c\<close>. A result \<open>None\<close> is the return value -1; \<open>Some\<close> holds
  the output buffers. The reference is RFC 3610 with two length bytes. The counter block \<open>a\<close>
  is the list of its initialised bytes: fourteen after \<open>aes_ccm_encr_start\<close>, sixteen once
  a counter was stored.
\<close>

section \<open>Comparison\<close>

definition os_memcmp_const :: "bytes \<Rightarrow> bytes \<Rightarrow> nat \<Rightarrow> u8" where
  "os_memcmp_const aa bb len = foldl (\<lambda>res i. res OR (aa ! i XOR bb ! i)) 0 [0..<len]"

lemma or_eq_0_u8: "a OR b = 0 \<longleftrightarrow> a = 0 \<and> b = (0 :: u8)"
  by (auto simp: or_eq_0_iff)

lemma xor_eq_0_u8: "a XOR b = 0 \<longleftrightarrow> a = (b :: u8)"
proof
  assume "a XOR b = 0"
  then have "(a XOR b) XOR b = b" by simp
  then show "a = b" by (simp add: xor.assoc)
qed simp

lemma os_memcmp_const_0:
  assumes "len \<le> length aa" and "len \<le> length bb"
  shows "os_memcmp_const aa bb len = 0 \<longleftrightarrow> take len aa = take len bb"
proof -
  have "foldl (\<lambda>res i. res OR (aa ! i XOR bb ! i)) acc is = 0 \<longleftrightarrow>
      acc = 0 \<and> (\<forall>i \<in> set is. aa ! i = bb ! i)" for acc "is"
    by (induction "is" arbitrary: acc) (auto simp: or_eq_0_u8 xor_eq_0_u8)
  then show ?thesis
    using assms by (auto simp: os_memcmp_const_def list_eq_iff_nth_eq)
qed

section \<open>The mode\<close>

definition aes_ccm_auth_start :: "aes_ctx \<Rightarrow> nat \<Rightarrow> nat \<Rightarrow> bytes \<Rightarrow> bytes \<Rightarrow> nat \<Rightarrow> bytes" where
  "aes_ccm_auth_start aes M L nonce aad plain_len =
     (let aad_len = length aad;
          b0 = (if aad_len \<noteq> 0 then 0x40 else 0) OR
               ucast (push_bit 3 ((word_of_nat M - 2) div 2 :: u64)) OR word_of_nat (L - 1);
          b = b0 # take (15 - L) nonce @ RTW_PUT_BE16 (word_of_nat plain_len);
          x = wpa_aes_encrypt aes b
      in if aad_len = 0 then x
         else let aad_buf = RTW_PUT_BE16 (word_of_nat aad_len) @ aad @ replicate (32 - 2 - aad_len) 0;
                  x = wpa_aes_encrypt aes (xor_aes_block (take 16 aad_buf) x)
              in if aad_len > 16 - 2
                 then wpa_aes_encrypt aes (xor_aes_block (drop 16 aad_buf) x)
                 else x)"

fun aes_ccm_auth_loop :: "aes_ctx \<Rightarrow> nat \<Rightarrow> bytes \<Rightarrow> bytes \<Rightarrow> bytes \<times> bytes" where
  "aes_ccm_auth_loop aes 0 data x = (data, x)"
| "aes_ccm_auth_loop aes (Suc n) data x =
     aes_ccm_auth_loop aes n (drop 16 data) (wpa_aes_encrypt aes (xor_aes_block x data))"

definition aes_ccm_auth :: "aes_ctx \<Rightarrow> bytes \<Rightarrow> bytes \<Rightarrow> bytes" where
  "aes_ccm_auth aes data x =
     (let last = length data mod 16;
          (data, x) = aes_ccm_auth_loop aes (length data div 16) data x
      in if last \<noteq> 0
         then wpa_aes_encrypt aes (xor_bytes (take last x) data @ drop last x)
         else x)"

definition aes_ccm_encr_start :: "nat \<Rightarrow> bytes \<Rightarrow> bytes" where
  "aes_ccm_encr_start L nonce = word_of_nat (L - 1) # take (15 - L) nonce"

fun aes_ccm_encr_loop :: "aes_ctx \<Rightarrow> nat \<Rightarrow> nat \<Rightarrow> bytes \<Rightarrow> bytes \<Rightarrow> bytes \<times> bytes \<times> bytes" where
  "aes_ccm_encr_loop aes i 0 inp a = ([], inp, a)"
| "aes_ccm_encr_loop aes i (Suc n) inp a =
     (let a = memcpy_at a 14 (RTW_PUT_BE16 (word_of_nat i));
          out = xor_aes_block (wpa_aes_encrypt aes a) inp;
          (outs, inp', a') = aes_ccm_encr_loop aes (Suc i) n (drop 16 inp) a
      in (out @ outs, inp', a'))"

definition aes_ccm_encr :: "aes_ctx \<Rightarrow> bytes \<Rightarrow> bytes \<Rightarrow> bytes \<times> bytes" where
  "aes_ccm_encr aes inp a =
     (let last = length inp mod 16; n = length inp div 16;
          (out, inp', a) = aes_ccm_encr_loop aes 1 n inp a
      in if last \<noteq> 0
         then let a = memcpy_at a 14 (RTW_PUT_BE16 (word_of_nat (n + 1)));
                  out' = wpa_aes_encrypt aes a
              in (out @ xor_bytes (take last out') inp', a)
         else (out, a))"

definition aes_ccm_encr_auth :: "aes_ctx \<Rightarrow> nat \<Rightarrow> bytes \<Rightarrow> bytes \<Rightarrow> bytes" where
  "aes_ccm_encr_auth aes M x a =
     (let tmp = wpa_aes_encrypt aes (memcpy_at a 14 (RTW_PUT_BE16 0))
      in xor_bytes (take M x) (take M tmp))"

definition aes_ccm_decr_auth :: "aes_ctx \<Rightarrow> nat \<Rightarrow> bytes \<Rightarrow> bytes \<Rightarrow> bytes" where
  "aes_ccm_decr_auth aes M a auth =
     (let tmp = wpa_aes_encrypt aes (memcpy_at a 14 (RTW_PUT_BE16 0))
      in xor_bytes (take M auth) (take M tmp))"

definition aes_ccm_ae ::
  "(nat \<Rightarrow> bool) \<Rightarrow> bytes \<Rightarrow> bytes \<Rightarrow> nat \<Rightarrow> bytes \<Rightarrow> bytes \<Rightarrow> (bytes \<times> bytes) option" where
  "aes_ccm_ae alloc key nonce M plain aad =
     (let L = 2 in
      if length aad > 30 \<or> M > 16 then None
      else case aes_encrypt_init alloc key of None \<Rightarrow> None
      | Some aes \<Rightarrow>
        let x = aes_ccm_auth_start aes M L nonce aad (length plain);
            x = aes_ccm_auth aes plain x;
            a = aes_ccm_encr_start L nonce;
            (crypt, a) = aes_ccm_encr aes plain a;
            auth = aes_ccm_encr_auth aes M x a
        in Some (crypt, auth))"

definition aes_ccm_ad ::
  "(nat \<Rightarrow> bool) \<Rightarrow> bytes \<Rightarrow> bytes \<Rightarrow> nat \<Rightarrow> bytes \<Rightarrow> bytes \<Rightarrow> bytes \<Rightarrow> bytes option" where
  "aes_ccm_ad alloc key nonce M crypt aad auth =
     (let L = 2 in
      if length aad > 30 \<or> M > 16 then None
      else case aes_encrypt_init alloc key of None \<Rightarrow> None
      | Some aes \<Rightarrow>
        let a = aes_ccm_encr_start L nonce;
            t = aes_ccm_decr_auth aes M a auth;
            (plain, a) = aes_ccm_encr aes crypt (memcpy_at a 14 (RTW_PUT_BE16 0));
            x = aes_ccm_auth_start aes M L nonce aad (length crypt);
            x = aes_ccm_auth aes plain x
        in if os_memcmp_const x t M \<noteq> 0 then None else Some plain)"

section \<open>Encryption is a key stream\<close>

text \<open>Counter block \<open>i\<close>: flags, nonce, counter.\<close>

definition ccm_ctr :: "bytes \<Rightarrow> nat \<Rightarrow> bytes" where
  "ccm_ctr nonce i = 1 # take 13 nonce @ be_bytes 2 (word_of_nat i :: u16)"

lemma ccm_ctr_put: "ccm_ctr nonce i = 1 # take 13 nonce @ RTW_PUT_BE16 (word_of_nat i)"
  by (simp only: ccm_ctr_def put_is_be_bytes)

lemma memcpy_at_14: "length a = 14 \<or> length a = 16 \<Longrightarrow> memcpy_at a 14 (RTW_PUT_BE16 v) = take 14 a @ RTW_PUT_BE16 v"
  by (auto simp: memcpy_at_def)

lemma aes_ccm_encr_loop_stream:
  assumes "length a = 14 \<or> length a = 16" and "16 * n \<le> length inp"
  shows "fst (aes_ccm_encr_loop aes i n inp a) =
      stream_xor (\<lambda>j. wpa_aes_encrypt aes (take 14 a @ RTW_PUT_BE16 (word_of_nat j))) i (take (16 * n) inp) \<and>
    fst (snd (aes_ccm_encr_loop aes i n inp a)) = drop (16 * n) inp \<and>
    take 14 (snd (snd (aes_ccm_encr_loop aes i n inp a))) = take 14 a \<and>
    (length (snd (snd (aes_ccm_encr_loop aes i n inp a))) \<in> {14, 16})"
  using assms
proof (induction aes i n inp a rule: aes_ccm_encr_loop.induct)
  case (1 aes i inp a)
  then show ?case by auto
next
  case (2 aes i n inp a)
  let ?a = "take 14 a @ RTW_PUT_BE16 (word_of_nat i)"
  have a: "memcpy_at a 14 (RTW_PUT_BE16 (word_of_nat i)) = ?a" "length ?a = 16"
    using 2(2) by (auto simp: memcpy_at_14)
  note IH = "2.IH" [OF refl refl, unfolded a(1)]
  have "16 * n \<le> length (drop 16 inp)" using "2.prems"(2) by simp
  note IH = IH [OF disjI2 [OF a(2)] this]
  have t14: "take 14 ?a = take 14 a" using "2.prems"(1) by auto
  have ne: "take (16 + 16 * n) inp \<noteq> []" using "2.prems"(2) by auto
  have t: "take 16 (take (16 + 16 * n) inp) = take 16 inp"
    "drop 16 (take (16 + 16 * n) inp) = take (16 * n) (drop 16 inp)"
    by (simp_all add: drop_take)
  have x: "xor_aes_block (wpa_aes_encrypt aes ?a) inp = xor_bytes (take 16 inp) (wpa_aes_encrypt aes ?a)"
    using "2.prems"(2) by (simp add: xor_aes_block_bytes xor_bytes_commute)
  show ?case
    using IH [unfolded t14]
    by (simp add: Let_def case_prod_beta a(1) stream_xor_nonempty [OF ne] t x add.commute)
qed

lemma aes_ccm_encr_stream:
  assumes "length a = 14 \<or> length a = 16"
  shows "fst (aes_ccm_encr aes inp a) =
      stream_xor (\<lambda>j. wpa_aes_encrypt aes (take 14 a @ RTW_PUT_BE16 (word_of_nat j))) 1 inp"
    and "take 14 (snd (aes_ccm_encr aes inp a)) = take 14 a"
    and "length (snd (aes_ccm_encr aes inp a)) \<in> {14, 16}"
proof -
  let ?n = "length inp div 16" and ?r = "length inp mod 16"
  let ?ks = "\<lambda>j. wpa_aes_encrypt aes (take 14 a @ RTW_PUT_BE16 (word_of_nat j))"
  have n: "16 * ?n \<le> length inp" by simp
  note L = aes_ccm_encr_loop_stream [OF assms n, of aes 1]
  obtain out inp' a' where loop: "aes_ccm_encr_loop aes 1 ?n inp a = (out, inp', a')"
    by (metis prod_cases3)
  have r: "length (drop (16 * ?n) inp) = ?r"
    by (simp add: minus_mult_div_eq_mod [symmetric])
  have a': "take 14 a' = take 14 a" "length a' = 14 \<or> length a' = 16" using L loop by auto
  have split: "stream_xor ?ks 1 inp = out @ stream_xor ?ks (1 + ?n) (drop (16 * ?n) inp)"
    using stream_xor_split [of ?ks 1 ?n inp] L loop by simp
  have short: "stream_xor ?ks (1 + ?n) (drop (16 * ?n) inp) = xor_bytes (drop (16 * ?n) inp) (?ks (1 + ?n))"
    by (rule stream_xor_short) (simp add: r less_imp_le)
  have xor: "xor_bytes (take ?r (?ks (1 + ?n))) (drop (16 * ?n) inp) = xor_bytes (drop (16 * ?n) inp) (?ks (1 + ?n))"
  proof -
    have "xor_bytes (drop (16 * ?n) inp) (?ks (1 + ?n)) = take ?r (xor_bytes (drop (16 * ?n) inp) (?ks (1 + ?n)))"
      using r by simp
    then show ?thesis using r by (simp add: take_xor_bytes xor_bytes_commute)
  qed
  show "fst (aes_ccm_encr aes inp a) = stream_xor ?ks 1 inp"
  proof (cases "?r = 0")
    case True
    then have "drop (16 * ?n) inp = []" using r by simp
    with True show ?thesis unfolding split by (simp add: aes_ccm_encr_def loop [simplified])
  next
    case False
    have inp': "inp' = drop (16 * ?n) inp" using L loop by simp
    have "fst (aes_ccm_encr aes inp a) = out @ xor_bytes (take ?r (?ks (1 + ?n))) inp'"
      using False a' by (simp add: aes_ccm_encr_def Let_def loop [simplified] memcpy_at_14)
    then show ?thesis by (simp only: split short xor inp')
  qed
  show "take 14 (snd (aes_ccm_encr aes inp a)) = take 14 a"
    using loop [simplified] a' assms by (auto simp: aes_ccm_encr_def Let_def memcpy_at_14)
  show "length (snd (aes_ccm_encr aes inp a)) \<in> {14, 16}"
    using loop a' by (auto simp: aes_ccm_encr_def Let_def memcpy_at_14)
qed

section \<open>The MAC is a CBC-MAC\<close>

text \<open>The formatting of RFC 3610: block \<open>B_0\<close> and the encoded associated data.\<close>

definition ccm_b0 :: "nat \<Rightarrow> bytes \<Rightarrow> bytes \<Rightarrow> nat \<Rightarrow> bytes" where
  "ccm_b0 M nonce aad len =
     ((if aad \<noteq> [] then 0x40 else 0) OR ucast (push_bit 3 ((word_of_nat M - 2) div 2 :: u64)) OR 1)
       # take 13 nonce @ be_bytes 2 (word_of_nat len :: u16)"

definition ccm_adata :: "bytes \<Rightarrow> bytes" where
  "ccm_adata aad = (if aad = [] then [] else pad16 (be_bytes 2 (word_of_nat (length aad) :: u16) @ aad))"

lemma ccm_b0_put: "ccm_b0 M nonce aad len =
    ((if aad \<noteq> [] then 0x40 else 0) OR ucast (push_bit 3 ((word_of_nat M - 2) div 2 :: u64)) OR 1)
      # take 13 nonce @ RTW_PUT_BE16 (word_of_nat len)"
  by (simp only: ccm_b0_def put_is_be_bytes)

lemma ccm_adata_put:
  "ccm_adata aad = (if aad = [] then [] else pad16 (RTW_PUT_BE16 (word_of_nat (length aad)) @ aad))"
  by (simp only: ccm_adata_def put_is_be_bytes)

definition ccm_mac :: "(bytes \<Rightarrow> bytes) \<Rightarrow> nat \<Rightarrow> bytes \<Rightarrow> bytes \<Rightarrow> bytes \<Rightarrow> bytes" where
  "ccm_mac E M nonce aad plain =
     cbc_mac E (E (ccm_b0 M nonce aad (length plain))) (ccm_adata aad @ pad16 plain)"

lemma aes_ccm_auth_loop_cbc:
  assumes "length x = 16" and "16 * n \<le> length data"
  shows "aes_ccm_auth_loop aes n data x =
    (drop (16 * n) data, cbc_mac (wpa_aes_encrypt aes) x (take (16 * n) data))"
  using assms
proof (induction aes n data x rule: aes_ccm_auth_loop.induct)
  case (1 aes data x)
  then show ?case by simp
next
  case (2 aes n data x)
  have "take (16 * Suc n) data = take 16 data @ take (16 * n) (drop 16 data)"
    by (simp add: take_add)
  moreover have "length (take 16 data) = 16" using "2.prems" by simp
  ultimately show ?case
    using 2 by (simp add: cbc_mac_block xor_aes_block_bytes add.commute)
qed

lemma aes_ccm_auth_cbc:
  assumes "length x = 16"
  shows "aes_ccm_auth aes data x = cbc_mac (wpa_aes_encrypt aes) x (pad16 data)"
proof -
  let ?n = "length data div 16" and ?E = "wpa_aes_encrypt aes"
  let ?y = "cbc_mac ?E x (take (16 * ?n) data)" and ?d = "drop (16 * ?n) data"
  have loop: "aes_ccm_auth_loop aes ?n data x = (?d, ?y)"
    by (rule aes_ccm_auth_loop_cbc [OF assms]) simp
  have y: "length ?y = 16" by (rule aes.cbc_mac_length [OF assms])
  show ?thesis
  proof (cases "length data mod 16 = 0")
    case True
    then show ?thesis by (simp add: aes_ccm_auth_def loop cbc_mac_pad16)
  next
    case False
    then have "xor_bytes (take (length data mod 16) ?y) ?d @ drop (length data mod 16) ?y = xor_bytes ?y (pad16 ?d)"
      using xor_partial_block [OF y, of ?d] length_tail16 [of data] by auto
    then show ?thesis using False by (simp add: aes_ccm_auth_def loop cbc_mac_pad16)
  qed
qed

lemma length_pad16_30: "0 < n \<Longrightarrow> n \<le> 14 \<Longrightarrow> (14 - (n :: nat)) = (16 - (2 + n) mod 16) mod 16"
  by (cases "n = 14") auto

lemma aad_buf_pad:
  assumes "length aad \<le> 30" and "aad \<noteq> []" and "length h = 2"
  shows "h @ aad @ replicate (30 - length aad) 0 =
    pad16 (h @ aad) @ (if length aad > 14 then [] else replicate 16 0)"
proof -
  let ?n = "length aad"
  consider "?n \<le> 14" | "14 < ?n" "?n < 30" | "?n = 30" using assms(1) by linarith
  then show ?thesis
  proof cases
    case 1
    have "(16 - (2 + ?n) mod 16) mod 16 = 14 - ?n"
      using 1 assms(2) length_pad16_30 [of ?n] by (cases aad) auto
    then have "pad16 (h @ aad) = h @ aad @ replicate (14 - ?n) 0"
      using assms(3) by (simp add: pad16_def)
    moreover have "replicate (30 - ?n) (0 :: u8) = replicate (14 - ?n) 0 @ replicate 16 0"
      using 1 by (simp add: replicate_add [symmetric])
    ultimately show ?thesis using 1 by simp
  next
    case 2
    then have "(2 + ?n) mod 16 = ?n - 14" by (simp add: mod_if)
    then have "(16 - (2 + ?n) mod 16) mod 16 = 30 - ?n" using 2 by simp
    then show ?thesis using 2 assms(3) by (simp add: pad16_def)
  qed (simp add: pad16_def assms(3))
qed

lemma aes_ccm_auth_start_cbc:
  assumes "length aad \<le> 30" and "13 \<le> length nonce"
  shows "aes_ccm_auth_start aes M 2 nonce aad len =
    cbc_mac (wpa_aes_encrypt aes) (wpa_aes_encrypt aes (ccm_b0 M nonce aad len)) (ccm_adata aad)"
proof (cases "aad = []")
  case True
  then show ?thesis by (simp add: aes_ccm_auth_start_def ccm_b0_put ccm_adata_put Let_def)
next
  case False
  let ?E = "wpa_aes_encrypt aes" and ?h = "RTW_PUT_BE16 (word_of_nat (length aad))"
  let ?x = "?E (ccm_b0 M nonce aad len)" and ?p = "pad16 (?h @ aad)"
  let ?buf = "?h @ aad @ replicate (32 - 2 - length aad) 0"
  have len: "length ?buf = 32" using assms(1) by simp
  have buf: "?buf = ?p @ (if length aad > 14 then [] else replicate 16 0)"
    using aad_buf_pad [OF assms(1) False, of ?h] by simp
  have t: "xor_aes_block (take 16 ?buf) y = xor_bytes y (take 16 ?buf)"
    "xor_aes_block (drop 16 ?buf) y = xor_bytes y (drop 16 ?buf)" if "length y = 16" for y
    using that len by (simp_all add: xor_aes_block_bytes xor_bytes_commute)
  have b0: "?E (((if length aad \<noteq> 0 then 0x40 else 0) OR
      ucast (push_bit 3 ((word_of_nat M - 2) div 2 :: u64)) OR word_of_nat (2 - 1))
       # take (15 - 2) nonce @ RTW_PUT_BE16 (word_of_nat len)) = ?x"
    using False by (simp add: ccm_b0_put)
  have start: "aes_ccm_auth_start aes M 2 nonce aad len =
    (let x = ?E (xor_bytes ?x (take 16 ?buf)) in
     if length aad > 14 then ?E (xor_bytes x (drop 16 ?buf)) else x)"
    using False unfolding aes_ccm_auth_start_def Let_def b0
    by (simp only: t length_wpa_aes_encrypt) simp
  show ?thesis
  proof (cases "length aad > 14")
    case True
    then have "?p = take 16 ?buf @ drop 16 ?buf" using buf by simp
    then have "cbc_mac ?E ?x ?p = cbc_mac ?E ?x (take 16 ?buf @ drop 16 ?buf @ [])" by simp
    also have "\<dots> = ?E (xor_bytes (?E (xor_bytes ?x (take 16 ?buf))) (drop 16 ?buf))"
      using len by (simp add: cbc_mac_block del: append_Nil2 take_append drop_append append_take_drop_id)
    finally show ?thesis using start True False by (simp add: ccm_adata_put)
  next
    case nle: False
    then have bp: "?buf = ?p @ replicate 16 0" using buf by simp
    then have "length ?p = 16" using arg_cong [OF bp, of length] len by simp
    then have tk: "take 16 ?buf = ?p" "length ?p = 16" by (simp_all only: bp append_eq_conv_conj take_append) simp
    have "cbc_mac ?E ?x ?p = ?E (xor_bytes ?x ?p)"
      using cbc_mac_block [OF tk(2), of ?E ?x "[]"] by simp
    then show ?thesis using start nle False tk by (simp add: ccm_adata_put)
  qed
qed

section \<open>Sealing and opening\<close>

text \<open>The reference: key stream from counter 1, MAC masked with counter block 0.\<close>

definition ccm_seal :: "(bytes \<Rightarrow> bytes) \<Rightarrow> bytes \<Rightarrow> nat \<Rightarrow> bytes \<Rightarrow> bytes \<Rightarrow> bytes \<times> bytes" where
  "ccm_seal E nonce M plain aad =
     (stream_xor (\<lambda>i. E (ccm_ctr nonce i)) 1 plain,
      take M (xor_bytes (ccm_mac E M nonce aad plain) (E (ccm_ctr nonce 0))))"

lemma aes_ccm_encr_start_len: "13 \<le> length nonce \<Longrightarrow> length (aes_ccm_encr_start 2 nonce) = 14"
  by (simp add: aes_ccm_encr_start_def)

lemma encr_start_ctr:
  "13 \<le> length nonce \<Longrightarrow> take 14 (aes_ccm_encr_start 2 nonce) @ RTW_PUT_BE16 (word_of_nat i) = ccm_ctr nonce i"
  by (simp add: aes_ccm_encr_start_def ccm_ctr_put)

lemma ccm_auth_mac:
  assumes "length aad \<le> 30" and "13 \<le> length nonce"
  shows "aes_ccm_auth aes plain (aes_ccm_auth_start aes M 2 nonce aad (length plain)) =
    ccm_mac (wpa_aes_encrypt aes) M nonce aad plain"
proof -
  have "16 dvd length (ccm_adata aad)" by (simp add: ccm_adata_put)
  then show ?thesis
    by (simp add: aes_ccm_auth_start_cbc [OF assms] aes_ccm_auth_cbc aes.cbc_mac_length
        ccm_mac_def cbc_mac_append)
qed

lemma length_ccm_mac: "length (ccm_mac (wpa_aes_encrypt aes) M nonce aad plain) = 16"
  by (simp add: ccm_mac_def aes.cbc_mac_length)

lemma aes_ccm_encr_ctr:
  assumes "13 \<le> length nonce" and "length a = 14 \<or> length a = 16" and "take 14 a = aes_ccm_encr_start 2 nonce"
  shows "fst (aes_ccm_encr aes inp a) = stream_xor (\<lambda>i. wpa_aes_encrypt aes (ccm_ctr nonce i)) 1 inp"
proof -
  have "take 14 a @ RTW_PUT_BE16 (word_of_nat i) = ccm_ctr nonce i" for i
    using encr_start_ctr [OF assms(1), of i] assms(1,3) by (simp add: aes_ccm_encr_start_len)
  then show ?thesis by (simp add: aes_ccm_encr_stream(1) [OF assms(2)])
qed

lemma aes_ccm_ae_seal:
  assumes "13 \<le> length nonce" and "length aad \<le> 30" and "M \<le> 16" and "aes_encrypt_init alloc key = Some aes"
  shows "aes_ccm_ae alloc key nonce M plain aad = Some (ccm_seal (wpa_aes_encrypt aes) nonce M plain aad)"
proof -
  let ?a = "aes_ccm_encr_start 2 nonce"
  obtain crypt a where encr: "aes_ccm_encr aes plain ?a = (crypt, a)" by fastforce
  have len: "length ?a = 14 \<or> length ?a = 16" by (simp add: aes_ccm_encr_start_len [OF assms(1)])
  note st = aes_ccm_encr_stream [OF len, of aes plain]
  have a: "take 14 a = ?a" "length a = 14 \<or> length a = 16"
    using st(2,3) encr assms(1) by (auto simp: aes_ccm_encr_start_len)
  have ctr0: "memcpy_at a 14 (RTW_PUT_BE16 0) = ccm_ctr nonce 0"
    using a(1) encr_start_ctr [OF assms(1), of 0] assms(1) memcpy_at_14 [OF a(2)]
    by (simp add: aes_ccm_encr_start_len)
  have crypt: "crypt = stream_xor (\<lambda>i. wpa_aes_encrypt aes (ccm_ctr nonce i)) 1 plain"
    using aes_ccm_encr_ctr [OF assms(1) len, of aes plain] encr assms(1)
    by (simp add: aes_ccm_encr_start_len)
  show ?thesis
    using assms
    by (simp add: aes_ccm_ae_def encr crypt ccm_seal_def ccm_auth_mac aes_ccm_encr_auth_def ctr0
        take_xor_bytes Let_def)
qed

text \<open>The decryption side compares the MAC of what it decrypted with the unmasked tag.\<close>

lemma aes_ccm_ad_open:
  fixes crypt :: bytes
  assumes "13 \<le> length nonce" and "length aad \<le> 30" and "M \<le> 16" and "length auth = M"
    and "aes_encrypt_init alloc key = Some aes"
  defines "E \<equiv> wpa_aes_encrypt aes"
  defines "plain \<equiv> stream_xor (\<lambda>i. E (ccm_ctr nonce i)) 1 crypt"
  shows "aes_ccm_ad alloc key nonce M crypt aad auth =
    (if take M (ccm_mac E M nonce aad plain) = xor_bytes auth (take M (E (ccm_ctr nonce 0)))
     then Some plain else None)"
proof -
  let ?a = "aes_ccm_encr_start 2 nonce"
  let ?a' = "memcpy_at ?a 14 (RTW_PUT_BE16 0)"
  have len: "length ?a = 14" by (simp add: aes_ccm_encr_start_len [OF assms(1)])
  have a': "?a' = ccm_ctr nonce 0" "take 14 ?a' = ?a" "length ?a' = 16"
    using assms(1) len memcpy_at_14 [of ?a 0] by (simp_all add: ccm_ctr_put aes_ccm_encr_start_def)
  have encr: "fst (aes_ccm_encr aes crypt ?a') = plain"
    unfolding plain_def E_def by (rule aes_ccm_encr_ctr [OF assms(1) _ a'(2)]) (simp add: a'(3))
  have lenp: "length plain = length crypt"
    unfolding plain_def E_def by (rule aes.stream_length)
  have mac: "aes_ccm_auth aes plain (aes_ccm_auth_start aes M 2 nonce aad (length crypt)) =
      ccm_mac E M nonce aad plain"
    using ccm_auth_mac [OF assms(2,1), of aes plain M] by (simp add: lenp E_def)
  have t: "aes_ccm_decr_auth aes M ?a auth = xor_bytes auth (take M (E (ccm_ctr nonce 0)))"
    using assms(4) by (simp add: aes_ccm_decr_auth_def a'(1) E_def)
  have lent: "length (xor_bytes auth (take M (E (ccm_ctr nonce 0)))) = M"
    using assms(3,4) by (simp add: E_def)
  have cmp: "os_memcmp_const (ccm_mac E M nonce aad plain) (xor_bytes auth (take M (E (ccm_ctr nonce 0)))) M = 0
      \<longleftrightarrow> take M (ccm_mac E M nonce aad plain) = xor_bytes auth (take M (E (ccm_ctr nonce 0)))"
    using lent assms(3) by (subst os_memcmp_const_0) (simp_all add: length_ccm_mac E_def)
  show ?thesis
    using assms(2,3,5) cmp
    by (simp add: aes_ccm_ad_def case_prod_beta Let_def encr mac t)
qed

lemma masked_tag_iff:
  assumes "length m = 16" and "length s = 16" and "length auth = M" and "M \<le> 16"
  shows "take M m = xor_bytes auth (take M s) \<longleftrightarrow> auth = take M (xor_bytes m s)"
proof
  assume "take M m = xor_bytes auth (take M s)"
  then show "auth = take M (xor_bytes m s)"
    using assms by (simp add: take_xor_bytes xor_bytes_cancel)
next
  assume "auth = take M (xor_bytes m s)"
  then show "take M m = xor_bytes auth (take M s)"
    using assms by (simp add: take_xor_bytes xor_bytes_cancel)
qed

lemma aes_ccm_ad_iff:
  assumes "13 \<le> length nonce" and "length auth = M"
  shows "aes_ccm_ad alloc key nonce M crypt aad auth = Some plain \<longleftrightarrow>
    aes_ccm_ae alloc key nonce M plain aad = Some (crypt, auth)"
proof (cases "length aad \<le> 30 \<and> M \<le> 16 \<and> (\<exists>aes. aes_encrypt_init alloc key = Some aes)")
  case True
  then obtain aes where g: "length aad \<le> 30" "M \<le> 16" "aes_encrypt_init alloc key = Some aes" by auto
  let ?E = "wpa_aes_encrypt aes"
  let ?s = "stream_xor (\<lambda>i. ?E (ccm_ctr nonce i)) 1"
  have tag: "take M (ccm_mac ?E M nonce aad p) = xor_bytes auth (take M (?E (ccm_ctr nonce 0))) \<longleftrightarrow>
      auth = take M (xor_bytes (ccm_mac ?E M nonce aad p) (?E (ccm_ctr nonce 0)))" for p
    by (rule masked_tag_iff) (use assms(2) g(2) in \<open>simp_all add: length_ccm_mac\<close>)
  have inv: "?s (?s x) = x" for x by (rule aes.stream_involution)
  then have "crypt = ?s plain \<longleftrightarrow> ?s crypt = plain" by metis
  then show ?thesis
    unfolding aes_ccm_ae_seal [OF assms(1) g] aes_ccm_ad_open [OF assms(1) g(1,2) assms(2) g(3)] tag
    by (auto simp: ccm_seal_def)
next
  case False
  then show ?thesis by (auto simp: aes_ccm_ae_def aes_ccm_ad_def split: option.splits)
qed

lemma aes_ccm_ae_lengths:
  assumes "13 \<le> length nonce" and "aes_ccm_ae alloc key nonce M plain aad = Some (crypt, auth)"
  shows "length crypt = length plain \<and> length auth = M"
proof -
  from assms(2) obtain aes where g: "length aad \<le> 30" "M \<le> 16" "aes_encrypt_init alloc key = Some aes"
    by (auto simp: aes_ccm_ae_def split: option.splits if_splits)
  with assms show ?thesis
    by (auto simp: aes_ccm_ae_seal ccm_seal_def aes.stream_length length_ccm_mac)
qed

lemma aes_ccm_ae_inj:
  assumes "13 \<le> length nonce" and "aes_ccm_ae alloc key nonce M p aad = Some (c, t)"
    and "aes_ccm_ae alloc key nonce M p' aad = Some (c, t')"
  shows "p = p'"
proof -
  from assms(2) obtain aes where g: "length aad \<le> 30" "M \<le> 16" "aes_encrypt_init alloc key = Some aes"
    by (auto simp: aes_ccm_ae_def split: option.splits if_splits)
  let ?s = "stream_xor (\<lambda>i. wpa_aes_encrypt aes (ccm_ctr nonce i)) 1"
  have "?s p = ?s p'" using assms g by (simp add: aes_ccm_ae_seal ccm_seal_def)
  then show ?thesis by (metis aes.stream_involution)
qed

text \<open>CCM with a tag of \<open>M\<close> bytes is an authenticated mode.\<close>

interpretation ccm: aead
  "\<lambda>k n p a. aes_ccm_ae (fst k) (snd k) n M p a"
  "\<lambda>k n c a t. aes_ccm_ad (fst k) (snd k) n M c a t"
  M "\<lambda>n a. 13 \<le> length n" for M
  by unfold_locales (auto simp: aes_ccm_ad_iff dest: aes_ccm_ae_lengths aes_ccm_ae_inj)

section \<open>Properties\<close>

text \<open>
  C17. \<open>aes_ccm_ae\<close> computes CCM as RFC 3610 defines it (two length bytes, tag of \<open>M\<close> bytes): the
  key stream from counter block 1 over the plaintext, and the chained MAC over the formatted
  blocks masked with counter block 0. It fails exactly when the associated data exceeds 30 bytes,
  the tag exceeds a block, or the cipher context cannot be set up.
\<close>

theorem aes_ccm_ae_is_rfc3610:
  assumes "13 \<le> length nonce"
  shows "aes_ccm_ae alloc key nonce M plain aad =
    (if length aad > 30 \<or> M > 16 then None
     else map_option (\<lambda>aes. ccm_seal (wpa_aes_encrypt aes) nonce M plain aad) (aes_encrypt_init alloc key))"
proof (cases "length aad > 30 \<or> M > 16")
  case True
  then show ?thesis by (auto simp: aes_ccm_ae_def)
next
  case False
  then show ?thesis
    using aes_ccm_ae_seal [OF assms, of aad M alloc key _ plain]
    by (cases "aes_encrypt_init alloc key") (auto simp: aes_ccm_ae_def)
qed

theorem aes_ccm_ae_is_rfc3610_witness:
  "aes_ccm_ae (\<lambda>n. True) (replicate 16 0) (replicate 13 7) 8 [1, 2, 3] [4] =
    map_option (\<lambda>aes. ccm_seal (wpa_aes_encrypt aes) (replicate 13 7) 8 [1, 2, 3] [4])
      (aes_encrypt_init (\<lambda>n. True) (replicate 16 0))"
  using aes_ccm_ae_is_rfc3610 [of "replicate 13 7" "\<lambda>n. True" "replicate 16 0" 8 "[1, 2, 3]" "[4]"] by simp

text \<open>
  C15. \<open>aes_ccm_ad\<close> accepts exactly what \<open>aes_ccm_ae\<close> produces under the same key, nonce and
  associated data, and returns the plaintext that was sealed: nothing else is accepted, and
  everything sealed is.
\<close>

theorem aes_ccm_ad_accepts_exactly_sealed:
  assumes "13 \<le> length nonce" and "length auth = M"
  shows "aes_ccm_ad alloc key nonce M crypt aad auth = Some plain \<longleftrightarrow>
    aes_ccm_ae alloc key nonce M plain aad = Some (crypt, auth)"
  using assms by (rule aes_ccm_ad_iff)

theorem aes_ccm_ad_accepts_exactly_sealed_witness:
  "aes_ccm_ad (\<lambda>n. True) (replicate 16 0) (replicate 13 7) 8 [1, 2, 3] [4] (replicate 8 9) = Some [5, 6, 7] \<longleftrightarrow>
    aes_ccm_ae (\<lambda>n. True) (replicate 16 0) (replicate 13 7) 8 [5, 6, 7] [4] = Some ([1, 2, 3], replicate 8 9)"
  by (rule aes_ccm_ad_accepts_exactly_sealed) simp_all

end
