(* ===== verification/AES_GCM.thy ===== *)
theory AES_GCM
  imports AES_CCM
begin

unbundle bit_operations_syntax

text \<open>
  Galois/Counter Mode and GMAC, \<^verbatim>\<open>core/crypto/aes-gcm.c\<close>. The reference is SP 800-38D: the
  multiplication of \<open>gf_mult\<close> is the one of the polynomial ring over two elements modulo
  $x^{128} + x^7 + x^2 + x + 1$, the first bit of a block being the constant coefficient.
\<close>

section \<open>Definitions of the source\<close>

definition inc32 :: "bytes \<Rightarrow> bytes" where
  "inc32 block = memcpy_at block (16 - 4) (RTW_PUT_BE32 (RTW_GET_BE32 (drop (16 - 4) block) + 1))"

definition xor_block :: "bytes \<Rightarrow> bytes \<Rightarrow> bytes" where
  "xor_block dst src =
     RTW_PUT_LE32 (RTW_GET_LE32 dst XOR RTW_GET_LE32 src) @
     RTW_PUT_LE32 (RTW_GET_LE32 (drop 4 dst) XOR RTW_GET_LE32 (drop 4 src)) @
     RTW_PUT_LE32 (RTW_GET_LE32 (drop 8 dst) XOR RTW_GET_LE32 (drop 8 src)) @
     RTW_PUT_LE32 (RTW_GET_LE32 (drop 12 dst) XOR RTW_GET_LE32 (drop 12 src)) @ drop 16 dst"

definition shift_right_block :: "bytes \<Rightarrow> bytes" where
  "shift_right_block v =
     (let val = drop_bit 1 (RTW_GET_BE32 (drop 12 v));
          val = (if v ! 11 AND 1 \<noteq> 0 then val OR 0x80000000 else val);
          v = memcpy_at v 12 (RTW_PUT_BE32 val);
          val = drop_bit 1 (RTW_GET_BE32 (drop 8 v));
          val = (if v ! 7 AND 1 \<noteq> 0 then val OR 0x80000000 else val);
          v = memcpy_at v 8 (RTW_PUT_BE32 val);
          val = drop_bit 1 (RTW_GET_BE32 (drop 4 v));
          val = (if v ! 3 AND 1 \<noteq> 0 then val OR 0x80000000 else val);
          v = memcpy_at v 4 (RTW_PUT_BE32 val);
          val = drop_bit 1 (RTW_GET_BE32 v)
      in memcpy_at v 0 (RTW_PUT_BE32 val))"

definition gf_mult_step :: "bytes \<Rightarrow> nat \<Rightarrow> bytes \<times> bytes \<Rightarrow> nat \<Rightarrow> bytes \<times> bytes" where
  "gf_mult_step x i = (\<lambda>(z, v) j.
     let z = (if x ! i AND push_bit (7 - j) 1 \<noteq> 0 then xor_block z v else z)
     in if v ! 15 AND 1 \<noteq> 0
        then let v = shift_right_block v in (z, v[0 := v ! 0 XOR 0xe1])
        else (z, shift_right_block v))"

definition gf_mult :: "bytes \<Rightarrow> bytes \<Rightarrow> bytes" where
  "gf_mult x y =
     fst (foldl (\<lambda>zv i. foldl (gf_mult_step x i) zv [0..<8]) (replicate 16 0, take 16 y) [0..<16])"

definition ghash_start :: bytes where
  "ghash_start = replicate 16 0"

fun ghash_loop :: "bytes \<Rightarrow> nat \<Rightarrow> bytes \<Rightarrow> bytes \<Rightarrow> bytes \<times> bytes" where
  "ghash_loop h 0 xpos y = (xpos, y)"
| "ghash_loop h (Suc n) xpos y = ghash_loop h n (drop 16 xpos) (gf_mult (xor_block y xpos) h)"

definition ghash :: "bytes \<Rightarrow> bytes \<Rightarrow> bytes \<Rightarrow> bytes" where
  "ghash h x y =
     (let (xpos, y) = ghash_loop h (length x div 16) x y
      in if xpos \<noteq> []
         then gf_mult (xor_block y (xpos @ replicate (16 - length xpos) 0)) h
         else y)"

fun aes_gctr_loop :: "aes_ctx \<Rightarrow> nat \<Rightarrow> bytes \<Rightarrow> bytes \<Rightarrow> bytes \<times> bytes \<times> bytes" where
  "aes_gctr_loop aes 0 cb xpos = ([], cb, xpos)"
| "aes_gctr_loop aes (Suc n) cb xpos =
     (let y = xor_block (wpa_aes_encrypt aes cb) xpos;
          (ys, cb', xpos') = aes_gctr_loop aes n (inc32 cb) (drop 16 xpos)
      in (y @ ys, cb', xpos'))"

definition aes_gctr :: "aes_ctx \<Rightarrow> bytes \<Rightarrow> bytes \<Rightarrow> bytes" where
  "aes_gctr aes icb x =
     (if length x = 0 then []
      else let (y, cb, xpos) = aes_gctr_loop aes (length x div 16) (take 16 icb) x;
               last = length xpos
           in if last \<noteq> 0
              then y @ xor_bytes xpos (take last (wpa_aes_encrypt aes cb))
              else y)"

definition aes_gcm_init_hash_subkey :: "(nat \<Rightarrow> bool) \<Rightarrow> bytes \<Rightarrow> (aes_ctx \<times> bytes) option" where
  "aes_gcm_init_hash_subkey alloc key =
     (case aes_encrypt_init alloc key of None \<Rightarrow> None
      | Some aes \<Rightarrow> Some (aes, wpa_aes_encrypt aes (replicate 16 0)))"

definition aes_gcm_prepare_j0 :: "bytes \<Rightarrow> bytes \<Rightarrow> bytes" where
  "aes_gcm_prepare_j0 iv H =
     (if length iv = 12 then (iv @ replicate (16 - length iv) 0)[16 - 1 := 1]
      else let J0 = ghash H iv ghash_start;
               len_buf = RTW_PUT_BE64 0 @ RTW_PUT_BE64 (word_of_nat (length iv * 8))
           in ghash H len_buf J0)"

definition aes_gcm_gctr :: "aes_ctx \<Rightarrow> bytes \<Rightarrow> bytes \<Rightarrow> bytes" where
  "aes_gcm_gctr aes J0 inp =
     (if length inp = 0 then []
      else let J0inc = inc32 (take 16 J0) in aes_gctr aes J0inc inp)"

definition aes_gcm_ghash :: "bytes \<Rightarrow> bytes \<Rightarrow> bytes \<Rightarrow> bytes" where
  "aes_gcm_ghash H aad crypt =
     (let S = ghash H aad ghash_start;
          S = ghash H crypt S;
          len_buf = RTW_PUT_BE64 (word_of_nat (length aad * 8)) @ RTW_PUT_BE64 (word_of_nat (length crypt * 8))
      in ghash H len_buf S)"

definition aes_gcm_ae :: "(nat \<Rightarrow> bool) \<Rightarrow> bytes \<Rightarrow> bytes \<Rightarrow> bytes \<Rightarrow> bytes \<Rightarrow> (bytes \<times> bytes) option" where
  "aes_gcm_ae alloc key iv plain aad =
     (case aes_gcm_init_hash_subkey alloc key of None \<Rightarrow> None
      | Some (aes, H) \<Rightarrow>
        let J0 = aes_gcm_prepare_j0 iv H;
            crypt = aes_gcm_gctr aes J0 plain;
            S = aes_gcm_ghash H aad crypt;
            tag = aes_gctr aes J0 S
        in Some (crypt, tag))"

definition aes_gcm_ad ::
  "(nat \<Rightarrow> bool) \<Rightarrow> bytes \<Rightarrow> bytes \<Rightarrow> bytes \<Rightarrow> bytes \<Rightarrow> bytes \<Rightarrow> bytes option" where
  "aes_gcm_ad alloc key iv crypt aad tag =
     (case aes_gcm_init_hash_subkey alloc key of None \<Rightarrow> None
      | Some (aes, H) \<Rightarrow>
        let J0 = aes_gcm_prepare_j0 iv H;
            plain = aes_gcm_gctr aes J0 crypt;
            S = aes_gcm_ghash H aad crypt;
            T = aes_gctr aes J0 S
        in if os_memcmp_const tag T 16 \<noteq> 0 then None else Some plain)"

definition aes_gmac :: "(nat \<Rightarrow> bool) \<Rightarrow> bytes \<Rightarrow> bytes \<Rightarrow> bytes \<Rightarrow> bytes option" where
  "aes_gmac alloc key iv aad = map_option snd (aes_gcm_ae alloc key iv [] aad)"

section \<open>The ring of polynomials\<close>

text \<open>Multiplication by \<open>x\<close>, and the sum of the shifted multiplicand over the set bits.\<close>

definition gcm_mulx :: "128 word \<Rightarrow> 128 word" where
  "gcm_mulx v = drop_bit 1 v XOR (if bit v 0 then push_bit 120 0xe1 else 0)"

primrec xor_sum :: "(nat \<Rightarrow> 128 word) \<Rightarrow> nat \<Rightarrow> 128 word" where
  "xor_sum f 0 = 0"
| "xor_sum f (Suc n) = xor_sum f n XOR f n"

definition gcm_mul :: "128 word \<Rightarrow> 128 word \<Rightarrow> 128 word" where
  "gcm_mul x y = xor_sum (\<lambda>k. if bit x (127 - k) then (gcm_mulx ^^ k) y else 0) 128"

definition gcm_one :: "128 word" where
  "gcm_one = push_bit 127 1"

text \<open>Additive maps.\<close>

definition additive :: "(128 word \<Rightarrow> 128 word) \<Rightarrow> bool" where
  "additive L \<longleftrightarrow> L 0 = 0 \<and> (\<forall>a b. L (a XOR b) = L a XOR L b)"

lemma additive_xor_sum: "additive L \<Longrightarrow> L (xor_sum f n) = xor_sum (\<lambda>k. L (f k)) n"
  by (induction n) (simp_all add: additive_def)

lemma xor_sum_xor: "xor_sum (\<lambda>k. f k XOR g k) n = xor_sum f n XOR xor_sum g n"
  by (induction n) (simp_all add: ac_simps)

lemma xor_sum_zero [simp]: "xor_sum (\<lambda>k. 0) n = 0"
  by (induction n) simp_all

lemma xor_sum_swap: "xor_sum (\<lambda>i. xor_sum (\<lambda>j. f i j) m) n = xor_sum (\<lambda>j. xor_sum (\<lambda>i. f i j) n) m"
  by (induction n) (simp_all add: xor_sum_xor)

lemma xor_sum_cong: "(\<And>k. k < n \<Longrightarrow> f k = g k) \<Longrightarrow> xor_sum f n = xor_sum g n"
  by (induction n) simp_all

lemma additive_mulx: "additive gcm_mulx"
  by (simp add: additive_def gcm_mulx_def bit_xor_iff ac_simps)

lemma additive_funpow: "additive (gcm_mulx ^^ k)"
proof (induction k)
  case (Suc k)
  then show ?case using additive_mulx by (simp add: additive_def)
qed (simp add: additive_def)

lemma additive_gcm_mul: "additive (gcm_mul x)"
  using additive_funpow
  by (simp add: additive_def gcm_mul_def xor_sum_xor [symmetric] if_distrib cong: if_cong)

text \<open>The powers of \<open>x\<close> below 128 are the unit vectors, so every block is a sum of them.\<close>

lemma mulx_unit:
  assumes "0 < k" and "k < 128"
  shows "gcm_mulx (push_bit k 1) = push_bit (k - 1) 1"
  by (rule word_eqI_bits) (use assms in \<open>auto simp: gcm_mulx_def bit_simps\<close>)

lemma funpow_mulx_one: "k < 128 \<Longrightarrow> (gcm_mulx ^^ k) gcm_one = push_bit (127 - k) 1"
proof (induction k)
  case (Suc k)
  then show ?case using mulx_unit [of "127 - k"] by simp
qed (simp add: gcm_one_def)

lemma bit_unit_sum:
  assumes "n \<le> 128" and "m < 128"
  shows "bit (xor_sum (\<lambda>k. if bit x (127 - k) then push_bit (127 - k) 1 else 0) n) m \<longleftrightarrow> bit x m \<and> 127 - m < n"
  using assms
proof (induction n)
  case (Suc n)
  have "bit (if bit x (127 - n) then push_bit (127 - n) 1 else (0 :: 128 word)) m \<longleftrightarrow> bit x m \<and> m = 127 - n"
    using Suc.prems by (auto simp: bit_simps)
  then show ?case using Suc by (auto simp: bit_xor_iff)
qed simp

lemma gcm_unit_sum: "xor_sum (\<lambda>k. if bit x (127 - k) then (gcm_mulx ^^ k) gcm_one else 0) 128 = x"
proof -
  have "xor_sum (\<lambda>k. if bit x (127 - k) then (gcm_mulx ^^ k) gcm_one else 0) 128 =
      xor_sum (\<lambda>k. if bit x (127 - k) then push_bit (127 - k) 1 else 0) 128"
    by (rule xor_sum_cong) (simp add: funpow_mulx_one)
  also have "\<dots> = x" by (rule word_eqI_bits) (auto simp: bit_unit_sum)
  finally show ?thesis .
qed

lemma gcm_mul_one_right: "gcm_mul x gcm_one = x"
  unfolding gcm_mul_def by (rule gcm_unit_sum)

lemma gcm_mul_powers:
  "gcm_mul x y = xor_sum (\<lambda>k. xor_sum (\<lambda>j.
     if bit x (127 - k) \<and> bit y (127 - j) then (gcm_mulx ^^ (k + j)) gcm_one else 0) 128) 128"
proof -
  have "(gcm_mulx ^^ k) y = xor_sum (\<lambda>j. if bit y (127 - j) then (gcm_mulx ^^ (k + j)) gcm_one else 0) 128" for k
  proof -
    have "(gcm_mulx ^^ k) y =
        (gcm_mulx ^^ k) (xor_sum (\<lambda>j. if bit y (127 - j) then (gcm_mulx ^^ j) gcm_one else 0) 128)"
      by (simp only: gcm_unit_sum)
    also have "\<dots> = xor_sum (\<lambda>j. (gcm_mulx ^^ k) (if bit y (127 - j) then (gcm_mulx ^^ j) gcm_one else 0)) 128"
      by (rule additive_xor_sum [OF additive_funpow])
    also have "\<dots> = xor_sum (\<lambda>j. if bit y (127 - j) then (gcm_mulx ^^ (k + j)) gcm_one else 0) 128"
      using additive_funpow [of k] by (intro xor_sum_cong) (simp add: additive_def funpow_add)
    finally show ?thesis .
  qed
  then show ?thesis
    unfolding gcm_mul_def by (intro xor_sum_cong) simp
qed

lemma gcm_mul_commute: "gcm_mul x y = gcm_mul y x"
proof -
  have "gcm_mul x y = xor_sum (\<lambda>j. xor_sum (\<lambda>k.
     if bit x (127 - k) \<and> bit y (127 - j) then (gcm_mulx ^^ (k + j)) gcm_one else 0) 128) 128"
    unfolding gcm_mul_powers by (rule xor_sum_swap)
  also have "\<dots> = gcm_mul y x"
    unfolding gcm_mul_powers by (intro xor_sum_cong) (simp add: conj_commute add.commute)
  finally show ?thesis .
qed

lemma gcm_mul_mulx: "gcm_mul x (gcm_mulx y) = gcm_mulx (gcm_mul x y)"
  unfolding gcm_mul_def additive_xor_sum [OF additive_mulx]
  using additive_mulx by (intro xor_sum_cong) (simp add: funpow_swap1 additive_def)

lemma gcm_mul_funpow: "gcm_mul x ((gcm_mulx ^^ k) y) = (gcm_mulx ^^ k) (gcm_mul x y)"
  by (induction k) (simp_all add: gcm_mul_mulx)

lemma gcm_mul_assoc: "gcm_mul (gcm_mul x y) z = gcm_mul x (gcm_mul y z)"
proof -
  have "gcm_mul z (gcm_mul x y) = xor_sum (\<lambda>k. gcm_mul x (if bit z (127 - k) then (gcm_mulx ^^ k) y else 0)) 128"
    unfolding gcm_mul_def [of z] using additive_gcm_mul [of x]
    by (intro xor_sum_cong) (simp add: gcm_mul_funpow additive_def)
  also have "\<dots> = gcm_mul x (gcm_mul z y)"
    unfolding gcm_mul_def [of z] by (rule additive_xor_sum [OF additive_gcm_mul, symmetric])
  finally show ?thesis by (simp add: gcm_mul_commute)
qed

section \<open>The multiplication of the source\<close>

lemma and_1_bit: "w AND 1 \<noteq> 0 \<longleftrightarrow> bit w 0" for w :: u8
  by (simp add: and_one_eq bit_0 odd_iff_mod_2_eq_one)

lemma and_BIT_bit: "w AND push_bit k 1 \<noteq> 0 \<longleftrightarrow> bit w k" for w :: u8
  by (rule bit_iff_and_push_bit_not_eq_0 [symmetric])

lemma bit_u8_Suc: "bit (w :: u8) (Suc n) \<Longrightarrow> n < 7"
  by (drule bit_imp_le_length) simp

lemma xor_block_bytes: "length dst = 16 \<Longrightarrow> 16 \<le> length src \<Longrightarrow> xor_block dst src = xor_bytes dst (take 16 src)"
  using xor_aes_block_bytes by (simp add: xor_block_def xor_aes_block_def)

lemma shift_word_bytes:
  "RTW_PUT_BE32 (if e then drop_bit 1 (RTW_GET_BE32 (a # b # c # d # xs)) OR 0x80000000
      else drop_bit 1 (RTW_GET_BE32 (a # b # c # d # xs))) =
    [drop_bit 1 a OR (if e then 0x80 else 0), drop_bit 1 b OR push_bit 7 a,
     drop_bit 1 c OR push_bit 7 b, drop_bit 1 d OR push_bit 7 c]"
proof -
  have "(0x80000000 :: u32) = push_bit 31 1" "(0x80 :: u8) = push_bit 7 1" by simp_all
  then show ?thesis
    by (auto intro!: word_eqI_bits simp: RTW_GET_BE32_def RTW_PUT_BE32_def word_bits
        dest: bit_u8_Suc bit_imp_le_length)
qed

lemma bit_0x80: "bit (0x80 :: u8) n \<longleftrightarrow> n = 7"
  using bit_exp_iff [where 'a = u8, of 7 n] by (auto simp: possible_bit_def)

lemma carry_bit: "(if bit w 0 then 0x80 else 0) = push_bit 7 (w :: u8)"
proof (rule word_eqI_bits)
  fix n assume "n < LENGTH(8)"
  then have "bit (push_bit 7 w) n \<longleftrightarrow> n = 7 \<and> bit w 0"
    by (cases "n = 7") (simp_all add: bit_push_bit_iff)
  then show "bit (if bit w 0 then 0x80 else (0 :: u8)) n = bit (push_bit 7 w) n"
    by (simp only: bit_0x80 bit_0_eq split: if_split) auto
qed

lemma shift_right_block_nth:
  assumes "length v = 16" and "i < 16"
  shows "shift_right_block v ! i = drop_bit 1 (v ! i) OR (if i = 0 then 0 else push_bit 7 (v ! (i - 1)))"
proof -
  obtain a b c d e f g h k l m n p q r s where
    v: "v = [a, b, c, d, e, f, g, h, k, l, m, n, p, q, r, s]" by (rule length_16E [OF assms(1)])
  define sh :: "u8 \<Rightarrow> u8 \<Rightarrow> u8" where "sh x y = drop_bit 1 y OR push_bit 7 x" for x y
  define st where "st v i = memcpy_at v i (RTW_PUT_BE32
      (if v ! (i - 1) AND 1 \<noteq> 0 then drop_bit 1 (RTW_GET_BE32 (drop i v)) OR 0x80000000
       else drop_bit 1 (RTW_GET_BE32 (drop i v))))" for v :: bytes and i
  note stage = st_def memcpy_at_def and_1_bit shift_word_bytes carry_bit sh_def
  have v1: "st v 12 = [a, b, c, d, e, f, g, h, k, l, m, n, sh n p, sh p q, sh q r, sh r s]" (is "_ = ?v1")
    unfolding v by (simp add: stage del: push_bit_numeral One_nat_def split del: if_split cong: if_cong)
  have v2: "st ?v1 8 = [a, b, c, d, e, f, g, h, sh h k, sh k l, sh l m, sh m n, sh n p, sh p q, sh q r, sh r s]" (is "_ = ?v2")
    by (simp add: stage del: push_bit_numeral One_nat_def split del: if_split cong: if_cong)
  have v3: "st ?v2 4 = [a, b, c, d, sh d e, sh e f, sh f g, sh g h, sh h k, sh k l, sh l m, sh m n, sh n p, sh p q, sh q r, sh r s]" (is "_ = ?v3")
    by (simp add: stage del: push_bit_numeral One_nat_def split del: if_split cong: if_cong)
  have v4: "memcpy_at ?v3 0 (RTW_PUT_BE32 (drop_bit 1 (RTW_GET_BE32 ?v3))) =
    [drop_bit 1 a, sh a b, sh b c, sh c d, sh d e, sh e f, sh f g, sh g h, sh h k, sh k l, sh l m, sh m n, sh n p, sh p q, sh q r, sh r s]"
    using shift_word_bytes [of False a b c d]
    by (simp add: memcpy_at_def sh_def del: push_bit_numeral One_nat_def)
  have "shift_right_block v = memcpy_at (st (st (st v 12) 8) 4) 0 (RTW_PUT_BE32 (drop_bit 1 (RTW_GET_BE32 (st (st (st v 12) 8) 4))))"
    by (simp add: shift_right_block_def st_def Let_def del: One_nat_def cong: if_cong)
  then have "shift_right_block v = 
    [drop_bit 1 a, sh a b, sh b c, sh c d, sh d e, sh e f, sh f g, sh g h, sh h k, sh k l, sh l m, sh m n, sh n p, sh p q, sh q r, sh r s]"
    by (simp only: v1 v2 v3 v4)
  then show ?thesis
    using assms(2) unfolding v by (auto simp: sh_def less_Suc_eq eval_nat_numeral)
qed

lemma length_shift_right_block [simp]: "length v = 16 \<Longrightarrow> length (shift_right_block v) = 16"
  by (simp add: shift_right_block_def Let_def)

lemma block_word_shift_right:
  assumes "length v = 16"
  shows "block_word (shift_right_block v) = drop_bit 1 (block_word v)"
proof (rule word_eqI_bits)
  fix n assume "n < LENGTH(128)"
  then have n: "n < 128" by simp
  define q where "q = n div 8"
  define r where "r = n mod 8"
  have nq: "n = 8 * q + r" "r < 8" "q < 16" using n by (auto simp: q_def r_def less_mult_imp_div_less)
  have l: "bit (block_word (shift_right_block v)) n =
      bit (drop_bit 1 (v ! (15 - q)) OR (if q = 15 then 0 else push_bit 7 (v ! (15 - q - 1)))) r"
    using assms nq n by (subst bit_block_word) (auto simp: shift_right_block_nth)
  show "bit (block_word (shift_right_block v)) n = bit (drop_bit 1 (block_word v)) n"
  proof (cases "r = 7")
    case True
    have "bit (block_word v) (Suc n) \<longleftrightarrow> q < 15 \<and> bit (v ! (14 - q)) 0"
      using assms nq True by (auto simp: bit_block_word bit_block_word_rev rev_nth)
    then show ?thesis using True nq unfolding l by (auto simp: bit_simps)
  next
    case False
    then have "Suc n div 8 = q" "Suc n mod 8 = Suc r" "Suc n < 128" using nq by (auto simp: div_mult_self4)
    then have "bit (block_word v) (Suc n) = bit (v ! (15 - q)) (Suc r)"
      using assms by (simp add: bit_block_word)
    then show ?thesis using False nq unfolding l by (auto simp: bit_simps)
  qed
qed

lemma block_word_first: "block_word (c # replicate 15 0) = push_bit 120 (ucast c)"
proof (rule word_eqI_bits)
  fix n assume "n < LENGTH(128)"
  then have n: "n < 128" by simp
  show "bit (block_word (c # replicate 15 0)) n = bit (push_bit 120 (ucast c) :: 128 word) n"
  proof (cases "120 \<le> n")
    case True
    then have "15 - n div 8 = 0" "n mod 8 = n - 120" using n by presburger+
    then show ?thesis using True n by (auto simp: bit_block_word bit_simps)
  next
    case False
    then have "n div 8 < 15" by (simp add: less_mult_imp_div_less)
    then show ?thesis using False n by (simp add: bit_block_word bit_push_bit_iff)
  qed
qed

text \<open>Reduction: \<open>R\<close> is \<open>0xe1\<close> in the first byte.\<close>

lemma block_word_R: "length v = 16 \<Longrightarrow> block_word (v[0 := v ! 0 XOR 0xe1]) = block_word v XOR push_bit 120 0xe1"
proof -
  assume len: "length v = 16"
  have "v[0 := v ! 0 XOR 0xe1] = xor_bytes v (0xe1 # replicate 15 0)"
    by (rule nth_equalityI) (use len in \<open>auto simp: nth_list_update nth_Cons split: nat.split\<close>)
  moreover have "block_word (0xe1 # replicate 15 0) = push_bit 120 0xe1"
    using block_word_first [of "0xe1"] by simp
  ultimately show ?thesis using len by (simp add: block_word_xor)
qed

lemma gf_mult_step_word:
  assumes "length z = 16" and "length v = 16" and "length x = 16" and "i < 16" and "j < 8"
  shows "\<exists>z' v'. gf_mult_step x i (z, v) j = (z', v') \<and> length z' = 16 \<and> length v' = 16 \<and>
    block_word z' = block_word z XOR (if bit (block_word x) (127 - (8 * i + j)) then block_word v else 0) \<and>
    block_word v' = gcm_mulx (block_word v)"
proof -
  have idx: "(127 - (8 * i + j)) div 8 = 15 - i" "(127 - (8 * i + j)) mod 8 = 7 - j"
  proof -
    obtain p r where pr: "15 - i = p" "7 - j = r" by simp
    then have "127 - (8 * i + j) = 8 * p + r" "r < 8" using assms(4,5) by auto
    then show "(127 - (8 * i + j)) div 8 = 15 - i" "(127 - (8 * i + j)) mod 8 = 7 - j"
      unfolding pr by simp_all
  qed
  have bx: "bit (block_word x) (127 - (8 * i + j)) = bit (x ! i) (7 - j)"
    using assms(3,4) by (subst bit_block_word) (simp_all add: idx)
  have b0: "bit (block_word v) 0 = bit (v ! 15) 0" using assms(2) by (simp add: bit_block_word)
  show ?thesis
    using assms unfolding gf_mult_step_def and_BIT_bit and_1_bit bx
    by (simp add: xor_block_bytes block_word_xor gcm_mulx_def b0 block_word_R block_word_shift_right Let_def)
qed

lemma gf_mult_inner:
  assumes "length z = 16" and "length v = 16" and "length x = 16" and "i < 16" and "j \<le> 8"
  shows "\<exists>z' v'. foldl (gf_mult_step x i) (z, v) [0..<j] = (z', v') \<and> length z' = 16 \<and> length v' = 16 \<and>
    block_word z' = block_word z XOR
      xor_sum (\<lambda>k. if bit (block_word x) (127 - (8 * i + k)) then (gcm_mulx ^^ k) (block_word v) else 0) j \<and>
    block_word v' = (gcm_mulx ^^ j) (block_word v)"
  using assms(5)
proof (induction j)
  case (Suc j)
  then obtain z' v' where IH: "foldl (gf_mult_step x i) (z, v) [0..<j] = (z', v')" "length z' = 16" "length v' = 16"
    "block_word z' = block_word z XOR
      xor_sum (\<lambda>k. if bit (block_word x) (127 - (8 * i + k)) then (gcm_mulx ^^ k) (block_word v) else 0) j"
    "block_word v' = (gcm_mulx ^^ j) (block_word v)" by auto
  then show ?case
    using gf_mult_step_word [OF IH(2,3) assms(3,4), of j] Suc.prems by (auto simp: xor.assoc)
qed (use assms in simp)

lemma xor_sum_add: "xor_sum f (m + n) = xor_sum f m XOR xor_sum (\<lambda>k. f (m + k)) n"
  by (induction n) (simp_all add: ac_simps)

lemma gf_mult_outer:
  assumes "length x = 16" and "length y = 16" and "i \<le> 16"
  shows "\<exists>z' v'. foldl (\<lambda>zv i. foldl (gf_mult_step x i) zv [0..<8]) (replicate 16 0, y) [0..<i] = (z', v') \<and>
    length z' = 16 \<and> length v' = 16 \<and>
    block_word z' =
      xor_sum (\<lambda>k. if bit (block_word x) (127 - k) then (gcm_mulx ^^ k) (block_word y) else 0) (8 * i) \<and>
    block_word v' = (gcm_mulx ^^ (8 * i)) (block_word y)"
  using assms(3)
proof (induction i)
  case (Suc i)
  then obtain z' v' where IH:
    "foldl (\<lambda>zv i. foldl (gf_mult_step x i) zv [0..<8]) (replicate 16 0, y) [0..<i] = (z', v')"
    "length z' = 16" "length v' = 16"
    "block_word z' = xor_sum (\<lambda>k. if bit (block_word x) (127 - k) then (gcm_mulx ^^ k) (block_word y) else 0) (8 * i)"
    "block_word v' = (gcm_mulx ^^ (8 * i)) (block_word y)" by auto
  have f: "(gcm_mulx ^^ k) ((gcm_mulx ^^ (8 * i)) w) = (gcm_mulx ^^ (8 * i + k)) w" for k w
    by (simp add: funpow_add add.commute)
  have s: "8 * Suc i = 8 * i + 8" by simp
  obtain z'' v'' where in1: "foldl (gf_mult_step x i) (z', v') [0..<8] = (z'', v'')" "length z'' = 16" "length v'' = 16"
    "block_word z'' = block_word z' XOR
      xor_sum (\<lambda>k. if bit (block_word x) (127 - (8 * i + k)) then (gcm_mulx ^^ k) (block_word v') else 0) 8"
    "block_word v'' = (gcm_mulx ^^ 8) (block_word v')"
    using gf_mult_inner [OF IH(2,3) assms(1), of i 8] Suc.prems by auto
  have "foldl (\<lambda>zv i. foldl (gf_mult_step x i) zv [0..<8]) (replicate 16 0, y) [0..<Suc i] = (z'', v'')"
    by (simp add: IH(1) in1(1) del: upt_Suc add: upt_Suc_append)
  then show ?case
    using in1 IH(4,5) unfolding s xor_sum_add by (simp add: f del: mult_Suc_right cong: if_cong)
qed (simp add: assms)

lemma gf_mult_word:
  assumes "length x = 16" and "length y = 16"
  shows "block_word (gf_mult x y) = gcm_mul (block_word x) (block_word y)" and "length (gf_mult x y) = 16"
  using gf_mult_outer [OF assms, of 16] assms(2) by (auto simp: gf_mult_def gcm_mul_def)

lemma gf_mult_eqI:
  assumes "length a = 16" and "length b = 16" and "block_word a = block_word b"
  shows "a = b"
  using assms block_word_inject by blast

text \<open>
  The product of the standard on blocks, on the 128-bit words they stand for, which no
  definition of the code enters; \<open>gf_mult\<close> computes it.
\<close>

definition gcm_dot :: "bytes \<Rightarrow> bytes \<Rightarrow> bytes" where
  "gcm_dot x y = be_bytes 16 (gcm_mul (be_word x) (be_word y))"

lemma length_gcm_dot [simp]: "length (gcm_dot x y) = 16"
  by (simp add: gcm_dot_def)

lemma gf_mult_dot:
  assumes "length x = 16" and "length y = 16"
  shows "gf_mult x y = gcm_dot x y"
  by (rule gf_mult_eqI)
    (simp_all add: assms gf_mult_word gcm_dot_def block_word_be block_word_be_bytes)

section \<open>Counters\<close>

lemma length_inc32 [simp]: "length cb = 16 \<Longrightarrow> length (inc32 cb) = 16"
  by (simp add: inc32_def)

lemma inc32_funpow:
  assumes "length cb = 16"
  shows "(inc32 ^^ n) cb = take 12 cb @ RTW_PUT_BE32 (RTW_GET_BE32 (drop 12 cb) + word_of_nat n)"
proof (induction n)
  case 0
  have "drop 12 cb = [cb ! 12, cb ! 13, cb ! 14, cb ! 15]"
    by (subst length_16_nth [OF assms]) simp
  then have "RTW_PUT_BE32 (RTW_GET_BE32 (drop 12 cb)) = drop 12 cb" by (simp add: byte_order)
  then show ?case by simp
next
  case (Suc n)
  have "RTW_GET_BE32 (RTW_PUT_BE32 w) = w" for w
    using RTW_GET_PUT_BE32 [of w "[]"] by simp
  then show ?case using Suc assms by (simp add: inc32_def memcpy_at_def ac_simps)
qed

lemma aes_gctr_loop_stream:
  assumes "length cb = 16" and "16 * n \<le> length xpos"
  shows "aes_gctr_loop aes n cb xpos =
    (stream_xor (\<lambda>i. wpa_aes_encrypt aes ((inc32 ^^ i) cb)) 0 (take (16 * n) xpos), (inc32 ^^ n) cb, drop (16 * n) xpos)"
  using assms
proof (induction n arbitrary: cb xpos)
  case (Suc n)
  have ne: "take (16 + 16 * n) xpos \<noteq> []" using Suc.prems(2) by auto
  have t: "take 16 (take (16 + 16 * n) xpos) = take 16 xpos"
    "drop 16 (take (16 + 16 * n) xpos) = take (16 * n) (drop 16 xpos)"
    by (simp_all add: drop_take)
  have x: "xor_block (wpa_aes_encrypt aes cb) xpos = xor_bytes (take 16 xpos) (wpa_aes_encrypt aes cb)"
    using Suc.prems(2) by (simp add: xor_block_bytes xor_bytes_commute)
  have "stream_xor (\<lambda>i. wpa_aes_encrypt aes ((inc32 ^^ i) (inc32 cb))) 0 d =
      stream_xor (\<lambda>i. wpa_aes_encrypt aes ((inc32 ^^ i) cb)) (Suc 0) d" for d
    using stream_xor_shift [of "\<lambda>i. wpa_aes_encrypt aes ((inc32 ^^ i) cb)" 0 1 d]
    by (simp add: funpow_swap1)
  then show ?case
    using Suc.IH [of "inc32 cb" "drop 16 xpos"] Suc.prems
    by (simp add: stream_xor_nonempty [OF ne] t x funpow_swap1 add.commute)
qed simp

lemma aes_gctr_stream:
  assumes "length icb = 16"
  shows "aes_gctr aes icb x = stream_xor (\<lambda>i. wpa_aes_encrypt aes ((inc32 ^^ i) icb)) 0 x"
proof -
  let ?n = "length x div 16" and ?ks = "\<lambda>i. wpa_aes_encrypt aes ((inc32 ^^ i) icb)"
  let ?d = "drop (16 * ?n) x"
  have loop: "aes_gctr_loop aes ?n icb x = (stream_xor ?ks 0 (take (16 * ?n) x), (inc32 ^^ ?n) icb, ?d)"
    by (rule aes_gctr_loop_stream [OF assms]) simp
  have split: "stream_xor ?ks 0 x = stream_xor ?ks 0 (take (16 * ?n) x) @ stream_xor ?ks ?n ?d"
    using stream_xor_split [of ?ks 0 ?n x] by simp
  have short: "stream_xor ?ks ?n ?d = xor_bytes ?d (?ks ?n)"
    by (rule stream_xor_short, subst length_tail16) (simp add: less_imp_le)
  have tk: "xor_bytes ?d (take (length ?d) (?ks ?n)) = xor_bytes ?d (?ks ?n)"
    using take_xor_bytes [of "length ?d" ?d "?ks ?n"] by simp
  show ?thesis
  proof (cases "x = []")
    case False
    then show ?thesis
      using assms unfolding split short
      by (simp add: aes_gctr_def loop Let_def tk [simplified])
  qed (simp add: aes_gctr_def)
qed

section \<open>GHASH\<close>

lemma ghash_loop_chain:
  assumes "length y = 16" and "length h = 16" and "16 * n \<le> length x"
  shows "ghash_loop h n x y = (drop (16 * n) x, cbc_mac (\<lambda>b. gcm_dot b h) y (take (16 * n) x))"
    and "length (cbc_mac (\<lambda>b. gcm_dot b h) y (take (16 * n) x)) = 16"
  using assms
proof (induction n arbitrary: x y)
  case (Suc n)
  {
    case 1
    have "take (16 * Suc n) x = take 16 x @ take (16 * n) (drop 16 x)" by (simp add: take_add)
    moreover have "length (take 16 x) = 16" using 1 by simp
    ultimately show ?case using 1 Suc(1) [of "gf_mult (xor_block y x) h" "drop 16 x"]
      by (simp add: cbc_mac_block xor_block_bytes gf_mult_dot add.commute)
  next
    case 2
    have "take (16 * Suc n) x = take 16 x @ take (16 * n) (drop 16 x)" by (simp add: take_add)
    moreover have "length (take 16 x) = 16" using 2 by simp
    ultimately show ?case using 2 Suc(2) [of "gcm_dot (xor_bytes y (take 16 x)) h" "drop 16 x"]
      by (simp add: cbc_mac_block gf_mult_dot)
  }
qed simp_all

lemma ghash_chain:
  assumes "length y = 16" and "length h = 16"
  shows "ghash h x y = cbc_mac (\<lambda>b. gcm_dot b h) y (pad16 x)" and "length (ghash h x y) = 16"
proof -
  let ?n = "length x div 16" and ?d = "drop (16 * (length x div 16)) x"
  have le: "16 * ?n \<le> length x" by simp
  note loop = ghash_loop_chain [OF assms le]
  have r: "length ?d = length x mod 16" by (rule length_tail16)
  have pad: "?d @ replicate (16 - length ?d) 0 = pad16 ?d" "length (pad16 ?d) = 16" if "?d \<noteq> []"
    using that r pad16_tail [of ?d] by auto
  have iff: "length x mod 16 = 0 \<longleftrightarrow> ?d = []" using r by (metis length_0_conv)
  show eq: "ghash h x y = cbc_mac (\<lambda>b. gcm_dot b h) y (pad16 x)"
  proof (cases "?d = []")
    case True
    then show ?thesis unfolding ghash_def loop(1) cbc_mac_pad16 iff Let_def prod.case by simp
  next
    case False
    have "xor_block (cbc_mac (\<lambda>b. gcm_dot b h) y (take (16 * ?n) x)) (pad16 ?d) =
        xor_bytes (cbc_mac (\<lambda>b. gcm_dot b h) y (take (16 * ?n) x)) (pad16 ?d)"
      using loop(2) pad(2) [OF False] by (simp add: xor_block_bytes)
    moreover have "gf_mult (xor_bytes (cbc_mac (\<lambda>b. gcm_dot b h) y (take (16 * ?n) x)) (pad16 ?d)) h =
        gcm_dot (xor_bytes (cbc_mac (\<lambda>b. gcm_dot b h) y (take (16 * ?n) x)) (pad16 ?d)) h"
      using loop(2) pad(2) [OF False] assms(2) by (intro gf_mult_dot) simp_all
    ultimately show ?thesis
      unfolding ghash_def loop(1) cbc_mac_pad16 iff Let_def prod.case pad(1) [OF False]
      by (simp only: False simp_thms if_True if_False)
  qed
  show "length (ghash h x y) = 16"
    unfolding eq cbc_mac_pad16 iff Let_def
    using loop(2) pad assms by (auto simp: gf_mult_word)
qed

section \<open>Sealing and opening\<close>

text \<open>The reference of SP 800-38D, over a block cipher \<open>E\<close>.\<close>

definition gcm_hash :: "bytes \<Rightarrow> bytes \<Rightarrow> bytes" where
  "gcm_hash H data = cbc_mac (\<lambda>b. gcm_dot b H) (replicate 16 0) data"

definition gcm_len64 :: "bytes \<Rightarrow> bytes" where
  "gcm_len64 data = be_bytes 8 (word_of_nat (length data * 8) :: u64)"

definition gcm_j0 :: "bytes \<Rightarrow> bytes \<Rightarrow> bytes" where
  "gcm_j0 H iv =
     (if length iv = 12 then iv @ [0, 0, 0, 1]
      else gcm_hash H (pad16 iv @ replicate 8 0 @ gcm_len64 iv))"

definition gcm_ctr :: "bytes \<Rightarrow> nat \<Rightarrow> bytes" where
  "gcm_ctr j0 i = take 12 j0 @ be_bytes 4 (be_word (drop 12 j0) + word_of_nat i :: u32)"

definition gcm_seal :: "(bytes \<Rightarrow> bytes) \<Rightarrow> bytes \<Rightarrow> bytes \<Rightarrow> bytes \<Rightarrow> bytes \<times> bytes" where
  "gcm_seal E iv plain aad =
     (let H = E (replicate 16 0); J = gcm_j0 H iv;
          C = stream_xor (\<lambda>i. E (gcm_ctr J i)) 1 plain;
          S = gcm_hash H (pad16 aad @ pad16 C @ gcm_len64 aad @ gcm_len64 C)
      in (C, xor_bytes S (E J)))"

lemma gcm_len64_put: "gcm_len64 data = RTW_PUT_BE64 (word_of_nat (length data * 8))"
  by (simp only: gcm_len64_def put_is_be_bytes)

lemma put_be64_0: "RTW_PUT_BE64 0 = replicate 8 0"
  by (simp add: RTW_PUT_BE64_def eval_nat_numeral)

lemma gcm_ctr_put:
  assumes "length J = 16"
  shows "gcm_ctr J i = take 12 J @ RTW_PUT_BE32 (RTW_GET_BE32 (drop 12 J) + word_of_nat i)"
proof -
  have "drop 12 J = [J ! 12, J ! 13, J ! 14, J ! 15]" by (subst length_16_nth [OF assms]) simp
  then show ?thesis by (simp only: gcm_ctr_def put_is_be_bytes get_is_be_word)
qed

lemma ghash_16:
  assumes "length y = 16" and "length h = 16" and "length x = 16"
  shows "ghash h x y = cbc_mac (\<lambda>b. gcm_dot b h) y x"
  using assms by (simp add: ghash_chain)

lemma aes_gcm_ghash_hash:
  assumes "length H = 16"
  shows "aes_gcm_ghash H aad crypt = gcm_hash H (pad16 aad @ pad16 crypt @ gcm_len64 aad @ gcm_len64 crypt)"
    and "length (aes_gcm_ghash H aad crypt) = 16"
proof -
  let ?z = "replicate 16 0" and ?l = "gcm_len64 aad @ gcm_len64 crypt"
  have l: "length ?l = 16" by (simp add: gcm_len64_def)
  have len: "length (ghash H crypt (ghash H aad ?z)) = 16" using assms by (simp add: ghash_chain(2))
  have "aes_gcm_ghash H aad crypt = ghash H ?l (ghash H crypt (ghash H aad ?z))"
    by (simp add: aes_gcm_ghash_def ghash_start_def gcm_len64_put)
  also have "\<dots> = cbc_mac (\<lambda>b. gcm_dot b H) (ghash H crypt (ghash H aad ?z)) ?l"
    by (rule ghash_16 [OF len assms l])
  also have "\<dots> = gcm_hash H (pad16 aad @ pad16 crypt @ ?l)"
    using assms len ghash_chain(2) [of ?z H aad] ghash_chain(1) [of "ghash H aad ?z" H crypt]
    by (simp add: gcm_hash_def cbc_mac_append ghash_chain(1) [of ?z H aad])
  finally show "aes_gcm_ghash H aad crypt = gcm_hash H (pad16 aad @ pad16 crypt @ ?l)" .
  show "length (aes_gcm_ghash H aad crypt) = 16"
    using assms by (simp add: aes_gcm_ghash_def ghash_start_def ghash_chain(2))
qed

lemma aes_gcm_prepare_j0_ref:
  assumes "length H = 16"
  shows "aes_gcm_prepare_j0 iv H = gcm_j0 H iv" and "length (gcm_j0 H iv) = 16"
proof -
  let ?l = "RTW_PUT_BE64 0 @ RTW_PUT_BE64 (word_of_nat (length iv * 8))"
  have len: "length (ghash H iv (replicate 16 0)) = 16" using assms by (simp add: ghash_chain(2))
  have hash: "ghash H ?l (ghash H iv ghash_start) = gcm_hash H (pad16 iv @ ?l)"
    using assms len by (simp add: ghash_16 gcm_hash_def ghash_start_def cbc_mac_append ghash_chain)
  have "(iv @ replicate 4 0)[15 := 1] = iv @ [0, 0, 0, 1]" if "length iv = 12"
    using that by (simp add: list_update_append eval_nat_numeral)
  then show eq: "aes_gcm_prepare_j0 iv H = gcm_j0 H iv"
    using hash by (simp add: aes_gcm_prepare_j0_def gcm_j0_def gcm_len64_put put_be64_0)
  show "length (gcm_j0 H iv) = 16"
    unfolding eq [symmetric] using assms
    by (simp add: aes_gcm_prepare_j0_def ghash_start_def ghash_chain(2) Let_def)
qed

lemma inc32_gcm_ctr: "length J = 16 \<Longrightarrow> (inc32 ^^ i) J = gcm_ctr J i"
  by (simp add: inc32_funpow gcm_ctr_put)

lemma aes_gcm_gctr_stream:
  assumes "length J = 16"
  shows "aes_gcm_gctr aes J inp = stream_xor (\<lambda>i. wpa_aes_encrypt aes (gcm_ctr J i)) 1 inp"
proof -
  have "stream_xor (\<lambda>i. wpa_aes_encrypt aes ((inc32 ^^ i) (inc32 J))) 0 inp =
      stream_xor (\<lambda>i. wpa_aes_encrypt aes ((inc32 ^^ i) J)) 1 inp"
    using stream_xor_shift [of "\<lambda>i. wpa_aes_encrypt aes ((inc32 ^^ i) J)" 0 1 inp]
    by (simp add: funpow_swap1)
  then show ?thesis
    using assms by (simp add: aes_gcm_gctr_def aes_gctr_stream inc32_gcm_ctr [symmetric])
qed

lemma aes_gctr_block:
  assumes "length J = 16" and "length S = 16"
  shows "aes_gctr aes J S = xor_bytes S (wpa_aes_encrypt aes J)"
  using assms by (simp add: aes_gctr_stream stream_xor_short)

lemma aes_gcm_ae_seal:
  assumes "aes_encrypt_init alloc key = Some aes"
  shows "aes_gcm_ae alloc key iv plain aad = Some (gcm_seal (wpa_aes_encrypt aes) iv plain aad)"
  using assms
  by (simp add: aes_gcm_ae_def aes_gcm_init_hash_subkey_def gcm_seal_def aes_gcm_prepare_j0_ref
      aes_gcm_gctr_stream aes_gctr_block aes_gcm_ghash_hash(2) aes_gcm_ghash_hash(1) [symmetric] Let_def)

lemma aes_gcm_ad_open:
  fixes crypt iv :: bytes
  assumes "length tag = 16" and "aes_encrypt_init alloc key = Some aes"
  defines "E \<equiv> wpa_aes_encrypt aes"
  defines "H \<equiv> E (replicate 16 0)"
  defines "plain \<equiv> stream_xor (\<lambda>i. E (gcm_ctr (gcm_j0 H iv) i)) 1 crypt"
  shows "aes_gcm_ad alloc key iv crypt aad tag =
    (if tag = xor_bytes (aes_gcm_ghash H aad crypt) (E (gcm_j0 H iv)) then Some plain else None)"
proof -
  let ?T = "xor_bytes (aes_gcm_ghash H aad crypt) (E (gcm_j0 H iv))"
  have H: "length H = 16" by (simp add: H_def E_def)
  then have "length ?T = 16" by (simp add: aes_gcm_ghash_hash(2) E_def)
  then have "os_memcmp_const tag ?T 16 = 0 \<longleftrightarrow> tag = ?T" using assms(1) by (simp add: os_memcmp_const_0)
  then show ?thesis
    using assms(2) H
    by (simp add: aes_gcm_ad_def aes_gcm_init_hash_subkey_def aes_gcm_prepare_j0_ref aes_gcm_gctr_stream
        aes_gctr_block aes_gcm_ghash_hash(2) E_def [symmetric] H_def [symmetric] plain_def Let_def)
qed

lemma aes_gcm_ad_iff:
  assumes "length tag = 16"
  shows "aes_gcm_ad alloc key iv crypt aad tag = Some plain \<longleftrightarrow>
    aes_gcm_ae alloc key iv plain aad = Some (crypt, tag)"
proof (cases "aes_encrypt_init alloc key")
  case None
  then show ?thesis by (simp add: aes_gcm_ae_def aes_gcm_ad_def aes_gcm_init_hash_subkey_def)
next
  case (Some aes)
  let ?E = "wpa_aes_encrypt aes"
  let ?H = "?E (replicate 16 0)"
  let ?s = "stream_xor (\<lambda>i. ?E (gcm_ctr (gcm_j0 ?H iv) i)) 1"
  have "crypt = ?s plain \<longleftrightarrow> ?s crypt = plain" by (metis aes.stream_involution)
  then show ?thesis
    unfolding aes_gcm_ae_seal [OF Some] aes_gcm_ad_open [OF assms Some]
    by (auto simp: gcm_seal_def Let_def aes_gcm_ghash_hash(1))
qed

lemma aes_gcm_ae_lengths:
  assumes "aes_gcm_ae alloc key iv plain aad = Some (crypt, tag)"
  shows "length crypt = length plain \<and> length tag = 16"
proof -
  from assms obtain aes where aes: "aes_encrypt_init alloc key = Some aes"
    by (auto simp: aes_gcm_ae_def aes_gcm_init_hash_subkey_def split: option.splits)
  show ?thesis
    using assms unfolding aes_gcm_ae_seal [OF aes]
    by (auto simp: gcm_seal_def Let_def aes.stream_length aes_gcm_ghash_hash(1) [symmetric] aes_gcm_ghash_hash(2))
qed

lemma aes_gcm_ae_inj:
  assumes "aes_gcm_ae alloc key iv p aad = Some (c, t)" and "aes_gcm_ae alloc key iv p' aad = Some (c, t')"
  shows "p = p'"
proof -
  from assms(1) obtain aes where aes: "aes_encrypt_init alloc key = Some aes"
    by (auto simp: aes_gcm_ae_def aes_gcm_init_hash_subkey_def split: option.splits)
  let ?s = "stream_xor (\<lambda>i. wpa_aes_encrypt aes (gcm_ctr (gcm_j0 (wpa_aes_encrypt aes (replicate 16 0)) iv) i)) 1"
  have "?s p = ?s p'" using assms unfolding aes_gcm_ae_seal [OF aes] by (auto simp: gcm_seal_def Let_def)
  then show ?thesis by (metis aes.stream_involution)
qed

text \<open>GCM is an authenticated mode with a tag of 16 bytes.\<close>

interpretation gcm: aead
  "\<lambda>k n p a. aes_gcm_ae (fst k) (snd k) n p a" "\<lambda>k n c a t. aes_gcm_ad (fst k) (snd k) n c a t"
  16 "\<lambda>n a. True"
  by unfold_locales (auto simp: aes_gcm_ad_iff dest: aes_gcm_ae_lengths aes_gcm_ae_inj)

section \<open>Properties\<close>

text \<open>
  \<open>gf_mult\<close> is the multiplication of the ring of polynomials over two elements modulo
  $x^{128} + x^7 + x^2 + x + 1$ on 16-byte blocks: commutative, associative, distributive over
  exclusive-or, with the block \<open>80 00 .. 00\<close> as identity, and multiplication by \<open>x\<close> is the
  one-bit shift with reduction by \<open>0xe1\<close>.
\<close>

lemma gf_mult_is_polynomial_ring:
  assumes "length a = 16" and "length b = 16" and "length c = 16"
  shows "gf_mult a b = gf_mult b a \<and>
    gf_mult (gf_mult a b) c = gf_mult a (gf_mult b c) \<and>
    gf_mult a (xor_bytes b c) = xor_bytes (gf_mult a b) (gf_mult a c) \<and>
    gf_mult a (0x80 # replicate 15 0) = a \<and>
    gf_mult a (0x40 # replicate 15 0) =
      (if bit (a ! 15) 0 then xor_bytes (shift_right_block a) (0xe1 # replicate 15 0) else shift_right_block a)"
proof -
  have one: "block_word (0x80 # replicate 15 0) = gcm_one"
    using block_word_first [of "0x80"] by (simp add: gcm_one_def)
  have x: "block_word (0x40 # replicate 15 0) = gcm_mulx gcm_one"
    using block_word_first [of "0x40"] by (simp add: gcm_one_def gcm_mulx_def)
  have e1: "block_word (0xe1 # replicate 15 0) = push_bit 120 0xe1"
    using block_word_first [of "0xe1"] by simp
  have len: "length ((u :: u8) # replicate 15 0) = 16" for u by simp
  have "gf_mult a b = gf_mult b a"
    by (rule gf_mult_eqI) (simp_all add: assms gf_mult_word gcm_mul_commute)
  moreover have "gf_mult (gf_mult a b) c = gf_mult a (gf_mult b c)"
    by (rule gf_mult_eqI) (simp_all add: assms gf_mult_word gcm_mul_assoc)
  moreover have "gf_mult a (xor_bytes b c) = xor_bytes (gf_mult a b) (gf_mult a c)"
    using additive_gcm_mul [of "block_word a"]
    by (intro gf_mult_eqI) (simp_all add: assms gf_mult_word block_word_xor additive_def)
  moreover have "gf_mult a (0x80 # replicate 15 0) = a"
    by (rule gf_mult_eqI) (simp_all add: assms gf_mult_word one gcm_mul_one_right)
  moreover have "block_word (gf_mult a (0x40 # replicate 15 0)) = gcm_mulx (block_word a)"
    by (simp only: gf_mult_word(1) [OF assms(1) len] x gcm_mul_mulx gcm_mul_one_right)
  then have "gf_mult a (0x40 # replicate 15 0) =
      (if bit (a ! 15) 0 then xor_bytes (shift_right_block a) (0xe1 # replicate 15 0) else shift_right_block a)"
    by (intro gf_mult_eqI)
      (simp_all add: assms gf_mult_word(2) gcm_mulx_def e1 bit_block_word block_word_xor block_word_shift_right)
  ultimately show ?thesis by blast
qed

lemma gf_mult_is_polynomial_ring_witness:
  "gf_mult (replicate 16 3) (replicate 16 5) = gf_mult (replicate 16 5) (replicate 16 3)"
  using gf_mult_is_polynomial_ring [of "replicate 16 3" "replicate 16 5" "replicate 16 7"] by simp

text \<open>
  C18. \<open>aes_gcm_ae\<close> computes GCM as SP 800-38D defines it, for an initialisation vector of any
  length: the key stream of incremented counter blocks from \<open>J_0 + 1\<close> over the plaintext, and the
  hash of the padded associated data, padded ciphertext and both bit lengths, masked with the
  encrypted \<open>J_0\<close>. The hash of the reference multiplies in the field of the standard, on 128-bit
  words with the reduction by \<open>11100001\<close> and 120 zeros, and its numbers are written by
  \<open>be_bytes\<close>; it shares no operation with the code but the block cipher. The function fails
  exactly when the cipher context cannot be set up.
\<close>

theorem aes_gcm_ae_is_sp800_38d:
  "aes_gcm_ae alloc key iv plain aad =
    map_option (\<lambda>aes. gcm_seal (wpa_aes_encrypt aes) iv plain aad) (aes_encrypt_init alloc key)"
  by (cases "aes_encrypt_init alloc key")
    (simp_all add: aes_gcm_ae_seal, simp add: aes_gcm_ae_def aes_gcm_init_hash_subkey_def)

theorem aes_gcm_ae_is_sp800_38d_witness:
  "\<exists>aes. aes_encrypt_init (\<lambda>n. True) (replicate 16 0) = Some aes \<and>
    aes_gcm_ae (\<lambda>n. True) (replicate 16 0) (replicate 12 7) [1, 2, 3] [4] =
      Some (gcm_seal (wpa_aes_encrypt aes) (replicate 12 7) [1, 2, 3] [4])"
proof -
  obtain aes where "aes_encrypt_init (\<lambda>n. True) (replicate 16 0) = Some aes"
    using aes_encrypt_init_None_iff [of "\<lambda>n. True" "replicate 16 0"] by auto
  then show ?thesis
    using aes_gcm_ae_is_sp800_38d [of "\<lambda>n. True" "replicate 16 0" "replicate 12 7" "[1, 2, 3]" "[4]"] by simp
qed

text \<open>
  C16. \<open>aes_gcm_ad\<close> accepts exactly what \<open>aes_gcm_ae\<close> produces under the same key, initialisation
  vector and associated data, and returns the plaintext that was sealed.
\<close>

theorem aes_gcm_ad_accepts_exactly_sealed:
  assumes "length tag = 16"
  shows "aes_gcm_ad alloc key iv crypt aad tag = Some plain \<longleftrightarrow>
    aes_gcm_ae alloc key iv plain aad = Some (crypt, tag)"
  using assms by (rule aes_gcm_ad_iff)

theorem aes_gcm_ad_accepts_exactly_sealed_witness:
  "aes_gcm_ad (\<lambda>n. True) (replicate 16 0) (replicate 12 7) [1, 2, 3] [4] (replicate 16 9) = Some [5, 6, 7] \<longleftrightarrow>
    aes_gcm_ae (\<lambda>n. True) (replicate 16 0) (replicate 12 7) [5, 6, 7] [4] = Some ([1, 2, 3], replicate 16 9)"
  by (rule aes_gcm_ad_accepts_exactly_sealed) simp

end
