(* ===== verification/AES_MAC.thy ===== *)
theory AES_MAC
  imports AES_CCM
begin

unbundle bit_operations_syntax

text \<open>
  Counter mode (\<^verbatim>\<open>core/crypto/aes-ctr.c\<close>), OMAC1/CMAC over a vector of buffers
  (\<^verbatim>\<open>core/crypto/aes-omac1.c\<close>) and SIV (\<^verbatim>\<open>core/crypto/aes-siv.c\<close>). References: the counter
  is a 128-bit integer; CMAC is SP 800-38B on the concatenation of the buffers; SIV is RFC 5297.

  \<open>omac1_aes_vector\<close> walks an array of pointers and lengths: the vector is a list of buffers, the
  position is the number of the current buffer and the offset in it, and reading outside the
  current buffer or indexing outside the array gives \<open>Oob\<close>.
\<close>

section \<open>Counter mode\<close>

text \<open>\<open>ctr_inc i counter\<close> is the increment loop from index \<open>i - 1\<close> down to 0.\<close>

fun ctr_inc :: "nat \<Rightarrow> bytes \<Rightarrow> bytes" where
  "ctr_inc 0 counter = counter"
| "ctr_inc (Suc i) counter =
     (let counter = counter[i := counter ! i + 1]
      in if counter ! i \<noteq> 0 then counter else ctr_inc i counter)"

function aes_ctr_loop :: "aes_ctx \<Rightarrow> bytes \<Rightarrow> bytes \<Rightarrow> bytes" where
  "aes_ctr_loop ctx counter pos =
     (let left = length pos in
      if left > 0
      then let buf = wpa_aes_encrypt ctx counter;
               len = (if left < 16 then left else 16)
           in xor_bytes (take len pos) (take len buf) @ aes_ctr_loop ctx (ctr_inc 16 counter) (drop len pos)
      else [])"
  by pat_completeness auto
termination
  by (relation "measure (\<lambda>(ctx, counter, pos). length pos)") auto

declare aes_ctr_loop.simps [simp del]

definition aes_ctr_encrypt :: "(nat \<Rightarrow> bool) \<Rightarrow> bytes \<Rightarrow> bytes \<Rightarrow> bytes \<Rightarrow> bytes option" where
  "aes_ctr_encrypt alloc key nonce data =
     (case aes_encrypt_init alloc key of None \<Rightarrow> None
      | Some ctx \<Rightarrow> Some (aes_ctr_loop ctx (take 16 nonce) data))"

definition aes_128_ctr_encrypt :: "(nat \<Rightarrow> bool) \<Rightarrow> bytes \<Rightarrow> bytes \<Rightarrow> bytes \<Rightarrow> bytes option" where
  "aes_128_ctr_encrypt alloc key nonce data = aes_ctr_encrypt alloc (take 16 key) nonce data"

text \<open>The increment adds one to the 128-bit counter.\<close>

definition counter_nat :: "bytes \<Rightarrow> nat" where
  "counter_nat b = foldl (\<lambda>n x. 256 * n + unat x) 0 b"

lemma counter_nat_snoc: "counter_nat (b @ [x]) = 256 * counter_nat b + unat x"
  by (simp add: counter_nat_def)

lemma counter_nat_less: "counter_nat b < 256 ^ length b"
proof (induction b rule: rev_induct)
  case (snoc x b)
  have "unat x < 256" using unsigned_less [of x] by simp
  then have "256 * counter_nat b + unat x < 256 * (counter_nat b + 1)" by simp
  also have "\<dots> \<le> 256 * 256 ^ length b" using snoc by (intro mult_le_mono2) simp
  finally show ?case by (simp add: counter_nat_snoc)
qed (simp add: counter_nat_def)

lemma length_ctr_inc [simp]: "length (ctr_inc i c) = length c"
  by (induction i c rule: ctr_inc.induct) (simp_all add: Let_def)

lemma ctr_inc_append: "i \<le> length c \<Longrightarrow> ctr_inc i (c @ d) = ctr_inc i c @ d"
proof (induction i c rule: ctr_inc.induct)
  case (2 i c)
  then show ?case by (simp add: Let_def nth_append list_update_append)
qed simp

lemma unat_inc_u8: "unat (x + 1 :: u8) = (if x + 1 = 0 then 0 else unat x + 1)"
  by (simp add: unatSuc add.commute)

lemma counter_nat_ctr_inc:
  "counter_nat (ctr_inc (length c) c) = (counter_nat c + 1) mod 256 ^ length c"
proof (induction c rule: rev_induct)
  case (snoc x c)
  have len: "length (c @ [x]) = Suc (length c)" by simp
  have upd: "(c @ [x])[length c := (c @ [x]) ! length c + 1] = c @ [x + 1]" by simp
  have step: "ctr_inc (length (c @ [x])) (c @ [x]) =
      (if x + 1 \<noteq> 0 then c @ [x + 1] else ctr_inc (length c) c @ [x + 1])"
    unfolding len ctr_inc.simps Let_def upd by (simp add: ctr_inc_append)
  show ?case
  proof (cases "x + 1 = 0")
    case True
    have "x = - 1" using True by (simp add: eq_neg_iff_add_eq_0)
    then have "unat x = 255" by (simp add: unsigned_minus_1_eq_mask mask_eq_exp_minus_1)
    then have "counter_nat (c @ [x]) + 1 = 256 * (counter_nat c + 1)" by (simp add: counter_nat_snoc)
    moreover have "counter_nat (ctr_inc (length (c @ [x])) (c @ [x])) = 256 * counter_nat (ctr_inc (length c) c)"
      unfolding step counter_nat_snoc using True by (simp add: counter_nat_snoc)
    ultimately show ?thesis using snoc by (simp add: mult_mod_right)
  next
    case False
    then have "counter_nat (c @ [x + 1]) = counter_nat (c @ [x]) + 1"
      by (simp add: counter_nat_snoc unat_inc_u8)
    moreover have "counter_nat (c @ [x + 1]) < 256 ^ length (c @ [x])"
      using counter_nat_less [of "c @ [x + 1]"] by simp
    ultimately show ?thesis using False by (simp add: step)
  qed
qed (simp add: counter_nat_def)

lemma aes_ctr_loop_stream:
  "aes_ctr_loop ctx counter data = stream_xor (\<lambda>i. wpa_aes_encrypt ctx ((ctr_inc 16 ^^ i) counter)) 0 data"
proof (induction ctx counter data rule: aes_ctr_loop.induct)
  case (1 ctx counter data)
  show ?case
  proof (cases "data = []")
    case True
    then show ?thesis by (simp add: aes_ctr_loop.simps)
  next
    case False
    let ?len = "if length data < 16 then length data else 16"
    have t: "take ?len data = take 16 data" "drop ?len data = drop 16 data" by auto
    have x: "xor_bytes (take 16 data) (take ?len (wpa_aes_encrypt ctx counter)) =
        xor_bytes (take 16 data) (wpa_aes_encrypt ctx counter)"
      using take_xor_bytes [of "length data" data "wpa_aes_encrypt ctx counter"] by auto
    have s: "stream_xor (\<lambda>i. wpa_aes_encrypt ctx ((ctr_inc 16 ^^ i) (ctr_inc 16 counter))) 0 d =
      stream_xor (\<lambda>i. wpa_aes_encrypt ctx ((ctr_inc 16 ^^ i) counter)) (Suc 0) d" for d
      using stream_xor_shift [of "\<lambda>i. wpa_aes_encrypt ctx ((ctr_inc 16 ^^ i) counter)" 0 1 d]
      by (simp add: funpow_swap1)
    have ih: "aes_ctr_loop ctx (ctr_inc 16 counter) (drop 16 data) =
        stream_xor (\<lambda>i. wpa_aes_encrypt ctx ((ctr_inc 16 ^^ i) (ctr_inc 16 counter))) 0 (drop 16 data)"
      using "1.IH" [OF refl _ refl refl] False by (simp only: t) simp
    show ?thesis
      using False by (subst aes_ctr_loop.simps, subst stream_xor_nonempty [OF False])
        (simp only: Let_def t x ih s, simp)
  qed
qed

lemma counter_nat_funpow:
  "length c = 16 \<Longrightarrow> counter_nat ((ctr_inc 16 ^^ n) c) = (counter_nat c + n) mod 2 ^ 128"
proof (induction n)
  case 0
  then show ?case using counter_nat_less [of c] by simp
next
  case (Suc n)
  have len: "length ((ctr_inc 16 ^^ n) c) = 16"
    using Suc.prems by (induction n) simp_all
  have "counter_nat (ctr_inc 16 ((ctr_inc 16 ^^ n) c)) = (counter_nat ((ctr_inc 16 ^^ n) c) + 1) mod 256 ^ 16"
    using counter_nat_ctr_inc [of "(ctr_inc 16 ^^ n) c"] unfolding len .
  then show ?case using Suc by (simp add: mod_Suc_eq)
qed

lemma aes_ctr_involution:
  "aes_ctr_loop ctx c (aes_ctr_loop ctx c data) = data"
  unfolding aes_ctr_loop_stream by (rule aes.stream_involution)

lemma length_aes_ctr_loop [simp]: "length (aes_ctr_loop ctx c data) = length data"
  unfolding aes_ctr_loop_stream by (rule aes.stream_length)

section \<open>OMAC1\<close>

definition gf_mulx :: "bytes \<Rightarrow> bytes" where
  "gf_mulx pad =
     (let carry = pad ! 0 AND 0x80;
          pad = foldl (\<lambda>pad i. pad[i := push_bit 1 (pad ! i) OR drop_bit 7 (pad ! (i + 1))]) pad [0..<16 - 1];
          pad = pad[16 - 1 := push_bit 1 (pad ! (16 - 1))]
      in if carry \<noteq> 0 then pad[16 - 1 := pad ! (16 - 1) XOR 0x87] else pad)"

text \<open>The byte at \<open>pos\<close>, the current position in element \<open>e\<close> of the vector.\<close>

definition omac_read :: "bytes list \<Rightarrow> nat \<Rightarrow> nat \<Rightarrow> u8 c_result" where
  "omac_read vec e off =
     (if e < length vec \<and> off < length (vec ! e) then Ret (vec ! e ! off) else Oob)"

text \<open>
  The loops that exclusive-or the next \<open>n\<close> bytes of the vector into \<open>cbc\<close>; \<open>final\<close> says whether the
  last of them is the last byte to process.
\<close>

function omac_xor :: "bytes list \<Rightarrow> bool \<Rightarrow> nat \<Rightarrow> nat \<Rightarrow> nat \<times> nat \<times> bytes \<Rightarrow> (nat \<times> nat \<times> bytes) c_result" where
  "omac_xor vec final n i (e, off, cbc) =
     (if i < n
      then c_bind (omac_read vec e off) (\<lambda>b.
        let cbc = cbc[i := cbc ! i XOR b]; off = off + 1
        in if off \<ge> length (vec ! e)
           then if i + 1 = n \<and> final then Ret (e, off, cbc)
                else if e + 1 < length vec then omac_xor vec final n (i + 1) (e + 1, 0, cbc)
                else Oob
           else omac_xor vec final n (i + 1) (e, off, cbc))
      else Ret (e, off, cbc))"
  by pat_completeness auto
termination
  by (relation "measure (\<lambda>(vec, final, n, i, st). n - i)") auto

declare omac_xor.simps [simp del]

function omac_blocks :: "aes_ctx \<Rightarrow> bytes list \<Rightarrow> nat \<Rightarrow> nat \<times> nat \<times> bytes \<Rightarrow> (nat \<times> nat \<times> nat \<times> bytes) c_result" where
  "omac_blocks ctx vec left st =
     (if left \<ge> 16
      then c_bind (omac_xor vec (left = 16) 16 0 st) (\<lambda>(e, off, cbc).
        let cbc = (if left > 16 then wpa_aes_encrypt ctx cbc else cbc)
        in omac_blocks ctx vec (left - 16) (e, off, cbc))
      else Ret (left, st))"
  by pat_completeness auto
termination
  by (relation "measure (\<lambda>(ctx, vec, left, st). left)") auto

declare omac_blocks.simps [simp del]

definition omac1_aes_vector :: "(nat \<Rightarrow> bool) \<Rightarrow> bytes \<Rightarrow> bytes list \<Rightarrow> bytes option c_result" where
  "omac1_aes_vector alloc key vec =
     (case aes_encrypt_init alloc key of None \<Rightarrow> Ret None
      | Some ctx \<Rightarrow>
        let total_len = sum_list (map length vec)
        in if vec = [] then Oob
        else c_bind (omac_blocks ctx vec total_len (0, 0, replicate 16 0)) (\<lambda>(left, e, off, cbc).
          let pad = gf_mulx (wpa_aes_encrypt ctx (replicate 16 0))
          in c_bind
            (if left \<noteq> 0 \<or> total_len = 0
             then c_bind (omac_xor vec True left 0 (e, off, cbc)) (\<lambda>(e, off, cbc).
               Ret (cbc[left := cbc ! left XOR 0x80], gf_mulx pad))
             else Ret (cbc, pad))
            (\<lambda>(cbc, pad). Ret (Some (wpa_aes_encrypt ctx (xor_bytes pad cbc))))))"

definition omac1_aes_128_vector :: "(nat \<Rightarrow> bool) \<Rightarrow> bytes \<Rightarrow> bytes list \<Rightarrow> bytes option c_result" where
  "omac1_aes_128_vector alloc key vec = omac1_aes_vector alloc (take 16 key) vec"

definition omac1_aes_128 :: "(nat \<Rightarrow> bool) \<Rightarrow> bytes \<Rightarrow> bytes \<Rightarrow> bytes option c_result" where
  "omac1_aes_128 alloc key data = omac1_aes_128_vector alloc key [data]"

definition omac1_aes_256 :: "(nat \<Rightarrow> bool) \<Rightarrow> bytes \<Rightarrow> bytes \<Rightarrow> bytes option c_result" where
  "omac1_aes_256 alloc key data = omac1_aes_vector alloc (take 32 key) [data]"

subsection \<open>Doubling\<close>

lemma foldl_update_nth:
  assumes "n < length pad"
  shows "j < length pad \<Longrightarrow> foldl (\<lambda>pad i. pad[i := f (pad ! i) (pad ! (i + 1))]) pad [0..<n] ! j =
    (if j < n then f (pad ! j) (pad ! (j + 1)) else pad ! j)"
    and "length (foldl (\<lambda>pad i. pad[i := f (pad ! i) (pad ! (i + 1))]) pad [0..<n]) = length pad"
  using assms
proof (induction n arbitrary: j)
  case (Suc n)
  {
    case 1
    then show ?case using Suc(1) [of n] Suc(1) [of "n + 1"] Suc(1) [of j] Suc(2)
      by (auto simp: nth_list_update)
  next
    case 2
    then show ?case using Suc(2) by simp
  }
qed simp_all

lemma gf_mulx_nth:
  assumes "length pad = 16" and "i < 16"
  shows "gf_mulx pad ! i =
    (if i < 15 then push_bit 1 (pad ! i) OR drop_bit 7 (pad ! (i + 1))
     else push_bit 1 (pad ! 15) XOR (if bit (pad ! 0) 7 then 0x87 else 0))"
    and "length (gf_mulx pad) = 16"
proof -
  let ?p = "foldl (\<lambda>pad i. pad[i := push_bit 1 (pad ! i) OR drop_bit 7 (pad ! (i + 1))]) pad [0..<15]"
  note f = foldl_update_nth [where n = 15 and pad = pad and f = "\<lambda>a b. push_bit 1 a OR drop_bit 7 b"]
  have len: "length ?p = 16" using f(2) assms(1) by simp
  have carry: "pad ! 0 AND 0x80 \<noteq> 0 \<longleftrightarrow> bit (pad ! 0) 7"
    using bit_iff_and_push_bit_not_eq_0 [of "pad ! 0" 7] by simp
  have g: "gf_mulx pad = (let q = ?p[15 := push_bit 1 (?p ! 15)] in
      if bit (pad ! 0) 7 then q[15 := q ! 15 XOR 0x87] else q)"
    unfolding gf_mulx_def Let_def carry by simp
  have nth: "?p ! j = (if j < 15 then push_bit 1 (pad ! j) OR drop_bit 7 (pad ! (j + 1)) else pad ! j)"
    if "j < 16" for j using f(1) [of j] assms(1) that by simp
  show "gf_mulx pad ! i =
    (if i < 15 then push_bit 1 (pad ! i) OR drop_bit 7 (pad ! (i + 1))
     else push_bit 1 (pad ! 15) XOR (if bit (pad ! 0) 7 then 0x87 else 0))"
    using assms(2) len nth [of 15] nth [OF assms(2)] unfolding g Let_def
    by (cases "i = 15") (simp_all del: push_bit_Suc)
  show "length (gf_mulx pad) = 16" using len unfolding g Let_def by simp
qed

lemma length_gf_mulx [simp]: "length pad = 16 \<Longrightarrow> length (gf_mulx pad) = 16"
  using gf_mulx_nth(2) [of pad 0] by simp

text \<open>Doubling in the field of the CMAC subkeys.\<close>

definition cmac_dbl :: "128 word \<Rightarrow> 128 word" where
  "cmac_dbl w = push_bit 1 w XOR (if bit w 127 then 0x87 else 0)"

lemma bit_0x87_ge: "8 \<le> n \<Longrightarrow> \<not> bit (0x87 :: 128 word) n"
proof -
  assume "8 \<le> n"
  have "(0x87 :: 128 word) = ucast (0x87 :: u8)" by simp
  then show ?thesis using \<open>8 \<le> n\<close> by (simp only: bit_ucast_iff) (simp add: bit_u8_ge)
qed

lemma bit_0x87: "n < 8 \<Longrightarrow> bit (0x87 :: 128 word) n = bit (0x87 :: u8) n"
proof -
  assume "n < 8"
  have "(0x87 :: 128 word) = ucast (0x87 :: u8)" by simp
  then show ?thesis using \<open>n < 8\<close> by (simp only: bit_ucast_iff) simp
qed

lemma gf_mulx_dbl:
  assumes "length pad = 16"
  shows "block_word (gf_mulx pad) = cmac_dbl (block_word pad)"
proof (rule word_eqI_bits)
  fix n assume "n < LENGTH(128)"
  then have n: "n < 128" by simp
  define q where "q = n div 8"
  define r where "r = n mod 8"
  have nq: "n = 8 * q + r" "r < 8" "q < 16" using n by (auto simp: q_def r_def less_mult_imp_div_less)
  have msb: "bit (block_word pad) 127 = bit (pad ! 0) 7" using assms by (simp add: bit_block_word)
  have l: "bit (block_word (gf_mulx pad)) n = bit (gf_mulx pad ! (15 - q)) r"
    using assms n by (subst bit_block_word) (simp_all add: q_def r_def)
  have prev: "0 < n \<Longrightarrow> bit (block_word pad) (n - 1) =
      (if r = 0 then bit (pad ! (16 - q)) 7 else bit (pad ! (15 - q)) (r - 1))"
  proof -
    assume "0 < n"
    show ?thesis
    proof (cases "r = 0")
      case True
      then obtain q' where q': "q = Suc q'" using nq \<open>0 < n\<close> by (cases q) auto
      then have "n - 1 = 8 * q' + 7" using nq True by simp
      then have "(n - 1) div 8 = q'" "(n - 1) mod 8 = 7" by simp_all
      then show ?thesis using True assms n q' by (simp add: bit_block_word)
    next
      case False
      then have "n - 1 = 8 * q + (r - 1)" "r - 1 < 8" using nq by simp_all
      then have "(n - 1) div 8 = q" "(n - 1) mod 8 = r - 1" by simp_all
      then show ?thesis using False assms n by (simp add: bit_block_word)
    qed
  qed
  show "bit (block_word (gf_mulx pad)) n = bit (cmac_dbl (block_word pad)) n"
  proof (cases "q = 0")
    case True
    then have nr: "n = r" "r < 8" using nq by simp_all
    have "bit (gf_mulx pad ! (15 - q)) r \<longleftrightarrow>
        bit (push_bit 1 (pad ! 15)) r \<noteq> bit (if bit (pad ! 0) 7 then 0x87 else (0 :: u8)) r"
      using assms True by (simp only: gf_mulx_nth(1)) (simp add: bit_xor_iff)
    moreover have "bit (push_bit 1 (pad ! 15)) r \<longleftrightarrow> bit (push_bit 1 (block_word pad)) n"
      using prev nr True n by (subst bit_push_bit_iff, subst bit_push_bit_iff) auto
    ultimately show ?thesis
      using nr bit_0x87 [of r] unfolding l cmac_dbl_def bit_xor_iff msb by (cases "bit (pad ! 0) 7") simp_all
  next
    case False
    then have q: "15 - q < 15" "15 - q + 1 = 16 - q" "8 \<le> n" using nq by auto
    have b8: "\<not> bit (pad ! (16 - q)) (7 + r)" if "r \<noteq> 0" using that by (intro notI) (simp add: bit_u8_ge)
    have "bit (gf_mulx pad ! (15 - q)) r \<longleftrightarrow>
        bit (push_bit 1 (pad ! (15 - q))) r \<or> bit (drop_bit 7 (pad ! (16 - q))) r"
      using assms q by (simp only: gf_mulx_nth(1)) (simp add: bit_or_iff)
    also have "\<dots> \<longleftrightarrow> bit (block_word pad) (n - 1)"
      using prev q nq b8 by (subst bit_push_bit_iff, subst bit_drop_bit_eq) auto
    also have "\<dots> \<longleftrightarrow> bit (push_bit 1 (block_word pad)) n"
      using q n by (subst bit_push_bit_iff) auto
    also have "\<dots> \<longleftrightarrow> bit (cmac_dbl (block_word pad)) n"
      using bit_0x87_ge [OF q(3)] unfolding cmac_dbl_def bit_xor_iff by (cases "bit (block_word pad) 127") simp_all
    finally show ?thesis unfolding l .
  qed
qed

subsection \<open>The walk over the vector\<close>

definition omac_valid :: "bytes list \<Rightarrow> nat \<Rightarrow> nat \<Rightarrow> bool" where
  "omac_valid vec e off \<longleftrightarrow> e < length vec \<and> off < length (vec ! e)"

definition omac_rest :: "bytes list \<Rightarrow> nat \<Rightarrow> nat \<Rightarrow> bytes" where
  "omac_rest vec e off = drop off (vec ! e) @ concat (drop (e + 1) vec)"

lemma omac_rest_next:
  assumes "omac_valid vec e off" and "off + 1 < length (vec ! e)"
  shows "omac_rest vec e off = vec ! e ! off # omac_rest vec e (off + 1)"
  using assms by (simp add: omac_valid_def omac_rest_def Cons_nth_drop_Suc [symmetric])

lemma omac_rest_element:
  assumes "omac_valid vec e off" and "off + 1 \<ge> length (vec ! e)"
  shows "omac_rest vec e off = vec ! e ! off # (if e + 1 < length vec then omac_rest vec (e + 1) 0 else [])"
proof -
  have "drop off (vec ! e) = [vec ! e ! off]"
    using assms by (simp add: omac_valid_def Cons_nth_drop_Suc [symmetric])
  moreover have "e + 1 < length vec \<Longrightarrow> drop (e + 1) vec = vec ! (e + 1) # drop (e + 2) vec"
    by (simp add: Cons_nth_drop_Suc [symmetric])
  ultimately show ?thesis by (simp add: omac_rest_def)
qed

lemma xor_update_step:
  assumes "i < n" and "n \<le> length cbc" and "length rest \<ge> n - Suc i"
  shows "take (Suc i) (cbc[i := cbc ! i XOR b]) @ xor_bytes (take (n - Suc i) (drop (Suc i) (cbc[i := cbc ! i XOR b]))) rest @ drop n (cbc[i := cbc ! i XOR b])
   = take i cbc @ xor_bytes (take (n - i) (drop i cbc)) (b # rest) @ drop n cbc"
proof -
  have "take (n - i) (drop i cbc) = cbc ! i # take (n - Suc i) (drop (Suc i) cbc)"
    using assms by (simp add: Cons_nth_drop_Suc [symmetric] take_Cons' Suc_diff_Suc)
  then show ?thesis using assms by (simp add: take_Suc_conv_app_nth take_update_cancel)
qed

lemma omac_xor_done: "omac_xor vec final n n (e, off, cbc) = Ret (e, off, cbc)"
  by (simp add: omac_xor.simps)

lemma omac_xor_step:
  assumes "omac_valid vec e off" and "i < n"
  shows "omac_xor vec final n i (e, off, cbc) =
    (let cbc = cbc[i := cbc ! i XOR vec ! e ! off] in
     if off + 1 < length (vec ! e) then omac_xor vec final n (i + 1) (e, off + 1, cbc)
     else if i + 1 = n \<and> final then Ret (e, off + 1, cbc)
     else if e + 1 < length vec then omac_xor vec final n (i + 1) (e + 1, 0, cbc) else Oob)"
  using assms by (subst omac_xor.simps) (simp add: omac_read_def omac_valid_def Let_def)

text \<open>One byte: either everything is consumed, or the position moves to the next byte.\<close>

lemma omac_xor_next:
  assumes ne: "\<forall>x \<in> set vec. x \<noteq> []" and v: "omac_valid vec e off" and "i < n"
    and "n - i \<le> length (omac_rest vec e off)" and "final \<longleftrightarrow> length (omac_rest vec e off) = n - i"
  obtains (finish) e' off' where "i + 1 = n" "final" "omac_rest vec e off = [vec ! e ! off]"
      "omac_xor vec final n i (e, off, cbc) = Ret (e', off', cbc[i := cbc ! i XOR vec ! e ! off])"
  | (move) e' off' where "omac_valid vec e' off'" "omac_rest vec e off = vec ! e ! off # omac_rest vec e' off'"
      "omac_xor vec final n i (e, off, cbc) = omac_xor vec final n (i + 1) (e', off', cbc[i := cbc ! i XOR vec ! e ! off])"
proof (cases "off + 1 < length (vec ! e)")
  case True
  show ?thesis
  proof (rule move)
    show "omac_valid vec e (off + 1)" using v True by (simp add: omac_valid_def)
    show "omac_rest vec e off = vec ! e ! off # omac_rest vec e (off + 1)" by (rule omac_rest_next [OF v True])
    show "omac_xor vec final n i (e, off, cbc) =
        omac_xor vec final n (i + 1) (e, off + 1, cbc[i := cbc ! i XOR vec ! e ! off])"
      using True by (simp add: omac_xor_step [OF v \<open>i < n\<close>])
  qed
next
  case False
  then have rest: "omac_rest vec e off = vec ! e ! off # (if e + 1 < length vec then omac_rest vec (e + 1) 0 else [])"
    using omac_rest_element [OF v] by simp
  show ?thesis
  proof (cases "i + 1 = n \<and> final")
    case fin: True
    then have "length (omac_rest vec e off) = 1" using assms(5) by auto
    then have "omac_rest vec e off = [vec ! e ! off]" using rest by auto
    moreover have "omac_xor vec final n i (e, off, cbc) = Ret (e, off + 1, cbc[i := cbc ! i XOR vec ! e ! off])"
      using fin False by (simp add: omac_xor_step [OF v \<open>i < n\<close>])
    ultimately show ?thesis using fin finish by blast
  next
    case cont: False
    have "e + 1 < length vec"
    proof (rule ccontr)
      assume "\<not> e + 1 < length vec"
      then have "length (omac_rest vec e off) = 1" using rest by simp
      then show False using assms(3-5) cont by auto
    qed
    moreover from this ne have "vec ! (e + 1) \<noteq> []" by simp
    ultimately show ?thesis
      using cont False rest by (intro move [of "e + 1" 0]) (auto simp: omac_valid_def omac_xor_step [OF v \<open>i < n\<close>])
  qed
qed

lemma omac_rest_nonempty: "omac_valid vec e off \<Longrightarrow> omac_rest vec e off \<noteq> []"
  by (auto simp: omac_valid_def omac_rest_def)

lemma omac_xor_walk:
  assumes "\<forall>x \<in> set vec. x \<noteq> []" and "omac_valid vec e off" and "n \<le> length cbc" and "i < n"
    and "n - i \<le> length (omac_rest vec e off)" and "final \<longleftrightarrow> length (omac_rest vec e off) = n - i"
  shows "\<exists>e' off'. omac_xor vec final n i (e, off, cbc) =
      Ret (e', off', take i cbc @ xor_bytes (take (n - i) (drop i cbc)) (take (n - i) (omac_rest vec e off)) @ drop n cbc) \<and>
      (\<not> final \<longrightarrow> omac_valid vec e' off' \<and> omac_rest vec e' off' = drop (n - i) (omac_rest vec e off))"
  using assms(2-)
proof (induction "n - i" arbitrary: i e off cbc)
  case (Suc d)
  let ?cbc = "cbc[i := cbc ! i XOR vec ! e ! off]"
  have upd: "take (Suc i) ?cbc @ xor_bytes (take (n - Suc i) (drop (Suc i) ?cbc)) (take (n - Suc i) r) @ drop n ?cbc =
      take i cbc @ xor_bytes (take (n - i) (drop i cbc)) (take (n - i) (vec ! e ! off # r)) @ drop n cbc"
    if "n - Suc i \<le> length r" for r
    using xor_update_step [of i n cbc "take (n - Suc i) r" "vec ! e ! off"] Suc.prems that
    by (simp add: take_Cons' Suc_diff_Suc)
  from assms(1) Suc.prems(1,3,4,5) show ?case
  proof (cases rule: omac_xor_next [where cbc = cbc])
    case (finish e' off')
    have "?cbc = take (Suc i) ?cbc @ drop n ?cbc"
      using finish(1) by (simp only: Suc_eq_plus1 append_take_drop_id)
    then show ?thesis using upd [of "[]"] finish by simp
  next
    case (move e' off')
    show ?thesis
    proof (cases "Suc i < n")
      case True
      have "n - Suc i \<le> length (omac_rest vec e' off')"
        "final \<longleftrightarrow> length (omac_rest vec e' off') = n - Suc i"
        using Suc.prems(4,5) move(2) Suc_diff_Suc [OF Suc.prems(3)] by auto
      then show ?thesis
        using Suc.hyps(1) [of "Suc i" e' off' ?cbc] Suc.hyps(2) Suc.prems(2) True move upd [of "omac_rest vec e' off'"]
        by (auto simp: drop_Cons' Suc_diff_Suc [symmetric])
    next
      case False
      then have n: "n = Suc i" using Suc.prems(3) by simp
      then have "\<not> final" using Suc.prems(5) move(2) omac_rest_nonempty [OF move(1)] by auto
      moreover have "?cbc = take (Suc i) ?cbc @ drop n ?cbc"
        by (simp only: n append_take_drop_id)
      ultimately show ?thesis
        using move n upd [of "omac_rest vec e' off'"] by (auto simp: omac_xor_done)
    qed
  qed
qed simp

lemma last_block_full: "l mod 16 = 0 \<Longrightarrow> 0 < l \<Longrightarrow> 16 * ((l - 1) div 16) = l - 16 \<and> 16 \<le> (l :: nat)"
proof -
  assume "l mod 16 = 0" and "0 < l"
  then obtain k where l: "l = 16 * Suc k" by (metis dvd_def mod_0_imp_dvd mult_0_right not0_implies_Suc less_irrefl)
  then have "l - 1 = 16 * k + 15" by simp
  then show ?thesis by (simp add: l)
qed

lemma last_block_part: "l mod 16 \<noteq> 0 \<Longrightarrow> 16 * ((l - 1) div 16) = l - l mod (16 :: nat)"
proof -
  assume nz: "l mod 16 \<noteq> 0"
  have l: "l = 16 * (l div 16) + l mod 16" by simp
  have "l - 1 = 16 * (l div 16) + (l mod 16 - 1)" using l nz by linarith
  moreover have "l mod 16 - 1 < 16" by (meson less_imp_diff_less mod_less_divisor zero_less_numeral)
  ultimately have "(l - 1) div 16 = l div 16" by (simp only: div_mult_self4) simp
  then show ?thesis by (simp add: minus_mod_eq_mult_div)
qed

lemma omac_blocks_walk:
  assumes "\<forall>x \<in> set vec. x \<noteq> []" and "omac_valid vec e off" and "length cbc = 16"
    and "left = length (omac_rest vec e off)"
  shows "\<exists>e' off'. omac_blocks ctx vec left (e, off, cbc) = Ret (left mod 16, e', off',
      if left mod 16 = 0
      then xor_bytes (cbc_mac (wpa_aes_encrypt ctx) cbc (take (left - 16) (omac_rest vec e off))) (drop (left - 16) (omac_rest vec e off))
      else cbc_mac (wpa_aes_encrypt ctx) cbc (take (left - left mod 16) (omac_rest vec e off))) \<and>
    (left mod 16 \<noteq> 0 \<longrightarrow> omac_valid vec e' off' \<and> omac_rest vec e' off' = drop (left - left mod 16) (omac_rest vec e off))"
  using assms(2-)
proof (induction left arbitrary: e off cbc rule: less_induct)
  case (less left)
  let ?rest = "omac_rest vec e off"
  have pos: "0 < left" using less.prems omac_rest_nonempty by auto
  show ?case
  proof (cases "left < 16")
    case True
    then show ?thesis using pos less.prems by (simp add: omac_blocks.simps)
  next
    case ge: False
    have x: "\<exists>e' off'. omac_xor vec (left = 16) 16 0 (e, off, cbc) =
        Ret (e', off', xor_bytes cbc (take 16 ?rest)) \<and>
        (left \<noteq> 16 \<longrightarrow> omac_valid vec e' off' \<and> omac_rest vec e' off' = drop 16 ?rest)"
      using omac_xor_walk [OF assms(1) less.prems(1), of 16 cbc 0 "left = 16"] less.prems(2,3) ge by auto
    then obtain e' off' where st: "omac_xor vec (left = 16) 16 0 (e, off, cbc) = Ret (e', off', xor_bytes cbc (take 16 ?rest))"
      and nx: "left \<noteq> 16 \<Longrightarrow> omac_valid vec e' off' \<and> omac_rest vec e' off' = drop 16 ?rest" by blast
    show ?thesis
    proof (cases "left = 16")
      case True
      then show ?thesis
        using st less.prems(3) by (simp add: omac_blocks.simps [of ctx vec 16] omac_blocks.simps [of ctx vec 0])
    next
      case False
      let ?c = "wpa_aes_encrypt ctx (xor_bytes cbc (take 16 ?rest))"
      have gt: "16 < left" using ge False by simp
      have unf: "omac_blocks ctx vec left (e, off, cbc) = omac_blocks ctx vec (left - 16) (e', off', ?c)"
        using st gt by (subst omac_blocks.simps) simp
      have cbc: "cbc_mac (wpa_aes_encrypt ctx) ?c (take m (drop 16 ?rest)) =
          cbc_mac (wpa_aes_encrypt ctx) cbc (take (16 + m) ?rest)" for m
        using cbc_mac_block [of "take 16 ?rest" "wpa_aes_encrypt ctx" cbc "take m (drop 16 ?rest)"] gt less.prems(3)
        by (simp add: take_add)
      have m: "(left - 16) mod 16 = left mod 16" using gt by (simp add: le_mod_geq)
      have sub: "left mod 16 \<noteq> 0 \<Longrightarrow> 16 + (left - 16 - left mod 16) = left - left mod 16"
        "left mod 16 = 0 \<Longrightarrow> 16 + (left - 16 - 16) = left - 16"
        using gt last_block_full [of "left - 16"] mod_less_eq_dividend [of "left - 16" 16] by (auto simp: m)
      have "left - 16 < left" "left - 16 = length (omac_rest vec e' off')" "length ?c = 16" "omac_valid vec e' off'"
        using nx [OF False] gt less.prems(3) by auto
      from less.IH [OF this(1,4,3,2)] show ?thesis
        unfolding unf using nx [OF False] cbc sub
        by (cases "left mod 16 = 0") (auto simp: m)
    qed
  qed
qed

subsection \<open>CMAC\<close>

text \<open>The reference of SP 800-38B.\<close>

definition cmac_double :: "bytes \<Rightarrow> bytes" where
  "cmac_double b = be_bytes 16 (cmac_dbl (be_word b))"

definition cmac :: "(bytes \<Rightarrow> bytes) \<Rightarrow> bytes \<Rightarrow> bytes" where
  "cmac E msg =
     (let K1 = cmac_double (E (replicate 16 0)); K2 = cmac_double K1;
          n = 16 * ((length msg - 1) div 16);
          c = cbc_mac E (replicate 16 0) (take n msg); last = drop n msg
      in if length last = 16 then E (xor_bytes K1 (xor_bytes c last))
         else E (xor_bytes K2 (xor_bytes c (last @ 0x80 # replicate (15 - length last) 0))))"

lemma gf_mulx_double:
  assumes "length b = 16"
  shows "cmac_double b = gf_mulx b"
proof -
  have "block_word (cmac_double b) = block_word (gf_mulx b)"
    using assms by (simp add: cmac_double_def block_word_be block_word_be_bytes gf_mulx_dbl)
  then show ?thesis using assms by (simp add: block_word_inject cmac_double_def)
qed

lemma cmac_code:
  "cmac (wpa_aes_encrypt ctx) msg =
     (let E = wpa_aes_encrypt ctx; K1 = gf_mulx (E (replicate 16 0)); K2 = gf_mulx K1;
          n = 16 * ((length msg - 1) div 16);
          c = cbc_mac E (replicate 16 0) (take n msg); last = drop n msg
      in if length last = 16 then E (xor_bytes K1 (xor_bytes c last))
         else E (xor_bytes K2 (xor_bytes c (last @ 0x80 # replicate (15 - length last) 0))))"
  unfolding cmac_def Let_def by (simp only: gf_mulx_double length_wpa_aes_encrypt length_gf_mulx)

lemma xor_tail_pad:
  assumes "length c = 16" and "length d < 16"
  shows "(xor_bytes (take (length d) c) d @ drop (length d) c)[length d := (xor_bytes (take (length d) c) d @ drop (length d) c) ! length d XOR 0x80] =
    xor_bytes c (d @ 0x80 # replicate (15 - length d) 0)"
proof (rule nth_equalityI)
  fix i assume "i < length ((xor_bytes (take (length d) c) d @ drop (length d) c)[length d := (xor_bytes (take (length d) c) d @ drop (length d) c) ! length d XOR 0x80])"
  then have i: "i < 16" using assms by simp
  show "(xor_bytes (take (length d) c) d @ drop (length d) c)[length d := (xor_bytes (take (length d) c) d @ drop (length d) c) ! length d XOR 0x80] ! i =
      xor_bytes c (d @ 0x80 # replicate (15 - length d) 0) ! i"
    using i assms by (auto simp: nth_list_update nth_append nth_Cons' not_less)
qed (use assms in simp)

lemma omac1_aes_vector_cmac:
  assumes "(\<forall>x \<in> set vec. x \<noteq> []) \<or> length vec = 1" and "vec \<noteq> []"
  shows "omac1_aes_vector alloc key vec =
    Ret (map_option (\<lambda>ctx. cmac (wpa_aes_encrypt ctx) (concat vec)) (aes_encrypt_init alloc key))"
proof (cases "aes_encrypt_init alloc key")
  case None
  then show ?thesis by (simp add: omac1_aes_vector_def)
next
  case (Some ctx)
  let ?E = "wpa_aes_encrypt ctx" and ?msg = "concat vec"
  let ?z = "replicate 16 0 :: bytes"
  have total: "sum_list (map length vec) = length ?msg" by (simp add: length_concat)
  show ?thesis
  proof (cases "?msg = []")
    case True
    have "omac_xor vec True 0 0 st = Ret st" for st by (cases st) (simp add: omac_xor_done)
    moreover have "omac_blocks ctx vec 0 st = Ret (0, st)" for st by (simp add: omac_blocks.simps)
    ultimately show ?thesis
      using assms(2) Some xor_tail_pad [of ?z "[]"]
      unfolding omac1_aes_vector_def total True by (simp add: cmac_code Let_def)
  next
    case False
    then have ne: "\<forall>x \<in> set vec. x \<noteq> []" using assms by (auto simp: length_Suc_conv)
    have v: "omac_valid vec 0 0" using ne assms(2) by (cases vec) (auto simp: omac_valid_def)
    have rest: "omac_rest vec 0 0 = ?msg" using assms(2) by (cases vec) (auto simp: omac_rest_def)
    let ?l = "length ?msg" and ?K = "gf_mulx (?E ?z)"
    obtain e off where blocks: "omac_blocks ctx vec ?l (0, 0, ?z) = Ret (?l mod 16, e, off,
        if ?l mod 16 = 0 then xor_bytes (cbc_mac ?E ?z (take (?l - 16) ?msg)) (drop (?l - 16) ?msg)
        else cbc_mac ?E ?z (take (?l - ?l mod 16) ?msg))"
      and nx: "?l mod 16 \<noteq> 0 \<Longrightarrow> omac_valid vec e off \<and> omac_rest vec e off = drop (?l - ?l mod 16) ?msg"
      using omac_blocks_walk [OF ne v, of ?z ?l ctx] unfolding rest by auto
    have "0 < ?l" using False by simp
    show ?thesis
    proof (cases "?l mod 16 = 0")
      case True
      have n: "16 * ((?l - 1) div 16) = ?l - 16" and "16 \<le> ?l"
        using last_block_full [OF True \<open>0 < ?l\<close>] by simp_all
      then have "length (drop (?l - 16) ?msg) = 16" by simp
      moreover have "?l \<noteq> 0" using \<open>0 < ?l\<close> by simp
      ultimately show ?thesis
        using blocks True Some assms(2)
        by (simp only: omac1_aes_vector_def total cmac_code Let_def n option.case c_bind.simps prod.case
            if_False if_True simp_thms option.map)
    next
      case nz: False
      let ?r = "?l mod 16" and ?c = "cbc_mac ?E ?z (take (?l - ?l mod 16) ?msg)"
      let ?d = "drop (?l - ?r) ?msg"
      have n: "16 * ((?l - 1) div 16) = ?l - ?r" by (rule last_block_part [OF nz])
      have d: "length ?d = ?r" by simp
      have c: "length ?c = 16" by (rule aes.cbc_mac_length) simp
      obtain e' off' where x: "omac_xor vec True ?r 0 (e, off, ?c) =
          Ret (e', off', xor_bytes (take ?r ?c) ?d @ drop ?r ?c)"
        using omac_xor_walk [OF ne, of e off ?r ?c 0 True] nx [OF nz] nz d c by auto
      have lt: "length ?d < 16" by (simp only: d mod_less_divisor zero_less_numeral)
      then have ne16: "?r \<noteq> 16" by (simp only: d)
      note pad = xor_tail_pad [OF c lt, unfolded d]
      show ?thesis
        using blocks nz False Some assms(2) d lt ne16
        by (simp only: omac1_aes_vector_def total cmac_code Let_def n option.case c_bind.simps prod.case
            if_False if_True simp_thms x pad option.map)
    qed
  qed
qed

section \<open>SIV\<close>

definition dbl :: "bytes \<Rightarrow> bytes" where
  "dbl pad =
     (let carry = pad ! 0 AND 0x80;
          pad = foldl (\<lambda>pad i. pad[i := push_bit 1 (pad ! i) OR drop_bit 7 (pad ! (i + 1))]) pad [0..<16 - 1];
          pad = pad[16 - 1 := push_bit 1 (pad ! (16 - 1))]
      in if carry \<noteq> 0 then pad[16 - 1 := pad ! (16 - 1) XOR 0x87] else pad)"

definition siv_xor :: "bytes \<Rightarrow> bytes \<Rightarrow> bytes" where
  "siv_xor a b = foldl (\<lambda>a i. a[i := a ! i XOR b ! i]) a [0..<16]"

definition xorend :: "bytes \<Rightarrow> bytes \<Rightarrow> bytes" where
  "xorend a b =
     (let alen = length a; blen = length b
      in if alen < blen then a
         else foldl (\<lambda>a i. a[alen - blen + i := a ! (alen - blen + i) XOR b ! i]) a [0..<blen])"

definition pad_block :: "bytes \<Rightarrow> bytes" where
  "pad_block addr =
     (let len = length addr; pad = memcpy_at (replicate 16 0) 0 addr
      in if len < 16 then pad[len := 0x80] else pad)"

text \<open>\<open>_rtw_memcmp2\<close>: the difference at the first mismatch, 0 when there is none.\<close>

fun rtw_memcmp2 :: "bytes \<Rightarrow> bytes \<Rightarrow> nat \<Rightarrow> int" where
  "rtw_memcmp2 p1 p2 0 = 0"
| "rtw_memcmp2 p1 p2 (Suc sz) =
     (if p1 ! 0 = p2 ! 0 then rtw_memcmp2 (drop 1 p1) (drop 1 p2) sz
      else int (unat (p1 ! 0)) - int (unat (p2 ! 0)))"

text \<open>
  \<open>Ret None\<close> is a non-zero return value. The buffers of \<open>addr\<close> are processed in order, the last
  one apart.
\<close>

fun aes_s2v_loop :: "(nat \<Rightarrow> bool) \<Rightarrow> bytes \<Rightarrow> bytes list \<Rightarrow> bytes \<Rightarrow> bytes option c_result" where
  "aes_s2v_loop alloc key [] tmp = Ret (Some tmp)"
| "aes_s2v_loop alloc key (a # as) tmp =
     c_bind (omac1_aes_vector alloc key [a]) (\<lambda>r. case r of
       None \<Rightarrow> Ret None
     | Some tmp2 \<Rightarrow> aes_s2v_loop alloc key as (siv_xor (dbl tmp) tmp2))"

definition aes_s2v :: "(nat \<Rightarrow> bool) \<Rightarrow> bytes \<Rightarrow> bytes list \<Rightarrow> bytes option c_result" where
  "aes_s2v alloc key addr =
     (if length addr = 0
      then omac1_aes_vector alloc key [(replicate 16 0)[16 - 1 := 1]]
      else c_bind (omac1_aes_vector alloc key [replicate 16 0]) (\<lambda>r. case r of
          None \<Rightarrow> Ret None
        | Some tmp \<Rightarrow> c_bind (aes_s2v_loop alloc key (butlast addr) tmp) (\<lambda>r. case r of
            None \<Rightarrow> Ret None
          | Some tmp \<Rightarrow>
            let a = last addr in
            if length a \<ge> 16
            then if \<not> alloc (length a) then Ret None
                 else omac1_aes_vector alloc key [xorend a tmp]
            else omac1_aes_vector alloc key [siv_xor (dbl tmp) (pad_block a)])))"

definition siv_ctr_iv :: "bytes \<Rightarrow> bytes" where
  "siv_ctr_iv v = (let v = v[8 := v ! 8 AND 0x7f] in v[12 := v ! 12 AND 0x7f])"

definition aes_siv_encrypt :: "(nat \<Rightarrow> bool) \<Rightarrow> bytes \<Rightarrow> bytes \<Rightarrow> bytes list \<Rightarrow> bytes option c_result" where
  "aes_siv_encrypt alloc key pw addr =
     (if length addr > 6 - 1 \<or> length key \<noteq> 32 \<and> length key \<noteq> 48 \<and> length key \<noteq> 64 then Ret None
      else let key_len = length key div 2;
               k1 = take key_len key; k2 = drop key_len key
           in c_bind (aes_s2v alloc k1 (addr @ [pw])) (\<lambda>r. case r of
                None \<Rightarrow> Ret None
              | Some v \<Rightarrow> Ret (map_option (\<lambda>crypt_pw. take 16 v @ crypt_pw)
                  (aes_ctr_encrypt alloc k2 (siv_ctr_iv v) pw))))"

definition aes_siv_decrypt :: "(nat \<Rightarrow> bool) \<Rightarrow> bytes \<Rightarrow> bytes \<Rightarrow> bytes list \<Rightarrow> bytes option c_result" where
  "aes_siv_decrypt alloc key iv_crypt addr =
     (if length iv_crypt < 16 \<or> length addr > 6 - 1 \<or>
         length key \<noteq> 32 \<and> length key \<noteq> 48 \<and> length key \<noteq> 64 then Ret None
      else let key_len = length key div 2;
               k1 = take key_len key; k2 = drop key_len key;
               iv = siv_ctr_iv (take 16 iv_crypt)
           in case aes_ctr_encrypt alloc k2 iv (drop 16 iv_crypt) of None \<Rightarrow> Ret None
              | Some out \<Rightarrow> c_bind (aes_s2v alloc k1 (addr @ [out])) (\<lambda>r. case r of
                  None \<Rightarrow> Ret None
                | Some check \<Rightarrow> if rtw_memcmp2 check iv_crypt 16 = 0 then Ret (Some out) else Ret None))"

lemma rtw_memcmp2_0:
  "n \<le> length a \<Longrightarrow> n \<le> length b \<Longrightarrow> rtw_memcmp2 a b n = 0 \<longleftrightarrow> take n a = take n b"
proof (induction a b n rule: rtw_memcmp2.induct)
  case (2 a b n)
  obtain x a' where a: "a = x # a'" using 2(2) by (cases a) auto
  obtain y b' where b: "b = y # b'" using 2(3) by (cases b) auto
  show ?case
  proof (cases "x = y")
    case True
    then show ?thesis using 2 by (simp add: a b)
  next
    case False
    then have "uint x \<noteq> uint y" by (simp add: word_uint_eq_iff)
    then show ?thesis using False by (simp add: a b)
  qed
qed simp

lemma siv_xor_bytes:
  assumes "length a = 16" and "length b = 16"
  shows "siv_xor a b = xor_bytes a b"
proof -
  have "foldl (\<lambda>a i. a[i := a ! i XOR b ! i]) a [0..<n] = xor_bytes (take n a) (take n b) @ drop n a" if "n \<le> 16" for n
    using that
  proof (induction n)
    case (Suc n)
    have t: "take (Suc n) a = take n a @ [a ! n]" "take (Suc n) b = take n b @ [b ! n]" "drop n a = a ! n # drop (Suc n) a"
      using Suc.prems assms by (simp_all add: take_Suc_conv_app_nth Cons_nth_drop_Suc)
    have "foldl (\<lambda>a i. a[i := a ! i XOR b ! i]) a [0..<Suc n] =
        (xor_bytes (take n a) (take n b) @ drop n a)[n := (xor_bytes (take n a) (take n b) @ drop n a) ! n XOR b ! n]"
      using Suc by simp
    also have "\<dots> = xor_bytes (take (Suc n) a) (take (Suc n) b) @ drop (Suc n) a"
      unfolding t using Suc.prems assms by (simp add: xor_bytes_append nth_append list_update_append)
    finally show ?case .
  qed simp
  from this [of 16] show ?thesis using assms by (simp add: siv_xor_def)
qed

text \<open>Every MAC the construction takes has one buffer, so nothing is read out of bounds.\<close>

lemma omac1_single: "omac1_aes_vector alloc key [x] =
    Ret (map_option (\<lambda>ctx. cmac (wpa_aes_encrypt ctx) x) (aes_encrypt_init alloc key))"
  by (simp add: omac1_aes_vector_cmac)

lemma length_cmac [simp]: "length (cmac (wpa_aes_encrypt ctx) x) = 16"
  by (simp add: cmac_code Let_def)

lemma aes_s2v_loop_total: "\<exists>r. aes_s2v_loop alloc key as tmp = Ret r"
  by (induction alloc key as tmp rule: aes_s2v_loop.induct)
    (auto simp: omac1_single split: option.splits)

lemma aes_s2v_total: "\<exists>r. aes_s2v alloc key addr = Ret r \<and> (\<forall>v. r = Some v \<longrightarrow> length v = 16)"
proof -
  obtain f where f: "aes_s2v_loop alloc key (butlast addr) t = Ret (f t)" for t
    using aes_s2v_loop_total by metis
  show ?thesis
    by (cases "aes_encrypt_init alloc key"; cases "addr = []")
      (auto simp: aes_s2v_def omac1_single f Let_def split: option.splits)
qed

lemma aes_siv_total:
  "\<exists>r. aes_siv_encrypt alloc key pw addr = Ret r" "\<exists>r. aes_siv_decrypt alloc key ic addr = Ret r"
proof -
  obtain s where s: "aes_s2v alloc k x = Ret (s k x)" for k x
    using aes_s2v_total by metis
  show "\<exists>r. aes_siv_encrypt alloc key pw addr = Ret r" "\<exists>r. aes_siv_decrypt alloc key ic addr = Ret r"
    by (auto simp: aes_siv_encrypt_def aes_siv_decrypt_def s Let_def split: option.splits)
qed

lemma aes_siv_iff:
  assumes "16 \<le> length ic"
  shows "aes_siv_decrypt alloc key ic addr = Ret (Some pw) \<longleftrightarrow> aes_siv_encrypt alloc key pw addr = Ret (Some ic)"
proof (cases "length addr > 5 \<or> length key \<noteq> 32 \<and> length key \<noteq> 48 \<and> length key \<noteq> 64")
  case True
  then show ?thesis using assms by (auto simp: aes_siv_encrypt_def aes_siv_decrypt_def)
next
  case ok: False
  define k1 where "k1 = take (length key div 2) key"
  define k2 where "k2 = drop (length key div 2) key"
  obtain s where s: "aes_s2v alloc k1 x = Ret (s x)" and len: "s x = Some v \<Longrightarrow> length v = 16" for x v
    using aes_s2v_total by metis
  show ?thesis
  proof (cases "aes_encrypt_init alloc k2")
    case None
    then show ?thesis
      using ok by (auto simp: aes_siv_encrypt_def aes_siv_decrypt_def aes_ctr_encrypt_def Let_def
          k1_def [symmetric] k2_def [symmetric] s split: option.splits)
  next
    case (Some ctx)
    let ?ctr = "\<lambda>v. aes_ctr_loop ctx (take 16 (siv_ctr_iv v))"
    have enc: "aes_siv_encrypt alloc key pw addr =
        Ret (case s (addr @ [pw]) of None \<Rightarrow> None | Some v \<Rightarrow> Some (v @ ?ctr v pw))"
      using ok Some len by (auto simp: aes_siv_encrypt_def aes_ctr_encrypt_def Let_def
          k1_def [symmetric] k2_def [symmetric] s split: option.splits)
    let ?out = "?ctr (take 16 ic) (drop 16 ic)"
    have cmp: "s x = Some v \<Longrightarrow> rtw_memcmp2 v ic 16 = 0 \<longleftrightarrow> v = take 16 ic" for x v
      using len [of x v] assms by (simp add: rtw_memcmp2_0)
    have dec: "aes_siv_decrypt alloc key ic addr =
        Ret (if s (addr @ [?out]) = Some (take 16 ic) then Some ?out else None)"
      using ok Some assms cmp by (auto simp: aes_siv_decrypt_def aes_ctr_encrypt_def Let_def
          k1_def [symmetric] k2_def [symmetric] s split: option.splits)
    have "?out = pw \<and> s (addr @ [pw]) = Some (take 16 ic) \<longleftrightarrow>
        (\<exists>v. s (addr @ [pw]) = Some v \<and> v @ ?ctr v pw = ic)" (is "?l = ?r")
    proof
      assume ?l
      then have "?ctr (take 16 ic) pw = drop 16 ic" using aes_ctr_involution by metis
      with \<open>?l\<close> show ?r by (intro exI [of _ "take 16 ic"]) simp
    next
      assume ?r
      then obtain v where v: "s (addr @ [pw]) = Some v" "v @ ?ctr v pw = ic" by blast
      then have "take 16 ic = v" "drop 16 ic = ?ctr v pw" using len [OF v(1)] by auto
      then show ?l using v(1) aes_ctr_involution by metis
    qed
    then show ?thesis unfolding enc dec by (auto split: option.splits)
  qed
qed

section \<open>Properties\<close>

text \<open>
  Counter mode is its own inverse, and its counter is a 128-bit big-endian integer that starts
  at the nonce and grows by one per block modulo $2^{128}$: byte \<open>j\<close> of the output is byte \<open>j\<close> of
  the data exclusive-or byte \<open>j mod 16\<close> of the encrypted counter \<open>nonce + j div 16\<close>.
\<close>

lemma aes_ctr_encrypt_stream:
  assumes "length nonce = 16" and "aes_ctr_encrypt alloc key nonce data = Some out"
  shows "aes_ctr_encrypt alloc key nonce out = Some data \<and> length out = length data \<and>
    (\<exists>ctx ctr. aes_encrypt_init alloc key = Some ctx \<and>
      (\<forall>n. length (ctr n) = 16 \<and> counter_nat (ctr n) = (counter_nat nonce + n) mod 2 ^ 128) \<and>
      (\<forall>j < length data. out ! j = data ! j XOR wpa_aes_encrypt ctx (ctr (j div 16)) ! (j mod 16)))"
proof -
  from assms(2) obtain ctx where ctx: "aes_encrypt_init alloc key = Some ctx"
    and out: "out = aes_ctr_loop ctx nonce data"
    using assms(1) by (auto simp: aes_ctr_encrypt_def split: option.splits)
  let ?ctr = "\<lambda>n. (ctr_inc 16 ^^ n) nonce"
  have "length (?ctr n) = 16" for n using assms(1) by (induction n) simp_all
  moreover have "counter_nat (?ctr n) = (counter_nat nonce + n) mod 2 ^ 128" for n
    by (rule counter_nat_funpow [OF assms(1)])
  moreover have "out ! j = data ! j XOR wpa_aes_encrypt ctx (?ctr (j div 16)) ! (j mod 16)"
    if "j < length data" for j
    using aes.stream_nth [OF that, of ctx ?ctr 0] by (simp add: out aes_ctr_loop_stream)
  moreover have "aes_ctr_encrypt alloc key nonce out = Some data"
    using assms(1) ctx by (simp add: aes_ctr_encrypt_def out aes_ctr_involution)
  ultimately show ?thesis
    using ctx by (intro conjI exI [of _ ctx] exI [of _ ?ctr]) (simp_all add: out)
qed

lemma aes_ctr_encrypt_stream_witness:
  "\<exists>out. aes_ctr_encrypt (\<lambda>n. True) (replicate 16 0) (replicate 16 255) (replicate 20 1) = Some out \<and>
    aes_ctr_encrypt (\<lambda>n. True) (replicate 16 0) (replicate 16 255) out = Some (replicate 20 1)"
proof -
  obtain out where out: "aes_ctr_encrypt (\<lambda>n. True) (replicate 16 0) (replicate 16 255) (replicate 20 1) = Some out"
    using aes_encrypt_init_None_iff [of "\<lambda>n. True" "replicate 16 0"]
    by (cases "aes_encrypt_init (\<lambda>n. True) (replicate 16 0)") (auto simp: aes_ctr_encrypt_def)
  show ?thesis
    using aes_ctr_encrypt_stream [OF _ out] out by simp
qed

text \<open>
  \<open>omac1_aes_vector\<close> over a vector of buffers is the CMAC of SP 800-38B of their concatenation,
  and reads nothing outside the buffers, whenever no buffer is empty or there is a single buffer.
\<close>

lemma omac1_aes_vector_is_cmac:
  assumes "vec \<noteq> []" and "(\<forall>x \<in> set vec. x \<noteq> []) \<or> length vec = 1"
  shows "omac1_aes_vector alloc key vec =
    Ret (map_option (\<lambda>ctx. cmac (wpa_aes_encrypt ctx) (concat vec)) (aes_encrypt_init alloc key))"
  by (rule omac1_aes_vector_cmac [OF assms(2,1)])

lemma omac1_aes_vector_is_cmac_witness:
  "omac1_aes_vector (\<lambda>n. True) (replicate 16 0) [[1, 2], replicate 30 3] =
    Ret (map_option (\<lambda>ctx. cmac (wpa_aes_encrypt ctx) (1 # 2 # replicate 30 3))
      (aes_encrypt_init (\<lambda>n. True) (replicate 16 0)))"
  using omac1_aes_vector_is_cmac [of "[[1, 2], replicate 30 3]"] by simp

text \<open>
  An empty buffer in front of a non-empty one makes \<open>omac1_aes_vector\<close> read past the end of the
  empty buffer: the walk reads a byte before it looks for the end of the element.
\<close>

lemma omac1_aes_vector_empty_element:
  assumes "alloc 244" and "length key \<in> {16, 24, 32}"
  shows "omac1_aes_vector alloc key [[], x # xs] = Oob"
proof -
  obtain ctx where ctx: "aes_encrypt_init alloc key = Some ctx"
    using assms aes_encrypt_init_None_iff [of alloc key] by (auto simp: AES_PRIV_SIZE_def)
  have oob: "omac_xor [[], x # xs] f (Suc n) 0 (0, 0, cbc) = Oob" for f n cbc
    by (subst omac_xor.simps) (simp add: omac_read_def)
  show ?thesis
  proof (cases "length xs + 1 \<ge> 16")
    case True
    then show ?thesis
      using ctx oob [of _ 15] by (simp add: omac1_aes_vector_def omac_blocks.simps [of ctx _ "Suc (length xs)"])
  next
    case False
    then show ?thesis
      using ctx oob [of True "length xs"]
      by (simp add: omac1_aes_vector_def omac_blocks.simps [of ctx _ "Suc (length xs)"])
  qed
qed

lemma omac1_aes_vector_empty_element_witness:
  "omac1_aes_vector (\<lambda>n. True) (replicate 16 0) [[], [1, 2, 3]] = Oob"
  by (rule omac1_aes_vector_empty_element) simp_all

text \<open>
  C19. SIV: for every input both functions return without reading outside their buffers, and
  \<open>aes_siv_decrypt\<close> accepts exactly the outputs of \<open>aes_siv_encrypt\<close> under the same key and
  associated data, returning the plaintext that was wrapped.
\<close>

theorem aes_siv_decrypt_accepts_exactly_encrypted:
  assumes "16 \<le> length iv_crypt"
  shows "(aes_siv_decrypt alloc key iv_crypt addr = Ret (Some pw) \<longleftrightarrow>
      aes_siv_encrypt alloc key pw addr = Ret (Some iv_crypt)) \<and>
    aes_siv_encrypt alloc key pw addr \<noteq> Oob \<and> aes_siv_decrypt alloc key iv_crypt addr \<noteq> Oob"
  using aes_siv_iff [OF assms] aes_siv_total(1) [of alloc key pw addr]
    aes_siv_total(2) [where alloc = alloc and key = key and addr = addr and ic = iv_crypt] by auto

theorem aes_siv_decrypt_accepts_exactly_encrypted_witness:
  "aes_siv_decrypt (\<lambda>n. True) (replicate 32 0) (replicate 20 1) [[2]] = Ret (Some [3, 4, 5, 6]) \<longleftrightarrow>
    aes_siv_encrypt (\<lambda>n. True) (replicate 32 0) [3, 4, 5, 6] [[2]] = Ret (Some (replicate 20 1))"
  using aes_siv_decrypt_accepts_exactly_encrypted [of "replicate 20 1"] by simp

text \<open>
  The subkey functions \<open>gf_mulx\<close> and \<open>dbl\<close> double a 128-bit block, read as a big-endian integer,
  in the field with the polynomial \<open>0x87\<close>.
\<close>

lemma subkey_doubling:
  assumes "length pad = 16"
  shows "block_word (gf_mulx pad) = push_bit 1 (block_word pad) XOR (if bit (block_word pad) 127 then 0x87 else 0) \<and>
    dbl pad = gf_mulx pad"
  using gf_mulx_dbl [OF assms] by (simp add: cmac_dbl_def dbl_def gf_mulx_def)

lemma subkey_doubling_witness: "dbl (replicate 16 255) = gf_mulx (replicate 16 255)"
  using subkey_doubling [of "replicate 16 255"] by simp

end
