(* ===== verification/SHA256.thy ===== *)
theory SHA256
  imports Prelude
begin

unbundle bit_operations_syntax

text \<open>
  SHA-256 (\<^verbatim>\<open>core/crypto/sha256-internal.c\<close>), HMAC (\<^verbatim>\<open>core/crypto/sha256.c\<close>) and the key
  derivation function of IEEE 802.11 (\<^verbatim>\<open>core/crypto/sha256-prf.c\<close>). The references are FIPS
  180-4 and RFC 2104, on the concatenation of the input buffers.

  The round computations are done in \<^verbatim>\<open>unsigned long\<close>, 64 bits wide, and truncated when they are
  stored: \<open>u64\<close> in the model. A result \<open>None\<close> is the return value -1. The hash context on the
  stack is not initialised before \<open>sha256_init\<close>: its contents are an argument.
\<close>

section \<open>Compression\<close>

definition K :: "u64 list" where
  "K =
    [0x428a2f98, 0x71374491, 0xb5c0fbcf, 0xe9b5dba5, 0x3956c25b] @
    [0x59f111f1, 0x923f82a4, 0xab1c5ed5, 0xd807aa98, 0x12835b01] @
    [0x243185be, 0x550c7dc3, 0x72be5d74, 0x80deb1fe, 0x9bdc06a7] @
    [0xc19bf174, 0xe49b69c1, 0xefbe4786, 0x0fc19dc6, 0x240ca1cc] @
    [0x2de92c6f, 0x4a7484aa, 0x5cb0a9dc, 0x76f988da, 0x983e5152] @
    [0xa831c66d, 0xb00327c8, 0xbf597fc7, 0xc6e00bf3, 0xd5a79147] @
    [0x06ca6351, 0x14292967, 0x27b70a85, 0x2e1b2138, 0x4d2c6dfc] @
    [0x53380d13, 0x650a7354, 0x766a0abb, 0x81c2c92e, 0x92722c85] @
    [0xa2bfe8a1, 0xa81a664b, 0xc24b8b70, 0xc76c51a3, 0xd192e819] @
    [0xd6990624, 0xf40e3585, 0x106aa070, 0x19a4c116, 0x1e376c08] @
    [0x2748774c, 0x34b0bcb5, 0x391c0cb3, 0x4ed8aa4a, 0x5b9cca4f] @
    [0x682e6ff3, 0x748f82ee, 0x78a5636f, 0x84c87814, 0x8cc70208] @
    [0x90befffa, 0xa4506ceb, 0xbef9a3f7, 0xc67178f2]"

definition RORc :: "u64 \<Rightarrow> nat \<Rightarrow> u64" where
  "RORc x y =
     (drop_bit (y mod 32) (x AND 0xFFFFFFFF) OR push_bit (32 - y mod 32) x) AND 0xFFFFFFFF"

definition Ch :: "u32 \<Rightarrow> u32 \<Rightarrow> u32 \<Rightarrow> u32" where
  "Ch x y z = z XOR (x AND (y XOR z))"

definition Maj :: "u32 \<Rightarrow> u32 \<Rightarrow> u32 \<Rightarrow> u32" where
  "Maj x y z = ((x OR y) AND z) OR (x AND y)"

definition sha_R :: "u64 \<Rightarrow> nat \<Rightarrow> u64" where
  "sha_R x n = drop_bit n (x AND 0xFFFFFFFF)"

definition Sigma0 :: "u32 \<Rightarrow> u64" where
  "Sigma0 x = RORc (ucast x) 2 XOR RORc (ucast x) 13 XOR RORc (ucast x) 22"

definition Sigma1 :: "u32 \<Rightarrow> u64" where
  "Sigma1 x = RORc (ucast x) 6 XOR RORc (ucast x) 11 XOR RORc (ucast x) 25"

definition Gamma0 :: "u32 \<Rightarrow> u64" where
  "Gamma0 x = RORc (ucast x) 7 XOR RORc (ucast x) 18 XOR sha_R (ucast x) 3"

definition Gamma1 :: "u32 \<Rightarrow> u64" where
  "Gamma1 x = RORc (ucast x) 17 XOR RORc (ucast x) 19 XOR sha_R (ucast x) 10"

record sha256_state =
  sha_length :: u64
  sha_state :: "u32 list"
  sha_curlen :: nat
  sha_buf :: bytes

definition sha256_schedule :: "bytes \<Rightarrow> u32 list" where
  "sha256_schedule buf =
     foldl (\<lambda>W i. W @ [ucast (Gamma1 (W ! (i - 2)) + ucast (W ! (i - 7)) + Gamma0 (W ! (i - 15)) + ucast (W ! (i - 16)))])
       (map (\<lambda>i. RTW_GET_BE32 (drop (4 * i) buf)) [0..<16]) [16..<64]"

definition RND :: "u32 list \<Rightarrow> u32 list \<Rightarrow> nat \<Rightarrow> u32 list" where
  "RND W S i =
     (let t0 = ucast (ucast (S ! 7) + Sigma1 (S ! 4) + ucast (Ch (S ! 4) (S ! 5) (S ! 6)) + K ! i + ucast (W ! i)) :: u32;
          t1 = ucast (Sigma0 (S ! 0) + ucast (Maj (S ! 0) (S ! 1) (S ! 2))) :: u32;
          S = S[3 := S ! 3 + t0];
          S = S[7 := t0 + t1];
          t = S ! 7
      in [t, S ! 0, S ! 1, S ! 2, S ! 3, S ! 4, S ! 5, S ! 6])"

definition sha256_compress :: "sha256_state \<Rightarrow> bytes \<Rightarrow> sha256_state" where
  "sha256_compress md buf =
     (let W = sha256_schedule buf;
          S = foldl (RND W) (sha_state md) [0..<64]
      in md\<lparr>sha_state := map (\<lambda>i. sha_state md ! i + S ! i) [0..<8]\<rparr>)"

section \<open>Hashing\<close>

definition sha256_init :: "sha256_state \<Rightarrow> sha256_state" where
  "sha256_init md =
     md\<lparr>sha_curlen := 0, sha_length := 0,
        sha_state := [0x6A09E667, 0xBB67AE85, 0x3C6EF372, 0xA54FF53A,
                      0x510E527F, 0x9B05688C, 0x1F83D9AB, 0x5BE0CD19]\<rparr>"

text \<open>
  The loop of \<open>sha256_process\<close> gets as many iterations as there are bytes: with \<open>curlen\<close> below 64
  every iteration consumes at least one.
\<close>

primrec sha256_process_loop :: "nat \<Rightarrow> sha256_state \<Rightarrow> bytes \<Rightarrow> sha256_state option" where
  "sha256_process_loop 0 md inp = (if length inp > 0 then None else Some md)"
| "sha256_process_loop (Suc fuel) md inp =
     (if length inp > 0
      then if sha_curlen md = 0 \<and> length inp \<ge> 64
           then let md = sha256_compress md (take 64 inp);
                    md = md\<lparr>sha_length := sha_length md + 64 * 8\<rparr>
                in sha256_process_loop fuel md (drop 64 inp)
           else let n = (if length inp < 64 - sha_curlen md then length inp else 64 - sha_curlen md);
                    md = md\<lparr>sha_buf := memcpy_at (sha_buf md) (sha_curlen md) (take n inp)\<rparr>;
                    md = md\<lparr>sha_curlen := sha_curlen md + n\<rparr>;
                    md = (if sha_curlen md = 64
                          then let md = sha256_compress md (sha_buf md)
                               in md\<lparr>sha_length := sha_length md + 8 * 64, sha_curlen := 0\<rparr>
                          else md)
                in sha256_process_loop fuel md (drop n inp)
      else Some md)"

definition sha256_process :: "sha256_state \<Rightarrow> bytes \<Rightarrow> sha256_state option" where
  "sha256_process md inp =
     (if sha_curlen md \<ge> 64 then None else sha256_process_loop (length inp) md inp)"

text \<open>The loop that stores zeros up to \<open>curlen = limit\<close>.\<close>

fun sha256_zero_pad :: "nat \<Rightarrow> nat \<Rightarrow> sha256_state \<Rightarrow> sha256_state" where
  "sha256_zero_pad 0 limit md = md"
| "sha256_zero_pad (Suc n) limit md =
     (if sha_curlen md < limit
      then sha256_zero_pad n limit (md\<lparr>sha_buf := (sha_buf md)[sha_curlen md := 0], sha_curlen := sha_curlen md + 1\<rparr>)
      else md)"

definition sha256_done :: "sha256_state \<Rightarrow> bytes option" where
  "sha256_done md =
     (if sha_curlen md \<ge> 64 then None
      else let md = md\<lparr>sha_length := sha_length md + word_of_nat (sha_curlen md * 8)\<rparr>;
               md = md\<lparr>sha_buf := (sha_buf md)[sha_curlen md := 0x80], sha_curlen := sha_curlen md + 1\<rparr>;
               md = (if sha_curlen md > 56
                     then let md = sha256_zero_pad 64 64 md;
                              md = sha256_compress md (sha_buf md)
                          in md\<lparr>sha_curlen := 0\<rparr>
                     else md);
               md = sha256_zero_pad 56 56 md;
               md = md\<lparr>sha_buf := memcpy_at (sha_buf md) 56 (RTW_PUT_BE64 (sha_length md))\<rparr>;
               md = sha256_compress md (sha_buf md)
           in Some (concat (map (\<lambda>i. RTW_PUT_BE32 (sha_state md ! i)) [0..<8])))"

fun sha256_process_all :: "sha256_state \<Rightarrow> bytes list \<Rightarrow> sha256_state option" where
  "sha256_process_all ctx [] = Some ctx"
| "sha256_process_all ctx (a # as) =
     (case sha256_process ctx a of None \<Rightarrow> None | Some ctx \<Rightarrow> sha256_process_all ctx as)"

definition sha256_vector :: "sha256_state \<Rightarrow> bytes list \<Rightarrow> bytes option" where
  "sha256_vector stack vec =
     (let ctx = sha256_init stack
      in case sha256_process_all ctx vec of None \<Rightarrow> None | Some ctx \<Rightarrow> sha256_done ctx)"

section \<open>FIPS 180-4\<close>

text \<open>
  The reference has constants of its own, computed as the standard prescribes: the first 32 bits
  of the fractional parts of the cube roots of the first 64 primes for the rounds, and of the
  square roots of the first 8 for the initial state. \<open>root_bits e n k r\<close> finds the integer part of
  the root of \<open>n\<close> bit by bit, the largest number below \<open>r + 2^k\<close> whose power does not exceed \<open>n\<close>.
\<close>

definition sha_primes :: "int list" where
  "sha_primes =
    [2, 3, 5, 7, 11, 13, 17, 19, 23, 29, 31, 37, 41, 43, 47, 53, 59, 61, 67, 71, 73, 79, 83, 89, 97, 101, 103, 107,
     109, 113, 127, 131, 137, 139, 149, 151, 157, 163, 167, 173, 179, 181, 191, 193, 197, 199, 211, 223, 227, 229,
     233, 239, 241, 251, 257, 263, 269, 271, 277, 281, 283, 293, 307, 311]"

primrec root_bits :: "nat \<Rightarrow> int \<Rightarrow> nat \<Rightarrow> int \<Rightarrow> int" where
  "root_bits e n 0 r = r"
| "root_bits e n (Suc k) r = root_bits e n k (if (r + 2 ^ k) ^ e \<le> n then r + 2 ^ k else r)"

definition fips_K :: "nat \<Rightarrow> u32" where
  "fips_K t = word_of_int (root_bits 3 (sha_primes ! t * 2 ^ 96) 36 0)"

definition fips_H0 :: "u32 list" where
  "fips_H0 = map (\<lambda>i. word_of_int (root_bits 2 (sha_primes ! i * 2 ^ 64) 38 0)) [0..<8]"

definition ch :: "u32 \<Rightarrow> u32 \<Rightarrow> u32 \<Rightarrow> u32" where
  "ch x y z = (x AND y) XOR (NOT x AND z)"

definition maj :: "u32 \<Rightarrow> u32 \<Rightarrow> u32 \<Rightarrow> u32" where
  "maj x y z = (x AND y) XOR (x AND z) XOR (y AND z)"

definition big_sigma0 :: "u32 \<Rightarrow> u32" where
  "big_sigma0 x = word_rotr 2 x XOR word_rotr 13 x XOR word_rotr 22 x"

definition big_sigma1 :: "u32 \<Rightarrow> u32" where
  "big_sigma1 x = word_rotr 6 x XOR word_rotr 11 x XOR word_rotr 25 x"

definition small_sigma0 :: "u32 \<Rightarrow> u32" where
  "small_sigma0 x = word_rotr 7 x XOR word_rotr 18 x XOR drop_bit 3 x"

definition small_sigma1 :: "u32 \<Rightarrow> u32" where
  "small_sigma1 x = word_rotr 17 x XOR word_rotr 19 x XOR drop_bit 10 x"

function fips_W :: "bytes \<Rightarrow> nat \<Rightarrow> u32" where
  "fips_W block t =
     (if t < 16 then be_word (map ((!) (drop (4 * t) block)) [0..<4])
      else small_sigma1 (fips_W block (t - 2)) + fips_W block (t - 7) +
           small_sigma0 (fips_W block (t - 15)) + fips_W block (t - 16))"
  by pat_completeness auto
termination
  by (relation "measure (\<lambda>(block, t). t)") auto

declare fips_W.simps [simp del]

definition fips_round :: "bytes \<Rightarrow> u32 list \<Rightarrow> nat \<Rightarrow> u32 list" where
  "fips_round block s t =
     (let a = s ! 0; b = s ! 1; c = s ! 2; d = s ! 3; e = s ! 4; f = s ! 5; g = s ! 6; h = s ! 7;
          T1 = h + big_sigma1 e + ch e f g + fips_K t + fips_W block t;
          T2 = big_sigma0 a + maj a b c
      in [T1 + T2, a, b, c, d + T1, e, f, g])"

definition fips_compress :: "u32 list \<Rightarrow> bytes \<Rightarrow> u32 list" where
  "fips_compress H block = map2 (+) H (foldl (fips_round block) H [0..<64])"

function fips_blocks :: "u32 list \<Rightarrow> bytes \<Rightarrow> u32 list" where
  "fips_blocks H data =
     (if length data < 64 then H else fips_blocks (fips_compress H (take 64 data)) (drop 64 data))"
  by pat_completeness auto
termination
  by (relation "measure (\<lambda>(H, data). length data)") auto

declare fips_blocks.simps [simp del]

definition fips_pad :: "bytes \<Rightarrow> bytes" where
  "fips_pad msg =
     msg @ 0x80 # replicate ((119 - length msg mod 64) mod 64) 0 @ be_bytes 8 (word_of_nat (8 * length msg) :: u64)"

definition fips_sha256 :: "bytes \<Rightarrow> bytes" where
  "fips_sha256 msg = concat (map (be_bytes 4) (fips_blocks fips_H0 (fips_pad msg)))"

section \<open>Constants and byte order\<close>

definition int_sqrt :: "int \<Rightarrow> int" where
  "int_sqrt p = (if p < 4 then 1 else if p < 9 then 2 else if p < 16 then 3 else 4)"

definition int_cbrt :: "int \<Rightarrow> int" where
  "int_cbrt p = (if p < 8 then 1 else if p < 27 then 2 else if p < 64 then 3 else if p < 125 then 4 else if p < 216 then 5 else 6)"

text \<open>\<open>q + k / 2^32\<close> is the root of \<open>p\<close>, cut after 32 binary digits.\<close>

definition sqrt_digits :: "int \<Rightarrow> u32 \<Rightarrow> bool" where
  "sqrt_digits p k \<longleftrightarrow> (let a = int_sqrt p * 2 ^ 32 + uint k in a ^ 2 \<le> p * 2 ^ 64 \<and> p * 2 ^ 64 < (a + 1) ^ 2)"

definition cbrt_digits :: "int \<Rightarrow> u64 \<Rightarrow> bool" where
  "cbrt_digits p k \<longleftrightarrow>
     k < 2 ^ 32 \<and> (let a = int_cbrt p * 2 ^ 32 + uint k in a ^ 3 \<le> p * 2 ^ 96 \<and> p * 2 ^ 96 < (a + 1) ^ 3)"

lemma K_digits: "list_all2 cbrt_digits sha_primes K"
  unfolding sha_primes_def K_def append_Cons append_Nil list_all2_Cons list_all2_Nil
  by (intro conjI TrueI; simp add: cbrt_digits_def int_cbrt_def)

lemma H0_digits: "list_all2 sqrt_digits (take 8 sha_primes) (sha_state (sha256_init md))"
  by (simp add: sha_primes_def sha256_init_def) (intro conjI; simp add: sqrt_digits_def int_sqrt_def)

lemma root_bits_found:
  assumes "r \<le> q" and "q < r + 2 ^ k" and "0 \<le> r" and "q ^ e \<le> n" and "n < (q + 1) ^ e"
  shows "root_bits e n k r = q"
  using assms(1-3)
proof (induction k arbitrary: r)
  case (Suc k)
  show ?case
  proof (cases "(r + 2 ^ k) ^ e \<le> n")
    case True
    have "r + 2 ^ k \<le> q"
    proof (rule ccontr)
      assume "\<not> r + 2 ^ k \<le> q"
      then have "(q + 1) ^ e \<le> (r + 2 ^ k) ^ e" using Suc.prems by (intro power_mono) auto
      then show False using True assms(5) by simp
    qed
    then show ?thesis using Suc True by simp
  next
    case False
    have "q < r + 2 ^ k"
    proof (rule ccontr)
      assume "\<not> q < r + 2 ^ k"
      then have "(r + 2 ^ k) ^ e \<le> q ^ e" using Suc.prems by (intro power_mono) auto
      then show False using False assms(4) by simp
    qed
    then show ?thesis using Suc False by simp
  qed
qed simp

lemma word_of_int_fraction: "(word_of_int (q * 2 ^ 32 + k) :: u32) = word_of_int k"
  by (rule word_of_int_eq_iff [THEN iffD2]) (simp add: take_bit_eq_mod)

lemma cbrt_digits_root:
  assumes "cbrt_digits p k"
  shows "(word_of_int (root_bits 3 (p * 2 ^ 96) 36 0) :: u32) = ucast k"
proof -
  let ?q = "int_cbrt p * 2 ^ 32 + uint k"
  have k: "uint k < 2 ^ 32" using assms by (simp add: cbrt_digits_def word_less_def)
  have c: "1 \<le> int_cbrt p" "int_cbrt p \<le> 6" by (simp_all add: int_cbrt_def)
  have "root_bits 3 (p * 2 ^ 96) 36 0 = ?q"
    by (rule root_bits_found) (use assms k c in \<open>simp_all add: cbrt_digits_def Let_def\<close>)
  then have "(word_of_int (root_bits 3 (p * 2 ^ 96) 36 0) :: u32) = word_of_int (uint k)"
    by (simp only: word_of_int_fraction)
  then show ?thesis by simp
qed

lemma sqrt_digits_root:
  assumes "sqrt_digits p k"
  shows "(word_of_int (root_bits 2 (p * 2 ^ 64) 38 0) :: u32) = k"
proof -
  let ?q = "int_sqrt p * 2 ^ 32 + uint k"
  have k: "uint k < 2 ^ 32" using unsigned_less [of k, where 'a = int] by simp
  have c: "1 \<le> int_sqrt p" "int_sqrt p \<le> 4" by (simp_all add: int_sqrt_def)
  have "root_bits 2 (p * 2 ^ 64) 38 0 = ?q"
    by (rule root_bits_found) (use assms k c in \<open>simp_all add: sqrt_digits_def Let_def\<close>)
  then have "(word_of_int (root_bits 2 (p * 2 ^ 64) 38 0) :: u32) = word_of_int (uint k)"
    by (simp only: word_of_int_fraction)
  then show ?thesis by simp
qed

text \<open>The constants of the code are those of the standard.\<close>

lemma length_sha_primes: "length sha_primes = 64"
  by (simp add: sha_primes_def)

lemma K_fips: "t < 64 \<Longrightarrow> ucast (K ! t) = fips_K t"
  using list_all2_nthD [OF K_digits, of t] unfolding length_sha_primes fips_K_def
  by (intro cbrt_digits_root [symmetric]) simp

lemma length_fips_H0 [simp]: "length fips_H0 = 8"
  by (simp add: fips_H0_def)

lemma H0_fips: "sha_state (sha256_init md) = fips_H0"
proof (rule nth_equalityI)
  show len: "length (sha_state (sha256_init md)) = length fips_H0" by (simp add: sha256_init_def)
  fix i assume "i < length (sha_state (sha256_init md))"
  then have i: "i < 8" using len by simp
  then have "sqrt_digits (sha_primes ! i) (sha_state (sha256_init md) ! i)"
    using list_all2_nthD [OF H0_digits, of i md] by (simp add: length_sha_primes)
  moreover have "fips_H0 ! i = word_of_int (root_bits 2 (sha_primes ! i * 2 ^ 64) 38 0)"
    using i unfolding fips_H0_def by (subst nth_map) (simp_all only: length_upt nth_upt, simp_all)
  ultimately show "sha_state (sha256_init md) ! i = fips_H0 ! i" by (simp only: sqrt_digits_root)
qed

lemma get_is_be: "RTW_GET_BE32 b = be_word (map ((!) b) [0..<4])"
  using get_is_be_word [of "b ! 0" "b ! 1" "b ! 2" "b ! 3" "[]"] by (simp add: RTW_GET_BE32_def upt_rec eval_nat_numeral)

section \<open>The compression function\<close>

lemma ucast_add: "ucast (a + b :: u64) = (ucast a + ucast b :: u32)"
proof -
  have "unat (ucast (a + b) :: u32) = unat (ucast a + ucast b :: u32)"
    by (simp add: unsigned_ucast_eq unat_word_ariths take_bit_eq_mod mod_mod_cancel mod_add_eq)
  then show ?thesis by (simp add: word_unat_eq_iff)
qed

lemma ucast_xor: "ucast (a XOR b :: u64) = (ucast a XOR ucast b :: u32)"
  by (rule word_eqI_bits) (simp add: bit_simps)

lemma ucast_ucast32: "ucast (ucast x :: u64) = (x :: u32)"
  by (rule word_eqI_bits) (auto simp: bit_simps)

lemma and_low32: "x AND 0xFFFFFFFF = take_bit 32 (x :: u64)"
  by (simp add: take_bit_eq_mask mask_eq_exp_minus_1)

lemma RORc_rotr:
  assumes "0 < n" and "n < 32"
  shows "ucast (RORc (ucast x) n) = word_rotr n (x :: u32)"
proof (rule word_eqI_bits)
  fix k assume "k < LENGTH(32)"
  then have k: "k < 32" by simp
  have "(k + n) mod 32 = (if k + n < 32 then k + n else k + n - 32)" using k assms by (simp add: mod_if)
  then show "bit (ucast (RORc (ucast x) n) :: u32) k = bit (word_rotr n x) k"
    using k assms
    by (auto simp: RORc_def and_low32 bit_simps bit_word_rotr_iff add.commute [of k n] dest: bit_imp_le_length)
qed

lemma sha_R_shift: "ucast (sha_R (ucast x) n) = drop_bit n (x :: u32)"
  by (rule word_eqI_bits) (auto simp: sha_R_def and_low32 bit_simps dest: bit_imp_le_length)

lemma sigma_rotations:
  "ucast (Sigma0 x) = big_sigma0 x" "ucast (Sigma1 x) = big_sigma1 x"
  "ucast (Gamma0 x) = small_sigma0 x" "ucast (Gamma1 x) = small_sigma1 x"
  by (simp_all add: Sigma0_def Sigma1_def Gamma0_def Gamma1_def big_sigma0_def big_sigma1_def
      small_sigma0_def small_sigma1_def ucast_xor RORc_rotr sha_R_shift)

lemma Ch_ch: "Ch x y z = ch x y z"
  by (rule word_eqI_bits) (auto simp: Ch_def ch_def bit_simps)

lemma Maj_maj: "Maj x y z = maj x y z"
  by (rule word_eqI_bits) (auto simp: Maj_def maj_def bit_simps)

lemma schedule_fold:
  assumes "16 \<le> n"
  shows "foldl (\<lambda>W i. W @ [ucast (Gamma1 (W ! (i - 2)) + ucast (W ! (i - 7)) + Gamma0 (W ! (i - 15)) + ucast (W ! (i - 16)))])
       (map (\<lambda>i. RTW_GET_BE32 (drop (4 * i) buf)) [0..<16]) [16..<n] = map (fips_W buf) [0..<n]"
  using assms
proof (induction n rule: dec_induct)
  case base
  have "map (\<lambda>i. RTW_GET_BE32 (drop (4 * i) buf)) [0..<16] = map (fips_W buf) [0..<16]"
    by (rule map_cong) (simp_all add: fips_W.simps get_is_be)
  then show ?case by simp
next
  case (step n)
  have "fips_W buf n = small_sigma1 (fips_W buf (n - 2)) + fips_W buf (n - 7) +
      small_sigma0 (fips_W buf (n - 15)) + fips_W buf (n - 16)"
    using step.hyps by (subst fips_W.simps) simp
  then show ?case
    using step by (simp add: ucast_add ucast_ucast32 sigma_rotations)
qed

lemma sha256_schedule_nth: "t < 64 \<Longrightarrow> sha256_schedule buf ! t = fips_W buf t"
  unfolding sha256_schedule_def by (subst schedule_fold) (simp_all del: upt_rec_numeral)

lemma RND_fips:
  assumes "length S = 8" and "t < 64"
  shows "RND (sha256_schedule buf) S t = fips_round buf S t"
proof -
  have upd: "(let S = S[3 := S ! 3 + t0]; S = S[7 := t0 + t1]; t = S ! 7
       in [t, S ! 0, S ! 1, S ! 2, S ! 3, S ! 4, S ! 5, S ! 6]) =
      [t0 + t1, S ! 0, S ! 1, S ! 2, S ! 3 + t0, S ! 4, S ! 5, S ! 6]" for t0 t1
    using assms(1) by (simp add: Let_def)
  show ?thesis
    unfolding RND_def fips_round_def
    by (simp only: upd Let_def [of "ucast _"] ucast_add ucast_ucast32 sigma_rotations Ch_ch Maj_maj
        sha256_schedule_nth [OF assms(2)] K_fips [OF assms(2)]) (simp only: Let_def)
qed

lemma RND_fold:
  "length S = 8 \<Longrightarrow> n \<le> 64 \<Longrightarrow> foldl (RND (sha256_schedule buf)) S [0..<n] = foldl (fips_round buf) S [0..<n] \<and>
    length (foldl (fips_round buf) S [0..<n]) = 8"
  by (induction n) (simp_all add: RND_fips, simp add: fips_round_def Let_def)

lemma sha256_compress_fips:
  assumes "length (sha_state md) = 8"
  shows "sha256_compress md buf = md\<lparr>sha_state := fips_compress (sha_state md) buf\<rparr>"
    and "length (fips_compress (sha_state md) buf) = 8"
proof -
  let ?S = "foldl (fips_round buf) (sha_state md) [0..<64]"
  have S: "foldl (RND (sha256_schedule buf)) (sha_state md) [0..<64] = ?S" "length ?S = 8"
    using RND_fold [OF assms, of 64 buf] by simp_all
  have "map (\<lambda>i. sha_state md ! i + ?S ! i) [0..<8] = map2 (+) (sha_state md) ?S"
    by (rule nth_equalityI) (simp_all add: assms S(2))
  then show "sha256_compress md buf = md\<lparr>sha_state := fips_compress (sha_state md) buf\<rparr>"
    by (simp add: sha256_compress_def S(1) fips_compress_def)
  show "length (fips_compress (sha_state md) buf) = 8"
    by (simp add: fips_compress_def assms S(2))
qed

section \<open>Absorbing data\<close>

lemma fips_blocks_short: "length data < 64 \<Longrightarrow> fips_blocks H data = H"
  by (simp add: fips_blocks.simps)

lemma fips_blocks_block: "length b = 64 \<Longrightarrow> fips_blocks H (b @ data) = fips_blocks (fips_compress H b) data"
  by (subst fips_blocks.simps) simp

lemma fips_blocks_append: "64 dvd length xs \<Longrightarrow> fips_blocks H (xs @ ys) = fips_blocks (fips_blocks H xs) ys"
proof (induction H xs rule: fips_blocks.induct)
  case (1 H xs)
  show ?case
  proof (cases "length xs < 64")
    case True
    then have "xs = []" using "1.prems" by (auto dest: dvd_imp_le)
    then show ?thesis by (simp add: fips_blocks_short)
  next
    case False
    have xs: "xs = take 64 xs @ drop 64 xs" and len: "length (take 64 xs) = 64" using False by simp_all
    have "64 dvd length (drop 64 xs)" using "1.prems" False by (simp add: dvd_diff_nat)
    moreover have "fips_blocks H (xs @ ys) = fips_blocks H (take 64 xs @ drop 64 xs @ ys)"
      by (simp only: append_assoc [symmetric] append_take_drop_id)
    ultimately show ?thesis
      using "1.IH" False fips_blocks_block [OF len, of H "drop 64 xs @ ys"] fips_blocks_block [OF len, of H "drop 64 xs"]
      by simp
  qed
qed

definition sha_absorbed :: "sha256_state \<Rightarrow> bytes \<Rightarrow> bytes \<Rightarrow> bool" where
  "sha_absorbed md a b \<longleftrightarrow>
     64 dvd length a \<and> length b < 64 \<and> length (sha_buf md) = 64 \<and>
     sha_curlen md = length b \<and> take (length b) (sha_buf md) = b \<and>
     sha_state md = fips_blocks fips_H0 a \<and> length (fips_blocks fips_H0 a) = 8 \<and>
     sha_length md = word_of_nat (8 * length a)"

lemma sha_absorbed_init: "length (sha_buf md) = 64 \<Longrightarrow> sha_absorbed (sha256_init md) [] []"
  by (simp add: sha_absorbed_def fips_blocks_short H0_fips) (simp add: sha256_init_def)

lemma sha_absorbed_compress:
  assumes "sha_absorbed md a b" and "length (b @ c) = 64"
  shows "fips_compress (sha_state md) (b @ c) = fips_blocks fips_H0 (a @ b @ c)"
  using assms fips_blocks_append [of a fips_H0 "b @ c"] fips_blocks_block [of "b @ c" _ "[]"]
  by (simp add: sha_absorbed_def fips_blocks_short)

lemma sha_absorb_block:
  assumes "sha_absorbed md a []" and "length c = 64"
  shows "sha_absorbed (sha256_compress md c \<lparr>sha_length := sha_length md + 64 * 8\<rparr>) (a @ c) []"
proof -
  have len: "length (sha_state md) = 8" using assms(1) by (simp add: sha_absorbed_def)
  show ?thesis
    using assms sha_absorbed_compress [OF assms(1), of c] sha256_compress_fips [OF len, of c]
    by (auto simp: sha_absorbed_def algebra_simps)
qed

lemma take_memcpy_append:
  assumes "off + length src \<le> length dst" and "take off dst = b" and "length b = off"
  shows "take (off + length src) (memcpy_at dst off src) = b @ src"
  using assms by (simp add: memcpy_at_def)

lemma sha_absorb_part:
  assumes "sha_absorbed md a b" and "length b + length c < 64"
  shows "sha_absorbed (md\<lparr>sha_buf := memcpy_at (sha_buf md) (sha_curlen md) c, sha_curlen := sha_curlen md + length c\<rparr>) a (b @ c)"
  using assms take_memcpy_append [of "length b" c "sha_buf md" b]
  by (simp add: sha_absorbed_def)

lemma sha_absorb_fill:
  assumes "sha_absorbed md a b" and "length b + length c = 64"
  defines "md' \<equiv> md\<lparr>sha_buf := memcpy_at (sha_buf md) (sha_curlen md) c, sha_curlen := sha_curlen md + length c\<rparr>"
  shows "sha_absorbed (sha256_compress md' (sha_buf md') \<lparr>sha_length := sha_length md + 8 * 64, sha_curlen := 0\<rparr>) (a @ b @ c) []"
proof -
  have len: "length (b @ c) = 64" using assms(2) by simp
  have buf: "sha_buf md' = b @ c"
    using assms(1,2) take_memcpy_append [of "length b" c "sha_buf md" b]
    by (simp add: sha_absorbed_def md'_def)
  have st: "sha_state md' = sha_state md" "sha_length md' = sha_length md" by (simp_all add: md'_def)
  have "length (sha_state md') = 8" using assms(1) by (simp add: st sha_absorbed_def)
  then have comp: "sha256_compress md' (b @ c) = md'\<lparr>sha_state := fips_blocks fips_H0 (a @ b @ c)\<rparr>"
    "length (fips_blocks fips_H0 (a @ b @ c)) = 8"
    using sha256_compress_fips [of md' "b @ c"] sha_absorbed_compress [OF assms(1) len] by (simp_all add: st)
  have "length (a @ b @ c) = length a + 64" using assms(2) by simp
  then have "64 dvd length (a @ b @ c)" using assms(1) by (simp only: sha_absorbed_def dvd_add dvd_refl)
  moreover have "(word_of_nat (8 * length a) + 512 :: u64) = word_of_nat (8 * length (a @ b @ c))"
  proof -
    have "8 * length (a @ b @ c) = 8 * length a + 512" using assms(2) by simp
    then show ?thesis by simp
  qed
  ultimately show ?thesis
    unfolding buf comp(1) using assms(1) comp(2) buf len by (simp add: sha_absorbed_def)
qed

lemma sha256_process_loop_absorbs:
  assumes "sha_absorbed md a b" and "length inp \<le> fuel"
  shows "\<exists>md' a' b'. sha256_process_loop fuel md inp = Some md' \<and> a' @ b' = a @ b @ inp \<and> sha_absorbed md' a' b'"
  using assms
proof (induction fuel arbitrary: md a b inp)
  case (Suc fuel)
  have cur: "sha_curlen md = length b" "length b < 64" using Suc.prems(1) by (simp_all add: sha_absorbed_def)
  consider "inp = []" | "inp \<noteq> []" "b = []" "64 \<le> length inp"
    | "inp \<noteq> []" "b \<noteq> [] \<or> length inp < 64" "length inp < 64 - length b"
    | "inp \<noteq> []" "b \<noteq> [] \<or> length inp < 64" "64 - length b \<le> length inp" by fastforce
  then show ?case
  proof cases
    case 1
    then show ?thesis using Suc.prems(1) by auto
  next
    case 2
    let ?md = "sha256_compress md (take 64 inp)\<lparr>sha_length := sha_length md + 64 * 8\<rparr>"
    have "sha_absorbed ?md (a @ take 64 inp) []"
      using Suc.prems(1) 2 by (intro sha_absorb_block) simp_all
    moreover have "length (drop 64 inp) \<le> fuel" using Suc.prems(2) 2 by simp
    ultimately obtain md' a' b' where "sha256_process_loop fuel ?md (drop 64 inp) = Some md'"
      "a' @ b' = (a @ take 64 inp) @ [] @ drop 64 inp" "sha_absorbed md' a' b'" using Suc.IH by blast
    moreover have "sha_length (sha256_compress md (take 64 inp)) = sha_length md"
      by (simp add: sha256_compress_def Let_def)
    ultimately show ?thesis using 2 cur by (simp add: Let_def) blast
  next
    case 3
    let ?md = "md\<lparr>sha_buf := memcpy_at (sha_buf md) (sha_curlen md) inp, sha_curlen := sha_curlen md + length inp\<rparr>"
    have "sha_absorbed ?md a (b @ inp)" using Suc.prems(1) 3 by (intro sha_absorb_part) simp_all
    moreover have "sha256_process_loop (Suc fuel) md inp = Some ?md"
      using 3 cur by (cases fuel) (auto simp: Let_def)
    ultimately show ?thesis by (intro exI [of _ ?md] exI [of _ a] exI [of _ "b @ inp"]) simp
  next
    case 4
    let ?n = "64 - length b"
    let ?c = "take ?n inp"
    let ?md = "md\<lparr>sha_buf := memcpy_at (sha_buf md) (sha_curlen md) ?c, sha_curlen := sha_curlen md + length ?c\<rparr>"
    let ?md' = "sha256_compress ?md (sha_buf ?md)\<lparr>sha_length := sha_length md + 8 * 64, sha_curlen := 0\<rparr>"
    have c: "length ?c = ?n" using 4 by simp
    have ab: "sha_absorbed ?md' (a @ b @ ?c) []"
      using Suc.prems(1) c cur by (intro sha_absorb_fill) simp_all
    have step: "sha256_process_loop (Suc fuel) md inp = sha256_process_loop fuel ?md' (drop ?n inp)"
      using 4 cur c by (auto simp: Let_def sha256_compress_def)
    have "length (drop ?n inp) \<le> fuel" using Suc.prems(2) cur 4 by (cases inp) auto
    with ab Suc.IH obtain md' a' b' where "sha256_process_loop fuel ?md' (drop ?n inp) = Some md'"
      "a' @ b' = (a @ b @ ?c) @ [] @ drop ?n inp" "sha_absorbed md' a' b'" by blast
    then show ?thesis unfolding step by auto
  qed
qed auto

lemma sha256_process_absorbs:
  assumes "sha_absorbed md a b"
  shows "\<exists>md' a' b'. sha256_process md inp = Some md' \<and> a' @ b' = a @ b @ inp \<and> sha_absorbed md' a' b'"
  using sha256_process_loop_absorbs [OF assms, of inp "length inp"] assms
  by (auto simp: sha256_process_def sha_absorbed_def)

lemma sha256_process_all_absorbs:
  assumes "sha_absorbed md a b"
  shows "\<exists>md' a' b'. sha256_process_all md vec = Some md' \<and> a' @ b' = a @ b @ concat vec \<and> sha_absorbed md' a' b'"
  using assms
proof (induction vec arbitrary: md a b)
  case Nil
  then show ?case by auto
next
  case (Cons x vec)
  obtain md' a' b' where 1: "sha256_process md x = Some md'" "a' @ b' = a @ b @ x" "sha_absorbed md' a' b'"
    using sha256_process_absorbs [OF Cons.prems] by blast
  obtain md'' a'' b'' where "sha256_process_all md' vec = Some md''" "a'' @ b'' = a' @ b' @ concat vec"
    "sha_absorbed md'' a'' b''" using Cons.IH [OF 1(3)] by blast
  moreover have "a' @ b' @ concat vec = a @ b @ x @ concat vec" using 1(2) by (metis append_assoc)
  ultimately show ?case using 1(1) by auto
qed

section \<open>The digest\<close>

lemma sha256_zero_pad_buf:
  assumes "sha_curlen md \<le> limit" and "limit - sha_curlen md \<le> n" and "limit \<le> length (sha_buf md)"
  shows "sha256_zero_pad n limit md =
    md\<lparr>sha_buf := take (sha_curlen md) (sha_buf md) @ replicate (limit - sha_curlen md) 0 @ drop limit (sha_buf md),
       sha_curlen := limit\<rparr>"
  using assms
proof (induction n limit md rule: sha256_zero_pad.induct)
  case (1 limit md)
  then show ?case by simp
next
  case (2 n limit md)
  show ?case
  proof (cases "sha_curlen md < limit")
    case True
    let ?k = "sha_curlen md" and ?b = "sha_buf md"
    have "take (Suc ?k) (?b[?k := 0]) = take ?k ?b @ [0]"
      using True "2.prems" by (simp add: take_Suc_conv_app_nth)
    moreover have "replicate (limit - ?k) (0 :: u8) = 0 # replicate (limit - Suc ?k) 0"
      using True by (simp add: replicate_Suc [symmetric] Suc_diff_Suc del: replicate_Suc)
    ultimately show ?thesis using True 2 by simp
  next
    case False
    then show ?thesis using "2.prems" by simp
  qed
qed

lemma fips_pad_put: "fips_pad msg =
    msg @ 0x80 # replicate ((119 - length msg mod 64) mod 64) 0 @ RTW_PUT_BE64 (word_of_nat (8 * length msg))"
  by (simp only: fips_pad_def put_is_be_bytes)

lemma fips_sha256_put: "fips_sha256 msg = concat (map RTW_PUT_BE32 (fips_blocks fips_H0 (fips_pad msg)))"
  by (simp add: fips_sha256_def put_is_be_bytes cong: map_cong)

lemma fips_pad_split:
  assumes "64 dvd length a" and "length b < 64"
  shows "fips_pad (a @ b) =
    (if length b < 56 then a @ b @ 0x80 # replicate (55 - length b) 0 @ RTW_PUT_BE64 (word_of_nat (8 * length (a @ b)))
     else a @ (b @ 0x80 # replicate (63 - length b) 0) @ replicate 56 0 @ RTW_PUT_BE64 (word_of_nat (8 * length (a @ b))))"
proof -
  have m: "length (a @ b) mod 64 = length b" using assms by (auto elim!: dvdE)
  show ?thesis
  proof (cases "length b < 56")
    case True
    then have "(119 - length b) mod 64 = 55 - length b" by (simp add: mod_if)
    then show ?thesis using True by (simp add: fips_pad_put m [simplified])
  next
    case False
    then have "(119 - length b) mod 64 = 63 - length b + 56" using assms(2) by simp
    then have "replicate ((119 - length b) mod 64) (0 :: u8) = replicate (63 - length b) 0 @ replicate 56 0"
      by (simp only: replicate_add)
    then show ?thesis using False unfolding fips_pad_put m by simp
  qed
qed

lemma sha_done_output:
  "length H = 8 \<Longrightarrow> map (\<lambda>i. RTW_PUT_BE32 (H ! i)) [0..<8] = map RTW_PUT_BE32 H"
  by (rule nth_equalityI) (simp_all del: upt_rec_numeral)

lemma sha256_done_digest:
  assumes "sha_absorbed md a b"
  shows "sha256_done md = Some (fips_sha256 (a @ b))"
proof -
  let ?len = "RTW_PUT_BE64 (word_of_nat (8 * length (a @ b)))"
  have a: "64 dvd length a" "length b < 64" "length (sha_buf md) = 64" "sha_curlen md = length b"
    "take (length b) (sha_buf md) = b" "sha_state md = fips_blocks fips_H0 a" "length (fips_blocks fips_H0 a) = 8"
    "sha_length md = word_of_nat (8 * length a)" using assms by (simp_all add: sha_absorbed_def)
  define md1 where "md1 = md\<lparr>sha_length := word_of_nat (8 * length (a @ b)),
      sha_buf := (sha_buf md)[length b := 0x80], sha_curlen := length b + 1\<rparr>"
  have b1: "take (length b + 1) (sha_buf md1) = b @ [0x80]" "length (sha_buf md1) = 64"
    using a by (simp_all add: md1_def take_Suc_conv_app_nth)
  have len: "sha_length md + word_of_nat (sha_curlen md * 8) = word_of_nat (8 * length (a @ b))"
    by (simp add: a algebra_simps)
  define fin where "fin m = (let m = sha256_zero_pad 56 56 m;
      m = m\<lparr>sha_buf := memcpy_at (sha_buf m) 56 (RTW_PUT_BE64 (sha_length m))\<rparr>;
      m = sha256_compress m (sha_buf m)
      in Some (concat (map (\<lambda>i. RTW_PUT_BE32 (sha_state m ! i)) [0..<8])))" for m
  have done1: "sha256_done md = fin (if length b + 1 > 56 then
      (sha256_compress (sha256_zero_pad 64 64 md1) (sha_buf (sha256_zero_pad 64 64 md1)))\<lparr>sha_curlen := 0\<rparr> else md1)"
  proof -
    have m1: "md\<lparr>sha_length := sha_length md + word_of_nat (sha_curlen md * 8)\<rparr>
        \<lparr>sha_buf := (sha_buf (md\<lparr>sha_length := sha_length md + word_of_nat (sha_curlen md * 8)\<rparr>))
            [sha_curlen (md\<lparr>sha_length := sha_length md + word_of_nat (sha_curlen md * 8)\<rparr>) := 0x80],
          sha_curlen := sha_curlen (md\<lparr>sha_length := sha_length md + word_of_nat (sha_curlen md * 8)\<rparr>) + 1\<rparr> = md1"
      unfolding len by (simp add: md1_def a(4))
    have "sha_curlen md1 = length b + 1" by (simp add: md1_def)
    then show ?thesis
      using a(2,4) unfolding sha256_done_def fin_def Let_def m1 by simp
  qed
  have fin: "fin m = Some (concat (map RTW_PUT_BE32 (fips_compress (sha_state m)
      (take (sha_curlen m) (sha_buf m) @ replicate (56 - sha_curlen m) 0 @ RTW_PUT_BE64 (sha_length m)))))"
    if "sha_curlen m \<le> 56" "length (sha_buf m) = 64" "length (sha_state m) = 8" for m
  proof -
    have z: "sha256_zero_pad 56 56 m = m\<lparr>sha_buf := take (sha_curlen m) (sha_buf m) @ replicate (56 - sha_curlen m) 0 @ drop 56 (sha_buf m),
        sha_curlen := 56\<rparr>"
      by (rule sha256_zero_pad_buf) (use that in simp_all)
    show ?thesis
      unfolding fin_def Let_def z
      using that sha256_compress_fips [of "m\<lparr>sha_buf := _, sha_curlen := 56\<rparr>"]
      by (simp add: memcpy_at_def sha256_compress_fips sha_done_output del: upt_rec_numeral)
  qed
  show ?thesis
  proof (cases "length b < 56")
    case True
    have blk: "length (b @ 0x80 # replicate (55 - length b) 0 @ ?len) = 64" using True by simp
    have "fin md1 = Some (concat (map RTW_PUT_BE32 (fips_compress (fips_blocks fips_H0 a)
        (b @ 0x80 # replicate (55 - length b) 0 @ ?len))))"
      using True a b1 by (subst fin) (simp_all add: md1_def)
    then show ?thesis
      using True fips_blocks_block [OF blk, of "fips_blocks fips_H0 a" "[]"] a(1,2)
      by (simp add: done1 fips_sha256_put fips_pad_split fips_blocks_append fips_blocks_short)
  next
    case False
    let ?m = "sha256_zero_pad 64 64 md1" and ?blk = "b @ 0x80 # replicate (63 - length b) 0"
    have z: "?m = md1\<lparr>sha_buf := take (sha_curlen md1) (sha_buf md1) @ replicate (64 - sha_curlen md1) 0 @ drop 64 (sha_buf md1),
        sha_curlen := 64\<rparr>"
      by (rule sha256_zero_pad_buf) (use a b1 in \<open>simp_all add: md1_def\<close>)
    have buf: "sha_buf ?m = ?blk" "sha_state ?m = fips_blocks fips_H0 a" "sha_length ?m = word_of_nat (8 * length (a @ b))"
      using a b1 by (simp_all add: z) (simp_all add: md1_def)
    have blk: "length ?blk = 64" "length (replicate 56 0 @ ?len) = 64" using a(2) by simp_all
    let ?H = "fips_compress (fips_blocks fips_H0 a) ?blk"
    have comp: "sha256_compress ?m (sha_buf ?m) = ?m\<lparr>sha_state := ?H\<rparr>" "length ?H = 8"
      using sha256_compress_fips [of ?m ?blk] a(7) by (simp_all add: buf)
    have "fin (?m\<lparr>sha_state := ?H, sha_curlen := 0\<rparr>) =
        Some (concat (map RTW_PUT_BE32 (fips_compress ?H (replicate 56 0 @ ?len))))"
      using comp(2) blk(1) by (subst fin) (simp_all add: buf)
    then show ?thesis
      using False fips_blocks_block [OF blk(1)] fips_blocks_block [OF blk(2), of ?H "[]"] a(1,2)
      by (simp add: done1 comp fips_sha256_put fips_pad_split fips_blocks_append fips_blocks_short)
  qed
qed

lemma sha256_vector_fips:
  assumes "length (sha_buf stack) = 64"
  shows "sha256_vector stack vec = Some (fips_sha256 (concat vec))"
proof -
  obtain md a b where "sha256_process_all (sha256_init stack) vec = Some md" "a @ b = concat vec" "sha_absorbed md a b"
    using sha256_process_all_absorbs [OF sha_absorbed_init [OF assms], of vec] by auto
  then show ?thesis by (simp add: sha256_vector_def sha256_done_digest)
qed

section \<open>HMAC\<close>

definition hmac_k_pad :: "bytes \<Rightarrow> u8 \<Rightarrow> bytes" where
  "hmac_k_pad key c = map (\<lambda>x. x XOR c) (memcpy_at (replicate 64 0) 0 key)"

definition hmac_sha256_vector :: "sha256_state \<Rightarrow> bytes \<Rightarrow> bytes list \<Rightarrow> bytes option" where
  "hmac_sha256_vector stack key addr =
     (if length addr > 5 then None
      else case (if length key > 64 then sha256_vector stack [key] else Some key) of None \<Rightarrow> None
      | Some key \<Rightarrow>
        (case sha256_vector stack (hmac_k_pad key 0x36 # addr) of None \<Rightarrow> None
         | Some mac \<Rightarrow> sha256_vector stack [hmac_k_pad key 0x5c, mac]))"

definition hmac_sha256 :: "sha256_state \<Rightarrow> bytes \<Rightarrow> bytes \<Rightarrow> bytes option" where
  "hmac_sha256 stack key data = hmac_sha256_vector stack key [data]"

text \<open>RFC 2104 with block length 64.\<close>

definition rfc2104_hmac :: "bytes \<Rightarrow> bytes \<Rightarrow> bytes" where
  "rfc2104_hmac key text =
     (let K0 = (if length key > 64 then fips_sha256 key else key);
          K0 = K0 @ replicate (64 - length K0) 0
      in fips_sha256 (xor_bytes K0 (replicate 64 0x5c) @ fips_sha256 (xor_bytes K0 (replicate 64 0x36) @ text)))"

lemma length_fips_blocks: "length H = 8 \<Longrightarrow> length (fips_blocks H data) = 8"
proof (induction H data rule: fips_blocks.induct)
  case (1 H data)
  have "length (fips_compress H (take 64 data)) = 8"
    using sha256_compress_fips(2) [of "\<lparr>sha_length = 0, sha_state = H, sha_curlen = 0, sha_buf = []\<rparr>"] "1.prems" by simp
  then show ?case using 1 by (subst fips_blocks.simps) simp
qed

lemma length_fips_sha256 [simp, buf_len]: "length (fips_sha256 msg) = 32"
proof -
  have "length (concat (map RTW_PUT_BE32 H)) = 4 * length H" for H by (induction H) simp_all
  then show ?thesis
    using length_fips_blocks [of fips_H0 "fips_pad msg"] by (simp add: fips_sha256_put)
qed

lemma hmac_k_pad_xor:
  assumes "length key \<le> 64"
  shows "hmac_k_pad key c = xor_bytes (key @ replicate (64 - length key) 0) (replicate 64 c)"
  by (rule nth_equalityI) (use assms in \<open>simp_all add: hmac_k_pad_def memcpy_at_def nth_append\<close>)

lemma hmac_sha256_vector_rfc:
  assumes "length (sha_buf stack) = 64" and "length addr \<le> 5"
  shows "hmac_sha256_vector stack key addr = Some (rfc2104_hmac key (concat addr))"
proof -
  have "(if length key > 64 then sha256_vector stack [key] else Some key) =
      Some (if length key > 64 then fips_sha256 key else key)"
    by (simp add: sha256_vector_fips assms(1))
  moreover have "length (if length key > 64 then fips_sha256 key else key) \<le> 64" by simp
  ultimately show ?thesis
    using assms(2)
    by (simp only: hmac_sha256_vector_def option.case sha256_vector_fips [OF assms(1)] hmac_k_pad_xor rfc2104_hmac_def Let_def)
      simp
qed

lemma length_rfc2104_hmac [simp, buf_len]: "length (rfc2104_hmac key text) = 32"
  by (simp add: rfc2104_hmac_def Let_def)

section \<open>Key derivation\<close>

text \<open>The label is a character string that ends with a null byte.\<close>

fun os_strlen :: "bytes \<Rightarrow> nat" where
  "os_strlen [] = 0"
| "os_strlen (c # s) = (if c \<noteq> 0 then Suc (os_strlen s) else 0)"

text \<open>\<open>left\<close> is \<open>buf_len - pos\<close>, \<open>out\<close> what was stored so far.\<close>

function sha256_prf_loop :: "(bytes \<Rightarrow> bytes option) \<Rightarrow> u16 \<Rightarrow> nat \<Rightarrow> bytes \<Rightarrow> bytes option" where
  "sha256_prf_loop hmac counter left out =
     (if left > 0
      then case hmac (RTW_PUT_LE16 counter) of None \<Rightarrow> None
        | Some hash \<Rightarrow>
          if left \<ge> 32 then sha256_prf_loop hmac (counter + 1) (left - 32) (out @ hash)
          else Some (out @ take left hash)
      else Some out)"
  by pat_completeness auto
termination
  by (relation "measure (\<lambda>(hmac, counter, left, out). left)") auto

declare sha256_prf_loop.simps [simp del]

definition sha256_prf_bits :: "sha256_state \<Rightarrow> bytes \<Rightarrow> bytes \<Rightarrow> bytes \<Rightarrow> nat \<Rightarrow> bytes option" where
  "sha256_prf_bits stack key label data buf_len_bits =
     (let buf_len = (buf_len_bits + 7) div 8;
          length_le = RTW_PUT_LE16 (word_of_nat buf_len_bits)
      in case sha256_prf_loop
           (\<lambda>counter_le. hmac_sha256_vector stack key [counter_le, take (os_strlen label) label, data, length_le])
           1 buf_len [] of None \<Rightarrow> None
         | Some buf \<Rightarrow>
           if buf_len_bits mod 8 \<noteq> 0
           then let mask = ucast (push_bit (8 - buf_len_bits mod 8) (0xff :: u32)) :: u8
                in Some (buf[buf_len - 1 := buf ! (buf_len - 1) AND mask])
           else Some buf)"

definition sha256_prf :: "sha256_state \<Rightarrow> bytes \<Rightarrow> bytes \<Rightarrow> bytes \<Rightarrow> nat \<Rightarrow> bytes option" where
  "sha256_prf stack key label data buf_len = sha256_prf_bits stack key label data (buf_len * 8)"

text \<open>The reference: the first \<open>buf_len\<close> bytes of the sequence of keyed hashes with counters 1, 2, ...\<close>

definition kdf_block :: "bytes \<Rightarrow> bytes \<Rightarrow> bytes \<Rightarrow> nat \<Rightarrow> nat \<Rightarrow> bytes" where
  "kdf_block key label data bits i =
     rfc2104_hmac key (RTW_PUT_LE16 (word_of_nat i) @ take (os_strlen label) label @ data @ RTW_PUT_LE16 (word_of_nat bits))"

lemma sha256_prf_loop_blocks:
  assumes "\<And>c. hmac (RTW_PUT_LE16 (word_of_nat c)) = Some (h c)" and "\<And>c. length (h c) = 32" and "left \<le> 32 * n"
  shows "sha256_prf_loop hmac (word_of_nat i) left out =
    Some (out @ take left (concat (map h [i..<i + n])))"
  using assms(3)
proof (induction n arbitrary: i left out)
  case 0
  then show ?case by (simp add: sha256_prf_loop.simps)
next
  case (Suc n)
  have up: "[i..<i + Suc n] = i # [Suc i..<Suc i + n]" by (simp add: upt_conv_Cons del: upt_Suc)
  show ?case
  proof (cases "left \<ge> 32")
    case True
    have "sha256_prf_loop hmac (word_of_nat i) left out = sha256_prf_loop hmac (word_of_nat (Suc i)) (left - 32) (out @ h i)"
      using True assms(1) [of i] by (subst sha256_prf_loop.simps) (simp add: add.commute)
    then show ?thesis
      using Suc.IH [of "left - 32" "Suc i" "out @ h i"] Suc.prems True assms(2) [of i]
      by (simp only: up list.map concat.simps take_append) simp
  next
    case False
    then have "take left (concat (map h [i..<i + Suc n])) = take left (h i)"
      using assms(2) [of i] by (simp only: up list.map concat.simps take_append) simp
    with False show ?thesis
      using assms(1) [of i] by (subst sha256_prf_loop.simps) (simp del: upt_Suc)
  qed
qed

lemma kdf_mask:
  assumes "0 < k" and "k < 8"
  shows "x AND ucast (push_bit (8 - k) (0xff :: u32)) = push_bit (8 - k) (drop_bit (8 - k) (x :: u8))"
proof -
  have ff: "(0xff :: u32) = mask 8" by (simp add: mask_eq_exp_minus_1)
  show ?thesis
    unfolding ff by (rule word_eqI_bits) (use assms in \<open>auto simp: bit_simps\<close>)
qed

lemma length_kdf_concat:
  "length (concat (map (kdf_block key label data bits) [1..<1 + n])) = 32 * n"
  by (induction n) (simp_all add: kdf_block_def)

section \<open>Properties\<close>

text \<open>
  C20. \<open>sha256_vector\<close> computes SHA-256 of FIPS 180-4 of the concatenation of its buffers, however the
  message is cut into buffers and whatever the uninitialised context on the stack contains; it
  never fails.
\<close>

theorem sha256_vector_is_fips180:
  assumes "length (sha_buf stack) = 64"
  shows "sha256_vector stack vec = Some (fips_sha256 (concat vec))"
  using assms by (rule sha256_vector_fips)

theorem sha256_vector_is_fips180_witness:
  "sha256_vector \<lparr>sha_length = 5, sha_state = [], sha_curlen = 99, sha_buf = replicate 64 7\<rparr> [[1, 2], [], replicate 70 3] =
    Some (fips_sha256 (1 # 2 # replicate 70 3))"
  using sha256_vector_is_fips180 [of "\<lparr>sha_length = 5, sha_state = [], sha_curlen = 99, sha_buf = replicate 64 7\<rparr>"
      "[[1, 2], [], replicate 70 3]"] by simp

text \<open>
  \<open>hmac_sha256_vector\<close> is the HMAC of RFC 2104 with SHA-256 over the concatenated buffers, for
  at most five buffers; with more it fails.
\<close>

lemma hmac_sha256_vector_is_rfc2104:
  assumes "length (sha_buf stack) = 64"
  shows "hmac_sha256_vector stack key addr =
    (if length addr \<le> 5 then Some (rfc2104_hmac key (concat addr)) else None)"
  using hmac_sha256_vector_rfc [OF assms, of addr key] by (auto simp: hmac_sha256_vector_def)

lemma hmac_sha256_vector_is_rfc2104_witness:
  "hmac_sha256_vector \<lparr>sha_length = 5, sha_state = [], sha_curlen = 99, sha_buf = replicate 64 7\<rparr> (replicate 65 1) [[1, 2], [3]] =
    Some (rfc2104_hmac (replicate 65 1) [1, 2, 3])"
  using hmac_sha256_vector_is_rfc2104 [of "\<lparr>sha_length = 5, sha_state = [], sha_curlen = 99, sha_buf = replicate 64 7\<rparr>"
      "replicate 65 1" "[[1, 2], [3]]"] by simp

text \<open>
  \<open>sha256_prf_bits\<close> returns the first \<open>(bits + 7) div 8\<close> bytes of the concatenation of the keyed
  hashes with counters 1, 2, ... (as 16-bit little-endian integers), and clears the bits of the
  last byte that were not asked for.
\<close>

lemma sha256_prf_bits_is_kdf:
  assumes "length (sha_buf stack) = 64"
  shows "sha256_prf_bits stack key label data bits =
    (let L = (bits + 7) div 8; k = 8 - bits mod 8;
         buf = take L (concat (map (kdf_block key label data bits) [1..<1 + (L + 31) div 32]))
     in Some (if bits mod 8 \<noteq> 0 then buf[L - 1 := push_bit k (drop_bit k (buf ! (L - 1)))] else buf))"
proof -
  let ?L = "(bits + 7) div 8" and ?n = "((bits + 7) div 8 + 31) div 32"
  let ?hm = "\<lambda>c. hmac_sha256_vector stack key [c, take (os_strlen label) label, data, RTW_PUT_LE16 (word_of_nat bits)]"
  have "?hm (RTW_PUT_LE16 (word_of_nat c)) = Some (kdf_block key label data bits c)" for c
    by (simp add: hmac_sha256_vector_rfc [OF assms] kdf_block_def)
  moreover have "length (kdf_block key label data bits c) = 32" for c by (simp add: kdf_block_def)
  moreover have "?L \<le> 32 * ?n" by linarith
  ultimately have loop: "sha256_prf_loop ?hm 1 ?L [] = Some (take ?L (concat (map (kdf_block key label data bits) [1..<1 + ?n])))"
    using sha256_prf_loop_blocks [of ?hm "kdf_block key label data bits" ?L ?n 1 "[]"] by simp
  show ?thesis
    unfolding sha256_prf_bits_def Let_def loop option.case
    by (cases "bits mod 8 = 0") (simp_all add: kdf_mask)
qed

lemma sha256_prf_bits_is_kdf_witness:
  "sha256_prf_bits \<lparr>sha_length = 5, sha_state = [], sha_curlen = 99, sha_buf = replicate 64 7\<rparr> [1] [2, 0] [3] 256 =
    Some (take 32 (kdf_block [1] [2, 0] [3] 256 1))"
  using sha256_prf_bits_is_kdf [of "\<lparr>sha_length = 5, sha_state = [], sha_curlen = 99, sha_buf = replicate 64 7\<rparr>"
      "[1]" "[2, 0]" "[3]" 256] by simp

text \<open>
  The round constants are the first 32 bits of the fractional parts of the cube roots of the
  first 64 primes, and the initial state those of the square roots of the first 8, as FIPS 180-4
  prescribes.
\<close>

lemma sha256_constants:
  "list_all2 cbrt_digits sha_primes K \<and>
   list_all2 sqrt_digits (take 8 sha_primes) (sha_state (sha256_init md))"
  using K_digits H0_digits by blast

end
