(* ===== verification/Frame_Crypto.thy ===== *)
theory Frame_Crypto
  imports AES_GCM AES_MAC SHA256
begin

unbundle bit_operations_syntax

text \<open>
  Frame protection: CCMP (\<^verbatim>\<open>core/crypto/ccmp.c\<close>), GCMP (\<^verbatim>\<open>core/crypto/gcmp.c\<close>) and the
  entry points of \<^verbatim>\<open>core/rtw_swcrypto.c\<close> that the driver's software path calls.

  A frame is its list of bytes; \<^verbatim>\<open>struct ieee80211_hdr\<close> is an overlay on it (frame control at 0,
  duration at 2, three addresses at 4, sequence control at 22). \<open>spp\<close> stands for
  \<^verbatim>\<open>padapter->registrypriv.amsdu_mode == RTW_AMSDU_MODE_SPP\<close>, the only part of the adapter the code
  reads. The host is little-endian. \<open>None\<close> is a null pointer or \<^verbatim>\<open>_FAIL\<close>. The locale
  \<open>frame_aead\<close> states what the protocols need: an authenticated mode and additional data and nonce
  that are computed from the first 32 bytes of the frame and the 8 bytes after the header.
\<close>

section \<open>Constants\<close>

definition WLAN_FC_TODS :: u16 where "WLAN_FC_TODS = 0x0100"
definition WLAN_FC_FROMDS :: u16 where "WLAN_FC_FROMDS = 0x0200"
definition WLAN_FC_RETRY :: u16 where "WLAN_FC_RETRY = 0x0800"
definition WLAN_FC_PWRMGT :: u16 where "WLAN_FC_PWRMGT = 0x1000"
definition WLAN_FC_MOREDATA :: u16 where "WLAN_FC_MOREDATA = 0x2000"
definition WLAN_FC_ISWEP :: u16 where "WLAN_FC_ISWEP = 0x4000"
definition WLAN_FC_ORDER :: u16 where "WLAN_FC_ORDER = 0x8000"

definition WLAN_FC_GET_TYPE :: "u16 \<Rightarrow> u16" where "WLAN_FC_GET_TYPE fc = fc AND 0x000c"
definition WLAN_FC_GET_STYPE :: "u16 \<Rightarrow> u16" where "WLAN_FC_GET_STYPE fc = fc AND 0x00f0"

section \<open>CCMP\<close>

definition ccmp_aad_nonce :: "bool \<Rightarrow> bytes \<Rightarrow> bytes \<Rightarrow> bytes \<times> bytes" where
  "ccmp_aad_nonce spp hdr data =
     (let fc = RTW_GET_LE16 hdr;
          stype = WLAN_FC_GET_STYPE fc;
          addr4 = (fc AND (WLAN_FC_TODS OR WLAN_FC_FROMDS) = WLAN_FC_TODS OR WLAN_FC_FROMDS);
          (fc, qos, nonce0) =
            (if WLAN_FC_GET_TYPE fc = 0x0008
             then let fc = fc AND NOT 0x0070
                  in if stype AND 0x0080 \<noteq> 0
                     then (fc AND NOT WLAN_FC_ORDER, True, drop (if addr4 then 24 + 6 else 24) hdr ! 0 AND 0x0f)
                     else (fc, False, 0)
             else if WLAN_FC_GET_TYPE fc = 0x0000 then (fc, False, 0x10)
             else (fc, False, 0));
          fc = fc AND NOT (WLAN_FC_RETRY OR WLAN_FC_PWRMGT OR WLAN_FC_MOREDATA);
          fc = fc OR WLAN_FC_ISWEP;
          seq = RTW_GET_LE16 (drop 22 hdr) AND NOT 0xfff0;
          copy = take (of_bool addr4 * 6 + of_bool qos * 2) (drop 24 hdr);
          qc = copy ! (of_bool addr4 * 6);
          qc = qc AND NOT 0x70;
          qc = (if \<not> spp then qc AND NOT 0x80 else qc);
          aad = RTW_PUT_LE16 fc @ take 18 (drop 4 hdr) @ RTW_PUT_LE16 seq @
                take (of_bool addr4 * 6) copy @ (if qos then [qc, 0] else []);
          nonce = nonce0 # take 6 (drop 10 hdr) @ [data ! 7, data ! 6, data ! 5, data ! 4, data ! 1, data ! 0]
      in (aad, nonce))"

definition ccmp_aad_nonce_pv1 :: "bytes \<Rightarrow> bytes \<Rightarrow> bytes \<Rightarrow> bytes option \<Rightarrow> bytes \<Rightarrow> bytes \<times> bytes" where
  "ccmp_aad_nonce_pv1 hdr a1 a2 a3 pn =
     (let fc = RTW_GET_LE16 hdr;
          type = drop_bit 2 (fc AND (push_bit 2 1 OR push_bit 3 1 OR push_bit 4 1));
          nonce0 = (if type = 1 then push_bit 5 1 OR 0x10 else push_bit 5 1);
          fc = fc AND NOT (push_bit 10 1 OR push_bit 11 1 OR push_bit 13 1 OR push_bit 14 1 OR push_bit 15 1);
          fc = fc OR push_bit 12 1;
          body = (if type = 0 \<or> type = 3
                  then let sc = (if type = 0 then drop (2 + 2 + 6) hdr else drop (2 + 2 * 6) hdr)
                       in take 6 a1 @ take 6 a2 @ [sc ! 0 AND 0x0f, 0] @
                          (case a3 of None \<Rightarrow> [] | Some a3 \<Rightarrow> take 6 a3)
                  else [])
      in (RTW_PUT_LE16 fc @ body,
          nonce0 # take 6 a2 @ [pn ! 5, pn ! 4, pn ! 3, pn ! 2, pn ! 1, pn ! 0]))"

definition ccmp_decrypt :: "(nat \<Rightarrow> bool) \<Rightarrow> bool \<Rightarrow> bytes \<Rightarrow> bytes \<Rightarrow> bytes \<Rightarrow> bytes option" where
  "ccmp_decrypt alloc spp tk hdr data =
     (if length data < 8 + 8 then None
      else if \<not> alloc (length data + 16) then None
      else let mlen = length data - 8 - 8;
               (aad, nonce) = ccmp_aad_nonce spp hdr data
           in aes_ccm_ad alloc (take 16 tk) nonce 8 (take mlen (drop 8 data)) aad (drop (8 + mlen) data))"

definition ccmp_get_pn :: "bytes \<Rightarrow> bytes" where
  "ccmp_get_pn data = [data ! 7, data ! 6, data ! 5, data ! 4, data ! 1, data ! 0]"

text \<open>\<open>hdr->frame_control |= bits\<close>\<close>

definition or_frame_control :: "bytes \<Rightarrow> u16 \<Rightarrow> bytes" where
  "or_frame_control hdr bits = memcpy_at hdr 0 (RTW_PUT_LE16 (RTW_GET_LE16 hdr OR bits))"

definition ccmp_pn_header :: "bytes \<Rightarrow> u32 \<Rightarrow> bytes" where
  "ccmp_pn_header pn keyid =
     [pn ! 5, pn ! 4, 0x00, ucast (0x20 OR push_bit 6 keyid), pn ! 3, pn ! 2, pn ! 1, pn ! 0]"

text \<open>
  \<open>ccmp_encrypt\<close> with the number of header and payload bytes \<open>len\<close>; when \<open>pn\<close> is null the frame holds
  the 8 bytes of the CCMP header between the two.
\<close>

definition ccmp_encrypt ::
  "(nat \<Rightarrow> bool) \<Rightarrow> bool \<Rightarrow> bytes \<Rightarrow> bytes \<Rightarrow> nat \<Rightarrow> nat \<Rightarrow> bytes option \<Rightarrow> u32 \<Rightarrow> bytes option" where
  "ccmp_encrypt alloc spp tk frame len hdrlen pn keyid =
     (if len < hdrlen \<or> hdrlen < 24 then None
      else let plen = len - hdrlen in
      if \<not> alloc (hdrlen + 8 + plen + 8 + 16) then None
      else let (crypt, pdata) = (case pn of
             None \<Rightarrow> (or_frame_control (take (hdrlen + 8) frame) WLAN_FC_ISWEP, take plen (drop (hdrlen + 8) frame))
           | Some pn \<Rightarrow> (or_frame_control (take hdrlen frame) WLAN_FC_ISWEP @ ccmp_pn_header pn keyid,
                         take plen (drop hdrlen frame)));
               (aad, nonce) = ccmp_aad_nonce spp crypt (drop hdrlen crypt)
           in map_option (\<lambda>(c, mic). crypt @ c @ mic) (aes_ccm_ae alloc (take 16 tk) nonce 8 pdata aad))"

definition ccmp_encrypt_pv1 ::
  "(nat \<Rightarrow> bool) \<Rightarrow> bytes \<Rightarrow> bytes \<Rightarrow> bytes \<Rightarrow> bytes option \<Rightarrow> bytes \<Rightarrow> nat \<Rightarrow> nat \<Rightarrow> bytes \<Rightarrow> bytes option" where
  "ccmp_encrypt_pv1 alloc tk a1 a2 a3 frame len hdrlen pn =
     (if len < hdrlen \<or> hdrlen < 12 then None
      else let plen = len - hdrlen in
      if \<not> alloc (hdrlen + plen + 8 + 16) then None
      else let crypt = or_frame_control (take hdrlen frame) (push_bit 12 1);
               (aad, nonce) = ccmp_aad_nonce_pv1 crypt a1 a2 a3 pn
           in map_option (\<lambda>(c, mic). crypt @ c @ mic)
                (aes_ccm_ae alloc (take 16 tk) nonce 8 (take plen (drop hdrlen frame)) aad))"

definition ccmp_256_decrypt :: "(nat \<Rightarrow> bool) \<Rightarrow> bool \<Rightarrow> bytes \<Rightarrow> bytes \<Rightarrow> bytes \<Rightarrow> bytes option" where
  "ccmp_256_decrypt alloc spp tk hdr data =
     (if length data < 8 + 16 then None
      else if \<not> alloc (length data + 16) then None
      else let mlen = length data - 8 - 16;
               (aad, nonce) = ccmp_aad_nonce spp hdr data
           in aes_ccm_ad alloc (take 32 tk) nonce 16 (take mlen (drop 8 data)) aad (drop (8 + mlen) data))"

definition ccmp_256_encrypt ::
  "(nat \<Rightarrow> bool) \<Rightarrow> bool \<Rightarrow> bytes \<Rightarrow> bytes \<Rightarrow> nat \<Rightarrow> nat \<Rightarrow> bytes option \<Rightarrow> u32 \<Rightarrow> bytes option" where
  "ccmp_256_encrypt alloc spp tk frame len hdrlen pn keyid =
     (if len < hdrlen \<or> hdrlen < 24 then None
      else let plen = len - hdrlen in
      if \<not> alloc (hdrlen + 8 + plen + 16 + 16) then None
      else let (crypt, pdata) = (case pn of
             None \<Rightarrow> (or_frame_control (take (hdrlen + 8) frame) WLAN_FC_ISWEP, take plen (drop (hdrlen + 8) frame))
           | Some pn \<Rightarrow> (or_frame_control (take hdrlen frame) WLAN_FC_ISWEP @ ccmp_pn_header pn keyid,
                         take plen (drop hdrlen frame)));
               (aad, nonce) = ccmp_aad_nonce spp crypt (drop hdrlen crypt)
           in map_option (\<lambda>(c, mic). crypt @ c @ mic) (aes_ccm_ae alloc (take 32 tk) nonce 16 pdata aad))"

section \<open>GCMP\<close>

definition gcmp_aad_nonce :: "bool \<Rightarrow> bytes \<Rightarrow> bytes \<Rightarrow> bytes \<times> bytes" where
  "gcmp_aad_nonce spp hdr data =
     (let fc = RTW_GET_LE16 hdr;
          stype = WLAN_FC_GET_STYPE fc;
          addr4 = (fc AND (WLAN_FC_TODS OR WLAN_FC_FROMDS) = WLAN_FC_TODS OR WLAN_FC_FROMDS);
          (fc, qos) =
            (if WLAN_FC_GET_TYPE fc = 0x0008
             then let fc = fc AND NOT 0x0070
                  in if stype AND 0x0080 \<noteq> 0 then (fc AND NOT WLAN_FC_ORDER, True) else (fc, False)
             else (fc, False));
          fc = fc AND NOT (WLAN_FC_RETRY OR WLAN_FC_PWRMGT OR WLAN_FC_MOREDATA);
          seq = RTW_GET_LE16 (drop 22 hdr) AND NOT 0xfff0;
          copy = take (of_bool addr4 * 6 + of_bool qos * 2) (drop 24 hdr);
          qc = copy ! (of_bool addr4 * 6);
          qc = qc AND NOT 0x70;
          qc = (if \<not> spp then qc AND NOT 0x80 else qc);
          aad = RTW_PUT_LE16 fc @ take 18 (drop 4 hdr) @ RTW_PUT_LE16 seq @
                take (of_bool addr4 * 6) copy @ (if qos then [qc, 0] else []);
          nonce = take 6 (drop 10 hdr) @ [data ! 7, data ! 6, data ! 5, data ! 4, data ! 1, data ! 0]
      in (aad, nonce))"

definition gcmp_decrypt :: "(nat \<Rightarrow> bool) \<Rightarrow> bool \<Rightarrow> bytes \<Rightarrow> bytes \<Rightarrow> bytes \<Rightarrow> bytes option" where
  "gcmp_decrypt alloc spp tk hdr data =
     (if length data < 8 + 16 then None
      else if \<not> alloc (length data + 16) then None
      else let m = drop 8 data; mlen = length data - 8 - 16;
               (aad, nonce) = gcmp_aad_nonce spp hdr data
           in aes_gcm_ad alloc tk nonce (take mlen m) aad (drop mlen m))"

definition gcmp_encrypt ::
  "(nat \<Rightarrow> bool) \<Rightarrow> bool \<Rightarrow> bytes \<Rightarrow> bytes \<Rightarrow> nat \<Rightarrow> nat \<Rightarrow> bytes option \<Rightarrow> u32 \<Rightarrow> bytes option" where
  "gcmp_encrypt alloc spp tk frame len hdrlen pn keyid =
     (if len < hdrlen \<or> hdrlen < 24 then None
      else let plen = len - hdrlen in
      if \<not> alloc (hdrlen + 8 + plen + 16 + 16) then None
      else let (crypt, pdata) = (case pn of
             None \<Rightarrow> (take (hdrlen + 8) frame, take plen (drop (hdrlen + 8) frame))
           | Some pn \<Rightarrow> (take hdrlen frame @ ccmp_pn_header pn keyid, take plen (drop hdrlen frame)));
               (aad, nonce) = gcmp_aad_nonce spp crypt (drop hdrlen crypt)
           in map_option (\<lambda>(c, mic). crypt @ c @ mic) (aes_gcm_ae alloc tk nonce pdata aad))"

section \<open>Entry points of the software path\<close>

text \<open>
  Decryption is given the length \<open>plen\<close> of the whole frame, which is at least that of its header: the callers measure both
  on one received frame. A shorter \<open>plen\<close>, for which \<^verbatim>\<open>plen - hdrlen\<close> would wrap around, is an error here.
\<close>

definition rtw_ccmp_encrypt :: "(nat \<Rightarrow> bool) \<Rightarrow> bool \<Rightarrow> bytes \<Rightarrow> nat \<Rightarrow> bytes \<Rightarrow> nat \<Rightarrow> bytes option" where
  "rtw_ccmp_encrypt alloc spp key hdrlen frame plen =
     (let enc = (if length key = 16 then ccmp_encrypt alloc spp key frame (hdrlen + plen) hdrlen None 0
                 else if length key = 32 then ccmp_256_encrypt alloc spp key frame (hdrlen + plen) hdrlen None 0
                 else None)
      in case enc of None \<Rightarrow> None | Some enc \<Rightarrow> Some (memcpy_at frame 0 enc))"

definition rtw_ccmp_decrypt :: "(nat \<Rightarrow> bool) \<Rightarrow> bool \<Rightarrow> bytes \<Rightarrow> nat \<Rightarrow> bytes \<Rightarrow> nat \<Rightarrow> bytes option" where
  "rtw_ccmp_decrypt alloc spp key hdrlen frame plen =
     (let data = take (plen - hdrlen) (drop hdrlen frame);
          plain = (if length key = 16 then ccmp_decrypt alloc spp key frame data
                   else if length key = 32 then ccmp_256_decrypt alloc spp key frame data
                   else None)
      in case plain of None \<Rightarrow> None | Some plain \<Rightarrow> Some (memcpy_at frame (hdrlen + 8) plain))"

definition rtw_gcmp_encrypt :: "(nat \<Rightarrow> bool) \<Rightarrow> bool \<Rightarrow> bytes \<Rightarrow> nat \<Rightarrow> bytes \<Rightarrow> nat \<Rightarrow> bytes option" where
  "rtw_gcmp_encrypt alloc spp key hdrlen frame plen =
     (case gcmp_encrypt alloc spp key frame (hdrlen + plen) hdrlen None 0 of
        None \<Rightarrow> None | Some enc \<Rightarrow> Some (memcpy_at frame 0 enc))"

definition rtw_gcmp_decrypt :: "(nat \<Rightarrow> bool) \<Rightarrow> bool \<Rightarrow> bytes \<Rightarrow> nat \<Rightarrow> bytes \<Rightarrow> nat \<Rightarrow> bytes option" where
  "rtw_gcmp_decrypt alloc spp key hdrlen frame plen =
     (case gcmp_decrypt alloc spp key frame (take (plen - hdrlen) (drop hdrlen frame)) of
        None \<Rightarrow> None | Some plain \<Rightarrow> Some (memcpy_at frame (hdrlen + 8) plain))"

definition bip_ccmp_protect :: "(nat \<Rightarrow> bool) \<Rightarrow> bytes \<Rightarrow> bytes \<Rightarrow> bytes option c_result" where
  "bip_ccmp_protect alloc key data =
     (if length key = 16 then omac1_aes_128 alloc key data
      else if length key = 32 then omac1_aes_256 alloc key data
      else Ret None)"

definition bip_gcmp_protect :: "(nat \<Rightarrow> bool) \<Rightarrow> bytes \<Rightarrow> nat \<Rightarrow> bytes \<Rightarrow> bytes \<Rightarrow> bytes option" where
  "bip_gcmp_protect alloc whdr_pos len key data =
     (let mic_len = 16;
          gcmp_ipn = drop (len - mic_len - 6) whdr_pos;
          nonce = take 6 (drop 10 whdr_pos) @
            [gcmp_ipn ! 5, gcmp_ipn ! 4, gcmp_ipn ! 3, gcmp_ipn ! 2, gcmp_ipn ! 1, gcmp_ipn ! 0]
      in aes_gmac alloc key nonce data)"

text \<open>The label \<open>TDLS PMK\<close> as a character string.\<close>

definition tdls_label :: bytes where
  "tdls_label = [0x54, 0x44, 0x4c, 0x53, 0x20, 0x50, 0x4d, 0x4b, 0x00]"

definition tdls_generate_tpk :: "sha256_state \<Rightarrow> bytes \<Rightarrow> bytes \<Rightarrow> bytes \<Rightarrow> bytes \<Rightarrow> bytes \<Rightarrow> bytes option" where
  "tdls_generate_tpk stack SNonce ANonce mac_addr own_addr bssid =
     (let nonce = (if rtw_memcmp2 SNonce ANonce 32 < 0 then [take 32 SNonce, take 32 ANonce]
                   else [take 32 ANonce, take 32 SNonce]);
          data = (if rtw_memcmp2 own_addr mac_addr 6 < 0 then take 6 own_addr @ take 6 mac_addr
                  else take 6 mac_addr @ take 6 own_addr) @ take 6 bssid
      in case sha256_vector stack nonce of None \<Rightarrow> None
         | Some key_input \<Rightarrow> sha256_prf stack key_input tdls_label data (16 + 16))"

section \<open>What the protocols need\<close>

locale frame_aead = aead ae ad tag_len ok
  for ae :: "'k \<Rightarrow> bytes \<Rightarrow> bytes \<Rightarrow> bytes \<Rightarrow> (bytes \<times> bytes) option"
    and ad :: "'k \<Rightarrow> bytes \<Rightarrow> bytes \<Rightarrow> bytes \<Rightarrow> bytes \<Rightarrow> bytes option"
    and tag_len :: nat
    and ok :: "bytes \<Rightarrow> bytes \<Rightarrow> bool" +
  fixes aad_nonce :: "bytes \<Rightarrow> bytes \<Rightarrow> bytes \<times> bytes"
  assumes aad_nonce_prefix: "aad_nonce hdr data = aad_nonce (take 32 hdr) (take 8 data)"
    and nonce_ok: "32 \<le> length hdr \<Longrightarrow> ok (snd (aad_nonce hdr data)) (fst (aad_nonce hdr data))"
begin

text \<open>
  A frame is a header, eight bytes with the packet number, ciphertext and tag. The receiver
  recomputes additional data and nonce from the frame it got.
\<close>

lemma aad_nonce_frame:
  assumes "24 \<le> hdrlen" and "length hp = hdrlen + 8"
  shows "aad_nonce (hp @ x) (drop hdrlen (hp @ y)) = aad_nonce hp (drop hdrlen hp)"
proof -
  have "take 32 (hp @ x) = take 32 hp" "take 8 (drop hdrlen (hp @ y)) = take 8 (drop hdrlen hp)"
    using assms by simp_all
  then show ?thesis using aad_nonce_prefix by metis
qed

lemma frame_open_iff:
  assumes "24 \<le> hdrlen" and "length hp = hdrlen + 8" and "length t = tag_len"
    and "aad_nonce (hp @ x) (drop hdrlen (hp @ y)) = (a, n)"
  shows "ad k n c a t = Some p \<longleftrightarrow>
    (case aad_nonce hp (drop hdrlen hp) of (a, n) \<Rightarrow> ae k n p a) = Some (c, t)"
proof -
  have eq: "aad_nonce hp (drop hdrlen hp) = (a, n)" using assms aad_nonce_frame by metis
  have "ok n a" using nonce_ok [of hp "drop hdrlen hp"] assms(1,2) eq by simp
  then show ?thesis using ad_iff [OF _ assms(3)] eq by simp
qed

lemma frame_seal_lengths:
  assumes "24 \<le> hdrlen" and "length hp = hdrlen + 8"
    and "(case aad_nonce hp (drop hdrlen hp) of (a, n) \<Rightarrow> ae k n p a) = Some (c, t)"
  shows "length c = length p" and "length t = tag_len"
proof -
  obtain a n where eq: "aad_nonce hp (drop hdrlen hp) = (a, n)" by fastforce
  have "ok n a" using nonce_ok [of hp "drop hdrlen hp"] assms(1,2) eq by simp
  then show "length c = length p" and "length t = tag_len" using ae_lengths assms(3) eq by auto
qed

end

section \<open>The protocols provide it\<close>

lemma get_le16_take: "2 \<le> n \<Longrightarrow> RTW_GET_LE16 (take n xs) = RTW_GET_LE16 xs"
  by (simp add: RTW_GET_LE16_def)

lemma ccmp_aad_nonce_prefix: "ccmp_aad_nonce spp hdr data = ccmp_aad_nonce spp (take 32 hdr) (take 8 data)"
  by (simp add: ccmp_aad_nonce_def Let_def get_le16_take drop_take min_def)

lemma gcmp_aad_nonce_prefix: "gcmp_aad_nonce spp hdr data = gcmp_aad_nonce spp (take 32 hdr) (take 8 data)"
  by (simp add: gcmp_aad_nonce_def Let_def get_le16_take drop_take min_def)

lemma ccmp_nonce: "snd (ccmp_aad_nonce spp hdr data) =
    snd (ccmp_aad_nonce spp hdr data) ! 0 # take 6 (drop 10 hdr) @ ccmp_get_pn data"
  by (simp add: ccmp_aad_nonce_def ccmp_get_pn_def Let_def case_prod_beta)

lemma length_ccmp_nonce: "16 \<le> length hdr \<Longrightarrow> length (snd (ccmp_aad_nonce spp hdr data)) = 13"
  by (subst ccmp_nonce) (simp add: ccmp_get_pn_def)

interpretation ccmp: frame_aead
  "\<lambda>k n p a. aes_ccm_ae (fst k) (snd k) n M p a" "\<lambda>k n c a t. aes_ccm_ad (fst k) (snd k) n M c a t"
  M "\<lambda>n a. 13 \<le> length n" "ccmp_aad_nonce spp" for M spp
  by unfold_locales (rule ccmp_aad_nonce_prefix, simp add: length_ccmp_nonce)

interpretation gcmp: frame_aead
  "\<lambda>k n p a. aes_gcm_ae (fst k) (snd k) n p a" "\<lambda>k n c a t. aes_gcm_ad (fst k) (snd k) n c a t"
  16 "\<lambda>n a. True" "gcmp_aad_nonce spp" for spp
  by unfold_locales (rule gcmp_aad_nonce_prefix, simp)

section \<open>Sealed and opened frames\<close>

text \<open>Both key sizes of CCMP: the frame body for a given header and packet number, and its inverse.\<close>

definition ccmp_seal :: "(nat \<Rightarrow> bool) \<Rightarrow> bool \<Rightarrow> bytes \<Rightarrow> nat \<Rightarrow> nat \<Rightarrow> bytes \<Rightarrow> bytes \<Rightarrow> (bytes \<times> bytes) option" where
  "ccmp_seal alloc spp key M hdrlen hp p =
     (case ccmp_aad_nonce spp hp (drop hdrlen hp) of (a, n) \<Rightarrow> aes_ccm_ae alloc key n M p a)"

definition gcmp_seal :: "(nat \<Rightarrow> bool) \<Rightarrow> bool \<Rightarrow> bytes \<Rightarrow> nat \<Rightarrow> bytes \<Rightarrow> bytes \<Rightarrow> (bytes \<times> bytes) option" where
  "gcmp_seal alloc spp key hdrlen hp p =
     (case gcmp_aad_nonce spp hp (drop hdrlen hp) of (a, n) \<Rightarrow> aes_gcm_ae alloc key n p a)"

definition mic_len :: "bytes \<Rightarrow> nat" where
  "mic_len key = (if length key = 16 then 8 else 16)"

lemma length_or_frame_control [simp]: "2 \<le> length hdr \<Longrightarrow> length (or_frame_control hdr b) = length hdr"
  by (simp add: or_frame_control_def)

lemma take_or_frame_control: "2 \<le> n \<Longrightarrow> take n (or_frame_control hdr b) = or_frame_control (take n hdr) b"
  by (simp add: or_frame_control_def memcpy_at_def get_le16_take drop_take numeral_2_eq_2)

lemma or_frame_control_append: "2 \<le> length xs \<Longrightarrow> or_frame_control (xs @ ys) b = or_frame_control xs b @ ys"
  by (cases xs; cases "tl xs") (auto simp: or_frame_control_def memcpy_at_def RTW_GET_LE16_def)

lemma rtw_ccmp_encrypt_seal:
  assumes "length key \<in> {16, 32}" and "24 \<le> hdrlen"
  shows "rtw_ccmp_encrypt alloc spp key hdrlen frame plen =
    (if alloc (hdrlen + 8 + plen + mic_len key + 16)
     then map_option (\<lambda>(c, t). memcpy_at frame 0 (or_frame_control (take (hdrlen + 8) frame) WLAN_FC_ISWEP @ c @ t))
       (ccmp_seal alloc spp key (mic_len key) hdrlen (or_frame_control (take (hdrlen + 8) frame) WLAN_FC_ISWEP)
         (take plen (drop (hdrlen + 8) frame)))
     else None)"
  using assms
  by (auto simp: rtw_ccmp_encrypt_def ccmp_encrypt_def ccmp_256_encrypt_def ccmp_seal_def mic_len_def Let_def
      case_prod_beta split: option.splits)

lemma frame_parts:
  assumes "length hp = hdrlen + 8" and "length c = plen" and "length t = m"
  shows "take (8 + plen + m) (drop hdrlen (hp @ c @ t @ rest)) = drop hdrlen (hp @ c @ t)"
    and "take plen (drop 8 (drop hdrlen (hp @ c @ t))) = c" and "drop (8 + plen) (drop hdrlen (hp @ c @ t)) = t"
  using assms by simp_all

lemma decrypt_body:
  assumes "alloc (8 + m + M + 16)" and "length d = 8 + m + M" and "take m (drop 8 d) = c" and "drop (8 + m) d = t"
  shows "ccmp_aad_nonce spp hdr d = (a, n) \<Longrightarrow> M = 8 \<Longrightarrow> ccmp_decrypt alloc spp tk hdr d = aes_ccm_ad alloc (take 16 tk) n 8 c a t"
    and "ccmp_aad_nonce spp hdr d = (a, n) \<Longrightarrow> M = 16 \<Longrightarrow> ccmp_256_decrypt alloc spp tk hdr d = aes_ccm_ad alloc (take 32 tk) n 16 c a t"
    and "gcmp_aad_nonce spp hdr d = (a, n) \<Longrightarrow> M = 16 \<Longrightarrow> gcmp_decrypt alloc spp tk hdr d = aes_gcm_ad alloc tk n c a t"
  using assms by (simp_all add: ccmp_decrypt_def ccmp_256_decrypt_def gcmp_decrypt_def add.commute)

lemma rtw_ccmp_decrypt_seal:
  assumes "length key \<in> {16, 32}" and "24 \<le> hdrlen" and "alloc (8 + length c + mic_len key + 16)"
    and "length hp = hdrlen + 8" and "length t = mic_len key"
  shows "rtw_ccmp_decrypt alloc spp key hdrlen (hp @ c @ t @ rest) (hdrlen + 8 + length c + mic_len key) = Some f \<longleftrightarrow>
    (\<exists>p. ccmp_seal alloc spp key (mic_len key) hdrlen hp p = Some (c, t) \<and> f = hp @ p @ t @ rest)"
proof -
  let ?M = "mic_len key" and ?frame = "hp @ c @ t @ rest"
  let ?data = "drop hdrlen (hp @ c @ t)"
  obtain a n where an: "ccmp_aad_nonce spp ?frame ?data = (a, n)" by fastforce
  note parts = frame_parts [OF assms(4) _ assms(5), where c = c and plen = "length c", OF refl]
  have data: "take (hdrlen + 8 + length c + ?M - hdrlen) (drop hdrlen ?frame) = ?data"
    using parts(1) by (simp add: add.assoc)
  have len: "length ?data = 8 + length c + ?M" using assms(4,5) by simp
  have dec: "rtw_ccmp_decrypt alloc spp key hdrlen ?frame (hdrlen + 8 + length c + ?M) =
      map_option (\<lambda>p. memcpy_at ?frame (hdrlen + 8) p) (aes_ccm_ad alloc key n ?M c a t)"
    using assms(1) decrypt_body(1,2) [where alloc = alloc and M = ?M, OF assms(3) len parts(2,3) an, of key]
    unfolding rtw_ccmp_decrypt_def data Let_def map_option_case
    by (cases "length key = 16") (simp_all add: mic_len_def)
  have iff: "aes_ccm_ad alloc key n ?M c a t = Some p \<longleftrightarrow> ccmp_seal alloc spp key ?M hdrlen hp p = Some (c, t)" for p
    using ccmp.frame_open_iff [OF assms(2,4,5) an, of "(alloc, key)" c p] by (simp add: ccmp_seal_def)
  have "memcpy_at ?frame (hdrlen + 8) p = hp @ p @ t @ rest" if "ccmp_seal alloc spp key ?M hdrlen hp p = Some (c, t)" for p
  proof -
    have "(case ccmp_aad_nonce spp hp (drop hdrlen hp) of (a, n) \<Rightarrow>
        aes_ccm_ae (fst (alloc, key)) (snd (alloc, key)) n ?M p a) = Some (c, t)"
      using that by (simp add: ccmp_seal_def)
    from ccmp.frame_seal_lengths(1) [OF assms(2,4) this] show ?thesis using assms(4) by (simp add: memcpy_at_def)
  qed
  then show ?thesis unfolding dec by (auto simp: iff)
qed

lemma rtw_gcmp_encrypt_seal:
  assumes "24 \<le> hdrlen"
  shows "rtw_gcmp_encrypt alloc spp key hdrlen frame plen =
    (if alloc (hdrlen + 8 + plen + 16 + 16)
     then map_option (\<lambda>(c, t). memcpy_at frame 0 (take (hdrlen + 8) frame @ c @ t))
       (gcmp_seal alloc spp key hdrlen (take (hdrlen + 8) frame) (take plen (drop (hdrlen + 8) frame)))
     else None)"
  using assms
  by (auto simp: rtw_gcmp_encrypt_def gcmp_encrypt_def gcmp_seal_def Let_def case_prod_beta split: option.splits)

lemma rtw_gcmp_decrypt_seal:
  assumes "24 \<le> hdrlen" and "alloc (8 + length c + 16 + 16)" and "length hp = hdrlen + 8" and "length t = 16"
  shows "rtw_gcmp_decrypt alloc spp key hdrlen (hp @ c @ t @ rest) (hdrlen + 8 + length c + 16) = Some f \<longleftrightarrow>
    (\<exists>p. gcmp_seal alloc spp key hdrlen hp p = Some (c, t) \<and> f = hp @ p @ t @ rest)"
proof -
  let ?frame = "hp @ c @ t @ rest"
  let ?data = "drop hdrlen (hp @ c @ t)"
  obtain a n where an: "gcmp_aad_nonce spp ?frame ?data = (a, n)" by fastforce
  note parts = frame_parts [OF assms(3) _ assms(4), where c = c and plen = "length c", OF refl]
  have data: "take (hdrlen + 8 + length c + 16 - hdrlen) (drop hdrlen ?frame) = ?data"
    using parts(1) by (simp add: add.assoc)
  have len: "length ?data = 8 + length c + 16" using assms(3,4) by simp
  have dec: "rtw_gcmp_decrypt alloc spp key hdrlen ?frame (hdrlen + 8 + length c + 16) =
      map_option (\<lambda>p. memcpy_at ?frame (hdrlen + 8) p) (aes_gcm_ad alloc key n c a t)"
    using decrypt_body(3) [where alloc = alloc and M = 16, OF assms(2) len parts(2,3) an refl, of key]
    unfolding rtw_gcmp_decrypt_def data Let_def map_option_case by simp
  have iff: "aes_gcm_ad alloc key n c a t = Some p \<longleftrightarrow> gcmp_seal alloc spp key hdrlen hp p = Some (c, t)" for p
    using gcmp.frame_open_iff [OF assms(1,3,4) an, of "(alloc, key)" c p] by (simp add: gcmp_seal_def)
  have "memcpy_at ?frame (hdrlen + 8) p = hp @ p @ t @ rest" if "gcmp_seal alloc spp key hdrlen hp p = Some (c, t)" for p
  proof -
    have "(case gcmp_aad_nonce spp hp (drop hdrlen hp) of (a, n) \<Rightarrow>
        aes_gcm_ae (fst (alloc, key)) (snd (alloc, key)) n p a) = Some (c, t)"
      using that by (simp add: gcmp_seal_def)
    from gcmp.frame_seal_lengths(1) [OF assms(1,3) this] show ?thesis using assms(3) by (simp add: memcpy_at_def)
  qed
  then show ?thesis unfolding dec by (auto simp: iff)
qed

lemma ccmp_seal_lengths:
  assumes "24 \<le> hdrlen" and "length hp = hdrlen + 8" and "ccmp_seal alloc spp key M hdrlen hp p = Some (c, t)"
  shows "length c = length p" and "length t = M"
proof -
  have e: "(case ccmp_aad_nonce spp hp (drop hdrlen hp) of (a, n) \<Rightarrow>
      aes_ccm_ae (fst (alloc, key)) (snd (alloc, key)) n M p a) = Some (c, t)"
    using assms(3) by (simp add: ccmp_seal_def)
  show "length c = length p" "length t = M"
    by (rule ccmp.frame_seal_lengths [OF assms(1,2) e])+
qed

lemma gcmp_seal_lengths:
  assumes "24 \<le> hdrlen" and "length hp = hdrlen + 8" and "gcmp_seal alloc spp key hdrlen hp p = Some (c, t)"
  shows "length c = length p" and "length t = 16"
proof -
  have e: "(case gcmp_aad_nonce spp hp (drop hdrlen hp) of (a, n) \<Rightarrow>
      aes_gcm_ae (fst (alloc, key)) (snd (alloc, key)) n p a) = Some (c, t)"
    using assms(3) by (simp add: gcmp_seal_def)
  show "length c = length p" "length t = 16"
    by (rule gcmp.frame_seal_lengths [OF assms(1,2) e])+
qed

text \<open>With memory and a valid key, sealing succeeds.\<close>

lemma ccmp_aad_length: "length (fst (ccmp_aad_nonce spp hdr data)) \<le> 30"
  by (auto simp: ccmp_aad_nonce_def Let_def case_prod_beta min_def)

lemma ccmp_seal_succeeds:
  assumes "length key \<in> {16, 24, 32}" and "alloc 244" and "M \<le> 16"
  shows "\<exists>c t. ccmp_seal alloc spp key M hdrlen hp p = Some (c, t)"
proof -
  obtain aes where "aes_encrypt_init alloc key = Some aes"
    using assms(1,2) aes_encrypt_init_None_iff [of alloc key] by (auto simp: AES_PRIV_SIZE_def)
  then show ?thesis
    using assms(3) ccmp_aad_length [of spp hp "drop hdrlen hp"]
    by (simp add: ccmp_seal_def aes_ccm_ae_def case_prod_beta Let_def)
qed

lemma gcmp_seal_succeeds:
  assumes "length key \<in> {16, 24, 32}" and "alloc 244"
  shows "\<exists>c t. gcmp_seal alloc spp key hdrlen hp p = Some (c, t)"
proof -
  obtain aes where "aes_encrypt_init alloc key = Some aes"
    using assms(1,2) aes_encrypt_init_None_iff [of alloc key] by (auto simp: AES_PRIV_SIZE_def)
  then show ?thesis
    by (simp add: gcmp_seal_def aes_gcm_ae_def aes_gcm_init_hash_subkey_def case_prod_beta Let_def)
qed

section \<open>Properties\<close>

text \<open>
  C3. CCMP on a frame buffer, for 128- and 256-bit keys: when memory is available and the buffer has
  room for the MIC, encryption succeeds, sets the protected bit and leaves the rest of header and
  packet number as they were, and decryption of the result succeeds and restores the payload in
  place.
\<close>

theorem rtw_ccmp_roundtrip:
  assumes "length key \<in> {16, 32}" and "24 \<le> hdrlen" and "\<forall>n. alloc n"
    and "hdrlen + 8 + plen + mic_len key \<le> length frame"
  shows "\<exists>c t. rtw_ccmp_encrypt alloc spp key hdrlen frame plen =
        Some (or_frame_control (take (hdrlen + 8) frame) 0x4000 @ c @ t @ drop (hdrlen + 8 + plen + mic_len key) frame) \<and>
      length c = plen \<and> length t = mic_len key \<and>
      rtw_ccmp_decrypt alloc spp key hdrlen
        (or_frame_control (take (hdrlen + 8) frame) 0x4000 @ c @ t @ drop (hdrlen + 8 + plen + mic_len key) frame)
        (hdrlen + 8 + plen + mic_len key) =
      Some (or_frame_control (take (hdrlen + 8 + plen) frame) 0x4000 @ t @ drop (hdrlen + 8 + plen + mic_len key) frame)"
proof -
  let ?hp = "or_frame_control (take (hdrlen + 8) frame) 0x4000" and ?p = "take plen (drop (hdrlen + 8) frame)"
  let ?rest = "drop (hdrlen + 8 + plen + mic_len key) frame"
  have hp: "length ?hp = hdrlen + 8" using assms(2,4) by simp
  have M: "mic_len key \<le> 16" by (simp add: mic_len_def)
  obtain c t where ct: "ccmp_seal alloc spp key (mic_len key) hdrlen ?hp ?p = Some (c, t)"
    using ccmp_seal_succeeds [of key alloc "mic_len key"] assms(1,3) M by fastforce
  have len: "length c = plen" "length t = mic_len key"
    using ccmp_seal_lengths [OF assms(2) hp ct] assms(4) by simp_all
  have enc: "rtw_ccmp_encrypt alloc spp key hdrlen frame plen = Some (?hp @ c @ t @ ?rest)"
    using ct assms(3) len hp unfolding rtw_ccmp_encrypt_seal [OF assms(1,2)] WLAN_FC_ISWEP_def
    by (simp add: memcpy_at_def add.assoc)
  have "or_frame_control (take (hdrlen + 8 + plen) frame) 0x4000 = ?hp @ ?p"
    using assms(2,4) or_frame_control_append [of "take (hdrlen + 8) frame" ?p "0x4000"]
    by (simp add: take_add [symmetric] add.assoc)
  then have "rtw_ccmp_decrypt alloc spp key hdrlen (?hp @ c @ t @ ?rest) (hdrlen + 8 + length c + mic_len key) =
      Some (or_frame_control (take (hdrlen + 8 + plen) frame) 0x4000 @ t @ ?rest)"
    using ct assms(3) by (subst rtw_ccmp_decrypt_seal [OF assms(1,2) _ hp len(2)]) auto
  then show ?thesis using enc len by auto
qed

theorem rtw_ccmp_roundtrip_witness:
  "\<exists>c t. rtw_ccmp_encrypt (\<lambda>n. True) False (replicate 16 1) 24 (replicate 60 2) 15 =
    Some (or_frame_control (replicate 32 2) 0x4000 @ c @ t @ replicate 5 2) \<and> length c = 15"
  using rtw_ccmp_roundtrip [of "replicate 16 1" 24 "\<lambda>n. True" 15 "replicate 60 2" False]
  by (auto simp: mic_len_def)

text \<open>
  C2. CCMP accepts nothing else: if decryption of a received frame with the protected bit set
  succeeds, then encrypting the decrypted frame again gives exactly the frame that was received.
\<close>

theorem rtw_ccmp_decrypt_only_sealed:
  assumes "length key \<in> {16, 32}" and "24 \<le> hdrlen" and "\<forall>n. alloc n"
    and "length frame = hdrlen + 8 + plen + mic_len key"
    and "or_frame_control frame 0x4000 = frame"
    and "rtw_ccmp_decrypt alloc spp key hdrlen frame (length frame) = Some plain"
  shows "rtw_ccmp_encrypt alloc spp key hdrlen plain plen = Some frame"
proof -
  let ?hp = "take (hdrlen + 8) frame" and ?c = "take plen (drop (hdrlen + 8) frame)"
  let ?t = "drop (hdrlen + 8 + plen) frame"
  have frame: "frame = ?hp @ ?c @ ?t @ []"
    by (simp add: take_add [symmetric] append_assoc [symmetric] del: append_assoc)
  have len: "length ?hp = hdrlen + 8" "length ?c = plen" "length ?t = mic_len key" using assms(4) by simp_all
  have hpo: "or_frame_control ?hp 0x4000 = ?hp"
    using assms(5) take_or_frame_control [of "hdrlen + 8" frame "0x4000"] by simp
  obtain p where p: "ccmp_seal alloc spp key (mic_len key) hdrlen ?hp p = Some (?c, ?t)" "plain = ?hp @ p @ ?t @ []"
    using assms(3,4,6) rtw_ccmp_decrypt_seal [OF assms(1,2) _ len(1,3), of alloc ?c spp "[]" plain]
    unfolding frame [symmetric] by (auto simp: len(2))
  have "length p = plen" using ccmp_seal_lengths(1) [OF assms(2) len(1) p(1)] len(2) by simp
  then show ?thesis
    using p assms(3) len hpo frame unfolding rtw_ccmp_encrypt_seal [OF assms(1,2)] WLAN_FC_ISWEP_def
    by (simp add: memcpy_at_def)
qed

theorem rtw_ccmp_decrypt_only_sealed_witness:
  "\<exists>frame plain. rtw_ccmp_decrypt (\<lambda>n. True) False (replicate 16 1) 24 frame 55 = Some plain \<and>
    rtw_ccmp_encrypt (\<lambda>n. True) False (replicate 16 1) 24 plain 15 = Some frame"
proof -
  let ?hp = "or_frame_control (replicate 32 2) 0x4000" and ?k = "replicate 16 1 :: bytes"
  have M: "mic_len ?k = 8" by (simp add: mic_len_def)
  obtain c t where ct: "ccmp_seal (\<lambda>n. True) False ?k 8 24 ?hp (replicate 15 3) = Some (c, t)"
    using ccmp_seal_succeeds [of ?k "\<lambda>n. True" 8] by fastforce
  let ?f = "?hp @ c @ t"
  have len: "length c = 15" "length t = 8" using ccmp_seal_lengths [OF _ _ ct] by simp_all
  have dec: "rtw_ccmp_decrypt (\<lambda>n. True) False ?k 24 ?f (length ?f) = Some (?hp @ replicate 15 3 @ t)"
    using rtw_ccmp_decrypt_seal [of ?k 24 "\<lambda>n. True" c ?hp t False "[]" "?hp @ replicate 15 3 @ t"] len ct M by auto
  have "or_frame_control ?f 0x4000 = ?f"
    by (simp add: or_frame_control_def memcpy_at_def RTW_GET_LE16_def RTW_PUT_LE16_def nth_append)
  from rtw_ccmp_decrypt_only_sealed [OF _ _ _ _ this dec, of 15] have
    "rtw_ccmp_encrypt (\<lambda>n. True) False ?k 24 (?hp @ replicate 15 3 @ t) 15 = Some ?f"
    using len M by simp
  then show ?thesis using dec len by (intro exI [of _ ?f] exI [of _ "?hp @ replicate 15 3 @ t"]) simp
qed

text \<open>
  GCMP on a frame buffer: encryption succeeds for every AES key length when memory is available,
  leaves header and packet number as they were, and decryption restores the payload in place.
\<close>

lemma rtw_gcmp_roundtrip:
  assumes "length key \<in> {16, 24, 32}" and "24 \<le> hdrlen" and "\<forall>n. alloc n"
    and "hdrlen + 8 + plen + 16 \<le> length frame"
  shows "\<exists>c t. rtw_gcmp_encrypt alloc spp key hdrlen frame plen =
        Some (take (hdrlen + 8) frame @ c @ t @ drop (hdrlen + 8 + plen + 16) frame) \<and>
      length c = plen \<and> length t = 16 \<and>
      rtw_gcmp_decrypt alloc spp key hdrlen
        (take (hdrlen + 8) frame @ c @ t @ drop (hdrlen + 8 + plen + 16) frame) (hdrlen + 8 + plen + 16) =
      Some (take (hdrlen + 8 + plen) frame @ t @ drop (hdrlen + 8 + plen + 16) frame)"
proof -
  let ?hp = "take (hdrlen + 8) frame" and ?p = "take plen (drop (hdrlen + 8) frame)"
  let ?rest = "drop (hdrlen + 8 + plen + 16) frame"
  have hp: "length ?hp = hdrlen + 8" using assms(2,4) by simp
  obtain c t where ct: "gcmp_seal alloc spp key hdrlen ?hp ?p = Some (c, t)"
    using gcmp_seal_succeeds [of key alloc] assms(1,3) by fastforce
  have len: "length c = plen" "length t = 16"
    using gcmp_seal_lengths [OF assms(2) hp ct] assms(4) by simp_all
  have enc: "rtw_gcmp_encrypt alloc spp key hdrlen frame plen = Some (?hp @ c @ t @ ?rest)"
    using ct assms(3) len hp unfolding rtw_gcmp_encrypt_seal [OF assms(2)]
    by (simp add: memcpy_at_def add.assoc)
  have "take (hdrlen + 8 + plen) frame = ?hp @ ?p" by (simp add: take_add)
  then have "rtw_gcmp_decrypt alloc spp key hdrlen (?hp @ c @ t @ ?rest) (hdrlen + 8 + length c + 16) =
      Some (take (hdrlen + 8 + plen) frame @ t @ ?rest)"
    using ct assms(3) by (subst rtw_gcmp_decrypt_seal [OF assms(2) _ hp len(2)]) auto
  then show ?thesis using enc len by auto
qed

lemma rtw_gcmp_roundtrip_witness:
  "\<exists>c t. rtw_gcmp_encrypt (\<lambda>n. True) False (replicate 32 1) 24 (replicate 60 2) 10 =
    Some (replicate 32 2 @ c @ t @ replicate 2 2) \<and> length c = 10 \<and> length t = 16"
  using rtw_gcmp_roundtrip [of "replicate 32 1" 24 "\<lambda>n. True" 10 "replicate 60 2" False] by auto

text \<open>
  A retransmission stays valid: changing the duration field, the Retry, Power Management and
  More Data bits, or the sequence number (not the fragment number) of a frame changes neither the
  additional data nor the nonce of CCMP and GCMP.
\<close>

lemma aad_nonce_ignore_mutable_fields:
  assumes "length hdr = length hdr'" and "drop 24 hdr = drop 24 hdr'" and "take 18 (drop 4 hdr) = take 18 (drop 4 hdr')"
    and "RTW_GET_LE16 hdr AND NOT 0x3800 = RTW_GET_LE16 hdr' AND NOT 0x3800"
    and "RTW_GET_LE16 (drop 22 hdr) AND 0x000f = RTW_GET_LE16 (drop 22 hdr') AND 0x000f"
  shows "ccmp_aad_nonce spp hdr data = ccmp_aad_nonce spp hdr' data \<and>
    gcmp_aad_nonce spp hdr data = gcmp_aad_nonce spp hdr' data"
proof -
  let ?fc = "RTW_GET_LE16 hdr" and ?fc' = "RTW_GET_LE16 hdr'"
  let ?mut = "WLAN_FC_RETRY OR WLAN_FC_PWRMGT OR WLAN_FC_MOREDATA"
  note fc_bits = WLAN_FC_TODS_def WLAN_FC_FROMDS_def WLAN_FC_RETRY_def WLAN_FC_PWRMGT_def WLAN_FC_MOREDATA_def
    WLAN_FC_ORDER_def
  have gen: "?fc AND m = ?fc' AND m" if "NOT 0x3800 AND m = m" for m
  proof -
    have x: "x AND m = (x AND NOT 0x3800) AND m" for x :: u16 by (simp only: "and.assoc" that)
    show ?thesis by (subst (1 2) x) (simp only: assms(4))
  qed
  have f: "?fc AND NOT ?mut = ?fc' AND NOT ?mut"
    "(?fc AND NOT 0x0070) AND NOT ?mut = (?fc' AND NOT 0x0070) AND NOT ?mut"
    "((?fc AND NOT 0x0070) AND NOT WLAN_FC_ORDER) AND NOT ?mut = ((?fc' AND NOT 0x0070) AND NOT WLAN_FC_ORDER) AND NOT ?mut"
    unfolding "and.assoc" by (rule gen, simp add: fc_bits)+
  have g: "WLAN_FC_GET_TYPE ?fc = WLAN_FC_GET_TYPE ?fc'" "WLAN_FC_GET_STYPE ?fc = WLAN_FC_GET_STYPE ?fc'"
    "?fc AND (WLAN_FC_TODS OR WLAN_FC_FROMDS) = ?fc' AND (WLAN_FC_TODS OR WLAN_FC_FROMDS)"
    unfolding WLAN_FC_GET_TYPE_def WLAN_FC_GET_STYPE_def by (rule gen, simp add: fc_bits)+
  have sq: "RTW_GET_LE16 (drop 22 hdr) AND NOT 0xfff0 = RTW_GET_LE16 (drop 22 hdr') AND NOT 0xfff0"
  proof -
    have "(NOT 0xfff0 :: u16) = 0x000f" by (simp add: word_uint_eq_iff)
    then show ?thesis using assms(5) by (simp only:)
  qed
  have a2: "take 6 (drop 10 hdr) = take 6 (drop 10 hdr')"
    using arg_cong [OF assms(3), of "\<lambda>x. take 6 (drop 6 x)"] by (simp add: drop_take)
  have q: "drop (24 + 6) hdr = drop (24 + 6) hdr'"
    using arg_cong [OF assms(2), of "drop 6"] by simp
  show ?thesis
    unfolding ccmp_aad_nonce_def gcmp_aad_nonce_def Let_def g assms(2,3) sq a2
    by (simp add: f [simplified] q [simplified] assms(2))
qed

lemma aad_nonce_ignore_mutable_fields_witness:
  "ccmp_aad_nonce False (0x88 # 0x41 # 1 # 2 # replicate 18 5 @ [0x13, 0x20] @ replicate 8 7) [1, 2, 3, 4, 5, 6, 7, 8] =
   ccmp_aad_nonce False (0x88 # 0x79 # 3 # 4 # replicate 18 5 @ [0xa3, 0x7f] @ replicate 8 7) [1, 2, 3, 4, 5, 6, 7, 8]"
  using aad_nonce_ignore_mutable_fields [of "0x88 # 0x41 # 1 # 2 # replicate 18 5 @ [0x13, 0x20] @ replicate 8 7"
      "0x88 # 0x79 # 3 # 4 # replicate 18 5 @ [0xa3, 0x7f] @ replicate 8 7" False "[1, 2, 3, 4, 5, 6, 7, 8]"]
  by (simp add: RTW_GET_LE16_def)

text \<open>
  Nonces do not repeat: two frames with the same CCMP nonce have the same transmitter address, the
  same priority byte and the same packet number; likewise for GCMP.
\<close>

lemma nonce_determines_packet_number:
  assumes "16 \<le> length hdr" and "16 \<le> length hdr'"
  shows "(snd (ccmp_aad_nonce spp hdr data) = snd (ccmp_aad_nonce spp hdr' data') \<longleftrightarrow>
      take 6 (drop 10 hdr) = take 6 (drop 10 hdr') \<and> ccmp_get_pn data = ccmp_get_pn data' \<and>
      hd (snd (ccmp_aad_nonce spp hdr data)) = hd (snd (ccmp_aad_nonce spp hdr' data'))) \<and>
    (snd (gcmp_aad_nonce spp hdr data) = snd (gcmp_aad_nonce spp hdr' data') \<longleftrightarrow>
      take 6 (drop 10 hdr) = take 6 (drop 10 hdr') \<and> ccmp_get_pn data = ccmp_get_pn data')"
proof -
  have g: "snd (gcmp_aad_nonce spp h d) = take 6 (drop 10 h) @ ccmp_get_pn d" for h d
    by (simp add: gcmp_aad_nonce_def ccmp_get_pn_def Let_def case_prod_beta)
  obtain x x' where "snd (ccmp_aad_nonce spp hdr data) = x # take 6 (drop 10 hdr) @ ccmp_get_pn data"
    "snd (ccmp_aad_nonce spp hdr' data') = x' # take 6 (drop 10 hdr') @ ccmp_get_pn data'"
    using ccmp_nonce by blast
  then show ?thesis using assms by (auto simp: g)
qed

lemma nonce_determines_packet_number_witness:
  "(snd (gcmp_aad_nonce False (replicate 32 1) [1, 2, 3, 4, 5, 6, 7, 8]) =
     snd (gcmp_aad_nonce False (replicate 32 1) [9, 2, 3, 4, 5, 6, 7, 8])) = False"
  using nonce_determines_packet_number [of "replicate 32 1" "replicate 32 1" False "[1, 2, 3, 4, 5, 6, 7, 8]"
      "[9, 2, 3, 4, 5, 6, 7, 8]"] by (simp add: ccmp_get_pn_def)

lemma rtw_memcmp2_sign:
  assumes "n \<le> length a" and "n \<le> length b"
  shows "rtw_memcmp2 b a n = - rtw_memcmp2 a b n"
  using assms by (induction a b n rule: rtw_memcmp2.induct) auto

lemma min_max_order:
  assumes "n \<le> length a" and "n \<le> length b"
  shows "(if rtw_memcmp2 a b n < 0 then f (take n a) (take n b) else f (take n b) (take n a)) =
    (if rtw_memcmp2 b a n < 0 then f (take n b) (take n a) else f (take n a) (take n b))"
proof (cases "rtw_memcmp2 a b n = 0")
  case True
  then show ?thesis using assms rtw_memcmp2_0 [OF assms] rtw_memcmp2_sign [OF assms] by simp
next
  case False
  then show ?thesis using rtw_memcmp2_sign [OF assms] by auto
qed

text \<open>
  Both ends of a TDLS link derive the same peer key: it does not depend on which of the two
  addresses is one's own, nor on the order of the nonces.
\<close>

lemma tdls_tpk_symmetric:
  assumes "length SNonce = 32" and "length ANonce = 32" and "length mac = 6" and "length own = 6"
  shows "tdls_generate_tpk stack SNonce ANonce mac own bssid = tdls_generate_tpk stack SNonce ANonce own mac bssid \<and>
    tdls_generate_tpk stack SNonce ANonce mac own bssid = tdls_generate_tpk stack ANonce SNonce mac own bssid"
proof -
  have "(if rtw_memcmp2 SNonce ANonce 32 < 0 then [take 32 SNonce, take 32 ANonce] else [take 32 ANonce, take 32 SNonce]) =
      (if rtw_memcmp2 ANonce SNonce 32 < 0 then [take 32 ANonce, take 32 SNonce] else [take 32 SNonce, take 32 ANonce])"
    using min_max_order [of 32 SNonce ANonce "\<lambda>x y. [x, y]"] assms by simp
  moreover have "(if rtw_memcmp2 own mac 6 < 0 then take 6 own @ take 6 mac else take 6 mac @ take 6 own) =
      (if rtw_memcmp2 mac own 6 < 0 then take 6 mac @ take 6 own else take 6 own @ take 6 mac)"
    using min_max_order [of 6 own mac "(@)"] assms by simp
  ultimately show ?thesis unfolding tdls_generate_tpk_def by simp
qed

lemma tdls_tpk_symmetric_witness:
  "tdls_generate_tpk \<lparr>sha_length = 0, sha_state = [], sha_curlen = 0, sha_buf = replicate 64 0\<rparr>
     (replicate 32 1) (replicate 32 2) [1, 2, 3, 4, 5, 6] [6, 5, 4, 3, 2, 1] (replicate 6 9) =
   tdls_generate_tpk \<lparr>sha_length = 0, sha_state = [], sha_curlen = 0, sha_buf = replicate 64 0\<rparr>
     (replicate 32 1) (replicate 32 2) [6, 5, 4, 3, 2, 1] [1, 2, 3, 4, 5, 6] (replicate 6 9)"
  by (rule conjunct1 [OF tdls_tpk_symmetric]) simp_all

end
