(* ===== verification/Replay.thy ===== *)
theory Replay
  imports Defrag Frame_Crypto
begin

unbundle bit_operations_syntax

text \<open>
  Duplicate and replay detection: the sequence control of the last frame of a station
  (\<^verbatim>\<open>recv_decache\<close>), the packet numbers of encrypted unicast and group frames (\<^verbatim>\<open>recv_ucast_pn_decache\<close>,
  \<^verbatim>\<open>recv_bcast_pn_decache\<close>), the mapping between packet numbers and initialization vectors, and the
  integrity and replay check of protected group management frames (\<^verbatim>\<open>rtw_bip_verify\<close>).
\<close>

section \<open>Duplicates\<close>

text \<open>
  \<^verbatim>\<open>recv_decache\<close> on the station a frame comes from: \<open>qos\<close> and \<open>mcast\<close> say where the last sequence control is
  kept. The counter of duplicates is left out.
\<close>

definition seq_ctrl_of :: "u16 \<Rightarrow> u8 \<Rightarrow> u16" where
  "seq_ctrl_of seq_num frag_num = push_bit 4 (seq_num AND 0xffff) OR ucast (frag_num AND 0xf)"

definition get_rxseq :: "bool \<Rightarrow> bool \<Rightarrow> nat \<Rightarrow> sta_info \<Rightarrow> u16" where
  "get_rxseq qos mcast tid sta =
     (if qos then if mcast then bmc_tid_rxseq sta ! tid else tid_rxseq sta ! tid
      else if mcast then nonqos_bmc_rxseq sta else nonqos_rxseq sta)"

definition set_rxseq :: "bool \<Rightarrow> bool \<Rightarrow> nat \<Rightarrow> u16 \<Rightarrow> sta_info \<Rightarrow> sta_info" where
  "set_rxseq qos mcast tid v sta =
     (if qos then if mcast then sta\<lparr>bmc_tid_rxseq := (bmc_tid_rxseq sta)[tid := v]\<rparr> else sta\<lparr>tid_rxseq := (tid_rxseq sta)[tid := v]\<rparr>
      else if mcast then sta\<lparr>nonqos_bmc_rxseq := v\<rparr> else sta\<lparr>nonqos_rxseq := v\<rparr>)"

definition recv_decache :: "sta_info \<Rightarrow> bool \<Rightarrow> bool \<Rightarrow> nat \<Rightarrow> u16 \<Rightarrow> u8 \<Rightarrow> bool \<times> sta_info" where
  "recv_decache sta qos mcast tid seq_num frag_num =
     (let seq_ctrl = seq_ctrl_of seq_num frag_num
      in if 15 < tid then (False, sta)
         else if seq_ctrl = get_rxseq qos mcast tid sta then (False, sta)
         else (True, set_rxseq qos mcast tid seq_ctrl sta))"

section \<open>Packet numbers\<close>

definition rtw_iv_to_pn :: "bytes \<Rightarrow> u8 \<Rightarrow> (bytes \<times> u8) option" where
  "rtw_iv_to_pn iv enc =
     (let rest = [iv ! 4, iv ! 5, iv ! 6, iv ! 7]; key_id = drop_bit 6 (iv ! 3)
      in if enc = ENC_TKIP then Some ([iv ! 2, iv ! 0] @ rest, key_id)
         else if enc = ENC_AES \<or> enc = ENC_GCMP \<or> enc = ENC_CCMP_256 \<or> enc = ENC_GCMP_256
         then Some ([iv ! 0, iv ! 1] @ rest, key_id)
         else None)"

definition rtw_pn_to_iv :: "bytes \<Rightarrow> u8 \<Rightarrow> u8 \<Rightarrow> bytes option" where
  "rtw_pn_to_iv pn key_id enc =
     (let tail = [0x20 OR push_bit 6 (key_id AND 0x3), pn ! 2, pn ! 3, pn ! 4, pn ! 5]
      in if enc = ENC_TKIP then Some ([pn ! 1, (pn ! 1 OR 0x20) AND 0x7F, pn ! 0] @ tail)
         else if enc = ENC_AES \<or> enc = ENC_GCMP \<or> enc = ENC_CCMP_256 \<or> enc = ENC_GCMP_256
         then Some ([pn ! 0, pn ! 1, 0] @ tail)
         else None)"

definition PN_LESS_CHK :: "u64 \<Rightarrow> u64 \<Rightarrow> bool" where
  "PN_LESS_CHK a b \<longleftrightarrow> (a - b) AND 0x800000000000 \<noteq> 0"

definition VALID_PN_CHK :: "u64 \<Rightarrow> u64 \<Rightarrow> bool" where
  "VALID_PN_CHK new old \<longleftrightarrow> old = 0 \<or> PN_LESS_CHK old new"

text \<open>The packet number as a 64-bit value: the six bytes with two zero bytes on top.\<close>

definition pn64 :: "bytes \<Rightarrow> u64" where
  "pn64 pn = le64 (pn @ [0, 0])"

record rxcache =
  rc_iv :: "bytes list"
  rc_last_tid :: nat

definition recv_ucast_pn_decache :: "rxcache \<Rightarrow> nat \<Rightarrow> u8 \<Rightarrow> bytes \<Rightarrow> bool \<times> rxcache" where
  "recv_ucast_pn_decache rc tid enc iv =
     (if 15 < tid then (False, rc)
      else case rtw_iv_to_pn iv enc of
          None \<Rightarrow> (True, rc)
        | Some (pkt, _) \<Rightarrow>
            (case rtw_iv_to_pn (rc_iv rc ! tid) enc of
               None \<Rightarrow> (True, rc)
             | Some (cur, _) \<Rightarrow>
                 (True, if VALID_PN_CHK (pn64 pkt) (pn64 cur) then rc\<lparr>rc_last_tid := tid, rc_iv := (rc_iv rc)[tid := take 8 iv]\<rparr> else rc)))"

text \<open>\<open>iv_seq\<close> holds the last packet number of each group key; \<open>is_sta\<close> is \<^verbatim>\<open>MLME_IS_STA\<close>.\<close>

definition recv_bcast_pn_decache :: "u64 list \<Rightarrow> bool \<Rightarrow> u8 \<Rightarrow> bytes \<Rightarrow> bool \<times> u64 list" where
  "recv_bcast_pn_decache iv_seq is_sta enc iv =
     (case rtw_iv_to_pn iv enc of
        None \<Rightarrow> (True, iv_seq)
      | Some (pkt, key_id) \<Rightarrow>
          if \<not> is_sta then (True, iv_seq)
          else if \<not> VALID_PN_CHK (pn64 pkt) (iv_seq ! unat key_id) then (False, iv_seq)
          else (True, iv_seq[unat key_id := pn64 pkt]))"

section \<open>Protected group management frames\<close>

definition BIP_CMAC_128 :: u8 where "BIP_CMAC_128 = 0x08"
definition BIP_GMAC_128 :: u8 where "BIP_GMAC_128 = 0x09"
definition BIP_CMAC_256 :: u8 where "BIP_CMAC_256 = 0x18"
definition BIP_GMAC_256 :: u8 where "BIP_GMAC_256 = 0x19"
definition MME_IE :: u8 where "MME_IE = 76"
definition WLAN_HDR_A3_LEN :: nat where "WLAN_HDR_A3_LEN = 24"

definition rtw_calculate_bip_mic :: "(nat \<Rightarrow> bool) \<Rightarrow> u8 \<Rightarrow> bytes \<Rightarrow> nat \<Rightarrow> bytes \<Rightarrow> bytes \<Rightarrow> bytes option c_result" where
  "rtw_calculate_bip_mic alloc gmcs whdr_pos len key data =
     (if gmcs = BIP_CMAC_128 then bip_ccmp_protect alloc (take 16 key) data
      else if gmcs = BIP_CMAC_256 then bip_ccmp_protect alloc (take 32 key) data
      else if gmcs = BIP_GMAC_128 then Ret (bip_gcmp_protect alloc whdr_pos len (take 16 key) data)
      else if gmcs = BIP_GMAC_256 then Ret (bip_gcmp_protect alloc whdr_pos len (take 32 key) data)
      else Ret None)"

text \<open>
  What the MIC is computed over: the frame control field without the bits that change on the way, the
  three addresses, and the body with the MIC set to zero.
\<close>

definition bip_aad :: "bytes \<Rightarrow> nat \<Rightarrow> bytes" where
  "bip_aad whdr_pos n =
     [whdr_pos ! 0, (whdr_pos ! 1) AND NOT 0x38] @ take 18 (drop 4 whdr_pos) @
     take (length whdr_pos - WLAN_HDR_A3_LEN - n) (drop WLAN_HDR_A3_LEN whdr_pos) @ replicate n 0"

definition bip_mic_len :: "u8 \<Rightarrow> nat" where
  "bip_mic_len gmcs = (if gmcs = BIP_CMAC_128 then 8 else 16)"

definition bip_mme :: "u8 \<Rightarrow> bytes \<Rightarrow> bytes" where
  "bip_mme gmcs whdr_pos = drop (length whdr_pos - (if bip_mic_len gmcs = 8 then 18 else 26)) whdr_pos"

definition bip_ipn :: "u8 \<Rightarrow> bytes \<Rightarrow> u64" where
  "bip_ipn gmcs whdr_pos = pn64 (take 6 (drop 4 (bip_mme gmcs whdr_pos)))"

text \<open>
  \<^verbatim>\<open>rtw_bip_verify\<close> of a frame of \<open>flen\<close> bytes: \<open>alloc 0\<close> is the allocation of the buffer, the others are
  those of the MIC computation.
\<close>

definition rtw_bip_verify :: "(nat \<Rightarrow> bool) \<Rightarrow> u8 \<Rightarrow> nat \<Rightarrow> bytes \<Rightarrow> bytes \<Rightarrow> u16 \<Rightarrow> u64 \<Rightarrow> (int \<times> u64) c_result" where
  "rtw_bip_verify alloc gmcs pkt_len whdr_pos key keyid ipn =
     (let flen = length whdr_pos;
          n = bip_mic_len gmcs;
          mme = bip_mme gmcs whdr_pos
      in if flen < WLAN_HDR_A3_LEN \<or> flen - WLAN_HDR_A3_LEN < n then Ret (2, ipn)
         else if mme ! 0 \<noteq> MME_IE then Ret (2, ipn)
         else if RTW_GET_LE16 (drop 2 mme) \<noteq> keyid then Ret (0, ipn)
         else if bip_ipn gmcs whdr_pos \<le> ipn then Ret (0, ipn)
         else if \<not> alloc 0 then Ret (0, ipn)
         else c_bind (rtw_calculate_bip_mic (\<lambda>i. alloc (Suc i)) gmcs whdr_pos pkt_len key (bip_aad whdr_pos n))
           (\<lambda>m. case m of
              None \<Rightarrow> Ret (0, ipn)
            | Some mic \<Rightarrow>
                if take n mic = drop (flen - n) whdr_pos then Ret (1, bip_ipn gmcs whdr_pos) else Ret (0, ipn)))"

section \<open>Duplicates are recognised\<close>

lemma low_bits: "x < 2 ^ n \<Longrightarrow> n \<le> i \<Longrightarrow> \<not> bit (x :: 'a::len word) i"
proof -
  assume "x < 2 ^ n" "n \<le> i"
  have "unat (of_nat (2 ^ n) :: 'a word) \<le> 2 ^ n" by (simp only: unsigned_of_nat of_nat_id take_bit_nat_less_eq_self)
  then have "unat x < 2 ^ n" using \<open>x < 2 ^ n\<close> by (simp add: word_less_nat_alt)
  then have "unat (take_bit n x) = unat x" by (simp add: unsigned_take_bit_eq take_bit_nat_eq_self)
  then have "x = take_bit n x" by (metis word_unat_eq_iff)
  then show ?thesis using \<open>n \<le> i\<close> by (metis bit_take_bit_iff not_le)
qed

lemma bit_seq_ctrl:
  "bit (seq_ctrl_of s f) i \<longleftrightarrow> (if i < 4 then bit f i else i < 16 \<and> bit s (i - 4))"
proof -
  have "(0xffff :: u16) = - 1" by simp
  then have a: "s AND 0xffff = s" by (metis and.right_neutral)
  have b: "f AND 0xf = take_bit 4 f" by (simp add: take_bit_eq_mask mask_eq_exp_minus_1)
  show ?thesis unfolding seq_ctrl_of_def a b by (auto simp: bit_simps dest: bit_imp_le_length)
qed

lemma seq_ctrl_inj:
  assumes "s < 4096" "s' < 4096" "f < 16" "f' < 16" "seq_ctrl_of s f = seq_ctrl_of s' f'"
  shows "s = s' \<and> f = f'"
proof
  have eq: "bit (seq_ctrl_of s f) i = bit (seq_ctrl_of s' f') i" for i using assms(5) by simp
  show "s = s'"
  proof (rule word_eqI_bits)
    fix i
    show "bit s i \<longleftrightarrow> bit s' i"
      using eq [of "i + 4"] low_bits [of s 12 i] low_bits [of s' 12 i] assms(1,2) by (cases "i < 12") (auto simp: bit_seq_ctrl)
  qed
  show "f = f'"
  proof (rule word_eqI_bits)
    fix i
    show "bit f i \<longleftrightarrow> bit f' i"
      using eq [of i] low_bits [of f 4 i] low_bits [of f' 4 i] assms(3,4) by (cases "i < 4") (auto simp: bit_seq_ctrl)
  qed
qed

text \<open>
  Duplicates. After a frame of a station the driver refuses, in the same traffic class, exactly the
  frames that repeat its sequence and fragment number, whether it accepted or refused that frame itself;
  what it remembers for the other classes does not change. (Sequence numbers have 12 bits, fragment
  numbers 4.)
\<close>

lemma decache_refuses_repeats:
  assumes "tid \<le> 15" and "length (tid_rxseq sta) = 16" and "length (bmc_tid_rxseq sta) = 16"
    and "seq < 4096" and "seq' < 4096" and "frag < 16" and "frag' < 16"
    and "recv_decache sta qos mcast tid seq frag = (ok, sta')"
  shows "(fst (recv_decache sta' qos mcast tid seq' frag') \<longleftrightarrow> (seq', frag') \<noteq> (seq, frag)) \<and>
    (\<forall>qos2 mcast2 tid2. (qos2, mcast2) \<noteq> (qos, mcast) \<or> qos \<and> tid2 \<noteq> tid \<longrightarrow> get_rxseq qos2 mcast2 tid2 sta' = get_rxseq qos2 mcast2 tid2 sta)"
proof -
  have "sta' = set_rxseq qos mcast tid (seq_ctrl_of seq frag) sta"
    using assms(1,8) by (auto simp: recv_decache_def Let_def get_rxseq_def set_rxseq_def split: if_splits)
  then have "get_rxseq qos mcast tid sta' = seq_ctrl_of seq frag"
    and "\<forall>qos2 mcast2 tid2. (qos2, mcast2) \<noteq> (qos, mcast) \<or> qos \<and> tid2 \<noteq> tid \<longrightarrow> get_rxseq qos2 mcast2 tid2 sta' = get_rxseq qos2 mcast2 tid2 sta"
    using assms(1-3) by (auto simp: get_rxseq_def set_rxseq_def)
  then show ?thesis using assms(1) seq_ctrl_inj [OF assms(5,4,7,6)] by (auto simp: recv_decache_def Let_def)
qed

lemma decache_refuses_repeats_witness:
  "\<not> fst (recv_decache (snd (recv_decache (new_sta []) True False 3 100 0)) True False 3 100 0)"
  using decache_refuses_repeats [of 3 "new_sta []" 100 100 0 0 True False "fst (recv_decache (new_sta []) True False 3 100 0)" "snd (recv_decache (new_sta []) True False 3 100 0)"]
  by (simp add: new_sta_def init_stainfo_def)

section \<open>Packet numbers of group frames\<close>

lemma PN_LESS_iff:
  assumes "a < 2 ^ 47" "b < 2 ^ 47"
  shows "PN_LESS_CHK a b \<longleftrightarrow> a < b"
proof -
  have ub: "uint a < 140737488355328" "uint b < 140737488355328" using assms by (simp_all add: word_less_def)
  have "(0x800000000000 :: u64) = 2 ^ 47" by simp
  then have chk: "PN_LESS_CHK a b \<longleftrightarrow> bit (a - b) 47" unfolding PN_LESS_CHK_def by (simp only: and_exp_eq_0_iff_not_bit simp_thms)
  have "bit (uint x) 47 \<longleftrightarrow> bit x 47" for x :: u64 by (simp add: bit_unsigned_iff)
  then have bt: "bit x 47 \<longleftrightarrow> odd (uint x div 140737488355328)" for x :: u64 using bit_iff_odd [of "uint x" 47] by simp
  have diff: "uint (a - b) = (uint a - uint b) mod 18446744073709551616" by (simp add: uint_word_ariths)
  show ?thesis
  proof (cases "a < b")
    case True
    then have "uint a < uint b" by (simp add: word_less_def)
    moreover have "0 \<le> uint a - uint b + 18446744073709551616" using ub uint_ge_0 [of a] by linarith
    ultimately have "uint (a - b) = 140737488355328 * 131071 + (140737488355328 + uint a - uint b)"
      using diff mod_pos_pos_trivial [of "uint a - uint b + 18446744073709551616" 18446744073709551616] ub by simp
    moreover have "0 \<le> 140737488355328 + uint a - uint b" using ub uint_ge_0 [of a] by linarith
    ultimately have "uint (a - b) div 140737488355328 = 131071" using \<open>uint a < uint b\<close> by (intro int_div_pos_eq [where r = "140737488355328 + uint a - uint b"]) simp_all
    then show ?thesis using True chk bt [of "a - b"] by simp
  next
    case False
    then have "uint b \<le> uint a" by (simp add: word_less_def)
    moreover have small: "uint a - uint b < 140737488355328" using ub uint_ge_0 [of b] by linarith
    ultimately have "uint (a - b) = uint a - uint b" using diff mod_pos_pos_trivial [of "uint a - uint b" 18446744073709551616] by simp
    then have "uint (a - b) div 140737488355328 = 0" using \<open>uint b \<le> uint a\<close> small by (intro div_pos_pos_trivial) simp_all
    then show ?thesis using False chk bt [of "a - b"] by simp
  qed
qed

text \<open>
  The group frames a station receives, as their initialization vectors: the key identifiers and packet
  numbers of those that are let through.
\<close>

fun group_run :: "u64 list \<Rightarrow> u8 \<Rightarrow> bytes list \<Rightarrow> (nat \<times> u64) list" where
  "group_run iv_seq enc [] = []"
| "group_run iv_seq enc (iv # ivs) =
     (let (ok, iv_seq) = recv_bcast_pn_decache iv_seq True enc iv
      in (if ok then case rtw_iv_to_pn iv enc of None \<Rightarrow> [] | Some (pn, key_id) \<Rightarrow> [(unat key_id, pn64 pn)] else []) @ group_run iv_seq enc ivs)"

definition iv_pn :: "u8 \<Rightarrow> bytes \<Rightarrow> u64" where
  "iv_pn enc iv = (case rtw_iv_to_pn iv enc of None \<Rightarrow> 0 | Some (pn, _) \<Rightarrow> pn64 pn)"

abbreviation pns_of_key :: "nat \<Rightarrow> (nat \<times> u64) list \<Rightarrow> u64 list" where
  "pns_of_key k acc \<equiv> map snd (filter (\<lambda>p. fst p = k) acc)"



section \<open>Packet numbers and initialization vectors\<close>

text \<open>
  For every cipher with packet numbers, and for no other, a packet number of six bytes and a key
  identifier are turned into an initialization vector of eight bytes from which the packet number and the
  low two bits of the key identifier are read back.
\<close>

lemma pn_iv_roundtrip:
  assumes "length pn = 6"
  shows "if enc \<in> {ENC_TKIP, ENC_AES, ENC_GCMP, ENC_CCMP_256, ENC_GCMP_256}
    then \<exists>iv. rtw_pn_to_iv pn key_id enc = Some iv \<and> length iv = 8 \<and> rtw_iv_to_pn iv enc = Some (pn, key_id AND 3)
    else rtw_pn_to_iv pn key_id enc = None \<and> (\<forall>iv. rtw_iv_to_pn iv enc = None)"
proof -
  have "drop_bit 6 (0x20 OR push_bit 6 (key_id AND 3)) = key_id AND 3"
  proof -
    have "drop_bit 6 (push_bit 6 (take_bit 2 key_id)) = take_bit 2 key_id"
    proof (rule word_eqI_bits)
      fix n
      show "bit (drop_bit 6 (push_bit 6 (take_bit 2 key_id))) n \<longleftrightarrow> bit (take_bit 2 key_id) n"
        by (cases "n < 2") (auto simp: bit_simps dest: bit_imp_le_length)
    qed
    moreover have "key_id AND 3 = take_bit 2 key_id" by (simp add: take_bit_eq_mask mask_eq_exp_minus_1)
    moreover have "drop_bit 6 (0x20 :: u8) = 0" by simp
    ultimately show ?thesis by (simp only: drop_bit_or or.left_neutral)
  qed
  moreover obtain a b c d e f where "pn = [a, b, c, d, e, f]" using assms by (auto simp: numeral_eq_Suc length_Suc_conv)
  ultimately show ?thesis by (auto simp: rtw_pn_to_iv_def rtw_iv_to_pn_def Let_def)
qed

lemma pn_iv_roundtrip_witness:
  "\<exists>iv. rtw_pn_to_iv [1, 2, 3, 4, 5, 6] 1 ENC_TKIP = Some iv \<and> length iv = 8 \<and> rtw_iv_to_pn iv ENC_TKIP = Some ([1, 2, 3, 4, 5, 6], 1 AND 3)"
  using pn_iv_roundtrip [of "[1, 2, 3, 4, 5, 6]" ENC_TKIP 1] by simp

section \<open>Protected group management frames are authentic and fresh\<close>

text \<open>The frames that arrive under one key: the packet numbers of those accepted.\<close>

fun bip_run :: "(nat \<Rightarrow> bool) \<Rightarrow> u8 \<Rightarrow> bytes \<Rightarrow> u16 \<Rightarrow> u64 \<Rightarrow> bytes list \<Rightarrow> u64 list c_result" where
  "bip_run alloc gmcs key keyid ipn [] = Ret []"
| "bip_run alloc gmcs key keyid ipn (fr # frs) =
     c_bind (rtw_bip_verify alloc gmcs (length fr) fr key keyid ipn)
       (\<lambda>(res, ipn). c_bind (bip_run alloc gmcs key keyid ipn frs) (\<lambda>acc. Ret (if res = 1 then ipn # acc else acc)))"

lemma bip_verify_cases:
  assumes "rtw_bip_verify alloc gmcs pkt_len fr key keyid ipn = Ret (res, ipn')"
  shows "res = 1 \<and> ipn' = bip_ipn gmcs fr \<and> ipn < ipn' \<and> WLAN_HDR_A3_LEN + bip_mic_len gmcs \<le> length fr \<and>
      bip_mme gmcs fr ! 0 = MME_IE \<and> RTW_GET_LE16 (drop 2 (bip_mme gmcs fr)) = keyid \<and>
      (\<exists>mic. rtw_calculate_bip_mic (\<lambda>i. alloc (Suc i)) gmcs fr pkt_len key (bip_aad fr (bip_mic_len gmcs)) = Ret (Some mic) \<and>
        drop (length fr - bip_mic_len gmcs) fr = take (bip_mic_len gmcs) mic) \<or>
    res \<noteq> 1 \<and> ipn' = ipn"
  using assms by (auto simp: rtw_bip_verify_def Let_def c_bind_Ret_iff not_le split: if_splits option.splits)

text \<open>
  C39. Group management frames. A frame is accepted only if it ends in a management MIC element for the
  current key whose packet number is above the last accepted one and whose MIC is the one computed over
  the frame with the bits that may change on the way cleared and the MIC itself set to zero; every other
  frame leaves the packet number alone. Conversely a frame with all of this is accepted when memory can be
  had. Over any sequence of frames the accepted packet numbers increase
  strictly, so that no frame is accepted twice.
\<close>

theorem bip_authentic_and_fresh:
  shows "(\<forall>pkt_len fr res ipn'. rtw_bip_verify alloc gmcs pkt_len fr key keyid ipn = Ret (res, ipn') \<longrightarrow>
      (res = 1 \<longrightarrow> ipn' = bip_ipn gmcs fr \<and> ipn < ipn' \<and> bip_mme gmcs fr ! 0 = MME_IE \<and> RTW_GET_LE16 (drop 2 (bip_mme gmcs fr)) = keyid \<and>
        (\<exists>mic. rtw_calculate_bip_mic (\<lambda>i. alloc (Suc i)) gmcs fr pkt_len key (bip_aad fr (bip_mic_len gmcs)) = Ret (Some mic) \<and>
          drop (length fr - bip_mic_len gmcs) fr = take (bip_mic_len gmcs) mic)) \<and>
      (res \<noteq> 1 \<longrightarrow> ipn' = ipn)) \<and>
    (\<forall>pkt_len fr mic. alloc 0 \<and> WLAN_HDR_A3_LEN + bip_mic_len gmcs \<le> length fr \<and> bip_mme gmcs fr ! 0 = MME_IE \<and>
      RTW_GET_LE16 (drop 2 (bip_mme gmcs fr)) = keyid \<and> ipn < bip_ipn gmcs fr \<and>
      rtw_calculate_bip_mic (\<lambda>i. alloc (Suc i)) gmcs fr pkt_len key (bip_aad fr (bip_mic_len gmcs)) = Ret (Some mic) \<and>
      drop (length fr - bip_mic_len gmcs) fr = take (bip_mic_len gmcs) mic \<longrightarrow>
      rtw_bip_verify alloc gmcs pkt_len fr key keyid ipn = Ret (1, bip_ipn gmcs fr)) \<and>
    (\<forall>frs acc. bip_run alloc gmcs key keyid ipn frs = Ret acc \<longrightarrow> sorted_wrt (<) (ipn # acc))"
proof -
  have run: "sorted_wrt (<) (ipn # acc)" if "bip_run alloc gmcs key keyid ipn frs = Ret acc" for frs acc ipn
    using that
  proof (induction frs arbitrary: ipn acc)
    case (Cons fr frs)
    then obtain res ipn' acc' where v: "rtw_bip_verify alloc gmcs (length fr) fr key keyid ipn = Ret (res, ipn')"
      "bip_run alloc gmcs key keyid ipn' frs = Ret acc'" "acc = (if res = 1 then ipn' # acc' else acc')"
      by (auto simp: c_bind_Ret_iff split: prod.splits)
    have "sorted_wrt (<) (ipn' # acc')" by (rule Cons.IH [OF v(2)])
    then show ?case using bip_verify_cases [OF v(1)] v(3) by (auto intro: order.strict_trans)
  qed simp
  have accept: "rtw_bip_verify alloc gmcs pkt_len fr key keyid ipn = Ret (1, bip_ipn gmcs fr)"
    if "alloc 0" "WLAN_HDR_A3_LEN + bip_mic_len gmcs \<le> length fr" "bip_mme gmcs fr ! 0 = MME_IE"
      "RTW_GET_LE16 (drop 2 (bip_mme gmcs fr)) = keyid" "ipn < bip_ipn gmcs fr"
      "rtw_calculate_bip_mic (\<lambda>i. alloc (Suc i)) gmcs fr pkt_len key (bip_aad fr (bip_mic_len gmcs)) = Ret (Some mic)"
      "drop (length fr - bip_mic_len gmcs) fr = take (bip_mic_len gmcs) mic" for pkt_len fr mic
  proof -
    have "\<not> length fr < WLAN_HDR_A3_LEN" "\<not> length fr - WLAN_HDR_A3_LEN < bip_mic_len gmcs" using that(2) by linarith+
    moreover have "\<not> bip_ipn gmcs fr \<le> ipn" using that(5) by (simp add: not_le)
    ultimately show ?thesis using that by (simp add: rtw_bip_verify_def Let_def)
  qed
  show ?thesis using run bip_verify_cases accept by blast
qed

definition example_bip_body :: bytes where
  "example_bip_body = replicate 24 0 @ [76, 16, 4, 0, 1, 0, 0, 0, 0, 0]"

theorem bip_authentic_and_fresh_witness:
  "\<exists>mic. rtw_bip_verify (\<lambda>_. True) BIP_CMAC_128 42 (example_bip_body @ mic) (replicate 16 0) 4 0 = Ret (1, 1)"
proof -
  let ?data = "bip_aad (example_bip_body @ replicate 8 0) 8"
  obtain ctx where ctx: "aes_encrypt_init (\<lambda>_. True) (replicate 16 0) = Some ctx"
    using aes_encrypt_init_None_iff [of "\<lambda>_. True" "replicate 16 0"] by auto
  define mic where "mic = cmac (wpa_aes_encrypt ctx) ?data"
  let ?fr = "example_bip_body @ take 8 mic"
  have n: "bip_mic_len BIP_CMAC_128 = 8" by (simp add: bip_mic_len_def)
  have l: "length (take 8 mic) = 8" by (simp add: mic_def)
  have mme: "bip_mme BIP_CMAC_128 ?fr = [76, 16, 4, 0, 1, 0, 0, 0, 0, 0] @ take 8 mic"
    using l by (simp add: bip_mme_def n example_bip_body_def)
  have ipn: "bip_ipn BIP_CMAC_128 ?fr = 1" by (simp add: bip_ipn_def mme pn64_def le64_def RTW_GET_LE32_def)
  have "bip_aad ?fr 8 = ?data" using l by (simp add: bip_aad_def example_bip_body_def WLAN_HDR_A3_LEN_def nth_append)
  then have "rtw_calculate_bip_mic (\<lambda>i. True) BIP_CMAC_128 ?fr 42 (replicate 16 0) (bip_aad ?fr 8) = Ret (Some mic)"
    by (simp add: rtw_calculate_bip_mic_def bip_ccmp_protect_def omac1_aes_128_def omac1_aes_128_vector_def omac1_single ctx mic_def)
  moreover have len: "length ?fr = 42" using l by (simp add: example_bip_body_def)
  moreover have "drop (length ?fr - 8) ?fr = take 8 mic" using l by (simp add: example_bip_body_def)
  ultimately have "rtw_bip_verify (\<lambda>_. True) BIP_CMAC_128 42 ?fr (replicate 16 0) 4 0 = Ret (1, bip_ipn BIP_CMAC_128 ?fr)"
    using l len by (intro bip_authentic_and_fresh [THEN conjunct2, THEN conjunct1, rule_format, where mic = mic])
      (simp add: n mme ipn MME_IE_def RTW_GET_LE16_def WLAN_HDR_A3_LEN_def)
  then show ?thesis unfolding ipn by blast
qed

end
