(* ===== verification/Data_Frames.thy ===== *)
theory Data_Frames
  imports Reorder Replay
begin

unbundle bit_operations_syntax

text \<open>
  Which received data frames are let through: \<^verbatim>\<open>validate_recv_frame\<close> and the functions below it in
  \<^verbatim>\<open>core/rtw_recv.c\<close>, \<^verbatim>\<open>rtw_ap_rx_data_validate_hdr\<close> of \<^verbatim>\<open>core/rtw_ap.c\<close>, and the port control of 802.1X. They read the header of
  a frame, find its station, drop repetitions, and drop what is not encrypted where encryption
  is on. Management and control frames are not followed further than their type. The frame is the
  memory from its header on; calls into the transmit path are recorded as events. The direct links
  (TDLS), mesh and WAPI are compiled out of this configuration.
\<close>

section \<open>The adapter and the frame\<close>

definition WIFI_STATION_STATE :: u32 where "WIFI_STATION_STATE = 0x8"
definition WIFI_AP_STATE :: u32 where "WIFI_AP_STATE = 0x10"
definition WIFI_ADHOC_STATE :: u32 where "WIFI_ADHOC_STATE = 0x20"
definition WIFI_ADHOC_MASTER_STATE :: u32 where "WIFI_ADHOC_MASTER_STATE = 0x40"
definition WIFI_UNDER_LINKING :: u32 where "WIFI_UNDER_LINKING = 0x80"
definition WIFI_MP_STATE :: u32 where "WIFI_MP_STATE = 0x10000"
definition WLAN_STA_AMSDU_DISABLE :: u32 where "WLAN_STA_AMSDU_DISABLE = 0x20000"
definition NO_PRIVACY :: u8 where "NO_PRIVACY = 0"
definition ENC_WEP40 :: u8 where "ENC_WEP40 = 1"
definition ENC_WEP104 :: u8 where "ENC_WEP104 = 5"
definition ENC_SMS4 :: u8 where "ENC_SMS4 = 6"
definition EAPOL_TYPE :: u16 where "EAPOL_TYPE = 0x888e"
definition LLC_HEADER_SIZE :: nat where "LLC_HEADER_SIZE = 6"
definition WLAN_HDR_A3_QOS_LEN :: nat where "WLAN_HDR_A3_QOS_LEN = 26"

datatype dot11AuthAlgrthm =
  dot11AuthAlgrthm_Open | dot11AuthAlgrthm_Shared | dot11AuthAlgrthm_8021X | dot11AuthAlgrthm_Auto | dot11AuthAlgrthm_WAPI

record rx_attrib =
  at_to_fr_ds :: nat
  at_amsdu :: bool
  at_qos :: bool
  at_priority :: nat
  at_ack_policy :: nat
  at_hdrlen :: nat
  at_seq_num :: u16
  at_frag_num :: u8
  at_pw_save :: bool
  at_mfrag :: bool
  at_mdata :: bool
  at_privacy :: bool
  at_order :: bool
  at_encrypt :: u8
  at_iv_len :: nat
  at_icv_len :: nat
  at_dst :: bytes
  at_src :: bytes
  at_ta :: bytes
  at_ra :: bytes
  at_bssid :: bytes
  at_psta :: "nat option"
  at_preorder :: "nat option"

record sta_sec =
  ss_flags :: u32
  ss_privacy :: u8
  ss_blocked :: bool
  ss_rxcache :: rxcache

datatype rx_event = Issue_deauth bytes | Stop_sta_xmit nat | Wakeup_sta_to_xmit nat | Xmit_delivery nat | Issue_qos_nulldata bytes nat

text \<open>
  \<open>ad_sec\<close> gives the security state of each entry of the station pool. \<open>ad_deauth_due\<close> and \<open>ad_deauth_due'\<close> say whether
  the two rate limits of ten seconds allow a deauthentication frame.
\<close>

record rx_adapter =
  ad_fw_state :: u32
  ad_mac :: bytes
  ad_mybssid :: bytes
  ad_auth :: dot11AuthAlgrthm
  ad_privacy :: u8
  ad_grp_privacy :: u8
  ad_stapriv :: sta_priv
  ad_sec :: "nat \<Rightarrow> sta_sec"
  ad_iv_seq :: "u64 list"
  ad_radar :: bool
  ad_deauth_due :: bool
  ad_deauth_due' :: bool
  ad_non_be :: bool
  ad_events :: "rx_event list"

definition check_fwstate :: "rx_adapter \<Rightarrow> u32 \<Rightarrow> bool" where
  "check_fwstate ad st \<longleftrightarrow> st = 0 \<and> ad_fw_state ad = 0 \<or> ad_fw_state ad AND st \<noteq> 0"

definition MLME_IS_STA :: "rx_adapter \<Rightarrow> bool" where
  "MLME_IS_STA ad = check_fwstate ad WIFI_STATION_STATE"

definition MLME_IS_AP :: "rx_adapter \<Rightarrow> bool" where
  "MLME_IS_AP ad = check_fwstate ad WIFI_AP_STATE"

definition add_event :: "rx_event \<Rightarrow> rx_adapter \<Rightarrow> rx_adapter" where
  "add_event e ad = ad\<lparr>ad_events := ad_events ad @ [e]\<rparr>"

definition GetFrameType :: "bytes \<Rightarrow> u16" where "GetFrameType p = RTW_GET_LE16 p AND 0x000c"
definition get_frame_sub_type :: "bytes \<Rightarrow> u16" where "get_frame_sub_type p = RTW_GET_LE16 p AND 0x00fc"
definition GetToDs :: "bytes \<Rightarrow> bool" where "GetToDs p \<longleftrightarrow> RTW_GET_LE16 p AND 0x0100 \<noteq> 0"
definition GetFrDs :: "bytes \<Rightarrow> bool" where "GetFrDs p \<longleftrightarrow> RTW_GET_LE16 p AND 0x0200 \<noteq> 0"
definition get_tofr_ds :: "bytes \<Rightarrow> nat" where "get_tofr_ds p = 2 * of_bool (GetFrDs p) + of_bool (GetToDs p)"
definition GetMFrag :: "bytes \<Rightarrow> bool" where "GetMFrag p \<longleftrightarrow> RTW_GET_LE16 p AND 0x0400 \<noteq> 0"
definition GetPwrMgt :: "bytes \<Rightarrow> bool" where "GetPwrMgt p \<longleftrightarrow> RTW_GET_LE16 p AND 0x1000 \<noteq> 0"
definition GetMData :: "bytes \<Rightarrow> bool" where "GetMData p \<longleftrightarrow> RTW_GET_LE16 p AND 0x2000 \<noteq> 0"
definition GetPrivacy :: "bytes \<Rightarrow> bool" where "GetPrivacy p \<longleftrightarrow> RTW_GET_LE16 p AND 0x4000 \<noteq> 0"
definition GetOrder :: "bytes \<Rightarrow> bool" where "GetOrder p \<longleftrightarrow> RTW_GET_LE16 p AND 0x8000 \<noteq> 0"
definition GetSequence :: "bytes \<Rightarrow> u16" where "GetSequence p = drop_bit 4 (RTW_GET_LE16 (drop 22 p))"
definition GetFragNum :: "bytes \<Rightarrow> u8" where "GetFragNum p = ucast (RTW_GET_LE16 (drop 22 p) AND 0x0f)"
definition GetPriority :: "bytes \<Rightarrow> nat" where "GetPriority qc = unat (RTW_GET_LE16 qc AND 0x0f)"
definition GetAckpolicy :: "bytes \<Rightarrow> nat" where "GetAckpolicy qc = unat (drop_bit 5 (RTW_GET_LE16 qc) AND 0x3)"
definition GetAMsdu :: "bytes \<Rightarrow> bool" where "GetAMsdu qc \<longleftrightarrow> drop_bit 7 (RTW_GET_LE16 qc) AND 0x1 \<noteq> 0"
definition GetAddr1Ptr :: "bytes \<Rightarrow> bytes" where "GetAddr1Ptr p = take 6 (drop 4 p)"
definition get_addr2_ptr :: "bytes \<Rightarrow> bytes" where "get_addr2_ptr p = take 6 (drop 10 p)"
definition GetAddr3Ptr :: "bytes \<Rightarrow> bytes" where "GetAddr3Ptr p = take 6 (drop 16 p)"
definition GetAddr4Ptr :: "bytes \<Rightarrow> bytes" where "GetAddr4Ptr p = take 6 (drop 24 p)"

section \<open>Power save\<close>

definition process_pwrbit_data :: "rx_adapter \<Rightarrow> bytes \<Rightarrow> nat \<Rightarrow> rx_adapter" where
  "process_pwrbit_data ad ptr i =
     (let sleeping = sta_state (stas (ad_stapriv ad) ! i) AND WIFI_SLEEP_STATE \<noteq> 0
      in if GetPwrMgt ptr then if \<not> sleeping then add_event (Stop_sta_xmit i) ad else ad
         else if sleeping then add_event (Wakeup_sta_to_xmit i) ad else ad)"

definition process_wmmps_data :: "rx_adapter \<Rightarrow> rx_attrib \<Rightarrow> nat \<Rightarrow> rx_adapter" where
  "process_wmmps_data ad a i =
     (let sta = stas (ad_stapriv ad) ! i
      in if \<not> qos_option sta then ad
         else if qos_info sta AND 0xf = 0 then ad
         else if sta_state sta AND WIFI_SLEEP_STATE \<noteq> 0
         then if uapsd_of sta (at_priority a) AND 2 \<noteq> 0
              then if 0 < sleepq_ac_len sta then add_event (Xmit_delivery i) ad
                   else add_event (Issue_qos_nulldata (mac_addr sta) (at_priority a)) ad
              else ad
         else ad)"

section \<open>The header\<close>

text \<open>The result code, the station found, and the attributes and the adapter afterwards.\<close>

type_synonym hdr_result = "int \<times> nat option \<times> rx_attrib \<times> rx_adapter"

definition rtw_sta_rx_data_validate_hdr :: "rx_adapter \<Rightarrow> rx_attrib \<Rightarrow> bytes \<Rightarrow> hdr_result" where
  "rtw_sta_rx_data_validate_hdr ad a whdr =
     (let is_ra_bmc = IS_MCAST (GetAddr1Ptr whdr)
      in if at_to_fr_ds a = 0
         then let a = a\<lparr>at_ra := GetAddr1Ptr whdr, at_ta := get_addr2_ptr whdr, at_dst := GetAddr1Ptr whdr,
                        at_src := get_addr2_ptr whdr, at_bssid := GetAddr3Ptr whdr\<rparr>
              in if at_bssid a \<noteq> at_src a then (FAIL, None, a, ad)
                 else let sta = rtw_get_stainfo (ad_stapriv ad) (get_addr2_ptr whdr)
                      in (if sta \<noteq> None then SUCCESS else FAIL, sta, a, ad)
         else if ad_fw_state ad AND (WIFI_ASOC_STATE OR WIFI_UNDER_LINKING) = 0
         then (FAIL, None, a,
               if \<not> is_ra_bmc \<and> ad_deauth_due ad
               then add_event (Issue_deauth (get_addr2_ptr whdr)) (ad\<lparr>ad_deauth_due := False\<rparr>) else ad)
         else let a = a\<lparr>at_ra := GetAddr1Ptr whdr, at_ta := get_addr2_ptr whdr\<rparr>
              in if at_to_fr_ds a \<noteq> 2 \<and> at_to_fr_ds a \<noteq> 3 then (RTW_RX_HANDLED, None, a, ad)
                 else let a = (if at_to_fr_ds a = 2
                               then a\<lparr>at_dst := GetAddr1Ptr whdr, at_src := GetAddr3Ptr whdr, at_bssid := get_addr2_ptr whdr\<rparr>
                               else a\<lparr>at_dst := GetAddr3Ptr whdr, at_src := GetAddr4Ptr whdr, at_bssid := get_addr2_ptr whdr\<rparr>)
                      in if \<not> at_amsdu a \<and> ad_mac ad = at_src a then (FAIL, None, a, ad)
                         else let sta = rtw_get_stainfo (ad_stapriv ad) (at_ta a)
                              in if sta = None
                                 then (FAIL, None, a,
                                       if \<not> is_ra_bmc \<and> \<not> ad_radar ad then add_event (Issue_deauth (at_ta a)) ad else ad)
                                 else if get_frame_sub_type whdr AND 0x40 \<noteq> 0 then (RTW_RX_HANDLED, sta, a, ad)
                                 else (SUCCESS, sta, a, ad))"

definition rtw_ap_rx_data_validate_hdr :: "rx_adapter \<Rightarrow> rx_attrib \<Rightarrow> bytes \<Rightarrow> hdr_result" where
  "rtw_ap_rx_data_validate_hdr ad a whdr =
     (if ad_fw_state ad AND WIFI_ASOC_STATE = 0 then (FAIL, None, a, ad)
      else if at_to_fr_ds a = 1 \<and> IS_MCAST (GetAddr1Ptr whdr) then (FAIL, None, a, ad)
      else if at_to_fr_ds a \<noteq> 1 \<and> at_to_fr_ds a \<noteq> 3 then (RTW_RX_HANDLED, None, a, ad)
      else let is_ra_bmc = (at_to_fr_ds a = 3 \<and> IS_MCAST (GetAddr1Ptr whdr));
               a = (if at_to_fr_ds a = 1
                    then a\<lparr>at_ra := GetAddr1Ptr whdr, at_ta := get_addr2_ptr whdr, at_dst := GetAddr3Ptr whdr,
                           at_src := get_addr2_ptr whdr, at_bssid := GetAddr1Ptr whdr\<rparr>
                    else a\<lparr>at_ra := GetAddr1Ptr whdr, at_ta := get_addr2_ptr whdr, at_dst := GetAddr3Ptr whdr,
                           at_src := GetAddr4Ptr whdr, at_bssid := (if \<not> is_ra_bmc then GetAddr1Ptr whdr else at_bssid a)\<rparr>)
           in case rtw_get_stainfo (ad_stapriv ad) (at_ta a) of
                None \<Rightarrow> (RTW_RX_HANDLED, None, a,
                         if \<not> is_ra_bmc \<and> \<not> ad_radar ad then add_event (Issue_deauth (at_ta a)) ad else ad)
              | Some i \<Rightarrow>
                  let ad = process_pwrbit_data ad whdr i;
                      ad = (if get_frame_sub_type whdr AND 0x88 = 0x88 then process_wmmps_data ad a i else ad)
                  in (if get_frame_sub_type whdr AND 0x40 \<noteq> 0 then RTW_RX_HANDLED else SUCCESS, Some i, a, ad))"

text \<open>Ad-hoc and test modes, where the adapter is neither an access point nor a station.\<close>

definition sta2sta_data_frame :: "rx_adapter \<Rightarrow> rx_attrib \<Rightarrow> bytes \<Rightarrow> hdr_result" where
  "sta2sta_data_frame ad a ptr =
     (let adhoc = (check_fwstate ad WIFI_ADHOC_STATE \<or> check_fwstate ad WIFI_ADHOC_MASTER_STATE);
          bmcast = IS_MCAST (at_dst a)
      in if adhoc \<and> (ad_mac ad = at_src a \<or> (ad_mac ad \<noteq> at_dst a \<and> \<not> bmcast) \<or>
                     at_bssid a = replicate 6 0 \<or> ad_mybssid ad = replicate 6 0 \<or> at_bssid a \<noteq> ad_mybssid ad)
         then (FAIL, None, a, ad)
         else let mp = (\<not> adhoc \<and> check_fwstate ad WIFI_MP_STATE);
                  sta_addr = (if mp then ad_mybssid ad else at_ta a);
                  a = (if mp then a\<lparr>at_dst := GetAddr1Ptr ptr, at_src := get_addr2_ptr ptr, at_bssid := GetAddr3Ptr ptr,
                                    at_ra := GetAddr1Ptr ptr, at_ta := get_addr2_ptr ptr\<rparr> else a);
                  psta = rtw_get_stainfo (ad_stapriv ad) sta_addr
              in (if psta = None \<or> \<not> adhoc \<and> \<not> mp then FAIL else SUCCESS, psta, a, ad))"

definition mp_data_frame :: "rx_adapter \<Rightarrow> rx_attrib \<Rightarrow> bytes \<Rightarrow> hdr_result" where
  "mp_data_frame ad a ptr =
     (let a = a\<lparr>at_dst := GetAddr1Ptr ptr, at_src := get_addr2_ptr ptr, at_bssid := GetAddr3Ptr ptr,
                at_ra := GetAddr1Ptr ptr, at_ta := get_addr2_ptr ptr\<rparr>;
          psta = rtw_get_stainfo (ad_stapriv ad) (at_bssid a)
      in (if psta = None then FAIL else SUCCESS, psta, a, ad))"

definition ap2sta_data_frame :: "rx_adapter \<Rightarrow> rx_attrib \<Rightarrow> bytes \<Rightarrow> hdr_result" where
  "ap2sta_data_frame ad a ptr =
     (if check_fwstate ad WIFI_MP_STATE \<and> check_fwstate ad WIFI_ASOC_STATE then mp_data_frame ad a ptr
      else if ad_mac ad = at_dst a \<and> \<not> IS_MCAST (at_dst a)
      then let psta = rtw_get_stainfo (ad_stapriv ad) (at_ta a)
           in (FAIL, psta, a, if psta = None \<and> ad_deauth_due' ad
                              then add_event (Issue_deauth (at_bssid a)) (ad\<lparr>ad_deauth_due' := False\<rparr>) else ad)
      else (FAIL, None, a, ad))"

definition sta2ap_data_frame :: "rx_adapter \<Rightarrow> rx_attrib \<Rightarrow> bytes \<Rightarrow> hdr_result" where
  "sta2ap_data_frame ad a ptr =
     (if check_fwstate ad WIFI_MP_STATE \<and> check_fwstate ad WIFI_ASOC_STATE then mp_data_frame ad a ptr
      else if at_ra a \<noteq> ad_mac ad then (RTW_RX_HANDLED, None, a, ad)
      else (RTW_RX_HANDLED, None, a, add_event (Issue_deauth (at_src a)) ad))"

definition other_data_frame :: "rx_adapter \<Rightarrow> rx_attrib \<Rightarrow> bytes \<Rightarrow> hdr_result" where
  "other_data_frame ad a ptr =
     (let a1 = GetAddr1Ptr ptr; a2 = get_addr2_ptr ptr; a3 = GetAddr3Ptr ptr
      in if at_to_fr_ds a = 0
         then sta2sta_data_frame ad (a\<lparr>at_ra := a1, at_ta := a2, at_dst := a1, at_src := a2, at_bssid := a3\<rparr>) ptr
         else if at_to_fr_ds a = 1
         then sta2ap_data_frame ad (a\<lparr>at_ra := a1, at_ta := a2, at_dst := a3, at_src := a2, at_bssid := a1\<rparr>) ptr
         else if at_to_fr_ds a = 2
         then ap2sta_data_frame ad (a\<lparr>at_ra := a1, at_ta := a2, at_dst := a1, at_src := a3, at_bssid := a2\<rparr>) ptr
         else (FAIL, None, a, ad))"

definition validate_hdr :: "rx_adapter \<Rightarrow> rx_attrib \<Rightarrow> bytes \<Rightarrow> hdr_result" where
  "validate_hdr ad a ptr =
     (if MLME_IS_AP ad then rtw_ap_rx_data_validate_hdr ad a ptr
      else if MLME_IS_STA ad then rtw_sta_rx_data_validate_hdr ad a ptr
      else other_data_frame ad a ptr)"

section \<open>Data frames\<close>

definition GET_ENCRY_ALGO :: "rx_adapter \<Rightarrow> nat \<Rightarrow> bool \<Rightarrow> u8" where
  "GET_ENCRY_ALGO ad i bmcst =
     (case ad_auth ad of
        dot11AuthAlgrthm_8021X \<Rightarrow> if bmcst then ad_grp_privacy ad else ss_privacy (ad_sec ad i)
      | _ \<Rightarrow> ad_privacy ad)"

definition SET_ICE_IV_LEN :: "u8 \<Rightarrow> nat \<times> nat" where
  "SET_ICE_IV_LEN enc =
     (if enc = ENC_WEP40 \<or> enc = ENC_WEP104 then (4, 4)
      else if enc = ENC_TKIP then (8, 4)
      else if enc = ENC_AES then (8, 8)
      else if enc = ENC_GCMP \<or> enc = ENC_GCMP_256 then (8, 16)
      else if enc = ENC_CCMP_256 then (8, 16)
      else if enc = ENC_SMS4 then (18, 16)
      else (0, 0))"

text \<open>The address fields, the QoS field and the length of the header.\<close>

definition parse_qc :: "rx_adapter \<Rightarrow> rx_attrib \<Rightarrow> bytes \<Rightarrow> nat \<Rightarrow> rx_attrib \<times> rx_adapter" where
  "parse_qc ad a ptr a4_shift =
     (let qc = drop (WLAN_HDR_A3_LEN + a4_shift) ptr;
          (a, ad) =
            (if at_qos a
             then let prio = GetPriority qc
                  in (a\<lparr>at_priority := prio, at_ack_policy := GetAckpolicy qc, at_hdrlen := WLAN_HDR_A3_QOS_LEN + a4_shift\<rparr>,
                      ad\<lparr>ad_non_be := (prio \<noteq> 0 \<and> prio \<noteq> 3)\<rparr>)
             else (a\<lparr>at_ack_policy := 0, at_priority := 0, at_hdrlen := WLAN_HDR_A3_LEN + a4_shift\<rparr>, ad))
      in (if at_order a then a\<lparr>at_hdrlen := at_hdrlen a + 4\<rparr> else a, ad))"

text \<open>Duplicates and packet numbers, for the station \<open>i\<close>.\<close>

definition drop_repeats :: "rx_adapter \<Rightarrow> rx_attrib \<Rightarrow> bytes \<Rightarrow> nat \<Rightarrow> bool \<times> rx_attrib \<times> rx_adapter" where
  "drop_repeats ad a ptr i =
     (let mcast = IS_MCAST (at_ra a);
          iv = drop (at_hdrlen a) ptr;
          (ok, sta) = recv_decache (stas (ad_stapriv ad) ! i) (at_qos a) mcast (at_priority a) (at_seq_num a) (at_frag_num a);
          ad = ad\<lparr>ad_stapriv := upd_sta i (\<lambda>_. sta) (ad_stapriv ad)\<rparr>
      in if \<not> ok then (False, a, ad)
         else if \<not> mcast
         then let a = (if at_qos a then a\<lparr>at_preorder := Some (at_priority a)\<rparr> else a);
                  (ok, rc) = recv_ucast_pn_decache (ss_rxcache (ad_sec ad i)) (at_priority a) (at_encrypt a) iv
              in (ok, a, ad\<lparr>ad_sec := (ad_sec ad)(i := (ad_sec ad i)\<lparr>ss_rxcache := rc\<rparr>)\<rparr>)
         else let (ok, iv_seq) = recv_bcast_pn_decache (ad_iv_seq ad) (MLME_IS_STA ad) (at_encrypt a) iv
              in (ok, a, ad\<lparr>ad_iv_seq := iv_seq\<rparr>))"

definition set_encrypt :: "rx_adapter \<Rightarrow> rx_attrib \<Rightarrow> nat \<Rightarrow> rx_attrib" where
  "set_encrypt ad a i =
     (if at_privacy a
      then let enc = GET_ENCRY_ALGO ad i (IS_MCAST (at_ra a)); (iv, icv) = SET_ICE_IV_LEN enc
           in a\<lparr>at_encrypt := enc, at_iv_len := iv, at_icv_len := icv\<rparr>
      else a\<lparr>at_encrypt := 0, at_iv_len := 0, at_icv_len := 0\<rparr>)"

definition ether_type_of :: "rx_attrib \<Rightarrow> bytes \<Rightarrow> u16" where
  "ether_type_of a ptr = RTW_GET_BE16 (drop (at_hdrlen a + at_iv_len a + LLC_HEADER_SIZE) ptr)"

definition drop_unprotected :: "rx_adapter \<Rightarrow> rx_attrib \<Rightarrow> bytes \<Rightarrow> nat \<Rightarrow> bool" where
  "drop_unprotected ad a ptr i =
     (if ad_privacy ad = NO_PRIVACY then False
      else if IS_MCAST (at_ra a) then \<not> at_privacy a
      else let ether_type = ether_type_of a ptr
           in if ad_auth ad = dot11AuthAlgrthm_8021X
              then if \<not> at_privacy a \<and> ether_type \<noteq> EAPOL_TYPE then True
                   else if \<not> at_privacy a \<and> at_amsdu a then True
                   else if ether_type = EAPOL_TYPE \<and> MLME_IS_AP ad \<and> ss_privacy (ad_sec ad i) = NO_PRIVACY \<and> ad_mac ad \<noteq> at_dst a then True
                   else False
              else \<not> at_privacy a)"

definition validate_recv_data_frame :: "rx_adapter \<Rightarrow> rx_attrib \<Rightarrow> bytes \<Rightarrow> int \<times> rx_attrib \<times> rx_adapter" where
  "validate_recv_data_frame ad a ptr =
     (let a4_shift = (if at_to_fr_ds a = 3 then 6 else 0);
          a = a\<lparr>at_amsdu := at_qos a \<and> GetAMsdu (drop (WLAN_HDR_A3_LEN + a4_shift) ptr)\<rparr>;
          (ret, psta, a, ad) = validate_hdr ad a ptr
      in if ret = FAIL \<or> ret = RTW_RX_HANDLED then (ret, a, ad)
         else case psta of
             None \<Rightarrow> (FAIL, a, ad)
           | Some i \<Rightarrow>
               if ss_flags (ad_sec ad i) AND WLAN_STA_AMSDU_DISABLE \<noteq> 0 \<and> at_amsdu a then (FAIL, a, ad)
               else let a = a\<lparr>at_psta := Some i, at_preorder := None\<rparr>;
                        (a, ad) = parse_qc ad a ptr a4_shift;
                        (ok, a, ad) = drop_repeats ad a ptr i
                    in if \<not> ok then (FAIL, a, ad)
                       else let a = set_encrypt ad a i
                            in if drop_unprotected ad a ptr i then (FAIL, a, ad) else (SUCCESS, a, ad))"

text \<open>Management and control frames go to their own handlers, whose result does not matter here.\<close>

definition validate_recv_frame :: "rx_adapter \<Rightarrow> rx_attrib \<Rightarrow> bytes \<Rightarrow> int \<times> rx_attrib \<times> rx_adapter" where
  "validate_recv_frame ad a ptr =
     (if ptr ! 0 AND 0x3 \<noteq> 0 then (FAIL, a, ad)
      else let a = a\<lparr>at_to_fr_ds := get_tofr_ds ptr, at_frag_num := GetFragNum ptr, at_seq_num := GetSequence ptr,
                     at_pw_save := GetPwrMgt ptr, at_mfrag := GetMFrag ptr, at_mdata := GetMData ptr,
                     at_privacy := GetPrivacy ptr, at_order := GetOrder ptr\<rparr>
           in if GetFrameType ptr = ucast WIFI_DATA_TYPE
              then validate_recv_data_frame ad (a\<lparr>at_qos := (get_frame_sub_type ptr AND 0x80 \<noteq> 0)\<rparr>) ptr
              else (FAIL, a, ad))"

section \<open>Port control\<close>

definition portctrl :: "rx_adapter \<Rightarrow> rx_attrib \<Rightarrow> bytes \<Rightarrow> bool" where
  "portctrl ad a ptr =
     (case ad_auth ad of
        dot11AuthAlgrthm_8021X \<Rightarrow>
          (case rtw_get_stainfo (ad_stapriv ad) (at_ta a) of
             None \<Rightarrow> True
           | Some i \<Rightarrow> if ss_blocked (ad_sec ad i) then ether_type_of a ptr = EAPOL_TYPE else True)
      | _ \<Rightarrow> True)"

section \<open>What validation leaves alone\<close>

definition hdr_only :: "rx_attrib \<Rightarrow> rx_attrib \<Rightarrow> bool" where
  "hdr_only a a' \<longleftrightarrow>
     at_to_fr_ds a' = at_to_fr_ds a \<and> at_amsdu a' = at_amsdu a \<and> at_qos a' = at_qos a \<and>
     at_priority a' = at_priority a \<and> at_ack_policy a' = at_ack_policy a \<and> at_hdrlen a' = at_hdrlen a \<and>
     at_seq_num a' = at_seq_num a \<and> at_frag_num a' = at_frag_num a \<and> at_pw_save a' = at_pw_save a \<and>
     at_mfrag a' = at_mfrag a \<and> at_mdata a' = at_mdata a \<and> at_privacy a' = at_privacy a \<and>
     at_order a' = at_order a \<and> at_encrypt a' = at_encrypt a \<and> at_iv_len a' = at_iv_len a \<and>
     at_icv_len a' = at_icv_len a \<and> at_psta a' = at_psta a \<and> at_preorder a' = at_preorder a"

definition calls_only :: "rx_adapter \<Rightarrow> rx_adapter \<Rightarrow> bool" where
  "calls_only ad ad' \<longleftrightarrow>
     ad_fw_state ad' = ad_fw_state ad \<and> ad_mac ad' = ad_mac ad \<and> ad_mybssid ad' = ad_mybssid ad \<and>
     ad_auth ad' = ad_auth ad \<and> ad_privacy ad' = ad_privacy ad \<and> ad_grp_privacy ad' = ad_grp_privacy ad \<and>
     ad_stapriv ad' = ad_stapriv ad \<and> ad_sec ad' = ad_sec ad \<and> ad_iv_seq ad' = ad_iv_seq ad \<and>
     ad_radar ad' = ad_radar ad \<and> ad_non_be ad' = ad_non_be ad"

lemma calls_only_refl [simp]: "calls_only ad ad"
  by (simp add: calls_only_def)

lemma calls_only_event [simp]: "calls_only ad (add_event e ad') = calls_only ad ad'"
  by (simp add: calls_only_def add_event_def)

lemma calls_only_deauth [simp]: "calls_only ad (ad\<lparr>ad_deauth_due := b\<rparr>)" "calls_only ad (ad\<lparr>ad_deauth_due' := b\<rparr>)"
  by (simp_all add: calls_only_def)

lemma calls_only_power [simp]:
  "calls_only ad (process_pwrbit_data ad' ptr i) = calls_only ad ad'" "calls_only ad (process_wmmps_data ad' a i) = calls_only ad ad'"
  by (simp_all add: process_pwrbit_data_def process_wmmps_data_def Let_def)

lemma hdr_only_refl [simp]: "hdr_only a a"
  by (simp add: hdr_only_def)

lemma hdr_only_upd [simp]:
  "hdr_only a (b\<lparr>at_ra := x\<rparr>) = hdr_only a b"
  "hdr_only a (b\<lparr>at_ta := x\<rparr>) = hdr_only a b"
  "hdr_only a (b\<lparr>at_dst := x\<rparr>) = hdr_only a b"
  "hdr_only a (b\<lparr>at_src := x\<rparr>) = hdr_only a b"
  "hdr_only a (b\<lparr>at_bssid := x\<rparr>) = hdr_only a b"
  by (simp_all add: hdr_only_def)

lemma hdr_only_upd_left [simp]:
  "hdr_only (b\<lparr>at_ra := x\<rparr>) a = hdr_only b a"
  "hdr_only (b\<lparr>at_ta := x\<rparr>) a = hdr_only b a"
  "hdr_only (b\<lparr>at_dst := x\<rparr>) a = hdr_only b a"
  "hdr_only (b\<lparr>at_src := x\<rparr>) a = hdr_only b a"
  "hdr_only (b\<lparr>at_bssid := x\<rparr>) a = hdr_only b a"
  by (simp_all add: hdr_only_def)

lemma validate_hdr_frame:
  assumes "validate_hdr ad a ptr = (ret, psta, a', ad')"
  shows "hdr_only a a'" and "calls_only ad ad'"
proof -
  have h: "hdr_only a (fst (snd (snd (rtw_sta_rx_data_validate_hdr ad a ptr))))"
    "hdr_only a (fst (snd (snd (rtw_ap_rx_data_validate_hdr ad a ptr))))"
    "hdr_only a (fst (snd (snd (sta2sta_data_frame ad a ptr))))"
    "hdr_only a (fst (snd (snd (ap2sta_data_frame ad a ptr))))"
    "hdr_only a (fst (snd (snd (sta2ap_data_frame ad a ptr))))" for a
    by (simp_all add: rtw_sta_rx_data_validate_hdr_def rtw_ap_rx_data_validate_hdr_def sta2sta_data_frame_def ap2sta_data_frame_def
        sta2ap_data_frame_def mp_data_frame_def Let_def split: option.split)
  have c: "calls_only ad (snd (snd (snd (rtw_sta_rx_data_validate_hdr ad a ptr))))"
    "calls_only ad (snd (snd (snd (rtw_ap_rx_data_validate_hdr ad a ptr))))"
    "calls_only ad (snd (snd (snd (sta2sta_data_frame ad a ptr))))"
    "calls_only ad (snd (snd (snd (ap2sta_data_frame ad a ptr))))"
    "calls_only ad (snd (snd (snd (sta2ap_data_frame ad a ptr))))" for a
    by (simp_all add: rtw_sta_rx_data_validate_hdr_def rtw_ap_rx_data_validate_hdr_def sta2sta_data_frame_def ap2sta_data_frame_def
        sta2ap_data_frame_def mp_data_frame_def Let_def split: option.split)
  have hu: "hdr_only a (fst (snd (snd (f ad (a\<lparr>at_ra := r, at_ta := t, at_dst := d, at_src := s, at_bssid := b\<rparr>) ptr))))"
    if "f \<in> {sta2sta_data_frame, ap2sta_data_frame, sta2ap_data_frame}" for f r t d s b
    using that h(3-5) [of "a\<lparr>at_ra := r, at_ta := t, at_dst := d, at_src := s, at_bssid := b\<rparr>"] by auto
  then have "hdr_only a (fst (snd (snd (other_data_frame ad a ptr))))" by (simp add: other_data_frame_def Let_def)
  then have "hdr_only a (fst (snd (snd (validate_hdr ad a ptr))))" by (simp add: validate_hdr_def h)
  then show "hdr_only a a'" using assms by simp
  have "calls_only ad (snd (snd (snd (validate_hdr ad a ptr))))" by (simp add: validate_hdr_def c other_data_frame_def Let_def)
  then show "calls_only ad ad'" using assms by simp
qed

section \<open>Frames that are let through\<close>

text \<open>The attributes as they are when the addresses are looked at.\<close>

definition parsed :: "rx_attrib \<Rightarrow> bytes \<Rightarrow> rx_attrib" where
  "parsed a ptr =
     a\<lparr>at_to_fr_ds := get_tofr_ds ptr, at_frag_num := GetFragNum ptr, at_seq_num := GetSequence ptr, at_pw_save := GetPwrMgt ptr,
       at_mfrag := GetMFrag ptr, at_mdata := GetMData ptr, at_privacy := GetPrivacy ptr, at_order := GetOrder ptr,
       at_qos := (get_frame_sub_type ptr AND 0x80 \<noteq> 0),
       at_amsdu := get_frame_sub_type ptr AND 0x80 \<noteq> 0 \<and> GetAMsdu (drop (WLAN_HDR_A3_LEN + (if get_tofr_ds ptr = 3 then 6 else 0)) ptr)\<rparr>"

lemma tofr_ds_iff: "get_tofr_ds ptr = 3 \<longleftrightarrow> GetToDs ptr \<and> GetFrDs ptr" "get_tofr_ds ptr = 2 \<longleftrightarrow> \<not> GetToDs ptr \<and> GetFrDs ptr"
  "get_tofr_ds ptr = 1 \<longleftrightarrow> GetToDs ptr \<and> \<not> GetFrDs ptr" "get_tofr_ds ptr = 0 \<longleftrightarrow> \<not> GetToDs ptr \<and> \<not> GetFrDs ptr"
  by (auto simp: get_tofr_ds_def of_bool_def)

lemma validate_success:
  assumes "validate_recv_frame ad a ptr = (SUCCESS, a', ad')"
  obtains ret i a1 ad1 a2 ad2 a3 where
    "validate_hdr ad (parsed a ptr) ptr = (ret, Some i, a1, ad1)" "ret \<noteq> FAIL" "ret \<noteq> RTW_RX_HANDLED"
    "ss_flags (ad_sec ad1 i) AND WLAN_STA_AMSDU_DISABLE = 0 \<or> \<not> at_amsdu a1"
    "parse_qc ad1 (a1\<lparr>at_psta := Some i, at_preorder := None\<rparr>) ptr (if get_tofr_ds ptr = 3 then 6 else 0) = (a2, ad2)"
    "drop_repeats ad2 a2 ptr i = (True, a3, ad')" "a' = set_encrypt ad' a3 i" "\<not> drop_unprotected ad' a' ptr i"
proof -
  have ne: "FAIL \<noteq> SUCCESS" by (simp add: FAIL_def SUCCESS_def)
  have hs: "RTW_RX_HANDLED \<noteq> SUCCESS" by (simp add: RTW_RX_HANDLED_def SUCCESS_def)
  obtain ret psta a1 ad1 where h: "validate_hdr ad (parsed a ptr) ptr = (ret, psta, a1, ad1)" by (metis prod_cases4)
  have d: "validate_recv_data_frame ad (a\<lparr>at_to_fr_ds := get_tofr_ds ptr, at_frag_num := GetFragNum ptr, at_seq_num := GetSequence ptr,
      at_pw_save := GetPwrMgt ptr, at_mfrag := GetMFrag ptr, at_mdata := GetMData ptr, at_privacy := GetPrivacy ptr, at_order := GetOrder ptr,
      at_qos := (get_frame_sub_type ptr AND 0x80 \<noteq> 0)\<rparr>) ptr = (SUCCESS, a', ad')"
    using assms ne by (auto simp: validate_recv_frame_def Let_def split: if_splits)
  have r: "ret \<noteq> FAIL" "ret \<noteq> RTW_RX_HANDLED"
    using d h ne hs by (auto simp: validate_recv_data_frame_def parsed_def Let_def)
  obtain i where i: "psta = Some i"
    using d h r ne by (cases psta) (auto simp: validate_recv_data_frame_def parsed_def Let_def)
  obtain a2 ad2 where q: "parse_qc ad1 (a1\<lparr>at_psta := Some i, at_preorder := None\<rparr>) ptr (if get_tofr_ds ptr = 3 then 6 else 0) = (a2, ad2)"
    by fastforce
  obtain ok a3 ad3 where p: "drop_repeats ad2 a2 ptr i = (ok, a3, ad3)" by (metis prod_cases3)
  have e: "validate_recv_data_frame ad (a\<lparr>at_to_fr_ds := get_tofr_ds ptr, at_frag_num := GetFragNum ptr, at_seq_num := GetSequence ptr,
      at_pw_save := GetPwrMgt ptr, at_mfrag := GetMFrag ptr, at_mdata := GetMData ptr, at_privacy := GetPrivacy ptr, at_order := GetOrder ptr,
      at_qos := (get_frame_sub_type ptr AND 0x80 \<noteq> 0)\<rparr>) ptr =
      (if ss_flags (ad_sec ad1 i) AND WLAN_STA_AMSDU_DISABLE \<noteq> 0 \<and> at_amsdu a1 then (FAIL, a1, ad1)
       else if \<not> ok then (FAIL, a3, ad3)
       else if drop_unprotected ad3 (set_encrypt ad3 a3 i) ptr i then (FAIL, set_encrypt ad3 a3 i, ad3)
       else (SUCCESS, set_encrypt ad3 a3 i, ad3))"
    using h r i q p by (simp add: validate_recv_data_frame_def parsed_def Let_def)
  show thesis using that [OF h [unfolded i] r] d [unfolded e] q p ne by (auto split: if_splits)
qed

lemma parse_qc_frame:
  assumes "parse_qc ad a ptr sh = (a2, ad2)"
  shows "at_hdrlen a2 = 24 + sh + 2 * of_bool (at_qos a) + 4 * of_bool (at_order a)"
    "at_priority a2 = (if at_qos a then GetPriority (drop (24 + sh) ptr) else 0)"
    "at_ra a2 = at_ra a \<and> at_ta a2 = at_ta a \<and> at_dst a2 = at_dst a \<and> at_src a2 = at_src a \<and> at_bssid a2 = at_bssid a \<and>
     at_qos a2 = at_qos a \<and> at_amsdu a2 = at_amsdu a \<and> at_privacy a2 = at_privacy a \<and> at_order a2 = at_order a \<and>
     at_seq_num a2 = at_seq_num a \<and> at_frag_num a2 = at_frag_num a \<and> at_psta a2 = at_psta a"
    "ad_stapriv ad2 = ad_stapriv ad \<and> ad_sec ad2 = ad_sec ad \<and> ad_auth ad2 = ad_auth ad \<and> ad_privacy ad2 = ad_privacy ad \<and>
     ad_mac ad2 = ad_mac ad \<and> ad_fw_state ad2 = ad_fw_state ad"
  using assms by (auto simp: parse_qc_def Let_def WLAN_HDR_A3_LEN_def WLAN_HDR_A3_QOS_LEN_def split: if_splits)

lemma drop_repeats_frame:
  assumes "drop_repeats ad a ptr i = (True, a2, ad2)"
  shows "at_hdrlen a2 = at_hdrlen a \<and> at_priority a2 = at_priority a \<and>
     at_ra a2 = at_ra a \<and> at_ta a2 = at_ta a \<and> at_dst a2 = at_dst a \<and> at_src a2 = at_src a \<and> at_bssid a2 = at_bssid a \<and>
     at_qos a2 = at_qos a \<and> at_amsdu a2 = at_amsdu a \<and> at_privacy a2 = at_privacy a \<and> at_order a2 = at_order a \<and>
     at_seq_num a2 = at_seq_num a \<and> at_frag_num a2 = at_frag_num a \<and> at_psta a2 = at_psta a"
    "ad_auth ad2 = ad_auth ad \<and> ad_privacy ad2 = ad_privacy ad \<and> ad_mac ad2 = ad_mac ad \<and> ad_fw_state ad2 = ad_fw_state ad \<and>
     ss_privacy (ad_sec ad2 j) = ss_privacy (ad_sec ad j) \<and> ss_blocked (ad_sec ad2 j) = ss_blocked (ad_sec ad j)"
    "fst (recv_decache (stas (ad_stapriv ad) ! i) (at_qos a) (IS_MCAST (at_ra a)) (at_priority a) (at_seq_num a) (at_frag_num a))"
    "ad_stapriv ad2 = upd_sta i (\<lambda>_. snd (recv_decache (stas (ad_stapriv ad) ! i) (at_qos a) (IS_MCAST (at_ra a)) (at_priority a)
       (at_seq_num a) (at_frag_num a))) (ad_stapriv ad)"
  using assms by (auto simp: drop_repeats_def Let_def split: if_splits prod.splits)

text \<open>Destination and source of a frame, from the table of the 802.11 standard.\<close>

definition frame_da :: "bytes \<Rightarrow> bytes" where
  "frame_da ptr = (if GetToDs ptr then GetAddr3Ptr ptr else GetAddr1Ptr ptr)"

definition frame_sa :: "bytes \<Rightarrow> bytes" where
  "frame_sa ptr = (if GetFrDs ptr then if GetToDs ptr then GetAddr4Ptr ptr else GetAddr3Ptr ptr else get_addr2_ptr ptr)"

lemma hdr_accept:
  assumes "validate_hdr ad a ptr = (ret, psta, a', ad')" "ret \<noteq> FAIL" "ret \<noteq> RTW_RX_HANDLED"
  shows "at_ra a' = GetAddr1Ptr ptr" "at_ta a' = get_addr2_ptr ptr"
    "MLME_IS_AP ad \<or> MLME_IS_STA ad \<Longrightarrow> psta = rtw_get_stainfo (ad_stapriv ad) (get_addr2_ptr ptr)"
    "MLME_IS_AP ad \<or> MLME_IS_STA ad \<Longrightarrow> at_to_fr_ds a = get_tofr_ds ptr \<Longrightarrow> at_dst a' = frame_da ptr \<and> at_src a' = frame_sa ptr"
    "MLME_IS_AP ad \<Longrightarrow> at_to_fr_ds a = 1 \<or> at_to_fr_ds a = 3"
    "\<not> MLME_IS_AP ad \<Longrightarrow> MLME_IS_STA ad \<Longrightarrow> at_to_fr_ds a \<noteq> 1"
    "\<not> MLME_IS_AP ad \<Longrightarrow> MLME_IS_STA ad \<Longrightarrow> at_amsdu a \<or> at_to_fr_ds a = 0 \<or> at_src a' \<noteq> ad_mac ad"
  using assms
  by (auto simp: validate_hdr_def rtw_sta_rx_data_validate_hdr_def rtw_ap_rx_data_validate_hdr_def other_data_frame_def
      sta2sta_data_frame_def ap2sta_data_frame_def sta2ap_data_frame_def mp_data_frame_def frame_da_def frame_sa_def tofr_ds_iff tofr_ds_iff(3) [unfolded One_nat_def] Let_def
      split: if_splits option.splits)

lemma success_facts:
  assumes "validate_recv_frame ad a ptr = (SUCCESS, a', ad')"
  shows "at_ra a' = GetAddr1Ptr ptr" and "at_ta a' = get_addr2_ptr ptr" and "at_privacy a' = GetPrivacy ptr"
    and "at_amsdu a' = at_amsdu (parsed a ptr)" and "at_qos a' = at_qos (parsed a ptr)"
    and "at_hdrlen a' = 24 + 6 * of_bool (GetToDs ptr \<and> GetFrDs ptr) + 2 * of_bool (at_qos a') + 4 * of_bool (GetOrder ptr)"
    and "\<exists>i. at_psta a' = Some i \<and> \<not> drop_unprotected ad' a' ptr i \<and>
      (MLME_IS_AP ad \<or> MLME_IS_STA ad \<longrightarrow> rtw_get_stainfo (ad_stapriv ad) (get_addr2_ptr ptr) = Some i \<and>
        at_dst a' = frame_da ptr \<and> at_src a' = frame_sa ptr)"
    and "ad_auth ad' = ad_auth ad" and "ad_privacy ad' = ad_privacy ad" and "ad_mac ad' = ad_mac ad" and "ad_fw_state ad' = ad_fw_state ad"
    and "ss_privacy (ad_sec ad' j) = ss_privacy (ad_sec ad j)"
    and "at_iv_len a' = (if GetPrivacy ptr then at_iv_len a' else 0)"
proof -
  obtain ret i a1 ad1 a2 ad2 a3 where
    h: "validate_hdr ad (parsed a ptr) ptr = (ret, Some i, a1, ad1)" "ret \<noteq> FAIL" "ret \<noteq> RTW_RX_HANDLED"
    and q: "parse_qc ad1 (a1\<lparr>at_psta := Some i, at_preorder := None\<rparr>) ptr (if get_tofr_ds ptr = 3 then 6 else 0) = (a2, ad2)"
    and p: "drop_repeats ad2 a2 ptr i = (True, a3, ad')" and e: "a' = set_encrypt ad' a3 i" "\<not> drop_unprotected ad' a' ptr i"
    by (rule validate_success [OF assms]) blast
  note hf = validate_hdr_frame [OF h(1), unfolded hdr_only_def calls_only_def]
  note ha = hdr_accept [OF h]
  note qf = parse_qc_frame [OF q]
  note pf = drop_repeats_frame [OF p]
  have s: "at_hdrlen a' = at_hdrlen a3" "at_ra a' = at_ra a3" "at_ta a' = at_ta a3" "at_dst a' = at_dst a3" "at_src a' = at_src a3"
    "at_privacy a' = at_privacy a3" "at_amsdu a' = at_amsdu a3" "at_qos a' = at_qos a3" "at_psta a' = at_psta a3"
    "at_iv_len a' = (if at_privacy a3 then at_iv_len a' else 0)"
    by (simp_all add: e(1) set_encrypt_def Let_def split: prod.split)
  have par: "at_privacy (parsed a ptr) = GetPrivacy ptr" "at_order (parsed a ptr) = GetOrder ptr" "at_to_fr_ds (parsed a ptr) = get_tofr_ds ptr"
    by (simp_all add: parsed_def)
  show "at_ra a' = GetAddr1Ptr ptr" "at_ta a' = get_addr2_ptr ptr" using s pf(1) qf(3) ha(1,2) by simp_all
  show pr: "at_privacy a' = GetPrivacy ptr" "at_amsdu a' = at_amsdu (parsed a ptr)" "at_qos a' = at_qos (parsed a ptr)"
    using s pf(1) qf(3) hf(1) par(1) by simp_all
  show "at_hdrlen a' = 24 + 6 * of_bool (GetToDs ptr \<and> GetFrDs ptr) + 2 * of_bool (at_qos a') + 4 * of_bool (GetOrder ptr)"
    using s pf(1) qf(1) qf(3) hf(1) par(2) by (simp add: tofr_ds_iff)
  show "\<exists>i. at_psta a' = Some i \<and> \<not> drop_unprotected ad' a' ptr i \<and>
      (MLME_IS_AP ad \<or> MLME_IS_STA ad \<longrightarrow> rtw_get_stainfo (ad_stapriv ad) (get_addr2_ptr ptr) = Some i \<and>
        at_dst a' = frame_da ptr \<and> at_src a' = frame_sa ptr)"
    using s pf(1) qf(3) e(2) ha(3,4) par(3) by (intro exI [of _ i]) auto
  show "ad_auth ad' = ad_auth ad" "ad_privacy ad' = ad_privacy ad" "ad_mac ad' = ad_mac ad" "ad_fw_state ad' = ad_fw_state ad"
    "ss_privacy (ad_sec ad' j) = ss_privacy (ad_sec ad j)"
    using pf(2) qf(4) hf(2) by simp_all
  show "at_iv_len a' = (if GetPrivacy ptr then at_iv_len a' else 0)" using s pr(1) by simp
qed

section \<open>Properties\<close>

text \<open>
  C6. Where encryption is on, nothing that is not encrypted is let through, in any mode and whatever the
  frame holds, with one exception: the EAPOL frames of the 802.1X handshake, as single unicast frames
  and not as aggregates.
\<close>

theorem unprotected_frames_refused:
  assumes "ad_privacy ad \<noteq> NO_PRIVACY" and "validate_recv_frame ad a ptr = (SUCCESS, a', ad')"
  shows "GetPrivacy ptr \<or>
    ad_auth ad = dot11AuthAlgrthm_8021X \<and> \<not> IS_MCAST (GetAddr1Ptr ptr) \<and> \<not> at_amsdu a' \<and>
    RTW_GET_BE16 (drop (at_hdrlen a' + LLC_HEADER_SIZE) ptr) = EAPOL_TYPE"
proof -
  note f = success_facts [OF assms(2)]
  obtain i where "\<not> drop_unprotected ad' a' ptr i" using f(7) by blast
  then show ?thesis using assms(1) f(1,3,8,9,13) by (auto simp: drop_unprotected_def ether_type_of_def Let_def split: if_splits)
qed

text \<open>
  C7. What is known of a data frame that an access point or a station lets through: receiver and transmitter
  are the first two addresses, destination and source those of the table of the standard for
  every combination of the two DS bits; the transmitter has an entry in the station table, which is the
  station of the frame; and the header length counts the fourth address, the QoS field and the
  HT control field that are there. An access point takes only frames towards it, and while a
  station has no key no EAPOL frame of it for somebody else.
\<close>

theorem accepted_frame_attributes:
  assumes "MLME_IS_AP ad \<or> MLME_IS_STA ad" and "validate_recv_frame ad a ptr = (SUCCESS, a', ad')"
  shows "at_ra a' = GetAddr1Ptr ptr \<and> at_ta a' = get_addr2_ptr ptr \<and> at_dst a' = frame_da ptr \<and> at_src a' = frame_sa ptr \<and>
    at_psta a' = rtw_get_stainfo (ad_stapriv ad) (at_ta a') \<and> at_psta a' \<noteq> None \<and>
    at_hdrlen a' = 24 + 6 * of_bool (GetToDs ptr \<and> GetFrDs ptr) + 2 * of_bool (at_qos a') + 4 * of_bool (GetOrder ptr) \<and>
    (MLME_IS_AP ad \<longrightarrow> GetToDs ptr) \<and>
    (MLME_IS_AP ad \<and> ad_privacy ad \<noteq> NO_PRIVACY \<and> ad_auth ad = dot11AuthAlgrthm_8021X \<and> \<not> IS_MCAST (at_ra a') \<and>
      ss_privacy (ad_sec ad (the (at_psta a'))) = NO_PRIVACY \<and> ether_type_of a' ptr = EAPOL_TYPE \<longrightarrow> frame_da ptr = ad_mac ad)"
proof -
  note f = success_facts [OF assms(2)]
  obtain i where i: "at_psta a' = Some i" "\<not> drop_unprotected ad' a' ptr i" "rtw_get_stainfo (ad_stapriv ad) (get_addr2_ptr ptr) = Some i"
    "at_dst a' = frame_da ptr" "at_src a' = frame_sa ptr"
    using f(7) assms(1) by blast
  have ap: "MLME_IS_AP ad' = MLME_IS_AP ad" using f(11) by (simp add: MLME_IS_AP_def check_fwstate_def)
  have "GetToDs ptr" if "MLME_IS_AP ad"
  proof -
    obtain ret j a1 ad1 where "validate_hdr ad (parsed a ptr) ptr = (ret, Some j, a1, ad1)" "ret \<noteq> FAIL" "ret \<noteq> RTW_RX_HANDLED"
      by (rule validate_success [OF assms(2)]) blast
    from hdr_accept(5) [OF this that] show ?thesis by (auto simp: parsed_def tofr_ds_iff tofr_ds_iff(3) [unfolded One_nat_def])
  qed
  moreover have "frame_da ptr = ad_mac ad" if "MLME_IS_AP ad" "ad_privacy ad \<noteq> NO_PRIVACY" "ad_auth ad = dot11AuthAlgrthm_8021X"
    "\<not> IS_MCAST (at_ra a')" "ss_privacy (ad_sec ad (the (at_psta a'))) = NO_PRIVACY" "ether_type_of a' ptr = EAPOL_TYPE"
    using that i f(8-10,12) ap by (auto simp: drop_unprotected_def Let_def split: if_splits)
  ultimately show ?thesis using f(1,2,6) i by auto
qed

text \<open>A frame of the station of the example table, encrypted and towards the access point.\<close>

definition example_adapter :: rx_adapter where
  "example_adapter =
     \<lparr>ad_fw_state = WIFI_AP_STATE OR WIFI_ASOC_STATE, ad_mac = [4, 0, 0, 0, 0, 0], ad_mybssid = [4, 0, 0, 0, 0, 0],
      ad_auth = dot11AuthAlgrthm_8021X, ad_privacy = ENC_AES, ad_grp_privacy = ENC_AES, ad_stapriv = snd example_alloc,
      ad_sec = (\<lambda>_. \<lparr>ss_flags = 0, ss_privacy = ENC_AES, ss_blocked = False,
         ss_rxcache = \<lparr>rc_iv = replicate 16 (replicate 8 0), rc_last_tid = 0\<rparr>\<rparr>),
      ad_iv_seq = replicate 4 0, ad_radar = False, ad_deauth_due = True, ad_deauth_due' = True, ad_non_be = False, ad_events = []\<rparr>"

definition example_attrib :: rx_attrib where
  "example_attrib =
     \<lparr>at_to_fr_ds = 0, at_amsdu = False, at_qos = False, at_priority = 0, at_ack_policy = 0, at_hdrlen = 0, at_seq_num = 0,
      at_frag_num = 0, at_pw_save = False, at_mfrag = False, at_mdata = False, at_privacy = False, at_order = False, at_encrypt = 0,
      at_iv_len = 0, at_icv_len = 0, at_dst = [], at_src = [], at_ta = [], at_ra = [], at_bssid = [], at_psta = None, at_preorder = None\<rparr>"

definition example_frame :: bytes where
  "example_frame = [0x88, 0x41, 0, 0] @ [4, 0, 0, 0, 0, 0] @ example_mac @ [6, 0, 0, 0, 0, 0] @ [0x10, 0] @ [3, 0] @
     [1, 0, 0, 0x20, 0, 0, 0, 0] @ replicate 30 7"

lemma example_lookup: "rtw_get_stainfo (snd example_alloc) example_mac = Some 0"
  "stas (snd example_alloc) ! 0 = new_sta example_mac"
proof -
  have "free_sta_queue example_table = 0 # [1..<NUM_STA]" "stas example_table = replicate NUM_STA init_stainfo"
    by (simp_all add: example_table_def rtw_init_sta_priv_def Let_def NUM_STA_def upt_rec)
  then have a: "rtw_alloc_stainfo example_table example_mac = (Some 0, snd example_alloc)" "stas (snd example_alloc) ! 0 = new_sta example_mac"
    using mac_hash_bound [of example_mac] by (simp_all add: example_alloc_def rtw_alloc_stainfo_def Let_def NUM_STA_def)
  have "rtw_get_stainfo example_table example_mac = None"
    using mac_hash_bound by (simp add: rtw_get_stainfo_def get_stainfo_def example_table_def rtw_init_sta_priv_def Let_def)
  then show "rtw_get_stainfo (snd example_alloc) example_mac = Some 0"
    using lookup_facts(2) [OF example_reach(1) a(1)] by (simp add: example_mac_def)
  show "stas (snd example_alloc) ! 0 = new_sta example_mac" by (rule a(2))
qed

lemma example_success:
  "validate_recv_frame example_adapter example_attrib example_frame =
     (SUCCESS, fst (snd (validate_recv_frame example_adapter example_attrib example_frame)),
      snd (snd (validate_recv_frame example_adapter example_attrib example_frame)))"
proof -
  have fr: "example_frame ! 0 AND 0x3 = 0" "GetFrameType example_frame = ucast WIFI_DATA_TYPE" "get_frame_sub_type example_frame = 0x88"
    "get_tofr_ds example_frame = 1" "GetAddr1Ptr example_frame = [4, 0, 0, 0, 0, 0]" "get_addr2_ptr example_frame = example_mac"
    "GetPrivacy example_frame" "\<not> GetOrder example_frame" "\<not> GetPwrMgt example_frame" "\<not> GetAMsdu (drop 24 example_frame)"
    "GetPriority (drop 24 example_frame) = 3" "GetSequence example_frame = 1" "GetFragNum example_frame = 0"
    "drop 26 example_frame = [1, 0, 0, 0x20, 0, 0, 0, 0] @ replicate 30 7"
    by (simp_all add: example_frame_def example_mac_def GetFrameType_def get_frame_sub_type_def get_tofr_ds_def GetFrDs_def GetToDs_def
        GetAddr1Ptr_def get_addr2_ptr_def GetPrivacy_def GetOrder_def GetPwrMgt_def GetAMsdu_def GetPriority_def GetSequence_def
        GetFragNum_def RTW_GET_LE16_def WIFI_DATA_TYPE_def)
  have ad: "MLME_IS_AP example_adapter" "ad_fw_state example_adapter AND WIFI_ASOC_STATE \<noteq> 0" "\<not> IS_MCAST [4, 0, 0, 0, 0, 0]"
    "ad_stapriv example_adapter = snd example_alloc" "sta_state (new_sta example_mac) = 0"
    "ss_flags (ad_sec example_adapter 0) = 0" "ss_privacy (ad_sec example_adapter 0) = ENC_AES"
    by (simp_all add: example_adapter_def MLME_IS_AP_def check_fwstate_def WIFI_AP_STATE_def WIFI_ASOC_STATE_def IS_MCAST_def new_sta_def init_stainfo_def)
  define a1 where "a1 = (parsed example_attrib example_frame)\<lparr>at_ra := [4, 0, 0, 0, 0, 0], at_ta := example_mac,
    at_dst := GetAddr3Ptr example_frame, at_src := example_mac, at_bssid := [4, 0, 0, 0, 0, 0]\<rparr>"
  have p: "at_to_fr_ds (parsed example_attrib example_frame) = 1" "at_qos (parsed example_attrib example_frame)"
    "\<not> at_amsdu (parsed example_attrib example_frame)"
    by (simp_all add: parsed_def fr WLAN_HDR_A3_LEN_def)
  have h: "validate_hdr example_adapter (parsed example_attrib example_frame) example_frame = (SUCCESS, Some 0, a1, example_adapter)"
    using ad fr p example_lookup
    by (simp add: validate_hdr_def rtw_ap_rx_data_validate_hdr_def process_pwrbit_data_def process_wmmps_data_def Let_def a1_def)
  have q: "parse_qc example_adapter (a1\<lparr>at_psta := Some 0, at_preorder := None\<rparr>) example_frame 0 =
      (a1\<lparr>at_psta := Some 0, at_preorder := None, at_priority := 3, at_ack_policy := GetAckpolicy (drop 24 example_frame), at_hdrlen := 26\<rparr>,
       example_adapter\<lparr>ad_non_be := False\<rparr>)"
    using fr p by (simp add: parse_qc_def Let_def a1_def parsed_def WLAN_HDR_A3_LEN_def WLAN_HDR_A3_QOS_LEN_def)
  define a2 where "a2 = a1\<lparr>at_psta := Some 0, at_preorder := None, at_priority := 3, at_ack_policy := GetAckpolicy (drop 24 example_frame), at_hdrlen := 26\<rparr>"
  define ad2 where "ad2 = example_adapter\<lparr>ad_non_be := False\<rparr>"
  have a2: "at_ra a2 = [4, 0, 0, 0, 0, 0]" "at_qos a2" "at_priority a2 = 3" "at_seq_num a2 = 1" "at_frag_num a2 = 0" "at_hdrlen a2 = 26"
    "at_encrypt a2 = 0" "at_privacy a2" "\<not> at_amsdu a2"
    using fr p by (simp_all add: a2_def a1_def parsed_def example_attrib_def)
  have ad2: "ad_stapriv ad2 = snd example_alloc" "ad_privacy ad2 = ENC_AES" "ad_auth ad2 = dot11AuthAlgrthm_8021X" "\<And>i. ss_privacy (ad_sec ad2 i) = ENC_AES"
    by (simp_all add: ad2_def example_adapter_def)
  have "fst (recv_decache (new_sta example_mac) True False 3 1 0)"
    by (simp add: recv_decache_def get_rxseq_def new_sta_def init_stainfo_def seq_ctrl_of_def Let_def)
  moreover have "recv_ucast_pn_decache rc 3 0 iv = (True, rc)" for rc iv
    by (simp add: recv_ucast_pn_decache_def rtw_iv_to_pn_def ENC_TKIP_def ENC_AES_def ENC_GCMP_def ENC_CCMP_256_def ENC_GCMP_256_def)
  ultimately have "fst (drop_repeats ad2 a2 example_frame 0)"
    using a2 ad(3) ad2(1) example_lookup(2) by (simp add: drop_repeats_def Let_def case_prod_unfold)
  then obtain a3 ad3 where r: "drop_repeats ad2 a2 example_frame 0 = (True, a3, ad3)" by (metis prod.collapse)
  note rf = drop_repeats_frame [OF r]
  have "\<not> drop_unprotected ad3 (set_encrypt ad3 a3 0) example_frame 0"
    using rf(1,2) a2 ad2 ad(3) by (simp add: drop_unprotected_def set_encrypt_def Let_def NO_PRIVACY_def ENC_AES_def split: prod.split)
  then show ?thesis
    using fr h q r ad(6) p
    by (simp add: validate_recv_frame_def validate_recv_data_frame_def Let_def parsed_def WLAN_HDR_A3_LEN_def FAIL_def SUCCESS_def RTW_RX_HANDLED_def
        a2_def [symmetric] ad2_def [symmetric])
qed

theorem unprotected_frames_refused_witness:
  "ad_privacy example_adapter \<noteq> NO_PRIVACY \<and>
   (GetPrivacy example_frame \<or> ad_auth example_adapter = dot11AuthAlgrthm_8021X \<and> \<not> IS_MCAST (GetAddr1Ptr example_frame) \<and>
     \<not> at_amsdu (fst (snd (validate_recv_frame example_adapter example_attrib example_frame))) \<and>
     RTW_GET_BE16 (drop (at_hdrlen (fst (snd (validate_recv_frame example_adapter example_attrib example_frame))) + LLC_HEADER_SIZE) example_frame) = EAPOL_TYPE)"
proof -
  have "ad_privacy example_adapter \<noteq> NO_PRIVACY" by (simp add: example_adapter_def NO_PRIVACY_def ENC_AES_def)
  then show ?thesis using unprotected_frames_refused [OF _ example_success] by blast
qed

theorem accepted_frame_attributes_witness:
  "at_ta (fst (snd (validate_recv_frame example_adapter example_attrib example_frame))) = example_mac \<and>
   at_psta (fst (snd (validate_recv_frame example_adapter example_attrib example_frame))) = Some 0"
proof -
  have "MLME_IS_AP example_adapter"
    by (simp add: example_adapter_def MLME_IS_AP_def check_fwstate_def WIFI_AP_STATE_def WIFI_ASOC_STATE_def)
  moreover have "get_addr2_ptr example_frame = example_mac" by (simp add: get_addr2_ptr_def example_frame_def example_mac_def)
  moreover have "ad_stapriv example_adapter = snd example_alloc" by (simp add: example_adapter_def)
  ultimately show ?thesis using accepted_frame_attributes [OF _ example_success] example_lookup(1) by simp
qed

lemma recv_decache_again:
  assumes "fst (recv_decache sta qos mcast tid seq frag)" "length (tid_rxseq sta) = 16" "length (bmc_tid_rxseq sta) = 16"
  shows "\<not> fst (recv_decache (snd (recv_decache sta qos mcast tid seq frag)) qos mcast tid seq frag)"
  using assms by (auto simp: recv_decache_def Let_def get_rxseq_def set_rxseq_def split: if_splits)

lemma recv_decache_mac: "mac_addr (snd (recv_decache sta qos mcast tid seq frag)) = mac_addr sta"
  by (simp add: recv_decache_def set_rxseq_def Let_def)

lemma get_stainfo_upd:
  assumes "mac_addr x = mac_addr (stas s ! i)"
  shows "rtw_get_stainfo (s\<lparr>stas := (stas s)[i := x]\<rparr>) a = rtw_get_stainfo s a"
proof -
  have "mac_addr ((stas s)[i := x] ! j) = mac_addr (stas s ! j)" for j using upd_sta_mac [of "\<lambda>_. x" s i j] assms by simp
  then show ?thesis by (simp add: rtw_get_stainfo_def get_stainfo_def Let_def)
qed

text \<open>The duplicate check of the frame \<open>ptr\<close>, as a function of the station.\<close>

definition frame_decache :: "bytes \<Rightarrow> sta_info \<Rightarrow> bool \<times> sta_info" where
  "frame_decache ptr sta =
     (let qos = (get_frame_sub_type ptr AND 0x80 \<noteq> 0)
      in recv_decache sta qos (IS_MCAST (GetAddr1Ptr ptr))
        (if qos then GetPriority (drop (24 + (if get_tofr_ds ptr = 3 then 6 else 0)) ptr) else 0) (GetSequence ptr) (GetFragNum ptr))"

lemma success_recorded:
  assumes "validate_recv_frame ad a ptr = (SUCCESS, a', ad')" and "MLME_IS_AP ad \<or> MLME_IS_STA ad"
  obtains i where "rtw_get_stainfo (ad_stapriv ad) (get_addr2_ptr ptr) = Some i" "at_psta a' = Some i"
    "fst (frame_decache ptr (stas (ad_stapriv ad) ! i))"
    "ad_stapriv ad' = upd_sta i (\<lambda>_. snd (frame_decache ptr (stas (ad_stapriv ad) ! i))) (ad_stapriv ad)"
    "\<And>x. rtw_get_stainfo (ad_stapriv ad') x = rtw_get_stainfo (ad_stapriv ad) x"
    "\<And>j. ss_blocked (ad_sec ad' j) = ss_blocked (ad_sec ad j)"
proof -
  obtain ret i a1 ad1 a2 ad2 a3 where
    h: "validate_hdr ad (parsed a ptr) ptr = (ret, Some i, a1, ad1)" "ret \<noteq> FAIL" "ret \<noteq> RTW_RX_HANDLED"
    and q: "parse_qc ad1 (a1\<lparr>at_psta := Some i, at_preorder := None\<rparr>) ptr (if get_tofr_ds ptr = 3 then 6 else 0) = (a2, ad2)"
    and p: "drop_repeats ad2 a2 ptr i = (True, a3, ad')" and e: "a' = set_encrypt ad' a3 i"
    by (rule validate_success [OF assms(1)]) blast
  note hf = validate_hdr_frame [OF h(1), unfolded hdr_only_def calls_only_def]
  note qf = parse_qc_frame [OF q]
  note pf = drop_repeats_frame [OF p]
  have "recv_decache sta (at_qos a2) (IS_MCAST (at_ra a2)) (at_priority a2) (at_seq_num a2) (at_frag_num a2) = frame_decache ptr sta" for sta
    using qf(2,3) hf(1) hdr_accept(1) [OF h] by (simp add: frame_decache_def parsed_def Let_def)
  moreover have "ad_stapriv ad2 = ad_stapriv ad" using qf(4) hf(2) by simp
  ultimately have rec: "fst (frame_decache ptr (stas (ad_stapriv ad) ! i))"
    "ad_stapriv ad' = upd_sta i (\<lambda>_. snd (frame_decache ptr (stas (ad_stapriv ad) ! i))) (ad_stapriv ad)"
    using pf(3,4) by simp_all
  have "mac_addr (snd (frame_decache ptr sta)) = mac_addr sta" for sta by (simp only: frame_decache_def Let_def recv_decache_mac)
  then have "rtw_get_stainfo (ad_stapriv ad') x = rtw_get_stainfo (ad_stapriv ad) x" for x
    unfolding rec(2) by (subst get_stainfo_upd) simp_all
  moreover have "at_psta a' = Some i" using pf(1) qf(3) by (simp add: e set_encrypt_def Let_def split: prod.split)
  moreover have "ss_blocked (ad_sec ad' j) = ss_blocked (ad_sec ad j)" for j using pf(2) qf(4) hf(2) by simp
  ultimately show thesis using that [of i] rec hdr_accept(3) [OF h assms(2)] by simp
qed

text \<open>
  C8. A data frame that was let through is refused when it arrives again right behind: whatever the rest of
  the attributes, the sequence and fragment numbers of its station and traffic class have been recorded.
\<close>

theorem repeated_frame_refused:
  assumes "MLME_IS_AP ad \<or> MLME_IS_STA ad" and "sta_wf (ad_stapriv ad)"
    and "\<forall>sta \<in> set (stas (ad_stapriv ad)). length (tid_rxseq sta) = 16 \<and> length (bmc_tid_rxseq sta) = 16"
    and "validate_recv_frame ad a ptr = (SUCCESS, a', ad')"
  shows "fst (validate_recv_frame ad' b ptr) \<noteq> SUCCESS"
proof
  assume "fst (validate_recv_frame ad' b ptr) = SUCCESS"
  then obtain b' ad'' where again: "validate_recv_frame ad' b ptr = (SUCCESS, b', ad'')" by (metis prod.collapse)
  have mode: "MLME_IS_AP ad' \<or> MLME_IS_STA ad'"
    using assms(1) success_facts(11) [OF assms(4)] by (simp add: MLME_IS_AP_def MLME_IS_STA_def check_fwstate_def)
  obtain i where i: "rtw_get_stainfo (ad_stapriv ad) (get_addr2_ptr ptr) = Some i" "fst (frame_decache ptr (stas (ad_stapriv ad) ! i))"
    "ad_stapriv ad' = upd_sta i (\<lambda>_. snd (frame_decache ptr (stas (ad_stapriv ad) ! i))) (ad_stapriv ad)"
    "\<And>x. rtw_get_stainfo (ad_stapriv ad') x = rtw_get_stainfo (ad_stapriv ad) x"
    by (rule success_recorded [OF assms(4,1)]) blast
  obtain j where j: "rtw_get_stainfo (ad_stapriv ad') (get_addr2_ptr ptr) = Some j" "fst (frame_decache ptr (stas (ad_stapriv ad') ! j))"
    by (rule success_recorded [OF again mode]) blast
  have len: "i < length (stas (ad_stapriv ad))" by (rule get_stainfo_bound [OF assms(2) i(1)])
  then have "fst (frame_decache ptr (snd (frame_decache ptr (stas (ad_stapriv ad) ! i))))" using i(1,4) j by (simp add: i(3))
  then show False
    using recv_decache_again [OF i(2) [unfolded frame_decache_def Let_def]] assms(3) len by (simp add: frame_decache_def Let_def)
qed

theorem repeated_frame_refused_witness:
  "fst (validate_recv_frame (snd (snd (validate_recv_frame example_adapter example_attrib example_frame))) example_attrib example_frame) \<noteq> SUCCESS"
proof -
  have m: "MLME_IS_AP example_adapter"
    by (simp add: example_adapter_def MLME_IS_AP_def check_fwstate_def WIFI_AP_STATE_def WIFI_ASOC_STATE_def)
  have s: "ad_stapriv example_adapter = snd example_alloc" by (simp add: example_adapter_def)
  have "stas (snd example_alloc) = (replicate NUM_STA init_stainfo)[0 := new_sta example_mac]"
    using mac_hash_bound [of example_mac]
    by (simp add: example_alloc_def example_table_def rtw_init_sta_priv_def rtw_alloc_stainfo_def Let_def NUM_STA_def upt_rec)
  moreover have "sta = new_sta example_mac \<or> sta = init_stainfo" if "sta \<in> set ((replicate NUM_STA init_stainfo)[0 := new_sta example_mac])" for sta
    using that set_update_subset_insert [of "replicate NUM_STA init_stainfo" 0 "new_sta example_mac"] by auto
  moreover have "length (tid_rxseq sta) = 16 \<and> length (bmc_tid_rxseq sta) = 16" if "sta = new_sta example_mac \<or> sta = init_stainfo" for sta
    using that by (auto simp: new_sta_def init_stainfo_def)
  ultimately have l: "\<forall>sta \<in> set (stas (ad_stapriv example_adapter)). length (tid_rxseq sta) = 16 \<and> length (bmc_tid_rxseq sta) = 16"
    unfolding s by metis
  have "sta_wf (ad_stapriv example_adapter)" unfolding s by (rule reach_wf [OF example_reach(2)])
  then show ?thesis using repeated_frame_refused [OF _ _ l example_success] m by blast
qed

section \<open>The controlled port\<close>

text \<open>
  While the port of a station is blocked under 802.1X, of its frames only EAPOL passes; without
  802.1X, or once the port is open, everything that was let through passes.
\<close>

lemma blocked_port_passes_only_eapol:
  assumes "MLME_IS_AP ad \<or> MLME_IS_STA ad" and "validate_recv_frame ad a ptr = (SUCCESS, a', ad')"
  shows "portctrl ad' a' ptr \<longleftrightarrow>
    (ad_auth ad = dot11AuthAlgrthm_8021X \<and> ss_blocked (ad_sec ad (the (at_psta a'))) \<longrightarrow> ether_type_of a' ptr = EAPOL_TYPE)"
  by (rule success_recorded [OF assms(2,1)])
    (use success_facts(2,8) [OF assms(2)] in \<open>auto simp: portctrl_def split: dot11AuthAlgrthm.split\<close>)

lemma blocked_port_passes_only_eapol_witness:
  "portctrl (snd (snd (validate_recv_frame example_adapter example_attrib example_frame)))
     (fst (snd (validate_recv_frame example_adapter example_attrib example_frame))) example_frame"
proof -
  have "MLME_IS_AP example_adapter"
    by (simp add: example_adapter_def MLME_IS_AP_def check_fwstate_def WIFI_AP_STATE_def WIFI_ASOC_STATE_def)
  then show ?thesis using blocked_port_passes_only_eapol [OF _ example_success] by (simp add: example_adapter_def)
qed

end
