(* ===== verification/Power_Save.thy ===== *)
theory Power_Save
  imports Data_Frames Info_Elements
begin

unbundle bit_operations_syntax

text \<open>
  Transmission of an access point to stations that save power, after \<^verbatim>\<open>core/rtw_xmit.c\<close>, with the parts of
  \<^verbatim>\<open>core/rtw_ap.c\<close>, \<^verbatim>\<open>core/rtw_recv.c\<close>, \<^verbatim>\<open>core/rtw_wlan_util.c\<close>, \<^verbatim>\<open>hal/hal_intf.c\<close> and \<^verbatim>\<open>hal/rtl8822c/usb\<close> that belong to it:
  the queues of a station towards the hardware, the frames buffered while it sleeps, the traffic
  indication map, and what a PS-Poll, a trigger frame or waking up releases.

  A pointer to a frame is its number, a pointer to a station its index in the pool of \<open>Stations\<close>, whose
  entries hold the queues. Queues 0 to 4 are voice, video, best effort, background and management.
  \<open>tx_out\<close> are the frames handed to the hardware at once, in that order; the calls into other parts of
  the driver are recorded in \<open>tx_calls\<close>. Locks only bracket the operations; TDLS and mesh are compiled
  out. \<^verbatim>\<open>rtw_free_xmitframe\<close> has two pools, which are one here.
\<close>

section \<open>State\<close>

definition QSLT_HIGH :: u8 where "QSLT_HIGH = 0x11"
definition RTW_QUEUE_MGMT :: nat where "RTW_QUEUE_MGMT = 14"
definition HWXMIT_ENTRY :: nat where "HWXMIT_ENTRY = 5"
definition HIQ_XMIT_COUNTS :: nat where "HIQ_XMIT_COUNTS = 6"
definition RTW_HIQ_FILTER_ALLOW_ALL :: nat where "RTW_HIQ_FILTER_ALLOW_ALL = 0"
definition RTW_HIQ_FILTER_ALLOW_SPECIAL :: nat where "RTW_HIQ_FILTER_ALLOW_SPECIAL = 1"

record tx_attrib =
  xa_ra :: bytes
  xa_psta :: "nat option"
  xa_priority :: nat
  xa_ether_type :: u16
  xa_dhcp :: bool
  xa_ps_dontq :: bool
  xa_triggered :: bool
  xa_mdata :: bool
  xa_eosp :: bool
  xa_qsel :: u8

datatype tx_request = Update_beacon | Chk_bmc_sleepq_cmd | Issue_nulldata bytes | Process_bar

datatype DEQUEUE_TYPE = UNI_BMC_DATA | UNI_MGMT | ALL_FRAME

record tx_adapter =
  tx_stapriv :: sta_priv
  tx_attr :: "nat \<Rightarrow> tx_attrib"
  tx_ap :: bool
  tx_mac :: bytes
  tx_wifi_spec :: bool
  tx_hiq_filter :: nat
  tx_wmm_para_seq :: "nat list"
  tx_expire_to :: u32
  tx_drop :: u64
  tx_out :: "nat list"
  tx_calls :: "tx_request list"

definition sta_of :: "tx_adapter \<Rightarrow> nat \<Rightarrow> sta_info" where
  "sta_of ad i = stas (tx_stapriv ad) ! i"

definition set_sta :: "nat \<Rightarrow> (sta_info \<Rightarrow> sta_info) \<Rightarrow> tx_adapter \<Rightarrow> tx_adapter" where
  "set_sta i g ad = ad\<lparr>tx_stapriv := upd_sta i g (tx_stapriv ad)\<rparr>"

definition set_attr :: "nat \<Rightarrow> (tx_attrib \<Rightarrow> tx_attrib) \<Rightarrow> tx_adapter \<Rightarrow> tx_adapter" where
  "set_attr f g ad = ad\<lparr>tx_attr := (tx_attr ad)(f := g (tx_attr ad f))\<rparr>"

definition tx_call :: "tx_request \<Rightarrow> tx_adapter \<Rightarrow> tx_adapter" where
  "tx_call c ad = ad\<lparr>tx_calls := tx_calls ad @ [c]\<rparr>"

section \<open>The traffic indication map\<close>

text \<open>The maps have a bit for each association identifier, passed as a byte; bit 0 stands for group frames.\<close>

definition rtw_bmp_not_empty :: "bytes \<Rightarrow> nat \<Rightarrow> bool" where
  "rtw_bmp_not_empty bmp bmp_len = list_ex (\<lambda>b. b \<noteq> 0) (take bmp_len bmp)"

definition rtw_bmp_not_empty_exclude_bit0 :: "bytes \<Rightarrow> nat \<Rightarrow> bool" where
  "rtw_bmp_not_empty_exclude_bit0 bmp bmp_len =
     (case take bmp_len bmp of [] \<Rightarrow> False | b # bs \<Rightarrow> b AND 0xFE \<noteq> 0 \<or> list_ex (\<lambda>b. b \<noteq> 0) bs)"

definition tim_is_set :: "tx_adapter \<Rightarrow> nat \<Rightarrow> bool" where
  "tim_is_set ad aid = rtw_bmp_is_set (tim_bitmap (tx_stapriv ad)) (aid_bmp_len (tx_stapriv ad)) (aid mod 256)"

definition tim_set :: "nat \<Rightarrow> tx_adapter \<Rightarrow> tx_adapter" where
  "tim_set aid ad = ad\<lparr>tx_stapriv := (tx_stapriv ad)
     \<lparr>tim_bitmap := rtw_bmp_set (tim_bitmap (tx_stapriv ad)) (aid_bmp_len (tx_stapriv ad)) (aid mod 256)\<rparr>\<rparr>"

definition tim_clear :: "nat \<Rightarrow> tx_adapter \<Rightarrow> tx_adapter" where
  "tim_clear aid ad = ad\<lparr>tx_stapriv := (tx_stapriv ad)
     \<lparr>tim_bitmap := rtw_bmp_clear (tim_bitmap (tx_stapriv ad)) (aid_bmp_len (tx_stapriv ad)) (aid mod 256)\<rparr>\<rparr>"

definition dz_is_set :: "tx_adapter \<Rightarrow> nat \<Rightarrow> bool" where
  "dz_is_set ad aid = rtw_bmp_is_set (sta_dz_bitmap (tx_stapriv ad)) (aid_bmp_len (tx_stapriv ad)) (aid mod 256)"

definition dz_set :: "nat \<Rightarrow> tx_adapter \<Rightarrow> tx_adapter" where
  "dz_set aid ad = ad\<lparr>tx_stapriv := (tx_stapriv ad)
     \<lparr>sta_dz_bitmap := rtw_bmp_set (sta_dz_bitmap (tx_stapriv ad)) (aid_bmp_len (tx_stapriv ad)) (aid mod 256)\<rparr>\<rparr>"

definition dz_clear :: "nat \<Rightarrow> tx_adapter \<Rightarrow> tx_adapter" where
  "dz_clear aid ad = ad\<lparr>tx_stapriv := (tx_stapriv ad)
     \<lparr>sta_dz_bitmap := rtw_bmp_clear (sta_dz_bitmap (tx_stapriv ad)) (aid_bmp_len (tx_stapriv ad)) (aid mod 256)\<rparr>\<rparr>"

definition dz_anyone :: "tx_adapter \<Rightarrow> bool" where
  "dz_anyone ad = rtw_bmp_not_empty (sta_dz_bitmap (tx_stapriv ad)) (aid_bmp_len (tx_stapriv ad))"

definition dz_anyone_exclude_aid0 :: "tx_adapter \<Rightarrow> bool" where
  "dz_anyone_exclude_aid0 ad = rtw_bmp_not_empty_exclude_bit0 (sta_dz_bitmap (tx_stapriv ad)) (aid_bmp_len (tx_stapriv ad))"

section \<open>Queues towards the hardware\<close>

definition rtw_get_sta_pending :: "nat \<Rightarrow> nat" where
  "rtw_get_sta_pending up =
     (if up = 1 \<or> up = 2 then 3 else if up = 4 \<or> up = 5 then 1 else if up = 6 \<or> up = 7 then 0 else 2)"

definition rtw_free_xmitframe :: "nat \<Rightarrow> tx_adapter \<Rightarrow> tx_adapter" where
  "rtw_free_xmitframe f ad =
     ad\<lparr>tx_stapriv := (tx_stapriv ad)\<lparr>free_xmit_frames := free_xmit_frames (tx_stapriv ad) @ [f]\<rparr>\<rparr>"

definition rtw_alloc_xmitframe :: "tx_adapter \<Rightarrow> nat option \<times> tx_adapter" where
  "rtw_alloc_xmitframe ad =
     (case free_xmit_frames (tx_stapriv ad) of [] \<Rightarrow> (None, ad)
      | f # fs \<Rightarrow> (Some f, ad\<lparr>tx_stapriv := (tx_stapriv ad)\<lparr>free_xmit_frames := fs\<rparr>\<rparr>))"

text \<open>Putting a frame in queue \<open>ac\<close> of station \<open>i\<close>, and the station in the list of those with frames in it.\<close>

definition pend_frame :: "nat \<Rightarrow> nat \<Rightarrow> nat \<Rightarrow> tx_adapter \<Rightarrow> tx_adapter" where
  "pend_frame i ac f ad =
     (let s = tx_stapriv ad;
          s = (if i \<in> set (hw_pending s ! ac) then s else s\<lparr>hw_pending := (hw_pending s)[ac := hw_pending s ! ac @ [i]]\<rparr>);
          s = upd_sta i (\<lambda>x. x\<lparr>ac_pending := (ac_pending x)[ac := ac_pending x ! ac @ [f]],
                               ac_qcnt := (ac_qcnt x)[ac := ac_qcnt x ! ac + 1]\<rparr>) s
      in ad\<lparr>tx_stapriv := s\<lparr>xmit_accnt := (xmit_accnt s)[ac := xmit_accnt s ! ac + 1]\<rparr>\<rparr>)"

text \<open>The station a frame is for, as both classifiers determine it: known, linked and the one the frame names.\<close>

definition tx_target :: "tx_adapter \<Rightarrow> nat \<Rightarrow> nat option" where
  "tx_target ad f =
     (let psta = rtw_get_stainfo (tx_stapriv ad) (xa_ra (tx_attr ad f))
      in if xa_psta (tx_attr ad f) \<noteq> psta then None
         else case psta of None \<Rightarrow> None
           | Some i \<Rightarrow> if sta_state (sta_of ad i) AND WIFI_ASOC_STATE = 0 then None else Some i)"

definition rtw_xmit_classifier :: "tx_adapter \<Rightarrow> nat \<Rightarrow> bool \<times> tx_adapter" where
  "rtw_xmit_classifier ad f =
     (case tx_target ad f of None \<Rightarrow> (False, ad)
      | Some i \<Rightarrow> (True, pend_frame i (rtw_get_sta_pending (xa_priority (tx_attr ad f))) f ad))"

definition rtw_mgmt_xmitframe_enqueue :: "tx_adapter \<Rightarrow> nat \<Rightarrow> bool \<times> tx_adapter" where
  "rtw_mgmt_xmitframe_enqueue ad f =
     (case tx_target ad f of None \<Rightarrow> (False, ad) | Some i \<Rightarrow> (True, pend_frame i (HWXMIT_ENTRY - 1) f ad))"

definition rtw_hal_xmitframe_enqueue :: "nat \<Rightarrow> tx_adapter \<Rightarrow> tx_adapter" where
  "rtw_hal_xmitframe_enqueue f ad =
     (let (ok, ad) = rtw_xmit_classifier ad f
      in if ok then ad else (rtw_free_xmitframe f ad)\<lparr>tx_drop := tx_drop ad + 1\<rparr>)"

definition rtw_hal_mgmt_xmitframe_enqueue :: "nat \<Rightarrow> tx_adapter \<Rightarrow> tx_adapter" where
  "rtw_hal_mgmt_xmitframe_enqueue f ad =
     (let (ok, ad) = rtw_mgmt_xmitframe_enqueue ad f
      in if ok then ad else (rtw_free_xmitframe f ad)\<lparr>tx_drop := tx_drop ad + 1\<rparr>)"

text \<open>
  Taking the next frame for the hardware: the first frame of the first listed station that has one.
\<close>

fun dequeue_one :: "nat \<Rightarrow> nat list \<Rightarrow> tx_adapter \<Rightarrow> nat option \<times> tx_adapter" where
  "dequeue_one ac [] ad = (None, ad)"
| "dequeue_one ac (i # is) ad =
     (case ac_pending (sta_of ad i) ! ac of
        [] \<Rightarrow> dequeue_one ac is ad
      | f # fs \<Rightarrow>
          let ad = set_sta i (\<lambda>x. x\<lparr>ac_pending := (ac_pending x)[ac := fs], ac_qcnt := (ac_qcnt x)[ac := ac_qcnt x ! ac - 1]\<rparr>) ad;
              s = tx_stapriv ad;
              s = s\<lparr>xmit_accnt := (xmit_accnt s)[ac := xmit_accnt s ! ac - 1]\<rparr>;
              s = (if fs = [] then s\<lparr>hw_pending := (hw_pending s)[ac := filter (\<lambda>j. j \<noteq> i) (hw_pending s ! ac)]\<rparr> else s)
          in (Some f, ad\<lparr>tx_stapriv := s\<rparr>))"

definition rtw_dequeue_mgmt_xframe :: "tx_adapter \<Rightarrow> nat option \<times> tx_adapter" where
  "rtw_dequeue_mgmt_xframe ad = dequeue_one (HWXMIT_ENTRY - 1) (hw_pending (tx_stapriv ad) ! (HWXMIT_ENTRY - 1)) ad"

fun dequeue_acs :: "nat list \<Rightarrow> tx_adapter \<Rightarrow> nat option \<times> tx_adapter" where
  "dequeue_acs [] ad = (None, ad)"
| "dequeue_acs (ac # acs) ad =
     (case dequeue_one ac (hw_pending (tx_stapriv ad) ! ac) ad of
        (None, _) \<Rightarrow> dequeue_acs acs ad
      | r \<Rightarrow> r)"

definition rtw_dequeue_xframe :: "tx_adapter \<Rightarrow> nat option \<times> tx_adapter" where
  "rtw_dequeue_xframe ad = dequeue_acs (if tx_wifi_spec ad then tx_wmm_para_seq ad else [0, 1, 2, 3]) ad"

section \<open>Buffering\<close>

definition xmitframe_hiq_filter :: "tx_adapter \<Rightarrow> nat \<Rightarrow> bool" where
  "xmitframe_hiq_filter ad f =
     (if tx_wifi_spec ad then True
      else if tx_hiq_filter ad = RTW_HIQ_FILTER_ALLOW_SPECIAL
      then xa_ether_type (tx_attr ad f) = 0x0806 \<or> xa_ether_type (tx_attr ad f) = 0x888e \<or> xa_dhcp (tx_attr ad f)
      else tx_hiq_filter ad = RTW_HIQ_FILTER_ALLOW_ALL)"

text \<open>
  Buffering takes the frame off the list it is on. That is none for a new frame, and a queue towards the
  hardware of its station when the station falls asleep.
\<close>

definition unlink_pending :: "nat \<Rightarrow> nat \<Rightarrow> tx_adapter \<Rightarrow> tx_adapter" where
  "unlink_pending i f = set_sta i (\<lambda>x. x\<lparr>ac_pending := map (removeAll f) (ac_pending x)\<rparr>)"

definition announce :: "nat \<Rightarrow> tx_adapter \<Rightarrow> tx_adapter" where
  "announce aid ad =
     (let update_tim = (\<not> tim_is_set ad aid); ad = tim_set aid ad in if update_tim then tx_call Update_beacon ad else ad)"

definition mgmt_xmitframe_enqueue_for_sleeping_sta :: "tx_adapter \<Rightarrow> nat \<Rightarrow> nat \<times> tx_adapter" where
  "mgmt_xmitframe_enqueue_for_sleeping_sta ad f =
     (let a = tx_attr ad f
      in if xa_ra a = bcast_addr \<or> xa_ps_dontq a then (0, ad)
         else case xa_psta a of None \<Rightarrow> (0, ad)
           | Some i \<Rightarrow>
               if sta_state (sta_of ad i) AND WIFI_ASOC_STATE = 0 then (0, ad)
               else if sta_state (sta_of ad i) AND WIFI_SLEEP_STATE \<noteq> 0 \<and> dz_is_set ad (sta_aid_no (sta_of ad i))
               then let ad = unlink_pending i f ad;
                        ad = set_sta i (\<lambda>x. x\<lparr>mgmt_sleep_q := mgmt_sleep_q x @ [f], mgmt_sleepq_len := mgmt_sleepq_len x + 1\<rparr>) ad
                 in (RTW_QUEUE_MGMT, announce (sta_aid_no (sta_of ad i)) ad)
               else (1, ad))"

definition buffer_frame :: "nat \<Rightarrow> nat \<Rightarrow> tx_adapter \<Rightarrow> tx_adapter" where
  "buffer_frame i f ad =
     set_sta i (\<lambda>x. x\<lparr>sleep_q := sleep_q x @ [f], sleepq_len := sleepq_len x + 1\<rparr>) (unlink_pending i f ad)"

definition buffered_group :: "tx_adapter \<Rightarrow> tx_adapter" where
  "buffered_group ad =
     (let update_tim = (\<not> tim_is_set ad 0); ad = dz_set 0 (tim_set 0 ad)
      in if update_tim then tx_call Update_beacon ad else tx_call Chk_bmc_sleepq_cmd ad)"

definition buffered_client :: "nat \<Rightarrow> nat \<Rightarrow> tx_adapter \<Rightarrow> tx_adapter" where
  "buffered_client i f ad =
     (let wmmps_ac = (uapsd_of (sta_of ad i) (xa_priority (tx_attr ad f)) AND 1 \<noteq> 0);
          ad = (if wmmps_ac then set_sta i (\<lambda>x. x\<lparr>sleepq_ac_len := sleepq_ac_len x + 1\<rparr>) ad else ad)
      in if has_legacy_ac (sta_of ad i) \<and> \<not> wmmps_ac \<or> \<not> has_legacy_ac (sta_of ad i) \<and> wmmps_ac
         then announce (sta_aid_no (sta_of ad i)) ad else ad)"

definition xmitframe_enqueue_for_sleeping_sta :: "tx_adapter \<Rightarrow> nat \<Rightarrow> bool \<times> tx_adapter" where
  "xmitframe_enqueue_for_sleeping_sta ad f =
     (let a = tx_attr ad f; bmcst = IS_MCAST (xa_ra a)
      in if \<not> tx_ap ad then (False, ad)
         else case tx_target ad f of None \<Rightarrow> (False, ad)
           | Some i \<Rightarrow>
               if xa_triggered a
               then (False, if bmcst \<and> xmitframe_hiq_filter ad f then set_attr f (\<lambda>a. a\<lparr>xa_qsel := QSLT_HIGH\<rparr>) ad else ad)
               else if bmcst
               then if dz_anyone ad then (True, buffered_group (buffer_frame i f ad)) else (False, ad)
               else if sta_state (sta_of ad i) AND WIFI_SLEEP_STATE \<noteq> 0 \<and> dz_is_set ad (sta_aid_no (sta_of ad i))
               then (True, buffered_client i f (buffer_frame i f ad))
               else (False, ad))"

definition unpend_count :: "nat \<Rightarrow> nat \<Rightarrow> tx_adapter \<Rightarrow> tx_adapter" where
  "unpend_count i ac ad =
     (let ad = set_sta i (\<lambda>x. x\<lparr>ac_qcnt := (ac_qcnt x)[ac := ac_qcnt x ! ac - 1]\<rparr>) ad; s = tx_stapriv ad
      in ad\<lparr>tx_stapriv := s\<lparr>xmit_accnt := (xmit_accnt s)[ac := xmit_accnt s ! ac - 1]\<rparr>\<rparr>)"

definition stop_mgmt :: "nat \<Rightarrow> nat \<Rightarrow> tx_adapter \<Rightarrow> tx_adapter" where
  "stop_mgmt i f ad =
     (let (ret, ad) = mgmt_xmitframe_enqueue_for_sleeping_sta (set_attr f (\<lambda>a. a\<lparr>xa_triggered := False\<rparr>) ad) f
      in if ret = RTW_QUEUE_MGMT then unpend_count i (HWXMIT_ENTRY - 1) ad else ad)"

definition dequeue_mgmt_xmitframe_to_sleepq :: "nat \<Rightarrow> tx_adapter \<Rightarrow> tx_adapter" where
  "dequeue_mgmt_xmitframe_to_sleepq i ad = foldl (\<lambda>ad f. stop_mgmt i f ad) ad (ac_pending (sta_of ad i) ! (HWXMIT_ENTRY - 1))"

definition stop_data :: "nat \<Rightarrow> nat \<Rightarrow> tx_adapter \<Rightarrow> tx_adapter" where
  "stop_data i f ad =
     (let (ret, ad) = xmitframe_enqueue_for_sleeping_sta (set_attr f (\<lambda>a. a\<lparr>xa_triggered := False\<rparr>) ad) f
      in if ret then unpend_count i (rtw_get_sta_pending (xa_priority (tx_attr ad f))) ad else ad)"

definition dequeue_xmitframes_to_sleeping_queue :: "nat \<Rightarrow> nat \<Rightarrow> tx_adapter \<Rightarrow> tx_adapter" where
  "dequeue_xmitframes_to_sleeping_queue i ac ad = foldl (\<lambda>ad f. stop_data i f ad) ad (ac_pending (sta_of ad i) ! ac)"

definition tx_pending_delete :: "nat \<Rightarrow> nat \<Rightarrow> tx_adapter \<Rightarrow> tx_adapter" where
  "tx_pending_delete i ac ad =
     (let s = tx_stapriv ad in ad\<lparr>tx_stapriv := s\<lparr>hw_pending := (hw_pending s)[ac := filter (\<lambda>j. j \<noteq> i) (hw_pending s ! ac)]\<rparr>\<rparr>)"

text \<open>The queues of one station, in the order voice, video, best effort and background.\<close>

definition stop_acs :: "nat \<Rightarrow> tx_adapter \<Rightarrow> tx_adapter" where
  "stop_acs i ad = foldl (\<lambda>ad ac. tx_pending_delete i ac (dequeue_xmitframes_to_sleeping_queue i ac ad)) ad [0, 1, 2, 3]"

definition stop_sta_xmit :: "nat \<Rightarrow> tx_adapter \<Rightarrow> tx_adapter" where
  "stop_sta_xmit i ad =
     (let psta_bmc = rtw_get_bcmc_stainfo (tx_stapriv ad);
          ad = set_sta i (\<lambda>x. x\<lparr>sta_state := sta_state x OR WIFI_SLEEP_STATE\<rparr>) ad;
          ad = dz_set (sta_aid_no (sta_of ad i)) ad;
          ad = tx_pending_delete i (HWXMIT_ENTRY - 1) (dequeue_mgmt_xmitframe_to_sleepq i ad);
          ad = stop_acs i ad
      in case psta_bmc of None \<Rightarrow> ad | Some b \<Rightarrow> stop_acs b ad)"

section \<open>Releasing\<close>

text \<open>
  Releasing the first frame of a queue: it leaves the queue, learns whether more data is buffered and
  goes to the hardware's queues.
\<close>

definition release_mgmt :: "nat \<Rightarrow> nat \<Rightarrow> tx_adapter \<Rightarrow> tx_adapter" where
  "release_mgmt i f ad =
     (let ad = set_sta i (\<lambda>x. x\<lparr>mgmt_sleep_q := remove1 f (mgmt_sleep_q x), mgmt_sleepq_len := mgmt_sleepq_len x - 1\<rparr>) ad;
          mdata = (0 < mgmt_sleepq_len (sta_of ad i))
      in rtw_hal_mgmt_xmitframe_enqueue f (set_attr f (\<lambda>a. a\<lparr>xa_mdata := mdata, xa_triggered := True\<rparr>) ad))"

definition take_data :: "nat \<Rightarrow> nat \<Rightarrow> tx_adapter \<Rightarrow> tx_adapter" where
  "take_data i f ad =
     (let ad = set_sta i (\<lambda>x. x\<lparr>sleep_q := remove1 f (sleep_q x), sleepq_len := sleepq_len x - 1\<rparr>) ad;
          mdata = (0 < sleepq_len (sta_of ad i))
      in set_attr f (\<lambda>a. a\<lparr>xa_mdata := mdata\<rparr>) ad)"

text \<open>A frame of a delivery service: the number of such frames left decides, and the last ends the period.\<close>

definition count_delivery :: "nat \<Rightarrow> nat \<Rightarrow> tx_adapter \<Rightarrow> tx_adapter" where
  "count_delivery i f ad =
     (let ad = set_sta i (\<lambda>x. x\<lparr>sleepq_ac_len := sleepq_ac_len x - 1\<rparr>) ad;
          more_data = (0 < sleepq_ac_len (sta_of ad i))
      in set_attr f (\<lambda>a. a\<lparr>xa_mdata := more_data, xa_eosp := \<not> more_data\<rparr>) ad)"

definition trigger_send :: "nat \<Rightarrow> tx_adapter \<Rightarrow> tx_adapter" where
  "trigger_send f ad = rtw_hal_xmitframe_enqueue f (set_attr f (\<lambda>a. a\<lparr>xa_triggered := True\<rparr>) ad)"

definition release_data :: "nat \<Rightarrow> nat \<Rightarrow> tx_adapter \<Rightarrow> tx_adapter" where
  "release_data i f ad =
     (let wmmps_ac = (uapsd_of (sta_of ad i) (xa_priority (tx_attr ad f)) AND 2 \<noteq> 0);
          ad = take_data i f ad
      in trigger_send f (if wmmps_ac then count_delivery i f ad else ad))"

definition wake_cleared :: "nat \<Rightarrow> tx_adapter \<Rightarrow> tx_adapter" where
  "wake_cleared i ad =
     (let aid = sta_aid_no (sta_of ad i);
          ad = tim_clear aid ad;
          ad = (if sta_state (sta_of ad i) AND WIFI_SLEEP_STATE \<noteq> 0
                then set_sta i (\<lambda>x. x\<lparr>sta_state := sta_state x XOR WIFI_SLEEP_STATE\<rparr>) ad else ad);
          ad = (if sta_state (sta_of ad i) AND WIFI_STA_ALIVE_CHK_STATE \<noteq> 0
                then set_sta i (\<lambda>x. x\<lparr>sta_expire_to := tx_expire_to ad, sta_state := sta_state x XOR WIFI_STA_ALIVE_CHK_STATE\<rparr>) ad else ad)
      in dz_clear aid ad)"

definition wakeup_bmc :: "tx_adapter \<Rightarrow> bool \<times> tx_adapter" where
  "wakeup_bmc ad =
     (case rtw_get_bcmc_stainfo (tx_stapriv ad) of None \<Rightarrow> (False, ad)
      | Some b \<Rightarrow>
          if dz_anyone_exclude_aid0 ad then (False, ad)
          else let ad = foldl (\<lambda>ad f. trigger_send f (take_data b f ad)) ad (sleep_q (sta_of ad b))
            in if sleepq_len (sta_of ad b) = 0 then (tim_is_set ad 0, dz_clear 0 (tim_clear 0 ad)) else (False, ad))"

text \<open>The two loops over the buffers of the station.\<close>

definition wake_mgmt :: "nat \<Rightarrow> DEQUEUE_TYPE \<Rightarrow> tx_adapter \<Rightarrow> tx_adapter" where
  "wake_mgmt i t ad = (if t = UNI_MGMT \<or> t = ALL_FRAME then foldl (\<lambda>ad f. release_mgmt i f ad) ad (mgmt_sleep_q (sta_of ad i)) else ad)"

definition wake_data :: "nat \<Rightarrow> DEQUEUE_TYPE \<Rightarrow> tx_adapter \<Rightarrow> tx_adapter" where
  "wake_data i t ad = (if t = UNI_BMC_DATA \<or> t = ALL_FRAME then foldl (\<lambda>ad f. release_data i f ad) ad (sleep_q (sta_of ad i)) else ad)"

definition no_buffered :: "nat \<Rightarrow> tx_adapter \<Rightarrow> bool" where
  "no_buffered i ad \<longleftrightarrow> sleepq_len (sta_of ad i) = 0 \<and> mgmt_sleepq_len (sta_of ad i) = 0"

definition wakeup_sta_to_xmit :: "nat \<Rightarrow> DEQUEUE_TYPE \<Rightarrow> tx_adapter \<Rightarrow> tx_adapter" where
  "wakeup_sta_to_xmit i dequeue_type ad =
     (let ad = wake_data i dequeue_type (wake_mgmt i dequeue_type ad);
          clear_uc = (no_buffered i ad \<and> tim_is_set ad (sta_aid_no (sta_of ad i)));
          ad = (if no_buffered i ad then wake_cleared i ad else ad);
          (clear_bmc, ad) = (if dequeue_type = UNI_BMC_DATA \<or> dequeue_type = ALL_FRAME then wakeup_bmc ad else (False, ad))
      in if clear_uc \<or> clear_bmc then tx_call Update_beacon ad else ad)"

definition deliver_frame :: "nat \<Rightarrow> nat \<Rightarrow> tx_adapter \<Rightarrow> tx_adapter" where
  "deliver_frame i f ad =
     (if uapsd_of (sta_of ad i) (xa_priority (tx_attr ad f)) AND 2 = 0 then ad
      else let ad = set_sta i (\<lambda>x. x\<lparr>sleep_q := remove1 f (sleep_q x), sleepq_len := sleepq_len x - 1\<rparr>) ad;
               ad = trigger_send f (count_delivery i f ad)
        in if sleepq_ac_len (sta_of ad i) = 0 \<and> \<not> has_legacy_ac (sta_of ad i)
           then tx_call Update_beacon (tim_clear (sta_aid_no (sta_of ad i)) ad) else ad)"

definition xmit_delivery_enabled_frames :: "nat \<Rightarrow> tx_adapter \<Rightarrow> tx_adapter" where
  "xmit_delivery_enabled_frames i ad = foldl (\<lambda>ad f. deliver_frame i f ad) ad (sleep_q (sta_of ad i))"

definition release_bmc :: "nat \<Rightarrow> bool \<Rightarrow> nat \<Rightarrow> tx_adapter \<Rightarrow> tx_adapter" where
  "release_bmc b final f ad =
     (let ad = take_data b f ad;
          ad = (if final then set_attr f (\<lambda>a. a\<lparr>xa_mdata := False\<rparr>) ad else ad);
          ad = (if xmitframe_hiq_filter ad f then set_attr f (\<lambda>a. a\<lparr>xa_qsel := QSLT_HIGH\<rparr>) ad else ad)
      in trigger_send f ad)"

definition clear_bmc :: "tx_adapter \<Rightarrow> tx_adapter" where
  "clear_bmc ad =
     (let update_tim = tim_is_set ad 0; ad = dz_clear 0 (tim_clear 0 ad) in if update_tim then tx_call Update_beacon ad else ad)"

definition chk_bmc_sleepq_hdl :: "tx_adapter \<Rightarrow> tx_adapter" where
  "chk_bmc_sleepq_hdl ad =
     (case rtw_get_bcmc_stainfo (tx_stapriv ad) of None \<Rightarrow> ad
      | Some b \<Rightarrow>
          if tim_is_set ad 0 \<and> 0 < sleepq_len (sta_of ad b)
          then foldl (\<lambda>ad f. release_bmc b False f ad) ad (sleep_q (sta_of ad b)) else ad)"

text \<open>The hardware's answer whether its high queue ran empty in time is \<open>hiq_empty\<close>; a repeated check is a new call.\<close>

definition rtw_chk_hi_queue_hdl :: "bool \<Rightarrow> tx_adapter \<Rightarrow> tx_adapter" where
  "rtw_chk_hi_queue_hdl hiq_empty ad =
     (case rtw_get_bcmc_stainfo (tx_stapriv ad) of None \<Rightarrow> ad
      | Some b \<Rightarrow> if sleepq_len (sta_of ad b) = 0 \<and> hiq_empty then clear_bmc ad else ad)"

definition rtw_ap_bmc_frames_hdl :: "tx_adapter \<Rightarrow> tx_adapter" where
  "rtw_ap_bmc_frames_hdl ad =
     (if \<not> tx_wifi_spec ad then ad
      else case rtw_get_bcmc_stainfo (tx_stapriv ad) of None \<Rightarrow> ad
        | Some b \<Rightarrow>
            if tim_is_set ad 0 \<and> 0 < sleepq_len (sta_of ad b)
            then foldl (\<lambda>ad (n, f). release_bmc b (n = HIQ_XMIT_COUNTS) f ad) (tx_call Update_beacon ad)
                   (zip [1..<HIQ_XMIT_COUNTS + 1] (sleep_q (sta_of ad b)))
            else if sleepq_len (sta_of ad b) = 0 then clear_bmc ad else ad)"

section \<open>Control frames\<close>

definition WIFI_CTRL_TYPE :: u16 where "WIFI_CTRL_TYPE = 0x04"
definition WIFI_PSPOLL :: u16 where "WIFI_PSPOLL = 0xa4"
definition WIFI_BAR :: u16 where "WIFI_BAR = 0x84"
definition GetAid :: "bytes \<Rightarrow> u16" where "GetAid p = RTW_GET_LE16 (drop 2 p) AND 0x3fff"

text \<open>A poll: the first management frame and the first data frame, then the traffic indication.\<close>

definition pspoll_release :: "nat \<Rightarrow> tx_adapter \<Rightarrow> tx_adapter" where
  "pspoll_release i ad =
     (let mgmtq_null = (mgmt_sleep_q (sta_of ad i) = []);
          ad = (if mgmtq_null then ad else release_mgmt i (hd (mgmt_sleep_q (sta_of ad i))) ad);
          dataq_null = (sleep_q (sta_of ad i) = []);
          ad = (if dataq_null then ad
                else let f = hd (sleep_q (sta_of ad i)) in trigger_send f (take_data i f ad));
          ad = (if dataq_null \<and> mgmtq_null \<and> tim_is_set ad (sta_aid_no (sta_of ad i))
                then if no_buffered i ad then tx_call (Issue_nulldata (mac_addr (sta_of ad i))) ad
                     else set_sta i (\<lambda>x. x\<lparr>sleepq_len := 0, mgmt_sleepq_len := 0\<rparr>) ad
                else ad)
      in if no_buffered i ad then tx_call Update_beacon (tim_clear (sta_aid_no (sta_of ad i)) ad) else ad)"

text \<open>\<open>priority\<close> is what the hardware reports for the received frame; the result code is always \<^verbatim>\<open>_FAIL\<close>.\<close>

definition validate_recv_ctrl_frame :: "nat \<Rightarrow> bytes \<Rightarrow> tx_adapter \<Rightarrow> tx_adapter" where
  "validate_recv_ctrl_frame priority pframe ad =
     (if GetFrameType pframe \<noteq> WIFI_CTRL_TYPE then ad
      else if GetAddr1Ptr pframe \<noteq> tx_mac ad then ad
      else case rtw_get_stainfo (tx_stapriv ad) (get_addr2_ptr pframe) of None \<Rightarrow> ad
        | Some i \<Rightarrow>
            if get_frame_sub_type pframe = WIFI_PSPOLL
            then if sta_aid_no (sta_of ad i) \<noteq> unat (GetAid pframe) then ad
                 else if uapsd_of (sta_of ad i) priority AND 1 \<noteq> 0 then ad
                 else let ad = (if sta_state (sta_of ad i) AND WIFI_STA_ALIVE_CHK_STATE \<noteq> 0
                                then set_sta i (\<lambda>x. x\<lparr>sta_expire_to := tx_expire_to ad,
                                       sta_state := sta_state x XOR WIFI_STA_ALIVE_CHK_STATE\<rparr>) ad else ad)
                   in if sta_state (sta_of ad i) AND WIFI_SLEEP_STATE \<noteq> 0 \<and> dz_is_set ad (sta_aid_no (sta_of ad i))
                      then pspoll_release i ad else ad
            else if get_frame_sub_type pframe = WIFI_BAR then tx_call Process_bar ad else ad)"

section \<open>Sending\<close>

definition rtw_txframes_sta_ac_pending :: "tx_adapter \<Rightarrow> nat \<Rightarrow> int" where
  "rtw_txframes_sta_ac_pending ad f =
     (case tx_target ad f of None \<Rightarrow> 0
      | Some i \<Rightarrow> ac_qcnt (sta_of ad i) ! rtw_get_sta_pending (xa_priority (tx_attr ad f)))"

text \<open>
  \<open>hw_free\<close> says that no access category is blocked, no station is logging on and there is a transmit
  buffer, \<open>coalesced\<close> that the frame could be assembled. The result is \<^verbatim>\<open>_TRUE\<close> unless the frame was queued.
\<close>

definition pre_xmitframe :: "bool \<Rightarrow> bool \<Rightarrow> tx_adapter \<Rightarrow> nat \<Rightarrow> bool \<times> tx_adapter" where
  "pre_xmitframe hw_free coalesced ad f =
     (if 0 < rtw_txframes_sta_ac_pending ad f \<or> \<not> hw_free
      then let (ok, ad) = rtw_xmit_classifier ad f
        in if ok then (False, ad) else (True, (rtw_free_xmitframe f ad)\<lparr>tx_drop := tx_drop ad + 1\<rparr>)
      else (True, if coalesced then ad\<lparr>tx_out := tx_out ad @ [f]\<rparr> else rtw_free_xmitframe f ad))"

definition xmit_enqueue :: "tx_adapter \<Rightarrow> nat \<Rightarrow> bool \<times> tx_adapter" where
  "xmit_enqueue ad f =
     (case xa_psta (tx_attr ad f) of None \<Rightarrow> (False, ad)
      | Some i \<Rightarrow> if tx_queue (sta_of ad i) = [] \<and> \<not> tx_q_enable (sta_of ad i) then (False, ad)
                  else (True, set_sta i (\<lambda>x. x\<lparr>tx_queue := tx_queue x @ [f]\<rparr>) ad))"

text \<open>Sending these frames later, with the state of the hardware at each of them.\<close>

definition xmit_dequeue :: "(nat \<Rightarrow> bool) \<Rightarrow> (nat \<Rightarrow> bool) \<Rightarrow> nat \<Rightarrow> tx_adapter \<Rightarrow> tx_adapter" where
  "xmit_dequeue hw_free coalesced i ad =
     foldl (\<lambda>ad f. snd (pre_xmitframe (hw_free f) (coalesced f) (set_sta i (\<lambda>x. x\<lparr>tx_queue := tl (tx_queue x)\<rparr>) ad) f))
       ad (tx_queue (sta_of ad i))"

definition rtw_xmit_queue_set :: "nat \<Rightarrow> tx_adapter \<Rightarrow> tx_adapter" where
  "rtw_xmit_queue_set i = set_sta i (\<lambda>x. x\<lparr>tx_q_enable := True\<rparr>)"

text \<open>Disabling the queue schedules \<open>xmit_dequeue\<close>, which runs later.\<close>

definition rtw_xmit_queue_clear :: "nat \<Rightarrow> tx_adapter \<Rightarrow> tx_adapter" where
  "rtw_xmit_queue_clear i = set_sta i (\<lambda>x. x\<lparr>tx_q_enable := False\<rparr>)"

text \<open>
  The end of the transmit path of a data frame. \<open>attrib\<close> are the attributes \<^verbatim>\<open>update_attrib\<close> and \<^verbatim>\<open>do_queue_select\<close> find
  for it, \<open>None\<close> when that fails; the result is 1 when the frame is kept, 0 when the hardware has it, and -1 on failure.
\<close>

definition rtw_xmit_posthandle :: "bool \<Rightarrow> bool \<Rightarrow> tx_attrib option \<Rightarrow> tx_adapter \<Rightarrow> nat \<Rightarrow> int \<times> tx_adapter" where
  "rtw_xmit_posthandle hw_free coalesced attrib ad f =
     (case attrib of None \<Rightarrow> (-1, rtw_free_xmitframe f ad)
      | Some a \<Rightarrow>
          let (kept, ad) = xmitframe_enqueue_for_sleeping_sta (set_attr f (\<lambda>_. a) ad) f
          in if kept then (1, ad)
             else let (kept, ad) = xmit_enqueue ad f
               in if kept then (1, ad)
                  else let (out, ad) = pre_xmitframe hw_free coalesced ad f in (if out then 0 else 1, ad))"

text \<open>A management frame \<open>pframe\<close>: its receiver is the first address.\<close>

definition update_mgntframe_attrib_addr :: "bytes \<Rightarrow> tx_adapter \<Rightarrow> nat \<Rightarrow> tx_adapter" where
  "update_mgntframe_attrib_addr pframe ad f =
     (let ad = set_attr f (\<lambda>a. a\<lparr>xa_ra := GetAddr1Ptr pframe\<rparr>) ad
      in if xa_psta (tx_attr ad f) = None
         then set_attr f (\<lambda>a. a\<lparr>xa_psta := rtw_get_stainfo (tx_stapriv ad) (xa_ra a)\<rparr>) ad else ad)"

definition rtw_hal_mgnt_xmit :: "bytes \<Rightarrow> tx_adapter \<Rightarrow> nat \<Rightarrow> tx_adapter" where
  "rtw_hal_mgnt_xmit pframe ad f =
     (let ad = update_mgntframe_attrib_addr pframe ad f;
          (ret, ad) = (if tx_ap ad then mgmt_xmitframe_enqueue_for_sleeping_sta ad f else (0, ad))
      in if ret = RTW_QUEUE_MGMT then ad else ad\<lparr>tx_out := tx_out ad @ [f]\<rparr>)"

section \<open>The configuration of a station's access categories\<close>

definition WMM_IE :: bytes where "WMM_IE = [0x00, 0x50, 0xf2, 0x02, 0x00, 0x01]"

text \<open>\<open>qos\<close> says whether the access point has QoS; the fields read lie behind the identifier of the element.\<close>

definition wmm_fields :: "u8 \<Rightarrow> sta_info \<Rightarrow> sta_info" where
  "wmm_fields info x =
     (let x = x\<lparr>qos_option := True, qos_info := info, max_sp_len := drop_bit 5 info AND 3, has_legacy_ac := info AND 0xf \<noteq> 0xf\<rparr>
      in if info AND 0xf = 0 then x
         else x\<lparr>uapsd_vo := (if info AND 1 \<noteq> 0 then 3 else 0), uapsd_vi := (if info AND 2 \<noteq> 0 then 3 else 0),
                uapsd_bk := (if info AND 4 \<noteq> 0 then 3 else 0), uapsd_be := (if info AND 8 \<noteq> 0 then 3 else 0)\<rparr>)"

definition rtw_ap_parse_sta_wmm_ie :: "bool \<Rightarrow> bytes \<Rightarrow> nat \<Rightarrow> sta_info \<Rightarrow> sta_info c_result" where
  "rtw_ap_parse_sta_wmm_ie qos tlv_ies tlv_ies_len x =
     (let x = x\<lparr>qos_option := False, qos_info := 0, has_legacy_ac := True, uapsd_vo := 0, uapsd_vi := 0, uapsd_be := 0, uapsd_bk := 0\<rparr>
      in if \<not> qos then Ret x
         else c_bind (rtw_get_ie_ex tlv_ies tlv_ies_len 221 (Some WMM_IE)) (\<lambda>p.
           case p of None \<Rightarrow> Ret x
           | Some (p, n) \<Rightarrow> c_bind (c_slice tlv_ies (p + 8) 1) (\<lambda>info. Ret (wmm_fields (hd info) x))))"

end
