(* ===== verification/Tx_Queues.thy ===== *)
theory Tx_Queues
  imports Power_Save
begin

unbundle bit_operations_syntax

text \<open>
  The queues of \<open>Power_Save\<close>: their invariant \<open>ps_inv\<close>, and what buffering a frame, releasing frames and waking a
  station up do to them. The loops over queues are interpretations of the locale \<open>drain\<close>.
\<close>

section \<open>The invariant\<close>

text \<open>
  What one station promises, given the stations the frames are for, the frames' attributes, the lists of
  stations with pending frames, the broadcast station and the traffic indication map: the counters are
  the lengths of the queues; a station with pending frames is listed; every frame is in the queue of its
  station and its priority; a client has frames buffered only while it sleeps; and frames buffered for a
  client without delivery services, and group frames, are announced.
\<close>

definition legacy :: "sta_info \<Rightarrow> bool" where
  "legacy x \<longleftrightarrow> has_legacy_ac x \<and> uapsd_bk x = 0 \<and> uapsd_be x = 0 \<and> uapsd_vi x = 0 \<and> uapsd_vo x = 0"

lemma legacy_simps [simp]:
  "legacy (x\<lparr>sleep_q := q\<rparr>) = legacy x" "legacy (x\<lparr>sleepq_len := n\<rparr>) = legacy x" "legacy (x\<lparr>mgmt_sleep_q := q\<rparr>) = legacy x"
  "legacy (x\<lparr>mgmt_sleepq_len := n\<rparr>) = legacy x" "legacy (x\<lparr>ac_pending := p\<rparr>) = legacy x" "legacy (x\<lparr>ac_qcnt := c\<rparr>) = legacy x"
  "legacy (x\<lparr>sleepq_ac_len := n\<rparr>) = legacy x" "legacy (x\<lparr>tx_q_enable := e\<rparr>) = legacy x" "legacy (x\<lparr>tx_queue := q\<rparr>) = legacy x"
  "legacy (x\<lparr>sta_state := v\<rparr>) = legacy x" "legacy (x\<lparr>sta_expire_to := t\<rparr>) = legacy x"
  by (simp_all add: legacy_def)

lemma uapsd_simps [simp]:
  "uapsd_of (x\<lparr>sleep_q := q\<rparr>) k = uapsd_of x k" "uapsd_of (x\<lparr>sleepq_len := n\<rparr>) k = uapsd_of x k"
  "uapsd_of (x\<lparr>sleepq_ac_len := n\<rparr>) k = uapsd_of x k" "uapsd_of (x\<lparr>ac_pending := p\<rparr>) k = uapsd_of x k" "uapsd_of (x\<lparr>ac_qcnt := c\<rparr>) k = uapsd_of x k"
  by (simp_all add: uapsd_of_def)

definition sta_local ::
  "(nat \<Rightarrow> int) \<Rightarrow> (nat \<Rightarrow> nat option) \<Rightarrow> (nat \<Rightarrow> tx_attrib) \<Rightarrow> nat list list \<Rightarrow> nat option \<Rightarrow> (nat \<Rightarrow> bool) \<Rightarrow> nat \<Rightarrow> sta_info \<Rightarrow> bool" where
  "sta_local d tgt attr hp b tim i x \<longleftrightarrow>
     sleepq_len x = of_nat (length (sleep_q x)) \<and> mgmt_sleepq_len x = of_nat (length (mgmt_sleep_q x)) \<and>
     length (ac_pending x) = 5 \<and> length (ac_qcnt x) = 5 \<and>
     (\<forall>ac < 5. ac_qcnt x ! ac = int (length (ac_pending x ! ac)) + d ac) \<and>
     (\<forall>ac < 5. ac_pending x ! ac \<noteq> [] \<longrightarrow> i \<in> set (hp ! ac)) \<and>
     (\<forall>ac < 4. \<forall>f \<in> set (ac_pending x ! ac). rtw_get_sta_pending (xa_priority (attr f)) = ac) \<and>
     (\<forall>ac < 5. \<forall>f \<in> set (ac_pending x ! ac). tgt f = Some i) \<and>
     (\<forall>f \<in> set (sleep_q x) \<union> set (mgmt_sleep_q x). tgt f = Some i) \<and>
     (\<forall>f \<in> set (ac_pending x ! 4) \<union> set (mgmt_sleep_q x). \<not> xa_ps_dontq (attr f) \<and> xa_ra (attr f) \<noteq> bcast_addr) \<and>
     (if b = Some i then sta_state x AND WIFI_SLEEP_STATE = 0 \<and> mgmt_sleep_q x = [] \<and> (sleep_q x \<noteq> [] \<longrightarrow> tim 0)
      else (sta_state x AND WIFI_SLEEP_STATE \<noteq> 0 \<longrightarrow> sta_state x AND WIFI_ASOC_STATE \<noteq> 0) \<and>
           (sleep_q x \<noteq> [] \<or> mgmt_sleep_q x \<noteq> [] \<longrightarrow> sta_state x AND WIFI_SLEEP_STATE \<noteq> 0 \<and> (legacy x \<longrightarrow> tim (sta_aid_no x))))"

definition client :: "sta_priv \<Rightarrow> nat \<Rightarrow> bool" where
  "client s i \<longleftrightarrow> i < NUM_STA \<and> sta_state (stas s ! i) AND WIFI_ASOC_STATE \<noteq> 0 \<and> rtw_get_bcmc_stainfo s \<noteq> Some i"

definition ps_table :: "tx_adapter \<Rightarrow> bool" where
  "ps_table ad \<longleftrightarrow>
     (let s = tx_stapriv ad in
      tx_ap ad \<and> sta_wf s \<and> set (tx_wmm_para_seq ad) = {..<4} \<and>
      length (hw_pending s) = 5 \<and> length (xmit_accnt s) = 5 \<and> (\<forall>ac < 5. set (hw_pending s ! ac) \<subseteq> {..<NUM_STA}) \<and>
      length (tim_bitmap s) = aid_bmp_len s \<and> length (sta_dz_bitmap s) = aid_bmp_len s \<and> 0 < aid_bmp_len s \<and> aid_bmp_len s \<le> 32 \<and>
      (\<forall>i. client s i \<longrightarrow> 0 < sta_aid_no (stas s ! i) \<and> sta_aid_no (stas s ! i) < 8 * aid_bmp_len s) \<and>
      (\<forall>i j. client s i \<and> client s j \<and> sta_aid_no (stas s ! i) = sta_aid_no (stas s ! j) \<longrightarrow> i = j))"

definition tx_frames :: "tx_adapter \<Rightarrow> nat multiset" where
  "tx_frames ad = xmit_frames (tx_stapriv ad) + mset (tx_out ad)"

text \<open>
  \<open>M\<close> are all the frames there are, \<open>L\<close> those an operation has in hand and \<open>D\<close> by how much the counters of a
  station's queues are ahead in the middle of an operation.
\<close>

definition ps_inv :: "(nat \<Rightarrow> nat \<Rightarrow> int) \<Rightarrow> nat multiset \<Rightarrow> tx_adapter \<Rightarrow> nat list \<Rightarrow> bool" where
  "ps_inv D M ad L \<longleftrightarrow>
     ps_table ad \<and> tx_frames ad + mset L = M \<and> (\<forall>f. count M f \<le> 1) \<and> size M < 2 ^ 32 \<and>
     (\<forall>i < NUM_STA. sta_local (D i) (tx_target ad) (tx_attr ad) (hw_pending (tx_stapriv ad)) (rtw_get_bcmc_stainfo (tx_stapriv ad))
        (tim_is_set ad) i (sta_of ad i)) \<and>
     (\<forall>ac < 5. xmit_accnt (tx_stapriv ad) ! ac = (\<Sum>x \<leftarrow> stas (tx_stapriv ad). ac_qcnt x ! ac))"

lemma lookup_cong:
  assumes "sta_hash t = sta_hash s" "\<And>j. mac_addr (stas t ! j) = mac_addr (stas s ! j)"
  shows "rtw_get_stainfo t a = rtw_get_stainfo s a" "rtw_get_bcmc_stainfo t = rtw_get_bcmc_stainfo s"
  using assms by (simp_all add: rtw_get_stainfo_def rtw_get_bcmc_stainfo_def get_stainfo_def Let_def)

lemma lookup_bound:
  assumes "sta_wf s" "rtw_get_stainfo s a = Some i"
  shows "i < NUM_STA"
proof -
  have "i \<in> set (sta_entries s (lookup_addr a))" using assms(2) by (auto simp: get_stainfo_entries split: list.splits)
  then have "i \<in> set (hashed s)" using sta.entries_used [OF assms(1)] by blast
  then show ?thesis using limbo_parts(7) [OF assms(1) [unfolded sta_wf_def]] by auto
qed

lemma sum_list_upd_int: "i < length xs \<Longrightarrow> (\<Sum>x \<leftarrow> xs[i := y]. g x) = (\<Sum>x \<leftarrow> xs. g x) + g y - (g (xs ! i) :: int)"
  by (induction xs arbitrary: i) (auto simp: nth_Cons' list_update_code split: nat.splits)

text \<open>An operation that changes one station, the lists of stations with pending frames and the counters.\<close>

lemma ps_inv_upd:
  assumes inv: "ps_inv D M ad L" and i: "i < NUM_STA"
    and x: "x = sta_of ad i" "mac_addr x' = mac_addr x" "sta_aid_no x' = sta_aid_no x"
      "sta_state x' AND WIFI_ASOC_STATE = sta_state x AND WIFI_ASOC_STATE"
    and hp: "length hp = 5" "\<And>ac j. ac < 5 \<Longrightarrow> j \<noteq> i \<Longrightarrow> j \<in> set (hw_pending (tx_stapriv ad) ! ac) \<Longrightarrow> j \<in> set (hp ! ac)"
    and hps: "\<And>ac. ac < 5 \<Longrightarrow> set (hp ! ac) \<subseteq> {..<NUM_STA}"
    and acc: "length acc = 5" "\<And>ac. ac < 5 \<Longrightarrow> acc ! ac = xmit_accnt (tx_stapriv ad) ! ac + ac_qcnt x' ! ac - ac_qcnt x ! ac"
    and loc: "sta_local (D' i) (tx_target ad) (tx_attr ad) hp (rtw_get_bcmc_stainfo (tx_stapriv ad)) (tim_is_set ad) i x'"
    and D: "\<And>j. j \<noteq> i \<Longrightarrow> D' j = D j"
    and fr: "sta_xmit_frames x' + mset L' = sta_xmit_frames x + mset L"
  shows "ps_inv D' M (ad\<lparr>tx_stapriv := (tx_stapriv ad)\<lparr>stas := (stas (tx_stapriv ad))[i := x'], hw_pending := hp, xmit_accnt := acc\<rparr>\<rparr>) L'"
proof -
  let ?s = "tx_stapriv ad"
  let ?t = "?s\<lparr>stas := (stas ?s)[i := x'], hw_pending := hp, xmit_accnt := acc\<rparr>"
  let ?ad = "ad\<lparr>tx_stapriv := ?t\<rparr>"
  have len: "length (stas ?s) = NUM_STA" using inv by (simp add: ps_inv_def ps_table_def Let_def sta_wf_def sta_wf_limbo_def)
  have nth: "(stas ?s)[i := x'] ! j = (if j = i then x' else stas ?s ! j)" for j using i len by simp
  have x: "mac_addr x' = mac_addr (stas ?s ! i)" "sta_aid_no x' = sta_aid_no (stas ?s ! i)"
    "sta_state x' AND WIFI_ASOC_STATE = sta_state (stas ?s ! i) AND WIFI_ASOC_STATE" "x = stas ?s ! i"
    using x by (simp_all add: sta_of_def)
  have mac: "mac_addr (stas ?t ! j) = mac_addr (stas ?s ! j)" for j using x by (simp add: nth)
  have asoc: "sta_state (stas ?t ! j) AND WIFI_ASOC_STATE = sta_state (stas ?s ! j) AND WIFI_ASOC_STATE" for j
    using x by (simp add: nth)
  have aid: "sta_aid_no ((stas ?s)[i := x'] ! j) = sta_aid_no (stas ?s ! j)" for j using x by (simp add: nth)
  have look: "rtw_get_stainfo ?t a = rtw_get_stainfo ?s a" "rtw_get_bcmc_stainfo ?t = rtw_get_bcmc_stainfo ?s" for a
    by (rule lookup_cong; use mac in simp)+
  have tgt: "tx_target ?ad = tx_target ad"
    using look asoc by (auto simp: fun_eq_iff tx_target_def sta_of_def Let_def split: option.splits)
  have tim: "tim_is_set ?ad = tim_is_set ad" by (simp add: fun_eq_iff tim_is_set_def)
  have cl: "client ?t j = client ?s j" for j using look asoc by (simp add: client_def)
  have "sta_wf ?s" using inv by (simp add: ps_inv_def ps_table_def Let_def)
  then have wf: "sta_wf ?t" by (rule wf_same_table) (use mac in simp_all)
  have "ps_table ad" using inv by (simp add: ps_inv_def)
  then have tab: "ps_table ?ad"
    using hp(1) hps acc(1) wf by (simp add: ps_table_def Let_def cl aid)
  have frames: "tx_frames ?ad + mset L' = M"
  proof -
    have "sum_list (map sta_xmit_frames ((stas ?s)[i := x'])) + sta_xmit_frames x = sum_list (map sta_xmit_frames (stas ?s)) + sta_xmit_frames x'"
      using sum_list_update_mset [of i "stas ?s" sta_xmit_frames x'] i len x(4) by simp
    with fr have "sum_list (map sta_xmit_frames ((stas ?s)[i := x'])) + sta_xmit_frames x + (sta_xmit_frames x' + mset L') =
        sum_list (map sta_xmit_frames (stas ?s)) + sta_xmit_frames x' + (sta_xmit_frames x + mset L)" by simp
    then have "sum_list (map sta_xmit_frames ((stas ?s)[i := x'])) + mset L' = sum_list (map sta_xmit_frames (stas ?s)) + mset L"
      by (simp add: ac_simps)
    then have "tx_frames ?ad + mset L' = tx_frames ad + mset L"
      by (simp add: tx_frames_def xmit_frames_def ac_simps)
    then show ?thesis using inv by (simp add: ps_inv_def)
  qed
  have loc': "sta_local (D' j) (tx_target ad) (tx_attr ad) hp (rtw_get_bcmc_stainfo ?s) (tim_is_set ad) j (stas ?t ! j)" if "j < NUM_STA" for j
  proof (cases "j = i")
    case True
    then show ?thesis using loc by (simp add: nth)
  next
    case False
    have "sta_local (D' j) (tx_target ad) (tx_attr ad) (hw_pending ?s) (rtw_get_bcmc_stainfo ?s) (tim_is_set ad) j (stas ?s ! j)"
      using inv that D [OF False] by (simp add: ps_inv_def sta_of_def)
    then show ?thesis using False hp(2) [OF _ False] by (simp add: nth sta_local_def)
  qed
  have sums: "acc ! ac = (\<Sum>x \<leftarrow> (stas ?s)[i := x']. ac_qcnt x ! ac)" if "ac < 5" for ac
    using acc(2) [OF that] inv that i len x(4) sum_list_upd_int [of i "stas ?s" "\<lambda>x. ac_qcnt x ! ac" x'] by (simp add: ps_inv_def)
  show ?thesis
    unfolding ps_inv_def tgt tim using tab frames inv loc' sums look by (simp add: ps_inv_def sta_of_def)
qed

abbreviation balanced :: "nat \<Rightarrow> nat \<Rightarrow> int" where
  "balanced \<equiv> \<lambda>_ _. 0"

abbreviation local_of :: "(nat \<Rightarrow> nat \<Rightarrow> int) \<Rightarrow> tx_adapter \<Rightarrow> nat \<Rightarrow> sta_info \<Rightarrow> bool" where
  "local_of D ad i \<equiv> sta_local (D i) (tx_target ad) (tx_attr ad) (hw_pending (tx_stapriv ad)) (rtw_get_bcmc_stainfo (tx_stapriv ad)) (tim_is_set ad) i"

lemma ps_inv_listed: "ps_inv D M ad L \<Longrightarrow> ac < 5 \<Longrightarrow> j \<in> set (hw_pending (tx_stapriv ad) ! ac) \<Longrightarrow> j < NUM_STA"
  by (auto simp: ps_inv_def ps_table_def Let_def)

lemma ps_inv_local: "ps_inv D M ad L \<Longrightarrow> i < NUM_STA \<Longrightarrow> local_of D ad i (sta_of ad i)"
  by (simp add: ps_inv_def)

lemma ps_inv_table: "ps_inv D M ad L \<Longrightarrow> ps_table ad"
  by (simp add: ps_inv_def)

lemma ps_inv_len: "ps_inv D M ad L \<Longrightarrow> length (stas (tx_stapriv ad)) = NUM_STA"
  by (simp add: ps_inv_def ps_table_def Let_def sta_wf_def sta_wf_limbo_def)

lemma ps_inv_swap: "ps_inv D M ad L \<Longrightarrow> mset L = mset L' \<Longrightarrow> ps_inv D M ad L'"
  by (simp add: ps_inv_def)

lemma ps_inv_wf: "ps_inv D M ad L \<Longrightarrow> sta_wf (tx_stapriv ad)"
  by (simp add: ps_inv_def ps_table_def Let_def)

lemma target_lookup: "tx_target ad f = Some i \<longleftrightarrow>
    rtw_get_stainfo (tx_stapriv ad) (xa_ra (tx_attr ad f)) = Some i \<and> xa_psta (tx_attr ad f) = Some i \<and>
    sta_state (sta_of ad i) AND WIFI_ASOC_STATE \<noteq> 0"
  by (auto simp: tx_target_def Let_def split: option.splits)

lemma target_bound: "ps_inv D M ad L \<Longrightarrow> tx_target ad f = Some i \<Longrightarrow> i < NUM_STA"
  unfolding target_lookup by (blast intro: lookup_bound ps_inv_wf)

lemma ps_inv_set:
  assumes "ps_inv D M ad L" "i < NUM_STA" "mac_addr (g (sta_of ad i)) = mac_addr (sta_of ad i)"
    "sta_aid_no (g (sta_of ad i)) = sta_aid_no (sta_of ad i)"
    "sta_state (g (sta_of ad i)) AND WIFI_ASOC_STATE = sta_state (sta_of ad i) AND WIFI_ASOC_STATE"
    "ac_qcnt (g (sta_of ad i)) = ac_qcnt (sta_of ad i)" "local_of D' ad i (g (sta_of ad i))" "\<And>j. j \<noteq> i \<Longrightarrow> D' j = D j"
    "sta_xmit_frames (g (sta_of ad i)) + mset L' = sta_xmit_frames (sta_of ad i) + mset L"
  shows "ps_inv D' M (set_sta i g ad) L'"
proof -
  have "ps_inv D' M (ad\<lparr>tx_stapriv := (tx_stapriv ad)\<lparr>stas := (stas (tx_stapriv ad))[i := g (sta_of ad i)],
      hw_pending := hw_pending (tx_stapriv ad), xmit_accnt := xmit_accnt (tx_stapriv ad)\<rparr>\<rparr>) L'"
    using assms(1) by (intro ps_inv_upd [OF assms(1,2) refl assms(3,4,5) _ _ _ _ _ assms(7,8,9)])
      (simp_all add: assms(6) ps_inv_def ps_table_def Let_def)
  then show ?thesis by (simp add: set_sta_def sta_of_def)
qed

lemma sta_of_set [simp]: "length (stas (tx_stapriv ad)) = NUM_STA \<Longrightarrow> i < NUM_STA \<Longrightarrow> sta_of (set_sta i g ad) j = (if j = i then g (sta_of ad i) else sta_of ad j)"
  by (simp add: sta_of_def set_sta_def)

lemma sta_of_upds [simp]:
  "sta_of (ad\<lparr>tx_attr := a\<rparr>) = sta_of ad" "sta_of (ad\<lparr>tx_out := q\<rparr>) = sta_of ad" "sta_of (ad\<lparr>tx_calls := c\<rparr>) = sta_of ad"
  "sta_of (ad\<lparr>tx_drop := n\<rparr>) = sta_of ad"
  by (simp_all add: sta_of_def fun_eq_iff)

lemma ps_inv_attr:
  assumes "ps_inv D M ad L"
    and g: "\<And>a. xa_ra (g a) = xa_ra a" "\<And>a. xa_psta (g a) = xa_psta a" "\<And>a. xa_priority (g a) = xa_priority a"
      "\<And>a. xa_ps_dontq (g a) = xa_ps_dontq a"
  shows "ps_inv D M (set_attr f g ad) L"
proof -
  have t: "tx_target (set_attr f g ad) = tx_target ad"
    using g by (simp add: fun_eq_iff tx_target_def set_attr_def Let_def split: option.split)
  have tim: "tim_is_set (set_attr f g ad) = tim_is_set ad" by (simp add: fun_eq_iff tim_is_set_def set_attr_def)
  have "xa_priority (tx_attr (set_attr f g ad) f') = xa_priority (tx_attr ad f')" "xa_ra (tx_attr (set_attr f g ad) f') = xa_ra (tx_attr ad f')"
    "xa_ps_dontq (tx_attr (set_attr f g ad) f') = xa_ps_dontq (tx_attr ad f')" for f'
    using g by (simp_all add: set_attr_def)
  then have "sta_local d (tx_target ad) (tx_attr (set_attr f g ad)) hp b tm i x = sta_local d (tx_target ad) (tx_attr ad) hp b tm i x" for d hp b tm i x
    by (simp add: sta_local_def)
  then show ?thesis
    using assms(1) unfolding ps_inv_def t tim by (simp add: set_attr_def ps_table_def tx_frames_def sta_of_def Let_def)
qed

lemma attr_facts [simp]:
  "tx_stapriv (set_attr f g ad) = tx_stapriv ad" "sta_of (set_attr f g ad) = sta_of ad" "tx_attr (set_attr f g ad) f = g (tx_attr ad f)"
  "f' \<noteq> f \<Longrightarrow> tx_attr (set_attr f g ad) f' = tx_attr ad f'" "tim_is_set (set_attr f g ad) = tim_is_set ad"
  "dz_is_set (set_attr f g ad) = dz_is_set ad" "tx_out (set_attr f g ad) = tx_out ad"
  by (simp_all add: set_attr_def sta_of_def fun_eq_iff tim_is_set_def dz_is_set_def)

lemma same_tables:
  assumes "tx_stapriv ad' = tx_stapriv ad" "tx_attr ad' = tx_attr ad"
  shows "tx_target ad' = tx_target ad" "sta_of ad' = sta_of ad" "tim_is_set ad' = tim_is_set ad" "dz_is_set ad' = dz_is_set ad"
  using assms by (simp_all add: fun_eq_iff tx_target_def sta_of_def tim_is_set_def dz_is_set_def Let_def split: option.split)

lemma ps_inv_same:
  assumes "tx_stapriv ad' = tx_stapriv ad" "tx_attr ad' = tx_attr ad" "tx_ap ad' = tx_ap ad" "tx_wmm_para_seq ad' = tx_wmm_para_seq ad"
    "mset (tx_out ad') + mset L' = mset (tx_out ad) + mset L"
  shows "ps_inv D M ad' L' = ps_inv D M ad L"
  unfolding ps_inv_def same_tables [OF assms(1,2)] using assms by (simp add: ps_table_def tx_frames_def add.assoc)

lemma call_facts [simp]:
  "tx_stapriv (tx_call c ad) = tx_stapriv ad" "sta_of (tx_call c ad) = sta_of ad" "tx_attr (tx_call c ad) = tx_attr ad"
  "tim_is_set (tx_call c ad) = tim_is_set ad" "dz_is_set (tx_call c ad) = dz_is_set ad" "tx_out (tx_call c ad) = tx_out ad"
  "ps_inv D M (tx_call c ad) L = ps_inv D M ad L" "tx_target (tx_call c ad) = tx_target ad"
proof -
  have eq: "tx_stapriv (tx_call c ad) = tx_stapriv ad" "tx_attr (tx_call c ad) = tx_attr ad" "tx_out (tx_call c ad) = tx_out ad"
    by (simp_all add: tx_call_def)
  then show "tx_stapriv (tx_call c ad) = tx_stapriv ad" "tx_attr (tx_call c ad) = tx_attr ad" "tx_out (tx_call c ad) = tx_out ad"
    "sta_of (tx_call c ad) = sta_of ad" "tim_is_set (tx_call c ad) = tim_is_set ad" "dz_is_set (tx_call c ad) = dz_is_set ad"
    "tx_target (tx_call c ad) = tx_target ad"
    by (simp_all only: same_tables [OF eq(1,2)])
  show "ps_inv D M (tx_call c ad) L = ps_inv D M ad L" by (rule ps_inv_same) (simp_all add: eq, simp_all add: tx_call_def)
qed

lemma u32_len_0: "n < 2 ^ 32 \<Longrightarrow> (of_nat n :: u32) = 0 \<longleftrightarrow> n = 0"
  using take_bit_nat_eq_self [of n 32] by (auto simp: word_of_nat_eq_0_iff)

lemma sleep_len_bound:
  assumes "ps_inv D M ad L" "i < NUM_STA"
  shows "length (sleep_q (sta_of ad i)) < 2 ^ 32" "length (mgmt_sleep_q (sta_of ad i)) < 2 ^ 32"
    "sta_xmit_frames (sta_of ad i) \<subseteq># M"
proof -
  have "sta_of ad i \<in> set (stas (tx_stapriv ad))" using assms ps_inv_len [OF assms(1)] by (simp add: sta_of_def)
  then have "sta_xmit_frames (sta_of ad i) \<subseteq># sum_list (map sta_xmit_frames (stas (tx_stapriv ad)))"
    by (auto dest!: split_list)
  also have "\<dots> \<subseteq># tx_frames ad + mset L" by (simp add: tx_frames_def xmit_frames_def add.assoc add.left_commute)
  also have "\<dots> = M" using assms(1) by (simp add: ps_inv_def)
  finally show sub: "sta_xmit_frames (sta_of ad i) \<subseteq># M" .
  show "length (sleep_q (sta_of ad i)) < 2 ^ 32" "length (mgmt_sleep_q (sta_of ad i)) < 2 ^ 32"
    using size_mset_mono [OF sub] assms(1) by (simp_all add: sta_xmit_frames_def ps_inv_def)
qed

section \<open>The invariant and the steps the operations are made of\<close>

lemma mset_concat_update: "k < length xs \<Longrightarrow> mset (concat (xs[k := q])) + mset (xs ! k) = mset (concat xs) + mset q"
  by (induction xs arbitrary: k) (auto simp: nth_Cons' list_update_code ac_simps split: nat.splits)

lemma mset_concat_snoc: "k < length xs \<Longrightarrow> mset (concat (xs[k := xs ! k @ [f]])) = add_mset f (mset (concat xs))"
  using mset_concat_update [of k xs "xs ! k @ [f]"] by simp

lemma pend_eq:
  "pend_frame i ac f ad =
     ad\<lparr>tx_stapriv := (tx_stapriv ad)
       \<lparr>stas := (stas (tx_stapriv ad))[i := (sta_of ad i)\<lparr>ac_pending := (ac_pending (sta_of ad i))[ac := ac_pending (sta_of ad i) ! ac @ [f]],
                    ac_qcnt := (ac_qcnt (sta_of ad i))[ac := ac_qcnt (sta_of ad i) ! ac + 1]\<rparr>],
        hw_pending := (if i \<in> set (hw_pending (tx_stapriv ad) ! ac) then hw_pending (tx_stapriv ad)
                       else (hw_pending (tx_stapriv ad))[ac := hw_pending (tx_stapriv ad) ! ac @ [i]]),
        xmit_accnt := (xmit_accnt (tx_stapriv ad))[ac := xmit_accnt (tx_stapriv ad) ! ac + 1]\<rparr>\<rparr>"
  by (simp add: pend_frame_def Let_def sta_of_def)

lemma ps_inv_pend:
  assumes inv: "ps_inv D M ad (f # L)" and tgt: "tx_target ad f = Some i" and ac: "ac < 5"
    and cls: "ac < 4 \<Longrightarrow> rtw_get_sta_pending (xa_priority (tx_attr ad f)) = ac"
    and mgmt: "ac = 4 \<Longrightarrow> \<not> xa_ps_dontq (tx_attr ad f) \<and> xa_ra (tx_attr ad f) \<noteq> bcast_addr"
  shows "ps_inv D M (pend_frame i ac f ad) L"
proof -
  have i: "i < NUM_STA" by (rule target_bound [OF inv tgt])
  have len: "length (hw_pending (tx_stapriv ad)) = 5" "length (xmit_accnt (tx_stapriv ad)) = 5"
    using inv by (simp_all add: ps_inv_def ps_table_def Let_def)
  note loc = ps_inv_local [OF inv i]
  then have l: "length (ac_pending (sta_of ad i)) = 5" "length (ac_qcnt (sta_of ad i)) = 5" by (simp_all add: sta_local_def)
  show ?thesis
    unfolding pend_eq
  proof (rule ps_inv_upd [OF inv i refl, where D' = D])
    show "sta_local (D i) (tx_target ad) (tx_attr ad)
        (if i \<in> set (hw_pending (tx_stapriv ad) ! ac) then hw_pending (tx_stapriv ad)
         else (hw_pending (tx_stapriv ad))[ac := hw_pending (tx_stapriv ad) ! ac @ [i]])
        (rtw_get_bcmc_stainfo (tx_stapriv ad)) (tim_is_set ad) i
        ((sta_of ad i)\<lparr>ac_pending := (ac_pending (sta_of ad i))[ac := ac_pending (sta_of ad i) ! ac @ [f]],
           ac_qcnt := (ac_qcnt (sta_of ad i))[ac := ac_qcnt (sta_of ad i) ! ac + 1]\<rparr>)"
      using loc ac cls mgmt tgt l len unfolding sta_local_def by (auto simp: nth_list_update split: if_splits)
  qed (use ac i l len mset_concat_snoc [of ac "ac_pending (sta_of ad i)" f] in
      \<open>auto simp: nth_list_update sta_xmit_frames_def dest: ps_inv_listed [OF inv] split: if_splits\<close>)
qed

lemma remove1_len: "f \<in> set q \<Longrightarrow> (of_nat (length (remove1 f q)) :: u32) = of_nat (length q) - 1"
  using length_pos_if_in_set [of f q] by (cases "length q") (auto simp: length_remove1)

lemma in_remove1: "f' \<in> set (remove1 f q) \<Longrightarrow> f' \<in> set q"
  using set_remove1_subset by fast

lemma ps_inv_take:
  assumes inv: "ps_inv D M ad L" and i: "i < NUM_STA"
  shows "f \<in> set (sleep_q (sta_of ad i)) \<Longrightarrow>
      ps_inv D M (set_sta i (\<lambda>x. x\<lparr>sleep_q := remove1 f (sleep_q x), sleepq_len := sleepq_len x - 1\<rparr>) ad) (f # L)"
    and "f \<in> set (mgmt_sleep_q (sta_of ad i)) \<Longrightarrow>
      ps_inv D M (set_sta i (\<lambda>x. x\<lparr>mgmt_sleep_q := remove1 f (mgmt_sleep_q x), mgmt_sleepq_len := mgmt_sleepq_len x - 1\<rparr>) ad) (f # L)"
proof -
  note loc = ps_inv_local [OF inv i]
  show "ps_inv D M (set_sta i (\<lambda>x. x\<lparr>sleep_q := remove1 f (sleep_q x), sleepq_len := sleepq_len x - 1\<rparr>) ad) (f # L)"
    if f: "f \<in> set (sleep_q (sta_of ad i))"
    using loc f
    by (intro ps_inv_set [OF inv i, where D' = D])
      (auto simp: sta_local_def sta_xmit_frames_def remove1_len dest: in_remove1 split: if_splits)
  show "ps_inv D M (set_sta i (\<lambda>x. x\<lparr>mgmt_sleep_q := remove1 f (mgmt_sleep_q x), mgmt_sleepq_len := mgmt_sleepq_len x - 1\<rparr>) ad) (f # L)"
    if f: "f \<in> set (mgmt_sleep_q (sta_of ad i))"
    using loc f
    by (intro ps_inv_set [OF inv i, where D' = D])
      (auto simp: sta_local_def sta_xmit_frames_def remove1_len dest: in_remove1 split: if_splits)
qed

lemma ps_inv_buffer:
  assumes inv: "ps_inv D M ad (f # L)" and tgt: "tx_target ad f = Some i"
    and sleep: "rtw_get_bcmc_stainfo (tx_stapriv ad) \<noteq> Some i \<Longrightarrow>
      sta_state (sta_of ad i) AND WIFI_SLEEP_STATE \<noteq> 0 \<and> (legacy (sta_of ad i) \<longrightarrow> tim_is_set ad (sta_aid_no (sta_of ad i)))"
    and group: "rtw_get_bcmc_stainfo (tx_stapriv ad) = Some i \<Longrightarrow> tim_is_set ad 0"
  shows "ps_inv D M (set_sta i (\<lambda>x. x\<lparr>sleep_q := sleep_q x @ [f], sleepq_len := sleepq_len x + 1\<rparr>) ad) L"
    and "rtw_get_bcmc_stainfo (tx_stapriv ad) \<noteq> Some i \<Longrightarrow> \<not> xa_ps_dontq (tx_attr ad f) \<Longrightarrow> xa_ra (tx_attr ad f) \<noteq> bcast_addr \<Longrightarrow>
      ps_inv D M (set_sta i (\<lambda>x. x\<lparr>mgmt_sleep_q := mgmt_sleep_q x @ [f], mgmt_sleepq_len := mgmt_sleepq_len x + 1\<rparr>) ad) L"
proof -
  have i: "i < NUM_STA" by (rule target_bound [OF inv tgt])
  note loc = ps_inv_local [OF inv i]
  show "ps_inv D M (set_sta i (\<lambda>x. x\<lparr>sleep_q := sleep_q x @ [f], sleepq_len := sleepq_len x + 1\<rparr>) ad) L"
    using loc tgt sleep group
    by (intro ps_inv_set [OF inv i, where D' = D]) (auto simp: sta_local_def sta_xmit_frames_def split: if_splits)
  show "ps_inv D M (set_sta i (\<lambda>x. x\<lparr>mgmt_sleep_q := mgmt_sleep_q x @ [f], mgmt_sleepq_len := mgmt_sleepq_len x + 1\<rparr>) ad) L"
    if "rtw_get_bcmc_stainfo (tx_stapriv ad) \<noteq> Some i" "\<not> xa_ps_dontq (tx_attr ad f)" "xa_ra (tx_attr ad f) \<noteq> bcast_addr"
    using loc tgt sleep that
    by (intro ps_inv_set [OF inv i, where D' = D]) (auto simp: sta_local_def sta_xmit_frames_def split: if_splits)
qed

lemma ps_inv_plain:
  assumes inv: "ps_inv D M ad L" and i: "i < NUM_STA"
  shows "ps_inv D M (set_sta i (\<lambda>x. x\<lparr>sleepq_ac_len := h x\<rparr>) ad) L"
    "ps_inv D M (set_sta i (\<lambda>x. x\<lparr>tx_q_enable := e\<rparr>) ad) L"
    "ps_inv D M (set_sta i (\<lambda>x. x\<lparr>sta_expire_to := t, sta_state := sta_state x XOR WIFI_STA_ALIVE_CHK_STATE\<rparr>) ad) L"
    "client (tx_stapriv ad) i \<Longrightarrow> ps_inv D M (set_sta i (\<lambda>x. x\<lparr>sta_state := sta_state x OR WIFI_SLEEP_STATE\<rparr>) ad) L"
    "sleep_q (sta_of ad i) = [] \<Longrightarrow> mgmt_sleep_q (sta_of ad i) = [] \<Longrightarrow> sta_state (sta_of ad i) AND WIFI_SLEEP_STATE \<noteq> 0 \<Longrightarrow>
      ps_inv D M (set_sta i (\<lambda>x. x\<lparr>sta_state := sta_state x XOR WIFI_SLEEP_STATE\<rparr>) ad) L"
proof -
  note loc = ps_inv_local [OF inv i]
  have w: "(x XOR WIFI_STA_ALIVE_CHK_STATE) AND WIFI_SLEEP_STATE = x AND WIFI_SLEEP_STATE"
    "(x XOR WIFI_STA_ALIVE_CHK_STATE) AND WIFI_ASOC_STATE = x AND WIFI_ASOC_STATE"
    "(x OR WIFI_SLEEP_STATE) AND WIFI_ASOC_STATE = x AND WIFI_ASOC_STATE"
    "(x XOR WIFI_SLEEP_STATE) AND WIFI_ASOC_STATE = x AND WIFI_ASOC_STATE" for x
    by (simp_all add: WIFI_STA_ALIVE_CHK_STATE_def WIFI_SLEEP_STATE_def WIFI_ASOC_STATE_def and.commute [of _ "_ XOR _"]
        bit.conj_disj_distrib2 bit.conj_xor_distrib2)
  have on: "(x OR WIFI_SLEEP_STATE) AND WIFI_SLEEP_STATE \<noteq> 0" for x
    by (simp add: and.commute WIFI_SLEEP_STATE_def)
  show "ps_inv D M (set_sta i (\<lambda>x. x\<lparr>sleepq_ac_len := h x\<rparr>) ad) L"
    "ps_inv D M (set_sta i (\<lambda>x. x\<lparr>tx_q_enable := e\<rparr>) ad) L"
    "ps_inv D M (set_sta i (\<lambda>x. x\<lparr>sta_expire_to := t, sta_state := sta_state x XOR WIFI_STA_ALIVE_CHK_STATE\<rparr>) ad) L"
    using loc
    by (intro ps_inv_set [OF inv i, where D' = D]; simp add: sta_local_def sta_xmit_frames_def w)+
  show "ps_inv D M (set_sta i (\<lambda>x. x\<lparr>sta_state := sta_state x OR WIFI_SLEEP_STATE\<rparr>) ad) L" if "client (tx_stapriv ad) i"
    using loc that on
    by (intro ps_inv_set [OF inv i, where D' = D]) (auto simp: sta_local_def sta_xmit_frames_def w client_def sta_of_def)
  show "ps_inv D M (set_sta i (\<lambda>x. x\<lparr>sta_state := sta_state x XOR WIFI_SLEEP_STATE\<rparr>) ad) L"
    if "sleep_q (sta_of ad i) = []" "mgmt_sleep_q (sta_of ad i) = []" "sta_state (sta_of ad i) AND WIFI_SLEEP_STATE \<noteq> 0"
    using loc that
    by (intro ps_inv_set [OF inv i, where D' = D]) (auto simp: sta_local_def sta_xmit_frames_def w)
qed

text \<open>The bitmaps.\<close>

lemma and_bit_u8: "((x :: u8) AND 2 ^ k = 0) = (\<not> bit x k)"
  by (simp add: and_exp_eq_0_iff_not_bit)

lemma bmp_is_set_iff: "rtw_bmp_is_set m l a \<longleftrightarrow> a div 8 < l \<and> bit (m ! (a div 8)) (a mod 8)"
  by (simp add: rtw_bmp_is_set_def and_bit_u8 not_le)

lemma same_bit: "a div 8 = b div 8 \<Longrightarrow> a mod 8 = b mod 8 \<Longrightarrow> a = (b :: nat)"
  by (metis div_mult_mod_eq)

lemma bmp_set:
  assumes "length m = l"
  shows "rtw_bmp_is_set (rtw_bmp_set m l a) l b \<longleftrightarrow> a = b \<and> a div 8 < l \<or> rtw_bmp_is_set m l b"
proof (cases "a div 8 = b div 8")
  case True
  have "a mod 8 = b mod 8 \<longleftrightarrow> a = b" using True same_bit by blast
  then show ?thesis using True assms by (simp add: bmp_is_set_iff rtw_bmp_set_def bit_or_iff bit_exp_iff) (metis nth_list_update_eq)
next
  case False
  then have "a \<noteq> b" by blast
  then show ?thesis using False assms by (simp add: bmp_is_set_iff rtw_bmp_set_def)
qed

lemma bmp_clear:
  assumes "length m = l"
  shows "rtw_bmp_is_set (rtw_bmp_clear m l a) l b \<longleftrightarrow> a \<noteq> b \<and> rtw_bmp_is_set m l b"
proof (cases "a div 8 = b div 8")
  case True
  have "a mod 8 = b mod 8 \<longleftrightarrow> a = b" using True same_bit by blast
  then show ?thesis using True assms by (simp add: bmp_is_set_iff rtw_bmp_clear_def bit_and_iff bit_not_iff bit_exp_iff) metis
next
  case False
  then have "a \<noteq> b" by blast
  then show ?thesis using False assms by (simp add: bmp_is_set_iff rtw_bmp_clear_def)
qed

lemma bmp_len: "length (rtw_bmp_set m l a) = length m" "length (rtw_bmp_clear m l a) = length m"
  by (simp_all add: rtw_bmp_set_def rtw_bmp_clear_def)

lemma bmp_sta_of [simp]:
  "sta_of (tim_set a ad) = sta_of ad" "sta_of (tim_clear a ad) = sta_of ad" "sta_of (dz_set a ad) = sta_of ad" "sta_of (dz_clear a ad) = sta_of ad"
  by (simp_all add: fun_eq_iff sta_of_def tim_set_def tim_clear_def dz_set_def dz_clear_def)

lemma bmp_tables:
  assumes "ps_table ad"
  shows "tim_is_set (tim_set a ad) b \<longleftrightarrow> a mod 256 = b mod 256 \<and> a mod 256 div 8 < aid_bmp_len (tx_stapriv ad) \<or> tim_is_set ad b"
    and "tim_is_set (tim_clear a ad) b \<longleftrightarrow> a mod 256 \<noteq> b mod 256 \<and> tim_is_set ad b"
    and "dz_is_set (dz_set a ad) b \<longleftrightarrow> a mod 256 = b mod 256 \<and> a mod 256 div 8 < aid_bmp_len (tx_stapriv ad) \<or> dz_is_set ad b"
    and "dz_is_set (dz_clear a ad) b \<longleftrightarrow> a mod 256 \<noteq> b mod 256 \<and> dz_is_set ad b"
  using assms by (simp_all add: ps_table_def Let_def tim_is_set_def tim_set_def tim_clear_def dz_is_set_def dz_set_def dz_clear_def bmp_set bmp_clear)

lemma bmp_other [simp]:
  "dz_is_set (tim_set a ad) = dz_is_set ad" "dz_is_set (tim_clear a ad) = dz_is_set ad"
  "tim_is_set (dz_set a ad) = tim_is_set ad" "tim_is_set (dz_clear a ad) = tim_is_set ad"
  by (simp_all add: fun_eq_iff tim_is_set_def tim_set_def tim_clear_def dz_is_set_def dz_set_def dz_clear_def)

lemma client_aid:
  assumes "ps_table ad" "client (tx_stapriv ad) i"
  shows "sta_aid_no (sta_of ad i) mod 256 = sta_aid_no (sta_of ad i)" "0 < sta_aid_no (sta_of ad i)"
    "sta_aid_no (sta_of ad i) div 8 < aid_bmp_len (tx_stapriv ad)"
    "client (tx_stapriv ad) j \<Longrightarrow> sta_aid_no (sta_of ad j) = sta_aid_no (sta_of ad i) \<Longrightarrow> j = i"
proof -
  have b: "0 < sta_aid_no (sta_of ad i)" "sta_aid_no (sta_of ad i) < 8 * aid_bmp_len (tx_stapriv ad)" "aid_bmp_len (tx_stapriv ad) \<le> 32"
    using assms by (auto simp: ps_table_def Let_def sta_of_def)
  then show "sta_aid_no (sta_of ad i) mod 256 = sta_aid_no (sta_of ad i)" "0 < sta_aid_no (sta_of ad i)"
    "sta_aid_no (sta_of ad i) div 8 < aid_bmp_len (tx_stapriv ad)" by auto
  show "client (tx_stapriv ad) j \<Longrightarrow> sta_aid_no (sta_of ad j) = sta_aid_no (sta_of ad i) \<Longrightarrow> j = i"
    using assms by (auto simp: ps_table_def Let_def sta_of_def)
qed

text \<open>Changing only the bitmaps.\<close>

lemma ps_inv_bitmaps:
  assumes inv: "ps_inv D M ad L"
    and len: "length tim = aid_bmp_len (tx_stapriv ad)" "length dz = aid_bmp_len (tx_stapriv ad)"
    and ad': "ad' = ad\<lparr>tx_stapriv := (tx_stapriv ad)\<lparr>tim_bitmap := tim, sta_dz_bitmap := dz\<rparr>\<rparr>"
    and loc: "\<And>i. i < NUM_STA \<Longrightarrow> local_of D ad i (sta_of ad i) \<Longrightarrow>
      (if rtw_get_bcmc_stainfo (tx_stapriv ad) = Some i then sleep_q (sta_of ad i) \<noteq> [] \<longrightarrow> tim_is_set ad' 0
       else (sleep_q (sta_of ad i) \<noteq> [] \<or> mgmt_sleep_q (sta_of ad i) \<noteq> []) \<and> legacy (sta_of ad i) \<longrightarrow> tim_is_set ad' (sta_aid_no (sta_of ad i)))"
  shows "ps_inv D M ad' L"
proof -
  let ?t = "(tx_stapriv ad)\<lparr>tim_bitmap := tim, sta_dz_bitmap := dz\<rparr>"
  have look: "rtw_get_stainfo ?t a = rtw_get_stainfo (tx_stapriv ad) a" "rtw_get_bcmc_stainfo ?t = rtw_get_bcmc_stainfo (tx_stapriv ad)" for a
    by (rule lookup_cong; simp)+
  have sta: "sta_of ad' = sta_of ad" by (simp add: ad' fun_eq_iff sta_of_def)
  have tgt: "tx_target ad' = tx_target ad"
    unfolding fun_eq_iff tx_target_def sta using look by (simp add: ad')
  have wf: "sta_wf ?t" by (rule wf_same_table [OF ps_inv_wf [OF inv]]) simp_all
  have cl: "client ?t j = client (tx_stapriv ad) j" for j using look by (simp add: client_def)
  have tab: "ps_table ad'" using ps_inv_table [OF inv] len wf by (simp add: ps_table_def Let_def ad' cl)
  have "local_of D ad' i (sta_of ad i)" if i: "i < NUM_STA" for i
    using ps_inv_local [OF inv i] loc [OF i ps_inv_local [OF inv i]] unfolding tgt
    by (simp add: ad' look sta_local_def split: if_splits)
  then show ?thesis using inv tab by (simp add: ps_inv_def sta) (simp add: ad' tx_frames_def xmit_frames_def)
qed

lemma queue_client:
  assumes "ps_inv D M ad L" "i < NUM_STA" "rtw_get_bcmc_stainfo (tx_stapriv ad) \<noteq> Some i"
    "sleep_q (sta_of ad i) \<noteq> [] \<or> mgmt_sleep_q (sta_of ad i) \<noteq> []"
  shows "client (tx_stapriv ad) i"
  using ps_inv_local [OF assms(1,2)] assms by (auto simp: sta_local_def client_def sta_of_def)

lemma ps_inv_bits:
  assumes inv: "ps_inv D M ad L"
  shows "ps_inv D M (tim_set a ad) L" "ps_inv D M (dz_set a ad) L" "ps_inv D M (dz_clear a ad) L"
    "client (tx_stapriv ad) i \<Longrightarrow> sleep_q (sta_of ad i) = [] \<and> mgmt_sleep_q (sta_of ad i) = [] \<or> \<not> legacy (sta_of ad i) \<Longrightarrow>
      ps_inv D M (tim_clear (sta_aid_no (sta_of ad i)) ad) L"
    "\<forall>b. rtw_get_bcmc_stainfo (tx_stapriv ad) = Some b \<longrightarrow> sleep_q (sta_of ad b) = [] \<Longrightarrow> ps_inv D M (tim_clear 0 ad) L"
proof -
  note tab = ps_inv_table [OF inv]
  have len: "length (tim_bitmap (tx_stapriv ad)) = aid_bmp_len (tx_stapriv ad)" "length (sta_dz_bitmap (tx_stapriv ad)) = aid_bmp_len (tx_stapriv ad)"
    using tab by (simp_all add: ps_table_def Let_def)
  show "ps_inv D M (tim_set a ad) L"
    by (rule ps_inv_bitmaps [OF inv, where dz = "sta_dz_bitmap (tx_stapriv ad)"])
      (auto simp: len bmp_len tim_set_def [symmetric] bmp_tables [OF tab] sta_local_def, simp_all add: tim_set_def len bmp_len)
  show "ps_inv D M (dz_set a ad) L"
    by (rule ps_inv_bitmaps [OF inv, where tim = "tim_bitmap (tx_stapriv ad)"])
      (auto simp: len bmp_len sta_local_def, simp_all add: dz_set_def len bmp_len)
  show "ps_inv D M (dz_clear a ad) L"
    by (rule ps_inv_bitmaps [OF inv, where tim = "tim_bitmap (tx_stapriv ad)"])
      (auto simp: len bmp_len sta_local_def, simp_all add: dz_clear_def len bmp_len)
  show "ps_inv D M (tim_clear (sta_aid_no (sta_of ad i)) ad) L"
    if c: "client (tx_stapriv ad) i" and e: "sleep_q (sta_of ad i) = [] \<and> mgmt_sleep_q (sta_of ad i) = [] \<or> \<not> legacy (sta_of ad i)"
  proof (rule ps_inv_bitmaps [OF inv _ len(2)])
    fix j
    assume j: "j < NUM_STA" and loc: "local_of D ad j (sta_of ad j)"
    have "tim_is_set (tim_clear (sta_aid_no (sta_of ad i)) ad) (sta_aid_no (sta_of ad j))"
      if "rtw_get_bcmc_stainfo (tx_stapriv ad) \<noteq> Some j" "sleep_q (sta_of ad j) \<noteq> [] \<or> mgmt_sleep_q (sta_of ad j) \<noteq> []" "legacy (sta_of ad j)"
    proof -
      have cj: "client (tx_stapriv ad) j" by (rule queue_client [OF inv j that(1,2)])
      then have "j \<noteq> i" using e that by auto
      then have "sta_aid_no (sta_of ad i) mod 256 \<noteq> sta_aid_no (sta_of ad j) mod 256"
        using client_aid(1,4) [OF tab c] client_aid(1) [OF tab cj] cj by metis
      then show ?thesis using loc that by (simp add: bmp_tables [OF tab] sta_local_def)
    qed
    moreover have "tim_is_set (tim_clear (sta_aid_no (sta_of ad i)) ad) 0"
      if "rtw_get_bcmc_stainfo (tx_stapriv ad) = Some j" "sleep_q (sta_of ad j) \<noteq> []"
      using loc that client_aid(1,2) [OF tab c] by (simp add: bmp_tables [OF tab] sta_local_def)
    ultimately show "if rtw_get_bcmc_stainfo (tx_stapriv ad) = Some j
        then sleep_q (sta_of ad j) \<noteq> [] \<longrightarrow> tim_is_set (tim_clear (sta_aid_no (sta_of ad i)) ad) 0
        else (sleep_q (sta_of ad j) \<noteq> [] \<or> mgmt_sleep_q (sta_of ad j) \<noteq> []) \<and> legacy (sta_of ad j) \<longrightarrow>
          tim_is_set (tim_clear (sta_aid_no (sta_of ad i)) ad) (sta_aid_no (sta_of ad j))" by auto
  qed (simp_all add: tim_clear_def bmp_len len)
  show "ps_inv D M (tim_clear 0 ad) L"
    if e: "\<forall>b. rtw_get_bcmc_stainfo (tx_stapriv ad) = Some b \<longrightarrow> sleep_q (sta_of ad b) = []"
  proof (rule ps_inv_bitmaps [OF inv _ len(2)])
    fix j
    assume j: "j < NUM_STA" and loc: "local_of D ad j (sta_of ad j)"
    have "tim_is_set (tim_clear 0 ad) (sta_aid_no (sta_of ad j))"
      if "rtw_get_bcmc_stainfo (tx_stapriv ad) \<noteq> Some j" "sleep_q (sta_of ad j) \<noteq> [] \<or> mgmt_sleep_q (sta_of ad j) \<noteq> []" "legacy (sta_of ad j)"
      using loc that client_aid(1,2) [OF tab queue_client [OF inv j that(1,2)]]
      by (simp add: bmp_tables [OF tab] sta_local_def)
    then show "if rtw_get_bcmc_stainfo (tx_stapriv ad) = Some j then sleep_q (sta_of ad j) \<noteq> [] \<longrightarrow> tim_is_set (tim_clear 0 ad) 0
        else (sleep_q (sta_of ad j) \<noteq> [] \<or> mgmt_sleep_q (sta_of ad j) \<noteq> []) \<and> legacy (sta_of ad j) \<longrightarrow>
          tim_is_set (tim_clear 0 ad) (sta_aid_no (sta_of ad j))" using e by auto
  qed (simp_all add: tim_clear_def bmp_len len)
qed

section \<open>The invariant and the operations that release frames\<close>

lemma ac_of_bound [simp]: "rtw_get_sta_pending up < 4"
  by (simp add: rtw_get_sta_pending_def)

lemma bmc_set [simp]:
  "mac_addr (g (sta_of ad i)) = mac_addr (sta_of ad i) \<Longrightarrow> rtw_get_bcmc_stainfo (tx_stapriv (set_sta i g ad)) = rtw_get_bcmc_stainfo (tx_stapriv ad)"
  "mac_addr (g (sta_of ad i)) = mac_addr (sta_of ad i) \<Longrightarrow> rtw_get_stainfo (tx_stapriv (set_sta i g ad)) a = rtw_get_stainfo (tx_stapriv ad) a"
  by (rule lookup_cong; simp add: set_sta_def sta_of_def upd_sta_mac)+

lemma attr_set [simp]: "tx_attr (set_sta i g ad) = tx_attr ad"
  by (simp add: set_sta_def)

lemma tgt_attr:
  assumes "\<And>a. xa_ra (g a) = xa_ra a" "\<And>a. xa_psta (g a) = xa_psta a"
  shows "tx_target (set_attr f g ad) = tx_target ad"
  using assms by (simp add: fun_eq_iff tx_target_def set_attr_def Let_def split: option.split)

lemma tgt_set:
  assumes "ps_inv D M ad L" "i < NUM_STA" "mac_addr (g (sta_of ad i)) = mac_addr (sta_of ad i)"
    "sta_state (g (sta_of ad i)) AND WIFI_ASOC_STATE = sta_state (sta_of ad i) AND WIFI_ASOC_STATE"
  shows "tx_target (set_sta i g ad) = tx_target ad"
  using assms ps_inv_len [OF assms(1)] by (auto simp: fun_eq_iff tx_target_def Let_def split: option.split)

lemma ps_inv_free: "ps_inv D M ad (f # L) \<Longrightarrow> ps_inv D M (rtw_free_xmitframe f ad) L"
  "ps_inv D M ad (f # L) \<Longrightarrow> ps_inv D M ((rtw_free_xmitframe f ad)\<lparr>tx_drop := n\<rparr>) L"
proof -
  assume inv: "ps_inv D M ad (f # L)"
  let ?t = "(tx_stapriv ad)\<lparr>free_xmit_frames := free_xmit_frames (tx_stapriv ad) @ [f]\<rparr>"
  have look: "rtw_get_stainfo ?t a = rtw_get_stainfo (tx_stapriv ad) a" "rtw_get_bcmc_stainfo ?t = rtw_get_bcmc_stainfo (tx_stapriv ad)" for a
    by (rule lookup_cong; simp)+
  have sta: "sta_of (rtw_free_xmitframe f ad) = sta_of ad" by (simp add: rtw_free_xmitframe_def fun_eq_iff sta_of_def)
  have tgt: "tx_target (rtw_free_xmitframe f ad) = tx_target ad" "tim_is_set (rtw_free_xmitframe f ad) = tim_is_set ad"
    unfolding fun_eq_iff tx_target_def sta using look by (simp_all add: rtw_free_xmitframe_def tim_is_set_def)
  have wf: "sta_wf ?t" by (rule wf_same_table [OF ps_inv_wf [OF inv]]) simp_all
  have cl: "client ?t j = client (tx_stapriv ad) j" for j using look by (simp add: client_def)
  have "ps_table (rtw_free_xmitframe f ad)" using ps_inv_table [OF inv] wf by (simp add: ps_table_def Let_def rtw_free_xmitframe_def cl)
  then show "ps_inv D M (rtw_free_xmitframe f ad) L"
    using inv unfolding ps_inv_def tgt sta
    by (simp add: rtw_free_xmitframe_def look tx_frames_def xmit_frames_def)
  then show "ps_inv D M ((rtw_free_xmitframe f ad)\<lparr>tx_drop := n\<rparr>) L"
    by (subst ps_inv_same [where ad = "rtw_free_xmitframe f ad" and L = L]) simp_all
qed

lemma hal_target: "tx_target ad f = Some i \<Longrightarrow>
    rtw_hal_xmitframe_enqueue f ad = pend_frame i (rtw_get_sta_pending (xa_priority (tx_attr ad f))) f ad"
  "tx_target ad f = Some i \<Longrightarrow> rtw_hal_mgmt_xmitframe_enqueue f ad = pend_frame i 4 f ad"
  by (simp_all add: rtw_hal_xmitframe_enqueue_def rtw_xmit_classifier_def rtw_hal_mgmt_xmitframe_enqueue_def
      rtw_mgmt_xmitframe_enqueue_def HWXMIT_ENTRY_def)

lemma ps_inv_hal:
  assumes "ps_inv D M ad (f # L)"
  shows "ps_inv D M (rtw_hal_xmitframe_enqueue f ad) L"
    and "\<not> xa_ps_dontq (tx_attr ad f) \<Longrightarrow> xa_ra (tx_attr ad f) \<noteq> bcast_addr \<Longrightarrow> ps_inv D M (rtw_hal_mgmt_xmitframe_enqueue f ad) L"
proof -
  show "ps_inv D M (rtw_hal_xmitframe_enqueue f ad) L"
    using ac_of_bound [of "xa_priority (tx_attr ad f)"]
    by (cases "tx_target ad f") (auto simp: rtw_hal_xmitframe_enqueue_def rtw_xmit_classifier_def intro!: ps_inv_free ps_inv_pend assms simp del: ac_of_bound)
  show "ps_inv D M (rtw_hal_mgmt_xmitframe_enqueue f ad) L" if "\<not> xa_ps_dontq (tx_attr ad f)" "xa_ra (tx_attr ad f) \<noteq> bcast_addr"
    using that
    by (cases "tx_target ad f") (auto simp: rtw_hal_mgmt_xmitframe_enqueue_def rtw_mgmt_xmitframe_enqueue_def HWXMIT_ENTRY_def
        intro!: ps_inv_free ps_inv_pend assms)
qed

lemma ps_inv_trigger: "ps_inv D M ad (f # L) \<Longrightarrow> ps_inv D M (trigger_send f ad) L"
  unfolding trigger_send_def by (intro ps_inv_hal(1) ps_inv_attr) simp_all

lemma sta_of_pend:
  assumes "length (stas (tx_stapriv ad)) = NUM_STA" "i < NUM_STA"
  shows "sta_of (pend_frame i ac f ad) j = (if j = i then (sta_of ad i)\<lparr>ac_pending := (ac_pending (sta_of ad i))[ac := ac_pending (sta_of ad i) ! ac @ [f]],
      ac_qcnt := (ac_qcnt (sta_of ad i))[ac := ac_qcnt (sta_of ad i) ! ac + 1]\<rparr> else sta_of ad j)"
  using assms by (simp add: pend_eq sta_of_def)

text \<open>
  Releasing the frames of station \<open>i\<close> changes nothing but its queues, the lists and counters of the hardware's
  queues and the flags of the frames.
\<close>

definition sta_rest :: "sta_info \<Rightarrow> sta_info" where
  "sta_rest x = x\<lparr>sleep_q := [], sleepq_len := 0, mgmt_sleep_q := [], mgmt_sleepq_len := 0, ac_pending := [], ac_qcnt := [], sleepq_ac_len := 0\<rparr>"

definition attr_rest :: "tx_attrib \<Rightarrow> tx_attrib" where
  "attr_rest a = a\<lparr>xa_triggered := False, xa_mdata := False, xa_eosp := False, xa_qsel := 0\<rparr>"

definition tx_rest :: "nat \<Rightarrow> tx_adapter \<Rightarrow> tx_adapter" where
  "tx_rest i ad = ad\<lparr>tx_stapriv := (tx_stapriv ad)\<lparr>stas := (stas (tx_stapriv ad))[i := sta_rest (sta_of ad i)], hw_pending := [], xmit_accnt := []\<rparr>,
     tx_attr := \<lambda>f. attr_rest (tx_attr ad f)\<rparr>"

definition stepped :: "nat \<Rightarrow> tx_adapter \<Rightarrow> tx_adapter \<Rightarrow> bool" where
  "stepped i ad ad' \<longleftrightarrow> tx_rest i ad' = tx_rest i ad"

lemma sta_rest_fields:
  assumes "sta_rest y = sta_rest x"
  shows "sta_state y = sta_state x" "sta_aid_no y = sta_aid_no x" "mac_addr y = mac_addr x" "uapsd_of y k = uapsd_of x k"
    "has_legacy_ac y = has_legacy_ac x" "legacy y = legacy x" "tx_queue y = tx_queue x"
proof -
  have f: "h y = h x" if "\<And>z. h (sta_rest z) = h z" for h :: "sta_info \<Rightarrow> 'z" using arg_cong [OF assms, of h] that by simp
  show "sta_state y = sta_state x" by (rule f) (simp add: sta_rest_def)
  show "sta_aid_no y = sta_aid_no x" by (rule f) (simp add: sta_rest_def)
  show "mac_addr y = mac_addr x" by (rule f) (simp add: sta_rest_def)
  show "uapsd_of y k = uapsd_of x k" by (rule f) (simp add: sta_rest_def uapsd_of_def)
  show "has_legacy_ac y = has_legacy_ac x" by (rule f) (simp add: sta_rest_def)
  show "legacy y = legacy x" by (rule f) (simp add: sta_rest_def legacy_def)
  show "tx_queue y = tx_queue x" by (rule f) (simp add: sta_rest_def)
qed

lemma attr_rest_fields:
  assumes "attr_rest b = attr_rest a"
  shows "xa_ra b = xa_ra a" "xa_psta b = xa_psta a" "xa_priority b = xa_priority a" "xa_ps_dontq b = xa_ps_dontq a"
    "xa_ether_type b = xa_ether_type a" "xa_dhcp b = xa_dhcp a"
  using arg_cong [OF assms, of xa_ra] arg_cong [OF assms, of xa_psta] arg_cong [OF assms, of xa_priority] arg_cong [OF assms, of xa_ps_dontq]
    arg_cong [OF assms, of xa_ether_type] arg_cong [OF assms, of xa_dhcp]
  by (simp_all add: attr_rest_def)

lemma stepped_refl: "stepped i ad ad"
  by (simp add: stepped_def)

lemma stepped_trans: "stepped i ad ad' \<Longrightarrow> stepped i ad' ad'' \<Longrightarrow> stepped i ad ad''"
  by (simp add: stepped_def)

lemma stepped_facts:
  assumes "stepped i ad ad'" "i < NUM_STA" "length (stas (tx_stapriv ad)) = NUM_STA"
  shows "sta_rest (sta_of ad' i) = sta_rest (sta_of ad i)" "j \<noteq> i \<Longrightarrow> sta_of ad' j = sta_of ad j" "tim_is_set ad' = tim_is_set ad"
    "dz_is_set ad' = dz_is_set ad" "rtw_get_stainfo (tx_stapriv ad') a = rtw_get_stainfo (tx_stapriv ad) a"
    "rtw_get_bcmc_stainfo (tx_stapriv ad') = rtw_get_bcmc_stainfo (tx_stapriv ad)" "tx_target ad' = tx_target ad" "tx_out ad' = tx_out ad"
    "client (tx_stapriv ad') j = client (tx_stapriv ad) j" "attr_rest (tx_attr ad' f) = attr_rest (tx_attr ad f)"
    "length (stas (tx_stapriv ad')) = NUM_STA" "tx_ap ad' = tx_ap ad"
    "dz_anyone_exclude_aid0 ad' = dz_anyone_exclude_aid0 ad" "dz_anyone ad' = dz_anyone ad" "tx_wifi_spec ad' = tx_wifi_spec ad"
proof -
  have f: "h ad' = h ad" if "\<And>z. h (tx_rest i z) = h z" for h :: "tx_adapter \<Rightarrow> 'z"
    using arg_cong [OF assms(1) [unfolded stepped_def], of h] that by simp
  have st: "(stas (tx_stapriv ad'))[i := sta_rest (sta_of ad' i)] = (stas (tx_stapriv ad))[i := sta_rest (sta_of ad i)]"
    using arg_cong [OF assms(1) [unfolded stepped_def], of "\<lambda>z. stas (tx_stapriv z)"] by (simp add: tx_rest_def)
  then show len: "length (stas (tx_stapriv ad')) = NUM_STA" using assms(3) by (metis length_list_update)
  show i: "sta_rest (sta_of ad' i) = sta_rest (sta_of ad i)"
    using arg_cong [OF st, of "\<lambda>z. z ! i"] assms(2,3) len by simp
  show o: "sta_of ad' j = sta_of ad j" if "j \<noteq> i" for j
    using arg_cong [OF st, of "\<lambda>z. z ! j"] that by (simp add: sta_of_def)
  show at: "attr_rest (tx_attr ad' f) = attr_rest (tx_attr ad f)" for f
    using fun_cong [OF arg_cong [OF assms(1) [unfolded stepped_def], of tx_attr], of f] by (simp add: tx_rest_def)
  have mac: "mac_addr (sta_of ad' j) = mac_addr (sta_of ad j)" "sta_state (sta_of ad' j) = sta_state (sta_of ad j)" for j
    using sta_rest_fields(1,3) [OF i] o [of j] by (cases "j = i"; simp)+
  have hash: "sta_hash (tx_stapriv ad') = sta_hash (tx_stapriv ad)" by (rule f) (simp add: tx_rest_def)
  show look: "rtw_get_stainfo (tx_stapriv ad') a = rtw_get_stainfo (tx_stapriv ad) a"
    "rtw_get_bcmc_stainfo (tx_stapriv ad') = rtw_get_bcmc_stainfo (tx_stapriv ad)" for a
    using mac hash by (auto intro!: lookup_cong simp: sta_of_def)
  show "tx_target ad' = tx_target ad"
    using attr_rest_fields [OF at] by (simp add: fun_eq_iff tx_target_def Let_def look mac split: option.split)
  show "client (tx_stapriv ad') j = client (tx_stapriv ad) j"
    using mac(2) [of j] by (simp add: client_def look sta_of_def [symmetric])
  show "tim_is_set ad' = tim_is_set ad" by (rule f) (simp add: tx_rest_def tim_is_set_def fun_eq_iff)
  show "dz_is_set ad' = dz_is_set ad" by (rule f) (simp add: tx_rest_def dz_is_set_def fun_eq_iff)
  show "tx_out ad' = tx_out ad" by (rule f) (simp add: tx_rest_def)
  show "tx_ap ad' = tx_ap ad" by (rule f) (simp add: tx_rest_def)
  show "tx_wifi_spec ad' = tx_wifi_spec ad" by (rule f) (simp add: tx_rest_def)
  show "dz_anyone ad' = dz_anyone ad" by (rule f) (simp add: tx_rest_def dz_anyone_def)
  show "dz_anyone_exclude_aid0 ad' = dz_anyone_exclude_aid0 ad" by (rule f) (simp add: tx_rest_def dz_anyone_exclude_aid0_def)
qed

lemma stepped_set: "i < length (stas (tx_stapriv ad)) \<Longrightarrow> sta_rest (g (sta_of ad i)) = sta_rest (sta_of ad i) \<Longrightarrow> stepped i ad (set_sta i g ad)"
  by (simp add: stepped_def tx_rest_def set_sta_def sta_of_def)

lemma stepped_attr: "(\<And>a. attr_rest (g a) = attr_rest a) \<Longrightarrow> stepped i ad (set_attr f g ad)"
  by (auto simp: stepped_def tx_rest_def set_attr_def fun_eq_iff sta_of_def)

lemma stepped_pend: "i < length (stas (tx_stapriv ad)) \<Longrightarrow> stepped i ad (pend_frame i ac f ad)"
  by (simp add: stepped_def tx_rest_def pend_eq sta_of_def sta_rest_def)

lemma stepped_call:
  assumes "stepped i ad ad'"
  shows "tx_calls ad' = tx_calls ad"
proof -
  have "tx_calls (tx_rest i ad') = tx_calls (tx_rest i ad)" using assms by (simp add: stepped_def)
  then show ?thesis by (simp add: tx_rest_def)
qed

text \<open>One frame in hand sent to the hardware's queues.\<close>

lemma trigger_step:
  assumes inv: "ps_inv D M ad (f # L)" and tgt: "tx_target ad f = Some i"
  shows "stepped i ad (trigger_send f ad)"
    and "sta_of (trigger_send f ad) i = (sta_of ad i)
      \<lparr>ac_pending := (ac_pending (sta_of ad i))[rtw_get_sta_pending (xa_priority (tx_attr ad f)) :=
          ac_pending (sta_of ad i) ! rtw_get_sta_pending (xa_priority (tx_attr ad f)) @ [f]],
       ac_qcnt := (ac_qcnt (sta_of ad i))[rtw_get_sta_pending (xa_priority (tx_attr ad f)) :=
          ac_qcnt (sta_of ad i) ! rtw_get_sta_pending (xa_priority (tx_attr ad f)) + 1]\<rparr>"
    and "tx_attr (trigger_send f ad) = (tx_attr ad)(f := (tx_attr ad f)\<lparr>xa_triggered := True\<rparr>)"
proof -
  let ?ad = "set_attr f (\<lambda>a. a\<lparr>xa_triggered := True\<rparr>) ad"
  note i = target_bound [OF inv tgt] and len = ps_inv_len [OF inv]
  have t: "tx_target ?ad f = Some i" using tgt by (subst tgt_attr) simp_all
  then have e: "trigger_send f ad = pend_frame i (rtw_get_sta_pending (xa_priority (tx_attr ad f))) f ?ad"
    by (simp add: trigger_send_def hal_target)
  have "stepped i ad ?ad" by (rule stepped_attr) (simp add: attr_rest_def)
  moreover have "stepped i ?ad (trigger_send f ad)" unfolding e by (rule stepped_pend) (simp add: len i)
  ultimately show "stepped i ad (trigger_send f ad)" by (rule stepped_trans)
  show "sta_of (trigger_send f ad) i = (sta_of ad i)
      \<lparr>ac_pending := (ac_pending (sta_of ad i))[rtw_get_sta_pending (xa_priority (tx_attr ad f)) :=
          ac_pending (sta_of ad i) ! rtw_get_sta_pending (xa_priority (tx_attr ad f)) @ [f]],
       ac_qcnt := (ac_qcnt (sta_of ad i))[rtw_get_sta_pending (xa_priority (tx_attr ad f)) :=
          ac_qcnt (sta_of ad i) ! rtw_get_sta_pending (xa_priority (tx_attr ad f)) + 1]\<rparr>"
    by (simp add: e sta_of_pend len i)
  show "tx_attr (trigger_send f ad) = (tx_attr ad)(f := (tx_attr ad f)\<lparr>xa_triggered := True\<rparr>)"
    by (simp add: e pend_eq set_attr_def)
qed

text \<open>
  Frames \<open>fs\<close> of station \<open>i\<close> have moved to the hardware's queues, each at the end of the queue \<open>cls\<close> names.
\<close>

definition moved :: "nat \<Rightarrow> (nat \<Rightarrow> nat) \<Rightarrow> nat list \<Rightarrow> tx_adapter \<Rightarrow> tx_adapter \<Rightarrow> bool" where
  "moved i cls fs ad ad' \<longleftrightarrow>
     stepped i ad ad' \<and>
     (\<forall>ac < 5. ac_pending (sta_of ad' i) ! ac = ac_pending (sta_of ad i) ! ac @ filter (\<lambda>f. cls f = ac) fs) \<and>
     (\<forall>f. f \<notin> set fs \<longrightarrow> tx_attr ad' f = tx_attr ad f) \<and> (\<forall>f \<in> set fs. xa_triggered (tx_attr ad' f))"

lemma moved_Nil: "moved i cls [] ad ad"
  by (simp add: moved_def stepped_refl)

lemma moved_append: "moved i cls fs ad ad' \<Longrightarrow> moved i cls gs ad' ad'' \<Longrightarrow> moved i cls (fs @ gs) ad ad''"
  by (auto simp: moved_def intro: stepped_trans)

text \<open>
  What the loops over a queue have in common: each round takes its first frame.
\<close>

locale drain =
  fixes inv :: "'s \<Rightarrow> bool" and queue :: "'s \<Rightarrow> 'f list" and step :: "'f \<Rightarrow> 's \<Rightarrow> 's"
    and rel :: "'f list \<Rightarrow> 's \<Rightarrow> 's \<Rightarrow> bool"
  assumes step_inv: "inv s \<Longrightarrow> queue s = f # fs \<Longrightarrow> inv (step f s)"
    and step_queue: "inv s \<Longrightarrow> queue s = f # fs \<Longrightarrow> queue (step f s) = fs"
    and step_rel: "inv s \<Longrightarrow> queue s = f # fs \<Longrightarrow> rel [f] s (step f s)"
    and rel_Nil: "rel [] s s"
    and rel_append: "rel fs s t \<Longrightarrow> rel gs t u \<Longrightarrow> rel (fs @ gs) s u"
begin

lemma drain_part:
  "inv s \<Longrightarrow> queue s = fs @ gs \<Longrightarrow>
   inv (foldl (\<lambda>s f. step f s) s fs) \<and> queue (foldl (\<lambda>s f. step f s) s fs) = gs \<and> rel fs s (foldl (\<lambda>s f. step f s) s fs)"
proof (induction fs arbitrary: s)
  case (Cons f fs)
  have q: "queue s = f # (fs @ gs)" using Cons.prems by simp
  note IH = Cons.IH [OF step_inv [OF Cons.prems(1) q] step_queue [OF Cons.prems(1) q]]
  show ?case using IH rel_append [OF step_rel [OF Cons.prems(1) q]] by auto
qed (simp add: rel_Nil)

lemmas drain_all = drain_part [where gs = "[]", simplified]

end

text \<open>Where the rounds mark the frames, the last frame is the one that says there is no more data.\<close>

locale marked_drain = drain +
  fixes plain :: "'a \<Rightarrow> bool" and more_data :: "'a \<Rightarrow> 'b \<Rightarrow> bool"
  assumes marked_distinct: "inv s \<Longrightarrow> distinct (queue s)"
    and step_plain: "inv s \<Longrightarrow> queue s = f # fs \<Longrightarrow> plain s \<Longrightarrow> plain (step f s)"
    and step_more: "inv s \<Longrightarrow> queue s = f # fs \<Longrightarrow> plain s \<Longrightarrow> more_data (step f s) f \<longleftrightarrow> fs \<noteq> []"
    and rel_more: "rel fs s t \<Longrightarrow> f \<notin> set fs \<Longrightarrow> more_data t f = more_data s f"
begin

lemma drain_more:
  "inv s \<Longrightarrow> plain s \<Longrightarrow> queue s = fs \<Longrightarrow> f \<in> set fs \<Longrightarrow> more_data (foldl (\<lambda>s f. step f s) s fs) f \<longleftrightarrow> f \<noteq> last fs"
proof (induction fs arbitrary: s)
  case (Cons g fs)
  note q = Cons.prems(3)
  have inv: "inv (step g s)" "queue (step g s) = fs" "plain (step g s)"
    using step_inv step_queue step_plain Cons.prems by blast+
  have g: "g \<notin> set fs" using marked_distinct [OF Cons.prems(1)] q by simp
  show ?case
  proof (cases "f = g")
    case True
    have "rel fs (step g s) (foldl (\<lambda>s f. step f s) (step g s) fs)" using drain_all [of "step g s"] inv by simp
    then have "more_data (foldl (\<lambda>s f. step f s) (step g s) fs) g \<longleftrightarrow> fs \<noteq> []"
      using rel_more g step_more [OF Cons.prems(1) q Cons.prems(2)] by blast
    then show ?thesis using True g by auto
  next
    case False
    then show ?thesis using Cons.IH [OF inv(1,3,2)] Cons.prems(4) by auto
  qed
qed simp

end

lemma count_le_1_distinct: "(\<And>f. count (mset xs) f \<le> 1) \<Longrightarrow> distinct xs"
proof (induction xs)
  case (Cons x xs)
  have "count (mset xs) f \<le> count (mset (x # xs)) f" for f by simp
  then have "count (mset xs) f \<le> 1" for f using Cons.prems [of f] order_trans by blast
  moreover have "count (mset xs) x = 0" using Cons.prems [of x] by simp
  ultimately show ?case using Cons.IH by (simp add: count_mset_0_iff)
qed simp

lemma queue_distinct:
  assumes "ps_inv D M ad L" "i < NUM_STA"
  shows "distinct (sleep_q (sta_of ad i))" "distinct (mgmt_sleep_q (sta_of ad i))" "ac < 5 \<Longrightarrow> distinct (ac_pending (sta_of ad i) ! ac)"
    "distinct (tx_queue (sta_of ad i))" "set (sleep_q (sta_of ad i)) \<inter> set (mgmt_sleep_q (sta_of ad i)) = {}"
    "distinct (concat (ac_pending (sta_of ad i)))"
proof -
  have "count (sta_xmit_frames (sta_of ad i)) f \<le> count M f" for f
    using sleep_len_bound(3) [OF assms] by (rule mset_subset_eq_count)
  moreover have "count M f \<le> 1" for f using assms(1) by (simp add: ps_inv_def)
  ultimately have "count (sta_xmit_frames (sta_of ad i)) f \<le> 1" for f using order_trans by blast
  then have d: "distinct (tx_queue (sta_of ad i) @ sleep_q (sta_of ad i) @ mgmt_sleep_q (sta_of ad i) @ concat (ac_pending (sta_of ad i)))"
    unfolding sta_xmit_frames_def by (rule count_le_1_distinct)
  then show "distinct (sleep_q (sta_of ad i))" "distinct (mgmt_sleep_q (sta_of ad i))" "distinct (tx_queue (sta_of ad i))"
    "set (sleep_q (sta_of ad i)) \<inter> set (mgmt_sleep_q (sta_of ad i)) = {}" "distinct (concat (ac_pending (sta_of ad i)))"
    by auto
  show "distinct (ac_pending (sta_of ad i) ! ac)" if "ac < 5"
  proof -
    have "length (ac_pending (sta_of ad i)) = 5" using ps_inv_local [OF assms] by (simp add: sta_local_def)
    then have "ac_pending (sta_of ad i) ! ac \<in> set (ac_pending (sta_of ad i))" using that by simp
    moreover have "distinct (concat (ac_pending (sta_of ad i)))" using d by simp
    ultimately show ?thesis by (simp add: distinct_concat_iff)
  qed
qed

lemma len_pos: "n < 2 ^ 32 \<Longrightarrow> 0 < (of_nat n :: u32) \<longleftrightarrow> n \<noteq> 0"
  using u32_len_0 [of n] by (simp add: word_gt_0)

lemma release_mgmt_step:
  assumes inv: "ps_inv D M ad L" and i: "i < NUM_STA" and q: "mgmt_sleep_q (sta_of ad i) = f # fs"
  shows "ps_inv D M (release_mgmt i f ad) L" "moved i (\<lambda>_. 4) [f] ad (release_mgmt i f ad)"
    "mgmt_sleep_q (sta_of (release_mgmt i f ad) i) = fs" "sleep_q (sta_of (release_mgmt i f ad) i) = sleep_q (sta_of ad i)"
    "xa_mdata (tx_attr (release_mgmt i f ad) f) \<longleftrightarrow> fs \<noteq> []" "sleepq_ac_len (sta_of (release_mgmt i f ad) i) = sleepq_ac_len (sta_of ad i)"
proof -
  note len = ps_inv_len [OF inv] and loc = ps_inv_local [OF inv i]
  let ?ad1 = "set_sta i (\<lambda>x. x\<lparr>mgmt_sleep_q := remove1 f (mgmt_sleep_q x), mgmt_sleepq_len := mgmt_sleepq_len x - 1\<rparr>) ad"
  let ?ad2 = "set_attr f (\<lambda>a. a\<lparr>xa_mdata := 0 < mgmt_sleepq_len (sta_of ?ad1 i), xa_triggered := True\<rparr>) ?ad1"
  have inv1: "ps_inv D M ?ad1 (f # L)" by (rule ps_inv_take(2) [OF inv i]) (simp add: q)
  have inv2: "ps_inv D M ?ad2 (f # L)" by (rule ps_inv_attr [OF inv1]) simp_all
  have f: "tx_target ad f = Some i" "\<not> xa_ps_dontq (tx_attr ad f)" "xa_ra (tx_attr ad f) \<noteq> bcast_addr"
    using loc q by (simp_all add: sta_local_def)
  have t1: "tx_target ?ad1 = tx_target ad" by (rule tgt_set [OF inv i]) simp_all
  have t: "tx_target ?ad2 f = Some i" using f(1) t1 by (subst tgt_attr) simp_all
  have e: "release_mgmt i f ad = pend_frame i 4 f ?ad2" using t by (simp add: release_mgmt_def Let_def hal_target)
  have bound: "length fs < 2 ^ 32" using sleep_len_bound(2) [OF inv i] q by simp
  have n: "mgmt_sleepq_len (sta_of ad i) - 1 = of_nat (length fs)" using loc q by (simp add: sta_local_def)
  show "ps_inv D M (release_mgmt i f ad) L" unfolding e by (rule ps_inv_pend [OF inv2 t]) (simp_all add: f)
  have "stepped i ad ?ad1" by (rule stepped_set) (simp_all add: len i sta_rest_def)
  moreover have "stepped i ?ad1 ?ad2" by (rule stepped_attr) (simp add: attr_rest_def)
  moreover have "stepped i ?ad2 (release_mgmt i f ad)" unfolding e by (rule stepped_pend) (use len i in \<open>simp add: set_sta_def\<close>)
  ultimately have st: "stepped i ad (release_mgmt i f ad)" by (blast intro: stepped_trans)
  have l2: "length (stas (tx_stapriv ?ad2)) = NUM_STA" using ps_inv_len [OF inv2] .
  have sta: "sta_of (release_mgmt i f ad) i = (sta_of ad i)\<lparr>mgmt_sleep_q := fs, mgmt_sleepq_len := mgmt_sleepq_len (sta_of ad i) - 1,
      ac_pending := (ac_pending (sta_of ad i))[4 := ac_pending (sta_of ad i) ! 4 @ [f]],
      ac_qcnt := (ac_qcnt (sta_of ad i))[4 := ac_qcnt (sta_of ad i) ! 4 + 1]\<rparr>"
    unfolding e sta_of_pend [OF l2 i] using len i q by simp
  have at: "tx_attr (release_mgmt i f ad) = (tx_attr ad)(f := (tx_attr ad f)\<lparr>xa_mdata := fs \<noteq> [], xa_triggered := True\<rparr>)"
    using len i n len_pos [OF bound] by (simp add: e pend_eq set_attr_def)
  show "moved i (\<lambda>_. 4) [f] ad (release_mgmt i f ad)"
    using st loc by (auto simp: moved_def sta at sta_local_def nth_list_update)
  show "mgmt_sleep_q (sta_of (release_mgmt i f ad) i) = fs" "sleep_q (sta_of (release_mgmt i f ad) i) = sleep_q (sta_of ad i)"
    "xa_mdata (tx_attr (release_mgmt i f ad) f) \<longleftrightarrow> fs \<noteq> []" "sleepq_ac_len (sta_of (release_mgmt i f ad) i) = sleepq_ac_len (sta_of ad i)"
    by (simp_all add: sta at)
qed

lemma moved_mdata: "moved i cls fs ad ad' \<Longrightarrow> f \<notin> set fs \<Longrightarrow> xa_mdata (tx_attr ad' f) = xa_mdata (tx_attr ad f)"
  by (simp add: moved_def)

interpretation mgmt: marked_drain "\<lambda>ad. ps_inv D M ad L \<and> i < NUM_STA" "\<lambda>ad. mgmt_sleep_q (sta_of ad i)" "release_mgmt i"
    "\<lambda>fs ad ad'. moved i (\<lambda>_. 4) fs ad ad' \<and> sleep_q (sta_of ad' i) = sleep_q (sta_of ad i)"
    "\<lambda>_. True" "\<lambda>ad f. xa_mdata (tx_attr ad f)" for D M L i
  by unfold_locales (auto simp: release_mgmt_step queue_distinct moved_Nil moved_mdata intro: moved_append)

definition classes :: "(nat \<Rightarrow> nat) \<Rightarrow> tx_adapter \<Rightarrow> bool" where
  "classes cls ad \<longleftrightarrow> (\<forall>f. cls f = rtw_get_sta_pending (xa_priority (tx_attr ad f)))"

lemma classes_stepped: "stepped i ad ad' \<Longrightarrow> i < NUM_STA \<Longrightarrow> length (stas (tx_stapriv ad)) = NUM_STA \<Longrightarrow> classes cls ad' = classes cls ad"
  using stepped_facts(10) attr_rest_fields(3) unfolding classes_def by metis

text \<open>Sending the first frame of the data buffer, whatever flags it was given in between.\<close>

lemma send_step:
  assumes inv: "ps_inv D M ad L" and i: "i < NUM_STA" and cls: "classes cls ad" and q: "sleep_q (sta_of ad i) = f # fs"
    and st: "stepped i ad ad2" and inv2: "ps_inv D M ad2 (f # L)"
    and sta2: "sleep_q (sta_of ad2 i) = fs" "mgmt_sleep_q (sta_of ad2 i) = mgmt_sleep_q (sta_of ad i)" "ac_pending (sta_of ad2 i) = ac_pending (sta_of ad i)"
    and at2: "\<And>f'. f' \<noteq> f \<Longrightarrow> tx_attr ad2 f' = tx_attr ad f'"
  shows "ps_inv D M (trigger_send f ad2) L" "classes cls (trigger_send f ad2)" "moved i cls [f] ad (trigger_send f ad2)"
    "sleep_q (sta_of (trigger_send f ad2) i) = fs" "mgmt_sleep_q (sta_of (trigger_send f ad2) i) = mgmt_sleep_q (sta_of ad i)"
    "xa_mdata (tx_attr (trigger_send f ad2) f) = xa_mdata (tx_attr ad2 f)" "sleepq_ac_len (sta_of (trigger_send f ad2) i) = sleepq_ac_len (sta_of ad2 i)"
proof -
  note len = ps_inv_len [OF inv] and loc = ps_inv_local [OF inv i]
  have "tx_target ad f = Some i" using loc q by (simp add: sta_local_def)
  then have t: "tx_target ad2 f = Some i" using stepped_facts(7) [OF st i len] by simp
  note tr = trigger_step [OF inv2 t]
  have st': "stepped i ad (trigger_send f ad2)" by (rule stepped_trans [OF st tr(1)])
  have c: "rtw_get_sta_pending (xa_priority (tx_attr ad2 f)) = cls f"
    using classes_stepped [OF st i len, of cls] cls by (simp add: classes_def)
  show "ps_inv D M (trigger_send f ad2) L" by (rule ps_inv_trigger [OF inv2])
  show "classes cls (trigger_send f ad2)" using classes_stepped [OF st' i len] cls by simp
  show "moved i cls [f] ad (trigger_send f ad2)"
    using st' at2 loc by (auto simp: moved_def tr sta2 c sta_local_def nth_list_update)
  show "sleep_q (sta_of (trigger_send f ad2) i) = fs" "mgmt_sleep_q (sta_of (trigger_send f ad2) i) = mgmt_sleep_q (sta_of ad i)"
    "xa_mdata (tx_attr (trigger_send f ad2) f) = xa_mdata (tx_attr ad2 f)" "sleepq_ac_len (sta_of (trigger_send f ad2) i) = sleepq_ac_len (sta_of ad2 i)"
    by (simp_all add: tr sta2)
qed

lemma take_data_step:
  assumes inv: "ps_inv D M ad L" and i: "i < NUM_STA" and q: "sleep_q (sta_of ad i) = f # fs"
  shows "stepped i ad (take_data i f ad)" "ps_inv D M (take_data i f ad) (f # L)"
    "sta_of (take_data i f ad) i = (sta_of ad i)\<lparr>sleep_q := fs, sleepq_len := sleepq_len (sta_of ad i) - 1\<rparr>"
    "tx_attr (take_data i f ad) = (tx_attr ad)(f := (tx_attr ad f)\<lparr>xa_mdata := fs \<noteq> []\<rparr>)"
proof -
  note len = ps_inv_len [OF inv] and loc = ps_inv_local [OF inv i]
  let ?ad1 = "set_sta i (\<lambda>x. x\<lparr>sleep_q := remove1 f (sleep_q x), sleepq_len := sleepq_len x - 1\<rparr>) ad"
  have inv1: "ps_inv D M ?ad1 (f # L)" by (rule ps_inv_take(1) [OF inv i]) (simp add: q)
  have n: "sleepq_len (sta_of ad i) - 1 = of_nat (length fs)" using loc q by (simp add: sta_local_def)
  have bound: "length fs < 2 ^ 32" using sleep_len_bound(1) [OF inv i] q by simp
  show "ps_inv D M (take_data i f ad) (f # L)" unfolding take_data_def Let_def by (rule ps_inv_attr [OF inv1]) simp_all
  have "stepped i ad ?ad1" by (rule stepped_set) (simp_all add: len i sta_rest_def)
  moreover have "stepped i ?ad1 (take_data i f ad)"
    unfolding take_data_def Let_def by (rule stepped_attr) (simp add: attr_rest_def)
  ultimately show "stepped i ad (take_data i f ad)" by (rule stepped_trans)
  show "sta_of (take_data i f ad) i = (sta_of ad i)\<lparr>sleep_q := fs, sleepq_len := sleepq_len (sta_of ad i) - 1\<rparr>"
    using len i q by (simp add: take_data_def Let_def)
  show "tx_attr (take_data i f ad) = (tx_attr ad)(f := (tx_attr ad f)\<lparr>xa_mdata := fs \<noteq> []\<rparr>)"
    using len i n len_pos [OF bound] by (simp add: take_data_def Let_def set_attr_def)
qed

lemma count_delivery_step:
  assumes inv: "ps_inv D M ad L" and i: "i < NUM_STA"
  shows "stepped i ad (count_delivery i f ad)" "ps_inv D M (count_delivery i f ad) L"
    "sta_of (count_delivery i f ad) i = (sta_of ad i)\<lparr>sleepq_ac_len := sleepq_ac_len (sta_of ad i) - 1\<rparr>"
    "f' \<noteq> f \<Longrightarrow> tx_attr (count_delivery i f ad) f' = tx_attr ad f'"
proof -
  note len = ps_inv_len [OF inv]
  let ?ad1 = "set_sta i (\<lambda>x. x\<lparr>sleepq_ac_len := sleepq_ac_len x - 1\<rparr>) ad"
  have inv1: "ps_inv D M ?ad1 L" by (rule ps_inv_plain(1) [OF inv i])
  show "ps_inv D M (count_delivery i f ad) L" unfolding count_delivery_def Let_def by (rule ps_inv_attr [OF inv1]) simp_all
  have "stepped i ad ?ad1" by (rule stepped_set) (simp_all add: len i sta_rest_def)
  moreover have "stepped i ?ad1 (count_delivery i f ad)"
    unfolding count_delivery_def Let_def by (rule stepped_attr) (simp add: attr_rest_def)
  ultimately show "stepped i ad (count_delivery i f ad)" by (rule stepped_trans)
  show "sta_of (count_delivery i f ad) i = (sta_of ad i)\<lparr>sleepq_ac_len := sleepq_ac_len (sta_of ad i) - 1\<rparr>"
    using len i by (simp add: count_delivery_def Let_def)
  show "f' \<noteq> f \<Longrightarrow> tx_attr (count_delivery i f ad) f' = tx_attr ad f'"
    using len i by (simp add: count_delivery_def Let_def set_attr_def)
qed

lemma release_data_step:
  assumes inv: "ps_inv D M ad L" and i: "i < NUM_STA" and cls: "classes cls ad" and q: "sleep_q (sta_of ad i) = f # fs"
  shows "ps_inv D M (release_data i f ad) L" "classes cls (release_data i f ad)" "moved i cls [f] ad (release_data i f ad)"
    "sleep_q (sta_of (release_data i f ad) i) = fs" "mgmt_sleep_q (sta_of (release_data i f ad) i) = mgmt_sleep_q (sta_of ad i)"
    "uapsd_of (sta_of ad i) (xa_priority (tx_attr ad f)) AND 2 = 0 \<Longrightarrow> xa_mdata (tx_attr (release_data i f ad) f) \<longleftrightarrow> fs \<noteq> []"
proof -
  define w where "w \<longleftrightarrow> uapsd_of (sta_of ad i) (xa_priority (tx_attr ad f)) AND 2 \<noteq> 0"
  define ad2 where "ad2 = (if w then count_delivery i f (take_data i f ad) else take_data i f ad)"
  have e: "release_data i f ad = trigger_send f ad2" by (simp add: release_data_def Let_def w_def ad2_def)
  note t = take_data_step [OF inv i q]
  note c = count_delivery_step [OF t(2) i, where f = f]
  have "stepped i ad ad2" "ps_inv D M ad2 (f # L)" "sleep_q (sta_of ad2 i) = fs" "mgmt_sleep_q (sta_of ad2 i) = mgmt_sleep_q (sta_of ad i)"
    "ac_pending (sta_of ad2 i) = ac_pending (sta_of ad i)" "\<And>f'. f' \<noteq> f \<Longrightarrow> tx_attr ad2 f' = tx_attr ad f'"
    using t c stepped_trans [OF t(1) c(1)] by (simp_all add: ad2_def)
  note s = send_step [OF inv i cls q this]
  show "ps_inv D M (release_data i f ad) L" "classes cls (release_data i f ad)" "moved i cls [f] ad (release_data i f ad)"
    "sleep_q (sta_of (release_data i f ad) i) = fs" "mgmt_sleep_q (sta_of (release_data i f ad) i) = mgmt_sleep_q (sta_of ad i)"
    unfolding e using s(1,2,3,4,5) by simp_all
  show "uapsd_of (sta_of ad i) (xa_priority (tx_attr ad f)) AND 2 = 0 \<Longrightarrow> xa_mdata (tx_attr (release_data i f ad) f) \<longleftrightarrow> fs \<noteq> []"
    using s(6) t(4) by (simp add: e ad2_def w_def)
qed

definition ps_ready :: "(nat \<Rightarrow> nat \<Rightarrow> int) \<Rightarrow> nat multiset \<Rightarrow> nat list \<Rightarrow> nat \<Rightarrow> (nat \<Rightarrow> nat) \<Rightarrow> tx_adapter \<Rightarrow> bool" where
  "ps_ready D M L i cls ad \<longleftrightarrow> ps_inv D M ad L \<and> i < NUM_STA \<and> classes cls ad"

definition no_trigger :: "sta_info \<Rightarrow> bool" where
  "no_trigger x \<longleftrightarrow> (\<forall>k. uapsd_of x k AND 2 = 0)"

lemma moved_no_trigger:
  assumes "moved i cls fs ad ad'" "ps_ready D M L i cls ad" "no_trigger (sta_of ad i)"
  shows "no_trigger (sta_of ad' i)"
  using assms sta_rest_fields(4) [OF stepped_facts(1) [of i ad ad']] ps_inv_len [of D M ad L]
  by (simp add: no_trigger_def moved_def ps_ready_def)

interpretation data: marked_drain "ps_ready D M L i cls" "\<lambda>ad. sleep_q (sta_of ad i)" "release_data i"
    "\<lambda>fs ad ad'. moved i cls fs ad ad' \<and> mgmt_sleep_q (sta_of ad' i) = mgmt_sleep_q (sta_of ad i)" "\<lambda>ad. no_trigger (sta_of ad i)" "\<lambda>ad f. xa_mdata (tx_attr ad f)" for D M L i cls
proof unfold_locales
  fix ad f fs
  assume r: "ps_ready D M L i cls ad" and q: "sleep_q (sta_of ad i) = f # fs"
  then have a: "ps_inv D M ad L" "i < NUM_STA" "classes cls ad" by (simp_all add: ps_ready_def)
  note s = release_data_step [OF a q]
  show "ps_ready D M L i cls (release_data i f ad)" using s a by (simp add: ps_ready_def)
  show "sleep_q (sta_of (release_data i f ad) i) = fs" "moved i cls [f] ad (release_data i f ad) \<and>
      mgmt_sleep_q (sta_of (release_data i f ad) i) = mgmt_sleep_q (sta_of ad i)" using s by simp_all
  show "no_trigger (sta_of ad i) \<Longrightarrow> no_trigger (sta_of (release_data i f ad) i)" by (rule moved_no_trigger [OF s(3) r])
  show "no_trigger (sta_of ad i) \<Longrightarrow> xa_mdata (tx_attr (release_data i f ad) f) \<longleftrightarrow> fs \<noteq> []"
    using s(6) by (simp add: no_trigger_def)
qed (auto simp: ps_ready_def queue_distinct moved_Nil moved_mdata intro: moved_append)

lemma bmc_step:
  assumes r: "ps_ready D M L b cls ad" and q: "sleep_q (sta_of ad b) = f # fs"
  shows "ps_ready D M L b cls (trigger_send f (take_data b f ad))" "sleep_q (sta_of (trigger_send f (take_data b f ad)) b) = fs"
    "moved b cls [f] ad (trigger_send f (take_data b f ad))" "xa_mdata (tx_attr (trigger_send f (take_data b f ad)) f) \<longleftrightarrow> fs \<noteq> []"
    "ps_ready D M L b cls (release_bmc b final f ad)" "sleep_q (sta_of (release_bmc b final f ad) b) = fs"
    "moved b cls [f] ad (release_bmc b final f ad)" "xa_mdata (tx_attr (release_bmc b final f ad) f) \<longleftrightarrow> fs \<noteq> [] \<and> \<not> final"
proof -
  have a: "ps_inv D M ad L" "b < NUM_STA" "classes cls ad" using r by (simp_all add: ps_ready_def)
  note t = take_data_step [OF a(1,2) q]
  have "sleep_q (sta_of (take_data b f ad) b) = fs" "mgmt_sleep_q (sta_of (take_data b f ad) b) = mgmt_sleep_q (sta_of ad b)"
    "ac_pending (sta_of (take_data b f ad) b) = ac_pending (sta_of ad b)" "\<And>f'. f' \<noteq> f \<Longrightarrow> tx_attr (take_data b f ad) f' = tx_attr ad f'"
    using t by simp_all
  note s = send_step [OF a q t(1,2) this]
  show "ps_ready D M L b cls (trigger_send f (take_data b f ad))" "sleep_q (sta_of (trigger_send f (take_data b f ad)) b) = fs"
    "moved b cls [f] ad (trigger_send f (take_data b f ad))" "xa_mdata (tx_attr (trigger_send f (take_data b f ad)) f) \<longleftrightarrow> fs \<noteq> []"
    using s t a by (simp_all add: ps_ready_def)
  define ad1 where "ad1 = (if final then set_attr f (\<lambda>a. a\<lparr>xa_mdata := False\<rparr>) (take_data b f ad) else take_data b f ad)"
  define ad2 where "ad2 = (if xmitframe_hiq_filter ad1 f then set_attr f (\<lambda>a. a\<lparr>xa_qsel := QSLT_HIGH\<rparr>) ad1 else ad1)"
  have e: "release_bmc b final f ad = trigger_send f ad2" by (simp add: release_bmc_def Let_def ad1_def ad2_def)
  have "stepped b (take_data b f ad) ad1" "stepped b ad1 ad2"
    by (simp_all add: ad1_def ad2_def stepped_refl stepped_attr attr_rest_def)
  then have st: "stepped b ad ad2" using t(1) stepped_trans by blast
  have inv2: "ps_inv D M ad2 (f # L)" using t(2) by (simp add: ad1_def ad2_def ps_inv_attr)
  have "sleep_q (sta_of ad2 b) = fs" "mgmt_sleep_q (sta_of ad2 b) = mgmt_sleep_q (sta_of ad b)"
    "ac_pending (sta_of ad2 b) = ac_pending (sta_of ad b)" "\<And>f'. f' \<noteq> f \<Longrightarrow> tx_attr ad2 f' = tx_attr ad f'"
    using t by (simp_all add: ad1_def ad2_def)
  note s2 = send_step [OF a q st inv2 this]
  have m: "xa_mdata (tx_attr ad2 f) \<longleftrightarrow> fs \<noteq> [] \<and> \<not> final" using t(4) by (simp add: ad1_def ad2_def)
  show "ps_ready D M L b cls (release_bmc b final f ad)" "sleep_q (sta_of (release_bmc b final f ad) b) = fs"
    "moved b cls [f] ad (release_bmc b final f ad)" "xa_mdata (tx_attr (release_bmc b final f ad) f) \<longleftrightarrow> fs \<noteq> [] \<and> \<not> final"
    unfolding e using s2 a m by (simp_all add: ps_ready_def)
qed

lemma ready_distinct: "ps_ready D M L b cls ad \<Longrightarrow> distinct (sleep_q (sta_of ad b))"
  by (auto simp: ps_ready_def queue_distinct)

interpretation group: marked_drain "ps_ready D M L b cls" "\<lambda>ad. sleep_q (sta_of ad b)" "\<lambda>f ad. trigger_send f (take_data b f ad)"
    "moved b cls" "\<lambda>_. True" "\<lambda>ad f. xa_mdata (tx_attr ad f)" for D M L b cls
  by unfold_locales (erule (1) bmc_step | erule ready_distinct | rule moved_Nil TrueI | erule (1) moved_append | erule (1) moved_mdata)+

interpretation hiq: marked_drain "ps_ready D M L b cls" "\<lambda>ad. sleep_q (sta_of ad b)" "release_bmc b False"
    "moved b cls" "\<lambda>_. True" "\<lambda>ad f. xa_mdata (tx_attr ad f)" for D M L b cls
  by unfold_locales
    (erule (1) bmc_step | erule ready_distinct | rule moved_Nil TrueI | erule (1) moved_append | erule (1) moved_mdata | simp add: bmc_step(8))+

section \<open>Waking up\<close>

text \<open>Every frame is for one station, so the buffers of two stations share none.\<close>

lemma queue_target:
  assumes "ps_inv D M ad L" "i < NUM_STA"
  shows "f \<in> set (sleep_q (sta_of ad i)) \<union> set (mgmt_sleep_q (sta_of ad i)) \<Longrightarrow> tx_target ad f = Some i"
    "ac < 5 \<Longrightarrow> f \<in> set (ac_pending (sta_of ad i) ! ac) \<Longrightarrow> tx_target ad f = Some i"
  using ps_inv_local [OF assms] unfolding sta_local_def by blast+

lemma one_station:
  assumes "ps_inv D M ad L" "i < NUM_STA" "j < NUM_STA" "f \<in> set (sleep_q (sta_of ad i)) \<union> set (mgmt_sleep_q (sta_of ad i))"
    "f \<in> set (sleep_q (sta_of ad j)) \<union> set (mgmt_sleep_q (sta_of ad j))"
  shows "i = j"
  using queue_target(1) [OF assms(1,2,4)] queue_target(1) [OF assms(1,3,5)] by simp

lemma ready_classes: "ps_inv D M ad L \<Longrightarrow> i < NUM_STA \<Longrightarrow> ps_ready D M L i (\<lambda>f. rtw_get_sta_pending (xa_priority (tx_attr ad f))) ad"
  by (simp add: ps_ready_def classes_def)

lemma bmc_bound: "ps_inv D M ad L \<Longrightarrow> rtw_get_bcmc_stainfo (tx_stapriv ad) = Some b \<Longrightarrow> b < NUM_STA"
  by (auto simp: rtw_get_bcmc_stainfo_def intro: lookup_bound [OF ps_inv_wf])

lemma sleepq_len_0:
  assumes "ps_inv D M ad L" "i < NUM_STA"
  shows "sleepq_len (sta_of ad i) = 0 \<longleftrightarrow> sleep_q (sta_of ad i) = []" "mgmt_sleepq_len (sta_of ad i) = 0 \<longleftrightarrow> mgmt_sleep_q (sta_of ad i) = []"
  using ps_inv_local [OF assms] sleep_len_bound(1,2) [OF assms] by (simp_all add: sta_local_def u32_len_0)

lemma wake_cleared_step:
  assumes inv: "ps_inv D M ad L" and c: "client (tx_stapriv ad) i" and e: "sleep_q (sta_of ad i) = []" "mgmt_sleep_q (sta_of ad i) = []"
  shows "ps_inv D M (wake_cleared i ad) L"
    "sta_state (sta_of (wake_cleared i ad) i) AND WIFI_SLEEP_STATE = 0"
    "\<not> tim_is_set (wake_cleared i ad) (sta_aid_no (sta_of ad i))" "\<not> dz_is_set (wake_cleared i ad) (sta_aid_no (sta_of ad i))"
    "sleep_q (sta_of (wake_cleared i ad) i) = []" "mgmt_sleep_q (sta_of (wake_cleared i ad) i) = []"
    "ac_pending (sta_of (wake_cleared i ad) i) = ac_pending (sta_of ad i)"
    "j \<noteq> i \<Longrightarrow> sta_of (wake_cleared i ad) j = sta_of ad j" "tx_attr (wake_cleared i ad) = tx_attr ad"
    "rtw_get_bcmc_stainfo (tx_stapriv (wake_cleared i ad)) = rtw_get_bcmc_stainfo (tx_stapriv ad)"
    "sta_aid_no (sta_of (wake_cleared i ad) i) = sta_aid_no (sta_of ad i)"
    "client (tx_stapriv (wake_cleared i ad)) i"
proof -
  let ?aid = "sta_aid_no (sta_of ad i)"
  define ad1 where "ad1 = tim_clear ?aid ad"
  define ad2 where "ad2 = (if sta_state (sta_of ad1 i) AND WIFI_SLEEP_STATE \<noteq> 0
      then set_sta i (\<lambda>x. x\<lparr>sta_state := sta_state x XOR WIFI_SLEEP_STATE\<rparr>) ad1 else ad1)"
  define ad3 where "ad3 = (if sta_state (sta_of ad2 i) AND WIFI_STA_ALIVE_CHK_STATE \<noteq> 0
      then set_sta i (\<lambda>x. x\<lparr>sta_expire_to := tx_expire_to ad2, sta_state := sta_state x XOR WIFI_STA_ALIVE_CHK_STATE\<rparr>) ad2 else ad2)"
  have w: "wake_cleared i ad = dz_clear ?aid ad3"
    by (simp add: wake_cleared_def Let_def ad1_def ad2_def ad3_def)
  have i: "i < NUM_STA" using c by (simp add: client_def)
  have inv1: "ps_inv D M ad1 L" unfolding ad1_def by (rule ps_inv_bits(4) [OF inv c]) (simp add: e)
  have s1: "sta_of ad1 = sta_of ad" by (simp add: ad1_def)
  have inv2: "ps_inv D M ad2 L" using inv1 ps_inv_plain(5) [OF inv1 i] e by (simp add: ad2_def s1)
  have inv3: "ps_inv D M ad3 L" using inv2 ps_inv_plain(3) [OF inv2 i] by (simp add: ad3_def)
  show inv4: "ps_inv D M (wake_cleared i ad) L" unfolding w by (rule ps_inv_bits(3) [OF inv3])
  note l1 = ps_inv_len [OF inv1] and l2 = ps_inv_len [OF inv2]
  have off: "(x XOR WIFI_SLEEP_STATE) AND WIFI_SLEEP_STATE = 0" if "x AND WIFI_SLEEP_STATE \<noteq> 0" for x
  proof -
    have "bit x 2" using that and_exp_eq_0_iff_not_bit [of x 2] by (simp add: WIFI_SLEEP_STATE_def)
    then have "\<not> bit (x XOR WIFI_SLEEP_STATE) 2" using bit_exp_iff [of 2 2, where 'a = u32] by (simp add: WIFI_SLEEP_STATE_def bit_xor_iff bit_numeral_rec)
    then show ?thesis using and_exp_eq_0_iff_not_bit [of "x XOR WIFI_SLEEP_STATE" 2] by (simp add: WIFI_SLEEP_STATE_def)
  qed
  have z2: "sta_state (sta_of ad2 i) AND WIFI_SLEEP_STATE = 0" using l1 i off by (simp add: ad2_def)
  have k: "(x XOR WIFI_STA_ALIVE_CHK_STATE) AND WIFI_SLEEP_STATE = x AND WIFI_SLEEP_STATE" for x
    by (simp add: WIFI_STA_ALIVE_CHK_STATE_def WIFI_SLEEP_STATE_def and.commute [of _ "_ XOR _"] bit.conj_xor_distrib2)
  have z3: "sta_state (sta_of ad3 i) AND WIFI_SLEEP_STATE = 0" using l2 i z2 k by (simp add: ad3_def)
  have k': "(x XOR WIFI_STA_ALIVE_CHK_STATE) AND WIFI_ASOC_STATE = x AND WIFI_ASOC_STATE"
    "(x XOR WIFI_SLEEP_STATE) AND WIFI_ASOC_STATE = x AND WIFI_ASOC_STATE" for x
    by (simp_all add: WIFI_STA_ALIVE_CHK_STATE_def WIFI_SLEEP_STATE_def WIFI_ASOC_STATE_def and.commute [of _ "_ XOR _"] bit.conj_xor_distrib2)
  have s3: "j \<noteq> i \<Longrightarrow> sta_of ad3 j = sta_of ad j" "sleep_q (sta_of ad3 i) = []" "mgmt_sleep_q (sta_of ad3 i) = []"
    "ac_pending (sta_of ad3 i) = ac_pending (sta_of ad i)" "sta_aid_no (sta_of ad3 i) = ?aid" "mac_addr (sta_of ad3 i) = mac_addr (sta_of ad i)"
    "sta_state (sta_of ad3 i) AND WIFI_ASOC_STATE = sta_state (sta_of ad i) AND WIFI_ASOC_STATE" for j
    using l1 l2 i e k' by (simp_all add: ad3_def ad2_def s1)
  have mac: "mac_addr (sta_of ad3 j) = mac_addr (sta_of ad j)" for j using s3 by (cases "j = i") simp_all
  show "sta_state (sta_of (wake_cleared i ad) i) AND WIFI_SLEEP_STATE = 0" using z3 by (simp add: w)
  have "\<not> tim_is_set ad1 ?aid" using ps_inv_table [OF inv] by (simp add: ad1_def bmp_tables)
  moreover have "tim_is_set ad3 = tim_is_set ad1" by (simp add: ad3_def ad2_def fun_eq_iff tim_is_set_def set_sta_def)
  ultimately show "\<not> tim_is_set (wake_cleared i ad) ?aid" by (simp add: w)
  show "\<not> dz_is_set (wake_cleared i ad) ?aid" using ps_inv_table [OF inv3] by (simp add: w bmp_tables)
  show "sleep_q (sta_of (wake_cleared i ad) i) = []" "mgmt_sleep_q (sta_of (wake_cleared i ad) i) = []"
    "ac_pending (sta_of (wake_cleared i ad) i) = ac_pending (sta_of ad i)"
    "j \<noteq> i \<Longrightarrow> sta_of (wake_cleared i ad) j = sta_of ad j"
    "sta_aid_no (sta_of (wake_cleared i ad) i) = sta_aid_no (sta_of ad i)"
    using s3 by (simp_all add: w)
  show "tx_attr (wake_cleared i ad) = tx_attr ad" by (simp add: w ad3_def ad2_def ad1_def dz_clear_def tim_clear_def)
  have hash: "sta_hash (tx_stapriv (wake_cleared i ad)) = sta_hash (tx_stapriv ad)"
    by (simp add: w ad3_def ad2_def ad1_def dz_clear_def tim_clear_def set_sta_def)
  show b: "rtw_get_bcmc_stainfo (tx_stapriv (wake_cleared i ad)) = rtw_get_bcmc_stainfo (tx_stapriv ad)"
    by (rule lookup_cong [OF hash]) (use mac in \<open>simp add: w sta_of_def [symmetric]\<close>)
  have "sta_state (sta_of (wake_cleared i ad) i) AND WIFI_ASOC_STATE = sta_state (sta_of ad i) AND WIFI_ASOC_STATE"
    using s3 by (simp add: w)
  then show "client (tx_stapriv (wake_cleared i ad)) i" using c b by (simp add: client_def sta_of_def)
qed

lemma moved_other: "moved b cls fs ad ad' \<Longrightarrow> ps_inv D M ad L \<Longrightarrow> b < NUM_STA \<Longrightarrow> j \<noteq> b \<Longrightarrow> sta_of ad' j = sta_of ad j"
  using stepped_facts(2) ps_inv_len unfolding moved_def by blast

lemma moved_look:
  assumes "moved b cls fs ad ad'" "ps_inv D M ad L" "b < NUM_STA"
  shows "rtw_get_bcmc_stainfo (tx_stapriv ad') = rtw_get_bcmc_stainfo (tx_stapriv ad)" "tim_is_set ad' = tim_is_set ad"
    "dz_is_set ad' = dz_is_set ad" "client (tx_stapriv ad') j = client (tx_stapriv ad) j" "tx_target ad' = tx_target ad"
    "sta_rest (sta_of ad' b) = sta_rest (sta_of ad b)" "attr_rest (tx_attr ad' f) = attr_rest (tx_attr ad f)"
proof -
  have st: "stepped b ad ad'" using assms(1) by (simp add: moved_def)
  note f = stepped_facts [OF st assms(3) ps_inv_len [OF assms(2)]]
  show "rtw_get_bcmc_stainfo (tx_stapriv ad') = rtw_get_bcmc_stainfo (tx_stapriv ad)" "tim_is_set ad' = tim_is_set ad"
    "dz_is_set ad' = dz_is_set ad" "client (tx_stapriv ad') j = client (tx_stapriv ad) j" "tx_target ad' = tx_target ad"
    "sta_rest (sta_of ad' b) = sta_rest (sta_of ad b)" "attr_rest (tx_attr ad' f) = attr_rest (tx_attr ad f)"
    by (rule f)+
qed

lemma ps_inv_clear_0:
  assumes "ps_inv D M ad L" "\<forall>b. rtw_get_bcmc_stainfo (tx_stapriv ad) = Some b \<longrightarrow> sleep_q (sta_of ad b) = []"
  shows "ps_inv D M (dz_clear 0 (tim_clear 0 ad)) L"
  by (rule ps_inv_bits(3) [OF ps_inv_bits(5) [OF assms]])

lemma wakeup_bmc_step:
  assumes inv: "ps_inv D M ad L"
  shows "ps_inv D M (snd (wakeup_bmc ad)) L"
    and "rtw_get_bcmc_stainfo (tx_stapriv ad) \<noteq> Some j \<Longrightarrow> sta_of (snd (wakeup_bmc ad)) j = sta_of ad j"
    and "rtw_get_bcmc_stainfo (tx_stapriv ad) = Some b \<Longrightarrow> f \<notin> set (sleep_q (sta_of ad b)) \<Longrightarrow> tx_attr (snd (wakeup_bmc ad)) f = tx_attr ad f"
    and "rtw_get_bcmc_stainfo (tx_stapriv ad) = None \<Longrightarrow> snd (wakeup_bmc ad) = ad"
    and "k mod 256 \<noteq> 0 \<Longrightarrow> tim_is_set (snd (wakeup_bmc ad)) k = tim_is_set ad k" "k mod 256 \<noteq> 0 \<Longrightarrow> dz_is_set (snd (wakeup_bmc ad)) k = dz_is_set ad k"
proof -
  let ?P = "\<lambda>ad'. ps_inv D M ad' L \<and> (\<forall>j. rtw_get_bcmc_stainfo (tx_stapriv ad) \<noteq> Some j \<longrightarrow> sta_of ad' j = sta_of ad j) \<and>
    (\<forall>b. rtw_get_bcmc_stainfo (tx_stapriv ad) = Some b \<longrightarrow> (\<forall>f. f \<notin> set (sleep_q (sta_of ad b)) \<longrightarrow> tx_attr ad' f = tx_attr ad f)) \<and>
    (rtw_get_bcmc_stainfo (tx_stapriv ad) = None \<longrightarrow> ad' = ad) \<and>
    (\<forall>k. k mod 256 \<noteq> 0 \<longrightarrow> tim_is_set ad' k = tim_is_set ad k \<and> dz_is_set ad' k = dz_is_set ad k)"
  have "?P (snd (wakeup_bmc ad))"
  proof (cases "rtw_get_bcmc_stainfo (tx_stapriv ad)")
    case None
    then show ?thesis using inv by (simp add: wakeup_bmc_def)
  next
    case (Some b)
    define ad1 where "ad1 = foldl (\<lambda>ad f. trigger_send f (take_data b f ad)) ad (sleep_q (sta_of ad b))"
    note b = bmc_bound [OF inv Some]
    have m: "ps_inv D M ad1 L" "sleep_q (sta_of ad1 b) = []"
      "moved b (\<lambda>f. rtw_get_sta_pending (xa_priority (tx_attr ad f))) (sleep_q (sta_of ad b)) ad ad1"
      using group.drain_all [OF ready_classes [OF inv b] refl] by (simp_all add: ad1_def ps_ready_def)
    have look: "rtw_get_bcmc_stainfo (tx_stapriv ad1) = Some b" "tim_is_set ad1 = tim_is_set ad" "dz_is_set ad1 = dz_is_set ad"
      using moved_look [OF m(3) inv b] Some by auto
    have len0: "sleepq_len (sta_of ad1 b) = 0" using sleepq_len_0(1) [OF m(1) b] m(2) by simp
    have "ps_inv D M (dz_clear 0 (tim_clear 0 ad1)) L" by (rule ps_inv_clear_0 [OF m(1)]) (simp add: look m(2))
    moreover have "tx_attr (dz_clear 0 (tim_clear 0 ad1)) = tx_attr ad1" by (simp add: dz_clear_def tim_clear_def)
    moreover have "ps_table ad1" "ps_table (tim_clear 0 ad1)"
      using ps_inv_table [OF m(1)] ps_inv_table [OF ps_inv_bits(5) [OF m(1)]] by (simp_all add: look m(2))
    ultimately have "?P (dz_clear 0 (tim_clear 0 ad1))"
      using Some m(3) moved_other [OF m(3) inv b] look by (auto simp: moved_def bmp_tables)
    moreover have "?P ad" using inv by simp
    ultimately show ?thesis using len0 by (simp add: wakeup_bmc_def Some ad1_def [symmetric] Let_def)
  qed
  then show "ps_inv D M (snd (wakeup_bmc ad)) L"
    "rtw_get_bcmc_stainfo (tx_stapriv ad) \<noteq> Some j \<Longrightarrow> sta_of (snd (wakeup_bmc ad)) j = sta_of ad j"
    "rtw_get_bcmc_stainfo (tx_stapriv ad) = Some b \<Longrightarrow> f \<notin> set (sleep_q (sta_of ad b)) \<Longrightarrow> tx_attr (snd (wakeup_bmc ad)) f = tx_attr ad f"
    "rtw_get_bcmc_stainfo (tx_stapriv ad) = None \<Longrightarrow> snd (wakeup_bmc ad) = ad"
    "k mod 256 \<noteq> 0 \<Longrightarrow> tim_is_set (snd (wakeup_bmc ad)) k = tim_is_set ad k" "k mod 256 \<noteq> 0 \<Longrightarrow> dz_is_set (snd (wakeup_bmc ad)) k = dz_is_set ad k"
    by blast+
qed

definition wake_end :: "nat \<Rightarrow> DEQUEUE_TYPE \<Rightarrow> tx_adapter \<Rightarrow> tx_adapter" where
  "wake_end i t ad =
     (let ad = (if no_buffered i ad then wake_cleared i ad else ad)
      in if t = UNI_BMC_DATA \<or> t = ALL_FRAME then snd (wakeup_bmc ad) else ad)"

lemma wakeup_parts:
  "\<exists>c. wakeup_sta_to_xmit i t ad = (if c then tx_call Update_beacon (wake_end i t (wake_data i t (wake_mgmt i t ad)))
     else wake_end i t (wake_data i t (wake_mgmt i t ad)))"
proof -
  define ad1 where "ad1 = wake_data i t (wake_mgmt i t ad)"
  define r where "r = (if t = UNI_BMC_DATA \<or> t = ALL_FRAME then wakeup_bmc (if no_buffered i ad1 then wake_cleared i ad1 else ad1)
    else (False, if no_buffered i ad1 then wake_cleared i ad1 else ad1))"
  have e: "wake_end i t ad1 = snd r" by (simp add: wake_end_def r_def Let_def)
  have "wakeup_sta_to_xmit i t ad = (if (no_buffered i ad1 \<and> tim_is_set ad1 (sta_aid_no (sta_of ad1 i))) \<or> fst r
      then tx_call Update_beacon (snd r) else snd r)"
    unfolding wakeup_sta_to_xmit_def Let_def ad1_def [symmetric] r_def [symmetric] by (simp add: case_prod_unfold)
  then show ?thesis unfolding ad1_def [symmetric] e by blast
qed

lemma wake_mgmt_step:
  assumes inv: "ps_inv D M ad L" and i: "i < NUM_STA"
  shows "ps_inv D M (wake_mgmt i t ad) L"
    "\<exists>fs. moved i (\<lambda>_. 4) fs ad (wake_mgmt i t ad) \<and> (t = ALL_FRAME \<longrightarrow> fs = mgmt_sleep_q (sta_of ad i))"
    "sleep_q (sta_of (wake_mgmt i t ad) i) = sleep_q (sta_of ad i)"
    "t = ALL_FRAME \<Longrightarrow> mgmt_sleep_q (sta_of (wake_mgmt i t ad) i) = []"
    "t = ALL_FRAME \<Longrightarrow> f \<in> set (mgmt_sleep_q (sta_of ad i)) \<Longrightarrow>
      xa_mdata (tx_attr (wake_mgmt i t ad) f) \<longleftrightarrow> f \<noteq> last (mgmt_sleep_q (sta_of ad i))"
proof -
  have a: "ps_inv D M ad L \<and> i < NUM_STA" using assms by blast
  note d = mgmt.drain_all [OF a refl] and m = mgmt.drain_more [OF a TrueI refl, of f]
  show "ps_inv D M (wake_mgmt i t ad) L" using d inv by (simp add: wake_mgmt_def)
  show "\<exists>fs. moved i (\<lambda>_. 4) fs ad (wake_mgmt i t ad) \<and> (t = ALL_FRAME \<longrightarrow> fs = mgmt_sleep_q (sta_of ad i))"
    using d moved_Nil [of i "\<lambda>_. 4" ad] unfolding wake_mgmt_def by (cases t) auto
  show "sleep_q (sta_of (wake_mgmt i t ad) i) = sleep_q (sta_of ad i)" using d by (simp add: wake_mgmt_def)
  show "t = ALL_FRAME \<Longrightarrow> mgmt_sleep_q (sta_of (wake_mgmt i t ad) i) = []" using d by (simp add: wake_mgmt_def)
  show "t = ALL_FRAME \<Longrightarrow> f \<in> set (mgmt_sleep_q (sta_of ad i)) \<Longrightarrow>
      xa_mdata (tx_attr (wake_mgmt i t ad) f) \<longleftrightarrow> f \<noteq> last (mgmt_sleep_q (sta_of ad i))" using m by (simp add: wake_mgmt_def)
qed

lemma wake_data_step:
  assumes inv: "ps_inv D M ad L" and i: "i < NUM_STA" and c: "classes cls ad"
  shows "ps_inv D M (wake_data i t ad) L"
    "\<exists>fs. moved i cls fs ad (wake_data i t ad) \<and> (t = ALL_FRAME \<longrightarrow> fs = sleep_q (sta_of ad i))"
    "mgmt_sleep_q (sta_of (wake_data i t ad) i) = mgmt_sleep_q (sta_of ad i)"
    "t = ALL_FRAME \<Longrightarrow> sleep_q (sta_of (wake_data i t ad) i) = []"
    "t = ALL_FRAME \<Longrightarrow> no_trigger (sta_of ad i) \<Longrightarrow> f \<in> set (sleep_q (sta_of ad i)) \<Longrightarrow>
      xa_mdata (tx_attr (wake_data i t ad) f) \<longleftrightarrow> f \<noteq> last (sleep_q (sta_of ad i))"
proof -
  have a: "ps_ready D M L i cls ad" using assms by (simp add: ps_ready_def)
  note d = data.drain_all [OF a refl] and m = data.drain_more [OF a _ refl, of f]
  show "ps_inv D M (wake_data i t ad) L" using d inv by (simp add: wake_data_def ps_ready_def)
  show "\<exists>fs. moved i cls fs ad (wake_data i t ad) \<and> (t = ALL_FRAME \<longrightarrow> fs = sleep_q (sta_of ad i))"
    using d moved_Nil [of i cls ad] unfolding wake_data_def by (cases t) auto
  show "mgmt_sleep_q (sta_of (wake_data i t ad) i) = mgmt_sleep_q (sta_of ad i)" using d by (simp add: wake_data_def)
  show "t = ALL_FRAME \<Longrightarrow> sleep_q (sta_of (wake_data i t ad) i) = []" using d by (simp add: wake_data_def)
  show "t = ALL_FRAME \<Longrightarrow> no_trigger (sta_of ad i) \<Longrightarrow> f \<in> set (sleep_q (sta_of ad i)) \<Longrightarrow>
      xa_mdata (tx_attr (wake_data i t ad) f) \<longleftrightarrow> f \<noteq> last (sleep_q (sta_of ad i))" using m by (simp add: wake_data_def)
qed

lemma wake_end_inv:
  assumes inv: "ps_inv D M ad L" and c: "client (tx_stapriv ad) i"
  shows "ps_inv D M (wake_end i t ad) L"
proof -
  have i: "i < NUM_STA" using c by (simp add: client_def)
  have "ps_inv D M (if no_buffered i ad then wake_cleared i ad else ad) L"
    using inv wake_cleared_step(1) [OF inv c] sleepq_len_0 [OF inv i] by (simp add: no_buffered_def)
  then show ?thesis by (simp add: wake_end_def Let_def wakeup_bmc_step(1))
qed

lemma wakeup_inv:
  assumes inv: "ps_inv D M ad L" and c: "client (tx_stapriv ad) i"
  shows "ps_inv D M (wakeup_sta_to_xmit i t ad) L"
proof -
  have i: "i < NUM_STA" using c by (simp add: client_def)
  note m = wake_mgmt_step [OF inv i, of t]
  obtain fs where fs: "moved i (\<lambda>_. 4) fs ad (wake_mgmt i t ad)" using m(2) by blast
  define cls where "cls f = rtw_get_sta_pending (xa_priority (tx_attr (wake_mgmt i t ad) f))" for f
  note d = wake_data_step [OF m(1) i, of cls t]
  obtain gs where gs: "moved i cls gs (wake_mgmt i t ad) (wake_data i t (wake_mgmt i t ad))" using d(2) by (auto simp: cls_def classes_def)
  have c2: "client (tx_stapriv (wake_data i t (wake_mgmt i t ad))) i"
    using c moved_look(4) [OF fs inv i] moved_look(4) [OF gs m(1) i] by simp
  have "ps_inv D M (wake_data i t (wake_mgmt i t ad)) L" using d(1) by (simp add: cls_def classes_def)
  from wake_end_inv [OF this c2, of t] show ?thesis using wakeup_parts [of i t ad] by auto
qed

lemma wakeup_facts:
  assumes inv: "ps_inv D M ad L" and c: "client (tx_stapriv ad) i"
  defines "ad' \<equiv> wakeup_sta_to_xmit i ALL_FRAME ad"
  shows "sleep_q (sta_of ad' i) = []" "mgmt_sleep_q (sta_of ad' i) = []" "sta_state (sta_of ad' i) AND WIFI_SLEEP_STATE = 0"
    "\<not> tim_is_set ad' (sta_aid_no (sta_of ad i))" "\<not> dz_is_set ad' (sta_aid_no (sta_of ad i))"
    "ac < 4 \<Longrightarrow> ac_pending (sta_of ad' i) ! ac =
       ac_pending (sta_of ad i) ! ac @ filter (\<lambda>f. rtw_get_sta_pending (xa_priority (tx_attr ad f)) = ac) (sleep_q (sta_of ad i))"
    "ac_pending (sta_of ad' i) ! 4 = ac_pending (sta_of ad i) ! 4 @ mgmt_sleep_q (sta_of ad i)"
    "f \<in> set (sleep_q (sta_of ad i)) \<union> set (mgmt_sleep_q (sta_of ad i)) \<Longrightarrow> xa_triggered (tx_attr ad' f)"
    "f \<in> set (mgmt_sleep_q (sta_of ad i)) \<Longrightarrow> xa_mdata (tx_attr ad' f) \<longleftrightarrow> f \<noteq> last (mgmt_sleep_q (sta_of ad i))"
    "no_trigger (sta_of ad i) \<Longrightarrow> f \<in> set (sleep_q (sta_of ad i)) \<Longrightarrow> xa_mdata (tx_attr ad' f) \<longleftrightarrow> f \<noteq> last (sleep_q (sta_of ad i))"
proof -
  have i: "i < NUM_STA" and bi: "rtw_get_bcmc_stainfo (tx_stapriv ad) \<noteq> Some i" using c by (simp_all add: client_def)
  define A1 where "A1 = wake_mgmt i ALL_FRAME ad"
  define A2 where "A2 = wake_data i ALL_FRAME A1"
  define A3 where "A3 = wake_cleared i A2"
  define cls where "cls f = rtw_get_sta_pending (xa_priority (tx_attr ad f))" for f
  have m: "ps_inv D M A1 L" "moved i (\<lambda>_. 4) (mgmt_sleep_q (sta_of ad i)) ad A1" "sleep_q (sta_of A1 i) = sleep_q (sta_of ad i)"
    "mgmt_sleep_q (sta_of A1 i) = []"
    "\<And>f. f \<in> set (mgmt_sleep_q (sta_of ad i)) \<Longrightarrow> xa_mdata (tx_attr A1 f) \<longleftrightarrow> f \<noteq> last (mgmt_sleep_q (sta_of ad i))"
    using wake_mgmt_step [OF inv i, where t = ALL_FRAME] by (auto simp: A1_def)
  have st1: "stepped i ad A1" using m(2) by (simp add: moved_def)
  note len = ps_inv_len [OF inv]
  have cls1: "classes cls A1" using classes_stepped [OF st1 i len, of cls] by (simp add: classes_def cls_def)
  have d: "ps_inv D M A2 L" "moved i cls (sleep_q (sta_of ad i)) A1 A2" "mgmt_sleep_q (sta_of A2 i) = []" "sleep_q (sta_of A2 i) = []"
    "\<And>f. no_trigger (sta_of A1 i) \<Longrightarrow> f \<in> set (sleep_q (sta_of ad i)) \<Longrightarrow> xa_mdata (tx_attr A2 f) \<longleftrightarrow> f \<noteq> last (sleep_q (sta_of ad i))"
    using wake_data_step [OF m(1) i cls1, where t = ALL_FRAME] m(3,4) by (auto simp: A2_def)
  note look1 = moved_look [OF m(2) inv i] and look2 = moved_look [OF d(2) m(1) i]
  have c2: "client (tx_stapriv A2) i" using c look1(4) look2(4) by simp
  note w = wake_cleared_step [OF d(1) c2 d(4,3), folded A3_def]
  have nb: "no_buffered i A2" using sleepq_len_0 [OF d(1) i] d(3,4) by (simp add: no_buffered_def)
  note g = wakeup_bmc_step [OF w(1)]
  obtain u where u: "ad' = (if u then tx_call Update_beacon (snd (wakeup_bmc A3)) else snd (wakeup_bmc A3))"
  proof -
    have e: "wake_end i ALL_FRAME (wake_data i ALL_FRAME (wake_mgmt i ALL_FRAME ad)) = snd (wakeup_bmc A3)"
      unfolding A1_def [symmetric] A2_def [symmetric] using nb by (simp add: wake_end_def Let_def A3_def)
    show thesis using that wakeup_parts [of i ALL_FRAME ad] unfolding e ad'_def by blast
  qed
  have b3: "rtw_get_bcmc_stainfo (tx_stapriv A3) = rtw_get_bcmc_stainfo (tx_stapriv ad)" using w(10) look1(1) look2(1) by simp
  have sta: "sta_of ad' i = sta_of A3 i" using g(2) [of i] b3 bi by (simp add: u)
  have aid: "sta_aid_no (sta_of A2 i) = sta_aid_no (sta_of ad i)"
    using sta_rest_fields(2) [OF look1(6)] sta_rest_fields(2) [OF look2(6)] by simp
  have aid0: "sta_aid_no (sta_of ad i) mod 256 \<noteq> 0" using client_aid(1,2) [OF ps_inv_table [OF inv] c] by simp
  show "sleep_q (sta_of ad' i) = []" "mgmt_sleep_q (sta_of ad' i) = []" "sta_state (sta_of ad' i) AND WIFI_SLEEP_STATE = 0"
    using w by (simp_all add: sta)
  show "\<not> tim_is_set ad' (sta_aid_no (sta_of ad i))" "\<not> dz_is_set ad' (sta_aid_no (sta_of ad i))"
    using w(3,4) g(5,6) [OF aid0] by (simp_all add: u aid)
  have p: "ac < 5 \<Longrightarrow> ac_pending (sta_of ad' i) ! ac = ac_pending (sta_of ad i) ! ac @ filter (\<lambda>f. 4 = ac) (mgmt_sleep_q (sta_of ad i)) @
      filter (\<lambda>f. cls f = ac) (sleep_q (sta_of ad i))" for ac
    using m(2) d(2) by (simp add: moved_def sta w(7))
  show "ac < 4 \<Longrightarrow> ac_pending (sta_of ad' i) ! ac =
       ac_pending (sta_of ad i) ! ac @ filter (\<lambda>f. rtw_get_sta_pending (xa_priority (tx_attr ad f)) = ac) (sleep_q (sta_of ad i))"
    using p [of ac] by (simp add: cls_def)
  have "cls f \<noteq> 4" for f using ac_of_bound [of "xa_priority (tx_attr ad f)"] unfolding cls_def by linarith
  then show "ac_pending (sta_of ad' i) ! 4 = ac_pending (sta_of ad i) ! 4 @ mgmt_sleep_q (sta_of ad i)" using p [of 4] by simp
  have at: "tx_attr ad' f = tx_attr A2 f" if "f \<in> set (sleep_q (sta_of ad i)) \<union> set (mgmt_sleep_q (sta_of ad i))" for f
  proof (cases "rtw_get_bcmc_stainfo (tx_stapriv ad)")
    case None
    then show ?thesis using g(4) b3 w(9) by (simp add: u)
  next
    case (Some b)
    then have "b \<noteq> i" "b < NUM_STA" using bi bmc_bound [OF inv Some] by auto
    then have "sleep_q (sta_of A3 b) = sleep_q (sta_of ad b)"
      using w(8) moved_other [OF d(2) m(1) i] moved_other [OF m(2) inv i] by simp
    moreover have "f \<notin> set (sleep_q (sta_of ad b))" using one_station [OF inv i \<open>b < NUM_STA\<close> that] \<open>b \<noteq> i\<close> by blast
    ultimately show ?thesis using g(3) [of b f] Some b3 w(9) by (simp add: u)
  qed
  have dis: "set (sleep_q (sta_of ad i)) \<inter> set (mgmt_sleep_q (sta_of ad i)) = {}" by (rule queue_distinct [OF inv i])
  have at1: "f \<in> set (mgmt_sleep_q (sta_of ad i)) \<Longrightarrow> tx_attr A2 f = tx_attr A1 f" for f using d(2) dis by (auto simp: moved_def)
  show "f \<in> set (sleep_q (sta_of ad i)) \<union> set (mgmt_sleep_q (sta_of ad i)) \<Longrightarrow> xa_triggered (tx_attr ad' f)"
    using at [of f] at1 [of f] m(2) d(2) by (auto simp: moved_def)
  show "f \<in> set (mgmt_sleep_q (sta_of ad i)) \<Longrightarrow> xa_mdata (tx_attr ad' f) \<longleftrightarrow> f \<noteq> last (mgmt_sleep_q (sta_of ad i))"
    using at [of f] at1 [of f] m(5) by simp
  show "no_trigger (sta_of ad i) \<Longrightarrow> f \<in> set (sleep_q (sta_of ad i)) \<Longrightarrow> xa_mdata (tx_attr ad' f) \<longleftrightarrow> f \<noteq> last (sleep_q (sta_of ad i))"
    using at [of f] d(5) [of f] sta_rest_fields(4) [OF look1(6)] by (simp add: no_trigger_def)
qed

section \<open>Buffering\<close>

lemma mcast_lookup: "IS_MCAST a \<Longrightarrow> rtw_get_stainfo s a = rtw_get_bcmc_stainfo s"
  by (simp add: rtw_get_stainfo_def rtw_get_bcmc_stainfo_def get_stainfo_def IS_MCAST_def bcast_addr_def)

lemma in_hand:
  assumes "ps_inv D M ad (f # L)" "i < NUM_STA"
  shows "f \<notin> set (sleep_q (sta_of ad i)) \<union> set (mgmt_sleep_q (sta_of ad i))" "f \<notin> set (concat (ac_pending (sta_of ad i)))"
    "f \<notin> set (tx_queue (sta_of ad i))"
proof -
  have "sta_of ad i \<in> set (stas (tx_stapriv ad))" using assms ps_inv_len [OF assms(1)] by (simp add: sta_of_def)
  then have "sta_xmit_frames (sta_of ad i) \<subseteq># sum_list (map sta_xmit_frames (stas (tx_stapriv ad)))" by (auto dest!: split_list)
  also have "\<dots> \<subseteq># tx_frames ad" by (simp add: tx_frames_def xmit_frames_def add.assoc add.left_commute)
  finally have "count (sta_xmit_frames (sta_of ad i)) f \<le> count (tx_frames ad) f" by (rule mset_subset_eq_count)
  moreover have "count (tx_frames ad + mset (f # L)) f \<le> 1" using assms(1) unfolding ps_inv_def by blast
  ultimately have "count (sta_xmit_frames (sta_of ad i)) f = 0" by simp
  then have "f \<notin># sta_xmit_frames (sta_of ad i)" by (simp add: not_in_iff)
  then show "f \<notin> set (sleep_q (sta_of ad i)) \<union> set (mgmt_sleep_q (sta_of ad i))" "f \<notin> set (concat (ac_pending (sta_of ad i)))"
    "f \<notin> set (tx_queue (sta_of ad i))" by (auto simp: sta_xmit_frames_def)
qed

lemma set_sta_id: "g (sta_of ad i) = sta_of ad i \<Longrightarrow> set_sta i g ad = ad"
  by (simp add: set_sta_def sta_of_def)

lemma unlink_in_hand:
  assumes "ps_inv D M ad (f # L)" "i < NUM_STA"
  shows "unlink_pending i f ad = ad"
proof -
  have "map (removeAll f) (ac_pending (sta_of ad i)) = ac_pending (sta_of ad i)"
    using in_hand(2) [OF assms] by (auto intro!: map_idI)
  then show ?thesis unfolding unlink_pending_def by (intro set_sta_id) simp
qed

lemma bits_set:
  "tim_set a (set_sta i g ad) = set_sta i g (tim_set a ad)" "dz_set a (set_sta i g ad) = set_sta i g (dz_set a ad)"
  "tim_is_set (set_sta i g ad) = tim_is_set ad" "dz_is_set (set_sta i g ad) = dz_is_set ad"
  "tx_call c (set_sta i g ad) = set_sta i g (tx_call c ad)"
  by (simp_all add: tim_set_def dz_set_def set_sta_def tx_call_def fun_eq_iff tim_is_set_def dz_is_set_def)

lemma announce_set: "announce a (set_sta i g ad) = set_sta i g (announce a ad)"
  by (simp add: announce_def bits_set Let_def)

lemma announce_facts:
  assumes "ps_inv D M ad L"
  shows "ps_inv D M (announce a ad) L" "sta_of (announce a ad) = sta_of ad" "tx_target (announce a ad) = tx_target ad"
    "rtw_get_bcmc_stainfo (tx_stapriv (announce a ad)) = rtw_get_bcmc_stainfo (tx_stapriv ad)" "tx_attr (announce a ad) = tx_attr ad"
    "a mod 256 div 8 < aid_bmp_len (tx_stapriv ad) \<Longrightarrow> tim_is_set (announce a ad) a"
proof -
  show "ps_inv D M (announce a ad) L" using ps_inv_bits(1) [OF assms] by (simp add: announce_def Let_def)
  show s: "sta_of (announce a ad) = sta_of ad" by (simp add: announce_def Let_def)
  show at: "tx_attr (announce a ad) = tx_attr ad" by (simp add: announce_def Let_def tim_set_def)
  have look: "rtw_get_stainfo (tx_stapriv (announce a ad)) x = rtw_get_stainfo (tx_stapriv ad) x" "rtw_get_bcmc_stainfo (tx_stapriv (announce a ad)) = rtw_get_bcmc_stainfo (tx_stapriv ad)" for x
    by (rule_tac lookup_cong; simp add: announce_def Let_def tim_set_def)+
  then show "rtw_get_bcmc_stainfo (tx_stapriv (announce a ad)) = rtw_get_bcmc_stainfo (tx_stapriv ad)" by simp
  show "tx_target (announce a ad) = tx_target ad" by (simp add: fun_eq_iff tx_target_def Let_def s at look split: option.split)
  show "a mod 256 div 8 < aid_bmp_len (tx_stapriv ad) \<Longrightarrow> tim_is_set (announce a ad) a"
    using ps_inv_table [OF assms] by (simp add: announce_def Let_def bmp_tables)
qed

lemma same_lookup:
  assumes "sta_of ad' = sta_of ad" "tx_attr ad' = tx_attr ad" "sta_hash (tx_stapriv ad') = sta_hash (tx_stapriv ad)"
  shows "tx_target ad' = tx_target ad" "rtw_get_bcmc_stainfo (tx_stapriv ad') = rtw_get_bcmc_stainfo (tx_stapriv ad)"
proof -
  have look: "rtw_get_stainfo (tx_stapriv ad') x = rtw_get_stainfo (tx_stapriv ad) x" "rtw_get_bcmc_stainfo (tx_stapriv ad') = rtw_get_bcmc_stainfo (tx_stapriv ad)" for x
    using assms(3) fun_cong [OF assms(1)] by (auto intro!: lookup_cong simp: sta_of_def)
  then show "rtw_get_bcmc_stainfo (tx_stapriv ad') = rtw_get_bcmc_stainfo (tx_stapriv ad)" by simp
  show "tx_target ad' = tx_target ad" by (simp add: fun_eq_iff tx_target_def Let_def assms look split: option.split)
qed

lemma attr_buffer [simp]: "tx_attr (buffer_frame i f ad) = tx_attr ad" "tx_attr (unlink_pending i f ad) = tx_attr ad"
  by (simp_all add: buffer_frame_def unlink_pending_def)

text \<open>A frame for station \<open>i\<close> that is on no list, buffered for it.\<close>

lemma buffer_client:
  assumes inv: "ps_inv D M ad (f # L)" and t: "tx_target ad f = Some i"
    and sleep: "sta_state (sta_of ad i) AND WIFI_SLEEP_STATE \<noteq> 0"
    and ann: "legacy (sta_of ad i) \<Longrightarrow> n"
  shows "ps_inv D M (if n then announce (sta_aid_no (sta_of ad i)) (buffer_frame i f ad) else buffer_frame i f ad) L"
proof -
  note i = target_bound [OF inv t]
  have nb: "rtw_get_bcmc_stainfo (tx_stapriv ad) \<noteq> Some i" using sleep ps_inv_local [OF inv i] by (auto simp: sta_local_def)
  have c: "client (tx_stapriv ad) i" using t nb i by (simp add: client_def target_lookup sta_of_def)
  note aid = client_aid [OF ps_inv_table [OF inv] c]
  define ad1 where "ad1 = (if n then announce (sta_aid_no (sta_of ad i)) ad else ad)"
  have a1: "ps_inv D M ad1 (f # L)" "sta_of ad1 = sta_of ad" "tx_target ad1 = tx_target ad"
    "rtw_get_bcmc_stainfo (tx_stapriv ad1) = rtw_get_bcmc_stainfo (tx_stapriv ad)"
    using announce_facts [OF inv] inv by (simp_all add: ad1_def)
  have tim: "tim_is_set ad1 (sta_aid_no (sta_of ad i))" if "legacy (sta_of ad i)"
    using ann [OF that] announce_facts(6) [OF inv, of "sta_aid_no (sta_of ad i)"] aid by (simp add: ad1_def)
  have "(if n then announce (sta_aid_no (sta_of ad i)) (buffer_frame i f ad) else buffer_frame i f ad) =
      set_sta i (\<lambda>x. x\<lparr>sleep_q := sleep_q x @ [f], sleepq_len := sleepq_len x + 1\<rparr>) ad1"
    by (simp add: buffer_frame_def unlink_in_hand [OF inv i] announce_set ad1_def)
  then show ?thesis
    using ps_inv_buffer(1) [OF a1(1), of i] t nb sleep tim by (simp add: a1)
qed

lemma buffer_group:
  assumes inv: "ps_inv D M ad (f # L)" and t: "tx_target ad f = Some i" and b: "rtw_get_bcmc_stainfo (tx_stapriv ad) = Some i"
  shows "ps_inv D M (dz_set 0 (tim_set 0 (buffer_frame i f ad))) L"
proof -
  note i = target_bound [OF inv t]
  let ?ad = "dz_set 0 (tim_set 0 ad)"
  have a: "ps_inv D M ?ad (f # L)" by (rule ps_inv_bits(2) [OF ps_inv_bits(1) [OF inv]])
  have l: "tx_target ?ad = tx_target ad" "rtw_get_bcmc_stainfo (tx_stapriv ?ad) = rtw_get_bcmc_stainfo (tx_stapriv ad)"
    by (rule same_lookup; (simp; fail | simp add: dz_set_def tim_set_def))+
  have "0 < aid_bmp_len (tx_stapriv ad)" using ps_inv_table [OF inv] by (simp add: ps_table_def Let_def)
  then have "tim_is_set ?ad 0" by (simp add: bmp_tables [OF ps_inv_table [OF inv]])
  then have "ps_inv D M (set_sta i (\<lambda>x. x\<lparr>sleep_q := sleep_q x @ [f], sleepq_len := sleepq_len x + 1\<rparr>) ?ad) L"
    using ps_inv_buffer(1) [OF a, of i] t b by (simp add: l)
  then show ?thesis by (simp add: buffer_frame_def unlink_in_hand [OF inv i] bits_set)
qed

lemma enqueue_inv:
  assumes inv: "ps_inv D M ad (f # L)" and e: "xmitframe_enqueue_for_sleeping_sta ad f = (kept, ad')"
  shows "ps_inv D M ad' (if kept then L else f # L)"
proof (cases "tx_target ad f")
  case None
  then show ?thesis using inv e by (auto simp: xmitframe_enqueue_for_sleeping_sta_def Let_def split: if_splits)
next
  case (Some i)
  note i = target_bound [OF inv Some]
  have ap: "tx_ap ad" using ps_inv_table [OF inv] by (simp add: ps_table_def Let_def)
  consider (trig) "xa_triggered (tx_attr ad f)" | (group) "\<not> xa_triggered (tx_attr ad f)" "IS_MCAST (xa_ra (tx_attr ad f))"
    | (uni) "\<not> xa_triggered (tx_attr ad f)" "\<not> IS_MCAST (xa_ra (tx_attr ad f))" by blast
  then show ?thesis
  proof cases
    case trig
    have "ad' = (if IS_MCAST (xa_ra (tx_attr ad f)) \<and> xmitframe_hiq_filter ad f then set_attr f (\<lambda>a. a\<lparr>xa_qsel := QSLT_HIGH\<rparr>) ad else ad) \<and> \<not> kept"
      using e trig ap Some by (auto simp: xmitframe_enqueue_for_sleeping_sta_def Let_def)
    then show ?thesis using inv by (simp add: ps_inv_attr)
  next
    case group
    have b: "rtw_get_bcmc_stainfo (tx_stapriv ad) = Some i"
      using Some mcast_lookup [OF group(2), of "tx_stapriv ad"] by (simp add: target_lookup)
    show ?thesis
      using e group ap Some inv buffer_group [OF inv Some b]
      by (auto simp: xmitframe_enqueue_for_sleeping_sta_def buffered_group_def Let_def split: if_splits)
  next
    case uni
    show ?thesis
    proof (cases "sta_state (sta_of ad i) AND WIFI_SLEEP_STATE \<noteq> 0 \<and> dz_is_set ad (sta_aid_no (sta_of ad i))")
      case False
      then have "kept = False \<and> ad' = ad" using e uni ap Some by (auto simp: xmitframe_enqueue_for_sleeping_sta_def Let_def)
      then show ?thesis using inv by simp
    next
      case True
      define w where "w \<longleftrightarrow> uapsd_of (sta_of ad i) (xa_priority (tx_attr ad f)) AND 1 \<noteq> 0"
      define n where "n \<longleftrightarrow> has_legacy_ac (sta_of ad i) \<and> \<not> w \<or> \<not> has_legacy_ac (sta_of ad i) \<and> w"
      define B where "B = (if n then announce (sta_aid_no (sta_of ad i)) (buffer_frame i f ad) else buffer_frame i f ad)"
      have "legacy (sta_of ad i) \<Longrightarrow> n" by (auto simp: n_def w_def legacy_def uapsd_of_def)
      then have B: "ps_inv D M B L" unfolding B_def using buffer_client [OF inv Some, of n] True by blast
      have s: "sta_of (buffer_frame i f ad) i = (sta_of ad i)\<lparr>sleep_q := sleep_q (sta_of ad i) @ [f], sleepq_len := sleepq_len (sta_of ad i) + 1\<rparr>"
        using i ps_inv_len [OF inv] by (simp add: buffer_frame_def unlink_in_hand [OF inv i])
      have l: "length (stas (tx_stapriv (buffer_frame i f ad))) = NUM_STA"
        using ps_inv_len [OF inv] by (simp add: buffer_frame_def unlink_in_hand [OF inv i] set_sta_def)
      have "kept" "ad' = (if w then set_sta i (\<lambda>x. x\<lparr>sleepq_ac_len := sleepq_ac_len x + 1\<rparr>) B else B)"
        using e uni ap Some True i
        by (auto simp: xmitframe_enqueue_for_sleeping_sta_def buffered_client_def Let_def s l w_def n_def B_def announce_set attr_buffer split: if_splits)
      then show ?thesis using B ps_inv_plain(1) [OF B i] by simp
    qed
  qed
qed

lemma mgmt_enqueue_inv:
  assumes inv: "ps_inv D M ad (f # L)" and l: "xa_psta (tx_attr ad f) = rtw_get_stainfo (tx_stapriv ad) (xa_ra (tx_attr ad f))"
    and e: "mgmt_xmitframe_enqueue_for_sleeping_sta ad f = (ret, ad')"
  shows "ps_inv D M ad' (if ret = RTW_QUEUE_MGMT then L else f # L)"
proof (cases "xa_ra (tx_attr ad f) = bcast_addr \<or> xa_ps_dontq (tx_attr ad f) \<or> xa_psta (tx_attr ad f) = None")
  case True
  then have "ret = 0 \<and> ad' = ad" using e by (auto simp: mgmt_xmitframe_enqueue_for_sleeping_sta_def Let_def split: if_splits)
  then show ?thesis using inv by (simp add: RTW_QUEUE_MGMT_def)
next
  case False
  then obtain i where i: "xa_psta (tx_attr ad f) = Some i" by auto
  show ?thesis
  proof (cases "sta_state (sta_of ad i) AND WIFI_ASOC_STATE \<noteq> 0 \<and> sta_state (sta_of ad i) AND WIFI_SLEEP_STATE \<noteq> 0 \<and>
      dz_is_set ad (sta_aid_no (sta_of ad i))")
    case no: False
    then have "ret \<noteq> RTW_QUEUE_MGMT \<and> ad' = ad"
      using e False i by (auto simp: mgmt_xmitframe_enqueue_for_sleeping_sta_def Let_def RTW_QUEUE_MGMT_def split: if_splits)
    then show ?thesis using inv by simp
  next
    case True
    then have t: "tx_target ad f = Some i" using i l by (simp add: target_lookup)
    note ib = target_bound [OF inv t]
    have nb: "rtw_get_bcmc_stainfo (tx_stapriv ad) \<noteq> Some i" using True ps_inv_local [OF inv ib] by (auto simp: sta_local_def)
    have c: "client (tx_stapriv ad) i" using t nb ib by (simp add: client_def target_lookup sta_of_def)
    note aid = client_aid [OF ps_inv_table [OF inv] c]
    let ?g = "\<lambda>x. x\<lparr>mgmt_sleep_q := mgmt_sleep_q x @ [f], mgmt_sleepq_len := mgmt_sleepq_len x + 1\<rparr>"
    have "ret = RTW_QUEUE_MGMT" "ad' = announce (sta_aid_no (sta_of ad i)) (set_sta i ?g ad)"
      using e False i True ib ps_inv_len [OF inv]
      by (auto simp: mgmt_xmitframe_enqueue_for_sleeping_sta_def Let_def unlink_in_hand [OF inv ib])
    moreover have "ps_inv D M (set_sta i ?g (announce (sta_aid_no (sta_of ad i)) ad)) L"
      using ps_inv_buffer(2) [OF announce_facts(1) [OF inv, of "sta_aid_no (sta_of ad i)"], of i] t nb True False announce_facts(6) [OF inv] aid
      by (simp add: announce_facts [OF inv])
    ultimately show ?thesis by (simp add: announce_set)
  qed
qed

text \<open>Frames on a queue towards the hardware: taking one off leaves the counter ahead by one.\<close>

lemma concat_disjoint:
  "distinct (concat xs) \<Longrightarrow> j < length xs \<Longrightarrow> k < length xs \<Longrightarrow> j \<noteq> k \<Longrightarrow> set (xs ! j) \<inter> set (xs ! k) = {}"
proof (induction xs arbitrary: j k)
  case (Cons x xs)
  have x: "set x \<inter> set (xs ! m) = {}" if "m < length xs" for m using Cons.prems(1) nth_mem [OF that] by auto
  show ?case using Cons x by (cases j; cases k) auto
qed simp

lemma removeAll_queue:
  assumes "distinct (concat xs)" "k < length xs" "f \<in> set (xs ! k)"
  shows "map (removeAll f) xs = xs[k := remove1 f (xs ! k)]"
proof (rule nth_equalityI)
  fix j assume j: "j < length (map (removeAll f) xs)"
  have "distinct (xs ! k)" using assms by (simp add: distinct_concat_iff)
  then show "map (removeAll f) xs ! j = xs[k := remove1 f (xs ! k)] ! j"
  proof (cases "j = k")
    case False
    then have "f \<notin> set (xs ! j)" using concat_disjoint [OF assms(1,2), of j] assms(3) j by auto
    then show ?thesis using False j by simp
  qed (use j in \<open>simp add: distinct_remove1_removeAll\<close>)
qed simp

lemma sta_local_facts:
  assumes "sta_local d tgt attr hp b tim i x"
  shows "sleepq_len x = of_nat (length (sleep_q x))" "mgmt_sleepq_len x = of_nat (length (mgmt_sleep_q x))"
    "length (ac_pending x) = 5" "length (ac_qcnt x) = 5" "k < 5 \<Longrightarrow> ac_qcnt x ! k = int (length (ac_pending x ! k)) + d k"
    "k < 5 \<Longrightarrow> ac_pending x ! k \<noteq> [] \<Longrightarrow> i \<in> set (hp ! k)"
    "k < 4 \<Longrightarrow> f \<in> set (ac_pending x ! k) \<Longrightarrow> rtw_get_sta_pending (xa_priority (attr f)) = k"
    "k < 5 \<Longrightarrow> f \<in> set (ac_pending x ! k) \<Longrightarrow> tgt f = Some i" "f \<in> set (sleep_q x) \<union> set (mgmt_sleep_q x) \<Longrightarrow> tgt f = Some i"
    "f \<in> set (ac_pending x ! 4) \<union> set (mgmt_sleep_q x) \<Longrightarrow> \<not> xa_ps_dontq (attr f) \<and> xa_ra (attr f) \<noteq> bcast_addr"
    "if b = Some i then sta_state x AND WIFI_SLEEP_STATE = 0 \<and> mgmt_sleep_q x = [] \<and> (sleep_q x \<noteq> [] \<longrightarrow> tim 0)
      else (sta_state x AND WIFI_SLEEP_STATE \<noteq> 0 \<longrightarrow> sta_state x AND WIFI_ASOC_STATE \<noteq> 0) \<and>
           (sleep_q x \<noteq> [] \<or> mgmt_sleep_q x \<noteq> [] \<longrightarrow> sta_state x AND WIFI_SLEEP_STATE \<noteq> 0 \<and> (legacy x \<longrightarrow> tim (sta_aid_no x)))"
  using assms unfolding sta_local_def by (elim conjE, (assumption | blast))+

lemma sta_local_pending:
  assumes a: "sta_local d tgt attr hp b tim i x" and len: "length p = 5"
    and sub: "\<And>k. k < 5 \<Longrightarrow> set (p ! k) \<subseteq> set (ac_pending x ! k)" and cnt: "\<And>k. k < 5 \<Longrightarrow> ac_qcnt x ! k = int (length (p ! k)) + d' k"
  shows "sta_local d' tgt attr hp b tim i (x\<lparr>ac_pending := p\<rparr>)"
proof -
  note l = sta_local_facts [OF a]
  have s: "k < 5 \<Longrightarrow> f \<in> set (p ! k) \<Longrightarrow> f \<in> set (ac_pending x ! k)" for k f using sub by blast
  have "i \<in> set (hp ! k)" if "k < 5" "p ! k \<noteq> []" for k
    using l(6) [OF that(1)] s [OF that(1), of "hd (p ! k)"] that(2) by fastforce
  moreover have "rtw_get_sta_pending (xa_priority (attr f)) = k" if "k < 4" "f \<in> set (p ! k)" for k f
    using l(7) [OF that(1)] s [OF _ that(2)] that(1) by simp
  moreover have "tgt f = Some i" if "k < 5" "f \<in> set (p ! k)" for k f using l(8) [OF that(1) s [OF that]] .
  moreover have "\<not> xa_ps_dontq (attr f) \<and> xa_ra (attr f) \<noteq> bcast_addr" if "f \<in> set (p ! 4) \<union> set (mgmt_sleep_q x)" for f
    using l(10) [of f] s [of 4 f] that by auto
  ultimately show ?thesis
    unfolding sta_local_def using len cnt l(1,2,4,9,11) by simp
qed

definition ahead :: "nat \<Rightarrow> nat \<Rightarrow> (nat \<Rightarrow> nat \<Rightarrow> int) \<Rightarrow> nat \<Rightarrow> nat \<Rightarrow> int" where
  "ahead i ac D = D(i := (D i)(ac := D i ac + 1))"

lemma unlink_inv:
  assumes inv: "ps_inv D M ad L" and i: "i < NUM_STA" and ac: "ac < 5" and f: "f \<in> set (ac_pending (sta_of ad i) ! ac)"
  shows "ps_inv (ahead i ac D) M (unlink_pending i f ad) (f # L)"
    and "ac_pending (sta_of (unlink_pending i f ad) i) = (ac_pending (sta_of ad i))[ac := remove1 f (ac_pending (sta_of ad i) ! ac)]"
proof -
  note loc = ps_inv_local [OF inv i]
  then have l: "length (ac_pending (sta_of ad i)) = 5" by (simp add: sta_local_def)
  have d: "distinct (concat (ac_pending (sta_of ad i)))" by (rule queue_distinct [OF inv i])
  note e = removeAll_queue [OF d _ f, unfolded l, OF ac]
  show "ac_pending (sta_of (unlink_pending i f ad) i) = (ac_pending (sta_of ad i))[ac := remove1 f (ac_pending (sta_of ad i) ! ac)]"
    using i ps_inv_len [OF inv] by (simp add: unlink_pending_def e)
  have "mset (concat ((ac_pending (sta_of ad i))[ac := remove1 f (ac_pending (sta_of ad i) ! ac)])) + mset (ac_pending (sta_of ad i) ! ac) =
      mset (concat (ac_pending (sta_of ad i))) + mset (remove1 f (ac_pending (sta_of ad i) ! ac))"
    by (rule mset_concat_update) (simp add: l ac)
  then have ms: "add_mset f (mset (concat ((ac_pending (sta_of ad i))[ac := remove1 f (ac_pending (sta_of ad i) ! ac)]))) = mset (concat (ac_pending (sta_of ad i)))"
    using f by (metis add_mset_add_single add_right_cancel insert_DiffM mset_remove1 set_mset_mset union_mset_add_mset_left union_mset_add_mset_right)
  have sub: "set (remove1 f (ac_pending (sta_of ad i) ! ac)) \<subseteq> set (ac_pending (sta_of ad i) ! ac)" by (rule set_remove1_subset)
  have len: "int (length (remove1 f (ac_pending (sta_of ad i) ! ac))) = int (length (ac_pending (sta_of ad i) ! ac)) - 1"
    using f length_pos_if_in_set [OF f] by (cases "length (ac_pending (sta_of ad i) ! ac)") (simp_all add: length_remove1)
  define r where "r = remove1 f (ac_pending (sta_of ad i) ! ac)"
  have sub': "f' \<in> set r \<Longrightarrow> f' \<in> set (ac_pending (sta_of ad i) ! ac)" for f' using sub by (auto simp: r_def)
  have ne: "ac_pending (sta_of ad i) ! ac \<noteq> []" using f by auto
  have nth: "k < 5 \<Longrightarrow> (ac_pending (sta_of ad i))[ac := r] ! k = (if k = ac then r else ac_pending (sta_of ad i) ! k)" for k
    using l ac by simp
  have "local_of (ahead i ac D) ad i ((sta_of ad i)\<lparr>ac_pending := (ac_pending (sta_of ad i))[ac := r]\<rparr>)"
  proof (rule sta_local_pending [OF loc])
    show "set ((ac_pending (sta_of ad i))[ac := r] ! k) \<subseteq> set (ac_pending (sta_of ad i) ! k)" if "k < 5" for k
      using nth [OF that] sub' by auto
    show "ac_qcnt (sta_of ad i) ! k = int (length ((ac_pending (sta_of ad i))[ac := r] ! k)) + ahead i ac D i k" if "k < 5" for k
      using nth [OF that] that loc len by (simp add: sta_local_def ahead_def r_def)
  qed (simp add: l)
  then show "ps_inv (ahead i ac D) M (unlink_pending i f ad) (f # L)"
    unfolding unlink_pending_def
    by (intro ps_inv_set [OF inv i]) (simp_all add: e ahead_def sta_xmit_frames_def ms [symmetric] r_def)
qed

lemma unpend_eq:
  "unpend_count i ac ad = ad\<lparr>tx_stapriv := (tx_stapriv ad)
     \<lparr>stas := (stas (tx_stapriv ad))[i := (sta_of ad i)\<lparr>ac_qcnt := (ac_qcnt (sta_of ad i))[ac := ac_qcnt (sta_of ad i) ! ac - 1]\<rparr>],
      hw_pending := hw_pending (tx_stapriv ad), xmit_accnt := (xmit_accnt (tx_stapriv ad))[ac := xmit_accnt (tx_stapriv ad) ! ac - 1]\<rparr>\<rparr>"
  by (simp add: unpend_count_def set_sta_def sta_of_def Let_def)

lemma unpend_inv:
  assumes inv: "ps_inv (ahead i ac D) M ad L" and i: "i < NUM_STA" and ac: "ac < 5"
  shows "ps_inv D M (unpend_count i ac ad) L"
proof -
  note loc = ps_inv_local [OF inv i]
  note l = sta_local_facts [OF loc]
  have len: "length (hw_pending (tx_stapriv ad)) = 5" "length (xmit_accnt (tx_stapriv ad)) = 5"
    using inv by (simp_all add: ps_inv_def ps_table_def Let_def)
  show ?thesis
    unfolding unpend_eq
  proof (rule ps_inv_upd [OF inv i refl, where D' = D])
    show "local_of D ad i ((sta_of ad i)\<lparr>ac_qcnt := (ac_qcnt (sta_of ad i))[ac := ac_qcnt (sta_of ad i) ! ac - 1]\<rparr>)"
      unfolding sta_local_def using l ac by (simp add: nth_list_update ahead_def)
  qed (use ac l len in \<open>auto simp: nth_list_update sta_xmit_frames_def ahead_def dest: ps_inv_listed [OF inv]\<close>)
qed

lemma sta_of_unpend:
  assumes "length (stas (tx_stapriv ad)) = NUM_STA" "i < NUM_STA"
  shows "sta_of (unpend_count i ac ad) j = (if j = i then (sta_of ad i)\<lparr>ac_qcnt := (ac_qcnt (sta_of ad i))[ac := ac_qcnt (sta_of ad i) ! ac - 1]\<rparr> else sta_of ad j)"
  using assms by (simp add: unpend_eq sta_of_def)

lemma delete_inv:
  assumes inv: "ps_inv D M ad L" and i: "i < NUM_STA" and ac: "ac < 5" and e: "ac_pending (sta_of ad i) ! ac = []"
  shows "ps_inv D M (tx_pending_delete i ac ad) L"
proof -
  let ?hp = "(hw_pending (tx_stapriv ad))[ac := filter (\<lambda>j. j \<noteq> i) (hw_pending (tx_stapriv ad) ! ac)]"
  have eq: "tx_pending_delete i ac ad = ad\<lparr>tx_stapriv := (tx_stapriv ad)\<lparr>stas := (stas (tx_stapriv ad))[i := sta_of ad i],
      hw_pending := ?hp, xmit_accnt := xmit_accnt (tx_stapriv ad)\<rparr>\<rparr>"
    by (simp add: tx_pending_delete_def Let_def sta_of_def)
  have len: "length (hw_pending (tx_stapriv ad)) = 5" "length (xmit_accnt (tx_stapriv ad)) = 5"
    using inv by (simp_all add: ps_inv_def ps_table_def Let_def)
  note l = sta_local_facts [OF ps_inv_local [OF inv i]]
  show ?thesis
    unfolding eq
  proof (rule ps_inv_upd [OF inv i refl, where D' = D])
    have "i \<in> set (?hp ! k)" if "k < 5" "ac_pending (sta_of ad i) ! k \<noteq> []" for k
      using l(6) [OF that] that e len ac by (auto simp: nth_list_update)
    then show "sta_local (D i) (tx_target ad) (tx_attr ad) ?hp (rtw_get_bcmc_stainfo (tx_stapriv ad)) (tim_is_set ad) i (sta_of ad i)"
      using ps_inv_local [OF inv i] unfolding sta_local_def by simp
  qed (use ac len in \<open>auto simp: nth_list_update dest: ps_inv_listed [OF inv] split: if_splits\<close>)
qed

text \<open>The buffer takes a frame of this station, whatever its flags.\<close>

definition buffering :: "nat \<Rightarrow> tx_adapter \<Rightarrow> bool" where
  "buffering i ad \<longleftrightarrow>
     (if rtw_get_bcmc_stainfo (tx_stapriv ad) = Some i then dz_anyone ad
      else sta_state (sta_of ad i) AND WIFI_SLEEP_STATE \<noteq> 0 \<and> dz_is_set ad (sta_aid_no (sta_of ad i)))"

lemma lookup_mac:
  assumes "rtw_get_stainfo s a = Some i"
  shows "mac_addr (stas s ! i) = (if IS_MCAST a then bcast_addr else a)"
  using assms by (auto simp: rtw_get_stainfo_def get_stainfo_def Let_def find_Some_iff IS_MCAST_def split: if_splits)

lemma target_mcast:
  assumes "tx_target ad f = Some i"
  shows "IS_MCAST (xa_ra (tx_attr ad f)) \<longleftrightarrow> rtw_get_bcmc_stainfo (tx_stapriv ad) = Some i"
proof -
  have l: "rtw_get_stainfo (tx_stapriv ad) (xa_ra (tx_attr ad f)) = Some i" using assms by (simp add: target_lookup)
  have bc: "IS_MCAST bcast_addr" by (simp add: IS_MCAST_def bcast_addr_def)
  show ?thesis
  proof
    assume "IS_MCAST (xa_ra (tx_attr ad f))"
    then show "rtw_get_bcmc_stainfo (tx_stapriv ad) = Some i" using mcast_lookup l by metis
  next
    assume "rtw_get_bcmc_stainfo (tx_stapriv ad) = Some i"
    then have "mac_addr (stas (tx_stapriv ad) ! i) = bcast_addr" using lookup_mac bc unfolding rtw_get_bcmc_stainfo_def by metis
    then show "IS_MCAST (xa_ra (tx_attr ad f))" using lookup_mac [OF l] bc by (auto split: if_splits)
  qed
qed

lemma bmp_any: "length m = l \<Longrightarrow> rtw_bmp_not_empty m l \<longleftrightarrow> (\<exists>a. rtw_bmp_is_set m l a)"
proof
  assume l: "length m = l" and "rtw_bmp_not_empty m l"
  then obtain k where k: "k < l" "m ! k \<noteq> 0" by (auto simp: rtw_bmp_not_empty_def list_ex_iff in_set_conv_nth)
  then obtain n where n: "bit (m ! k) n" by (auto simp: bit_eq_iff)
  then have "n < 8" using bit_imp_le_length [of "m ! k" n] by simp
  then show "\<exists>a. rtw_bmp_is_set m l a" using k n by (intro exI [of _ "8 * k + n"]) (simp add: bmp_is_set_iff)
next
  assume l: "length m = l" and "\<exists>a. rtw_bmp_is_set m l a"
  then obtain a where a: "a div 8 < l" "bit (m ! (a div 8)) (a mod 8)" by (auto simp: bmp_is_set_iff)
  then have "m ! (a div 8) \<noteq> 0" by auto
  then show "rtw_bmp_not_empty m l" using a l by (auto simp: rtw_bmp_not_empty_def list_ex_iff intro: bexI [OF _ nth_mem])
qed

lemma dz_anyone_iff: "ps_table ad \<Longrightarrow> dz_anyone ad \<longleftrightarrow> (\<exists>a. rtw_bmp_is_set (sta_dz_bitmap (tx_stapriv ad)) (aid_bmp_len (tx_stapriv ad)) a)"
  by (simp add: ps_table_def Let_def dz_anyone_def bmp_any)

lemma enqueue_buffering:
  assumes "tx_target ad f = Some i" "buffering i ad" "\<not> xa_triggered (tx_attr ad f)" "tx_ap ad"
  shows "xmitframe_enqueue_for_sleeping_sta ad f = (True,
    if rtw_get_bcmc_stainfo (tx_stapriv ad) = Some i then buffered_group (buffer_frame i f ad) else buffered_client i f (buffer_frame i f ad))"
  using assms target_mcast [OF assms(1)] by (auto simp: xmitframe_enqueue_for_sleeping_sta_def buffering_def Let_def split: if_splits)

lemma removeAll_twice: "removeAll f (removeAll f xs) = removeAll f xs"
  by (simp add: removeAll_filter_not_eq)

lemma unlink_idem: "buffer_frame i f (unlink_pending i f ad) = buffer_frame i f ad"
proof -
  show ?thesis by (cases "i < length (stas (tx_stapriv ad))") (simp_all add: buffer_frame_def unlink_pending_def set_sta_def list_update_beyond removeAll_twice o_def)
qed

end
