(* ===== verification/Tx_Steps.thy ===== *)
theory Tx_Steps
  imports Tx_Queues
begin

unbundle bit_operations_syntax

text \<open>
  Everything that happens to the queues of \<open>Power_Save\<close>: a station falling asleep, polls and trigger frames,
  group frames, sending, and the hardware's side. \<open>tx_step\<close> is one such step and \<open>tx_reach\<close> the states that
  any sequence of them leads to.
\<close>

section \<open>Falling asleep\<close>

text \<open>
  Frames of station \<open>i\<close> have moved to its buffers, \<open>fs\<close> to that for data and \<open>gs\<close> to that for management
  frames; nothing else has changed but marks in the maps, which none has lost.
\<close>

definition park_rest :: "nat \<Rightarrow> tx_adapter \<Rightarrow> tx_adapter" where
  "park_rest i ad = (tx_rest i ad)\<lparr>tx_stapriv := (tx_stapriv (tx_rest i ad))\<lparr>tim_bitmap := [], sta_dz_bitmap := []\<rparr>, tx_calls := []\<rparr>"

lemma park_rest_steps:
  "park_rest i (tim_set a ad) = park_rest i ad" "park_rest i (dz_set a ad) = park_rest i ad" "park_rest i (tx_call c ad) = park_rest i ad"
  "i < length (stas (tx_stapriv ad)) \<Longrightarrow> sta_rest (g (sta_of ad i)) = sta_rest (sta_of ad i) \<Longrightarrow> park_rest i (set_sta i g ad) = park_rest i ad"
  "(\<And>a. attr_rest (h a) = attr_rest a) \<Longrightarrow> park_rest i (set_attr f h ad) = park_rest i ad"
  "i < length (stas (tx_stapriv ad)) \<Longrightarrow> park_rest i (unpend_count i ac ad) = park_rest i ad"
  "park_rest i (tx_pending_delete i ac ad) = park_rest i ad"
  by (simp_all add: park_rest_def tx_rest_def tim_set_def dz_set_def tx_call_def set_sta_def set_attr_def sta_of_def fun_eq_iff
      unpend_eq tx_pending_delete_def sta_rest_def Let_def)

lemma park_rest_facts:
  assumes "park_rest i ad' = park_rest i ad" "i < NUM_STA" "length (stas (tx_stapriv ad)) = NUM_STA"
  shows "sta_rest (sta_of ad' i) = sta_rest (sta_of ad i)" "j \<noteq> i \<Longrightarrow> sta_of ad' j = sta_of ad j"
    "rtw_get_bcmc_stainfo (tx_stapriv ad') = rtw_get_bcmc_stainfo (tx_stapriv ad)" "tx_target ad' = tx_target ad" "tx_out ad' = tx_out ad"
    "attr_rest (tx_attr ad' f) = attr_rest (tx_attr ad f)" "length (stas (tx_stapriv ad')) = NUM_STA" "tx_ap ad' = tx_ap ad"
    "rtw_get_stainfo (tx_stapriv ad') a = rtw_get_stainfo (tx_stapriv ad) a"
proof -
  have f: "h ad' = h ad" if "\<And>z. h (park_rest i z) = h z" for h :: "tx_adapter \<Rightarrow> 'z"
    using arg_cong [OF assms(1), of h] that by simp
  have st: "(stas (tx_stapriv ad'))[i := sta_rest (sta_of ad' i)] = (stas (tx_stapriv ad))[i := sta_rest (sta_of ad i)]"
    using arg_cong [OF assms(1), of "\<lambda>z. stas (tx_stapriv z)"] by (simp add: park_rest_def tx_rest_def)
  then show len: "length (stas (tx_stapriv ad')) = NUM_STA" using assms(3) by (metis length_list_update)
  show i: "sta_rest (sta_of ad' i) = sta_rest (sta_of ad i)"
    using arg_cong [OF st, of "\<lambda>z. z ! i"] assms(2,3) len by simp
  show o: "sta_of ad' j = sta_of ad j" if "j \<noteq> i" for j
    using arg_cong [OF st, of "\<lambda>z. z ! j"] that by (simp add: sta_of_def)
  show at: "attr_rest (tx_attr ad' f) = attr_rest (tx_attr ad f)" for f
    using fun_cong [OF arg_cong [OF assms(1), of tx_attr], of f] by (simp add: park_rest_def tx_rest_def)
  have mac: "mac_addr (sta_of ad' j) = mac_addr (sta_of ad j)" "sta_state (sta_of ad' j) = sta_state (sta_of ad j)" for j
    using sta_rest_fields(1,3) [OF i] o [of j] by (cases "j = i"; simp)+
  have hash: "sta_hash (tx_stapriv ad') = sta_hash (tx_stapriv ad)" by (rule f) (simp add: park_rest_def tx_rest_def)
  show look: "rtw_get_stainfo (tx_stapriv ad') a = rtw_get_stainfo (tx_stapriv ad) a"
    "rtw_get_bcmc_stainfo (tx_stapriv ad') = rtw_get_bcmc_stainfo (tx_stapriv ad)" for a
    using mac hash by (auto intro!: lookup_cong simp: sta_of_def)
  show "tx_target ad' = tx_target ad"
    using attr_rest_fields [OF at] by (simp add: fun_eq_iff tx_target_def Let_def look mac split: option.split)
  show "tx_out ad' = tx_out ad" by (rule f) (simp add: park_rest_def tx_rest_def)
  show "tx_ap ad' = tx_ap ad" by (rule f) (simp add: park_rest_def tx_rest_def)
qed

definition parked :: "nat \<Rightarrow> nat list \<Rightarrow> nat list \<Rightarrow> tx_adapter \<Rightarrow> tx_adapter \<Rightarrow> bool" where
  "parked i fs gs ad ad' \<longleftrightarrow>
     park_rest i ad' = park_rest i ad \<and> (\<forall>a. dz_is_set ad a \<longrightarrow> dz_is_set ad' a) \<and>
     sleep_q (sta_of ad' i) = sleep_q (sta_of ad i) @ fs \<and> mgmt_sleep_q (sta_of ad' i) = mgmt_sleep_q (sta_of ad i) @ gs \<and>
     (\<forall>f. f \<notin> set fs \<union> set gs \<longrightarrow> tx_attr ad' f = tx_attr ad f) \<and> (\<forall>f \<in> set fs \<union> set gs. \<not> xa_triggered (tx_attr ad' f))"

lemma parked_Nil: "parked i [] [] ad ad"
  by (simp add: parked_def)

lemma parked_append: "parked i fs gs ad ad' \<Longrightarrow> parked i fs' gs' ad' ad'' \<Longrightarrow> parked i (fs @ fs') (gs @ gs') ad ad''"
  by (auto simp: parked_def)

lemma dz_anyone_aid: "ps_table ad \<Longrightarrow> dz_anyone ad \<longleftrightarrow> (\<exists>a. dz_is_set ad a)"
proof -
  assume t: "ps_table ad"
  have "rtw_bmp_is_set (sta_dz_bitmap (tx_stapriv ad)) (aid_bmp_len (tx_stapriv ad)) a \<Longrightarrow> a < 256" for a
    using t by (auto simp: bmp_is_set_iff ps_table_def Let_def)
  then show ?thesis unfolding dz_anyone_iff [OF t] dz_is_set_def by (metis mod_less)
qed

lemma parked_buffering:
  assumes "parked i fs gs ad ad'" "buffering i ad" "ps_inv D M ad L" "ps_inv D' M ad' L'" "i < NUM_STA"
  shows "buffering i ad'"
proof -
  have p: "park_rest i ad' = park_rest i ad" and d: "\<And>a. dz_is_set ad a \<Longrightarrow> dz_is_set ad' a" using assms(1) by (auto simp: parked_def)
  note f = park_rest_facts [OF p assms(5) ps_inv_len [OF assms(3)]]
  show ?thesis
    using assms(2) d by (auto simp: buffering_def f(3) sta_rest_fields [OF f(1)] dz_anyone_aid ps_inv_table [OF assms(3)] ps_inv_table [OF assms(4)]; blast)
qed

lemma len_set: "length (stas (tx_stapriv (set_sta i g ad))) = length (stas (tx_stapriv ad))"
  by (simp add: set_sta_def)

lemma buffered_eq:
  assumes "length (stas (tx_stapriv ad)) = NUM_STA" "i < NUM_STA"
  shows "sta_of (buffered_group ad) = sta_of ad" "tx_attr (buffered_group ad) = tx_attr ad" "park_rest i (buffered_group ad) = park_rest i ad"
    "\<exists>n. sta_of (buffered_client i f ad) i = (sta_of ad i)\<lparr>sleepq_ac_len := n\<rparr>" "tx_attr (buffered_client i f ad) = tx_attr ad"
    "park_rest i (buffered_client i f ad) = park_rest i ad" "dz_is_set (buffered_client i f ad) = dz_is_set ad"
proof -
  show "sta_of (buffered_group ad) = sta_of ad" "tx_attr (buffered_group ad) = tx_attr ad"
    by (simp_all add: buffered_group_def Let_def tim_set_def dz_set_def sta_of_def fun_eq_iff)
  show "park_rest i (buffered_group ad) = park_rest i ad" by (simp add: buffered_group_def Let_def park_rest_steps)
  let ?B = "set_sta i (\<lambda>x. x\<lparr>sleepq_ac_len := sleepq_ac_len x + 1\<rparr>) ad"
  have s: "sta_of (announce a ad) = sta_of ad" "tx_attr (announce a ad) = tx_attr ad" "park_rest i (announce a ad) = park_rest i ad"
      "dz_is_set (announce a ad) = dz_is_set ad" for a ad
    by (simp_all add: announce_def Let_def park_rest_steps, simp_all add: tim_set_def sta_of_def fun_eq_iff dz_is_set_def)
  have p: "park_rest i ?B = park_rest i ad" using assms by (intro park_rest_steps) (simp_all add: sta_rest_def)
  show "tx_attr (buffered_client i f ad) = tx_attr ad" "dz_is_set (buffered_client i f ad) = dz_is_set ad" "park_rest i (buffered_client i f ad) = park_rest i ad"
    by (simp_all add: buffered_client_def Let_def s p bits_set)
  have "sta_of (buffered_client i f ad) i = (sta_of ad i)\<lparr>sleepq_ac_len :=
      (if uapsd_of (sta_of ad i) (xa_priority (tx_attr ad f)) AND 1 \<noteq> 0 then sleepq_ac_len (sta_of ad i) + 1 else sleepq_ac_len (sta_of ad i))\<rparr>"
    using assms by (simp add: buffered_client_def Let_def s)
  then show "\<exists>n. sta_of (buffered_client i f ad) i = (sta_of ad i)\<lparr>sleepq_ac_len := n\<rparr>" by blast
qed

lemma dz_set_mono:
  "length (sta_dz_bitmap (tx_stapriv ad)) = aid_bmp_len (tx_stapriv ad) \<Longrightarrow> dz_is_set ad a \<Longrightarrow> dz_is_set (dz_set b ad) a"
  by (simp add: dz_is_set_def dz_set_def bmp_set)

text \<open>One frame of a data queue put in the buffer.\<close>

lemma stop_data_step:
  assumes inv: "ps_inv D M ad L" and i: "i < NUM_STA" and buf: "buffering i ad" and ac: "ac < 4"
    and q: "ac_pending (sta_of ad i) ! ac = f # fs"
  shows "ps_inv D M (stop_data i f ad) L" "buffering i (stop_data i f ad)" "parked i [f] [] ad (stop_data i f ad)"
    "ac_pending (sta_of (stop_data i f ad) i) = (ac_pending (sta_of ad i))[ac := fs]"
proof -
  define A where "A = set_attr f (\<lambda>a. a\<lparr>xa_triggered := False\<rparr>) ad"
  define U where "U = unlink_pending i f A"
  define B where "B = buffer_frame i f A"
  define X where "X = (if rtw_get_bcmc_stainfo (tx_stapriv ad) = Some i then buffered_group B else buffered_client i f B)"
  have invA: "ps_inv D M A L" unfolding A_def using inv by (rule ps_inv_attr) simp_all
  have ap: "tx_ap A" using ps_inv_table [OF invA] by (simp add: ps_table_def Let_def)
  have qA: "ac_pending (sta_of A i) ! ac = f # fs" "f \<in> set (ac_pending (sta_of A i) ! ac)" using q by (simp_all add: A_def)
  note lenA = ps_inv_len [OF invA]
  have loc: "length (ac_pending (sta_of A i)) = 5" by (rule sta_local_facts(3) [OF ps_inv_local [OF invA i]])
  have tA: "tx_target A f = Some i" using queue_target(2) [OF invA i, of ac f] qA ac by simp
  have pr: "rtw_get_sta_pending (xa_priority (tx_attr A f)) = ac" using sta_local_facts(7) [OF ps_inv_local [OF invA i] ac qA(2)] .
  have bmA: "rtw_get_bcmc_stainfo (tx_stapriv A) = rtw_get_bcmc_stainfo (tx_stapriv ad)" by (simp add: A_def)
  have sU: "sta_of U i = (sta_of A i)\<lparr>ac_pending := map (removeAll f) (ac_pending (sta_of A i))\<rparr>" "\<And>j. j \<noteq> i \<Longrightarrow> sta_of U j = sta_of A j"
    using lenA i by (simp_all add: U_def unlink_pending_def)
  have bmU: "rtw_get_bcmc_stainfo (tx_stapriv U) = rtw_get_bcmc_stainfo (tx_stapriv ad)" using bmA by (simp add: U_def unlink_pending_def)
  have tU: "tx_target U f = Some i" unfolding U_def unlink_pending_def using tA by (subst tgt_set [OF invA i]) simp_all
  have dz: "dz_is_set U = dz_is_set A" "dz_anyone U = dz_anyone A" by (simp_all add: U_def unlink_pending_def set_sta_def dz_is_set_def dz_anyone_def fun_eq_iff)
  have dA: "dz_is_set A = dz_is_set ad" "dz_anyone A = dz_anyone ad" by (simp_all add: A_def dz_anyone_def)
  have bufA: "buffering i A" and bufU: "buffering i U" using buf by (simp_all add: buffering_def bmA bmU sU dz dA) (simp_all add: A_def)
  have trig: "\<not> xa_triggered (tx_attr A f)" by (simp add: A_def)
  have eA: "xmitframe_enqueue_for_sleeping_sta A f = (True, X)"
    using enqueue_buffering [OF tA bufA trig ap] by (simp add: X_def B_def bmA)
  have apU: "tx_ap U" using ap by (simp add: U_def unlink_pending_def set_sta_def)
  have BU: "buffer_frame i f U = B" by (simp add: U_def B_def unlink_idem)
  have trigU: "\<not> xa_triggered (tx_attr U f)" using trig by (simp add: U_def)
  have eU: "xmitframe_enqueue_for_sleeping_sta U f = (True, X)"
    using enqueue_buffering [OF tU bufU trigU apU] BU by (simp add: X_def bmU)
  have ac5: "ac < 5" using ac by simp
  note U = unlink_inv [OF invA i ac5 qA(2), folded U_def]
  have invX: "ps_inv (ahead i ac D) M X L" using enqueue_inv [OF U(1) eU] by simp
  have sB: "sta_of B i = (sta_of ad i)\<lparr>ac_pending := (ac_pending (sta_of ad i))[ac := fs], sleep_q := sleep_q (sta_of ad i) @ [f],
      sleepq_len := sleepq_len (sta_of ad i) + 1\<rparr>"
  proof -
    have "map (removeAll f) (ac_pending (sta_of A i)) = (ac_pending (sta_of A i))[ac := fs]" using sU(1) U(2) qA(1) by simp
    then show ?thesis using lenA i by (simp add: B_def buffer_frame_def unlink_pending_def len_set) (simp add: A_def)
  qed
  have lenB: "length (stas (tx_stapriv B)) = NUM_STA" using lenA by (simp add: B_def buffer_frame_def unlink_pending_def set_sta_def)
  note b = buffered_eq [OF lenB i]
  have lenX: "length (stas (tx_stapriv X)) = NUM_STA" by (rule ps_inv_len [OF invX])
  have atX: "tx_attr X = tx_attr A" using b(2) b(5) [of f] by (simp add: X_def B_def)
  have e: "stop_data i f ad = unpend_count i ac X"
    using eA pr atX by (simp add: stop_data_def A_def [symmetric])
  show "ps_inv D M (stop_data i f ad) L" unfolding e by (rule unpend_inv [OF invX i ac5])
  have sX: "\<exists>n. sta_of X i = (sta_of B i)\<lparr>sleepq_ac_len := n\<rparr>"
    using b(1) b(4) [of f] by (cases "rtw_get_bcmc_stainfo (tx_stapriv ad) = Some i") (auto simp: X_def intro: exI [of _ "sleepq_ac_len (sta_of B i)"])
  have s: "ac_pending (sta_of (stop_data i f ad) i) = (ac_pending (sta_of ad i))[ac := fs]"
    "sleep_q (sta_of (stop_data i f ad) i) = sleep_q (sta_of ad i) @ [f]" "mgmt_sleep_q (sta_of (stop_data i f ad) i) = mgmt_sleep_q (sta_of ad i)"
    using sX sB by (auto simp: e sta_of_unpend [OF lenX i])
  show "ac_pending (sta_of (stop_data i f ad) i) = (ac_pending (sta_of ad i))[ac := fs]" by (rule s(1))
  have pA: "park_rest i A = park_rest i ad" unfolding A_def by (rule park_rest_steps) (simp add: attr_rest_def)
  have pB: "park_rest i B = park_rest i A"
    using lenA i by (simp add: B_def buffer_frame_def unlink_pending_def park_rest_steps(4) len_set sta_rest_def)
  have pX: "park_rest i X = park_rest i B" using b(3) b(6) [of f] by (simp add: X_def)
  have p: "park_rest i (stop_data i f ad) = park_rest i ad"
    unfolding e using pA pB pX lenX i by (simp add: park_rest_steps)
  have dX: "dz_is_set X a" if "dz_is_set ad a" for a
  proof -
    have dB: "dz_is_set B = dz_is_set ad" by (simp add: B_def buffer_frame_def unlink_pending_def set_sta_def dz_is_set_def fun_eq_iff A_def)
    have tab: "length (sta_dz_bitmap (tx_stapriv (tim_set 0 B))) = aid_bmp_len (tx_stapriv (tim_set 0 B))"
      using ps_inv_table [OF invA] by (simp add: B_def buffer_frame_def unlink_pending_def set_sta_def ps_table_def Let_def tim_set_def)
    have "dz_is_set (tim_set 0 B) = dz_is_set B" by (simp add: dz_is_set_def tim_set_def fun_eq_iff)
    then have "dz_is_set (tim_set 0 B) a" using that dB by simp
    then have "dz_is_set (dz_set 0 (tim_set 0 B)) a" by (rule dz_set_mono [OF tab])
    then have "dz_is_set (buffered_group B) a" by (simp add: buffered_group_def Let_def)
    then show ?thesis using that dB b(7) [of f] by (simp add: X_def)
  qed
  have "dz_is_set (stop_data i f ad) = dz_is_set X" by (simp add: e unpend_eq dz_is_set_def fun_eq_iff)
  then show parked: "parked i [f] [] ad (stop_data i f ad)"
    using p dX s atX by (simp add: parked_def e unpend_eq A_def)
  show "buffering i (stop_data i f ad)"
    by (rule parked_buffering [OF parked buf inv _ i]) (use e unpend_inv [OF invX i ac5] in simp)
qed

text \<open>One management frame. Only clients have these.\<close>

lemma stop_mgmt_step:
  assumes inv: "ps_inv D M ad L" and i: "i < NUM_STA" and buf: "buffering i ad" and b: "rtw_get_bcmc_stainfo (tx_stapriv ad) \<noteq> Some i"
    and q: "ac_pending (sta_of ad i) ! 4 = f # fs"
  shows "ps_inv D M (stop_mgmt i f ad) L" "buffering i (stop_mgmt i f ad)" "parked i [] [f] ad (stop_mgmt i f ad)"
    "ac_pending (sta_of (stop_mgmt i f ad) i) = (ac_pending (sta_of ad i))[4 := fs]"
proof -
  define A where "A = set_attr f (\<lambda>a. a\<lparr>xa_triggered := False\<rparr>) ad"
  define U where "U = unlink_pending i f A"
  let ?g = "\<lambda>x. x\<lparr>mgmt_sleep_q := mgmt_sleep_q x @ [f], mgmt_sleepq_len := mgmt_sleepq_len x + 1\<rparr>"
  define X where "X = announce (sta_aid_no (sta_of ad i)) (set_sta i ?g U)"
  have invA: "ps_inv D M A L" unfolding A_def using inv by (rule ps_inv_attr) simp_all
  have qA: "ac_pending (sta_of A i) ! 4 = f # fs" "f \<in> set (ac_pending (sta_of A i) ! 4)" using q by (simp_all add: A_def)
  note lenA = ps_inv_len [OF invA]
  have tA: "tx_target A f = Some i" using queue_target(2) [OF invA i, of 4 f] qA by simp
  then have lA: "rtw_get_stainfo (tx_stapriv A) (xa_ra (tx_attr A f)) = Some i" "xa_psta (tx_attr A f) = Some i"
    "sta_state (sta_of A i) AND WIFI_ASOC_STATE \<noteq> 0" by (simp_all add: target_lookup)
  have fl: "\<not> xa_ps_dontq (tx_attr A f) \<and> xa_ra (tx_attr A f) \<noteq> bcast_addr"
    using sta_local_facts(10) [OF ps_inv_local [OF invA i], of f] qA(2) by simp
  have sl: "sta_state (sta_of A i) AND WIFI_SLEEP_STATE \<noteq> 0" "dz_is_set A (sta_aid_no (sta_of A i))"
    using buf b by (simp_all add: buffering_def A_def)
  have sU: "sta_of U i = (sta_of A i)\<lparr>ac_pending := map (removeAll f) (ac_pending (sta_of A i))\<rparr>"
    using lenA i by (simp add: U_def unlink_pending_def)
  have UU: "unlink_pending i f U = U"
    unfolding unlink_pending_def by (rule set_sta_id) (simp add: sU removeAll_twice o_def)
  have eA: "mgmt_xmitframe_enqueue_for_sleeping_sta A f = (RTW_QUEUE_MGMT, X)"
    using fl lA sl i lenA by (simp add: mgmt_xmitframe_enqueue_for_sleeping_sta_def Let_def X_def U_def[symmetric] sU len_set) (simp add: U_def unlink_pending_def len_set A_def)
  have f4: "(4::nat) < 5" by simp
  note U = unlink_inv [OF invA i f4 qA(2), folded U_def]
  have dU: "dz_is_set U = dz_is_set A" by (simp add: U_def unlink_pending_def set_sta_def dz_is_set_def fun_eq_iff)
  have lU: "xa_psta (tx_attr U f) = rtw_get_stainfo (tx_stapriv U) (xa_ra (tx_attr U f))" using lA by (simp add: U_def unlink_pending_def)
  have eU: "mgmt_xmitframe_enqueue_for_sleeping_sta U f = (RTW_QUEUE_MGMT, X)"
  proof -
    have "tx_attr U f = tx_attr A f" by (simp add: U_def)
    then show ?thesis
      using fl lA sl i ps_inv_len [OF U(1)]
      by (simp add: mgmt_xmitframe_enqueue_for_sleeping_sta_def Let_def X_def UU sU dU) (simp add: A_def)
  qed
  have invX: "ps_inv (ahead i 4 D) M X L" using mgmt_enqueue_inv [OF U(1) lU eU] by simp
  have e: "stop_mgmt i f ad = unpend_count i 4 X"
    using eA by (simp add: stop_mgmt_def A_def [symmetric] HWXMIT_ENTRY_def)
  show "ps_inv D M (stop_mgmt i f ad) L" unfolding e by (rule unpend_inv [OF invX i f4])
  note lenX = ps_inv_len [OF invX]
  have rem: "map (removeAll f) (ac_pending (sta_of A i)) = (ac_pending (sta_of A i))[4 := fs]" using sU U(2) qA(1) by simp
  have sX: "sta_of X i = (sta_of ad i)\<lparr>ac_pending := (ac_pending (sta_of ad i))[4 := fs], mgmt_sleep_q := mgmt_sleep_q (sta_of ad i) @ [f],
      mgmt_sleepq_len := mgmt_sleepq_len (sta_of ad i) + 1\<rparr>"
  proof -
    have a: "sta_of (announce a z) = sta_of z" for a z by (simp add: announce_def Let_def)
    show ?thesis using ps_inv_len [OF U(1)] i rem by (simp add: X_def a sU) (simp add: A_def)
  qed
  have s: "ac_pending (sta_of (stop_mgmt i f ad) i) = (ac_pending (sta_of ad i))[4 := fs]"
    "sleep_q (sta_of (stop_mgmt i f ad) i) = sleep_q (sta_of ad i)" "mgmt_sleep_q (sta_of (stop_mgmt i f ad) i) = mgmt_sleep_q (sta_of ad i) @ [f]"
    using sX by (auto simp: e sta_of_unpend [OF lenX i])
  show "ac_pending (sta_of (stop_mgmt i f ad) i) = (ac_pending (sta_of ad i))[4 := fs]" by (rule s(1))
  have pA: "park_rest i A = park_rest i ad" unfolding A_def by (rule park_rest_steps) (simp add: attr_rest_def)
  have pU: "park_rest i U = park_rest i A" using lenA i by (simp add: U_def unlink_pending_def park_rest_steps(4) sta_rest_def)
  have pX: "park_rest i X = park_rest i U"
    using ps_inv_len [OF U(1)] i by (simp add: X_def announce_def Let_def park_rest_steps sta_rest_def)
  have p: "park_rest i (stop_mgmt i f ad) = park_rest i ad"
    unfolding e using pA pU pX lenX i by (simp add: park_rest_steps)
  have "dz_is_set X = dz_is_set ad"
    by (simp add: X_def announce_def Let_def bits_set) (simp add: dz_is_set_def fun_eq_iff tim_set_def dU [unfolded dz_is_set_def fun_eq_iff] A_def U_def unlink_pending_def set_sta_def set_attr_def)
  moreover have "dz_is_set (stop_mgmt i f ad) = dz_is_set X" by (simp add: e unpend_eq dz_is_set_def fun_eq_iff)
  moreover have "tx_attr X = tx_attr A" by (simp add: X_def announce_def Let_def tim_set_def U_def)
  ultimately show parked: "parked i [] [f] ad (stop_mgmt i f ad)"
    using p s by (simp add: parked_def e unpend_eq A_def)
  show "buffering i (stop_mgmt i f ad)"
    by (rule parked_buffering [OF parked buf inv _ i]) (use e unpend_inv [OF invX i f4] in simp)
qed

text \<open>The loops over the queues: \<open>ac\<close> is the queue that empties, the others stay.\<close>

interpretation stopping: drain "\<lambda>ad. ps_inv D M ad L \<and> i < NUM_STA \<and> buffering i ad \<and> ac < 4" "\<lambda>ad. ac_pending (sta_of ad i) ! ac" "stop_data i"
    "\<lambda>fs ad ad'. parked i fs [] ad ad' \<and> (\<forall>k. k \<noteq> ac \<longrightarrow> ac_pending (sta_of ad' i) ! k = ac_pending (sta_of ad i) ! k)" for D M L i ac
proof unfold_locales
  fix ad f fs
  assume a: "ps_inv D M ad L \<and> i < NUM_STA \<and> buffering i ad \<and> ac < 4" and q: "ac_pending (sta_of ad i) ! ac = f # fs"
  then have b: "ps_inv D M ad L" "i < NUM_STA" "buffering i ad" "ac < 4" by simp_all
  note s = stop_data_step [OF b q]
  have len: "length (ac_pending (sta_of ad i)) = 5" by (rule sta_local_facts(3) [OF ps_inv_local [OF b(1,2)]])
  show "ps_inv D M (stop_data i f ad) L \<and> i < NUM_STA \<and> buffering i (stop_data i f ad) \<and> ac < 4" using s(1,2) b by simp
  show "ac_pending (sta_of (stop_data i f ad) i) ! ac = fs" using s(4) len b(4) by simp
  show "parked i [f] [] ad (stop_data i f ad) \<and> (\<forall>k. k \<noteq> ac \<longrightarrow> ac_pending (sta_of (stop_data i f ad) i) ! k = ac_pending (sta_of ad i) ! k)"
    using s(3,4) by simp
qed (auto simp: parked_Nil dest: parked_append)

interpretation stopping_mgmt: drain "\<lambda>ad. ps_inv D M ad L \<and> i < NUM_STA \<and> buffering i ad \<and> rtw_get_bcmc_stainfo (tx_stapriv ad) \<noteq> Some i"
    "\<lambda>ad. ac_pending (sta_of ad i) ! 4" "stop_mgmt i"
    "\<lambda>fs ad ad'. parked i [] fs ad ad' \<and> (\<forall>k. k \<noteq> 4 \<longrightarrow> ac_pending (sta_of ad' i) ! k = ac_pending (sta_of ad i) ! k)" for D M L i
proof unfold_locales
  fix ad f fs
  assume a: "ps_inv D M ad L \<and> i < NUM_STA \<and> buffering i ad \<and> rtw_get_bcmc_stainfo (tx_stapriv ad) \<noteq> Some i"
    and q: "ac_pending (sta_of ad i) ! 4 = f # fs"
  then have b: "ps_inv D M ad L" "i < NUM_STA" "buffering i ad" "rtw_get_bcmc_stainfo (tx_stapriv ad) \<noteq> Some i" by simp_all
  note s = stop_mgmt_step [OF b q]
  have len: "length (ac_pending (sta_of ad i)) = 5" by (rule sta_local_facts(3) [OF ps_inv_local [OF b(1,2)]])
  have "park_rest i (stop_mgmt i f ad) = park_rest i ad" using s(3) by (simp add: parked_def)
  then have "rtw_get_bcmc_stainfo (tx_stapriv (stop_mgmt i f ad)) = rtw_get_bcmc_stainfo (tx_stapriv ad)"
    using park_rest_facts(3) b(2) ps_inv_len [OF b(1)] by blast
  then show "ps_inv D M (stop_mgmt i f ad) L \<and> i < NUM_STA \<and> buffering i (stop_mgmt i f ad) \<and>
      rtw_get_bcmc_stainfo (tx_stapriv (stop_mgmt i f ad)) \<noteq> Some i" using s(1,2) b by simp
  show "ac_pending (sta_of (stop_mgmt i f ad) i) ! 4 = fs" using s(4) len by simp
  show "parked i [] [f] ad (stop_mgmt i f ad) \<and> (\<forall>k. k \<noteq> 4 \<longrightarrow> ac_pending (sta_of (stop_mgmt i f ad) i) ! k = ac_pending (sta_of ad i) ! k)"
    using s(3,4) by simp
qed (auto simp: parked_Nil dest: parked_append)

lemma delete_facts [simp]:
  "sta_of (tx_pending_delete i ac ad) = sta_of ad" "tx_attr (tx_pending_delete i ac ad) = tx_attr ad"
  "dz_is_set (tx_pending_delete i ac ad) = dz_is_set ad"
  by (simp_all add: tx_pending_delete_def Let_def sta_of_def dz_is_set_def fun_eq_iff)

text \<open>One access category, then all four.\<close>

lemma stop_ac:
  assumes inv: "ps_inv D M ad L" and i: "i < NUM_STA" and buf: "buffering i ad" and ac: "ac < 4"
    and e: "ad' = tx_pending_delete i ac (dequeue_xmitframes_to_sleeping_queue i ac ad)"
  shows "ps_inv D M ad' L" "buffering i ad'" "parked i (ac_pending (sta_of ad i) ! ac) [] ad ad'"
    "ac_pending (sta_of ad' i) ! k = (if k = ac then [] else ac_pending (sta_of ad i) ! k)"
proof -
  define X where "X = dequeue_xmitframes_to_sleeping_queue i ac ad"
  have a: "ps_inv D M ad L \<and> i < NUM_STA \<and> buffering i ad \<and> ac < 4" using assms by simp
  note d = stopping.drain_all [OF a refl, folded dequeue_xmitframes_to_sleeping_queue_def [of i ac ad], folded X_def]
  have e: "ad' = tx_pending_delete i ac X" by (simp add: e X_def)
  have inv': "ps_inv D M (tx_pending_delete i ac X) L" by (rule delete_inv) (use d ac in simp_all)
  then show "ps_inv D M ad' L" by (simp add: e)
  have "parked i [] [] X (tx_pending_delete i ac X)" by (simp add: parked_def park_rest_steps)
  then show p: "parked i (ac_pending (sta_of ad i) ! ac) [] ad ad'" using parked_append d e by fastforce
  show "buffering i ad'" by (rule parked_buffering [OF p buf inv _ i]) (use inv' e in simp)
  show "ac_pending (sta_of ad' i) ! k = (if k = ac then [] else ac_pending (sta_of ad i) ! k)" using d by (simp add: e)
qed

lemma stop_acs_facts:
  assumes inv: "ps_inv D M ad L" and i: "i < NUM_STA" and buf: "buffering i ad"
  shows "ps_inv D M (stop_acs i ad) L" "buffering i (stop_acs i ad)"
    "parked i (concat (take 4 (ac_pending (sta_of ad i)))) [] ad (stop_acs i ad)"
    "ac_pending (sta_of (stop_acs i ad) i) ! k = (if k < 4 then [] else ac_pending (sta_of ad i) ! k)"
proof -
  let ?s = "\<lambda>ac ad. tx_pending_delete i ac (dequeue_xmitframes_to_sleeping_queue i ac ad)"
  define A0 where "A0 = ?s 0 ad"
  define A1 where "A1 = ?s 1 A0"
  define A2 where "A2 = ?s 2 A1"
  define A3 where "A3 = ?s 3 A2"
  have e: "stop_acs i ad = A3" by (simp add: stop_acs_def A0_def A1_def A2_def A3_def)
  have lt: "(0::nat) < 4" "(1::nat) < 4" "(2::nat) < 4" "(3::nat) < 4" by simp_all
  note s0 = stop_ac [OF inv i buf lt(1) A0_def]
  note s1 = stop_ac [OF s0(1) i s0(2) lt(2) A1_def]
  note s2 = stop_ac [OF s1(1) i s1(2) lt(3) A2_def]
  note s3 = stop_ac [OF s2(1) i s2(2) lt(4) A3_def]
  show "ps_inv D M (stop_acs i ad) L" "buffering i (stop_acs i ad)" unfolding e by (rule s3)+
  have len: "length (ac_pending (sta_of ad i)) = 5" by (rule sta_local_facts(3) [OF ps_inv_local [OF inv i]])
  then obtain a b c d m where p: "ac_pending (sta_of ad i) = [a, b, c, d, m]"
    by (auto simp: length_Suc_conv eval_nat_numeral)
  have "parked i (a @ b @ c @ d) [] ad A3"
    using parked_append [OF s0(3) parked_append [OF s1(3) parked_append [OF s2(3) s3(3)]]] by (simp add: s0(4) s1(4) s2(4) p)
  then show "parked i (concat (take 4 (ac_pending (sta_of ad i)))) [] ad (stop_acs i ad)" by (simp add: e p)
  show "ac_pending (sta_of (stop_acs i ad) i) ! k = (if k < 4 then [] else ac_pending (sta_of ad i) ! k)"
    unfolding e by (auto simp: s0(4) s1(4) s2(4) s3(4))
qed

lemma parked_facts:
  assumes p: "parked i fs gs ad ad'" and inv: "ps_inv D M ad L" and i: "i < NUM_STA"
  shows "sta_rest (sta_of ad' i) = sta_rest (sta_of ad i)" "j \<noteq> i \<Longrightarrow> sta_of ad' j = sta_of ad j"
    "rtw_get_bcmc_stainfo (tx_stapriv ad') = rtw_get_bcmc_stainfo (tx_stapriv ad)" "dz_is_set ad a \<Longrightarrow> dz_is_set ad' a"
    "sleep_q (sta_of ad' i) = sleep_q (sta_of ad i) @ fs" "mgmt_sleep_q (sta_of ad' i) = mgmt_sleep_q (sta_of ad i) @ gs"
    "f \<notin> set fs \<union> set gs \<Longrightarrow> tx_attr ad' f = tx_attr ad f" "attr_rest (tx_attr ad' f) = attr_rest (tx_attr ad f)"
    "tx_target ad' = tx_target ad" "tx_out ad' = tx_out ad"
    "rtw_get_stainfo (tx_stapriv ad') r = rtw_get_stainfo (tx_stapriv ad) r" "client (tx_stapriv ad') k = client (tx_stapriv ad) k"
proof -
  have q: "park_rest i ad' = park_rest i ad" using p by (simp add: parked_def)
  note f = park_rest_facts [OF q i ps_inv_len [OF inv]]
  show "sta_rest (sta_of ad' i) = sta_rest (sta_of ad i)" "rtw_get_bcmc_stainfo (tx_stapriv ad') = rtw_get_bcmc_stainfo (tx_stapriv ad)"
    "tx_target ad' = tx_target ad" "tx_out ad' = tx_out ad" "rtw_get_stainfo (tx_stapriv ad') r = rtw_get_stainfo (tx_stapriv ad) r"
    by (rule f)+
  show o: "sta_of ad' j = sta_of ad j" if "j \<noteq> i" for j by (rule f(2) [OF that])
  show "attr_rest (tx_attr ad' f) = attr_rest (tx_attr ad f)" by (rule f(6))
  show "dz_is_set ad a \<Longrightarrow> dz_is_set ad' a" "sleep_q (sta_of ad' i) = sleep_q (sta_of ad i) @ fs"
    "mgmt_sleep_q (sta_of ad' i) = mgmt_sleep_q (sta_of ad i) @ gs" "f \<notin> set fs \<union> set gs \<Longrightarrow> tx_attr ad' f = tx_attr ad f"
    using p by (auto simp: parked_def)
  have "sta_state (sta_of ad' k) = sta_state (sta_of ad k)" using sta_rest_fields(1) [OF f(1)] o [of k] by (cases "k = i") simp_all
  then show "client (tx_stapriv ad') k = client (tx_stapriv ad) k" by (simp add: client_def sta_of_def [symmetric] f(3))
qed

lemma asleep_asoc: "(x OR WIFI_SLEEP_STATE) AND WIFI_ASOC_STATE = x AND WIFI_ASOC_STATE"
  by (simp add: WIFI_SLEEP_STATE_def WIFI_ASOC_STATE_def and.commute [of _ "_ OR _"] bit.conj_disj_distrib2)

definition asleep :: "nat \<Rightarrow> tx_adapter \<Rightarrow> tx_adapter" where
  "asleep i ad = dz_set (sta_aid_no (sta_of ad i)) (set_sta i (\<lambda>x. x\<lparr>sta_state := sta_state x OR WIFI_SLEEP_STATE\<rparr>) ad)"

lemma asleep_facts:
  assumes inv: "ps_inv D M ad L" and c: "client (tx_stapriv ad) i"
  shows "ps_inv D M (asleep i ad) L" "buffering i (asleep i ad)"
    "sta_of (asleep i ad) i = (sta_of ad i)\<lparr>sta_state := sta_state (sta_of ad i) OR WIFI_SLEEP_STATE\<rparr>"
    "j \<noteq> i \<Longrightarrow> sta_of (asleep i ad) j = sta_of ad j" "tx_attr (asleep i ad) = tx_attr ad"
    "rtw_get_bcmc_stainfo (tx_stapriv (asleep i ad)) = rtw_get_bcmc_stainfo (tx_stapriv ad)"
    "dz_is_set (asleep i ad) (sta_aid_no (sta_of ad i))" "sta_state (sta_of (asleep i ad) i) AND WIFI_SLEEP_STATE \<noteq> 0"
proof -
  have i: "i < NUM_STA" using c by (simp add: client_def)
  let ?S = "set_sta i (\<lambda>x. x\<lparr>sta_state := sta_state x OR WIFI_SLEEP_STATE\<rparr>) ad"
  have S: "ps_inv D M ?S L" by (rule ps_inv_plain(4) [OF inv i c])
  show "ps_inv D M (asleep i ad) L" unfolding asleep_def by (rule ps_inv_bits(2) [OF S])
  show s: "sta_of (asleep i ad) i = (sta_of ad i)\<lparr>sta_state := sta_state (sta_of ad i) OR WIFI_SLEEP_STATE\<rparr>"
    "j \<noteq> i \<Longrightarrow> sta_of (asleep i ad) j = sta_of ad j" for j
    using ps_inv_len [OF inv] i by (simp_all add: asleep_def)
  show "tx_attr (asleep i ad) = tx_attr ad" by (simp add: asleep_def dz_set_def)
  have mac: "mac_addr (sta_of (asleep i ad) j) = mac_addr (sta_of ad j)" for j using s(1) s(2) [of j] by (cases "j = i") simp_all
  show b: "rtw_get_bcmc_stainfo (tx_stapriv (asleep i ad)) = rtw_get_bcmc_stainfo (tx_stapriv ad)"
  proof (rule lookup_cong)
    show "sta_hash (tx_stapriv (asleep i ad)) = sta_hash (tx_stapriv ad)" by (simp add: asleep_def dz_set_def set_sta_def)
    show "mac_addr (stas (tx_stapriv (asleep i ad)) ! j) = mac_addr (stas (tx_stapriv ad) ! j)" for j using mac [of j] by (simp add: sta_of_def)
  qed
  note aid = client_aid [OF ps_inv_table [OF inv] c]
  have "sta_aid_no (sta_of ?S i) = sta_aid_no (sta_of ad i)" "aid_bmp_len (tx_stapriv ?S) = aid_bmp_len (tx_stapriv ad)"
    using ps_inv_len [OF inv] i by (simp_all add: set_sta_def sta_of_def)
  then show d: "dz_is_set (asleep i ad) (sta_aid_no (sta_of ad i))"
    unfolding asleep_def using aid by (simp add: bmp_tables [OF ps_inv_table [OF S]])
  show a: "sta_state (sta_of (asleep i ad) i) AND WIFI_SLEEP_STATE \<noteq> 0"
    unfolding s by (simp add: and.commute WIFI_SLEEP_STATE_def)
  show "buffering i (asleep i ad)" using c d a by (simp add: buffering_def b client_def s)
qed

text \<open>Going to sleep: every frame on its way to the station is buffered, in order of the access categories.\<close>

lemma stop_facts:
  assumes inv: "ps_inv D M ad L" and c: "client (tx_stapriv ad) i"
  shows "ps_inv D M (stop_sta_xmit i ad) L" "sta_state (sta_of (stop_sta_xmit i ad) i) AND WIFI_SLEEP_STATE \<noteq> 0"
    "dz_is_set (stop_sta_xmit i ad) (sta_aid_no (sta_of ad i))"
    "k < 5 \<Longrightarrow> ac_pending (sta_of (stop_sta_xmit i ad) i) ! k = []"
    "sleep_q (sta_of (stop_sta_xmit i ad) i) = sleep_q (sta_of ad i) @ concat (take 4 (ac_pending (sta_of ad i)))"
    "mgmt_sleep_q (sta_of (stop_sta_xmit i ad) i) = mgmt_sleep_q (sta_of ad i) @ ac_pending (sta_of ad i) ! 4"
    "client (tx_stapriv (stop_sta_xmit i ad)) k' = client (tx_stapriv ad) k'"
    "uapsd_of (sta_of (stop_sta_xmit i ad) i) p = uapsd_of (sta_of ad i) p"
    "sta_aid_no (sta_of (stop_sta_xmit i ad) i) = sta_aid_no (sta_of ad i)"
    "xa_priority (tx_attr (stop_sta_xmit i ad) f) = xa_priority (tx_attr ad f)"
    "j \<noteq> i \<Longrightarrow> rtw_get_bcmc_stainfo (tx_stapriv ad) \<noteq> Some j \<Longrightarrow> sta_of (stop_sta_xmit i ad) j = sta_of ad j"
proof -
  have i: "i < NUM_STA" and nb: "rtw_get_bcmc_stainfo (tx_stapriv ad) \<noteq> Some i" using c by (simp_all add: client_def)
  note a = asleep_facts [OF inv c]
  define A where "A = asleep i ad"
  define B where "B = dequeue_mgmt_xmitframe_to_sleepq i A"
  define C where "C = stop_acs i (tx_pending_delete i 4 B)"
  define E where "E = (case rtw_get_bcmc_stainfo (tx_stapriv ad) of None \<Rightarrow> C | Some b \<Rightarrow> stop_acs b C)"
  have sa: "sta_aid_no (sta_of (set_sta i (\<lambda>x. x\<lparr>sta_state := sta_state x OR WIFI_SLEEP_STATE\<rparr>) ad) i) = sta_aid_no (sta_of ad i)"
    using ps_inv_len [OF inv] i by simp
  have h: "HWXMIT_ENTRY - 1 = 4" by (simp add: HWXMIT_ENTRY_def)
  have e: "stop_sta_xmit i ad = E"
    unfolding stop_sta_xmit_def Let_def E_def C_def B_def A_def asleep_def sa h ..
  have invA: "ps_inv D M A L" and bA: "buffering i A" and nbA: "rtw_get_bcmc_stainfo (tx_stapriv A) \<noteq> Some i" using a nb by (simp_all add: A_def)
  have st: "ps_inv D M A L \<and> i < NUM_STA \<and> buffering i A \<and> rtw_get_bcmc_stainfo (tx_stapriv A) \<noteq> Some i" using invA bA nbA i by simp
  have Bd: "B = foldl (\<lambda>ad f. stop_mgmt i f ad) A (ac_pending (sta_of A i) ! 4)" by (simp add: B_def dequeue_mgmt_xmitframe_to_sleepq_def HWXMIT_ENTRY_def)
  note b = stopping_mgmt.drain_all [OF st refl, folded Bd]
  have b': "ps_inv D M B L" "buffering i B" "parked i [] (ac_pending (sta_of A i) ! 4) A B" "ac_pending (sta_of B i) ! 4 = []"
    "k \<noteq> 4 \<Longrightarrow> ac_pending (sta_of B i) ! k = ac_pending (sta_of A i) ! k" for k using b by simp_all
  let ?B = "tx_pending_delete i 4 B"
  have invB: "ps_inv D M ?B L" by (rule delete_inv [OF b'(1) i _ b'(4)]) simp
  have bB: "buffering i ?B" by (rule parked_buffering [where fs = "[]" and gs = "[]", OF _ b'(2,1) invB i]) (simp add: parked_def park_rest_steps)
  note s = stop_acs_facts [OF invB i bB, folded C_def]
  have pB: "parked i [] (ac_pending (sta_of A i) ! 4) A ?B" using b'(3) by (simp add: parked_def park_rest_steps)
  have lenA: "length (ac_pending (sta_of A i)) = 5" by (rule sta_local_facts(3) [OF ps_inv_local [OF invA i]])
  have lenB: "length (ac_pending (sta_of B i)) = 5" by (rule sta_local_facts(3) [OF ps_inv_local [OF b'(1) i]])
  have t: "take 4 (ac_pending (sta_of B i)) = take 4 (ac_pending (sta_of A i))"
    by (rule nth_equalityI) (use lenA lenB b'(5) in auto)
  have acA: "ac_pending (sta_of A i) = ac_pending (sta_of ad i)" using a(3) by (simp add: A_def)
  have pC: "parked i (concat (take 4 (ac_pending (sta_of ad i)))) (ac_pending (sta_of ad i) ! 4) A C"
    using parked_append [OF pB s(3)] t acA by simp
  note f = parked_facts [OF pC invA i]
  have C0: "k < 5 \<Longrightarrow> ac_pending (sta_of C i) ! k = []" for k using s(4) [of k] b'(4) by (cases "k = 4") simp_all
  have bC: "rtw_get_bcmc_stainfo (tx_stapriv C) = rtw_get_bcmc_stainfo (tx_stapriv ad)" using f(3) a(6) by (simp add: A_def)
  have dC: "dz_is_set C (sta_aid_no (sta_of ad i))" by (rule f(4)) (simp add: A_def a)
  have E: "ps_inv D M E L \<and> sta_of E i = sta_of C i \<and> dz_is_set E (sta_aid_no (sta_of ad i)) \<and> client (tx_stapriv E) k' = client (tx_stapriv C) k' \<and>
      (\<forall>f. attr_rest (tx_attr E f) = attr_rest (tx_attr C f)) \<and>
      (\<forall>j. j \<noteq> i \<and> rtw_get_bcmc_stainfo (tx_stapriv ad) \<noteq> Some j \<longrightarrow> sta_of E j = sta_of C j)"
  proof (cases "rtw_get_bcmc_stainfo (tx_stapriv ad)")
    case None
    then show ?thesis using s(1) dC by (simp add: E_def)
  next
    case (Some b)
    have bn: "b < NUM_STA" using bmc_bound [OF inv Some] .
    have bi: "b \<noteq> i" using nb Some by auto
    have bb: "buffering b C" using dC Some bC dz_anyone_aid [OF ps_inv_table [OF s(1)]] by (auto simp: buffering_def)
    note g = stop_acs_facts [OF s(1) bn bb] and h = parked_facts [OF stop_acs_facts(3) [OF s(1) bn bb] s(1) bn]
    have EE: "E = stop_acs b C" by (simp add: E_def Some)
    show ?thesis unfolding EE using g(1) h(2) h(4) [OF dC] h(8) h(12) bi Some by auto
  qed
  have rest: "sta_rest (sta_of C i) = sta_rest (sta_of A i)" by (rule f(1))
  show "ps_inv D M (stop_sta_xmit i ad) L" "dz_is_set (stop_sta_xmit i ad) (sta_aid_no (sta_of ad i))" using E by (simp_all add: e)
  show "k < 5 \<Longrightarrow> ac_pending (sta_of (stop_sta_xmit i ad) i) ! k = []" using E C0 by (simp add: e)
  show "sta_state (sta_of (stop_sta_xmit i ad) i) AND WIFI_SLEEP_STATE \<noteq> 0" using E sta_rest_fields(1) [OF rest] a(8) by (simp add: e A_def)
  show "sleep_q (sta_of (stop_sta_xmit i ad) i) = sleep_q (sta_of ad i) @ concat (take 4 (ac_pending (sta_of ad i)))"
    "mgmt_sleep_q (sta_of (stop_sta_xmit i ad) i) = mgmt_sleep_q (sta_of ad i) @ ac_pending (sta_of ad i) ! 4"
    using E f(5,6) a(3) by (simp_all add: e A_def)
  show "uapsd_of (sta_of (stop_sta_xmit i ad) i) p = uapsd_of (sta_of ad i) p" "sta_aid_no (sta_of (stop_sta_xmit i ad) i) = sta_aid_no (sta_of ad i)"
    using E sta_rest_fields(2,4) [OF rest] a(3) by (simp_all add: e A_def uapsd_of_def)
  have "client (tx_stapriv A) k' = client (tx_stapriv ad) k'"
  proof -
    have "sta_state (sta_of A k') AND WIFI_ASOC_STATE = sta_state (sta_of ad k') AND WIFI_ASOC_STATE"
      using a(3) a(4) [of k'] by (cases "k' = i") (simp_all add: A_def asleep_asoc)
    then show ?thesis using a(6) by (simp add: client_def sta_of_def A_def)
  qed
  then show "client (tx_stapriv (stop_sta_xmit i ad)) k' = client (tx_stapriv ad) k'" using E f(12) by (simp add: e)
  have "attr_rest (tx_attr E f) = attr_rest (tx_attr A f)" using E f(8) by simp
  then show "xa_priority (tx_attr (stop_sta_xmit i ad) f) = xa_priority (tx_attr ad f)" 
    using attr_rest_fields(3) [of "tx_attr E f" "tx_attr A f"] a(5) by (simp add: e A_def)
  show "j \<noteq> i \<Longrightarrow> rtw_get_bcmc_stainfo (tx_stapriv ad) \<noteq> Some j \<Longrightarrow> sta_of (stop_sta_xmit i ad) j = sta_of ad j"
    using E f(2) a(4) by (simp add: e A_def)
qed

section \<open>The other operations\<close>

text \<open>A frame on no list may get any attributes.\<close>

lemma in_hand_pending: "ps_inv D M ad (f # L) \<Longrightarrow> i < NUM_STA \<Longrightarrow> ac < 5 \<Longrightarrow> f \<notin> set (ac_pending (sta_of ad i) ! ac)"
proof
  assume a: "ps_inv D M ad (f # L)" "i < NUM_STA" "ac < 5" and f: "f \<in> set (ac_pending (sta_of ad i) ! ac)"
  have "ac < length (ac_pending (sta_of ad i))" using a(3) sta_local_facts(3) [OF ps_inv_local [OF a(1,2)]] by simp
  then have "f \<in> set (concat (ac_pending (sta_of ad i)))" using f by (auto intro: bexI [OF _ nth_mem])
  then show False using in_hand(2) [OF a(1,2)] by simp
qed

lemma sta_local_attr:
  assumes a: "sta_local d tgt attr hp b tim i x"
    and q: "\<And>f. f \<in> set (sleep_q x) \<union> set (mgmt_sleep_q x) \<Longrightarrow> tgt' f = tgt f \<and> attr' f = attr f"
    and p: "\<And>f k. k < 5 \<Longrightarrow> f \<in> set (ac_pending x ! k) \<Longrightarrow> tgt' f = tgt f \<and> attr' f = attr f"
  shows "sta_local d tgt' attr' hp b tim i x"
proof -
  note l = sta_local_facts [OF a]
  have "k < 4 \<Longrightarrow> f \<in> set (ac_pending x ! k) \<Longrightarrow> rtw_get_sta_pending (xa_priority (attr' f)) = k" for k f
    using l(7) [of k f] p [of k f] by simp
  moreover have "k < 5 \<Longrightarrow> f \<in> set (ac_pending x ! k) \<Longrightarrow> tgt' f = Some i" for k f using l(8) [of k f] p [of k f] by simp
  moreover have "f \<in> set (sleep_q x) \<union> set (mgmt_sleep_q x) \<Longrightarrow> tgt' f = Some i" for f using l(9) [of f] q [of f] by simp
  moreover have "f \<in> set (ac_pending x ! 4) \<union> set (mgmt_sleep_q x) \<Longrightarrow> \<not> xa_ps_dontq (attr' f) \<and> xa_ra (attr' f) \<noteq> bcast_addr" for f
    using l(10) [of f] p [of 4 f] q [of f] by auto
  ultimately show ?thesis unfolding sta_local_def using l(1-6,11) by simp
qed

lemma in_hand_attr:
  assumes inv: "ps_inv D M ad (f # L)"
  shows "ps_inv D M (set_attr f g ad) (f # L)"
proof -
  have t: "f' \<noteq> f \<Longrightarrow> tx_target (set_attr f g ad) f' = tx_target ad f' \<and> tx_attr (set_attr f g ad) f' = tx_attr ad f'" for f'
    by (simp add: tx_target_def Let_def split: option.split)
  have "sta_local (D i) (tx_target (set_attr f g ad)) (tx_attr (set_attr f g ad)) (hw_pending (tx_stapriv ad)) (rtw_get_bcmc_stainfo (tx_stapriv ad))
      (tim_is_set ad) i (sta_of ad i)" if i: "i < NUM_STA" for i
    by (rule sta_local_attr [OF ps_inv_local [OF inv i]]; rule t; use in_hand(1) [OF inv i] in_hand_pending [OF inv i] in blast)
  then show ?thesis
    using inv by (simp add: ps_inv_def ps_table_def tx_frames_def) (simp add: set_attr_def)
qed

text \<open>Allocation and completion.\<close>

lemma free_list_inv:
  assumes inv: "ps_inv D M ad L" and ms: "mset fs + mset L' = mset (free_xmit_frames (tx_stapriv ad)) + mset L"
  shows "ps_inv D M (ad\<lparr>tx_stapriv := (tx_stapriv ad)\<lparr>free_xmit_frames := fs\<rparr>\<rparr>) L'"
proof -
  let ?t = "(tx_stapriv ad)\<lparr>free_xmit_frames := fs\<rparr>" and ?ad = "ad\<lparr>tx_stapriv := (tx_stapriv ad)\<lparr>free_xmit_frames := fs\<rparr>\<rparr>"
  have look: "rtw_get_stainfo ?t a = rtw_get_stainfo (tx_stapriv ad) a" "rtw_get_bcmc_stainfo ?t = rtw_get_bcmc_stainfo (tx_stapriv ad)" for a
    by (rule lookup_cong; simp)+
  have sta: "sta_of ?ad = sta_of ad" by (simp add: fun_eq_iff sta_of_def)
  have tgt: "tx_target ?ad = tx_target ad" "tim_is_set ?ad = tim_is_set ad"
    unfolding fun_eq_iff tx_target_def sta using look by (simp_all add: tim_is_set_def)
  have wf: "sta_wf ?t" by (rule wf_same_table [OF ps_inv_wf [OF inv]]) simp_all
  have cl: "client ?t j = client (tx_stapriv ad) j" for j using look by (simp add: client_def)
  have "ps_table ?ad" using ps_inv_table [OF inv] wf by (simp add: ps_table_def Let_def cl)
  moreover have "tx_frames ?ad + mset L' = tx_frames ad + mset L"
  proof -
    have "tx_frames z = mset (free_xmit_frames (tx_stapriv z)) + (sum_list (map sta_xmit_frames (stas (tx_stapriv z))) + mset (tx_out z))" for z
      by (simp add: tx_frames_def xmit_frames_def ac_simps)
    then show ?thesis using ms by (simp add: add.assoc add.left_commute)
  qed
  ultimately show ?thesis using inv unfolding ps_inv_def tgt sta by (simp add: look)
qed

lemma alloc_inv: "ps_inv D M ad L \<Longrightarrow> rtw_alloc_xmitframe ad = (Some f, ad') \<Longrightarrow> ps_inv D M ad' (f # L)"
  using free_list_inv [of D M ad L _ "f # L"] by (auto simp: rtw_alloc_xmitframe_def split: list.splits)

lemma out_inv: "ps_inv D M ad (f # L) \<Longrightarrow> ps_inv D M (ad\<lparr>tx_out := tx_out ad @ [f]\<rparr>) L"
  using ps_inv_same [of "ad\<lparr>tx_out := tx_out ad @ [f]\<rparr>" ad L "f # L" D M] by simp

lemma complete_inv:
  assumes "ps_inv D M ad L" "tx_out ad = f # q"
  shows "ps_inv D M (rtw_free_xmitframe f (ad\<lparr>tx_out := q\<rparr>)) L"
  by (rule ps_inv_free) (use assms ps_inv_same [of "ad\<lparr>tx_out := q\<rparr>" ad "f # L" L D M] in simp)

text \<open>The frames waiting before the hardware's queues.\<close>

lemma pre_xmitframe_inv: "ps_inv D M ad (f # L) \<Longrightarrow> ps_inv D M (snd (pre_xmitframe hw_free coalesced ad f)) L"
  using ps_inv_hal(1) [of D M ad f L]
  by (auto simp: pre_xmitframe_def rtw_hal_xmitframe_enqueue_def case_prod_unfold Let_def intro: out_inv ps_inv_free)

lemma ps_inv_queue:
  assumes inv: "ps_inv D M ad L" and i: "i < NUM_STA" and ms: "mset q + mset L' = mset (tx_queue (sta_of ad i)) + mset L"
  shows "ps_inv D M (set_sta i (\<lambda>x. x\<lparr>tx_queue := q\<rparr>) ad) L'"
  using ps_inv_local [OF inv i] ms
  by (intro ps_inv_set [OF inv i, where D' = D]) (simp_all add: sta_local_def sta_xmit_frames_def add.assoc add.left_commute)

lemma xmit_enqueue_inv:
  assumes inv: "ps_inv D M ad (f # L)" and b: "\<And>i. xa_psta (tx_attr ad f) = Some i \<Longrightarrow> i < NUM_STA" and e: "xmit_enqueue ad f = (kept, ad')"
  shows "ps_inv D M ad' (if kept then L else f # L)"
proof (cases "xa_psta (tx_attr ad f)")
  case (Some i)
  have "ps_inv D M (set_sta i (\<lambda>x. x\<lparr>tx_queue := tx_queue (sta_of ad i) @ [f]\<rparr>) ad) L"
    by (rule ps_inv_queue [OF inv b [OF Some]]) simp
  then have "ps_inv D M (set_sta i (\<lambda>x. x\<lparr>tx_queue := tx_queue x @ [f]\<rparr>) ad) L" by (simp add: set_sta_def sta_of_def)
  then show ?thesis using inv e Some by (auto simp: xmit_enqueue_def split: if_splits)
qed (use inv e in \<open>auto simp: xmit_enqueue_def\<close>)

lemma pre_xmitframe_queue:
  assumes inv: "ps_inv D M ad L" and i: "i < NUM_STA"
  shows "tx_queue (sta_of (snd (pre_xmitframe hw_free coalesced ad f)) i) = tx_queue (sta_of ad i)"
proof (cases "tx_target ad f")
  case None
  then show ?thesis
    by (simp add: pre_xmitframe_def rtw_xmit_classifier_def rtw_free_xmitframe_def) (simp add: sta_of_def)
next
  case (Some j)
  note j = target_bound [OF inv Some]
  show ?thesis
    by (simp add: pre_xmitframe_def rtw_xmit_classifier_def Some sta_of_pend [OF ps_inv_len [OF inv] j])
      (simp add: rtw_free_xmitframe_def sta_of_def)
qed

interpretation sending: drain "\<lambda>ad. ps_inv D M ad L \<and> i < NUM_STA" "\<lambda>ad. tx_queue (sta_of ad i)"
    "\<lambda>f ad. snd (pre_xmitframe (hw_free f) (coalesced f) (set_sta i (\<lambda>x. x\<lparr>tx_queue := tl (tx_queue x)\<rparr>) ad) f)" "\<lambda>_ _ _. True"
  for D M L i hw_free coalesced
proof unfold_locales
  fix ad f fs
  assume a: "ps_inv D M ad L \<and> i < NUM_STA" and q: "tx_queue (sta_of ad i) = f # fs"
  have "ps_inv D M (set_sta i (\<lambda>x. x\<lparr>tx_queue := fs\<rparr>) ad) (f # L)" by (rule ps_inv_queue) (use a q in simp_all)
  then have t: "ps_inv D M (set_sta i (\<lambda>x. x\<lparr>tx_queue := tl (tx_queue x)\<rparr>) ad) (f # L)" using q by (simp add: set_sta_def sta_of_def)
  show "ps_inv D M (snd (pre_xmitframe (hw_free f) (coalesced f) (set_sta i (\<lambda>x. x\<lparr>tx_queue := tl (tx_queue x)\<rparr>) ad) f)) L \<and> i < NUM_STA"
    using pre_xmitframe_inv [OF t] a by simp
  have "i < NUM_STA" using a by simp
  from pre_xmitframe_queue [OF t this]
  show "tx_queue (sta_of (snd (pre_xmitframe (hw_free f) (coalesced f) (set_sta i (\<lambda>x. x\<lparr>tx_queue := tl (tx_queue x)\<rparr>) ad) f)) i) = fs"
    using a q ps_inv_len [of D M ad L] by simp
qed simp_all

lemma xmit_dequeue_inv:
  assumes "ps_inv D M ad L" "i < NUM_STA"
  shows "ps_inv D M (xmit_dequeue hw_free coalesced i ad) L" "tx_queue (sta_of (xmit_dequeue hw_free coalesced i ad) i) = []"
proof -
  have a: "ps_inv D M ad L \<and> i < NUM_STA" using assms by simp
  show "ps_inv D M (xmit_dequeue hw_free coalesced i ad) L" "tx_queue (sta_of (xmit_dequeue hw_free coalesced i ad) i) = []"
    using sending.drain_all [OF a refl, of hw_free coalesced] by (simp_all add: xmit_dequeue_def)
qed

lemma enqueue_psta:
  assumes "xmitframe_enqueue_for_sleeping_sta ad f = (False, ad')"
  shows "xa_psta (tx_attr ad' f) = xa_psta (tx_attr ad f)"
  using assms by (auto simp: xmitframe_enqueue_for_sleeping_sta_def Let_def split: option.splits if_splits)

lemma posthandle_inv:
  assumes inv: "ps_inv D M ad (f # L)" and b: "\<And>a i. attrib = Some a \<Longrightarrow> xa_psta a = Some i \<Longrightarrow> i < NUM_STA"
  shows "ps_inv D M (snd (rtw_xmit_posthandle hw_free coalesced attrib ad f)) L"
proof (cases attrib)
  case None
  then show ?thesis by (simp add: rtw_xmit_posthandle_def ps_inv_free inv)
next
  case attrib: (Some a)
  define ad0 where "ad0 = set_attr f (\<lambda>_. a) ad"
  have inv0: "ps_inv D M ad0 (f # L)" unfolding ad0_def by (rule in_hand_attr [OF inv])
  obtain kept ad1 where e: "xmitframe_enqueue_for_sleeping_sta ad0 f = (kept, ad1)" by (meson surj_pair)
  note i1 = enqueue_inv [OF inv0 e]
  obtain kept2 ad2 where e2: "xmit_enqueue ad1 f = (kept2, ad2)" by (meson surj_pair)
  show ?thesis
  proof (cases kept)
    case True
    then show ?thesis using i1 e by (simp add: rtw_xmit_posthandle_def attrib ad0_def [symmetric])
  next
    case False
    then have i1: "ps_inv D M ad1 (f # L)" and p: "xa_psta (tx_attr ad1 f) = xa_psta a" using i1 enqueue_psta [of ad0 f ad1] e by (auto simp: ad0_def)
    have "\<And>i. xa_psta (tx_attr ad1 f) = Some i \<Longrightarrow> i < NUM_STA" unfolding p by (rule b [OF attrib])
    note i2 = xmit_enqueue_inv [OF i1 this e2]
    show ?thesis
      using i2 pre_xmitframe_inv [of D M ad2 f L hw_free coalesced] False
      by (cases kept2) (simp_all add: rtw_xmit_posthandle_def attrib ad0_def [symmetric] e e2 case_prod_unfold Let_def)
  qed
qed

lemma mgnt_xmit_inv:
  assumes inv: "ps_inv D M ad (f # L)" and new: "xa_psta (tx_attr ad f) = None"
  shows "ps_inv D M (rtw_hal_mgnt_xmit pframe ad f) L"
proof -
  define A where "A = update_mgntframe_attrib_addr pframe ad f"
  have l: "xa_psta (tx_attr A f) = rtw_get_stainfo (tx_stapriv A) (xa_ra (tx_attr A f))"
    using new by (simp add: A_def update_mgntframe_attrib_addr_def Let_def)
  have A: "ps_inv D M A (f # L)" unfolding A_def update_mgntframe_attrib_addr_def Let_def using inv by (simp add: in_hand_attr)
  obtain ret ad1 where e: "mgmt_xmitframe_enqueue_for_sleeping_sta A f = (ret, ad1)" by (meson surj_pair)
  have "tx_ap A" using ps_inv_table [OF A] by (simp add: ps_table_def Let_def)
  then show ?thesis
    using mgmt_enqueue_inv [OF A l e] e by (auto simp: rtw_hal_mgnt_xmit_def A_def [symmetric] intro: out_inv)
qed

text \<open>Trigger frames: the frames of delivery services leave the buffer, wherever they are in it.\<close>

lemma deliver_step:
  assumes inv: "ps_inv D M ad L" and c: "client (tx_stapriv ad) i" and f: "f \<in> set (sleep_q (sta_of ad i))"
  shows "ps_inv D M (deliver_frame i f ad) L" "client (tx_stapriv (deliver_frame i f ad)) i"
    "set (sleep_q (sta_of ad i)) - {f} \<subseteq> set (sleep_q (sta_of (deliver_frame i f ad) i))"
proof -
  have i: "i < NUM_STA" and nb: "rtw_get_bcmc_stainfo (tx_stapriv ad) \<noteq> Some i" using c by (simp_all add: client_def)
  define A where "A = set_sta i (\<lambda>x. x\<lparr>sleep_q := remove1 f (sleep_q x), sleepq_len := sleepq_len x - 1\<rparr>) ad"
  define B where "B = count_delivery i f A"
  define C where "C = trigger_send f B"
  have A: "ps_inv D M A (f # L)" unfolding A_def by (rule ps_inv_take(1) [OF inv i f])
  note b = count_delivery_step [OF A i, of f, folded B_def]
  have tA: "tx_target A f = Some i" unfolding A_def using queue_target(1) [OF inv i, of f] f by (subst tgt_set [OF inv i]) simp_all
  have tB: "tx_target B f = Some i" using tA stepped_facts(7) [OF b(1) i ps_inv_len [OF A]] by simp
  note tr = trigger_step [OF b(2) tB, folded C_def]
  have C: "ps_inv D M C L" unfolding C_def by (rule ps_inv_trigger [OF b(2)])
  have sA: "stepped i ad A" unfolding A_def using i ps_inv_len [OF inv] by (intro stepped_set) (simp_all add: sta_rest_def)
  have st: "stepped i ad C" by (rule stepped_trans [OF stepped_trans [OF sA b(1)] tr(1)])
  note g = stepped_facts [OF st i ps_inv_len [OF inv]]
  have cC: "client (tx_stapriv C) i" using c g(9) by simp
  have qC: "sleep_q (sta_of C i) = remove1 f (sleep_q (sta_of ad i))"
    using tr(2) b(3) i ps_inv_len [OF inv] by (simp add: A_def)
  have sub: "set (sleep_q (sta_of ad i)) - {f} \<subseteq> set (sleep_q (sta_of C i))"
    unfolding qC by (metis Diff_subset_conv Un_insert_left insert_is_Un set_remove1_eq set_remove1_subset set_mset_mset subset_refl queue_distinct(1) [OF inv i])
  have nl: "\<not> has_legacy_ac (sta_of C i) \<Longrightarrow> \<not> legacy (sta_of C i)" by (simp add: legacy_def)
  have e: "deliver_frame i f ad = (if uapsd_of (sta_of ad i) (xa_priority (tx_attr ad f)) AND 2 = 0 then ad
      else if sleepq_ac_len (sta_of C i) = 0 \<and> \<not> has_legacy_ac (sta_of C i)
      then tx_call Update_beacon (tim_clear (sta_aid_no (sta_of C i)) C) else C)"
    unfolding deliver_frame_def Let_def A_def [symmetric] B_def [symmetric] C_def [symmetric] ..
  have k: "ps_inv D M (tim_clear (sta_aid_no (sta_of C i)) C) L" if "\<not> has_legacy_ac (sta_of C i)"
    by (rule ps_inv_bits(4) [OF C cC]) (use nl that in simp)
  show "ps_inv D M (deliver_frame i f ad) L" using inv C k by (simp add: e)
  have cl: "client (tx_stapriv (tim_clear a C)) i = client (tx_stapriv C) i" for a
  proof -
    have "rtw_get_bcmc_stainfo (tx_stapriv (tim_clear a C)) = rtw_get_bcmc_stainfo (tx_stapriv C)"
      by (rule lookup_cong) (simp_all add: tim_clear_def)
    then show ?thesis by (simp add: client_def tim_clear_def)
  qed
  show "client (tx_stapriv (deliver_frame i f ad)) i" using c cC cl by (simp add: e)
  show "set (sleep_q (sta_of ad i)) - {f} \<subseteq> set (sleep_q (sta_of (deliver_frame i f ad) i))" using sub by (auto simp: e)
qed

lemma xmit_delivery_inv:
  assumes "ps_inv D M ad L" "client (tx_stapriv ad) i"
  shows "ps_inv D M (xmit_delivery_enabled_frames i ad) L"
proof -
  have "distinct fs \<Longrightarrow> set fs \<subseteq> set (sleep_q (sta_of ad i)) \<Longrightarrow> ps_inv D M ad L \<Longrightarrow> client (tx_stapriv ad) i \<Longrightarrow>
      ps_inv D M (foldl (\<lambda>ad f. deliver_frame i f ad) ad fs) L" for fs
  proof (induction fs arbitrary: ad)
    case (Cons f fs)
    have f: "f \<in> set (sleep_q (sta_of ad i))" using Cons.prems by simp
    note s = deliver_step [OF Cons.prems(3,4) f]
    have "set fs \<subseteq> set (sleep_q (sta_of (deliver_frame i f ad) i))" using s(3) Cons.prems(1,2) by auto
    then show ?case using Cons.IH [of "deliver_frame i f ad"] s(1,2) Cons.prems(1) by simp
  qed simp
  moreover have "i < NUM_STA" using assms(2) by (simp add: client_def)
  ultimately show ?thesis unfolding xmit_delivery_enabled_frames_def using assms queue_distinct by blast
qed

text \<open>Group frames, and the handlers that release them.\<close>

lemma clear_bmc_inv:
  assumes "ps_inv D M ad L" "\<And>b. rtw_get_bcmc_stainfo (tx_stapriv ad) = Some b \<Longrightarrow> sleep_q (sta_of ad b) = []"
  shows "ps_inv D M (clear_bmc ad) L"
  using ps_inv_clear_0 [OF assms(1)] assms(2) by (simp add: clear_bmc_def Let_def)

lemma bmc_handlers_inv:
  assumes inv: "ps_inv D M ad L"
  shows "ps_inv D M (chk_bmc_sleepq_hdl ad) L" "ps_inv D M (rtw_chk_hi_queue_hdl hiq_empty ad) L" "ps_inv D M (rtw_ap_bmc_frames_hdl ad) L"
proof -
  have e: "ps_inv D M (clear_bmc ad) L" if "rtw_get_bcmc_stainfo (tx_stapriv ad) = Some b" "sleepq_len (sta_of ad b) = 0" for b
    by (rule clear_bmc_inv [OF inv]) (use that sleepq_len_0(1) [OF inv bmc_bound [OF inv that(1)]] in simp)
  show "ps_inv D M (chk_bmc_sleepq_hdl ad) L"
  proof (cases "rtw_get_bcmc_stainfo (tx_stapriv ad)")
    case (Some b)
    then show ?thesis
      using inv hiq.drain_all [OF ready_classes [OF inv bmc_bound [OF inv Some]] refl]
      by (simp add: chk_bmc_sleepq_hdl_def ps_ready_def)
  qed (simp add: chk_bmc_sleepq_hdl_def inv)
  show "ps_inv D M (rtw_chk_hi_queue_hdl hiq_empty ad) L"
    using inv e by (auto simp: rtw_chk_hi_queue_hdl_def split: option.split)
  have loop: "ps_ready D M L b cls ad \<Longrightarrow> sleep_q (sta_of ad b) = map snd ps @ gs \<Longrightarrow>
      ps_inv D M (foldl (\<lambda>ad (n, f). release_bmc b (n = HIQ_XMIT_COUNTS) f ad) ad ps) L" for b cls ps gs ad
  proof (induction ps arbitrary: ad)
    case Nil
    then show ?case by (simp add: ps_ready_def)
  next
    case (Cons p ps)
    then have q: "sleep_q (sta_of ad b) = snd p # (map snd ps @ gs)" by simp
    show ?case
      using Cons.IH [OF bmc_step(5) [OF Cons.prems(1) q] bmc_step(6) [OF Cons.prems(1) q], of "fst p = HIQ_XMIT_COUNTS"]
      by (simp add: case_prod_unfold)
  qed
  show "ps_inv D M (rtw_ap_bmc_frames_hdl ad) L"
  proof (cases "rtw_get_bcmc_stainfo (tx_stapriv ad)")
    case (Some b)
    let ?ad = "tx_call Update_beacon ad" and ?q = "sleep_q (sta_of ad b)" and ?ns = "[1..<HIQ_XMIT_COUNTS + 1]"
    have r: "ps_ready D M L b (\<lambda>f. rtw_get_sta_pending (xa_priority (tx_attr ad f))) ?ad"
      using ready_classes [OF inv bmc_bound [OF inv Some]] by (simp add: ps_ready_def classes_def)
    have "sleep_q (sta_of ?ad b) = map snd (zip ?ns ?q) @ drop (length ?ns) ?q" by (simp add: map_snd_zip_take min_def)
    note l = loop [OF r this]
    show ?thesis using inv e [OF Some] l by (simp add: rtw_ap_bmc_frames_hdl_def Some)
  qed (simp add: rtw_ap_bmc_frames_hdl_def inv)
qed

text \<open>A poll. The branch that resets the lengths of empty queues is never taken.\<close>

lemma pspoll_eq:
  assumes inv: "ps_inv D M ad L" and c: "client (tx_stapriv ad) i"
  defines "ad1 \<equiv> (case mgmt_sleep_q (sta_of ad i) of [] \<Rightarrow> ad | f # _ \<Rightarrow> release_mgmt i f ad)"
  defines "ad2 \<equiv> (case sleep_q (sta_of ad i) of [] \<Rightarrow> ad1 | f # _ \<Rightarrow> trigger_send f (take_data i f ad1))"
  shows "ps_inv D M ad2 L" "stepped i ad ad2"
    "mgmt_sleep_q (sta_of ad2 i) = tl (mgmt_sleep_q (sta_of ad i))" "sleep_q (sta_of ad2 i) = tl (sleep_q (sta_of ad i))"
    "pspoll_release i ad =
      (let ad3 = (if sleep_q (sta_of ad i) = [] \<and> mgmt_sleep_q (sta_of ad i) = [] \<and> tim_is_set ad (sta_aid_no (sta_of ad i))
            then tx_call (Issue_nulldata (mac_addr (sta_of ad i))) ad2 else ad2)
       in if sleep_q (sta_of ad2 i) = [] \<and> mgmt_sleep_q (sta_of ad2 i) = []
          then tx_call Update_beacon (tim_clear (sta_aid_no (sta_of ad i)) ad3) else ad3)"
    "sleepq_ac_len (sta_of ad2 i) = sleepq_ac_len (sta_of ad i)"
    "k < 5 \<Longrightarrow> ac_pending (sta_of ad2 i) ! k = ac_pending (sta_of ad i) ! k @ (if k = 4 then take 1 (mgmt_sleep_q (sta_of ad i))
       else filter (\<lambda>f. rtw_get_sta_pending (xa_priority (tx_attr ad f)) = k) (take 1 (sleep_q (sta_of ad i))))"
proof -
  have i: "i < NUM_STA" using c by (simp add: client_def)
  note len = ps_inv_len [OF inv]
  have 1: "ps_inv D M ad1 L \<and> stepped i ad ad1 \<and> mgmt_sleep_q (sta_of ad1 i) = tl (mgmt_sleep_q (sta_of ad i)) \<and>
      sleep_q (sta_of ad1 i) = sleep_q (sta_of ad i) \<and> sleepq_ac_len (sta_of ad1 i) = sleepq_ac_len (sta_of ad i) \<and>
      (\<forall>k < 5. ac_pending (sta_of ad1 i) ! k = ac_pending (sta_of ad i) ! k @ (if k = 4 then take 1 (mgmt_sleep_q (sta_of ad i)) else []))"
  proof (cases "mgmt_sleep_q (sta_of ad i)")
    case Nil
    then show ?thesis by (simp add: ad1_def inv stepped_refl)
  next
    case (Cons f fs)
    then show ?thesis using release_mgmt_step [OF inv i Cons] by (auto simp: ad1_def moved_def)
  qed
  then have i1: "ps_inv D M ad1 L" by simp
  have 2: "ps_inv D M ad2 L \<and> stepped i ad1 ad2 \<and> mgmt_sleep_q (sta_of ad2 i) = mgmt_sleep_q (sta_of ad1 i) \<and>
      sleep_q (sta_of ad2 i) = tl (sleep_q (sta_of ad1 i)) \<and> sleepq_ac_len (sta_of ad2 i) = sleepq_ac_len (sta_of ad1 i) \<and>
      (\<forall>k < 5. ac_pending (sta_of ad2 i) ! k =
         ac_pending (sta_of ad1 i) ! k @ filter (\<lambda>f. rtw_get_sta_pending (xa_priority (tx_attr ad1 f)) = k) (take 1 (sleep_q (sta_of ad i))))"
  proof (cases "sleep_q (sta_of ad i)")
    case Nil
    then show ?thesis using 1 by (simp add: ad2_def stepped_refl)
  next
    case (Cons f fs)
    then have q: "sleep_q (sta_of ad1 i) = f # fs" using 1 by simp
    note t = take_data_step [OF i1 i q]
    have "classes (\<lambda>f. rtw_get_sta_pending (xa_priority (tx_attr ad1 f))) ad1" by (simp add: classes_def)
    note s = send_step [OF i1 i this q t(1,2)]
    have "ad2 = trigger_send f (take_data i f ad1)" by (simp add: ad2_def Cons)
    then show ?thesis using s t q by (simp add: moved_def Cons)
  qed
  show 3: "ps_inv D M ad2 L" "mgmt_sleep_q (sta_of ad2 i) = tl (mgmt_sleep_q (sta_of ad i))" "sleep_q (sta_of ad2 i) = tl (sleep_q (sta_of ad i))"
    using 1 2 by simp_all
  show st: "stepped i ad ad2" using 1 2 stepped_trans by blast
  note g = stepped_facts [OF st i len] and g1 = stepped_facts [of i ad ad1, OF _ i len]
  show "sleepq_ac_len (sta_of ad2 i) = sleepq_ac_len (sta_of ad i)" using 1 2 by simp
  have pr: "xa_priority (tx_attr ad1 f) = xa_priority (tx_attr ad f)" for f by (rule attr_rest_fields(3)) (use 1 g1(10) in blast)
  have ne: "rtw_get_sta_pending p \<noteq> 4" for p using ac_of_bound [of p] by linarith
  show "k < 5 \<Longrightarrow> ac_pending (sta_of ad2 i) ! k = ac_pending (sta_of ad i) ! k @ (if k = 4 then take 1 (mgmt_sleep_q (sta_of ad i))
       else filter (\<lambda>f. rtw_get_sta_pending (xa_priority (tx_attr ad f)) = k) (take 1 (sleep_q (sta_of ad i))))"
    using 1 2 by (auto simp: pr ne)
  have rest: "sta_aid_no (sta_of ad2 i) = sta_aid_no (sta_of ad i)" "mac_addr (sta_of ad2 i) = mac_addr (sta_of ad i)"
    using sta_rest_fields(2,3) [OF g(1)] by simp_all
  have n: "no_buffered i ad2 \<longleftrightarrow> sleep_q (sta_of ad2 i) = [] \<and> mgmt_sleep_q (sta_of ad2 i) = []"
    using sleepq_len_0 [OF 3(1) i] by (simp add: no_buffered_def)
  have e1: "ad1 = (if mgmt_sleep_q (sta_of ad i) = [] then ad else release_mgmt i (hd (mgmt_sleep_q (sta_of ad i))) ad)"
    by (simp add: ad1_def split: list.split)
  have e2: "ad2 = (if sleep_q (sta_of ad1 i) = [] then ad1 else trigger_send (hd (sleep_q (sta_of ad1 i))) (take_data i (hd (sleep_q (sta_of ad1 i))) ad1))"
    using 1 by (simp add: ad2_def split: list.split)
  have q1: "sleep_q (sta_of ad1 i) = sleep_q (sta_of ad i)" using 1 by simp
  have u: "pspoll_release i ad = (let ad3 = (if sleep_q (sta_of ad i) = [] \<and> mgmt_sleep_q (sta_of ad i) = [] \<and> tim_is_set ad2 (sta_aid_no (sta_of ad2 i))
        then if no_buffered i ad2 then tx_call (Issue_nulldata (mac_addr (sta_of ad2 i))) ad2
             else set_sta i (\<lambda>x. x\<lparr>sleepq_len := 0, mgmt_sleepq_len := 0\<rparr>) ad2 else ad2)
      in if no_buffered i ad3 then tx_call Update_beacon (tim_clear (sta_aid_no (sta_of ad3 i)) ad3) else ad3)"
    unfolding pspoll_release_def Let_def e1 [symmetric] unfolding e2 [symmetric] unfolding q1 by (rule refl)
  have "sleep_q (sta_of ad i) = [] \<Longrightarrow> mgmt_sleep_q (sta_of ad i) = [] \<Longrightarrow> no_buffered i ad2" using n 3 by simp
  then show "pspoll_release i ad =
      (let ad3 = (if sleep_q (sta_of ad i) = [] \<and> mgmt_sleep_q (sta_of ad i) = [] \<and> tim_is_set ad (sta_aid_no (sta_of ad i))
            then tx_call (Issue_nulldata (mac_addr (sta_of ad i))) ad2 else ad2)
       in if sleep_q (sta_of ad2 i) = [] \<and> mgmt_sleep_q (sta_of ad2 i) = []
          then tx_call Update_beacon (tim_clear (sta_aid_no (sta_of ad i)) ad3) else ad3)"
    unfolding u using n rest g(3) by (auto simp: Let_def no_buffered_def)
qed

lemma pspoll_inv:
  assumes inv: "ps_inv D M ad L" and c: "client (tx_stapriv ad) i"
  shows "ps_inv D M (pspoll_release i ad) L"
proof -
  have i: "i < NUM_STA" using c by (simp add: client_def)
  define ad2 where "ad2 = (case sleep_q (sta_of ad i) of [] \<Rightarrow> (case mgmt_sleep_q (sta_of ad i) of [] \<Rightarrow> ad | f # _ \<Rightarrow> release_mgmt i f ad)
    | f # _ \<Rightarrow> trigger_send f (take_data i f (case mgmt_sleep_q (sta_of ad i) of [] \<Rightarrow> ad | f # _ \<Rightarrow> release_mgmt i f ad)))"
  note p = pspoll_eq [OF inv c, folded ad2_def]
  note g = stepped_facts [OF p(2) i ps_inv_len [OF inv]]
  have c2: "client (tx_stapriv ad2) i" using c g(9) by simp
  have a: "sta_aid_no (sta_of ad2 i) = sta_aid_no (sta_of ad i)" using sta_rest_fields(2) [OF g(1)] .
  have tc: "ps_inv D M (tim_clear (sta_aid_no (sta_of ad i)) (tx_call k ad2)) L" "ps_inv D M (tim_clear (sta_aid_no (sta_of ad i)) ad2) L"
    if "sleep_q (sta_of ad2 i) = []" "mgmt_sleep_q (sta_of ad2 i) = []" for k
    using ps_inv_bits(4) [of D M ad2 L i] ps_inv_bits(4) [of D M "tx_call k ad2" L i] p(1) c2 that by (simp_all add: a)
  show ?thesis using tc p(1) unfolding p(5) Let_def by simp
qed

text \<open>Taking frames for the hardware.\<close>

lemma dequeue_one_inv:
  assumes "ps_inv D M ad L" "ac < 5" "set is \<subseteq> {..<NUM_STA}"
  shows "case dequeue_one ac is ad of (None, ad') \<Rightarrow> ad' = ad \<and> (\<forall>i \<in> set is. ac_pending (sta_of ad i) ! ac = [])
    | (Some f, ad') \<Rightarrow> ps_inv D M ad' (f # L) \<and> (\<exists>i \<in> set is. \<exists>fs. ac_pending (sta_of ad i) ! ac = f # fs \<and> ac_pending (sta_of ad' i) ! ac = fs)"
  using assms
proof (induction "is")
  case (Cons i "is")
  show ?case
  proof (cases "ac_pending (sta_of ad i) ! ac")
    case Nil
    then show ?thesis using Cons by (auto split: prod.splits option.splits)
  next
    case q: (Cons f fs)
    have i: "i < NUM_STA" using Cons.prems by simp
    note inv = Cons.prems(1) and ac = Cons.prems(2)
    let ?s = "tx_stapriv ad"
    have len: "length (hw_pending ?s) = 5" "length (xmit_accnt ?s) = 5"
      using inv by (simp_all add: ps_inv_def ps_table_def Let_def)
    note l = sta_local_facts [OF ps_inv_local [OF inv i]]
    let ?x = "(sta_of ad i)\<lparr>ac_pending := (ac_pending (sta_of ad i))[ac := fs], ac_qcnt := (ac_qcnt (sta_of ad i))[ac := ac_qcnt (sta_of ad i) ! ac - 1]\<rparr>"
    let ?hp = "if fs = [] then (hw_pending ?s)[ac := filter (\<lambda>j. j \<noteq> i) (hw_pending ?s ! ac)] else hw_pending ?s"
    let ?ad = "ad\<lparr>tx_stapriv := ?s\<lparr>stas := (stas ?s)[i := ?x], hw_pending := ?hp, xmit_accnt := (xmit_accnt ?s)[ac := xmit_accnt ?s ! ac - 1]\<rparr>\<rparr>"
    have e: "dequeue_one ac (i # is) ad = (Some f, ?ad)"
      using q by (simp add: Let_def set_sta_def sta_of_def)
    have nth: "k < 5 \<Longrightarrow> (ac_pending (sta_of ad i))[ac := fs] ! k = (if k = ac then fs else ac_pending (sta_of ad i) ! k)" for k using l(3) by simp
    have "ps_inv D M ?ad (f # L)"
    proof (rule ps_inv_upd [OF inv i refl, where D' = D])
      have p1: "i \<in> set (?hp ! k)" if "k < 5" "(ac_pending (sta_of ad i))[ac := fs] ! k \<noteq> []" for k
        using l(6) [OF that(1)] that nth [OF that(1)] q len by (auto simp: nth_list_update split: if_splits)
      have sub: "k < 5 \<Longrightarrow> f' \<in> set ((ac_pending (sta_of ad i))[ac := fs] ! k) \<Longrightarrow> f' \<in> set (ac_pending (sta_of ad i) ! k)" for k f'
        using nth [of k] q by (auto split: if_splits)
      have p2: "k < 4 \<Longrightarrow> f' \<in> set ((ac_pending (sta_of ad i))[ac := fs] ! k) \<Longrightarrow> rtw_get_sta_pending (xa_priority (tx_attr ad f')) = k" for k f'
        using l(7) [of k f'] sub [of k f'] by simp
      have p3: "k < 5 \<Longrightarrow> f' \<in> set ((ac_pending (sta_of ad i))[ac := fs] ! k) \<Longrightarrow> tx_target ad f' = Some i" for k f'
        using l(8) [of k f'] sub [of k f'] by simp
      have p4: "f' \<in> set ((ac_pending (sta_of ad i))[ac := fs] ! 4) \<union> set (mgmt_sleep_q (sta_of ad i)) \<Longrightarrow>
          \<not> xa_ps_dontq (tx_attr ad f') \<and> xa_ra (tx_attr ad f') \<noteq> bcast_addr" for f'
        using l(10) [of f'] sub [of 4 f'] by auto
      have p5: "k < 5 \<Longrightarrow> (ac_qcnt (sta_of ad i))[ac := ac_qcnt (sta_of ad i) ! ac - 1] ! k = int (length ((ac_pending (sta_of ad i))[ac := fs] ! k)) + D i k" for k
        using l(5) [of k] l(4) nth [of k] q by (cases "k = ac") simp_all
      show "sta_local (D i) (tx_target ad) (tx_attr ad) ?hp (rtw_get_bcmc_stainfo ?s) (tim_is_set ad) i ?x"
        unfolding sta_local_def using l(1-4,9,11) p1 p2 p3 p4 p5 by simp
      have "mset (concat ((ac_pending (sta_of ad i))[ac := fs])) + mset (f # fs) = mset (concat (ac_pending (sta_of ad i))) + mset fs"
        using mset_concat_update [of ac "ac_pending (sta_of ad i)" fs] l(3) ac q by simp
      then show "sta_xmit_frames ?x + mset (f # L) = sta_xmit_frames (sta_of ad i) + mset L"
        by (simp add: sta_xmit_frames_def)
    qed (use ac l(4) len in \<open>auto simp: nth_list_update dest: ps_inv_listed [OF inv] split: if_splits\<close>)
    moreover have "ac_pending (sta_of ?ad i) ! ac = fs" using i ps_inv_len [OF inv] l(3) ac by (simp add: sta_of_def)
    ultimately show ?thesis using q unfolding e by auto
  qed
qed simp

lemma dequeue_acs_spec:
  assumes inv: "ps_inv D M ad L" and "set acs \<subseteq> {..<5}"
  shows "case dequeue_acs acs ad of
      (None, ad') \<Rightarrow> ad' = ad \<and> (\<forall>ac \<in> set acs. \<forall>i < NUM_STA. ac_pending (sta_of ad i) ! ac = [])
    | (Some f, ad') \<Rightarrow> ps_inv D M ad' (f # L) \<and>
        (\<exists>as ac bs i fs. acs = as @ ac # bs \<and> (\<forall>a \<in> set as. \<forall>j < NUM_STA. ac_pending (sta_of ad j) ! a = []) \<and>
           i < NUM_STA \<and> ac_pending (sta_of ad i) ! ac = f # fs \<and> ac_pending (sta_of ad' i) ! ac = fs)"
  using assms(2)
proof (induction acs)
  case (Cons ac acs)
  have ac: "ac < 5" and rest: "set acs \<subseteq> {..<5}" using Cons.prems by simp_all
  have sub: "set (hw_pending (tx_stapriv ad) ! ac) \<subseteq> {..<NUM_STA}" using ps_inv_listed [OF inv ac] by auto
  note d = dequeue_one_inv [OF inv ac sub]
  obtain r ad1 where e: "dequeue_one ac (hw_pending (tx_stapriv ad) ! ac) ad = (r, ad1)" by (meson surj_pair)
  show ?case
  proof (cases r)
    case None
    have none: "ac_pending (sta_of ad j) ! ac = []" if "j < NUM_STA" for j
      using d e None sta_local_facts(6) [OF ps_inv_local [OF inv that] ac] by auto
    note IH = Cons.IH [OF rest]
    obtain r' ad2 where e2: "dequeue_acs acs ad = (r', ad2)" by (meson surj_pair)
    show ?thesis
    proof (cases r')
      case None
      then show ?thesis using IH e2 e \<open>r = None\<close> none by auto
    next
      case (Some f)
      then obtain as a bs i fs where h: "acs = as @ a # bs" "\<forall>a \<in> set as. \<forall>j < NUM_STA. ac_pending (sta_of ad j) ! a = []"
          "i < NUM_STA" "ac_pending (sta_of ad i) ! a = f # fs" "ac_pending (sta_of ad2 i) ! a = fs" "ps_inv D M ad2 (f # L)"
        using IH e2 by auto
      have g: "\<exists>as a bs i fs. ac # acs = as @ a # bs \<and> (\<forall>a \<in> set as. \<forall>j < NUM_STA. ac_pending (sta_of ad j) ! a = []) \<and>
          i < NUM_STA \<and> ac_pending (sta_of ad i) ! a = f # fs \<and> ac_pending (sta_of ad2 i) ! a = fs"
        using h(1-5) none by (intro exI [of _ "ac # as"] exI [of _ a] exI [of _ bs] exI [of _ i] exI [of _ fs]) simp
      have eq: "dequeue_acs (ac # acs) ad = (Some f, ad2)" using e e2 Some \<open>r = None\<close> by simp
      show ?thesis unfolding eq prod.case option.case using h(6) g by blast
    qed
  next
    case (Some f)
    obtain i fs where h: "i \<in> set (hw_pending (tx_stapriv ad) ! ac)" "ac_pending (sta_of ad i) ! ac = f # fs"
        "ac_pending (sta_of ad1 i) ! ac = fs" "ps_inv D M ad1 (f # L)"
      using d e Some by auto
    have "i < NUM_STA" using h(1) sub by auto
    then have g: "\<exists>as a bs i fs. ac # acs = as @ a # bs \<and> (\<forall>a \<in> set as. \<forall>j < NUM_STA. ac_pending (sta_of ad j) ! a = []) \<and>
        i < NUM_STA \<and> ac_pending (sta_of ad i) ! a = f # fs \<and> ac_pending (sta_of ad1 i) ! a = fs"
      using h by (intro exI [of _ "[]"] exI [of _ ac] exI [of _ acs] exI [of _ i] exI [of _ fs]) simp
    have eq: "dequeue_acs (ac # acs) ad = (Some f, ad1)" using e Some by simp
    show ?thesis unfolding eq prod.case option.case using h(4) g by blast
  qed
qed simp

lemma dequeue_inv:
  assumes inv: "ps_inv D M ad L"
  shows "rtw_dequeue_xframe ad = (Some f, ad') \<Longrightarrow> ps_inv D M ad' (f # L)"
    "rtw_dequeue_mgmt_xframe ad = (Some f, ad') \<Longrightarrow> ps_inv D M ad' (f # L)"
proof -
  have "set (if tx_wifi_spec ad then tx_wmm_para_seq ad else [0, 1, 2, 3]) \<subseteq> {..<5}"
    using ps_inv_table [OF inv] by (auto simp: ps_table_def Let_def)
  from dequeue_acs_spec [OF inv this]
  show "rtw_dequeue_xframe ad = (Some f, ad') \<Longrightarrow> ps_inv D M ad' (f # L)" by (simp add: rtw_dequeue_xframe_def)
  have sub: "set (hw_pending (tx_stapriv ad) ! 4) \<subseteq> {..<NUM_STA}" using ps_inv_listed [OF inv, of 4] by auto
  have "(4::nat) < 5" by simp
  from dequeue_one_inv [OF inv this sub]
  show "rtw_dequeue_mgmt_xframe ad = (Some f, ad') \<Longrightarrow> ps_inv D M ad' (f # L)" by (simp add: rtw_dequeue_mgmt_xframe_def HWXMIT_ENTRY_def)
qed

section \<open>Received frames\<close>

lemma ctrl_inv:
  assumes inv: "ps_inv D M ad L"
  shows "ps_inv D M (validate_recv_ctrl_frame priority pframe ad) L"
proof (cases "rtw_get_stainfo (tx_stapriv ad) (get_addr2_ptr pframe)")
  case (Some i)
  have i: "i < NUM_STA" using lookup_bound [OF ps_inv_wf [OF inv] Some] .
  define A where "A = (if sta_state (sta_of ad i) AND WIFI_STA_ALIVE_CHK_STATE \<noteq> 0
     then set_sta i (\<lambda>x. x\<lparr>sta_expire_to := tx_expire_to ad, sta_state := sta_state x XOR WIFI_STA_ALIVE_CHK_STATE\<rparr>) ad else ad)"
  have A: "ps_inv D M A L" using inv ps_inv_plain(3) [OF inv i] by (simp add: A_def)
  have "ps_inv D M (pspoll_release i A) L" if s: "sta_state (sta_of A i) AND WIFI_SLEEP_STATE \<noteq> 0"
  proof (rule pspoll_inv [OF A])
    show "client (tx_stapriv A) i"
      using sta_local_facts(11) [OF ps_inv_local [OF A i]] s i by (auto simp: client_def sta_of_def split: if_splits)
  qed
  then show ?thesis using inv A by (simp add: validate_recv_ctrl_frame_def Some A_def [symmetric] Let_def)
qed (simp add: validate_recv_ctrl_frame_def inv)

text \<open>
  What \<open>Data_Frames\<close> finds in a data frame of station \<open>i\<close>, carried out: its power management bit, then, for a
  QoS frame, whether it is a trigger. \<open>rx\<close> is the receiver's state, which shares the station table.
\<close>

definition rx_power_event :: "rx_event \<Rightarrow> tx_adapter \<Rightarrow> tx_adapter" where
  "rx_power_event e =
     (case e of Stop_sta_xmit i \<Rightarrow> stop_sta_xmit i
      | Wakeup_sta_to_xmit i \<Rightarrow> wakeup_sta_to_xmit i ALL_FRAME
      | Xmit_delivery i \<Rightarrow> xmit_delivery_enabled_frames i
      | _ \<Rightarrow> id)"

definition rx_events :: "(rx_adapter \<Rightarrow> rx_adapter) \<Rightarrow> rx_adapter \<Rightarrow> tx_adapter \<Rightarrow> rx_event list" where
  "rx_events check rx ad = ad_events (check (rx\<lparr>ad_stapriv := tx_stapriv ad, ad_events := []\<rparr>))"

definition rx_power_save :: "rx_adapter \<Rightarrow> bytes \<Rightarrow> rx_attrib \<Rightarrow> nat \<Rightarrow> tx_adapter \<Rightarrow> tx_adapter" where
  "rx_power_save rx whdr a i ad =
     (let ad = foldl (\<lambda>ad e. rx_power_event e ad) ad (rx_events (\<lambda>r. process_pwrbit_data r whdr i) rx ad)
      in if get_frame_sub_type whdr AND 0x88 = 0x88
         then foldl (\<lambda>ad e. rx_power_event e ad) ad (rx_events (\<lambda>r. process_wmmps_data r a i) rx ad) else ad)"

lemma rx_power_save_inv:
  assumes inv: "ps_inv D M ad L" and c: "client (tx_stapriv ad) i"
  shows "ps_inv D M (rx_power_save rx whdr a i ad) L"
proof -
  define A where "A = foldl (\<lambda>ad e. rx_power_event e ad) ad (rx_events (\<lambda>r. process_pwrbit_data r whdr i) rx ad)"
  have i: "i < NUM_STA" using c by (simp add: client_def)
  have "A = ad \<or> A = stop_sta_xmit i ad \<or> A = wakeup_sta_to_xmit i ALL_FRAME ad"
    by (simp add: A_def rx_events_def process_pwrbit_data_def add_event_def rx_power_event_def Let_def)
  then have A: "ps_inv D M A L" using inv stop_facts(1) [OF inv c] wakeup_inv [OF inv c] by auto
  have s: "client (tx_stapriv A) i" if "sta_state (sta_of A i) AND WIFI_SLEEP_STATE \<noteq> 0"
    using sta_local_facts(11) [OF ps_inv_local [OF A i]] that i by (auto simp: client_def sta_of_def split: if_splits)
  have "foldl (\<lambda>ad e. rx_power_event e ad) A (rx_events (\<lambda>r. process_wmmps_data r a i) rx A) =
      (if sta_state (sta_of A i) AND WIFI_SLEEP_STATE \<noteq> 0 \<and> rx_events (\<lambda>r. process_wmmps_data r a i) rx A = [Xmit_delivery i]
       then xmit_delivery_enabled_frames i A else A)"
    by (simp add: rx_events_def process_wmmps_data_def add_event_def rx_power_event_def Let_def sta_of_def)
  then show ?thesis using A xmit_delivery_inv [OF A] s by (auto simp: rx_power_save_def A_def [symmetric] Let_def)
qed

section \<open>What can happen\<close>

text \<open>
  The steps of the transmit side, one per entry point. A data frame comes with whatever attributes its packet
  has; a received data frame is one of an associated station. \<open>Dequeue\<close> hands the next frame of the queues to
  the hardware and \<open>Complete\<close> is the hardware's report that it is done with its oldest frame.
\<close>

inductive tx_step :: "tx_adapter \<Rightarrow> tx_adapter \<Rightarrow> bool" where
  Data: "rtw_alloc_xmitframe ad = (Some f, ad') \<Longrightarrow> (\<And>a i. attrib = Some a \<Longrightarrow> xa_psta a = Some i \<Longrightarrow> i < NUM_STA) \<Longrightarrow>
    tx_step ad (snd (rtw_xmit_posthandle hw_free coalesced attrib ad' f))"
| Mgmt: "rtw_alloc_xmitframe ad = (Some f, ad') \<Longrightarrow> xa_psta a = None \<Longrightarrow>
    tx_step ad (rtw_hal_mgnt_xmit pframe (set_attr f (\<lambda>_. a) ad') f)"
| Received_data: "client (tx_stapriv ad) i \<Longrightarrow> tx_step ad (rx_power_save rx whdr a' i ad)"
| Received_ctrl: "tx_step ad (validate_recv_ctrl_frame priority pframe ad)"
| Wakeup: "client (tx_stapriv ad) i \<Longrightarrow> tx_step ad (wakeup_sta_to_xmit i t ad)"
| Chk_bmc_sleepq: "tx_step ad (chk_bmc_sleepq_hdl ad)"
| Chk_hi_queue: "tx_step ad (rtw_chk_hi_queue_hdl hiq_empty ad)"
| Bmc_frames: "tx_step ad (rtw_ap_bmc_frames_hdl ad)"
| Queue_set: "i < NUM_STA \<Longrightarrow> tx_step ad (rtw_xmit_queue_set i ad)"
| Queue_clear: "i < NUM_STA \<Longrightarrow> tx_step ad (rtw_xmit_queue_clear i ad)"
| Queue_send: "i < NUM_STA \<Longrightarrow> tx_step ad (xmit_dequeue hw_free' coalesced' i ad)"
| Dequeue: "rtw_dequeue_xframe ad = (Some f, ad') \<Longrightarrow> tx_step ad (ad'\<lparr>tx_out := tx_out ad' @ [f]\<rparr>)"
| Dequeue_mgmt: "rtw_dequeue_mgmt_xframe ad = (Some f, ad') \<Longrightarrow> tx_step ad (ad'\<lparr>tx_out := tx_out ad' @ [f]\<rparr>)"
| Complete: "tx_out ad = f # q \<Longrightarrow> tx_step ad (rtw_free_xmitframe f (ad\<lparr>tx_out := q\<rparr>))"

inductive_cases tx_stepE: "tx_step ad ad'"

lemma step_inv_ps: "tx_step ad ad' \<Longrightarrow> ps_inv D M ad [] \<Longrightarrow> ps_inv D M ad' []"
proof (induction rule: tx_step.induct)
  case (Data ad f ad' attrib hw_free coalesced)
  show ?case by (rule posthandle_inv [OF alloc_inv [OF Data(3,1)]]) (rule Data(2))
next
  case (Mgmt ad f ad' a pframe)
  have "ps_inv D M (set_attr f (\<lambda>_. a) ad') [f]" by (rule in_hand_attr [OF alloc_inv [OF Mgmt(3,1)]])
  then show ?case by (rule mgnt_xmit_inv) (use Mgmt(2) in simp)
next
  case (Complete ad f q)
  then show ?case using complete_inv by blast
qed (simp_all add: rx_power_save_inv ctrl_inv wakeup_inv bmc_handlers_inv xmit_dequeue_inv rtw_xmit_queue_set_def rtw_xmit_queue_clear_def
    ps_inv_plain(2) dequeue_inv out_inv)

text \<open>At the start no frame is queued for a station.\<close>

definition idle :: "sta_info \<Rightarrow> bool" where
  "idle x \<longleftrightarrow> sleep_q x = [] \<and> sleepq_len x = 0 \<and> mgmt_sleep_q x = [] \<and> mgmt_sleepq_len x = 0 \<and> tx_queue x = [] \<and>
     ac_pending x = replicate 5 [] \<and> ac_qcnt x = replicate 5 0 \<and> sta_state x AND WIFI_SLEEP_STATE = 0"

definition tx_start :: "tx_adapter \<Rightarrow> bool" where
  "tx_start ad \<longleftrightarrow> ps_table ad \<and> list_all idle (stas (tx_stapriv ad)) \<and> xmit_accnt (tx_stapriv ad) = replicate 5 0 \<and> tx_out ad = [] \<and>
     distinct (free_xmit_frames (tx_stapriv ad)) \<and> length (free_xmit_frames (tx_stapriv ad)) < 2 ^ 32"

definition tx_reach :: "nat multiset \<Rightarrow> tx_adapter \<Rightarrow> bool" where
  "tx_reach M ad \<longleftrightarrow> (\<exists>start. tx_start start \<and> M = mset (free_xmit_frames (tx_stapriv start)) \<and> tx_step\<^sup>*\<^sup>* start ad)"

lemma start_inv:
  assumes "tx_start ad"
  shows "ps_inv balanced (mset (free_xmit_frames (tx_stapriv ad))) ad []"
proof -
  have len: "length (stas (tx_stapriv ad)) = NUM_STA"
    using assms by (simp add: tx_start_def ps_table_def Let_def sta_wf_def sta_wf_limbo_def)
  have idle: "list_all idle (stas (tx_stapriv ad))" using assms by (simp add: tx_start_def)
  have i: "idle (sta_of ad i)" if "i < NUM_STA" for i
    using idle that len by (simp add: list_all_length sta_of_def)
  have "sum_list (map sta_xmit_frames xs) = {#}" if "list_all idle xs" for xs
    using that by (induction xs) (auto simp: idle_def sta_xmit_frames_def)
  then have f: "tx_frames ad = mset (free_xmit_frames (tx_stapriv ad))"
    using idle assms by (simp add: tx_frames_def xmit_frames_def tx_start_def)
  have "(\<Sum>x \<leftarrow> xs. ac_qcnt x ! ac) = 0" if "list_all idle xs" "ac < 5" for xs ac
    using that by (induction xs) (auto simp: idle_def)
  note q = this [OF idle]
  have "local_of balanced ad j (sta_of ad j)" if "j < NUM_STA" for j
    using i [OF that] by (auto simp: idle_def sta_local_def)
  then show ?thesis
    using assms f q by (simp add: ps_inv_def tx_start_def distinct_count_atmost_1)
qed

lemma reach_inv: "tx_reach M ad \<Longrightarrow> ps_inv balanced M ad []"
proof -
  assume "tx_reach M ad"
  then obtain start where s: "tx_start start" "M = mset (free_xmit_frames (tx_stapriv start))" "tx_step\<^sup>*\<^sup>* start ad"
    by (auto simp: tx_reach_def)
  from s(3) show ?thesis
    by (induction rule: rtranclp_induct) (use start_inv [OF s(1)] s(2) step_inv_ps in auto)
qed

section \<open>An example\<close>

text \<open>An access point with the broadcast station in entry 0 and an associated station in entry 1, and four frames.\<close>

definition example_sta :: sta_info where
  "example_sta = (new_sta example_mac)\<lparr>sta_state := 1, sta_aid_no := 1, has_legacy_ac := True\<rparr>"

definition example_priv :: sta_priv where
  "example_priv = (let s = snd (rtw_alloc_stainfo (rtw_init_bcmc_stainfo example_table) example_mac)
     in s\<lparr>stas := (stas s)[1 := example_sta], free_xmit_frames := [0, 1, 2, 3]\<rparr>)"

definition example_tx :: tx_adapter where
  "example_tx = \<lparr>tx_stapriv = example_priv,
     tx_attr = (\<lambda>_. \<lparr>xa_ra = example_mac, xa_psta = Some 1, xa_priority = 0, xa_ether_type = 0x0800, xa_dhcp = False, xa_ps_dontq = False,
       xa_triggered = False, xa_mdata = False, xa_eosp = False, xa_qsel = 0\<rparr>),
     tx_ap = True, tx_mac = [2, 0, 0, 0, 0, 1], tx_wifi_spec = False, tx_hiq_filter = 0, tx_wmm_para_seq = [0, 1, 2, 3], tx_expire_to = 3,
     tx_drop = 0, tx_out = [], tx_calls = []\<rparr>"

lemma example_priv_eq:
  "example_priv = snd (rtw_alloc_stainfo (rtw_init_bcmc_stainfo example_table) example_mac)
     \<lparr>stas := (replicate NUM_STA init_stainfo)[0 := new_sta bcast_addr, 1 := example_sta], free_xmit_frames := [0, 1, 2, 3]\<rparr>"
  "free_sta_queue (rtw_init_bcmc_stainfo example_table) = [1..<NUM_STA]"
proof -
  have q: "free_sta_queue example_table = 0 # [1..<NUM_STA]" "stas example_table = replicate NUM_STA init_stainfo"
    by (simp_all add: example_table_def rtw_init_sta_priv_def Let_def NUM_STA_def upt_rec)
  have h: "unat (wifi_mac_hash a) < NUM_STA" for a by (rule mac_hash_bound)
  show f: "free_sta_queue (rtw_init_bcmc_stainfo example_table) = [1..<NUM_STA]"
    using h [of bcast_addr] by (simp add: rtw_init_bcmc_stainfo_def rtw_alloc_stainfo_def q Let_def not_le)
  have s: "stas (rtw_init_bcmc_stainfo example_table) = (replicate NUM_STA init_stainfo)[0 := new_sta bcast_addr]"
    using h [of bcast_addr] by (simp add: rtw_init_bcmc_stainfo_def rtw_alloc_stainfo_def q Let_def not_le)
  have "[1..<NUM_STA] = 1 # [2..<NUM_STA]" by (simp add: NUM_STA_def upt_rec)
  then show "example_priv = snd (rtw_alloc_stainfo (rtw_init_bcmc_stainfo example_table) example_mac)
     \<lparr>stas := (replicate NUM_STA init_stainfo)[0 := new_sta bcast_addr, 1 := example_sta], free_xmit_frames := [0, 1, 2, 3]\<rparr>"
    using h [of example_mac] by (simp add: example_priv_def Let_def rtw_alloc_stainfo_def f s not_le)
qed

lemma example_facts:
  "tx_start example_tx" "mset (free_xmit_frames (tx_stapriv example_tx)) = {#0, 1, 2, 3#}" "client (tx_stapriv example_tx) 1"
proof -
  define P where "P = snd (rtw_alloc_stainfo (rtw_init_bcmc_stainfo example_table) example_mac)"
  have "sta_reach P" unfolding P_def rtw_init_bcmc_stainfo_def by (intro sta_reach.alloc example_reach)
  then have wfP: "sta_wf P" by (rule reach_wf)
  have h: "unat (wifi_mac_hash a) < NUM_STA" for a by (rule mac_hash_bound)
  have q: "free_sta_queue example_table = 0 # [1..<NUM_STA]" "stas example_table = replicate NUM_STA init_stainfo"
    "sta_hash example_table = replicate NUM_STA []"
    by (simp_all add: example_table_def rtw_init_sta_priv_def Let_def NUM_STA_def upt_rec)
  have b: "sta_hash (rtw_init_bcmc_stainfo example_table) = (replicate NUM_STA [])[unat (wifi_mac_hash bcast_addr) := [0]]"
    "stas (rtw_init_bcmc_stainfo example_table) = (replicate NUM_STA init_stainfo)[0 := new_sta bcast_addr]"
    using h [of bcast_addr] by (simp_all add: rtw_init_bcmc_stainfo_def rtw_alloc_stainfo_def q Let_def not_le)
  have u: "[1..<NUM_STA] = 1 # [2..<NUM_STA]" by (simp add: NUM_STA_def upt_rec)
  have f: "free_sta_queue (rtw_init_bcmc_stainfo example_table) = 1 # [2..<NUM_STA]" unfolding example_priv_eq(2) u ..
  have P: "stas P = (replicate NUM_STA init_stainfo)[0 := new_sta bcast_addr, 1 := new_sta example_mac]"
    "sta_hash P ! unat (wifi_mac_hash bcast_addr) = 0 # (if wifi_mac_hash example_mac = wifi_mac_hash bcast_addr then [1] else [])"
    using h [of example_mac] h [of bcast_addr]
    by (auto simp: P_def rtw_alloc_stainfo_def [of "rtw_init_bcmc_stainfo example_table"] f b Let_def not_le nth_list_update word_unat_eq_iff)
  have rest: "tim_bitmap P = [0]" "sta_dz_bitmap P = [0]" "aid_bmp_len P = 1" "xmit_accnt P = replicate 5 0" "hw_pending P = replicate 5 []"
    using h [of example_mac] h [of bcast_addr]
    by (simp_all add: P_def rtw_alloc_stainfo_def [of "rtw_init_bcmc_stainfo example_table"] f Let_def not_le,
      simp_all add: rtw_init_bcmc_stainfo_def rtw_alloc_stainfo_def q Let_def not_le)
      (simp_all add: example_table_def rtw_init_sta_priv_def Let_def AID_BMP_LEN_def)
  have e: "example_priv = P\<lparr>stas := (replicate NUM_STA init_stainfo)[0 := new_sta bcast_addr, 1 := example_sta], free_xmit_frames := [0, 1, 2, 3]\<rparr>"
    using example_priv_eq(1) by (simp add: P_def)
  have n: "(1::nat) < NUM_STA" "(0::nat) < NUM_STA" by (simp_all add: NUM_STA_def)
  have wf: "sta_wf example_priv"
    by (rule wf_same_table [OF wfP]) (use n in \<open>simp_all add: e P nth_list_update example_sta_def\<close>)
  have bc: "rtw_get_bcmc_stainfo example_priv = Some 0"
    using n by (simp add: rtw_get_bcmc_stainfo_def rtw_get_stainfo_def get_stainfo_def e P Let_def)
      (simp add: bcast_addr_def new_sta_def)
  have st: "sta_state (stas example_priv ! i) AND WIFI_ASOC_STATE \<noteq> 0 \<longleftrightarrow> i = 1" if "i < NUM_STA" for i
    using that n by (simp add: e nth_list_update example_sta_def new_sta_def init_stainfo_def WIFI_ASOC_STATE_def)
  have cl: "client example_priv i \<longleftrightarrow> i = 1" for i using st [of i] n by (auto simp: client_def bc)
  have aid: "sta_aid_no (stas example_priv ! 1) = 1" using n by (simp add: e example_sta_def)
  have tab: "ps_table example_tx"
    by (simp add: ps_table_def example_tx_def Let_def wf cl aid) (use n in \<open>simp add: e rest example_sta_def, auto simp: less_Suc_eq numeral_eq_Suc\<close>)
  have i: "idle init_stainfo" "idle (new_sta a)" "idle example_sta" for a
    by (simp_all add: idle_def init_stainfo_def new_sta_def example_sta_def WIFI_SLEEP_STATE_def)
  have "idle (stas example_priv ! k)" if "k < NUM_STA" for k
    using i that by (cases "k = 0"; cases "k = 1") (simp_all add: e)
  moreover have "length (stas example_priv) = NUM_STA" by (simp add: e)
  ultimately have "list_all idle (stas example_priv)" by (simp add: list_all_length)
  then show "tx_start example_tx" using tab rest by (simp add: tx_start_def example_tx_def e)
  show "mset (free_xmit_frames (tx_stapriv example_tx)) = {#0, 1, 2, 3#}" by (simp add: example_tx_def e add_mset_commute)
  show "client (tx_stapriv example_tx) 1" by (simp add: example_tx_def cl)
qed

lemma example_tx_reach: "tx_reach {#0, 1, 2, 3#} example_tx"
  unfolding tx_reach_def using example_facts(1,2) by (intro exI [of _ example_tx]) auto

section \<open>Properties\<close>

text \<open>
  C9. The transmit side of the access point, whatever happens. Started with no frame queued, after any
  sequence of frames sent, received data frames and control frames, wake-ups, releases of group frames and
  hardware transfers: every frame is in exactly one place and none is lost; the counters of every station are
  the lengths of its queues, and those of the adapter their sums; a station with frames for the hardware is in
  the list the hardware's queue is served from; frames are buffered for a client only while it sleeps; and
  if it has no delivery services, its frames are announced in the traffic indication map, as are buffered
  group frames.
\<close>

theorem power_save_invariant:
  assumes "tx_reach M ad"
  shows "tx_frames ad = M \<and> (\<forall>f. count M f \<le> 1) \<and>
    (\<forall>i < NUM_STA. let x = sta_of ad i in
       sleepq_len x = of_nat (length (sleep_q x)) \<and> mgmt_sleepq_len x = of_nat (length (mgmt_sleep_q x)) \<and>
       (\<forall>ac < 5. ac_qcnt x ! ac = int (length (ac_pending x ! ac)) \<and>
          (ac_pending x ! ac \<noteq> [] \<longrightarrow> i \<in> set (hw_pending (tx_stapriv ad) ! ac))) \<and>
       (if rtw_get_bcmc_stainfo (tx_stapriv ad) = Some i then sleep_q x \<noteq> [] \<longrightarrow> tim_is_set ad 0
        else sleep_q x \<noteq> [] \<or> mgmt_sleep_q x \<noteq> [] \<longrightarrow>
          sta_state x AND WIFI_SLEEP_STATE \<noteq> 0 \<and> (legacy x \<longrightarrow> tim_is_set ad (sta_aid_no x)))) \<and>
    (\<forall>ac < 5. xmit_accnt (tx_stapriv ad) ! ac = (\<Sum>x \<leftarrow> stas (tx_stapriv ad). ac_qcnt x ! ac))"
proof -
  note inv = reach_inv [OF assms]
  have "let x = sta_of ad i in
       sleepq_len x = of_nat (length (sleep_q x)) \<and> mgmt_sleepq_len x = of_nat (length (mgmt_sleep_q x)) \<and>
       (\<forall>ac < 5. ac_qcnt x ! ac = int (length (ac_pending x ! ac)) \<and>
          (ac_pending x ! ac \<noteq> [] \<longrightarrow> i \<in> set (hw_pending (tx_stapriv ad) ! ac))) \<and>
       (if rtw_get_bcmc_stainfo (tx_stapriv ad) = Some i then sleep_q x \<noteq> [] \<longrightarrow> tim_is_set ad 0
        else sleep_q x \<noteq> [] \<or> mgmt_sleep_q x \<noteq> [] \<longrightarrow>
          sta_state x AND WIFI_SLEEP_STATE \<noteq> 0 \<and> (legacy x \<longrightarrow> tim_is_set ad (sta_aid_no x)))" if i: "i < NUM_STA" for i
    using sta_local_facts [OF ps_inv_local [OF inv i]] by (simp add: Let_def split: if_splits)
  then show ?thesis using inv by (simp add: ps_inv_def)
qed

definition example_pm_frame :: bytes where
  "example_pm_frame = [0x08, 0x11] @ replicate 22 0"

lemma example_asleep_reach: "tx_reach {#0, 1, 2, 3#} (stop_sta_xmit 1 example_tx)"
proof -
  have "sta_state (stas example_priv ! 1) AND WIFI_SLEEP_STATE = 0"
    by (simp add: example_priv_eq(1) NUM_STA_def example_sta_def WIFI_SLEEP_STATE_def)
  then have "rx_power_save rx example_pm_frame a 1 example_tx = stop_sta_xmit 1 example_tx" for rx a
    by (simp add: rx_power_save_def rx_events_def process_pwrbit_data_def add_event_def rx_power_event_def Let_def example_tx_def
        GetPwrMgt_def get_frame_sub_type_def example_pm_frame_def RTW_GET_LE16_def)
  then have "tx_step example_tx (stop_sta_xmit 1 example_tx)" using tx_step.Received_data [OF example_facts(3)] by metis
  then show ?thesis unfolding tx_reach_def using example_facts(1,2) by (intro exI [of _ example_tx]) auto
qed

theorem power_save_invariant_witness:
  "tx_frames (stop_sta_xmit 1 example_tx) = {#0, 1, 2, 3#}"
  using power_save_invariant [OF example_asleep_reach] by blast

text \<open>
  C10. A station that falls asleep. Every frame on its way to it is buffered and none goes to the hardware any
  more: management frames behind those buffered, data frames in the order voice, video, best effort and
  background. The station is marked as sleeping in its state and in the map of sleeping stations. Other
  clients are not touched.
\<close>

theorem falling_asleep:
  assumes "tx_reach M ad" "client (tx_stapriv ad) i"
  defines "ad' \<equiv> stop_sta_xmit i ad"
  shows "(\<forall>ac < 5. ac_pending (sta_of ad' i) ! ac = []) \<and>
    sleep_q (sta_of ad' i) = sleep_q (sta_of ad i) @ concat (take 4 (ac_pending (sta_of ad i))) \<and>
    mgmt_sleep_q (sta_of ad' i) = mgmt_sleep_q (sta_of ad i) @ ac_pending (sta_of ad i) ! 4 \<and>
    sta_state (sta_of ad' i) AND WIFI_SLEEP_STATE \<noteq> 0 \<and> dz_is_set ad' (sta_aid_no (sta_of ad i)) \<and>
    (\<forall>j. j \<noteq> i \<and> rtw_get_bcmc_stainfo (tx_stapriv ad) \<noteq> Some j \<longrightarrow> sta_of ad' j = sta_of ad j)"
  unfolding ad'_def using stop_facts [OF reach_inv [OF assms(1)] assms(2)] by simp

theorem falling_asleep_witness:
  "sta_state (sta_of (stop_sta_xmit 1 example_tx) 1) AND WIFI_SLEEP_STATE \<noteq> 0"
  using falling_asleep [OF example_tx_reach example_facts(3)] by blast

text \<open>
  C11. A station that wakes up. All its buffered frames go to the hardware's queues, in their order, the data
  frames to the queues of their priorities and the management frames to theirs. Afterwards the station is
  awake in its state and in both maps. Every frame released passes the buffering of sleeping stations, and
  among the management frames, and for a station without trigger-enabled services among the data frames,
  each but the last tells the station that more follow.
\<close>

theorem waking_up:
  assumes "tx_reach M ad" "client (tx_stapriv ad) i"
  defines "x \<equiv> sta_of ad i" and "ad' \<equiv> wakeup_sta_to_xmit i ALL_FRAME ad"
  shows "sleep_q (sta_of ad' i) = [] \<and> mgmt_sleep_q (sta_of ad' i) = [] \<and> sta_state (sta_of ad' i) AND WIFI_SLEEP_STATE = 0 \<and>
    \<not> tim_is_set ad' (sta_aid_no x) \<and> \<not> dz_is_set ad' (sta_aid_no x) \<and>
    (\<forall>ac < 4. ac_pending (sta_of ad' i) ! ac =
       ac_pending x ! ac @ filter (\<lambda>f. rtw_get_sta_pending (xa_priority (tx_attr ad f)) = ac) (sleep_q x)) \<and>
    ac_pending (sta_of ad' i) ! 4 = ac_pending x ! 4 @ mgmt_sleep_q x \<and>
    (\<forall>f \<in> set (sleep_q x) \<union> set (mgmt_sleep_q x). xa_triggered (tx_attr ad' f)) \<and>
    (\<forall>f \<in> set (mgmt_sleep_q x). xa_mdata (tx_attr ad' f) \<longleftrightarrow> f \<noteq> last (mgmt_sleep_q x)) \<and>
    (no_trigger x \<longrightarrow> (\<forall>f \<in> set (sleep_q x). xa_mdata (tx_attr ad' f) \<longleftrightarrow> f \<noteq> last (sleep_q x)))"
  unfolding x_def ad'_def using wakeup_facts [OF reach_inv [OF assms(1)] assms(2)] by simp

theorem waking_up_witness:
  "sta_state (sta_of (wakeup_sta_to_xmit 1 ALL_FRAME example_tx) 1) AND WIFI_SLEEP_STATE = 0"
  using waking_up [OF example_tx_reach example_facts(3)] by blast

text \<open>
  C12. Falling asleep and waking up again leaves the frames on their way to a station as they were: each of the
  hardware's queues has the same frames in the same order, and nothing stays behind in the buffers.
\<close>

theorem sleep_wake_roundtrip:
  assumes "tx_reach M ad" "client (tx_stapriv ad) i" "sta_state (sta_of ad i) AND WIFI_SLEEP_STATE = 0"
  defines "ad' \<equiv> wakeup_sta_to_xmit i ALL_FRAME (stop_sta_xmit i ad)"
  shows "(\<forall>ac < 5. ac_pending (sta_of ad' i) ! ac = ac_pending (sta_of ad i) ! ac) \<and>
    sleep_q (sta_of ad' i) = [] \<and> mgmt_sleep_q (sta_of ad' i) = [] \<and> sta_state (sta_of ad' i) AND WIFI_SLEEP_STATE = 0"
proof -
  note inv = reach_inv [OF assms(1)]
  have i: "i < NUM_STA" and nb: "rtw_get_bcmc_stainfo (tx_stapriv ad) \<noteq> Some i" using assms(2) by (simp_all add: client_def)
  note l = sta_local_facts [OF ps_inv_local [OF inv i]]
  have e: "sleep_q (sta_of ad i) = []" "mgmt_sleep_q (sta_of ad i) = []" using l(11) nb assms(3) by auto
  note s = stop_facts [OF inv assms(2)]
  have c: "client (tx_stapriv (stop_sta_xmit i ad)) i" using s(7) assms(2) by simp
  note w = wakeup_facts [OF s(1) c]
  define P where "P = (\<lambda>k f. rtw_get_sta_pending (xa_priority (tx_attr ad f)) = k)"
  have p: "k < 4 \<Longrightarrow> f \<in> set (ac_pending (sta_of ad i) ! k) \<Longrightarrow> P j f \<longleftrightarrow> k = j" for k j f
    using l(7) [of k f] by (auto simp: P_def)
  obtain a b c d m where q: "ac_pending (sta_of ad i) = [a, b, c, d, m]"
    using l(3) by (auto simp: length_Suc_conv eval_nat_numeral)
  have f: "filter (P j) a = (if j = 0 then a else [])" "filter (P j) b = (if j = 1 then b else [])"
    "filter (P j) c = (if j = 2 then c else [])" "filter (P j) d = (if j = 3 then d else [])" for j
    using p [of 0 _ j] p [of 1 _ j] p [of 2 _ j] p [of 3 _ j] by (auto simp: q filter_empty_conv intro!: filter_True)
  have 4: "ac_pending (sta_of ad' i) ! k = filter (P k) (a @ b @ c @ d)" if "k < 4" for k
    unfolding ad'_def w(6) [OF that] using s(4) [of k] that by (simp add: s(5,10) e q P_def)
  have 5: "ac_pending (sta_of ad' i) ! 4 = m" unfolding ad'_def w(7) using s(4) [of 4] by (simp add: s(6) e q)
  have "ac_pending (sta_of ad' i) ! ac = ac_pending (sta_of ad i) ! ac" if "ac < 5" for ac
  proof -
    have "ac \<in> {0, 1, 2, 3, 4}" using that by auto
    then show ?thesis using 4 5 by (auto simp: q f)
  qed
  then show ?thesis using w(1,2,3) by (simp add: ad'_def)
qed

theorem sleep_wake_roundtrip_witness:
  "mgmt_sleep_q (sta_of (wakeup_sta_to_xmit 1 ALL_FRAME (stop_sta_xmit 1 example_tx)) 1) = []"
proof -
  have "sta_state (sta_of example_tx 1) AND WIFI_SLEEP_STATE = 0"
    by (simp add: sta_of_def example_tx_def example_priv_eq(1) NUM_STA_def example_sta_def WIFI_SLEEP_STATE_def)
  from sleep_wake_roundtrip [OF example_tx_reach example_facts(3) this] show ?thesis by blast
qed

text \<open>
  C13. The next frame for the hardware. In the order of the access categories, it is the first frame in the
  queue of some station, and no station has a frame in a category before; it leaves that queue. There is
  none exactly when no station has a data frame for the hardware.
\<close>

theorem next_frame:
  assumes "tx_reach M ad"
  defines "order \<equiv> (if tx_wifi_spec ad then tx_wmm_para_seq ad else [0, 1, 2, 3])"
  shows "case rtw_dequeue_xframe ad of
      (None, ad') \<Rightarrow> ad' = ad \<and> (\<forall>ac < 4. \<forall>i < NUM_STA. ac_pending (sta_of ad i) ! ac = [])
    | (Some f, ad') \<Rightarrow> \<exists>as ac bs i fs. order = as @ ac # bs \<and> (\<forall>a \<in> set as. \<forall>j < NUM_STA. ac_pending (sta_of ad j) ! a = []) \<and>
        i < NUM_STA \<and> ac_pending (sta_of ad i) ! ac = f # fs \<and> ac_pending (sta_of ad' i) ! ac = fs"
proof -
  note inv = reach_inv [OF assms(1)]
  have o: "set order = {..<4}" using ps_inv_table [OF inv] by (auto simp: order_def ps_table_def Let_def)
  then have "set order \<subseteq> {..<5}" by auto
  from dequeue_acs_spec [OF inv this] show ?thesis
    using o by (auto simp: rtw_dequeue_xframe_def order_def [symmetric] split: option.splits)
qed

theorem next_frame_witness:
  "rtw_dequeue_xframe example_tx = (None, example_tx)"
proof -
  have "list_all idle (stas (tx_stapriv example_tx))" "length (stas (tx_stapriv example_tx)) = NUM_STA" "\<not> tx_wifi_spec example_tx"
    using example_facts(1) by (simp_all add: tx_start_def example_tx_def example_priv_eq(1))
  then have "ac_pending (sta_of example_tx i) ! ac = []" if "i < NUM_STA" "ac \<in> set [0, 1, 2, 3]" for i ac
    using that by (auto simp: list_all_length idle_def sta_of_def)
  moreover have "ac \<in> set [0, 1, 2, 3]" if "[0, 1, 2, 3] = as @ ac # bs" for as ac and bs :: "nat list" unfolding that by simp
  ultimately have "\<not> ([0, 1, 2, 3] = as @ ac # bs \<and> i < NUM_STA \<and> ac_pending (sta_of example_tx i) ! ac = f # fs)" for as ac bs i f fs
    by (metis list.distinct(1))
  with next_frame [OF example_tx_reach] \<open>\<not> tx_wifi_spec example_tx\<close> show ?thesis
    by (simp split: prod.splits option.splits) blast
qed

text \<open>
  C14. A poll of a client. It releases the first buffered management frame and the first buffered data
  frame, if there are any, to the hardware's queues, and the traffic indication goes exactly when nothing is
  left. The number of frames buffered for delivery services is left as it is, also when the data frame is one.
\<close>

theorem poll_release:
  assumes "tx_reach M ad" "client (tx_stapriv ad) i"
  defines "x \<equiv> sta_of ad i" and "ad' \<equiv> pspoll_release i ad"
  shows "mgmt_sleep_q (sta_of ad' i) = tl (mgmt_sleep_q x) \<and> sleep_q (sta_of ad' i) = tl (sleep_q x) \<and>
    ac_pending (sta_of ad' i) ! 4 = ac_pending x ! 4 @ take 1 (mgmt_sleep_q x) \<and>
    (\<forall>ac < 4. ac_pending (sta_of ad' i) ! ac =
       ac_pending x ! ac @ filter (\<lambda>f. rtw_get_sta_pending (xa_priority (tx_attr ad f)) = ac) (take 1 (sleep_q x))) \<and>
    (tim_is_set ad' (sta_aid_no x) \<longleftrightarrow> tim_is_set ad (sta_aid_no x) \<and> (tl (sleep_q x) \<noteq> [] \<or> tl (mgmt_sleep_q x) \<noteq> [])) \<and>
    sleepq_ac_len (sta_of ad' i) = sleepq_ac_len x"
proof -
  note inv = reach_inv [OF assms(1)]
  have i: "i < NUM_STA" using assms(2) by (simp add: client_def)
  define ad2 where "ad2 = (case sleep_q (sta_of ad i) of [] \<Rightarrow> (case mgmt_sleep_q (sta_of ad i) of [] \<Rightarrow> ad | f # _ \<Rightarrow> release_mgmt i f ad)
    | f # _ \<Rightarrow> trigger_send f (take_data i f (case mgmt_sleep_q (sta_of ad i) of [] \<Rightarrow> ad | f # _ \<Rightarrow> release_mgmt i f ad)))"
  note p = pspoll_eq [OF inv assms(2), folded ad2_def]
  note g = stepped_facts [OF p(2) i ps_inv_len [OF inv]]
  have "sta_of ad' = sta_of ad2" by (simp add: ad'_def p(5) Let_def)
  moreover have "tim_is_set ad' (sta_aid_no x) \<longleftrightarrow> tim_is_set ad (sta_aid_no x) \<and> (tl (sleep_q x) \<noteq> [] \<or> tl (mgmt_sleep_q x) \<noteq> [])"
  proof -
    have k: "ps_inv balanced M (tx_call k ad2) []" for k using p(1) by simp
    have "\<not> tim_is_set (tim_clear a (tx_call k ad2)) a" "\<not> tim_is_set (tim_clear a ad2) a" for k a
      using bmp_tables(2) [OF ps_inv_table [OF p(1)]] bmp_tables(2) [OF ps_inv_table [OF k]] by simp_all
    then show ?thesis using p(3,4) g(3) by (auto simp: ad'_def p(5) Let_def x_def)
  qed
  ultimately show ?thesis using p(3,4,6) p(7) by (simp add: x_def)
qed

theorem poll_release_witness:
  "sleepq_ac_len (sta_of (pspoll_release 1 example_tx) 1) = sleepq_ac_len (sta_of example_tx 1)"
  using poll_release [OF example_tx_reach example_facts(3)] by blast

end
