(* ===== verification/Spec2Isabelle.thy ===== *)
theory Spec2Isabelle
  imports Attributes AMSDU Tx_Steps
begin

unbundle bit_operations_syntax

text \<open>
  \<^bold>\<open>The program.\<close> Specter onboard runs on the companion computer of a drone. Its C code is the
  WiFi driver rtl88x2CU (\<^verbatim>\<open>src/drivers/rtl88x2CU\<close>), which carries the link between aircraft and ground station;
  paths below are relative to that directory. A received frame passes, in this order, the validation of its
  header with the checks for repetitions, decryption, the reassembly of fragments, the controlled port, the
  reordering buffer, and the conversion to Ethernet frames; each of these steps works on the entry of the sending station in the station
  table. As an access point the driver buffers frames for stations that sleep and hands them out when they poll or wake up.
  Management frames carry lists of information elements, some of which hold
  attributes or security parameters in turn. The development models these parts, the cryptography below
  them, and the admission of stations.

  \<^bold>\<open>Conventions.\<close> Machine integers are words of their width. A buffer is a list of bytes; a pointer into it is an
  offset. Allocation may fail: the parameter \<open>alloc\<close> says which allocations succeed, by size or by number. A null
  pointer or \<^verbatim>\<open>_FAIL\<close> is \<open>None\<close>. Where the code may read outside a buffer the result is \<open>Oob\<close> (\<open>c_result\<close> of \<open>Prelude\<close>), so that
  a theorem that gives a result \<open>Ret\<close> also shows that every read is in bounds. Loops are recursive functions with
  termination proofs. The loops over attributes, which really may not return, are
  partial functions whose value is then \<open>None\<close>, and one theorem shows on which inputs that happens. Only two loops of
  \<open>SHA256\<close> have fuel: \<open>sha256_process_loop\<close>, which takes at least one byte in each round, as many rounds as there are bytes,
  and \<open>sha256_zero_pad\<close>, which stores one byte in each, as many as the buffer can take; that the hash is \<open>Some\<close>
  digest of the whole message shows that both are enough. What the code is compared
  with is defined from the standard and not from the code: the S-box by inversion in its field, the product of GCM on
  polynomials, the constants of SHA-256 as roots of primes, the suites of an RSN element by their numbers, and the
  Ethernet frame of a packet byte by byte; modes of operation are compared over the block cipher they run on.
  Locks are left out: the modelled operations run under the lock the code takes around them.

  \<^bold>\<open>Cryptography\<close> (\<^verbatim>\<open>core/crypto\<close>).
  \<^item> \<open>AES_Tables\<close>, \<open>AES\<close>: tables, key schedule and rounds of \<^verbatim>\<open>aes-internal.c\<close> and \<^verbatim>\<open>aes-internal-enc.c\<close>; they refine FIPS 197,
    whose S-box is defined there by inversion in the field.
  \<^item> \<open>Block_Modes\<close>: the locales \<open>block_cipher\<close>, interpreted by AES, and \<open>aead\<close>, authenticated encryption.
  \<^item> \<open>AES_CCM\<close>, \<open>AES_GCM\<close> (\<^verbatim>\<open>aes-ccm.c\<close>, \<^verbatim>\<open>aes-gcm.c\<close>): refine RFC 3610 and SP 800-38D, accept exactly what they seal, and
    interpret \<open>aead\<close>; the field multiplication of the reference is that of polynomials over two elements.
  \<^item> \<open>AES_MAC\<close> (\<^verbatim>\<open>aes-ctr.c\<close>, \<^verbatim>\<open>aes-omac1.c\<close>, \<^verbatim>\<open>aes-siv.c\<close>), \<open>SHA256\<close> (\<^verbatim>\<open>sha256-internal.c\<close>, \<^verbatim>\<open>sha256.c\<close>, \<^verbatim>\<open>sha256-prf.c\<close>): CMAC over
    scattered buffers, deterministic encryption, hashing, HMAC and key derivation against their standards.
  \<^item> \<open>Frame_Crypto\<close> (\<^verbatim>\<open>ccmp.c\<close>, \<^verbatim>\<open>gcmp.c\<close>, \<^verbatim>\<open>core/rtw_swcrypto.c\<close>): protection of frames as extension \<open>frame_aead\<close> of \<open>aead\<close>,
    with additional data and nonces from the header, round trips, authenticity and uniqueness of nonces.

  \<^bold>\<open>Legacy protection\<close> (\<^verbatim>\<open>core/rtw_security.c\<close>). \<open>Arcfour\<close>, \<open>Checksums\<close>, \<open>Michael\<close>, \<open>TKIP_Keys\<close> hold RC4, the cyclic checksums, the
  integrity code and the key mixing; \<open>Legacy_Frames\<close> holds the WEP and TKIP transmit and receive paths over the
  locale \<open>rc4_encapsulation\<close>, with every error path and the countermeasures.

  \<^bold>\<open>Elements\<close> (\<^verbatim>\<open>core/rtw_ieee80211.c\<close>). \<open>TLV\<close> states what a format of tagged elements promises; \<open>Info_Elements\<close> and
  \<open>Attributes\<close> interpret it for information elements and for WPS and P2P attributes, and show what the searches and
  removals compute on well-formed lists and what they do on malformed ones. \<open>Security_IE\<close> holds the WPA and RSN
  parsers: they stay in bounds on every input and read back what was encoded.

  \<^bold>\<open>Stations\<close> (\<^verbatim>\<open>core/rtw_sta_mgt.c\<close>, \<^verbatim>\<open>core/rtw_ap.c\<close>). \<open>Access_Control\<close>: the access lists are bounded sets of addresses. \<open>Stations\<close>: the
  table with its pool, hash buckets, lists, association identifiers and the frames a station holds. Its invariant is
  proved over every sequence of operations by induction on \<open>sta_reach\<close>; lookup follows from the locale
  \<open>address_table\<close>, which the table interprets.

  \<^bold>\<open>Reception\<close> (\<^verbatim>\<open>core/rtw_recv.c\<close>).
  \<^item> \<open>Data_Frames\<close>: the addresses, station and header length of a data frame, and which frames are refused: repeated
    ones, and unencrypted ones where encryption is on; the controlled port of 802.1X.
  \<^item> \<open>Defrag\<close>: reassembly joins only fragments with consecutive numbers under one key, and no frame is lost or
    freed twice.
  \<^item> \<open>Reorder\<close>: the window over 12-bit sequence numbers refines one over unbounded numbers; frames come out in order, all of
    them, and none waits for ever. Reachable windows are those of \<open>reorder_reach\<close>.
  \<^item> \<open>Replay\<close>: duplicates, packet numbers of group frames, and protected group management frames.
  \<^item> \<open>AMSDU\<close>: aggregates and single frames become Ethernet frames.
  \<^item> This theory: an encrypted aggregate from sender to network stack, and why setting the aggregate bit of an
    encrypted frame on the way achieves nothing.

  \<^bold>\<open>Transmission to sleeping stations\<close> (\<^verbatim>\<open>core/rtw_xmit.c\<close>, \<^verbatim>\<open>core/rtw_recv.c\<close>, \<^verbatim>\<open>core/rtw_ap.c\<close>, \<^verbatim>\<open>hal/rtl8822c/usb\<close>).
  \<^item> \<open>Power_Save\<close>: the queues of an access point towards the hardware, the buffers of its stations, the traffic indication
    map, and every operation that moves a frame between them, as one state \<open>tx_adapter\<close> over the station table.
  \<^item> \<open>Tx_Queues\<close>: the invariant \<open>ps_inv\<close> and how buffering, releasing and waking up keep it; the loops over queues are
    interpretations of the locales \<open>drain\<close> and \<open>marked_drain\<close>.
  \<^item> \<open>Tx_Steps\<close>: the other operations, the step relation \<open>tx_step\<close> with the states \<open>tx_reach\<close> it leads to, and the properties:
    no frame is lost, none waits for a station that is awake, and sleeping and waking up keep the order. Which power save operations a
    received data frame causes is what \<open>Data_Frames\<close> says.

  \<^bold>\<open>Not modelled.\<close> Register accesses, firmware images and the PHY (\<^verbatim>\<open>hal\<close>): the sources do not say what the chip
  does. Calls into the Linux kernel (\<^verbatim>\<open>os_dep\<close>), statistics, printing and debugging. The state machines of scanning, joining and
  roaming, which are driven by timers and hardware events; of transmission, how a packet gets its attributes, is assembled and
  described to the hardware; mesh
  networking, compiled out of this configuration; the tables of regulatory domains; the shell and Python
  scripts around the driver. Of reception, the handlers of management frames and the choice between
  hardware and software decryption are left out.
\<close>

section \<open>Protected aggregates\<close>

text \<open>
  The received frame as the path from decryption to deaggregation passes it on: the buffer with the
  decrypted body in place, and the lengths of header, initialization vector and integrity value of CCMP.
\<close>

definition protected_rx :: "bytes \<Rightarrow> nat \<Rightarrow> bytes \<Rightarrow> recv_frame" where
  "protected_rx key hdrlen frame =
     \<lparr>rf_buf = frame, rf_data = 0, rf_tail = length frame, rf_len = of_nat (length frame), rf_keytrack = 0,
      rf_encrypt = (if length key = 16 then ENC_AES else ENC_CCMP_256), rf_hdrlen = of_nat hdrlen, rf_iv_len = 8,
      rf_icv_len = of_nat (mic_len key), rf_frag_num = 0, rf_mfrag = False, rf_privacy = True,
      rf_ta = take 6 (drop 10 frame), rf_ra = take 6 (drop 4 frame), rf_priority = 0, rf_key_index = 0\<rparr>"

lemma protected_rx_body:
  assumes "length hp = hdrlen + 8" and "hdrlen < 248" and "length t = mic_len key" and "length (hp @ p @ t) < 2 ^ 32"
  shows "frag_wf (protected_rx key hdrlen (hp @ p @ t))" and "rf_body (protected_rx key hdrlen (hp @ p @ t)) = p"
proof -
  have u8: "unat (of_nat n :: u8) = n" if "n < 256" for n using that by (simp add: unsigned_of_nat take_bit_nat_eq_self)
  have u32: "unat (of_nat n :: u32) = n" if "n < 2 ^ 32" for n using that by (simp add: unsigned_of_nat take_bit_nat_eq_self)
  let ?f = "protected_rx key hdrlen (hp @ p @ t)"
  have lens: "unat (rf_hdrlen ?f) = hdrlen" "unat (rf_iv_len ?f) = 8" "unat (rf_icv_len ?f) = mic_len key" "rf_encrypt ?f \<noteq> 0"
    using assms(2) u8 [of hdrlen] u8 [of "mic_len key"] by (simp_all add: protected_rx_def mic_len_def ENC_AES_def ENC_CCMP_256_def)
  have b: "rf_bytes ?f = hp @ p @ t" by (simp add: protected_rx_def rf_bytes_def)
  have "rf_wf ?f" using assms(4) u32 [OF assms(4)] unfolding rf_wf_def by (simp only: protected_rx_def recv_frame.simps) simp
  then show "frag_wf ?f" using assms(1-3) by (simp add: frag_wf_def lens b)
  show "rf_body ?f = p" using assms(1,3) by (simp add: rf_body_def Let_def lens b)
qed

lemma ccmp_sealed:
  assumes "length key \<in> {16, 32}" and "24 \<le> hdrlen" and "\<forall>n. alloc n" and "length hdr = hdrlen + 8"
  obtains c t where "ccmp_seal alloc spp key (mic_len key) hdrlen (or_frame_control hdr WLAN_FC_ISWEP) p = Some (c, t)"
    and "rtw_ccmp_encrypt alloc spp key hdrlen (hdr @ p @ replicate (mic_len key) 0) (length p) = Some (or_frame_control hdr WLAN_FC_ISWEP @ c @ t)"
    and "length c = length p" and "length t = mic_len key"
proof -
  let ?hp = "or_frame_control hdr WLAN_FC_ISWEP"
  have hp: "length ?hp = hdrlen + 8" using assms(4) by simp
  obtain c t where ct: "ccmp_seal alloc spp key (mic_len key) hdrlen ?hp p = Some (c, t)"
    using ccmp_seal_succeeds [of key alloc "mic_len key"] assms(1,3) by (fastforce simp: mic_len_def)
  note len = ccmp_seal_lengths [OF assms(2) hp ct]
  have "rtw_ccmp_encrypt alloc spp key hdrlen (hdr @ p @ replicate (mic_len key) 0) (length p) = Some (?hp @ c @ t)"
    unfolding rtw_ccmp_encrypt_seal [OF assms(1,2)] using assms(3,4) ct len hp by (simp add: memcpy_at_def)
  with ct len that show ?thesis by blast
qed

lemma ccmp_opened:
  assumes "length key \<in> {16, 32}" and "24 \<le> hdrlen" and "\<forall>n. alloc n" and "length hp = hdrlen + 8"
    and "ccmp_seal alloc spp key (mic_len key) hdrlen hp p = Some (c, t)"
  shows "rtw_ccmp_decrypt alloc spp key hdrlen (hp @ c @ t) (length (hp @ c @ t)) = Some (hp @ p @ t)"
  using rtw_ccmp_decrypt_seal [OF assms(1,2) _ assms(4), of alloc c t spp "[]"] ccmp_seal_lengths [OF assms(2,4,5)] assms(3-5)
  by (simp add: add.assoc)

text \<open>
  C4. From sender to network stack: an A-MSDU of at most 64 subframes that the sender encrypts with CCMP,
  under a 128- or 256-bit key, is decrypted and taken apart by the receiver into exactly the subframes, in
  order, each as the Ethernet frame that IEEE 802.1H defines for it.
\<close>

theorem protected_amsdu_roundtrip:
  assumes "length key \<in> {16, 32}" and "24 \<le> hdrlen" and "hdrlen < 248" and "\<forall>n. alloc n"
    and "length hdr = hdrlen + 8" and "hdrlen + 8 + length (amsdu_enc ss) + mic_len key < 2 ^ 32"
    and "\<forall>s \<in> set ss. sub_fits s \<and> sub_allowed c s" and "length ss \<le> 64"
  shows "\<exists>sealed plain.
    rtw_ccmp_encrypt alloc spp key hdrlen (hdr @ amsdu_enc ss @ replicate (mic_len key) 0) (length (amsdu_enc ss)) = Some sealed \<and>
    rtw_ccmp_decrypt alloc spp key hdrlen sealed (length sealed) = Some plain \<and>
    amsdu_to_msdu c alloc (protected_rx key hdrlen plain) = map sub_eth ss"
proof -
  let ?hp = "or_frame_control hdr WLAN_FC_ISWEP" and ?p = "amsdu_enc ss"
  obtain e t where s: "ccmp_seal alloc spp key (mic_len key) hdrlen ?hp ?p = Some (e, t)"
    "rtw_ccmp_encrypt alloc spp key hdrlen (hdr @ ?p @ replicate (mic_len key) 0) (length ?p) = Some (?hp @ e @ t)"
    "length t = mic_len key"
    using ccmp_sealed [OF assms(1,2,4,5)] by metis
  have hp: "length ?hp = hdrlen + 8" using assms(5) by simp
  have "length (?hp @ ?p @ t) < 2 ^ 32" using hp s(3) assms(6) by (simp add: add.assoc)
  note rx = protected_rx_body [OF hp assms(3) s(3) this]
  have "amsdu_to_msdu c alloc (protected_rx key hdrlen (?hp @ ?p @ t)) = map sub_eth ss"
    unfolding amsdu_to_msdu_body [OF rx(1)] rx(2)
    using assms(4,8) by (intro amsdu_run [OF assms(7) [folded sub_allowed_valid]]) (simp_all add: MAX_SUBFRAME_COUNT_def)
  then show ?thesis using s(2) ccmp_opened [OF assms(1,2,4) hp s(1)] by blast
qed

theorem protected_amsdu_roundtrip_witness:
  "\<exists>sealed plain.
    rtw_ccmp_encrypt (\<lambda>_. True) False (replicate 16 1) 26 (replicate 34 0 @ amsdu_enc example_subframes @ replicate (mic_len (replicate 16 1)) 0)
      (length (amsdu_enc example_subframes)) = Some sealed \<and>
    rtw_ccmp_decrypt (\<lambda>_. True) False (replicate 16 1) 26 sealed (length sealed) = Some plain \<and>
    amsdu_to_msdu example_ctx (\<lambda>_. True) (protected_rx (replicate 16 1) 26 plain) = map sub_eth example_subframes"
proof (rule protected_amsdu_roundtrip)
  show "\<forall>s \<in> set example_subframes. sub_fits s \<and> sub_allowed example_ctx s"
    by (simp add: example_subframes_def example_ctx_def)
qed (simp_all add: example_subframes_def mic_len_def sub_pad_def RTW_PUT_BE16_def)

text \<open>
  Outside SPP mode the additional data of CCMP do not cover the bit of the QoS control field (byte 24 of a
  frame with three addresses) that says whether the body is an A-MSDU.
\<close>

lemma aad_ignores_amsdu_bit:
  assumes "24 < length hp" and "RTW_GET_LE16 hp AND (WLAN_FC_TODS OR WLAN_FC_FROMDS) \<noteq> WLAN_FC_TODS OR WLAN_FC_FROMDS"
  shows "ccmp_aad_nonce False (hp[24 := hp ! 24 OR 0x80]) data = ccmp_aad_nonce False hp data"
proof -
  let ?hq = "hp[24 := hp ! 24 OR 0x80]"
  have q: "(x OR 0x80) AND 0x0f = x AND 0x0f" "((x OR 0x80) AND NOT 0x70) AND NOT 0x80 = (x AND NOT 0x70) AND NOT 0x80" for x :: u8
    by (simp_all add: bit.conj_disj_distrib2 "and.assoc")
  have "drop 24 hp = hp ! 24 # drop 25 hp" using assms(1) Cons_nth_drop_Suc [of 24 hp] by simp
  moreover from this have "drop 24 ?hq = (hp ! 24 OR 0x80) # drop 25 hp" by (simp add: drop_update_swap)
  ultimately have s: "drop 24 hp = hp ! 24 # drop 25 hp" "drop 24 ?hq = (hp ! 24 OR 0x80) # drop 25 hp" .
  have k: "RTW_GET_LE16 ?hq = RTW_GET_LE16 hp" "take 18 (drop 4 ?hq) = take 18 (drop 4 hp)"
    "take 6 (drop 10 ?hq) = take 6 (drop 10 hp)" "RTW_GET_LE16 (drop 22 ?hq) = RTW_GET_LE16 (drop 22 hp)"
    using assms(1) by (simp_all add: RTW_GET_LE16_def drop_update_swap)
  show ?thesis unfolding ccmp_aad_nonce_def Let_def k using assms(2) by (simp add: s q [simplified])
qed

text \<open>
  C5. A relabelled frame does no harm. Outside SPP mode a receiver cannot tell that the A-MSDU bit of an
  encrypted frame was set on the way: decryption succeeds and gives the sender's body. But when
  that body is an ordinary packet, which starts with an LLC/SNAP header, nothing of it is
  handed to the network stack as subframes of the attacker's choice.
\<close>

theorem relabelled_frame_yields_nothing:
  assumes "length key \<in> {16, 32}" and "26 \<le> hdrlen" and "hdrlen < 248" and "\<forall>n. alloc n"
    and "length hdr = hdrlen + 8" and "hdrlen + 8 + length p + mic_len key < 2 ^ 32"
    and "RTW_GET_LE16 hdr AND (WLAN_FC_TODS OR WLAN_FC_FROMDS) \<noteq> WLAN_FC_TODS OR WLAN_FC_FROMDS"
    and "take 6 p = rtw_rfc1042_header" and "am_protected c"
  shows "\<exists>sealed plain.
    rtw_ccmp_encrypt alloc False key hdrlen (hdr @ p @ replicate (mic_len key) 0) (length p) = Some sealed \<and>
    rtw_ccmp_decrypt alloc False key hdrlen (sealed[24 := sealed ! 24 OR 0x80]) (length sealed) = Some plain \<and>
    rf_body (protected_rx key hdrlen plain) = p \<and> amsdu_to_msdu c alloc (protected_rx key hdrlen plain) = []"
proof -
  let ?hp = "or_frame_control hdr WLAN_FC_ISWEP"
  let ?hq = "?hp[24 := ?hp ! 24 OR 0x80]"
  have h24: "24 \<le> hdrlen" using assms(2) by simp
  obtain e t where s: "ccmp_seal alloc False key (mic_len key) hdrlen ?hp p = Some (e, t)"
    "rtw_ccmp_encrypt alloc False key hdrlen (hdr @ p @ replicate (mic_len key) 0) (length p) = Some (?hp @ e @ t)"
    "length t = mic_len key"
    using ccmp_sealed [OF assms(1) h24 assms(4,5)] by metis
  have hp: "length ?hp = hdrlen + 8" "length ?hq = hdrlen + 8" using assms(5) by simp_all
  have "RTW_GET_LE16 ?hp = RTW_GET_LE16 hdr OR WLAN_FC_ISWEP" by (simp add: or_frame_control_def memcpy_at_def RTW_GET_PUT_LE16)
  then have "RTW_GET_LE16 ?hp AND (WLAN_FC_TODS OR WLAN_FC_FROMDS) = RTW_GET_LE16 hdr AND (WLAN_FC_TODS OR WLAN_FC_FROMDS)"
    by (simp add: bit.conj_disj_distrib2 WLAN_FC_ISWEP_def WLAN_FC_TODS_def WLAN_FC_FROMDS_def)
  moreover have "drop hdrlen ?hq = drop hdrlen ?hp" using assms(2) by simp
  ultimately have "ccmp_seal alloc False key (mic_len key) hdrlen ?hq p = Some (e, t)"
    using s(1) aad_ignores_amsdu_bit [of ?hp] hp(1) assms(2,7) by (simp add: ccmp_seal_def)
  from ccmp_opened [OF assms(1) h24 assms(4) hp(2) this]
  have "rtw_ccmp_decrypt alloc False key hdrlen (?hq @ e @ t) (length (?hq @ e @ t)) = Some (?hq @ p @ t)" .
  moreover have "(?hp @ e @ t)[24 := (?hp @ e @ t) ! 24 OR 0x80] = ?hq @ e @ t"
    using hp(1) assms(2) by (simp add: list_update_append nth_append)
  moreover have "length (?hq @ p @ t) < 2 ^ 32" using hp s(3) assms(6) by (simp add: add.assoc)
  note rx = protected_rx_body [OF hp(2) assms(3) s(3) this]
  have "amsdu_to_msdu c alloc (protected_rx key hdrlen (?hq @ p @ t)) = []"
    unfolding amsdu_to_msdu_body [OF rx(1)] rx(2) using assms(8,9)
    by (intro amsdu_loop_stop) (simp add: sub_ok_def validate_amsdu_content_def)
  ultimately show ?thesis using s(2) rx(2) by (metis length_list_update)
qed

definition example_snap :: bytes where
  "example_snap = rtw_rfc1042_header @ [8, 0, 1, 2, 3]"

theorem relabelled_frame_yields_nothing_witness:
  "\<exists>sealed plain.
    rtw_ccmp_encrypt (\<lambda>_. True) False (replicate 16 1) 26 (replicate 34 0 @ example_snap @ replicate (mic_len (replicate 16 1)) 0) (length example_snap) = Some sealed \<and>
    rtw_ccmp_decrypt (\<lambda>_. True) False (replicate 16 1) 26 (sealed[24 := sealed ! 24 OR 0x80]) (length sealed) = Some plain \<and>
    rf_body (protected_rx (replicate 16 1) 26 plain) = example_snap \<and>
    amsdu_to_msdu example_ctx (\<lambda>_. True) (protected_rx (replicate 16 1) 26 plain) = []"
  by (rule relabelled_frame_yields_nothing)
    (simp_all add: example_snap_def rtw_rfc1042_header_def example_ctx_def mic_len_def RTW_GET_LE16_def WLAN_FC_TODS_def WLAN_FC_FROMDS_def)

end
